(* ===== verification/Astra_Prelude.thy ===== *)
theory Astra_Prelude
  imports Main "HOL-Library.Word"
begin

text \<open>
  Shared vocabulary of the development: the enumerations of
  \<^verbatim>\<open>astra-sim/system/Common.hh\<close>, the machine types, the result type in which every
  assertion, panic and early exit of the sources is a value, and the generic lemmas on maps,
  lists and cyclic indices that the component theories use.
\<close>

section \<open>Machine types\<close>

text \<open>
  \<^verbatim>\<open>uint64_t\<close> data sizes are 64-bit words, so multiplication and subtraction wrap as in C++.
  A C++ \<^verbatim>\<open>int\<close> is a mathematical integer: its overflow is undefined behaviour and is not
  part of the model. A \<^verbatim>\<open>Tick\<close> is the number of simulated nanoseconds, a natural number.
\<close>

type_synonym u64 = "64 word"
type_synonym Tick = nat

text \<open>The implicit conversion of an \<^verbatim>\<open>int\<close> operand to \<^verbatim>\<open>uint64_t\<close>.\<close>

definition u64_of_int :: "int \<Rightarrow> u64" where
  "u64_of_int i = word_of_int i"

text \<open>The conversion of a \<^verbatim>\<open>uint64_t\<close> to \<^verbatim>\<open>int\<close> keeps the low 32 bits, as a signed number.\<close>

definition int_of_u64 :: "u64 \<Rightarrow> int" where
  "int_of_u64 w = sint (ucast w :: 32 word)"

text \<open>Integer division and remainder of C++, which truncate towards zero.\<close>

definition c_div :: "int \<Rightarrow> int \<Rightarrow> int" where
  "c_div a b = (if b = 0 then 0 else sgn a * sgn b * (\<bar>a\<bar> div \<bar>b\<bar>))"

definition c_mod :: "int \<Rightarrow> int \<Rightarrow> int" where
  "c_mod a b = a - c_div a b * b"

lemma c_div_mod_nonneg [simp]:
  assumes "0 \<le> a" and "0 < b"
  shows "c_div a b = a div b" "c_mod a b = a mod b"
proof -
  show div: "c_div a b = a div b" using assms by (auto simp: c_div_def sgn_if)
  show "c_mod a b = a mod b" by (simp add: c_mod_def div minus_div_mult_eq_mod)
qed

section \<open>Enumerations of Common.hh\<close>

datatype ComType =
    ComNone | Reduce_Scatter | All_Gather | All_Reduce | All_to_All | All_Reduce_All_to_All

datatype CollectiveOptimization = Baseline | LocalBWAware

datatype SchedulingPolicy = LIFO | FIFO | EXPLICIT | PolicyNone

datatype IntraDimensionScheduling =
    IntraFIFO | RG | SmallestFirst | LessRemainingPhaseFirst

datatype InterDimensionScheduling =
    Ascending | OnlineGreedy | RoundRobin | OfflineGreedy | OfflineGreedyFlex

datatype InjectionPolicy = Infinite | Aggressive | SemiAggressive | ExtraAggressive | Normal

datatype BusType = BusBoth | BusShared | BusMem

datatype StreamState = Created | Transferring | Ready | Executing | Zombie | Dead

datatype EventType =
    CallEvents | General | RendezvousSend | RendezvousRecv | PacketReceived | PacketSent
  | Rec_Finished | Send_Finished | Processing_Finished | NPU_to_MA | MA_to_NPU
  | Consider_Process | Consider_Retire | Consider_Send_Back | StreamInit
  | CommProcessingFinished | CollectiveCommunicationFinished | CompFinished
  | MemLoadFinished | MemStoreFinished

section \<open>Errors as values\<close>

datatype error =
    AssertionFailed string
  | SysPanic string
  | ProcessExit string
  | RuntimeError string
  | NullDeref string
  | OutOfRange string
  | DivisionByZero string

type_synonym 'a result = "error + 'a"

definition rbind :: "'a result \<Rightarrow> ('a \<Rightarrow> 'b result) \<Rightarrow> 'b result" where
  "rbind m f = (case m of Inl e \<Rightarrow> Inl e | Inr x \<Rightarrow> f x)"

definition assert_that :: "bool \<Rightarrow> string \<Rightarrow> unit result" where
  "assert_that b msg = (if b then Inr () else Inl (AssertionFailed msg))"

fun fold_result :: "('x \<Rightarrow> 's \<Rightarrow> 's result) \<Rightarrow> 'x list \<Rightarrow> 's \<Rightarrow> 's result" where
  "fold_result f [] s = Inr s"
| "fold_result f (x # xs) s = rbind (f x s) (fold_result f xs)"

lemma rbind_simps [simp]:
  "rbind (Inl e) f = Inl e" "rbind (Inr x) f = f x"
  by (simp_all add: rbind_def)

lemma rbind_Inr_iff: "rbind m f = Inr y \<longleftrightarrow> (\<exists>x. m = Inr x \<and> f x = Inr y)"
  by (cases m) (auto simp: rbind_def)

lemma assert_that_simps [simp]:
  "b \<Longrightarrow> assert_that b msg = Inr ()" "\<not> b \<Longrightarrow> assert_that b msg = Inl (AssertionFailed msg)"
  by (simp_all add: assert_that_def)

lemma assert_that_Inr_iff: "assert_that b msg = Inr u \<longleftrightarrow> b"
  by (simp add: assert_that_def)

lemma fold_result_append:
  "fold_result f (xs @ ys) s = rbind (fold_result f xs s) (fold_result f ys)"
proof (induction xs arbitrary: s)
  case Nil
  show ?case by simp
next
  case (Cons x xs)
  then show ?case by (cases "f x s") auto
qed

section \<open>Numbers in strings\<close>

text \<open>
  \<^verbatim>\<open>std::stoull\<close> and \<^verbatim>\<open>std::stoi\<close>: white space, an optional sign, digits; what follows is ignored.
\<close>

definition is_digit :: "char \<Rightarrow> bool" where
  "is_digit c \<longleftrightarrow> 48 \<le> (of_char c :: nat) \<and> (of_char c :: nat) \<le> 57"

definition is_space :: "char \<Rightarrow> bool" where
  "is_space c \<longleftrightarrow> (of_char c :: nat) = 32 \<or> 9 \<le> (of_char c :: nat) \<and> (of_char c :: nat) \<le> 13"

definition decimal :: "string \<Rightarrow> nat" where
  "decimal ds = foldl (\<lambda>n c. 10 * n + (of_char c - 48)) 0 ds"

definition digits_of :: "string \<Rightarrow> bool \<times> string" where
  "digits_of str =
     (let s = dropWhile is_space str
      in (s \<noteq> [] \<and> hd s = CHR ''-'', takeWhile is_digit (if s \<noteq> [] \<and> hd s \<in> {CHR ''-'', CHR ''+''} then tl s else s)))"

definition stoull :: "string \<Rightarrow> u64 result" where
  "stoull str =
     (case digits_of str of (negative, ds) \<Rightarrow>
        if ds = [] then Inl (RuntimeError ''stoull: invalid_argument'')
        else if decimal ds \<ge> 2 ^ 64 then Inl (RuntimeError ''stoull: out_of_range'')
        else Inr (if negative then - of_nat (decimal ds) else of_nat (decimal ds)))"

definition stoi :: "string \<Rightarrow> int result" where
  "stoi str =
     (case digits_of str of (negative, ds) \<Rightarrow>
        let n = (if negative then - int (decimal ds) else int (decimal ds)) in
        if ds = [] then Inl (RuntimeError ''stoi: invalid_argument'')
        else if n < - (2 ^ 31) \<or> 2 ^ 31 \<le> n then Inl (RuntimeError ''stoi: out_of_range'')
        else Inr n)"

section \<open>Iteration\<close>

text \<open>Iterating a fallible step a fixed number of times, stopping at the first error.\<close>

fun iter_result :: "nat \<Rightarrow> ('a \<Rightarrow> 'a result) \<Rightarrow> 'a \<Rightarrow> 'a result" where
  "iter_result 0 f x = Inr x"
| "iter_result (Suc k) f x = rbind (f x) (iter_result k f)"

lemma iter_result_Suc_right:
  "iter_result (Suc k) f x = rbind (iter_result k f x) f"
proof (induction k arbitrary: x)
  case 0
  show ?case by (cases "f x") simp_all
next
  case (Suc k)
  then show ?case by (cases "f x") auto
qed

section \<open>Containers\<close>

text \<open>
  Reading a \<^verbatim>\<open>std::map\<close> or \<^verbatim>\<open>std::unordered_map\<close> with \<^verbatim>\<open>operator[]\<close>: a
  missing key reads as the value-initialised element.
\<close>

definition map_index :: "('k \<rightharpoonup> 'v) \<Rightarrow> 'v \<Rightarrow> 'k \<Rightarrow> 'v" where
  "map_index m dflt k = (case m k of None \<Rightarrow> dflt | Some v \<Rightarrow> v)"

lemma map_index_simps [simp]:
  "m k = Some v \<Longrightarrow> map_index m dflt k = v" "m k = None \<Longrightarrow> map_index m dflt k = dflt"
  by (simp_all add: map_index_def)

section \<open>Cyclic indices\<close>

lemma mod_add_one_less:
  fixes k n :: nat
  assumes "k < n"
  shows "(k + 1) mod n = (if k + 1 = n then 0 else k + 1)"
  using assms by auto

lemma mod_sub_one_less:
  fixes k n :: nat
  assumes "k < n"
  shows "(k + n - 1) mod n = (if k = 0 then n - 1 else k - 1)"
proof (cases k)
  case 0
  with assms show ?thesis by simp
next
  case (Suc j)
  with assms show ?thesis by simp
qed

lemma cyclic_succ_prev: "i < n \<Longrightarrow> Suc ((i + n - Suc 0) mod n) mod n = i"
  by (cases i) simp_all

lemma cyclic_shift_inj:
  fixes a b i n :: nat
  assumes "(i + a) mod n = (i + b) mod n" and "a < n" and "b < n"
  shows "a = b"
proof -
  have le: "x = y" if "x \<le> y" "(i + x) mod n = (i + y) mod n" "y < n" for x y
  proof -
    have "n dvd (i + y) - (i + x)" using that by (metis mod_eq_dvd_iff_nat add_le_cancel_left)
    with that show ?thesis by (auto dest: dvd_imp_le)
  qed
  show ?thesis using le [of a b] le [of b a] assms by (cases "a \<le> b") simp_all
qed

lemma int_cyclic_succ:
  "k < n \<Longrightarrow> (if int k + 1 = int n then 0 else int k + 1) = int ((k + 1) mod n)"
  by (cases "Suc k = n") auto

lemma int_cyclic_prev:
  "k < n \<Longrightarrow> (if int k - 1 < 0 then int n - 1 else int k - 1) = int ((k + n - 1) mod n)"
  by (cases k) auto

lemma int_div_mult_eq:
  fixes a b :: int
  assumes "0 < b" and "0 \<le> r" and "r < b"
  shows "(a * b + r) div b = a" "(a * b + r) mod b = r"
  using assms by (simp_all add: div_mult_self3 zdiv_eq_0_iff mod_pos_pos_trivial)

end
