(* ===== verification/Ring_Topology.thy ===== *)
theory Ring_Topology
  imports Astra_Prelude
begin

text \<open>
  The logical ring of \<^verbatim>\<open>logical_topology/RingTopology.cc\<close>: both constructors, the
  private walk \<^verbatim>\<open>get_receiver_homogeneous\<close> that fills the two hash maps, and the
  queries. \<open>ring_wf\<close> is the representation invariant; the locale
  \<open>cyclic_order\<close> is the interface that the collective algorithms rely on, interpreted
  here once per direction.
\<close>

section \<open>State and operations\<close>

datatype Direction = Clockwise | Anticlockwise

datatype Dimension = DimLocal | DimVertical | DimHorizontal | DimNA

record RingTopology =
  rt_id_to_index :: "int \<rightharpoonup> int"
  rt_index_to_id :: "int \<rightharpoonup> int"
  rt_name :: string
  rt_id :: int
  rt_offset :: int
  rt_total_nodes_in_ring :: int
  rt_index_in_ring :: int
  rt_dimension :: Dimension

definition ring_name :: "Dimension \<Rightarrow> string" where
  "ring_name dimension =
     (if dimension = DimVertical then ''vertical''
      else if dimension = DimHorizontal then ''horizontal'' else ''local'')"

text \<open>The loop of the constructor that takes the list of NPUs.\<close>

fun ring_insert_NPUs :: "int list \<Rightarrow> int \<Rightarrow> RingTopology \<Rightarrow> RingTopology" where
  "ring_insert_NPUs [] i t = t"
| "ring_insert_NPUs (npu # npus) i t =
     ring_insert_NPUs npus (i + 1)
       (t\<lparr>rt_id_to_index := (rt_id_to_index t)(npu \<mapsto> i),
          rt_index_to_id := (rt_index_to_id t)(i \<mapsto> npu),
          rt_index_in_ring := (if rt_id t = npu then i else rt_index_in_ring t)\<rparr>)"

definition RingTopology_of_NPUs :: "Dimension \<Rightarrow> int \<Rightarrow> int list \<Rightarrow> RingTopology result" where
  "RingTopology_of_NPUs dimension nid NPUs =
     (let t = ring_insert_NPUs NPUs 0
                \<lparr>rt_id_to_index = Map.empty, rt_index_to_id = Map.empty,
                 rt_name = ring_name dimension, rt_id = nid, rt_offset = -1,
                 rt_total_nodes_in_ring = int (length NPUs), rt_index_in_ring = -1,
                 rt_dimension = dimension\<rparr>
      in rbind (assert_that (rt_index_in_ring t \<ge> 0) ''index_in_ring >= 0'') (\<lambda>_. Inr t))"

definition get_receiver_homogeneous ::
    "RingTopology \<Rightarrow> int \<Rightarrow> Direction \<Rightarrow> int \<Rightarrow> (int \<times> RingTopology) result" where
  "get_receiver_homogeneous t node_id direction offset =
     (case rt_id_to_index t node_id of
        None \<Rightarrow> Inl (AssertionFailed ''id_to_index.find(node_id) != id_to_index.end()'')
      | Some index \<Rightarrow>
          (let total = rt_total_nodes_in_ring t;
               (receiver, index') =
                 (case direction of
                    Clockwise \<Rightarrow>
                      (if index = total - 1 then (node_id + offset - total * offset, 0)
                       else (node_id + offset, index + 1))
                  | Anticlockwise \<Rightarrow>
                      (if index = 0 then (node_id - offset + total * offset, total - 1)
                       else (node_id - offset, index - 1)))
           in rbind (assert_that (receiver \<ge> 0) ''receiver >= 0'')
                (\<lambda>_. Inr (receiver,
                   t\<lparr>rt_id_to_index := (rt_id_to_index t)(receiver \<mapsto> index'),
                     rt_index_to_id := (rt_index_to_id t)(index' \<mapsto> receiver)\<rparr>))))"

fun ring_walk :: "nat \<Rightarrow> int \<Rightarrow> int \<Rightarrow> RingTopology \<Rightarrow> RingTopology result" where
  "ring_walk 0 offset tmp t = Inr t"
| "ring_walk (Suc k) offset tmp t =
     rbind (get_receiver_homogeneous t tmp Clockwise offset)
       (\<lambda>(tmp', t'). ring_walk k offset tmp' t')"

definition RingTopology_homogeneous ::
    "Dimension \<Rightarrow> int \<Rightarrow> int \<Rightarrow> int \<Rightarrow> int \<Rightarrow> RingTopology result" where
  "RingTopology_homogeneous dimension nid total_nodes_in_ring index_in_ring offset =
     ring_walk (nat (total_nodes_in_ring - 1)) offset nid
       \<lparr>rt_id_to_index = [nid \<mapsto> index_in_ring], rt_index_to_id = [index_in_ring \<mapsto> nid],
        rt_name = ring_name dimension, rt_id = nid, rt_offset = offset,
        rt_total_nodes_in_ring = total_nodes_in_ring, rt_index_in_ring = index_in_ring,
        rt_dimension = dimension\<rparr>"

text \<open>
  The queries read \<^verbatim>\<open>index_to_id\<close> with \<^verbatim>\<open>operator[]\<close>, so an index that was never
  filled reads as 0; the default element this inserts is never observable, because that map
  is only ever read by index.
\<close>

definition get_receiver :: "RingTopology \<Rightarrow> int \<Rightarrow> Direction \<Rightarrow> int result" where
  "get_receiver t node_id direction =
     (case rt_id_to_index t node_id of
        None \<Rightarrow> Inl (AssertionFailed ''id_to_index.find(node_id) != id_to_index.end()'')
      | Some index \<Rightarrow>
          (case direction of
             Clockwise \<Rightarrow>
               (let index = index + 1;
                    index = (if index = rt_total_nodes_in_ring t then 0 else index)
                in Inr (map_index (rt_index_to_id t) 0 index))
           | Anticlockwise \<Rightarrow>
               (let index = index - 1;
                    index = (if index < 0 then rt_total_nodes_in_ring t - 1 else index)
                in Inr (map_index (rt_index_to_id t) 0 index))))"

definition get_sender :: "RingTopology \<Rightarrow> int \<Rightarrow> Direction \<Rightarrow> int result" where
  "get_sender t node_id direction =
     (case rt_id_to_index t node_id of
        None \<Rightarrow> Inl (AssertionFailed ''id_to_index.find(node_id) != id_to_index.end()'')
      | Some index \<Rightarrow>
          (case direction of
             Anticlockwise \<Rightarrow>
               (let index = index + 1;
                    index = (if index = rt_total_nodes_in_ring t then 0 else index)
                in Inr (map_index (rt_index_to_id t) 0 index))
           | Clockwise \<Rightarrow>
               (let index = index - 1;
                    index = (if index < 0 then rt_total_nodes_in_ring t - 1 else index)
                in Inr (map_index (rt_index_to_id t) 0 index))))"

definition get_index_in_ring :: "RingTopology \<Rightarrow> int" where
  "get_index_in_ring t = rt_index_in_ring t"

definition get_dimension :: "RingTopology \<Rightarrow> Dimension" where
  "get_dimension t = rt_dimension t"

definition get_nodes_in_ring :: "RingTopology \<Rightarrow> int" where
  "get_nodes_in_ring t = rt_total_nodes_in_ring t"

definition ring_get_num_of_nodes_in_dimension :: "RingTopology \<Rightarrow> int \<Rightarrow> int" where
  "ring_get_num_of_nodes_in_dimension t dimension = get_nodes_in_ring t"

fun ring_first_id :: "nat \<Rightarrow> int \<Rightarrow> int \<Rightarrow> int" where
  "ring_first_id 0 offset tmp_id = tmp_id"
| "ring_first_id (Suc tmp_index) offset tmp_id = ring_first_id tmp_index offset (tmp_id - offset)"

definition ring_is_enabled :: "RingTopology \<Rightarrow> bool result" where
  "ring_is_enabled t =
     rbind (assert_that (rt_offset t > 0) ''offset > 0'')
       (\<lambda>_. Inr (ring_first_id (nat (rt_index_in_ring t)) (rt_offset t) (rt_id t) = 0))"

section \<open>The representation invariant\<close>

definition ring_wf :: "RingTopology \<Rightarrow> bool" where
  "ring_wf t \<longleftrightarrow>
     0 < rt_total_nodes_in_ring t \<and>
     dom (rt_index_to_id t) = {0..<rt_total_nodes_in_ring t} \<and>
     (\<forall>x i. rt_id_to_index t x = Some i \<longleftrightarrow> rt_index_to_id t i = Some x) \<and>
     rt_index_to_id t (rt_index_in_ring t) = Some (rt_id t)"

definition ring_size :: "RingTopology \<Rightarrow> nat" where
  "ring_size t = nat (rt_total_nodes_in_ring t)"

definition ring_at :: "RingTopology \<Rightarrow> nat \<Rightarrow> int" where
  "ring_at t k = map_index (rt_index_to_id t) 0 (int k)"

definition ring_members :: "RingTopology \<Rightarrow> int set" where
  "ring_members t = dom (rt_id_to_index t)"

text \<open>The same ring, read against the direction of traversal.\<close>

definition ring_at_rev :: "RingTopology \<Rightarrow> nat \<Rightarrow> int" where
  "ring_at_rev t k = ring_at t ((ring_size t - k) mod ring_size t)"

lemma ring_wf_index:
  assumes "ring_wf t" and "k < ring_size t"
  shows "rt_index_to_id t (int k) = Some (ring_at t k)"
    and "rt_id_to_index t (ring_at t k) = Some (int k)"
proof -
  from assms have "int k \<in> dom (rt_index_to_id t)"
    by (auto simp: ring_wf_def ring_size_def)
  then show A: "rt_index_to_id t (int k) = Some (ring_at t k)"
    by (auto simp: ring_at_def)
  with assms(1) show "rt_id_to_index t (ring_at t k) = Some (int k)"
    by (simp add: ring_wf_def)
qed

lemma ring_wf_size [simp]: "ring_wf t \<Longrightarrow> int (ring_size t) = rt_total_nodes_in_ring t"
  by (simp add: ring_wf_def ring_size_def)

lemma ring_wf_size_pos: "ring_wf t \<Longrightarrow> 0 < ring_size t"
  by (simp add: ring_wf_def ring_size_def)

lemma ring_members_image:
  assumes "ring_wf t"
  shows "ring_members t = ring_at t ` {..<ring_size t}"
proof
  show "ring_members t \<subseteq> ring_at t ` {..<ring_size t}"
  proof
    fix x
    assume "x \<in> ring_members t"
    then obtain i where "rt_id_to_index t x = Some i" by (auto simp: ring_members_def)
    with assms have i: "rt_index_to_id t i = Some x" by (simp add: ring_wf_def)
    then have "i \<in> dom (rt_index_to_id t)" by blast
    with assms have "0 \<le> i" "i < rt_total_nodes_in_ring t" by (auto simp: ring_wf_def)
    with i show "x \<in> ring_at t ` {..<ring_size t}"
      by (intro image_eqI [where x = "nat i"]) (auto simp: ring_at_def ring_size_def)
  qed
  show "ring_at t ` {..<ring_size t} \<subseteq> ring_members t"
    using ring_wf_index(2) [OF assms] by (auto simp: ring_members_def)
qed

lemma ring_own_index:
  assumes "ring_wf t"
  shows "rt_id t \<in> ring_members t" "rt_id_to_index t (rt_id t) = Some (rt_index_in_ring t)"
  using assms by (auto simp: ring_wf_def ring_members_def)

section \<open>The cyclic interface\<close>

text \<open>
  What the collective algorithms rely on: positions \<open>0..<n\<close> are occupied by pairwise
  different members, \<open>succ\<close> moves one position forward and \<open>prev\<close> one position back,
  both without failing.
\<close>

locale cyclic_order =
  fixes ok :: "'t \<Rightarrow> bool"
    and size_of :: "'t \<Rightarrow> nat"
    and at :: "'t \<Rightarrow> nat \<Rightarrow> 'a"
    and succ :: "'t \<Rightarrow> 'a \<Rightarrow> 'a result"
    and prev :: "'t \<Rightarrow> 'a \<Rightarrow> 'a result"
  assumes size_pos: "ok t \<Longrightarrow> 0 < size_of t"
    and at_inj: "ok t \<Longrightarrow> i < size_of t \<Longrightarrow> j < size_of t \<Longrightarrow> at t i = at t j \<Longrightarrow> i = j"
    and succ_at: "ok t \<Longrightarrow> i < size_of t \<Longrightarrow> succ t (at t i) = Inr (at t ((i + 1) mod size_of t))"
    and prev_at:
      "ok t \<Longrightarrow> i < size_of t \<Longrightarrow>
        prev t (at t i) = Inr (at t ((i + size_of t - 1) mod size_of t))"
begin

definition mem :: "'t \<Rightarrow> 'a set" where
  "mem t = at t ` {..<size_of t}"

lemma prev_succ:
  assumes "ok t" and "x \<in> mem t"
  shows "rbind (succ t x) (prev t) = Inr x"
proof -
  from assms(2) obtain i where i: "i < size_of t" and x: "x = at t i" by (auto simp: mem_def)
  have "((i + 1) mod size_of t + size_of t - 1) mod size_of t = i"
    using i by (cases "i + 1 = size_of t") auto
  with i x assms(1) size_pos [OF assms(1)] show ?thesis
    by (simp add: succ_at prev_at)
qed

lemma succ_prev:
  assumes "ok t" and "x \<in> mem t"
  shows "rbind (prev t x) (succ t) = Inr x"
proof -
  from assms(2) obtain i where i: "i < size_of t" and x: "x = at t i" by (auto simp: mem_def)
  have "((i + size_of t - 1) mod size_of t + 1) mod size_of t = i"
    using i by (simp add: cyclic_succ_prev)
  with i x assms(1) size_pos [OF assms(1)] show ?thesis
    by (simp add: succ_at prev_at)
qed

lemma iter_succ:
  assumes "ok t" and "i < size_of t"
  shows "iter_result k (succ t) (at t i) = Inr (at t ((i + k) mod size_of t))"
proof (induction k)
  case 0
  with assms show ?case by simp
next
  case (Suc k)
  have "succ t (at t ((i + k) mod size_of t)) = Inr (at t (((i + k) mod size_of t + 1) mod size_of t))"
    using assms size_pos by (intro succ_at) auto
  with Suc show ?case
    by (simp add: iter_result_Suc_right mod_Suc_eq del: iter_result.simps)
qed

text \<open>Walking the whole ring comes back to the start, and no shorter walk does.\<close>

lemma iter_succ_period:
  assumes "ok t" and "x \<in> mem t"
  shows "iter_result k (succ t) x = Inr x \<longleftrightarrow> size_of t dvd k"
proof -
  from assms(2) obtain i where i: "i < size_of t" and x: "x = at t i" by (auto simp: mem_def)
  have "iter_result k (succ t) x = Inr x \<longleftrightarrow> at t ((i + k) mod size_of t) = at t i"
    using iter_succ [OF assms(1) i] x by simp
  also have "\<dots> \<longleftrightarrow> (i + k) mod size_of t = i"
    using at_inj assms(1) i size_pos [OF assms(1)] by (metis mod_less_divisor)
  also have "\<dots> \<longleftrightarrow> size_of t dvd k"
    using i by (metis add_diff_cancel_left' dvd_triv_left le_add1 mod_eq_dvd_iff_nat mod_less)
  finally show ?thesis .
qed

lemma succ_reaches_all:
  assumes "ok t" and "x \<in> mem t" and "y \<in> mem t"
  shows "\<exists>k < size_of t. iter_result k (succ t) x = Inr y"
proof -
  from assms obtain i j where ij: "i < size_of t" "j < size_of t" "x = at t i" "y = at t j"
    by (auto simp: mem_def)
  let ?k = "(j + size_of t - i) mod size_of t"
  have "(i + ?k) mod size_of t = (i + (j + size_of t - i)) mod size_of t"
    by (rule mod_add_right_eq)
  also have "\<dots> = j" using ij by simp
  finally have "iter_result ?k (succ t) x = Inr y"
    using iter_succ [OF assms(1) ij(1)] ij by simp
  then show ?thesis using ij(1) by (intro exI [of _ ?k]) auto
qed

text \<open>Walking on while skipping the start visits the other members in order, again and again.\<close>

lemma skip_self:
  assumes "ok t" and "x \<in> mem t" and "2 \<le> size_of t"
    and "iter_result (Suc (k mod (size_of t - 1))) (succ t) x = Inr y"
  shows "rbind (succ t y) (\<lambda>c. if c = x then succ t c else Inr c)
    = iter_result (Suc (Suc k mod (size_of t - 1))) (succ t) x"
proof -
  let ?j = "k mod (size_of t - 1)"
  have j: "?j < size_of t - 1" using assms(3) by simp
  have walk: "succ t y = iter_result (Suc (Suc ?j)) (succ t) x"
    using assms(4) by (subst iter_result_Suc_right) (simp del: iter_result.simps)
  have at_x: "succ t y = Inr x \<longleftrightarrow> Suc (Suc ?j) = size_of t"
    unfolding walk using iter_succ_period [OF assms(1,2), of "Suc (Suc ?j)"] j
    by (auto dest: dvd_imp_le)
  obtain i where i: "i < size_of t" "x = at t i" using assms(2) by (auto simp: mem_def)
  obtain c where c: "succ t y = Inr c" unfolding walk i(2) using iter_succ [OF assms(1) i(1)] by blast
  show ?thesis
  proof (cases "Suc (Suc ?j) = size_of t")
    case True
    then have "Suc k mod (size_of t - 1) = 0" by (metis Suc_diff_1 diff_Suc_1 mod_Suc_eq mod_self)
    with True at_x show ?thesis by (cases "succ t x") simp_all
  next
    case False
    with j have "Suc ?j < size_of t - 1" by simp
    then have "Suc k mod (size_of t - 1) = Suc ?j" by (metis mod_Suc_eq mod_less)
    with False at_x c walk show ?thesis by auto
  qed
qed

lemma iter_succ_in:
  assumes "ok t" and "x \<in> mem t"
  shows "\<exists>y\<in>mem t. iter_result k (succ t) x = Inr y"
proof -
  obtain i where "i < size_of t" "x = at t i" using assms(2) by (auto simp: mem_def)
  then show ?thesis
    using iter_succ [OF assms(1), of i k] size_pos [OF assms(1)] by (auto simp: mem_def)
qed

text \<open>The members other than the start are met exactly once each in one round.\<close>

lemma others_once:
  assumes "ok t" and "x \<in> mem t"
  shows "(\<lambda>k. iter_result (Suc k) (succ t) x) ` {..<size_of t - 1} = Inr ` (mem t - {x})"
    and "inj_on (\<lambda>k. iter_result (Suc k) (succ t) x) {..<size_of t - 1}"
proof -
  obtain i where i: "i < size_of t" "x = at t i" using assms(2) by (auto simp: mem_def)
  have walk: "iter_result k (succ t) x = Inr (at t ((i + k) mod size_of t))" for k
    using iter_succ [OF assms(1) i(1)] i(2) by simp
  have lt: "m mod size_of t < size_of t" for m using i(1) by simp
  have same: "a = b" if "iter_result a (succ t) x = iter_result b (succ t) x"
    "a < size_of t" "b < size_of t" for a b
  proof -
    from that(1) have "(i + a) mod size_of t = (i + b) mod size_of t"
      unfolding walk using at_inj [OF assms(1) lt lt] by simp
    then show ?thesis using that(2,3) by (rule cyclic_shift_inj)
  qed
  show "inj_on (\<lambda>k. iter_result (Suc k) (succ t) x) {..<size_of t - 1}"
    by (rule inj_onI) (use same in \<open>force simp del: iter_result.simps\<close>)
  have "y \<in> mem t - {x} \<longleftrightarrow> (\<exists>k < size_of t - 1. iter_result (Suc k) (succ t) x = Inr y)" for y
  proof
    assume y: "y \<in> mem t - {x}"
    then obtain k where k: "k < size_of t" "iter_result k (succ t) x = Inr y"
      using succ_reaches_all [OF assms, of y] by auto
    with y obtain j where "k = Suc j" by (cases k) auto
    with k show "\<exists>k < size_of t - 1. iter_result (Suc k) (succ t) x = Inr y"
      by (intro exI [of _ j]) auto
  next
    assume "\<exists>k < size_of t - 1. iter_result (Suc k) (succ t) x = Inr y"
    then obtain k where k: "k < size_of t - 1" "iter_result (Suc k) (succ t) x = Inr y" by blast
    have "Suc k < size_of t" using k(1) by linarith
    then have "y \<noteq> x" using same [of "Suc k" 0] k(2) by auto
    moreover have "y \<in> mem t" using iter_succ_in [OF assms, of "Suc k"] k(2) by simp
    ultimately show "y \<in> mem t - {x}" by simp
  qed
  note others = this
  show "(\<lambda>k. iter_result (Suc k) (succ t) x) ` {..<size_of t - 1} = Inr ` (mem t - {x})"
  proof (intro set_eqI iffI)
    fix z
    assume "z \<in> (\<lambda>k. iter_result (Suc k) (succ t) x) ` {..<size_of t - 1}"
    then obtain k where k: "k < size_of t - 1" "z = iter_result (Suc k) (succ t) x" by blast
    then obtain y where y: "z = Inr y" using walk by blast
    with k have "y \<in> mem t - {x}" unfolding others by metis
    with y show "z \<in> Inr ` (mem t - {x})" by blast
  next
    fix z
    assume "z \<in> (Inr ` (mem t - {x}) :: 'a result set)"
    then obtain y where z: "z = Inr y" and "y \<in> mem t - {x}" by blast
    then obtain k where "k < size_of t - 1" "iter_result (Suc k) (succ t) x = Inr y"
      unfolding others by blast
    with z show "z \<in> (\<lambda>k. iter_result (Suc k) (succ t) x) ` {..<size_of t - 1}"
      by (intro image_eqI [of _ _ k]) auto
  qed
qed

end

lemma get_receiver_at:
  assumes "ring_wf t" and "k < ring_size t"
  shows "get_receiver t (ring_at t k) Clockwise = Inr (ring_at t ((k + 1) mod ring_size t))"
    and "get_sender t (ring_at t k) Anticlockwise = Inr (ring_at t ((k + 1) mod ring_size t))"
    and "get_receiver t (ring_at t k) Anticlockwise =
      Inr (ring_at t ((k + ring_size t - 1) mod ring_size t))"
    and "get_sender t (ring_at t k) Clockwise =
      Inr (ring_at t ((k + ring_size t - 1) mod ring_size t))"
proof -
  have size: "rt_total_nodes_in_ring t = int (ring_size t)" using assms(1) by simp
  have up: "(if int k + 1 = int (ring_size t) then 0 else int k + 1)
      = int ((k + 1) mod ring_size t)"
    using assms(2) by (rule int_cyclic_succ)
  have down: "(if int k - 1 < 0 then int (ring_size t) - 1 else int k - 1)
      = int ((k + ring_size t - 1) mod ring_size t)"
    using assms(2) by (rule int_cyclic_prev)
  note defs = get_receiver_def get_sender_def Let_def ring_wf_index(2) [OF assms] size up down
  show "get_receiver t (ring_at t k) Clockwise = Inr (ring_at t ((k + 1) mod ring_size t))"
    "get_sender t (ring_at t k) Anticlockwise = Inr (ring_at t ((k + 1) mod ring_size t))"
    "get_receiver t (ring_at t k) Anticlockwise =
      Inr (ring_at t ((k + ring_size t - 1) mod ring_size t))"
    "get_sender t (ring_at t k) Clockwise =
      Inr (ring_at t ((k + ring_size t - 1) mod ring_size t))"
    by (simp_all only: defs option.simps Direction.simps ring_at_def [symmetric])
qed

lemma ring_at_inj:
  "ring_wf t \<Longrightarrow> i < ring_size t \<Longrightarrow> j < ring_size t \<Longrightarrow> ring_at t i = ring_at t j \<Longrightarrow> i = j"
  by (metis of_nat_eq_iff option.inject ring_wf_index(2))

interpretation cw: cyclic_order ring_wf ring_size ring_at
  "\<lambda>t x. get_receiver t x Clockwise" "\<lambda>t x. get_sender t x Clockwise"
  by unfold_locales (auto simp: ring_wf_size_pos get_receiver_at intro: ring_at_inj)

lemma ring_rev_index:
  assumes "k < n"
  shows "((n - k) mod n + n - 1) mod n = (n - (k + 1) mod n) mod (n::nat)"
    and "((n - k) mod n + 1) mod n = (n - (k + n - 1) mod n) mod n"
proof -
  show "((n - k) mod n + n - 1) mod n = (n - (k + 1) mod n) mod n"
    using assms by (cases k; cases "Suc k = n") (auto simp: mod_if)
  show "((n - k) mod n + 1) mod n = (n - (k + n - 1) mod n) mod n"
    using assms by (cases k) (auto simp: mod_if)
qed

interpretation acw: cyclic_order ring_wf ring_size ring_at_rev
  "\<lambda>t x. get_receiver t x Anticlockwise" "\<lambda>t x. get_sender t x Anticlockwise"
proof
  fix t i j
  assume t: "ring_wf t"
  then show "0 < ring_size t" by (rule ring_wf_size_pos)
  then have lt: "(ring_size t - k) mod ring_size t < ring_size t" for k by simp
  assume i: "i < ring_size t"
  show "get_receiver t (ring_at_rev t i) Anticlockwise
      = Inr (ring_at_rev t ((i + 1) mod ring_size t))"
    using get_receiver_at(3) [OF t lt] ring_rev_index(1) [OF i] by (simp add: ring_at_rev_def)
  show "get_sender t (ring_at_rev t i) Anticlockwise
      = Inr (ring_at_rev t ((i + ring_size t - 1) mod ring_size t))"
    using get_receiver_at(2) [OF t lt] ring_rev_index(2) [OF i] by (simp add: ring_at_rev_def)
  assume "j < ring_size t" and "ring_at_rev t i = ring_at_rev t j"
  then have "(ring_size t - i) mod ring_size t = (ring_size t - j) mod ring_size t"
    using ring_at_inj [OF t lt lt] by (simp add: ring_at_rev_def)
  with i \<open>j < ring_size t\<close> show "i = j"
    by (auto simp: mod_if split: if_splits)
qed

lemma mem_eq_ring_members:
  assumes "ring_wf t"
  shows "cw.mem t = ring_members t" "acw.mem t = ring_members t"
proof -
  show "cw.mem t = ring_members t"
    using assms by (simp add: cw.mem_def ring_members_image)
  have "k = (ring_size t - (ring_size t - k) mod ring_size t) mod ring_size t"
    if "k < ring_size t" for k
    using that by (auto simp: mod_if)
  then have "(\<lambda>k. (ring_size t - k) mod ring_size t) ` {..<ring_size t} = {..<ring_size t}"
    using ring_wf_size_pos [OF assms] by (force simp: image_iff)
  then show "acw.mem t = ring_members t"
    using assms unfolding acw.mem_def ring_at_rev_def ring_members_image [OF assms]
    by (metis image_image)
qed

section \<open>The constructors build well-formed rings\<close>

text \<open>
  The maps of the homogeneous constructor after it has visited the positions \<open>S\<close>: position
  \<open>k\<close> holds the node \<open>base + k * offset\<close>.
\<close>

definition partial_ring :: "int \<Rightarrow> int \<Rightarrow> int set \<Rightarrow> RingTopology \<Rightarrow> bool" where
  "partial_ring base offset S t \<longleftrightarrow>
     rt_index_to_id t = (\<lambda>k. if k \<in> S then Some (base + k * offset) else None) \<and>
     (\<forall>x i. rt_id_to_index t x = Some i \<longleftrightarrow> i \<in> S \<and> x = base + i * offset)"

definition ring_params :: "RingTopology \<Rightarrow> string \<times> int \<times> int \<times> int \<times> int \<times> Dimension" where
  "ring_params t = (rt_name t, rt_id t, rt_offset t, rt_total_nodes_in_ring t,
     rt_index_in_ring t, rt_dimension t)"

lemma get_receiver_homogeneous_step:
  assumes "partial_ring base offset S t" and "k \<in> S" and "S \<subseteq> {0..<n}"
    and "rt_total_nodes_in_ring t = n" and "0 < offset" and "0 \<le> base"
  defines "k' \<equiv> (k + 1) mod n"
  shows "\<exists>t'. get_receiver_homogeneous t (base + k * offset) Clockwise offset
            = Inr (base + k' * offset, t') \<and>
          partial_ring base offset (insert k' S) t' \<and>
          ring_params t' = ring_params t"
proof -
  from assms have k: "0 \<le> k" "k < n" by auto
  have k': "k' = (if k = n - 1 then 0 else k + 1)"
    using k by (simp add: k'_def mod_pos_pos_trivial)
  then have recv: "(if k = n - 1 then (base + k * offset + offset - n * offset, 0)
      else (base + k * offset + offset, k + 1)) = (base + k' * offset, k')"
    by (auto simp: algebra_simps)
  have nonneg: "0 \<le> base + k' * offset" using assms k k' by simp
  have idx: "rt_id_to_index t (base + k * offset) = Some k"
    using assms by (simp add: partial_ring_def)
  have upd: "((rt_id_to_index t)(base + k' * offset \<mapsto> k')) x = Some i
      \<longleftrightarrow> i \<in> insert k' S \<and> x = base + i * offset" for x i
    using assms by (auto simp: partial_ring_def)
  have "get_receiver_homogeneous t (base + k * offset) Clockwise offset
      = Inr (base + k' * offset,
             t\<lparr>rt_id_to_index := (rt_id_to_index t)(base + k' * offset \<mapsto> k'),
               rt_index_to_id := (rt_index_to_id t)(k' \<mapsto> base + k' * offset)\<rparr>)"
    using nonneg recv
    by (simp add: get_receiver_homogeneous_def idx assms(4) Let_def del: fun_upd_apply)
  moreover have "(rt_index_to_id t)(k' \<mapsto> base + k' * offset)
      = (\<lambda>k. if k \<in> insert k' S then Some (base + k * offset) else None)"
    using assms(1) by (auto simp: partial_ring_def)
  ultimately show ?thesis
    using upd by (simp add: partial_ring_def ring_params_def del: fun_upd_apply)
qed

lemma ring_walk_partial:
  assumes "partial_ring base offset S t" and "k \<in> S" and "S \<subseteq> {0..<n}"
    and "rt_total_nodes_in_ring t = n" and "0 < offset" and "0 \<le> base"
  shows "\<exists>t'. ring_walk j offset (base + k * offset) t = Inr t' \<and>
          partial_ring base offset (S \<union> (\<lambda>i. (k + int i) mod n) ` {1..j}) t' \<and>
          ring_params t' = ring_params t"
  using assms
proof (induction j arbitrary: S t k)
  case 0
  then show ?case by simp
next
  case (Suc j)
  let ?k = "(k + 1) mod n"
  from Suc.prems obtain t1 where
    t1: "get_receiver_homogeneous t (base + k * offset) Clockwise offset
           = Inr (base + ?k * offset, t1)"
      "partial_ring base offset (insert ?k S) t1"
      "ring_params t1 = ring_params t"
    using get_receiver_homogeneous_step by blast
  from Suc.prems(2,3) have "0 < n" by auto
  then have sub: "insert ?k S \<subseteq> {0..<n}" using Suc.prems(3) by simp
  have tot: "rt_total_nodes_in_ring t1 = n"
    using t1(3) Suc.prems(4) by (simp add: ring_params_def)
  from Suc.IH [OF t1(2) _ sub tot Suc.prems(5,6)] obtain t' where
    t': "ring_walk j offset (base + ?k * offset) t1 = Inr t'"
      "partial_ring base offset (insert ?k S \<union> (\<lambda>i. (?k + int i) mod n) ` {1..j}) t'"
      "ring_params t' = ring_params t1"
    by blast
  have "(\<lambda>i. (?k + int i) mod n) ` {1..j} = (\<lambda>i. (k + int i) mod n) ` Suc ` {1..j}"
    by (simp only: image_image) (simp add: mod_add_left_eq mod_add_right_eq algebra_simps)
  also have "insert ?k \<dots> = (\<lambda>i. (k + int i) mod n) ` insert 1 (Suc ` {1..j})"
    by simp
  also have "insert 1 (Suc ` {1..j}) = {1..Suc j}"
    by (simp add: image_Suc_atLeastAtMost atLeastAtMost_insertL numeral_2_eq_2)
  finally have "insert ?k S \<union> (\<lambda>i. (?k + int i) mod n) ` {1..j}
      = S \<union> (\<lambda>i. (k + int i) mod n) ` {1..Suc j}"
    by auto
  with t1 t' show ?case by simp
qed

lemma cyclic_range_int:
  fixes k n :: int
  assumes "0 \<le> k" and "k < n"
  shows "{k} \<union> (\<lambda>i. (k + int i) mod n) ` {1..nat (n - 1)} = {0..<n}"
proof -
  have "x \<in> {k} \<union> (\<lambda>i. (k + int i) mod n) ` {1..nat (n - 1)}" if "0 \<le> x" "x < n" for x
  proof (cases "x = k")
    case False
    have "(k + (x - k) mod n) mod n = x"
      using that by (simp add: mod_simps)
    moreover have "(x - k) mod n \<noteq> 0"
      using that assms False by (metis eq_iff_diff_eq_0 mod_eq_dvd_iff mod_pos_pos_trivial dvd_eq_mod_eq_0)
    moreover have "0 \<le> (x - k) mod n" "(x - k) mod n < n" using assms by auto
    ultimately show ?thesis
      by (intro UnI2 image_eqI [where x = "nat ((x - k) mod n)"]) auto
  qed simp
  then have "{0..<n} \<subseteq> {k} \<union> (\<lambda>i. (k + int i) mod n) ` {1..nat (n - 1)}"
    by (meson atLeastLessThan_iff subsetI)
  then show ?thesis using assms by (intro equalityI) auto
qed

lemma partial_ring_full:
  assumes "partial_ring base offset {0..<n} t" and "rt_total_nodes_in_ring t = n"
    and "0 \<le> rt_index_in_ring t" and "rt_index_in_ring t < n"
    and "rt_id t = base + rt_index_in_ring t * offset"
  shows "ring_wf t" "k < ring_size t \<Longrightarrow> ring_at t k = base + int k * offset"
proof -
  show "ring_wf t"
    using assms by (auto simp: ring_wf_def partial_ring_def split: if_splits)
  show "k < ring_size t \<Longrightarrow> ring_at t k = base + int k * offset"
    using assms by (simp add: ring_at_def ring_size_def partial_ring_def)
qed

lemma ring_homogeneous_built:
  assumes "0 < offset" and "0 \<le> index" and "index < nodes" and "0 \<le> base"
  shows "\<exists>t. RingTopology_homogeneous dimension (base + index * offset) nodes index offset = Inr t \<and>
          partial_ring base offset {0..<nodes} t \<and>
          ring_params t = (ring_name dimension, base + index * offset, offset, nodes, index, dimension)"
proof -
  let ?t = "\<lparr>rt_id_to_index = [base + index * offset \<mapsto> index],
     rt_index_to_id = [index \<mapsto> base + index * offset],
     rt_name = ring_name dimension, rt_id = base + index * offset, rt_offset = offset,
     rt_total_nodes_in_ring = nodes, rt_index_in_ring = index, rt_dimension = dimension\<rparr>"
  have "partial_ring base offset {index} ?t"
    by (auto simp: partial_ring_def)
  from ring_walk_partial [OF this, of index nodes "nat (nodes - 1)"] assms
  show ?thesis
    using cyclic_range_int [of index nodes]
    by (simp add: RingTopology_homogeneous_def ring_params_def)
qed

lemma ring_NPUs_maps:
  assumes "distinct (pre @ NPUs)"
    and "\<And>k. rt_index_to_id t k = (if 0 \<le> k \<and> k < int (length pre) then Some (pre ! nat k) else None)"
    and "\<And>x i. rt_id_to_index t x = Some i \<longleftrightarrow> rt_index_to_id t i = Some x"
    and "t' = ring_insert_NPUs NPUs (int (length pre)) t"
  shows "rt_index_to_id t' k
      = (if 0 \<le> k \<and> k < int (length (pre @ NPUs)) then Some ((pre @ NPUs) ! nat k) else None)
    \<and> (rt_id_to_index t' x = Some i \<longleftrightarrow> rt_index_to_id t' i = Some x)
    \<and> rt_id t' = rt_id t \<and> rt_total_nodes_in_ring t' = rt_total_nodes_in_ring t
    \<and> rt_dimension t' = rt_dimension t"
  using assms
proof (induction NPUs arbitrary: pre t)
  case Nil
  then show ?case by simp
next
  case (Cons npu NPUs)
  let ?t = "t\<lparr>rt_id_to_index := (rt_id_to_index t)(npu \<mapsto> int (length pre)),
          rt_index_to_id := (rt_index_to_id t)(int (length pre) \<mapsto> npu),
          rt_index_in_ring := (if rt_id t = npu then int (length pre) else rt_index_in_ring t)\<rparr>"
  have 1: "distinct ((pre @ [npu]) @ NPUs)" using Cons.prems(1) by simp
  have 2: "rt_index_to_id ?t k
      = (if 0 \<le> k \<and> k < int (length (pre @ [npu])) then Some ((pre @ [npu]) ! nat k) else None)" for k
    using Cons.prems(2) by (auto simp: nth_append)
  have fresh: "rt_index_to_id t i \<noteq> Some npu" for i
  proof
    assume "rt_index_to_id t i = Some npu"
    then have "0 \<le> i" "i < int (length pre)" "pre ! nat i = npu"
      using Cons.prems(2) by (auto split: if_splits)
    then have "npu \<in> set pre" by (metis nat_less_iff nth_mem)
    with Cons.prems(1) show False by auto
  qed
  have 3: "rt_id_to_index ?t x = Some i \<longleftrightarrow> rt_index_to_id ?t i = Some x" for x i
    using fresh Cons.prems(3) Cons.prems(2) [of "int (length pre)"] by (cases "x = npu") auto
  have 4: "t' = ring_insert_NPUs NPUs (int (length (pre @ [npu]))) ?t"
    using Cons.prems(4) by (simp add: add.commute)
  from Cons.IH [OF 1 2 3 4] show ?case by simp
qed

lemma ring_insert_own_index:
  assumes "distinct (pre @ NPUs)" and "t' = ring_insert_NPUs NPUs (int (length pre)) t"
  shows "rt_index_in_ring t' =
    (if rt_id t \<in> set NPUs then int (length pre + length (takeWhile ((\<noteq>) (rt_id t)) NPUs))
     else rt_index_in_ring t)"
  using assms
proof (induction NPUs arbitrary: pre t)
  case Nil
  then show ?case by simp
next
  case (Cons npu NPUs)
  let ?t = "t\<lparr>rt_id_to_index := (rt_id_to_index t)(npu \<mapsto> int (length pre)),
          rt_index_to_id := (rt_index_to_id t)(int (length pre) \<mapsto> npu),
          rt_index_in_ring := (if rt_id t = npu then int (length pre) else rt_index_in_ring t)\<rparr>"
  have "t' = ring_insert_NPUs NPUs (int (length (pre @ [npu]))) ?t"
    using Cons.prems(2) by (simp add: add.commute)
  from Cons.IH [OF _ this] Cons.prems(1) show ?case by auto
qed

lemma ring_NPUs_built:
  assumes "distinct NPUs" and "nid \<in> set NPUs"
  shows "\<exists>t. RingTopology_of_NPUs dimension nid NPUs = Inr t \<and> ring_wf t \<and>
          ring_size t = length NPUs \<and> rt_id t = nid \<and> rt_dimension t = dimension \<and>
          (\<forall>k < length NPUs. ring_at t k = NPUs ! k)"
proof -
  let ?t0 = "\<lparr>rt_id_to_index = Map.empty, rt_index_to_id = Map.empty,
     rt_name = ring_name dimension, rt_id = nid, rt_offset = -1,
     rt_total_nodes_in_ring = int (length NPUs), rt_index_in_ring = -1, rt_dimension = dimension\<rparr>"
  define t where "t = ring_insert_NPUs NPUs 0 ?t0"
  have t: "t = ring_insert_NPUs NPUs (int (length ([]::int list))) ?t0" by (simp add: t_def)
  have maps: "rt_index_to_id t k
      = (if 0 \<le> k \<and> k < int (length NPUs) then Some (NPUs ! nat k) else None)"
    "rt_id_to_index t x = Some i \<longleftrightarrow> rt_index_to_id t i = Some x"
    "rt_id t = nid" "rt_total_nodes_in_ring t = int (length NPUs)" "rt_dimension t = dimension"
    for k x i
    using ring_NPUs_maps [OF _ _ _ t, of k x i] assms(1) by simp_all
  let ?i = "length (takeWhile ((\<noteq>) nid) NPUs)"
  have own: "rt_index_in_ring t = int ?i"
    using ring_insert_own_index [OF _ t] assms by simp
  obtain ys zs where "NPUs = ys @ nid # zs" and "nid \<notin> set ys"
    using assms(2) by (meson split_list_first)
  moreover from this have "takeWhile ((\<noteq>) nid) NPUs = ys"
    by (auto simp: takeWhile_append takeWhile_eq_all_conv)
  ultimately have i: "?i < length NPUs" "NPUs ! ?i = nid" by simp_all
  then have "ring_wf t"
    using maps own i by (auto simp: ring_wf_def split: if_splits)
  moreover have "RingTopology_of_NPUs dimension nid NPUs = Inr t"
    using own by (simp add: RingTopology_of_NPUs_def t_def [symmetric])
  ultimately show ?thesis
    using maps by (auto simp: ring_size_def ring_at_def)
qed

section \<open>Every node holds its own copy of the ring\<close>

lemma ring_copies_agree:
  assumes "ring_wf t" and "ring_wf t'" and "ring_size t' = ring_size t"
    and "\<forall>k < ring_size t. ring_at t' k = ring_at t k" and "x \<in> ring_members t"
  shows "get_receiver t' x d = get_receiver t x d" "get_sender t' x d = get_sender t x d"
proof -
  from assms(1,5) obtain k where k: "k < ring_size t" "x = ring_at t k"
    by (auto simp: ring_members_image)
  then have x: "x = ring_at t' k" and k': "k < ring_size t'" using assms(3,4) by auto
  have lt: "j mod ring_size t < ring_size t" for j using ring_wf_size_pos [OF assms(1)] by simp
  note eqs = get_receiver_at [OF assms(2) k', folded x] get_receiver_at [OF assms(1) k(1), folded k(2)]
  show "get_receiver t' x d = get_receiver t x d" "get_sender t' x d = get_sender t x d"
    using assms(3,4) lt by (cases d; simp add: eqs)+
qed

lemma ring_first_id_eq: "ring_first_id k offset x = x - int k * offset"
  by (induction k arbitrary: x) (simp_all add: algebra_simps)

fun flip :: "Direction \<Rightarrow> Direction" where
  "flip Clockwise = Anticlockwise"
| "flip Anticlockwise = Clockwise"

lemma get_sender_flip: "get_sender t x d = get_receiver t x (flip d)"
  by (cases d; cases "rt_id_to_index t x") (simp_all add: get_sender_def get_receiver_def)

text \<open>The peer that is \<open>1 + k mod (n - 1)\<close> hops away: all others in turn, never the node itself.\<close>

definition ring_peer :: "RingTopology \<Rightarrow> Direction \<Rightarrow> int \<Rightarrow> nat \<Rightarrow> int" where
  "ring_peer t d x k =
     projr (iter_result (Suc (k mod (ring_size t - 1))) (\<lambda>z. get_receiver t z d) x)"

lemma ring_peer_walk:
  assumes "ring_wf t" and "x \<in> ring_members t"
  shows "iter_result (Suc (k mod (ring_size t - 1))) (\<lambda>z. get_receiver t z d) x
    = Inr (ring_peer t d x k)"
proof -
  obtain y where "iter_result (Suc (k mod (ring_size t - 1))) (\<lambda>z. get_receiver t z d) x = Inr y"
    using cw.iter_succ_in [of t x "Suc (k mod (ring_size t - 1))"]
      acw.iter_succ_in [of t x "Suc (k mod (ring_size t - 1))"] assms
    by (cases d) (auto simp: mem_eq_ring_members simp del: iter_result.simps)
  then show ?thesis by (simp add: ring_peer_def del: iter_result.simps)
qed

lemma ring_peer_first:
  assumes "ring_wf t" and "x \<in> ring_members t"
  shows "get_receiver t x d = Inr (ring_peer t d x 0)"
  using ring_peer_walk [OF assms, of 0 d] by (cases "get_receiver t x d") simp_all

lemma ring_peer_next:
  assumes "ring_wf t" and "x \<in> ring_members t" and "2 \<le> ring_size t"
  shows "rbind (get_receiver t (ring_peer t d x k) d) (\<lambda>c. if c = x then get_receiver t c d else Inr c)
    = Inr (ring_peer t d x (Suc k))"
proof (cases d)
  case Clockwise
  show ?thesis
    using cw.skip_self [of t x k "ring_peer t Clockwise x k"] assms
    unfolding Clockwise ring_peer_walk [OF assms(1,2)] by (simp add: mem_eq_ring_members)
next
  case Anticlockwise
  show ?thesis
    using acw.skip_self [of t x k "ring_peer t Anticlockwise x k"] assms
    unfolding Anticlockwise ring_peer_walk [OF assms(1,2)] by (simp add: mem_eq_ring_members)
qed

lemma ring_peers_once:
  assumes "ring_wf t" and "x \<in> ring_members t"
  shows "distinct (map (ring_peer t d x) [0..<ring_size t - 1])"
    and "set (map (ring_peer t d x) [0..<ring_size t - 1]) = ring_members t - {x}"
proof -
  let ?f = "\<lambda>k. iter_result (Suc k) (\<lambda>z. get_receiver t z d) x"
  have eq: "?f k = Inr (ring_peer t d x k)" if "k < ring_size t - 1" for k
    using ring_peer_walk [OF assms, of k d] that by (simp del: iter_result.simps)
  have inj: "inj_on ?f {..<ring_size t - 1}" and img: "?f ` {..<ring_size t - 1} = Inr ` (ring_members t - {x})"
    using cw.others_once [of t x] acw.others_once [of t x] assms
    by (cases d; simp add: mem_eq_ring_members del: iter_result.simps)+
  have "inj_on (ring_peer t d x) {..<ring_size t - 1}"
    using inj eq by (auto simp: inj_on_def simp del: iter_result.simps)
  then show "distinct (map (ring_peer t d x) [0..<ring_size t - 1])"
    by (simp add: distinct_map atLeast0LessThan)
  have "Inr ` ring_peer t d x ` {..<ring_size t - 1} = (Inr ` (ring_members t - {x}) :: (error + int) set)"
    unfolding img [symmetric] image_image by (rule image_cong) (simp_all add: eq del: iter_result.simps)
  then show "set (map (ring_peer t d x) [0..<ring_size t - 1]) = ring_members t - {x}"
    by (simp add: atLeast0LessThan inj_image_eq_iff)
qed

section \<open>Properties\<close>

text \<open>
  The homogeneous constructor. For a positive stride, node \<open>base + index * offset\<close> builds
  without an assertion failure a well-formed ring whose position \<open>k\<close> is occupied by
  \<open>base + k * offset\<close>; \<^verbatim>\<open>is_enabled\<close> then answers whether the first member is node 0.
\<close>

theorem ring_homogeneous_correct:
  assumes "0 < offset" and "0 \<le> index" and "index < nodes" and "0 \<le> base"
  shows "\<exists>t. RingTopology_homogeneous dimension (base + index * offset) nodes index offset = Inr t \<and>
    ring_wf t \<and> get_nodes_in_ring t = nodes \<and> get_index_in_ring t = index \<and>
    get_dimension t = dimension \<and> (\<forall>k < nat nodes. ring_at t k = base + int k * offset) \<and>
    ring_is_enabled t = Inr (base = 0)"
proof -
  from ring_homogeneous_built [OF assms] obtain t where
    t: "RingTopology_homogeneous dimension (base + index * offset) nodes index offset = Inr t"
      "partial_ring base offset {0..<nodes} t"
      "ring_params t = (ring_name dimension, base + index * offset, offset, nodes, index, dimension)"
    by blast
  then have f: "rt_id t = base + index * offset" "rt_offset t = offset"
    "rt_total_nodes_in_ring t = nodes" "rt_index_in_ring t = index" "rt_dimension t = dimension"
    by (simp_all add: ring_params_def)
  note wf = partial_ring_full [OF t(2) f(3)]
  have "ring_is_enabled t = Inr (base = 0)"
    using assms f by (simp add: ring_is_enabled_def ring_first_id_eq)
  with t f wf assms show ?thesis
    by (simp add: get_nodes_in_ring_def get_index_in_ring_def get_dimension_def ring_size_def)
qed

theorem ring_homogeneous_correct_witness:
  "\<exists>t. RingTopology_homogeneous DimVertical 5 3 2 2 = Inr t \<and> ring_at t 0 = 1"
proof -
  from ring_homogeneous_correct [of 2 2 3 1 DimVertical] obtain t where
    "RingTopology_homogeneous DimVertical 5 3 2 2 = Inr t" "\<forall>k < nat 3. ring_at t k = 1 + int k * 2"
    by auto
  then show ?thesis by force
qed

text \<open>
  The constructor from a list of NPUs. On a list without duplicates it succeeds exactly
  when the own id occurs in the list, and then position \<open>k\<close> of the well-formed ring is the
  \<open>k\<close>-th element; otherwise the assertion on \<^verbatim>\<open>index_in_ring\<close> fails.
\<close>

theorem ring_NPUs_correct:
  assumes "distinct NPUs"
  shows "if nid \<in> set NPUs
    then \<exists>t. RingTopology_of_NPUs dimension nid NPUs = Inr t \<and> ring_wf t \<and>
      get_nodes_in_ring t = int (length NPUs) \<and> ring_members t = set NPUs \<and>
      (\<forall>k < length NPUs. ring_at t k = NPUs ! k)
    else RingTopology_of_NPUs dimension nid NPUs = Inl (AssertionFailed ''index_in_ring >= 0'')"
proof (cases "nid \<in> set NPUs")
  case True
  from ring_NPUs_built [OF assms this] obtain t where
    t: "RingTopology_of_NPUs dimension nid NPUs = Inr t" "ring_wf t" "ring_size t = length NPUs"
      "\<forall>k < length NPUs. ring_at t k = NPUs ! k" by blast
  then have "ring_members t = set NPUs"
    by (auto simp: ring_members_image [OF t(2)] in_set_conv_nth)
  moreover have "get_nodes_in_ring t = int (length NPUs)"
    using t(2,3) by (metis get_nodes_in_ring_def ring_wf_size)
  ultimately show ?thesis using t True by auto
next
  case False
  let ?t0 = "\<lparr>rt_id_to_index = Map.empty, rt_index_to_id = Map.empty,
     rt_name = ring_name dimension, rt_id = nid, rt_offset = -1,
     rt_total_nodes_in_ring = int (length NPUs), rt_index_in_ring = -1, rt_dimension = dimension\<rparr>"
  have "rt_index_in_ring (ring_insert_NPUs NPUs 0 ?t0) = -1"
    using ring_insert_own_index [of "[]" NPUs "ring_insert_NPUs NPUs 0 ?t0" ?t0] assms False by simp
  then show ?thesis using False by (simp add: RingTopology_of_NPUs_def Let_def)
qed

theorem ring_NPUs_correct_witness:
  "(\<exists>t. RingTopology_of_NPUs DimNA 3 [7, 3, 5] = Inr t \<and> ring_at t 2 = 5) \<and>
   RingTopology_of_NPUs DimNA 4 [7, 3, 5] = Inl (AssertionFailed ''index_in_ring >= 0'')"
proof -
  have "\<exists>t. RingTopology_of_NPUs DimNA 3 [7, 3, 5] = Inr t \<and> (\<forall>k < 3. ring_at t k = [7, 3, 5] ! k)"
    using ring_NPUs_correct [of "[7, 3, 5]" 3 DimNA] by auto
  then obtain t where "RingTopology_of_NPUs DimNA 3 [7, 3, 5] = Inr t" "ring_at t 2 = 5"
    by (force simp: eval_nat_numeral)
  then show ?thesis using ring_NPUs_correct [of "[7, 3, 5]" 4 DimNA] by auto
qed

text \<open>
  Receivers and senders. In a well-formed ring, for both directions and every member,
  the sender of the receiver and the receiver of the sender are the member itself, and no
  query fails: each message has its matching receive.
\<close>

theorem ring_neighbours_inverse:
  assumes "ring_wf t" and "x \<in> ring_members t"
  shows "rbind (get_receiver t x d) (\<lambda>y. get_sender t y d) = Inr x \<and>
    rbind (get_sender t x d) (\<lambda>y. get_receiver t y d) = Inr x"
  using assms cw.prev_succ [of t x] cw.succ_prev [of t x] acw.prev_succ [of t x]
    acw.succ_prev [of t x] by (cases d; simp add: mem_eq_ring_members)

text \<open>
  Period of the ring. Following receivers (in either direction) from a member comes back
  to it after \<open>k\<close> hops exactly when \<open>k\<close> is a multiple of the number of nodes, and every
  member is met within the first round.
\<close>

theorem ring_receiver_period:
  assumes "ring_wf t" and "x \<in> ring_members t" and "y \<in> ring_members t"
  shows "(iter_result k (\<lambda>z. get_receiver t z d) x = Inr x \<longleftrightarrow> ring_size t dvd k) \<and>
    (\<exists>j < ring_size t. iter_result j (\<lambda>z. get_receiver t z d) x = Inr y)"
  using assms cw.iter_succ_period [of t x] cw.succ_reaches_all [of t x y]
    acw.iter_succ_period [of t x] acw.succ_reaches_all [of t x y]
  by (cases d; simp add: mem_eq_ring_members)

text \<open>A ring of three nodes with stride two, as node 3 builds it.\<close>

definition demo_ring :: RingTopology where
  "demo_ring = projr (RingTopology_homogeneous DimVertical 3 3 1 2)"

lemma demo_ring_wf: "ring_wf demo_ring" "ring_members demo_ring = {1, 3, 5}" "ring_size demo_ring = 3"
proof -
  from ring_homogeneous_built [of 2 1 3 1 DimVertical] obtain t where
    t: "RingTopology_homogeneous DimVertical 3 3 1 2 = Inr t" "partial_ring 1 2 {0..<3} t"
      "ring_params t = (ring_name DimVertical, 3, 2, 3, 1, DimVertical)" by auto
  then have eq: "demo_ring = t" by (simp add: demo_ring_def)
  have f: "rt_total_nodes_in_ring t = 3" "rt_index_in_ring t = 1" "rt_id t = 3"
    using t(3) by (simp_all add: ring_params_def)
  then show wf: "ring_wf demo_ring" and sz: "ring_size demo_ring = 3"
    using partial_ring_full(1) [OF t(2)] by (simp_all add: eq ring_size_def)
  have "ring_at demo_ring ` {..<3} = {1, 3, 5}"
    using partial_ring_full(2) [OF t(2)] f by (auto simp: eq ring_size_def eval_nat_numeral lessThan_Suc)
  then show "ring_members demo_ring = {1, 3, 5}" using wf sz by (simp add: ring_members_image)
qed

theorem ring_neighbours_inverse_witness:
  "rbind (get_receiver demo_ring 5 Clockwise) (\<lambda>y. get_sender demo_ring y Clockwise) = Inr 5"
  using ring_neighbours_inverse [of demo_ring 5 Clockwise] demo_ring_wf by simp

theorem ring_receiver_period_witness:
  "iter_result 6 (\<lambda>z. get_receiver demo_ring z Anticlockwise) 5 = Inr 5 \<and>
   iter_result 4 (\<lambda>z. get_receiver demo_ring z Anticlockwise) 5 \<noteq> Inr 5"
  using ring_receiver_period [of demo_ring 5 1 6 Anticlockwise]
    ring_receiver_period [of demo_ring 5 1 4 Anticlockwise] demo_ring_wf by simp

end
