(* ===== verification/Ring_Algorithm.thy ===== *)
theory Ring_Algorithm
  imports Ring_Topology
begin

text \<open>
  The ring collective of \<^verbatim>\<open>collective_algorithm/Ring.cc\<close> and its subclass for direct
  collectives, \<^verbatim>\<open>collective_algorithm/AllToAll.cc\<close>: constructors, the event handler
  \<^verbatim>\<open>run\<close> and every method it calls. Virtual calls dispatch on \<open>rg_name\<close>. Calls that
  leave the object (memory bus, network front end, scheduler) are appended, in program order,
  to the log \<open>rg_log\<close> as values of type \<open>effect\<close>.
\<close>

section \<open>State\<close>

datatype Transmition = Fast | Usual

record MyPacket =
  mp_preferred_vnet :: int
  mp_preferred_src :: int
  mp_preferred_dest :: int
  mp_msg_size :: u64

definition MyPacket_new :: "int \<Rightarrow> int \<Rightarrow> int \<Rightarrow> MyPacket" where
  "MyPacket_new preferred_vnet preferred_src preferred_dest =
     \<lparr>mp_preferred_vnet = preferred_vnet, mp_preferred_src = preferred_src,
      mp_preferred_dest = preferred_dest, mp_msg_size = 0\<rparr>"

definition MyPacket_sized :: "u64 \<Rightarrow> int \<Rightarrow> int \<Rightarrow> int \<Rightarrow> MyPacket" where
  "MyPacket_sized msg_size preferred_vnet preferred_src preferred_dest =
     \<lparr>mp_preferred_vnet = preferred_vnet, mp_preferred_src = preferred_src,
      mp_preferred_dest = preferred_dest, mp_msg_size = msg_size\<rparr>"

text \<open>
  A bundle carries the packets, whether they need processing, whether they are sent back,
  the size and the kind of transmission; a front-end send or receive carries the size, the
  peer and the tag (the stream id).
\<close>

datatype effect =
    SendToMA "MyPacket list" bool bool u64 Transmition
  | SendToNPU "MyPacket list" bool bool u64 Transmition
  | FrontEndSend u64 int int
  | FrontEndRecv u64 int int
  | ProceedToNextVnet

datatype AlgorithmName = NameRing | NameAllToAll

text \<open>
  The fields of \<^verbatim>\<open>Algorithm\<close>, \<^verbatim>\<open>Ring\<close> and \<^verbatim>\<open>AllToAll\<close> together with
  the fields of the owning stream that the methods read and write.
\<close>

record Ring =
  rg_name :: AlgorithmName
  rg_comType :: ComType
  rg_id :: int
  rg_logical_topo :: RingTopology
  rg_data_size :: u64
  rg_final_data_size :: u64
  rg_msg_size :: u64
  rg_direction :: Direction
  rg_transmition :: Transmition
  rg_zero_latency_packets :: int
  rg_non_zero_latency_packets :: int
  rg_curr_receiver :: int
  rg_curr_sender :: int
  rg_nodes_in_ring :: int
  rg_stream_count :: int
  rg_max_count :: int
  rg_remained_packets_per_max_count :: int
  rg_remained_packets_per_message :: int
  rg_parallel_reduce :: int
  rg_injection_policy :: InjectionPolicy
  rg_packets :: "MyPacket list"
  rg_toggle :: bool
  rg_free_packets :: int
  rg_total_packets_sent :: int
  rg_total_packets_received :: int
  rg_locked_packets :: "MyPacket list"
  rg_processed :: bool
  rg_send_back :: bool
  rg_NPU_to_MA :: bool
  rg_middle_point :: int
  rg_stream_state :: StreamState
  rg_stream_id :: int
  rg_current_queue_id :: int
  rg_log :: "effect list"

section \<open>Constructors\<close>

definition ring_stream_count :: "ComType \<Rightarrow> int \<Rightarrow> int" where
  "ring_stream_count type nodes_in_ring =
     (case type of
        All_Reduce \<Rightarrow> 2 * (nodes_in_ring - 1)
      | All_to_All \<Rightarrow> c_div ((nodes_in_ring - 1) * nodes_in_ring) 2
      | _ \<Rightarrow> nodes_in_ring - 1)"

definition ring_parallel_reduce :: "ComType \<Rightarrow> InjectionPolicy \<Rightarrow> int \<Rightarrow> int" where
  "ring_parallel_reduce type injection_policy nodes_in_ring =
     (if type = All_to_All \<and> injection_policy = Aggressive then nodes_in_ring - 1 else 1)"

text \<open>
  The sizes of the second \<^verbatim>\<open>switch\<close>; \<open>uninit\<close> is the content of the two fields that
  its \<^verbatim>\<open>default\<close> branch leaves unset.
\<close>

definition ring_sizes :: "ComType \<Rightarrow> u64 \<Rightarrow> int \<Rightarrow> u64 \<times> u64 \<Rightarrow> (u64 \<times> u64) result" where
  "ring_sizes type data_size nodes_in_ring uninit =
     (let n = u64_of_int nodes_in_ring;
          split = (\<lambda>f. if n = 0 then Inl (DivisionByZero ''data_size / nodes_in_ring'')
                       else Inr (f (data_size div n)))
      in case type of
           All_Reduce \<Rightarrow> split (\<lambda>part. (data_size, part))
         | All_Gather \<Rightarrow> Inr (data_size * n, data_size)
         | Reduce_Scatter \<Rightarrow> split (\<lambda>part. (part, part))
         | All_to_All \<Rightarrow> split (\<lambda>part. (data_size, part))
         | _ \<Rightarrow> Inr uninit)"

definition Ring_new ::
    "ComType \<Rightarrow> int \<Rightarrow> RingTopology \<Rightarrow> u64 \<Rightarrow> Direction \<Rightarrow> InjectionPolicy \<Rightarrow> u64 \<times> u64 \<Rightarrow> Ring result"
  where
  "Ring_new type nid ring_topology data_size direction injection_policy uninit =
     (let nodes_in_ring = get_nodes_in_ring ring_topology in
      rbind (get_receiver ring_topology nid direction) (\<lambda>receiver.
      rbind (get_sender ring_topology nid direction) (\<lambda>sender.
      rbind (ring_sizes type data_size nodes_in_ring uninit) (\<lambda>(final_data_size, msg_size).
        Inr \<lparr>rg_name = NameRing, rg_comType = type, rg_id = nid,
             rg_logical_topo = ring_topology, rg_data_size = data_size,
             rg_final_data_size = final_data_size, rg_msg_size = msg_size,
             rg_direction = direction,
             rg_transmition = (if get_dimension ring_topology = DimLocal then Fast else Usual),
             rg_zero_latency_packets = 0, rg_non_zero_latency_packets = 0,
             rg_curr_receiver = receiver, rg_curr_sender = sender,
             rg_nodes_in_ring = nodes_in_ring,
             rg_stream_count = ring_stream_count type nodes_in_ring,
             rg_max_count =
               (if type = All_to_All \<or> type = All_Gather then 0 else nodes_in_ring - 1),
             rg_remained_packets_per_max_count = 1, rg_remained_packets_per_message = 1,
             rg_parallel_reduce = ring_parallel_reduce type injection_policy nodes_in_ring,
             rg_injection_policy = injection_policy, rg_packets = [], rg_toggle = False,
             rg_free_packets = 0, rg_total_packets_sent = 0, rg_total_packets_received = 0,
             rg_locked_packets = [], rg_processed = False, rg_send_back = False,
             rg_NPU_to_MA = False, rg_middle_point = 0, rg_stream_state = Created,
             rg_stream_id = 0, rg_current_queue_id = -1, rg_log = []\<rparr>))))"

definition AllToAll_new ::
    "ComType \<Rightarrow> int \<Rightarrow> int \<Rightarrow> RingTopology \<Rightarrow> u64 \<Rightarrow> Direction \<Rightarrow> InjectionPolicy \<Rightarrow> u64 \<times> u64
      \<Rightarrow> Ring result" where
  "AllToAll_new type window nid allToAllTopology data_size direction injection_policy uninit =
     rbind (Ring_new type nid allToAllTopology data_size direction injection_policy uninit) (\<lambda>r.
       let n = rg_nodes_in_ring r in
       Inr (r\<lparr>rg_name := NameAllToAll, rg_middle_point := n - 1,
              rg_parallel_reduce := (if window = -1 then n - 1 else min window (n - 1)),
              rg_stream_count := (if type = All_to_All then n - 1 else rg_stream_count r)\<rparr>))"

text \<open>\<^verbatim>\<open>Algorithm::init\<close> attaches the algorithm to its stream.\<close>

definition Algorithm_init :: "int \<Rightarrow> int \<Rightarrow> StreamState \<Rightarrow> Ring \<Rightarrow> Ring" where
  "Algorithm_init stream_id current_queue_id state r =
     r\<lparr>rg_stream_id := stream_id, rg_current_queue_id := current_queue_id,
       rg_stream_state := state\<rparr>"

section \<open>Packet insertion\<close>

definition release_packets :: "Ring \<Rightarrow> Ring" where
  "release_packets r =
     r\<lparr>rg_log := rg_log r @
         [(if rg_NPU_to_MA r then SendToMA else SendToNPU)
            (rg_locked_packets r) (rg_processed r) (rg_send_back r) (rg_msg_size r)
            (rg_transmition r)],
       rg_locked_packets := []\<rparr>"

definition Ring_process_max_count :: "Ring \<Rightarrow> Ring" where
  "Ring_process_max_count r =
     (let r = (if rg_remained_packets_per_max_count r > 0
               then r\<lparr>rg_remained_packets_per_max_count := rg_remained_packets_per_max_count r - 1\<rparr>
               else r)
      in if rg_remained_packets_per_max_count r = 0
         then (release_packets (r\<lparr>rg_max_count := rg_max_count r - 1\<rparr>))
                \<lparr>rg_remained_packets_per_max_count := 1\<rparr>
         else r)"

text \<open>The next peer in the direction of travel, skipping the node itself.\<close>

definition next_peer :: "(int \<Rightarrow> int result) \<Rightarrow> int \<Rightarrow> int \<Rightarrow> int result" where
  "next_peer step nid peer = rbind (step peer) (\<lambda>c. if c = nid then step c else Inr c)"

definition AllToAll_process_max_count :: "Ring \<Rightarrow> Ring result" where
  "AllToAll_process_max_count r =
     (let r = (if rg_remained_packets_per_max_count r > 0
               then r\<lparr>rg_remained_packets_per_max_count := rg_remained_packets_per_max_count r - 1\<rparr>
               else r)
      in if rg_remained_packets_per_max_count r = 0
         then (let r = (release_packets (r\<lparr>rg_max_count := rg_max_count r - 1\<rparr>))
                         \<lparr>rg_remained_packets_per_max_count := 1\<rparr>
               in rbind (next_peer (\<lambda>x. get_receiver (rg_logical_topo r) x (rg_direction r))
                           (rg_id r) (rg_curr_receiver r)) (\<lambda>receiver.
                  rbind (next_peer (\<lambda>x. get_sender (rg_logical_topo r) x (rg_direction r))
                           (rg_id r) (rg_curr_sender r)) (\<lambda>sender.
                  Inr (r\<lparr>rg_curr_receiver := receiver, rg_curr_sender := sender\<rparr>))))
         else Inr r)"

definition process_max_count :: "Ring \<Rightarrow> Ring result" where
  "process_max_count r =
     (case rg_name r of
        NameRing \<Rightarrow> Inr (Ring_process_max_count r)
      | NameAllToAll \<Rightarrow> AllToAll_process_max_count r)"

definition get_non_zero_latency_packets :: "Ring \<Rightarrow> int" where
  "get_non_zero_latency_packets r =
     (case rg_name r of
        NameRing \<Rightarrow> (rg_nodes_in_ring r - 1) * rg_parallel_reduce r
      | NameAllToAll \<Rightarrow>
          (if get_dimension (rg_logical_topo r) \<noteq> DimLocal then rg_parallel_reduce r
           else (rg_nodes_in_ring r - 1) * rg_parallel_reduce r))"

definition push_packet :: "Ring \<Rightarrow> Ring" where
  "push_packet r =
     (let p = MyPacket_new (rg_current_queue_id r) (rg_curr_sender r) (rg_curr_receiver r)
      in r\<lparr>rg_packets := rg_packets r @ [p], rg_locked_packets := rg_locked_packets r @ [p]\<rparr>)"

definition start_round :: "Ring \<Rightarrow> Ring" where
  "start_round r =
     (if rg_zero_latency_packets r = 0 \<and> rg_non_zero_latency_packets r = 0
      then r\<lparr>rg_zero_latency_packets := rg_parallel_reduce r,
             rg_non_zero_latency_packets := get_non_zero_latency_packets r,
             rg_toggle := \<not> rg_toggle r\<rparr>
      else r)"

definition insert_packet :: "Ring \<Rightarrow> Ring result" where
  "insert_packet r0 =
     (let r = start_round r0 in
      if rg_zero_latency_packets r > 0 then
        rbind (process_max_count
                 ((push_packet r)\<lparr>rg_processed := False, rg_send_back := False,
                                  rg_NPU_to_MA := True\<rparr>))
          (\<lambda>r. Inr (r\<lparr>rg_zero_latency_packets := rg_zero_latency_packets r - 1\<rparr>))
      else if rg_non_zero_latency_packets r > 0 then
        rbind (process_max_count
                 ((push_packet r)
                    \<lparr>rg_processed :=
                       (rg_comType r = Reduce_Scatter \<or>
                        rg_comType r = All_Reduce \<and> rg_toggle r),
                     rg_send_back :=
                       \<not> (rg_non_zero_latency_packets r \<le> rg_parallel_reduce r),
                     rg_NPU_to_MA := False\<rparr>))
          (\<lambda>r. Inr (r\<lparr>rg_non_zero_latency_packets := rg_non_zero_latency_packets r - 1\<rparr>))
      else Inl (SysPanic ''should not inject nothing!''))"

section \<open>Sending and completion\<close>

definition process_stream_count :: "Ring \<Rightarrow> Ring" where
  "process_stream_count r =
     (let r = (if rg_remained_packets_per_message r > 0
               then r\<lparr>rg_remained_packets_per_message := rg_remained_packets_per_message r - 1\<rparr>
               else r);
          r = (if rg_remained_packets_per_message r = 0 \<and> rg_stream_count r > 0
               then (let r = r\<lparr>rg_stream_count := rg_stream_count r - 1\<rparr>
                     in if rg_stream_count r > 0 then r\<lparr>rg_remained_packets_per_message := 1\<rparr>
                        else r)
               else r)
      in if rg_remained_packets_per_message r = 0 \<and> rg_stream_count r = 0 \<and>
            rg_stream_state r \<noteq> Dead
         then r\<lparr>rg_stream_state := Zombie\<rparr> else r)"

definition reduce :: "Ring \<Rightarrow> Ring" where
  "reduce r =
     (let r = process_stream_count r
      in r\<lparr>rg_packets := tl (rg_packets r), rg_free_packets := rg_free_packets r - 1,
           rg_total_packets_sent := rg_total_packets_sent r + 1\<rparr>)"

definition ready :: "Ring \<Rightarrow> bool \<times> Ring" where
  "ready r0 =
     (let r = (if rg_stream_state r0 = Created \<or> rg_stream_state r0 = Ready
               then r0\<lparr>rg_stream_state := Executing\<rparr> else r0)
      in if rg_packets r = [] \<or> rg_stream_count r = 0 \<or> rg_free_packets r = 0
         then (False, r)
         else (let packet = hd (rg_packets r)
               in (True,
                   reduce (r\<lparr>rg_log := rg_log r @
                     [FrontEndSend (rg_msg_size r) (mp_preferred_dest packet) (rg_stream_id r),
                      FrontEndRecv (rg_msg_size r) (mp_preferred_src packet)
                        (rg_stream_id r)]\<rparr>))))"

definition exit_ring :: "Ring \<Rightarrow> Ring" where
  "exit_ring r = r\<lparr>rg_packets := [], rg_locked_packets := [],
     rg_log := rg_log r @ [ProceedToNextVnet]\<rparr>"

definition iteratable :: "Ring \<Rightarrow> bool \<times> Ring" where
  "iteratable r =
     (if rg_stream_count r = 0 \<and> rg_free_packets r = rg_parallel_reduce r
      then (False, exit_ring r) else (True, r))"

section \<open>Event handlers\<close>

definition Ring_run :: "EventType \<Rightarrow> Ring \<Rightarrow> Ring result" where
  "Ring_run event r =
     (if event = General then
        Inr (snd (iteratable (snd (ready (r\<lparr>rg_free_packets := rg_free_packets r + 1\<rparr>)))))
      else if event = PacketReceived then
        insert_packet (r\<lparr>rg_total_packets_received := rg_total_packets_received r + 1\<rparr>)
      else if event = StreamInit then
        iter_result (nat (rg_parallel_reduce r)) insert_packet r
      else Inr r)"

definition AllToAll_run :: "EventType \<Rightarrow> Ring \<Rightarrow> Ring result" where
  "AllToAll_run event r =
     (if event = General then
        (let r = r\<lparr>rg_free_packets := rg_free_packets r + 1\<rparr> in
         if rg_comType r = All_Reduce \<and> rg_stream_count r \<le> rg_middle_point r then
           (if rg_total_packets_received r < rg_middle_point r then Inr r
            else Inr (snd (iteratable
                   (((\<lambda>r. snd (ready r)) ^^ nat (rg_parallel_reduce r)) r))))
         else Inr (snd (iteratable (snd (ready r)))))
      else if event = PacketReceived then
        insert_packet (r\<lparr>rg_total_packets_received := rg_total_packets_received r + 1\<rparr>)
      else if event = StreamInit then
        iter_result (nat (rg_parallel_reduce r)) insert_packet r
      else Inr r)"

definition ring_algorithm_run :: "EventType \<Rightarrow> Ring \<Rightarrow> Ring result" where
  "ring_algorithm_run event r =
     (case rg_name r of NameRing \<Rightarrow> Ring_run event r | NameAllToAll \<Rightarrow> AllToAll_run event r)"

section \<open>The ring as a three-phase machine\<close>

text \<open>
  With one packet in flight (\<open>parallel_reduce = 1\<close>, which is what \<^verbatim>\<open>Sys\<close> asks for) the
  handler alternates between two phases: a bundle is on the memory bus, or the node waits for
  its upstream neighbour. \<open>ring_core\<close> is the part of the state both phases share.
\<close>

definition ring_core :: "Ring \<Rightarrow> bool" where
  "ring_core r \<longleftrightarrow>
     rg_name r = NameRing \<and> rg_parallel_reduce r = 1 \<and> 1 \<le> rg_nodes_in_ring r \<and>
     0 \<le> rg_zero_latency_packets r \<and> 0 \<le> rg_non_zero_latency_packets r \<and>
     rg_remained_packets_per_max_count r = 1 \<and> rg_locked_packets r = [] \<and>
     0 \<le> rg_stream_count r \<and>
     (0 < rg_stream_count r \<longrightarrow> rg_remained_packets_per_message r = 1)"

definition ring_peers :: "Ring \<Rightarrow> int \<times> int \<times> int \<times> u64 \<times> int \<times> int" where
  "ring_peers r = (rg_id r, rg_curr_receiver r, rg_curr_sender r, rg_msg_size r, rg_stream_id r,
     rg_current_queue_id r)"

definition ring_packet :: "Ring \<Rightarrow> MyPacket" where
  "ring_packet r = MyPacket_new (rg_current_queue_id r) (rg_curr_sender r) (rg_curr_receiver r)"

fun is_bundle :: "effect \<Rightarrow> bool" where
  "is_bundle (SendToMA ps pr sb sz tr) = True"
| "is_bundle (SendToNPU ps pr sb sz tr) = True"
| "is_bundle _ = False"

definition ring_transfer :: "int \<Rightarrow> int \<Rightarrow> Ring \<Rightarrow> bool" where
  "ring_transfer total_msgs k r \<longleftrightarrow>
     ring_core r \<and> rg_packets r = [ring_packet r] \<and> rg_free_packets r = 0 \<and>
     rg_total_packets_sent r = k \<and> rg_total_packets_received r = k \<and>
     rg_stream_count r = total_msgs - k"

definition ring_waiting :: "int \<Rightarrow> int \<Rightarrow> Ring \<Rightarrow> bool" where
  "ring_waiting total_msgs k r \<longleftrightarrow>
     ring_core r \<and> rg_packets r = [] \<and> rg_free_packets r = 0 \<and>
     rg_total_packets_sent r = k \<and> rg_total_packets_received r = k - 1 \<and>
     rg_stream_count r = total_msgs - k"

definition ring_fresh :: "int \<Rightarrow> Ring \<Rightarrow> bool" where
  "ring_fresh total_msgs r \<longleftrightarrow>
     ring_core r \<and> rg_packets r = [] \<and> rg_free_packets r = 0 \<and>
     rg_total_packets_sent r = 0 \<and> rg_total_packets_received r = 0 \<and>
     rg_stream_count r = total_msgs"

lemma insert_packet_core:
  assumes "ring_core r"
  shows "\<exists>r' e. insert_packet r = Inr r' \<and> ring_core r' \<and> is_bundle e \<and>
    rg_packets r' = rg_packets r @ [ring_packet r] \<and> rg_log r' = rg_log r @ [e] \<and>
    ring_peers r' = ring_peers r \<and> rg_free_packets r' = rg_free_packets r \<and>
    rg_total_packets_sent r' = rg_total_packets_sent r \<and>
    rg_total_packets_received r' = rg_total_packets_received r \<and>
    rg_stream_count r' = rg_stream_count r"
proof -
  note defs = insert_packet_def start_round_def push_packet_def process_max_count_def
    Ring_process_max_count_def release_packets_def get_non_zero_latency_packets_def
    ring_packet_def ring_peers_def ring_core_def Let_def
  consider "rg_zero_latency_packets r = 0 \<and> rg_non_zero_latency_packets r = 0"
    | "rg_zero_latency_packets r > 0"
    | "rg_zero_latency_packets r = 0" "rg_non_zero_latency_packets r > 0"
    using assms unfolding ring_core_def by linarith
  then show ?thesis
    using assms by cases (simp_all add: defs)
qed

lemma ring_start:
  assumes "ring_fresh S r" and "rg_log r = []"
  shows "\<exists>r' e. Ring_run StreamInit r = Inr r' \<and> ring_transfer S 0 r' \<and>
    is_bundle e \<and> rg_log r' = [e] \<and> ring_peers r' = ring_peers r"
proof -
  from assms obtain r' e where "insert_packet r = Inr r'" "ring_core r'" "is_bundle e"
    "rg_packets r' = [ring_packet r]" "rg_log r' = [e]" "ring_peers r' = ring_peers r"
    "rg_free_packets r' = 0" "rg_total_packets_sent r' = 0" "rg_total_packets_received r' = 0"
    "rg_stream_count r' = S"
    using insert_packet_core [of r] by (auto simp: ring_fresh_def)
  with assms show ?thesis
    by (auto simp: Ring_run_def ring_transfer_def ring_fresh_def ring_core_def ring_packet_def
        ring_peers_def)
qed

lemma ring_received:
  assumes "ring_waiting S k r" and "rg_log r = []"
  shows "\<exists>r' e. Ring_run PacketReceived r = Inr r' \<and> ring_transfer S k r' \<and>
    is_bundle e \<and> rg_log r' = [e] \<and> ring_peers r' = ring_peers r"
proof -
  let ?r = "r\<lparr>rg_total_packets_received := rg_total_packets_received r + 1\<rparr>"
  have "ring_core ?r" using assms by (simp add: ring_waiting_def ring_core_def)
  from insert_packet_core [OF this] assms show ?thesis
    by (auto simp: Ring_run_def ring_transfer_def ring_waiting_def ring_packet_def ring_peers_def)
qed

lemma process_stream_count_step:
  assumes "rg_remained_packets_per_message r = 1" and "0 < rg_stream_count r"
  shows "rg_stream_count (process_stream_count r) = rg_stream_count r - 1"
    and "rg_remained_packets_per_message (process_stream_count r)
      = (if rg_stream_count r = 1 then 0 else 1)"
  using assms by (simp_all add: process_stream_count_def Let_def)

lemma process_stream_count_frame [simp]:
  "rg_name (process_stream_count r) = rg_name r"
  "rg_parallel_reduce (process_stream_count r) = rg_parallel_reduce r"
  "rg_nodes_in_ring (process_stream_count r) = rg_nodes_in_ring r"
  "rg_zero_latency_packets (process_stream_count r) = rg_zero_latency_packets r"
  "rg_non_zero_latency_packets (process_stream_count r) = rg_non_zero_latency_packets r"
  "rg_remained_packets_per_max_count (process_stream_count r)
     = rg_remained_packets_per_max_count r"
  "rg_locked_packets (process_stream_count r) = rg_locked_packets r"
  "rg_packets (process_stream_count r) = rg_packets r"
  "rg_free_packets (process_stream_count r) = rg_free_packets r"
  "rg_total_packets_sent (process_stream_count r) = rg_total_packets_sent r"
  "rg_total_packets_received (process_stream_count r) = rg_total_packets_received r"
  "rg_log (process_stream_count r) = rg_log r"
  "rg_curr_receiver (process_stream_count r) = rg_curr_receiver r"
  "rg_curr_sender (process_stream_count r) = rg_curr_sender r"
  "rg_id (process_stream_count r) = rg_id r"
  "rg_msg_size (process_stream_count r) = rg_msg_size r"
  "rg_stream_id (process_stream_count r) = rg_stream_id r"
  "rg_current_queue_id (process_stream_count r) = rg_current_queue_id r"
  by (simp_all add: process_stream_count_def Let_def)

text \<open>A successful \<^verbatim>\<open>ready\<close> posts one send and one receive for the packet at the front.\<close>

lemma ready_sends:
  assumes "rg_packets r \<noteq> []" and "rg_stream_count r \<noteq> 0" and "rg_free_packets r \<noteq> 0"
  shows "\<exists>st. ready r = (True, reduce (r\<lparr>rg_stream_state := st, rg_log := rg_log r @
    [FrontEndSend (rg_msg_size r) (mp_preferred_dest (hd (rg_packets r))) (rg_stream_id r),
     FrontEndRecv (rg_msg_size r) (mp_preferred_src (hd (rg_packets r))) (rg_stream_id r)]\<rparr>))"
proof (cases "rg_stream_state r = Created \<or> rg_stream_state r = Ready")
  case True
  with assms show ?thesis by (auto simp: ready_def Let_def)
next
  case False
  with assms show ?thesis
    by (intro exI [of _ "rg_stream_state r"]) (auto simp: ready_def Let_def)
qed

lemma ring_send:
  assumes "ring_transfer S k r" and "k < S" and "rg_log r = []"
  shows "\<exists>r'. Ring_run General r = Inr r' \<and> ring_waiting S (k + 1) r' \<and>
    rg_log r' = [FrontEndSend (rg_msg_size r) (rg_curr_receiver r) (rg_stream_id r),
                 FrontEndRecv (rg_msg_size r) (rg_curr_sender r) (rg_stream_id r)] \<and>
    ring_peers r' = ring_peers r"
proof -
  let ?r = "r\<lparr>rg_free_packets := rg_free_packets r + 1\<rparr>"
  from assms obtain st where ready: "ready ?r = (True, reduce (?r\<lparr>rg_stream_state := st,
      rg_log := [FrontEndSend (rg_msg_size r) (rg_curr_receiver r) (rg_stream_id r),
                 FrontEndRecv (rg_msg_size r) (rg_curr_sender r) (rg_stream_id r)]\<rparr>))"
    using ready_sends [of ?r]
    by (auto simp: ring_transfer_def ring_packet_def MyPacket_new_def)
  let ?r1 = "snd (ready ?r)"
  have "ring_core ?r1" "rg_packets ?r1 = []" "rg_free_packets ?r1 = 0"
    "rg_total_packets_sent ?r1 = k + 1" "rg_total_packets_received ?r1 = k"
    "rg_stream_count ?r1 = S - (k + 1)" "ring_peers ?r1 = ring_peers r"
    "rg_log ?r1 = [FrontEndSend (rg_msg_size r) (rg_curr_receiver r) (rg_stream_id r),
                 FrontEndRecv (rg_msg_size r) (rg_curr_sender r) (rg_stream_id r)]"
    using assms(1,2) unfolding ready
    by (simp_all add: reduce_def Let_def ring_transfer_def ring_core_def ring_peers_def
        process_stream_count_step)
  moreover from this have "iteratable ?r1 = (True, ?r1)"
    by (simp add: iteratable_def ring_core_def)
  ultimately show ?thesis
    by (simp add: Ring_run_def ring_waiting_def)
qed

lemma ring_finish:
  assumes "ring_transfer S S r" and "rg_log r = []"
  shows "\<exists>r'. Ring_run General r = Inr r' \<and> rg_log r' = [ProceedToNextVnet] \<and>
    rg_name r' = NameRing \<and>
    rg_total_packets_sent r' = S \<and> rg_total_packets_received r' = S \<and>
    ring_peers r' = ring_peers r"
  using assms
  by (simp add: Ring_run_def ready_def iteratable_def exit_ring_def ring_transfer_def
      ring_core_def ring_peers_def Let_def)

lemma Ring_new_fresh:
  assumes "ring_wf t" and "rt_id t = nid"
    and "type \<noteq> All_to_All \<or> policy \<noteq> Aggressive"
    and "Ring_new type nid t data_size direction policy uninit = Inr r"
  shows "ring_fresh (ring_stream_count type (get_nodes_in_ring t)) (Algorithm_init sid q st r)"
proof -
  have n: "1 \<le> get_nodes_in_ring t" using assms(1) by (simp add: ring_wf_def get_nodes_in_ring_def)
  then have "0 \<le> ring_stream_count type (get_nodes_in_ring t)"
    by (auto simp: ring_stream_count_def c_div_def sgn_if split: ComType.splits)
  with assms n show ?thesis
    by (auto simp: Ring_new_def Let_def rbind_Inr_iff ring_fresh_def ring_core_def
        Algorithm_init_def ring_parallel_reduce_def)
qed

section \<open>Direct collectives visit every peer\<close>

text \<open>
  The part of an \<^verbatim>\<open>AllToAll\<close> object that packet insertion reads and writes, after \<open>m\<close>
  insertions.
\<close>

definition a2a_at :: "nat \<Rightarrow> Ring \<Rightarrow> bool" where
  "a2a_at m r \<longleftrightarrow>
     rg_name r = NameAllToAll \<and> 1 \<le> rg_parallel_reduce r \<and> ring_wf (rg_logical_topo r) \<and>
     2 \<le> ring_size (rg_logical_topo r) \<and> rg_id r \<in> ring_members (rg_logical_topo r) \<and>
     rg_nodes_in_ring r = int (ring_size (rg_logical_topo r)) \<and>
     0 \<le> rg_zero_latency_packets r \<and> 0 \<le> rg_non_zero_latency_packets r \<and>
     rg_remained_packets_per_max_count r = 1 \<and> rg_locked_packets r = [] \<and>
     rg_curr_receiver r = ring_peer (rg_logical_topo r) (rg_direction r) (rg_id r) m \<and>
     rg_curr_sender r = ring_peer (rg_logical_topo r) (flip (rg_direction r)) (rg_id r) m"

definition a2a_frame :: "Ring \<Rightarrow> RingTopology \<times> Direction \<times> int \<times> int \<times> u64" where
  "a2a_frame r = (rg_logical_topo r, rg_direction r, rg_id r, rg_current_queue_id r, rg_msg_size r)"

definition a2a_packet :: "Ring \<Rightarrow> nat \<Rightarrow> MyPacket" where
  "a2a_packet r k = MyPacket_new (rg_current_queue_id r)
     (ring_peer (rg_logical_topo r) (flip (rg_direction r)) (rg_id r) k)
     (ring_peer (rg_logical_topo r) (rg_direction r) (rg_id r) k)"

lemma a2a_packet_frame: "a2a_frame r' = a2a_frame r \<Longrightarrow> a2a_packet r' k = a2a_packet r k"
  by (simp add: a2a_packet_def a2a_frame_def)

lemma a2a_insert:
  assumes "a2a_at m r"
  shows "\<exists>r'. insert_packet r = Inr r' \<and> a2a_at (Suc m) r' \<and> a2a_frame r' = a2a_frame r \<and>
    rg_packets r' = rg_packets r @ [a2a_packet r m]"
proof -
  let ?t = "rg_logical_topo r" and ?d = "rg_direction r"
  have t: "ring_wf ?t" "rg_id r \<in> ring_members ?t" "2 \<le> ring_size ?t"
    using assms by (simp_all add: a2a_at_def)
  have next1: "next_peer (\<lambda>x. get_receiver ?t x ?d) (rg_id r) (ring_peer ?t ?d (rg_id r) m)
      = Inr (ring_peer ?t ?d (rg_id r) (Suc m))"
    and next2: "next_peer (\<lambda>x. get_sender ?t x ?d) (rg_id r) (ring_peer ?t (flip ?d) (rg_id r) m)
      = Inr (ring_peer ?t (flip ?d) (rg_id r) (Suc m))"
    by (simp_all add: next_peer_def ring_peer_next [OF t] get_sender_flip)
  have nz: "0 \<le> get_non_zero_latency_packets r"
    using assms ring_wf_size [OF t(1)] t(3)
    by (simp add: a2a_at_def get_non_zero_latency_packets_def del: ring_wf_size)
  note defs = insert_packet_def start_round_def push_packet_def process_max_count_def
    AllToAll_process_max_count_def release_packets_def a2a_packet_def a2a_frame_def a2a_at_def
    Let_def
  consider "rg_zero_latency_packets r = 0 \<and> rg_non_zero_latency_packets r = 0"
    | "rg_zero_latency_packets r > 0"
    | "rg_zero_latency_packets r = 0" "rg_non_zero_latency_packets r > 0"
    using assms unfolding a2a_at_def by linarith
  then show ?thesis
    using assms nz by cases (simp_all add: defs next1 next2)
qed

lemma a2a_inserts:
  assumes "a2a_at m r"
  shows "\<exists>r'. iter_result k insert_packet r = Inr r' \<and> a2a_at (m + k) r' \<and>
    a2a_frame r' = a2a_frame r \<and>
    rg_packets r' = rg_packets r @ map (a2a_packet r) [m..<m + k]"
  using assms
proof (induction k arbitrary: m r)
  case 0
  then show ?case by simp
next
  case (Suc k)
  obtain r1 where r1: "insert_packet r = Inr r1" "a2a_at (Suc m) r1" "a2a_frame r1 = a2a_frame r"
    "rg_packets r1 = rg_packets r @ [a2a_packet r m]"
    using a2a_insert [OF Suc.prems] by blast
  from Suc.IH [OF r1(2)] r1 a2a_packet_frame [OF r1(3)] show ?case
    by (auto simp: upt_conv_Cons simp del: upt_Suc)
qed

lemma AllToAll_new_at:
  assumes "ring_wf t" and "rt_id t = nid" and "2 \<le> ring_size t" and "window = -1 \<or> 1 \<le> window"
    and "AllToAll_new type window nid t data_size direction policy uninit = Inr r0"
    and "r = Algorithm_init sid q st r0"
  shows "a2a_at 0 r \<and> rg_packets r = [] \<and> a2a_frame r = (t, direction, nid, q, rg_msg_size r) \<and>
    rg_parallel_reduce r = (if window = -1 then int (ring_size t) - 1 else min window (int (ring_size t) - 1))"
proof -
  have mem: "nid \<in> ring_members t" using ring_own_index [OF assms(1)] assms(2) by simp
  have n: "get_nodes_in_ring t = int (ring_size t)" using assms(1) by (simp add: get_nodes_in_ring_def)
  show ?thesis
    using assms mem
    by (auto simp: AllToAll_new_def Ring_new_def Let_def rbind_Inr_iff Algorithm_init_def a2a_at_def
        a2a_frame_def n get_sender_flip ring_peer_first [OF assms(1) mem] simp del: ring_wf_size)
qed

text \<open>
  \<^bold>\<open>C17\<close>. A direct collective meets every peer. The packets that an \<^verbatim>\<open>AllToAll\<close> object inserts,
  however many, are addressed in ring order to the members other than itself, cyclically: the
  \<open>k\<close>-th goes to the peer \<open>1 + k mod (n - 1)\<close> hops downstream and is received from the peer as
  many hops upstream. No insertion fails, and any \<open>n - 1\<close> packets inserted first have
  pairwise different destinations that are exactly the other members.
\<close>

theorem AllToAll_visits_every_peer:
  assumes "ring_wf t" and "rt_id t = nid" and "2 \<le> ring_size t" and "window = -1 \<or> 1 \<le> window"
    and "AllToAll_new type window nid t data_size direction policy uninit = Inr r"
  shows "(\<exists>r'. iter_result m insert_packet (Algorithm_init sid q st r) = Inr r' \<and>
      rg_packets r' = map (\<lambda>k. MyPacket_new q (ring_peer t (flip direction) nid k)
                                 (ring_peer t direction nid k)) [0..<m]) \<and>
    distinct (map (ring_peer t direction nid) [0..<ring_size t - 1]) \<and>
    set (map (ring_peer t direction nid) [0..<ring_size t - 1]) = ring_members t - {nid}"
proof -
  note new = AllToAll_new_at [OF assms refl, of sid q st]
  have mem: "nid \<in> ring_members t" using ring_own_index [OF assms(1)] assms(2) by simp
  from new a2a_inserts [of 0 "Algorithm_init sid q st r" m] ring_peers_once [OF assms(1) mem]
  show ?thesis by (auto simp: a2a_packet_def a2a_frame_def)
qed

theorem AllToAll_visits_every_peer_witness:
  "\<exists>r r'. AllToAll_new All_to_All (-1) 3 demo_ring 30 Clockwise Normal (0, 0) = Inr r \<and>
     iter_result 2 insert_packet (Algorithm_init 1 0 Created r) = Inr r' \<and>
     length (rg_packets r') = 2 \<and>
     set (map (ring_peer demo_ring Clockwise 3) [0..<2]) = {1, 5}"
proof -
  have "\<not> isl (AllToAll_new All_to_All (-1) 3 demo_ring 30 Clockwise Normal (0, 0))"
    "rt_id demo_ring = 3" by code_simp+
  then obtain r where "AllToAll_new All_to_All (-1) 3 demo_ring 30 Clockwise Normal (0, 0) = Inr r"
    by (metis isl_def sum.exhaust)
  with AllToAll_visits_every_peer [of demo_ring 3 "-1" All_to_All 30 Clockwise Normal "(0, 0)" r 2
      1 0 Created] demo_ring_wf \<open>rt_id demo_ring = 3\<close>
  show ?thesis by auto
qed

end
