(* ===== verification/Collective_System.thy ===== *)
theory Collective_System
  imports Ring_Algorithm
begin

text \<open>
  The distributed execution of one collective phase: every NPU of a set \<open>nodes\<close> runs its own
  instance of the ring algorithm, bundles travel through the node's memory bus, and the
  network pairs the \<open>k\<close>-th send of a (source, destination) pair with the \<open>k\<close>-th receive of
  that pair, as the front ends do. The order in which bundles complete and messages arrive is
  arbitrary: a run is any sequence of enabled labels. Executions are the interleavings that
  \<^verbatim>\<open>Sys::handleEvent\<close> and \<^verbatim>\<open>Sys::call_events\<close> can produce for the handlers.
\<close>

section \<open>System state and steps\<close>

record csys =
  cs_algo :: "int \<Rightarrow> Ring"
  cs_started :: "int \<Rightarrow> bool"
  cs_done :: "int \<Rightarrow> bool"
  cs_bundles :: "int \<Rightarrow> nat"
  cs_sent :: "int \<times> int \<Rightarrow> nat"
  cs_posted :: "int \<times> int \<Rightarrow> nat"
  cs_delivered :: "int \<times> int \<Rightarrow> nat"

datatype label = Start int | BundleDone int | Deliver int int

text \<open>What an effect of the handler of node \<open>i\<close> does to the rest of the system.\<close>

fun apply_effect :: "int \<Rightarrow> effect \<Rightarrow> csys \<Rightarrow> csys" where
  "apply_effect i (SendToMA ps pr sb sz tr) s =
     s\<lparr>cs_bundles := (cs_bundles s)(i := cs_bundles s i + 1)\<rparr>"
| "apply_effect i (SendToNPU ps pr sb sz tr) s =
     s\<lparr>cs_bundles := (cs_bundles s)(i := cs_bundles s i + 1)\<rparr>"
| "apply_effect i (FrontEndSend sz dst tag) s =
     s\<lparr>cs_sent := (cs_sent s)((i, dst) := cs_sent s (i, dst) + 1)\<rparr>"
| "apply_effect i (FrontEndRecv sz src tag) s =
     s\<lparr>cs_posted := (cs_posted s)((src, i) := cs_posted s (src, i) + 1)\<rparr>"
| "apply_effect i ProceedToNextVnet s = s\<lparr>cs_done := (cs_done s)(i := True)\<rparr>"

definition handle :: "EventType \<Rightarrow> int \<Rightarrow> csys \<Rightarrow> csys result" where
  "handle event i s =
     rbind (ring_algorithm_run event ((cs_algo s i)\<lparr>rg_log := []\<rparr>)) (\<lambda>r.
       Inr (fold (apply_effect i) (rg_log r) (s\<lparr>cs_algo := (cs_algo s)(i := r)\<rparr>)))"

fun enabled :: "int set \<Rightarrow> label \<Rightarrow> csys \<Rightarrow> bool" where
  "enabled nodes (Start i) s \<longleftrightarrow> i \<in> nodes \<and> \<not> cs_started s i"
| "enabled nodes (BundleDone i) s \<longleftrightarrow> i \<in> nodes \<and> 0 < cs_bundles s i"
| "enabled nodes (Deliver src dst) s \<longleftrightarrow>
     src \<in> nodes \<and> dst \<in> nodes \<and>
     cs_delivered s (src, dst) < min (cs_sent s (src, dst)) (cs_posted s (src, dst))"

fun step :: "label \<Rightarrow> csys \<Rightarrow> csys result" where
  "step (Start i) s = handle StreamInit i (s\<lparr>cs_started := (cs_started s)(i := True)\<rparr>)"
| "step (BundleDone i) s = handle General i (s\<lparr>cs_bundles := (cs_bundles s)(i := cs_bundles s i - 1)\<rparr>)"
| "step (Deliver src dst) s =
     handle PacketReceived dst
       (s\<lparr>cs_delivered := (cs_delivered s)((src, dst) := cs_delivered s (src, dst) + 1)\<rparr>)"

definition csys_init :: "(int \<Rightarrow> Ring) \<Rightarrow> csys" where
  "csys_init algo =
     \<lparr>cs_algo = algo, cs_started = (\<lambda>_. False), cs_done = (\<lambda>_. False), cs_bundles = (\<lambda>_. 0),
      cs_sent = (\<lambda>_. 0), cs_posted = (\<lambda>_. 0), cs_delivered = (\<lambda>_. 0)\<rparr>"

text \<open>Runs: executable, and as a relation on states.\<close>

fun run_labels :: "int set \<Rightarrow> label list \<Rightarrow> csys \<Rightarrow> csys result option" where
  "run_labels nodes [] s = Some (Inr s)"
| "run_labels nodes (l # ls) s =
     (if enabled nodes l s
      then (case step l s of Inl e \<Rightarrow> Some (Inl e) | Inr s' \<Rightarrow> run_labels nodes ls s')
      else None)"

inductive reach :: "int set \<Rightarrow> csys \<Rightarrow> nat \<Rightarrow> csys \<Rightarrow> bool" for nodes s0 where
  reach_init: "reach nodes s0 0 s0"
| reach_step: "reach nodes s0 k s \<Longrightarrow> enabled nodes l s \<Longrightarrow> step l s = Inr s' \<Longrightarrow> reach nodes s0 (Suc k) s'"

section \<open>The invariant of a ring of nodes\<close>

text \<open>
  \<open>S\<close> is the number of messages every node has to send (the initial stream count). A node is
  fresh, has one bundle on its memory bus, waits for its upstream neighbour, or is done.
\<close>

definition node_ok :: "(int \<Rightarrow> int) \<Rightarrow> (int \<Rightarrow> int) \<Rightarrow> nat \<Rightarrow> csys \<Rightarrow> int \<Rightarrow> bool" where
  "node_ok nxt prv S s i \<longleftrightarrow>
     (let r = cs_algo s i; c = cs_sent s (i, nxt i); d = cs_delivered s (prv i, i) in
      rg_name r = NameRing \<and> rg_curr_receiver r = nxt i \<and> rg_curr_sender r = prv i \<and>
      cs_posted s (prv i, i) = c \<and> c \<le> S \<and>
      (\<not> cs_started s i \<and> \<not> cs_done s i \<and> cs_bundles s i = 0 \<and> c = 0 \<and> d = 0 \<and>
         ring_fresh (int S) r \<or>
       cs_started s i \<and> \<not> cs_done s i \<and> cs_bundles s i = 1 \<and> c = d \<and>
         ring_transfer (int S) (int c) r \<or>
       cs_started s i \<and> \<not> cs_done s i \<and> cs_bundles s i = 0 \<and> c = Suc d \<and>
         ring_waiting (int S) (int c) r \<or>
       cs_started s i \<and> cs_done s i \<and> cs_bundles s i = 0 \<and> c = S \<and> d = S))"

definition links_ok :: "(int \<Rightarrow> int) \<Rightarrow> (int \<Rightarrow> int) \<Rightarrow> csys \<Rightarrow> bool" where
  "links_ok nxt prv s \<longleftrightarrow>
     (\<forall>a b. (b \<noteq> nxt a \<longrightarrow> cs_sent s (a, b) = 0) \<and> (a \<noteq> prv b \<longrightarrow> cs_posted s (a, b) = 0))"

definition ring_sys_inv :: "int set \<Rightarrow> (int \<Rightarrow> int) \<Rightarrow> (int \<Rightarrow> int) \<Rightarrow> nat \<Rightarrow> csys \<Rightarrow> bool" where
  "ring_sys_inv nodes nxt prv S s \<longleftrightarrow>
     (\<forall>i\<in>nodes. node_ok nxt prv S s i) \<and> links_ok nxt prv s"

text \<open>The work left at a node: two handler calls per message, one to start, one to finish.\<close>

definition node_work :: "(int \<Rightarrow> int) \<Rightarrow> (int \<Rightarrow> int) \<Rightarrow> nat \<Rightarrow> csys \<Rightarrow> int \<Rightarrow> nat" where
  "node_work nxt prv S s i =
     (S - cs_sent s (i, nxt i)) + (S - cs_delivered s (prv i, i)) +
     (if cs_started s i then 0 else 1) + (if cs_done s i then 0 else 1)"

lemma ring_phase_log [simp]:
  "ring_fresh S (r\<lparr>rg_log := l\<rparr>) = ring_fresh S r"
  "ring_transfer S k (r\<lparr>rg_log := l\<rparr>) = ring_transfer S k r"
  "ring_waiting S k (r\<lparr>rg_log := l\<rparr>) = ring_waiting S k r"
  "ring_peers (r\<lparr>rg_log := l\<rparr>) = ring_peers r"
  by (simp_all add: ring_fresh_def ring_transfer_def ring_waiting_def ring_core_def
      ring_packet_def ring_peers_def)

lemma ring_phase_name:
  "ring_transfer S k r \<Longrightarrow> rg_name r = NameRing" "ring_waiting S k r \<Longrightarrow> rg_name r = NameRing"
  "ring_fresh S r \<Longrightarrow> rg_name r = NameRing"
  by (simp_all add: ring_fresh_def ring_transfer_def ring_waiting_def ring_core_def)

lemma apply_effect_bundle:
  "is_bundle e \<Longrightarrow>
    apply_effect i e s = s\<lparr>cs_bundles := (cs_bundles s)(i := cs_bundles s i + 1)\<rparr>"
  by (cases e) simp_all

text \<open>The four kinds of step, as state updates.\<close>

lemma step_Start:
  assumes "node_ok nxt prv S s i" and "\<not> cs_started s i"
  shows "\<exists>r. step (Start i) s = Inr (s\<lparr>cs_started := (cs_started s)(i := True),
      cs_algo := (cs_algo s)(i := r), cs_bundles := (cs_bundles s)(i := 1)\<rparr>) \<and>
    ring_transfer (int S) 0 r \<and> ring_peers r = ring_peers (cs_algo s i)"
proof -
  from assms have fresh: "ring_fresh (int S) (cs_algo s i)" and "cs_bundles s i = 0"
    by (auto simp: node_ok_def Let_def)
  then obtain r e where "Ring_run StreamInit ((cs_algo s i)\<lparr>rg_log := []\<rparr>) = Inr r"
    "ring_transfer (int S) 0 r" "is_bundle e" "rg_log r = [e]"
    "ring_peers r = ring_peers (cs_algo s i)"
    using ring_start [of "int S" "(cs_algo s i)\<lparr>rg_log := []\<rparr>"] by auto
  with fresh \<open>cs_bundles s i = 0\<close> show ?thesis
    by (intro exI [of _ r])
      (simp add: handle_def ring_algorithm_run_def ring_phase_name(3) apply_effect_bundle)
qed

lemma step_Deliver:
  assumes "node_ok nxt prv S s i" and "cs_delivered s (prv i, i) < cs_posted s (prv i, i)"
  shows "\<exists>r. step (Deliver (prv i) i) s = Inr (s\<lparr>
      cs_delivered := (cs_delivered s)((prv i, i) := cs_delivered s (prv i, i) + 1),
      cs_algo := (cs_algo s)(i := r), cs_bundles := (cs_bundles s)(i := 1)\<rparr>) \<and>
    ring_transfer (int S) (int (cs_sent s (i, nxt i))) r \<and> ring_peers r = ring_peers (cs_algo s i)"
proof -
  from assms have w: "ring_waiting (int S) (int (cs_sent s (i, nxt i))) (cs_algo s i)"
    and "cs_bundles s i = 0"
    by (auto simp: node_ok_def Let_def)
  then obtain r e where "Ring_run PacketReceived ((cs_algo s i)\<lparr>rg_log := []\<rparr>) = Inr r"
    "ring_transfer (int S) (int (cs_sent s (i, nxt i))) r" "is_bundle e" "rg_log r = [e]"
    "ring_peers r = ring_peers (cs_algo s i)"
    using ring_received [of "int S" "int (cs_sent s (i, nxt i))" "(cs_algo s i)\<lparr>rg_log := []\<rparr>"] by auto
  with w \<open>cs_bundles s i = 0\<close> show ?thesis
    by (intro exI [of _ r])
      (simp add: handle_def ring_algorithm_run_def ring_phase_name(2) apply_effect_bundle)
qed

lemma step_Send:
  assumes "node_ok nxt prv S s i" and "0 < cs_bundles s i" and "cs_sent s (i, nxt i) < S"
  shows "\<exists>r. step (BundleDone i) s = Inr (s\<lparr>cs_bundles := (cs_bundles s)(i := 0),
      cs_algo := (cs_algo s)(i := r),
      cs_sent := (cs_sent s)((i, nxt i) := cs_sent s (i, nxt i) + 1),
      cs_posted := (cs_posted s)((prv i, i) := cs_posted s (prv i, i) + 1)\<rparr>) \<and>
    ring_waiting (int S) (int (cs_sent s (i, nxt i)) + 1) r \<and> ring_peers r = ring_peers (cs_algo s i)"
proof -
  from assms have t: "ring_transfer (int S) (int (cs_sent s (i, nxt i))) (cs_algo s i)"
    and b: "cs_bundles s i = 1" "rg_curr_receiver (cs_algo s i) = nxt i"
      "rg_curr_sender (cs_algo s i) = prv i"
    by (auto simp: node_ok_def Let_def)
  then obtain r where "Ring_run General ((cs_algo s i)\<lparr>rg_log := []\<rparr>) = Inr r"
    "ring_waiting (int S) (int (cs_sent s (i, nxt i)) + 1) r"
    "rg_log r = [FrontEndSend (rg_msg_size (cs_algo s i)) (nxt i) (rg_stream_id (cs_algo s i)),
                 FrontEndRecv (rg_msg_size (cs_algo s i)) (prv i) (rg_stream_id (cs_algo s i))]"
    "ring_peers r = ring_peers (cs_algo s i)"
    using ring_send [of "int S" "int (cs_sent s (i, nxt i))" "(cs_algo s i)\<lparr>rg_log := []\<rparr>"] assms(3) by auto
  with t b show ?thesis
    by (intro exI [of _ r])
      (simp add: handle_def ring_algorithm_run_def ring_phase_name(1))
qed

lemma step_Finish:
  assumes "node_ok nxt prv S s i" and "0 < cs_bundles s i" and "cs_sent s (i, nxt i) = S"
  shows "\<exists>r. step (BundleDone i) s = Inr (s\<lparr>cs_bundles := (cs_bundles s)(i := 0),
      cs_algo := (cs_algo s)(i := r), cs_done := (cs_done s)(i := True)\<rparr>) \<and>
    rg_name r = NameRing \<and> ring_peers r = ring_peers (cs_algo s i)"
proof -
  from assms have t: "ring_transfer (int S) (int S) (cs_algo s i)" and b: "cs_bundles s i = 1"
    by (auto simp: node_ok_def Let_def)
  then obtain r where "Ring_run General ((cs_algo s i)\<lparr>rg_log := []\<rparr>) = Inr r"
    "rg_log r = [ProceedToNextVnet]" "rg_name r = NameRing" "ring_peers r = ring_peers (cs_algo s i)"
    using ring_finish [of "int S" "(cs_algo s i)\<lparr>rg_log := []\<rparr>"] by auto
  with t b show ?thesis
    by (intro exI [of _ r])
      (simp add: handle_def ring_algorithm_run_def ring_phase_name(1))
qed

section \<open>Every step concerns one node\<close>

definition only_node :: "int \<Rightarrow> csys \<Rightarrow> csys \<Rightarrow> bool" where
  "only_node i s s' \<longleftrightarrow>
     (\<forall>j. j \<noteq> i \<longrightarrow> cs_algo s' j = cs_algo s j \<and> cs_started s' j = cs_started s j \<and>
        cs_done s' j = cs_done s j \<and> cs_bundles s' j = cs_bundles s j \<and>
        (\<forall>b. cs_sent s' (j, b) = cs_sent s (j, b)) \<and>
        (\<forall>a. cs_posted s' (a, j) = cs_posted s (a, j) \<and>
             cs_delivered s' (a, j) = cs_delivered s (a, j)))"

lemma only_node_ok: "only_node i s s' \<Longrightarrow> j \<noteq> i \<Longrightarrow> node_ok nxt prv S s' j = node_ok nxt prv S s j"
  by (simp add: only_node_def node_ok_def)

lemma only_node_work: "only_node i s s' \<Longrightarrow> j \<noteq> i \<Longrightarrow> node_work nxt prv S s' j = node_work nxt prv S s j"
  by (simp add: only_node_def node_work_def)

definition good_step :: "(int \<Rightarrow> int) \<Rightarrow> (int \<Rightarrow> int) \<Rightarrow> nat \<Rightarrow> int \<Rightarrow> csys \<Rightarrow> csys \<Rightarrow> bool" where
  "good_step nxt prv S i s s' \<longleftrightarrow>
     only_node i s s' \<and> node_ok nxt prv S s' i \<and> links_ok nxt prv s' \<and>
     node_work nxt prv S s i = Suc (node_work nxt prv S s' i)"

lemma good_Start:
  assumes ok: "node_ok nxt prv S s i" and "\<not> cs_started s i" and "links_ok nxt prv s"
  shows "\<exists>s'. step (Start i) s = Inr s' \<and> good_step nxt prv S i s s'"
proof -
  obtain r where r: "step (Start i) s = Inr (s\<lparr>cs_started := (cs_started s)(i := True),
      cs_algo := (cs_algo s)(i := r), cs_bundles := (cs_bundles s)(i := 1)\<rparr>)"
    "ring_transfer (int S) 0 r" "ring_peers r = ring_peers (cs_algo s i)"
    using step_Start [OF assms(1,2)] by blast
  with ok \<open>\<not> cs_started s i\<close> \<open>links_ok nxt prv s\<close> show ?thesis
    by (auto simp: good_step_def only_node_def node_ok_def links_ok_def node_work_def Let_def
        ring_peers_def ring_phase_name(1))
qed

lemma good_Deliver:
  assumes ok: "node_ok nxt prv S s i"
    and lt: "cs_delivered s (prv i, i) < cs_posted s (prv i, i)" and "links_ok nxt prv s"
  shows "\<exists>s'. step (Deliver (prv i) i) s = Inr s' \<and> good_step nxt prv S i s s'"
proof -
  obtain r where r: "step (Deliver (prv i) i) s = Inr (s\<lparr>
      cs_delivered := (cs_delivered s)((prv i, i) := cs_delivered s (prv i, i) + 1),
      cs_algo := (cs_algo s)(i := r), cs_bundles := (cs_bundles s)(i := 1)\<rparr>)"
    "ring_transfer (int S) (int (cs_sent s (i, nxt i))) r" "ring_peers r = ring_peers (cs_algo s i)"
    using step_Deliver [OF assms(1,2)] by blast
  with ok lt \<open>links_ok nxt prv s\<close> show ?thesis
    by (auto simp: good_step_def only_node_def node_ok_def links_ok_def node_work_def Let_def
        ring_peers_def ring_phase_name(1))
qed

lemma good_BundleDone:
  assumes ok: "node_ok nxt prv S s i" and b: "0 < cs_bundles s i" and "links_ok nxt prv s"
  shows "\<exists>s'. step (BundleDone i) s = Inr s' \<and> good_step nxt prv S i s s'"
proof (cases "cs_sent s (i, nxt i) = S")
  case True
  obtain r where r: "step (BundleDone i) s = Inr (s\<lparr>cs_bundles := (cs_bundles s)(i := 0),
      cs_algo := (cs_algo s)(i := r), cs_done := (cs_done s)(i := True)\<rparr>)"
    "rg_name r = NameRing" "ring_peers r = ring_peers (cs_algo s i)"
    using step_Finish [OF ok b True] by blast
  with assms True show ?thesis
    by (auto simp: good_step_def only_node_def node_ok_def links_ok_def node_work_def Let_def
        ring_peers_def)
next
  case False
  with ok have lt: "cs_sent s (i, nxt i) < S" by (auto simp: node_ok_def Let_def)
  obtain r where r: "step (BundleDone i) s = Inr (s\<lparr>cs_bundles := (cs_bundles s)(i := 0),
      cs_algo := (cs_algo s)(i := r),
      cs_sent := (cs_sent s)((i, nxt i) := cs_sent s (i, nxt i) + 1),
      cs_posted := (cs_posted s)((prv i, i) := cs_posted s (prv i, i) + 1)\<rparr>)"
    "ring_waiting (int S) (int (cs_sent s (i, nxt i)) + 1) r" "ring_peers r = ring_peers (cs_algo s i)"
    using step_Send [OF ok b lt] by blast
  with assms lt show ?thesis
    by (auto simp: good_step_def only_node_def node_ok_def links_ok_def node_work_def Let_def
        ring_peers_def ring_phase_name(2) add.commute)
qed

section \<open>Rings of nodes\<close>

text \<open>
  What the collective relies on: every configuration that is \<open>ok\<close> has finitely many nodes,
  and following the downstream and the upstream neighbour are inverse to each other.
\<close>

locale ring_neighbours =
  fixes ok :: "'t \<Rightarrow> bool"
    and nodes :: "'t \<Rightarrow> int set"
    and nxt :: "'t \<Rightarrow> int \<Rightarrow> int"
    and prv :: "'t \<Rightarrow> int \<Rightarrow> int"
  assumes finite_nodes: "ok t \<Longrightarrow> finite (nodes t)"
    and prv_in: "ok t \<Longrightarrow> i \<in> nodes t \<Longrightarrow> prv t i \<in> nodes t"
    and prv_nxt: "ok t \<Longrightarrow> i \<in> nodes t \<Longrightarrow> prv t (nxt t i) = i"
    and nxt_prv: "ok t \<Longrightarrow> i \<in> nodes t \<Longrightarrow> nxt t (prv t i) = i"
begin

definition inv :: "'t \<Rightarrow> nat \<Rightarrow> csys \<Rightarrow> bool" where
  "inv t S s \<longleftrightarrow> ring_sys_inv (nodes t) (nxt t) (prv t) S s"

definition work :: "'t \<Rightarrow> nat \<Rightarrow> csys \<Rightarrow> nat" where
  "work t S s = (\<Sum>i\<in>nodes t. node_work (nxt t) (prv t) S s i)"

lemma good_step_inv:
  assumes "ok t" and "i \<in> nodes t" and "inv t S s" and "good_step (nxt t) (prv t) S i s s'"
  shows "inv t S s'" "work t S s = Suc (work t S s')"
proof -
  have only: "only_node i s s'" using assms(4) by (simp add: good_step_def)
  show "inv t S s'"
    using assms(3,4) only_node_ok [OF only, of _ "nxt t" "prv t" S]
    unfolding inv_def ring_sys_inv_def good_step_def by metis
  have "(\<Sum>j\<in>nodes t - {i}. node_work (nxt t) (prv t) S s' j)
      = (\<Sum>j\<in>nodes t - {i}. node_work (nxt t) (prv t) S s j)"
    using only_node_work [OF only] by (intro sum.cong) auto
  then show "work t S s = Suc (work t S s')"
    using assms(4) by (simp add: work_def sum.remove [OF finite_nodes [OF assms(1)] assms(2)]
        good_step_def)
qed

text \<open>Every enabled step succeeds, keeps the invariant and uses up one unit of work.\<close>

lemma step_ok:
  assumes "ok t" and "inv t S s" and en: "enabled (nodes t) l s"
  shows "\<exists>s'. step l s = Inr s' \<and> inv t S s' \<and> work t S s = Suc (work t S s')"
proof -
  have node: "node_ok (nxt t) (prv t) S s i" if "i \<in> nodes t" for i
    using assms(2) that by (simp add: inv_def ring_sys_inv_def)
  have links: "links_ok (nxt t) (prv t) s"
    using assms(2) by (simp add: inv_def ring_sys_inv_def)
  have "\<exists>i s'. i \<in> nodes t \<and> step l s = Inr s' \<and> good_step (nxt t) (prv t) S i s s'"
  proof (cases l)
    case (Start i)
    with en good_Start [OF node _ links] show ?thesis by auto
  next
    case (BundleDone i)
    with en good_BundleDone [OF node _ links] show ?thesis by auto
  next
    case (Deliver src dst)
    from en have mem: "src \<in> nodes t" "dst \<in> nodes t" and "cs_sent s (src, dst) \<noteq> 0"
      and lt: "cs_delivered s (src, dst) < cs_posted s (src, dst)"
      unfolding Deliver by simp_all
    with links have "nxt t src = dst" unfolding links_ok_def by metis
    with prv_nxt [OF assms(1) mem(1)] have "prv t dst = src" by simp
    with good_Deliver [OF node [OF mem(2)] _ links] lt mem(2) show ?thesis
      unfolding Deliver by metis
  qed
  with good_step_inv [OF assms(1) _ assms(2)] show ?thesis by blast
qed

lemma reach_inv:
  assumes "reach (nodes t) s0 k s" and "ok t" and "inv t S s0"
  shows "inv t S s \<and> work t S s0 = work t S s + k"
  using assms(1)
proof induction
  case reach_init
  with assms show ?case by simp
next
  case (reach_step k s l s')
  with step_ok [OF assms(2), of S s l] show ?case by auto
qed

lemma deadlock_free:
  assumes "ok t" and "inv t S s" and "\<And>l. \<not> enabled (nodes t) l s" and "i \<in> nodes t"
  shows "cs_done s i"
proof (rule ccontr)
  have node: "node_ok (nxt t) (prv t) S s j" if "j \<in> nodes t" for j
    using assms(2) that by (simp add: inv_def ring_sys_inv_def)
  let ?c = "\<lambda>j. cs_sent s (j, nxt t j)"
  let ?W = "{j \<in> nodes t. \<not> cs_done s j}"
  assume "\<not> cs_done s i"
  with assms(4) have "i \<in> ?W" by simp
  moreover have "finite ?W" using finite_nodes [OF assms(1)] by simp
  ultimately obtain j where j: "j \<in> ?W" and least: "\<And>k. k \<in> ?W \<Longrightarrow> ?c j \<le> ?c k"
    using ex_is_arg_min_if_finite [of ?W ?c] by (auto simp: is_arg_min_linorder)
  have started: "cs_started s j" and idle: "cs_bundles s j = 0"
    using assms(3) [of "Start j"] assms(3) [of "BundleDone j"] j by auto
  have d: "?c j = Suc (cs_delivered s (prv t j, j))" "cs_posted s (prv t j, j) = ?c j" "?c j \<le> S"
    using node [of j] j started idle by (auto simp: node_ok_def Let_def)
  have p: "prv t j \<in> nodes t" using prv_in [OF assms(1)] j by simp
  have "cs_sent s (prv t j, j) < ?c j"
    using assms(3) [of "Deliver (prv t j) j"] d p j by auto
  then have lt: "?c (prv t j) < ?c j" using nxt_prv [OF assms(1)] j by simp
  then have "\<not> cs_done s (prv t j)"
    using node [OF p] d(3) by (auto simp: node_ok_def Let_def)
  with p least [of "prv t j"] lt show False by simp
qed

text \<open>The whole run: bounded, error-free, and complete when nothing is enabled any more.\<close>

lemma all_done_work:
  assumes "ok t" and "inv t S s"
  shows "(\<forall>i\<in>nodes t. cs_done s i) \<longleftrightarrow> work t S s = 0"
proof -
  have "node_work (nxt t) (prv t) S s i = 0 \<longleftrightarrow> cs_done s i" if "i \<in> nodes t" for i
  proof -
    have "node_ok (nxt t) (prv t) S s i" using assms(2) that by (simp add: inv_def ring_sys_inv_def)
    then show ?thesis unfolding node_ok_def node_work_def Let_def by auto
  qed
  then show ?thesis
    using finite_nodes [OF assms(1)] by (simp add: work_def)
qed

lemma done_blocked:
  assumes "ok t" and "inv t S s" and "\<forall>i\<in>nodes t. cs_done s i"
  shows "\<not> enabled (nodes t) l s"
proof
  assume "enabled (nodes t) l s"
  from step_ok [OF assms(1,2) this] obtain s' where "work t S s = Suc (work t S s')" by blast
  with all_done_work [OF assms(1,2)] assms(3) show False by simp
qed

lemma done_counts:
  assumes "inv t S s" and "i \<in> nodes t" and "cs_done s i"
  shows "cs_sent s (i, nxt t i) = S" "cs_delivered s (prv t i, i) = S"
  using assms by (auto simp: inv_def ring_sys_inv_def node_ok_def Let_def)

end

section \<open>The logical rings of the simulator\<close>

definition ring_nxt :: "RingTopology \<Rightarrow> Direction \<Rightarrow> int \<Rightarrow> int" where
  "ring_nxt t d x = (case get_receiver t x d of Inl e \<Rightarrow> x | Inr y \<Rightarrow> y)"

definition ring_prv :: "RingTopology \<Rightarrow> Direction \<Rightarrow> int \<Rightarrow> int" where
  "ring_prv t d x = (case get_sender t x d of Inl e \<Rightarrow> x | Inr y \<Rightarrow> y)"

lemma ring_neighbours_defined:
  assumes "ring_wf t" and "x \<in> ring_members t"
  shows "get_receiver t x d = Inr (ring_nxt t d x)" "get_sender t x d = Inr (ring_prv t d x)"
    "ring_nxt t d x \<in> ring_members t" "ring_prv t d x \<in> ring_members t"
proof -
  from assms obtain k where k: "k < ring_size t" "x = ring_at t k"
    by (auto simp: ring_members_image)
  have "j mod ring_size t < ring_size t" for j using ring_wf_size_pos [OF assms(1)] by simp
  then show "get_receiver t x d = Inr (ring_nxt t d x)" "get_sender t x d = Inr (ring_prv t d x)"
    "ring_nxt t d x \<in> ring_members t" "ring_prv t d x \<in> ring_members t"
    using get_receiver_at [OF assms(1) k(1), folded k(2)] assms(1)
    by (cases d; auto simp: ring_nxt_def ring_prv_def ring_members_image)+
qed

lemma ring_members_finite: "ring_wf t \<Longrightarrow> finite (ring_members t)"
  by (simp add: ring_members_image)

lemma ring_nxt_prv_inverse:
  assumes "ring_wf t" and "x \<in> ring_members t"
  shows "ring_prv t d (ring_nxt t d x) = x" "ring_nxt t d (ring_prv t d x) = x"
proof -
  have "rbind (get_receiver t x d) (\<lambda>y. get_sender t y d) = Inr x"
    "rbind (get_sender t x d) (\<lambda>y. get_receiver t y d) = Inr x"
    using assms cw.prev_succ [of t x] cw.succ_prev [of t x] acw.prev_succ [of t x]
      acw.succ_prev [of t x] by (cases d; simp add: mem_eq_ring_members)+
  then show "ring_prv t d (ring_nxt t d x) = x" "ring_nxt t d (ring_prv t d x) = x"
    using assms by (simp_all add: ring_neighbours_defined)
qed

interpretation rn: ring_neighbours "\<lambda>(t, d). ring_wf t" "\<lambda>(t, d). ring_members t"
  "\<lambda>(t, d). ring_nxt t d" "\<lambda>(t, d). ring_prv t d"
  by unfold_locales (auto simp: ring_members_finite ring_neighbours_defined ring_nxt_prv_inverse)

text \<open>
  The algorithm object of node \<open>i\<close> for a collective over the group \<open>NPUs\<close>: its own
  \<^verbatim>\<open>RingTopology\<close> and \<^verbatim>\<open>Ring\<close>, attached to its stream.
\<close>

definition ring_instance ::
    "Dimension \<Rightarrow> int list \<Rightarrow> ComType \<Rightarrow> u64 \<Rightarrow> Direction \<Rightarrow> InjectionPolicy \<Rightarrow> u64 \<times> u64 \<Rightarrow>
     int \<Rightarrow> int \<Rightarrow> int \<Rightarrow> Ring result" where
  "ring_instance dimension NPUs type data_size direction policy uninit stream_id queue_id i =
     rbind (RingTopology_of_NPUs dimension i NPUs) (\<lambda>t.
     rbind (Ring_new type i t data_size direction policy uninit) (\<lambda>r.
       Inr (Algorithm_init stream_id queue_id Created r)))"

definition group_messages :: "ComType \<Rightarrow> int list \<Rightarrow> nat" where
  "group_messages type NPUs = nat (ring_stream_count type (int (length NPUs)))"

lemma ring_instance_ok:
  assumes "distinct NPUs" and "i \<in> set NPUs" and "type \<noteq> All_to_All \<or> policy \<noteq> Aggressive"
    and "ring_instance dim NPUs type data_size direction policy uninit sid q i = Inr r"
    and "ring_wf t" and "ring_size t = length NPUs" and "\<forall>k < length NPUs. ring_at t k = NPUs ! k"
  shows "ring_fresh (int (group_messages type NPUs)) r \<and>
    rg_curr_receiver r = ring_nxt t direction i \<and> rg_curr_sender r = ring_prv t direction i"
proof -
  obtain t' where t': "RingTopology_of_NPUs dim i NPUs = Inr t'" "ring_wf t'"
    "ring_size t' = length NPUs" "rt_id t' = i" "\<forall>k < length NPUs. ring_at t' k = NPUs ! k"
    using ring_NPUs_built [OF assms(1,2)] by blast
  with assms(4) obtain r0 where r0: "Ring_new type i t' data_size direction policy uninit = Inr r0"
    and r: "r = Algorithm_init sid q Created r0"
    by (auto simp: ring_instance_def rbind_Inr_iff)
  have n: "get_nodes_in_ring t' = int (length NPUs)"
    using t'(2,3) by (metis get_nodes_in_ring_def ring_wf_size)
  have i: "i \<in> ring_members t"
    using assms(2,5,6,7) by (auto simp: ring_members_image in_set_conv_nth)
  have "get_receiver t' i direction = Inr (ring_nxt t direction i)"
    "get_sender t' i direction = Inr (ring_prv t direction i)"
    using ring_copies_agree [OF assms(5) t'(2)] t'(3,5) assms(5,6,7) i
    by (simp_all add: ring_neighbours_defined)
  then have "rg_curr_receiver r = ring_nxt t direction i" "rg_curr_sender r = ring_prv t direction i"
    using r0 r by (auto simp: Ring_new_def Let_def rbind_Inr_iff Algorithm_init_def)
  moreover have fresh: "ring_fresh (ring_stream_count type (int (length NPUs))) r"
    using Ring_new_fresh [OF t'(2,4) assms(3) r0] r n by simp
  moreover have "0 \<le> ring_stream_count type (int (length NPUs))"
    using fresh by (auto simp: ring_fresh_def ring_core_def)
  ultimately show ?thesis by (simp add: group_messages_def)
qed

lemma csys_init_inv:
  assumes "\<forall>i\<in>nodes. ring_fresh (int S) (algo i) \<and> rg_curr_receiver (algo i) = nxt i \<and>
    rg_curr_sender (algo i) = prv i"
  shows "ring_sys_inv nodes nxt prv S (csys_init algo)"
    and "(\<Sum>i\<in>nodes. node_work nxt prv S (csys_init algo) i) = card nodes * (2 * S + 2)"
  using assms
  by (auto simp: ring_sys_inv_def node_ok_def links_ok_def csys_init_def node_work_def
      ring_phase_name(3))

text \<open>A run of the whole group, whatever the interleaving.\<close>

lemma ring_group_run:
  assumes "distinct NPUs" and "NPUs \<noteq> []" and "type \<noteq> All_to_All \<or> policy \<noteq> Aggressive"
    and inst: "\<forall>i\<in>set NPUs. ring_instance dim NPUs type data_size direction policy uninit sid q i = Inr (algo i)"
    and "reach (set NPUs) (csys_init algo) k s"
  defines "S \<equiv> group_messages type NPUs"
  shows "\<exists>t. ring_wf t \<and> ring_members t = set NPUs \<and> rt_id t = hd NPUs \<and>
      RingTopology_of_NPUs dim (hd NPUs) NPUs = Inr t \<and> rn.inv (t, direction) S s \<and>
      rn.work (t, direction) S s + k = length NPUs * (2 * S + 2)"
proof -
  obtain t where t: "RingTopology_of_NPUs dim (hd NPUs) NPUs = Inr t" "ring_wf t"
    "ring_size t = length NPUs" "rt_id t = hd NPUs" "\<forall>k < length NPUs. ring_at t k = NPUs ! k"
    using ring_NPUs_built [OF assms(1), of "hd NPUs"] assms(2) by auto
  have mem: "ring_members t = set NPUs"
    using t(3,5) by (auto simp: ring_members_image [OF t(2)] in_set_conv_nth)
  have init: "\<forall>i\<in>set NPUs. ring_fresh (int S) (algo i) \<and>
      rg_curr_receiver (algo i) = ring_nxt t direction i \<and>
      rg_curr_sender (algo i) = ring_prv t direction i"
    using ring_instance_ok [OF assms(1) _ assms(3) bspec [OF inst] t(2,3,5)] unfolding S_def by blast
  have "rn.inv (t, direction) S (csys_init algo)"
    using csys_init_inv(1) [OF init] by (simp add: rn.inv_def mem)
  moreover have "rn.work (t, direction) S (csys_init algo) = length NPUs * (2 * S + 2)"
    using csys_init_inv(2) [OF init] assms(1) by (simp add: rn.work_def mem distinct_card)
  ultimately show ?thesis
    using rn.reach_inv [of "(t, direction)" "csys_init algo" k s S] assms(5) t mem by auto
qed

lemma run_labels_reach:
  "run_labels nodes ls s = Some (Inr s') \<Longrightarrow> reach nodes s0 k s \<Longrightarrow> reach nodes s0 (k + length ls) s'"
proof (induction ls arbitrary: s k)
  case Nil
  then show ?case by simp
next
  case (Cons l ls)
  then obtain s1 where "enabled nodes l s" "step l s = Inr s1" "run_labels nodes ls s1 = Some (Inr s')"
    by (auto split: if_splits sum.splits)
  with Cons.IH [of s1 "Suc k"] Cons.prems(2) show ?case by (auto intro: reach_step)
qed

section \<open>Properties of a collective over a group\<close>

text \<open>
  \<^bold>\<open>C2\<close>. Error freedom. Let every member of a group run its own ring algorithm, built by the
  constructors from the list of members. Whatever the interleaving of starts, bundle
  completions and message arrivals, every enabled step succeeds: no assertion and no panic of
  the handlers is ever reached.
\<close>

theorem ring_collective_no_error:
  assumes "distinct NPUs" and "NPUs \<noteq> []" and "type \<noteq> All_to_All \<or> policy \<noteq> Aggressive"
    and "\<forall>i\<in>set NPUs. ring_instance dim NPUs type data_size direction policy uninit sid q i = Inr (algo i)"
    and "reach (set NPUs) (csys_init algo) k s" and "enabled (set NPUs) l s"
  shows "\<exists>s'. step l s = Inr s'"
proof -
  from ring_group_run [OF assms(1-5)] obtain t where "ring_wf t" "ring_members t = set NPUs"
    "rn.inv (t, direction) (group_messages type NPUs) s" by blast
  with rn.step_ok [of "(t, direction)" _ s l] assms(6) show ?thesis by auto
qed

text \<open>
  \<^bold>\<open>C1\<close>. Deadlock freedom and termination. A run of the group has at most
  \<open>n * (2 * S + 2)\<close> steps, where \<open>n\<close> is the size of the group and \<open>S\<close> the number of
  messages per node; it can be continued exactly until every node has called
  \<^verbatim>\<open>proceed_to_next_vnet\<close>, and that is after exactly \<open>n * (2 * S + 2)\<close> steps.
\<close>

theorem ring_collective_terminates:
  assumes "distinct NPUs" and "NPUs \<noteq> []" and "type \<noteq> All_to_All \<or> policy \<noteq> Aggressive"
    and "\<forall>i\<in>set NPUs. ring_instance dim NPUs type data_size direction policy uninit sid q i = Inr (algo i)"
    and "reach (set NPUs) (csys_init algo) k s"
  shows "k \<le> length NPUs * (2 * group_messages type NPUs + 2) \<and>
    ((\<exists>l. enabled (set NPUs) l s) \<longleftrightarrow> \<not> (\<forall>i\<in>set NPUs. cs_done s i)) \<and>
    ((\<forall>i\<in>set NPUs. cs_done s i) \<longleftrightarrow> k = length NPUs * (2 * group_messages type NPUs + 2))"
proof -
  from ring_group_run [OF assms] obtain t where t: "ring_wf t" "ring_members t = set NPUs"
    "rn.inv (t, direction) (group_messages type NPUs) s"
    "rn.work (t, direction) (group_messages type NPUs) s + k
      = length NPUs * (2 * group_messages type NPUs + 2)" by blast
  have "\<exists>l. enabled (set NPUs) l s" if "i \<in> set NPUs" "\<not> cs_done s i" for i
    using rn.deadlock_free [OF _ t(3), of i] that t(1,2) by auto
  moreover have "\<not> enabled (set NPUs) l s" if "\<forall>i\<in>set NPUs. cs_done s i" for l
    using rn.done_blocked [OF _ t(3), of l] that t(1,2) by simp
  ultimately have "(\<exists>l. enabled (set NPUs) l s) \<longleftrightarrow> \<not> (\<forall>i\<in>set NPUs. cs_done s i)" by metis
  moreover have "(\<forall>i\<in>set NPUs. cs_done s i) \<longleftrightarrow> k = length NPUs * (2 * group_messages type NPUs + 2)"
    using rn.all_done_work [OF _ t(3)] t by auto
  moreover have "k \<le> length NPUs * (2 * group_messages type NPUs + 2)" using t(4) by linarith
  ultimately show ?thesis by blast
qed

text \<open>
  \<^bold>\<open>C12\<close>. Traffic of a finished collective. When all nodes are done, every node has sent exactly
  \<open>S\<close> messages to its clockwise successor in the list of members, all of them were delivered,
  and nothing was sent between any other pair.
\<close>

theorem ring_collective_traffic:
  assumes "distinct NPUs" and "NPUs \<noteq> []" and "type \<noteq> All_to_All \<or> policy \<noteq> Aggressive"
    and "\<forall>i\<in>set NPUs. ring_instance dim NPUs type data_size Clockwise policy uninit sid q i = Inr (algo i)"
    and "reach (set NPUs) (csys_init algo) k s" and "\<forall>i\<in>set NPUs. cs_done s i"
    and "j < length NPUs"
  shows "cs_sent s (NPUs ! j, dst) =
      (if dst = NPUs ! ((j + 1) mod length NPUs) then group_messages type NPUs else 0) \<and>
    cs_delivered s (NPUs ! ((j + length NPUs - 1) mod length NPUs), NPUs ! j)
      = group_messages type NPUs"
proof -
  let ?n = "length NPUs"
  from ring_group_run [OF assms(1-5)] obtain t where t: "ring_wf t" "ring_members t = set NPUs"
    "RingTopology_of_NPUs dim (hd NPUs) NPUs = Inr t"
    "rn.inv (t, Clockwise) (group_messages type NPUs) s" by blast
  with ring_NPUs_built [OF assms(1), of "hd NPUs" dim] assms(2)
  have at: "ring_size t = ?n" "\<forall>k < ?n. ring_at t k = NPUs ! k" by auto
  have lt: "m mod ?n < ?n" for m using assms(2) by simp
  have nb: "ring_nxt t Clockwise (NPUs ! j) = NPUs ! ((j + 1) mod ?n)"
    "ring_prv t Clockwise (NPUs ! j) = NPUs ! ((j + ?n - 1) mod ?n)"
    using get_receiver_at(1,4) [OF t(1), of j] at assms(7) lt
    by (simp_all add: ring_nxt_def ring_prv_def)
  have "cs_sent s (a, b) = 0" if "b \<noteq> ring_nxt t Clockwise a" for a b
    using t(4) that by (auto simp: rn.inv_def ring_sys_inv_def links_ok_def)
  with rn.done_counts [OF t(4), of "NPUs ! j"] t(2) assms(6,7) nb
  show ?thesis by auto
qed

section \<open>A concrete group of two nodes\<close>

definition demo_algo :: "int \<Rightarrow> Ring" where
  "demo_algo i = projr (ring_instance DimLocal [0, 1] All_Reduce 8 Clockwise Normal (0, 0) 1 0 i)"

definition demo_run :: "label list" where
  "demo_run = [Start 0, Start 1, BundleDone 0, BundleDone 1, Deliver 1 0, Deliver 0 1,
     BundleDone 0, BundleDone 1, Deliver 1 0, Deliver 0 1, BundleDone 0, BundleDone 1]"

definition demo_final :: csys where
  "demo_final = projr (the (run_labels (set [0, 1]) demo_run (csys_init demo_algo)))"

lemma demo_instances:
  "\<forall>i\<in>set [0, 1]. ring_instance DimLocal [0, 1] All_Reduce 8 Clockwise Normal (0, 0) 1 0 i
     = Inr (demo_algo i)"
proof -
  have "\<not> isl (ring_instance DimLocal [0, 1] All_Reduce 8 Clockwise Normal (0, 0) 1 0 0)"
    "\<not> isl (ring_instance DimLocal [0, 1] All_Reduce 8 Clockwise Normal (0, 0) 1 0 1)"
    by code_simp+
  then show ?thesis by (simp add: demo_algo_def)
qed

lemma demo_final_reached:
  "reach (set [0, 1]) (csys_init demo_algo) 12 demo_final" "cs_done demo_final 0" "cs_done demo_final 1"
proof -
  have "(case run_labels (set [0, 1]) demo_run (csys_init demo_algo) of
      None \<Rightarrow> False | Some res \<Rightarrow> \<not> isl res)" by code_simp
  then have "run_labels (set [0, 1]) demo_run (csys_init demo_algo) = Some (Inr demo_final)"
    by (simp add: demo_final_def split: option.splits)
  from run_labels_reach [OF this reach_init] show "reach (set [0, 1]) (csys_init demo_algo) 12 demo_final"
    by (simp add: demo_run_def eval_nat_numeral)
  show "cs_done demo_final 0" "cs_done demo_final 1" by code_simp+
qed

theorem ring_collective_no_error_witness:
  "\<exists>s'. step (Start 0) (csys_init demo_algo) = Inr s'"
  using ring_collective_no_error [OF _ _ _ demo_instances reach_init, of "Start 0"]
  by (simp add: csys_init_def)

theorem ring_collective_terminates_witness:
  "\<not> (\<exists>l. enabled {0, 1} l demo_final) \<and> group_messages All_Reduce [0, 1] = 2"
  using ring_collective_terminates [OF _ _ _ demo_instances demo_final_reached(1)]
    demo_final_reached(2,3) by (simp add: group_messages_def ring_stream_count_def)

theorem ring_collective_traffic_witness:
  "cs_sent demo_final (0, 1) = 2 \<and> cs_sent demo_final (0, 0) = 0 \<and> cs_delivered demo_final (1, 0) = 2"
  using ring_collective_traffic [OF _ _ _ demo_instances demo_final_reached(1), of 0]
    demo_final_reached(2,3) by (simp add: group_messages_def ring_stream_count_def)

end
