(* ===== verification/Network_Frontend.thy ===== *)
theory Network_Frontend
  imports Astra_Prelude "HOL-Library.Multiset"
begin

text \<open>
  The analytical network front end
  (\<^verbatim>\<open>network_frontend/analytical/common\<close> and both \<^verbatim>\<open>sim_send\<close> variants): chunk
  ids, the callback tracker, chunk arrival, and the send and receive calls of the network API.
  A callback with its argument is a value of the type parameter; \<open>invoke\<close> is what running it
  does, a parameter of the arrival handler. The refinement at the end compares the tracker
  with its contract: the \<open>k\<close>-th send of a (tag, source, destination, size) tuple is paired
  with the \<open>k\<close>-th receive of that tuple, whatever the order of the calls and of the arrivals.
\<close>

section \<open>Chunk ids\<close>

record ChunkIdGeneratorEntry =
  cg_send_id :: int
  cg_recv_id :: int

definition ChunkIdGeneratorEntry_new :: ChunkIdGeneratorEntry where
  "ChunkIdGeneratorEntry_new = \<lparr>cg_send_id = -1, cg_recv_id = -1\<rparr>"

definition get_send_id :: "ChunkIdGeneratorEntry \<Rightarrow> int result" where
  "get_send_id e = rbind (assert_that (cg_send_id e \<ge> 0) ''send_id >= 0'') (\<lambda>_. Inr (cg_send_id e))"

definition get_recv_id :: "ChunkIdGeneratorEntry \<Rightarrow> int result" where
  "get_recv_id e = rbind (assert_that (cg_recv_id e \<ge> 0) ''recv_id >= 0'') (\<lambda>_. Inr (cg_recv_id e))"

definition increment_send_id :: "ChunkIdGeneratorEntry \<Rightarrow> ChunkIdGeneratorEntry" where
  "increment_send_id e = e\<lparr>cg_send_id := cg_send_id e + 1\<rparr>"

definition increment_recv_id :: "ChunkIdGeneratorEntry \<Rightarrow> ChunkIdGeneratorEntry" where
  "increment_recv_id e = e\<lparr>cg_recv_id := cg_recv_id e + 1\<rparr>"

text \<open>A key is the tuple (tag, source, destination, chunk size).\<close>

type_synonym chunk_key = "int \<times> int \<times> int \<times> u64"

type_synonym ChunkIdGenerator = "chunk_key \<rightharpoonup> ChunkIdGeneratorEntry"

definition check_key :: "chunk_key \<Rightarrow> unit result" where
  "check_key k = (case k of (tag, src, dest, chunk_size) \<Rightarrow>
     rbind (assert_that (tag \<ge> 0) ''tag >= 0'') (\<lambda>_.
     rbind (assert_that (src \<ge> 0) ''src >= 0'') (\<lambda>_.
     rbind (assert_that (dest \<ge> 0) ''dest >= 0'') (\<lambda>_.
       assert_that (chunk_size > 0) ''chunk_size > 0''))))"

definition create_send_chunk_id :: "chunk_key \<Rightarrow> ChunkIdGenerator \<Rightarrow> (int \<times> ChunkIdGenerator) result" where
  "create_send_chunk_id k chunk_id_map =
     rbind (check_key k) (\<lambda>_.
       let entry = (case chunk_id_map k of None \<Rightarrow> ChunkIdGeneratorEntry_new | Some e \<Rightarrow> e);
           entry = increment_send_id entry
       in rbind (get_send_id entry) (\<lambda>i. Inr (i, chunk_id_map(k \<mapsto> entry))))"

definition create_recv_chunk_id :: "chunk_key \<Rightarrow> ChunkIdGenerator \<Rightarrow> (int \<times> ChunkIdGenerator) result" where
  "create_recv_chunk_id k chunk_id_map =
     rbind (check_key k) (\<lambda>_.
       let entry = (case chunk_id_map k of None \<Rightarrow> ChunkIdGeneratorEntry_new | Some e \<Rightarrow> e);
           entry = increment_recv_id entry
       in rbind (get_recv_id entry) (\<lambda>i. Inr (i, chunk_id_map(k \<mapsto> entry))))"

section \<open>The callback tracker\<close>

record 'cb CallbackTrackerEntry =
  ct_send_event :: "'cb option"
  ct_recv_event :: "'cb option"
  ct_transmission_finished :: bool

definition CallbackTrackerEntry_new :: "'cb CallbackTrackerEntry" where
  "CallbackTrackerEntry_new =
     \<lparr>ct_send_event = None, ct_recv_event = None, ct_transmission_finished = False\<rparr>"

definition register_send_callback :: "'cb \<Rightarrow> 'cb CallbackTrackerEntry \<Rightarrow> 'cb CallbackTrackerEntry result" where
  "register_send_callback cb e =
     rbind (assert_that (ct_send_event e = None) ''!send_event.has_value()'') (\<lambda>_.
       Inr (e\<lparr>ct_send_event := Some cb\<rparr>))"

definition register_recv_callback :: "'cb \<Rightarrow> 'cb CallbackTrackerEntry \<Rightarrow> 'cb CallbackTrackerEntry result" where
  "register_recv_callback cb e =
     rbind (assert_that (ct_recv_event e = None) ''!recv_event.has_value()'') (\<lambda>_.
       Inr (e\<lparr>ct_recv_event := Some cb\<rparr>))"

definition is_transmission_finished :: "'cb CallbackTrackerEntry \<Rightarrow> bool" where
  "is_transmission_finished e = ct_transmission_finished e"

definition set_transmission_finished :: "'cb CallbackTrackerEntry \<Rightarrow> 'cb CallbackTrackerEntry" where
  "set_transmission_finished e = e\<lparr>ct_transmission_finished := True\<rparr>"

definition both_callbacks_registered :: "'cb CallbackTrackerEntry \<Rightarrow> bool" where
  "both_callbacks_registered e \<longleftrightarrow> ct_send_event e \<noteq> None \<and> ct_recv_event e \<noteq> None"

type_synonym 'cb CallbackTracker = "chunk_key \<times> int \<rightharpoonup> 'cb CallbackTrackerEntry"

definition check_chunk :: "chunk_key \<times> int \<Rightarrow> unit result" where
  "check_chunk kc = rbind (check_key (fst kc)) (\<lambda>_. assert_that (snd kc \<ge> 0) ''chunk_id >= 0'')"

text \<open>
  \<^verbatim>\<open>search_entry\<close> and \<^verbatim>\<open>create_new_entry\<close> return pointers into the map; an update through the
  pointer is \<open>update_entry\<close> at the same key.
\<close>

definition search_entry :: "chunk_key \<times> int \<Rightarrow> 'cb CallbackTracker \<Rightarrow> 'cb CallbackTrackerEntry option result" where
  "search_entry kc tracker = rbind (check_chunk kc) (\<lambda>_. Inr (tracker kc))"

definition create_new_entry :: "chunk_key \<times> int \<Rightarrow> 'cb CallbackTracker \<Rightarrow> 'cb CallbackTracker result" where
  "create_new_entry kc tracker =
     rbind (check_chunk kc) (\<lambda>_.
       Inr (case tracker kc of None \<Rightarrow> tracker(kc \<mapsto> CallbackTrackerEntry_new) | Some _ \<Rightarrow> tracker))"

definition pop_entry :: "chunk_key \<times> int \<Rightarrow> 'cb CallbackTracker \<Rightarrow> 'cb CallbackTracker result" where
  "pop_entry kc tracker =
     rbind (check_chunk kc) (\<lambda>_.
     rbind (assert_that (tracker kc \<noteq> None) ''entry != tracker.end()'') (\<lambda>_.
       Inr (tracker(kc := None))))"

definition update_entry ::
    "chunk_key \<times> int \<Rightarrow> ('cb CallbackTrackerEntry \<Rightarrow> 'cb CallbackTrackerEntry result) \<Rightarrow>
     'cb CallbackTracker \<Rightarrow> 'cb CallbackTracker result" where
  "update_entry kc f tracker =
     (case tracker kc of
        None \<Rightarrow> Inl (NullDeref ''CallbackTrackerEntry'')
      | Some e \<Rightarrow> rbind (f e) (\<lambda>e'. Inr (tracker(kc \<mapsto> e'))))"

section \<open>The network API\<close>

text \<open>
  Events of the queue are the arrival of a chunk or a callback to run. \<open>na_chunks\<close> holds the
  chunks handed to the congestion-aware topology, which reports each arrival once.
\<close>

datatype 'cb net_event = ChunkArrival "chunk_key \<times> int" | RunCallback 'cb

record 'cb net_api =
  na_chunk_id_generator :: ChunkIdGenerator
  na_callback_tracker :: "'cb CallbackTracker"
  na_current_time :: nat
  na_event_queue :: "(nat \<times> 'cb net_event) list"
  na_chunks :: "(chunk_key \<times> int) list"
  na_invoked :: "'cb list"

definition net_api_init :: "'cb net_api" where
  "net_api_init = \<lparr>na_chunk_id_generator = Map.empty, na_callback_tracker = Map.empty,
     na_current_time = 0, na_event_queue = [], na_chunks = [], na_invoked = []\<rparr>"

definition sim_schedule :: "nat \<Rightarrow> 'cb net_event \<Rightarrow> 'cb net_api \<Rightarrow> 'cb net_api" where
  "sim_schedule delta ev n =
     n\<lparr>na_event_queue := na_event_queue n @ [(na_current_time n + delta, ev)]\<rparr>"

definition get_BW_at_dimension :: "int \<Rightarrow> 'a list \<Rightarrow> int \<Rightarrow> 'a result" where
  "get_BW_at_dimension dims_count bandwidth_per_dim dim =
     rbind (assert_that (0 \<le> dim \<and> dim < dims_count) ''0 <= dim && dim < dims_count'') (\<lambda>_.
       if nat dim < length bandwidth_per_dim then Inr (bandwidth_per_dim ! nat dim)
       else Inl (OutOfRange ''bandwidth_per_dim''))"

definition invoke_send_handler ::
    "('cb \<Rightarrow> 'cb net_api \<Rightarrow> 'cb net_api result) \<Rightarrow> chunk_key \<times> int \<Rightarrow> 'cb net_api \<Rightarrow> 'cb net_api result" where
  "invoke_send_handler invoke kc n =
     (case na_callback_tracker n kc of
        None \<Rightarrow> Inl (NullDeref ''CallbackTrackerEntry'')
      | Some e \<Rightarrow>
          (case ct_send_event e of
             None \<Rightarrow> Inl (AssertionFailed ''send_event.has_value()'')
           | Some cb \<Rightarrow> invoke cb n))"

definition invoke_recv_handler ::
    "('cb \<Rightarrow> 'cb net_api \<Rightarrow> 'cb net_api result) \<Rightarrow> chunk_key \<times> int \<Rightarrow> 'cb net_api \<Rightarrow> 'cb net_api result" where
  "invoke_recv_handler invoke kc n =
     (case na_callback_tracker n kc of
        None \<Rightarrow> Inl (NullDeref ''CallbackTrackerEntry'')
      | Some e \<Rightarrow>
          (case ct_recv_event e of
             None \<Rightarrow> Inl (AssertionFailed ''recv_event.has_value()'')
           | Some cb \<Rightarrow> invoke cb n))"

definition on_tracker ::
    "('cb CallbackTracker \<Rightarrow> 'cb CallbackTracker result) \<Rightarrow> 'cb net_api \<Rightarrow> 'cb net_api result" where
  "on_tracker f n =
     rbind (f (na_callback_tracker n)) (\<lambda>tr. Inr (n\<lparr>na_callback_tracker := tr\<rparr>))"

definition process_chunk_arrival ::
    "('cb \<Rightarrow> 'cb net_api \<Rightarrow> 'cb net_api result) \<Rightarrow> chunk_key \<times> int \<Rightarrow> 'cb net_api \<Rightarrow> 'cb net_api result" where
  "process_chunk_arrival invoke kc n =
     rbind (search_entry kc (na_callback_tracker n)) (\<lambda>entry.
       case entry of
         None \<Rightarrow> Inl (AssertionFailed ''entry.has_value()'')
       | Some e \<Rightarrow>
           if both_callbacks_registered e
           then rbind (invoke_send_handler invoke kc n) (\<lambda>n.
                rbind (invoke_recv_handler invoke kc n) (\<lambda>n.
                  on_tracker (pop_entry kc) n))
           else rbind (invoke_send_handler invoke kc n) (\<lambda>n.
                  on_tracker (update_entry kc (\<lambda>e. Inr (set_transmission_finished e))) n))"

definition sim_recv :: "chunk_key \<Rightarrow> 'cb \<Rightarrow> 'cb net_api \<Rightarrow> 'cb net_api result" where
  "sim_recv k cb n =
     rbind (create_recv_chunk_id k (na_chunk_id_generator n)) (\<lambda>(chunk_id, gen).
     let n = n\<lparr>na_chunk_id_generator := gen\<rparr>; kc = (k, chunk_id) in
     rbind (search_entry kc (na_callback_tracker n)) (\<lambda>entry.
       case entry of
         Some e \<Rightarrow>
           if is_transmission_finished e
           then rbind (on_tracker (pop_entry kc) n) (\<lambda>n. Inr (sim_schedule 0 (RunCallback cb) n))
           else on_tracker (update_entry kc (register_recv_callback cb)) n
       | None \<Rightarrow>
           rbind (on_tracker (create_new_entry kc) n) (\<lambda>n.
             on_tracker (update_entry kc (register_recv_callback cb)) n)))"

text \<open>The part of \<^verbatim>\<open>sim_send\<close> that both front ends share; it returns the chunk id.\<close>

definition register_send :: "chunk_key \<Rightarrow> 'cb \<Rightarrow> 'cb net_api \<Rightarrow> (int \<times> 'cb net_api) result" where
  "register_send k cb n =
     rbind (create_send_chunk_id k (na_chunk_id_generator n)) (\<lambda>(chunk_id, gen).
     let n = n\<lparr>na_chunk_id_generator := gen\<rparr>; kc = (k, chunk_id) in
     rbind (search_entry kc (na_callback_tracker n)) (\<lambda>entry.
     rbind (case entry of
              Some e \<Rightarrow> on_tracker (update_entry kc (register_send_callback cb)) n
            | None \<Rightarrow>
                rbind (on_tracker (create_new_entry kc) n) (\<lambda>n.
                  on_tracker (update_entry kc (register_send_callback cb)) n)) (\<lambda>n.
       Inr (chunk_id, n))))"

definition CongestionUnaware_sim_send ::
    "(int \<Rightarrow> int \<Rightarrow> u64 \<Rightarrow> nat) \<Rightarrow> chunk_key \<Rightarrow> 'cb \<Rightarrow> 'cb net_api \<Rightarrow> 'cb net_api result" where
  "CongestionUnaware_sim_send topology_send k cb n =
     rbind (register_send k cb n) (\<lambda>(chunk_id, n).
       case k of (tag, src, dst, bytes) \<Rightarrow>
         Inr (sim_schedule (topology_send src dst bytes) (ChunkArrival (k, chunk_id)) n))"

definition CongestionAware_sim_send :: "chunk_key \<Rightarrow> 'cb \<Rightarrow> 'cb net_api \<Rightarrow> 'cb net_api result" where
  "CongestionAware_sim_send k cb n =
     rbind (register_send k cb n) (\<lambda>(chunk_id, n).
       Inr (n\<lparr>na_chunks := na_chunks n @ [(k, chunk_id)]\<rparr>))"

section \<open>Runs of the front end\<close>

text \<open>
  The event queue and the congestion-aware topology may deliver any pending arrival next: the
  time order they use is one of the orders considered here.
\<close>

definition record_invocation :: "'cb \<Rightarrow> 'cb net_api \<Rightarrow> 'cb net_api result" where
  "record_invocation cb n = Inr (n\<lparr>na_invoked := na_invoked n @ [cb]\<rparr>)"

datatype 'cb net_op =
    SendUnaware nat chunk_key 'cb
  | SendAware chunk_key 'cb
  | Recv chunk_key 'cb
  | FireEvent nat "'cb net_event"
  | ChunkDelivered "chunk_key \<times> int"

fun net_enabled :: "'cb net_op \<Rightarrow> 'cb net_api \<Rightarrow> bool" where
  "net_enabled (SendUnaware delay k cb) n \<longleftrightarrow> check_key k = Inr ()"
| "net_enabled (SendAware k cb) n \<longleftrightarrow> check_key k = Inr ()"
| "net_enabled (Recv k cb) n \<longleftrightarrow> check_key k = Inr ()"
| "net_enabled (FireEvent t ev) n \<longleftrightarrow> (t, ev) \<in> set (na_event_queue n)"
| "net_enabled (ChunkDelivered kc) n \<longleftrightarrow> kc \<in> set (na_chunks n)"

fun net_step :: "'cb net_op \<Rightarrow> 'cb net_api \<Rightarrow> 'cb net_api result" where
  "net_step (SendUnaware delay k cb) n = CongestionUnaware_sim_send (\<lambda>src dst size. delay) k cb n"
| "net_step (SendAware k cb) n = CongestionAware_sim_send k cb n"
| "net_step (Recv k cb) n = sim_recv k cb n"
| "net_step (FireEvent t ev) n =
     (let n = n\<lparr>na_event_queue := remove1 (t, ev) (na_event_queue n), na_current_time := t\<rparr> in
      case ev of
        ChunkArrival kc \<Rightarrow> process_chunk_arrival record_invocation kc n
      | RunCallback cb \<Rightarrow> record_invocation cb n)"
| "net_step (ChunkDelivered kc) n =
     process_chunk_arrival record_invocation kc (n\<lparr>na_chunks := remove1 kc (na_chunks n)\<rparr>)"

inductive net_reach :: "'cb net_api \<Rightarrow> 'cb net_op list \<Rightarrow> 'cb net_api \<Rightarrow> bool" for n0 where
  net_start: "net_reach n0 [] n0"
| net_next: "net_reach n0 ops n \<Longrightarrow> net_enabled opn n \<Longrightarrow> net_step opn n = Inr n' \<Longrightarrow>
    net_reach n0 (ops @ [opn]) n'"

section \<open>The contract\<close>

text \<open>
  Per key: the callbacks of the sends and of the receives in call order, and the positions
  whose chunk has arrived.
\<close>

record 'cb matching =
  ma_sends :: "chunk_key \<Rightarrow> 'cb list"
  ma_recvs :: "chunk_key \<Rightarrow> 'cb list"
  ma_arrived :: "chunk_key \<Rightarrow> nat set"
  ma_keys :: "chunk_key set"

definition matching_init :: "'cb matching" where
  "matching_init = \<lparr>ma_sends = (\<lambda>_. []), ma_recvs = (\<lambda>_. []), ma_arrived = (\<lambda>_. {}), ma_keys = {}\<rparr>"

definition ma_send :: "chunk_key \<Rightarrow> 'cb \<Rightarrow> 'cb matching \<Rightarrow> 'cb matching" where
  "ma_send k cb m = m\<lparr>ma_sends := (ma_sends m)(k := ma_sends m k @ [cb]), ma_keys := insert k (ma_keys m)\<rparr>"

definition ma_recv :: "chunk_key \<Rightarrow> 'cb \<Rightarrow> 'cb matching \<Rightarrow> 'cb matching" where
  "ma_recv k cb m = m\<lparr>ma_recvs := (ma_recvs m)(k := ma_recvs m k @ [cb]), ma_keys := insert k (ma_keys m)\<rparr>"

definition ma_arrive :: "chunk_key \<times> int \<Rightarrow> 'cb matching \<Rightarrow> 'cb matching" where
  "ma_arrive kc m = m\<lparr>ma_arrived := (ma_arrived m)(fst kc := insert (nat (snd kc)) (ma_arrived m (fst kc)))\<rparr>"

fun ma_step :: "'cb net_op \<Rightarrow> 'cb matching \<Rightarrow> 'cb matching" where
  "ma_step (SendUnaware delay k cb) m = ma_send k cb m"
| "ma_step (SendAware k cb) m = ma_send k cb m"
| "ma_step (Recv k cb) m = ma_recv k cb m"
| "ma_step (FireEvent t (ChunkArrival kc)) m = ma_arrive kc m"
| "ma_step (FireEvent t (RunCallback cb)) m = m"
| "ma_step (ChunkDelivered kc) m = ma_arrive kc m"

definition nth_opt :: "'a list \<Rightarrow> nat \<Rightarrow> 'a option" where
  "nth_opt xs i = (if i < length xs then Some (xs ! i) else None)"

text \<open>The entry that the tracker has to hold for position \<open>i\<close> of key \<open>k\<close>.\<close>

definition track_entry :: "'cb matching \<Rightarrow> chunk_key \<Rightarrow> nat \<Rightarrow> 'cb CallbackTrackerEntry option" where
  "track_entry m k i =
     (if i < max (length (ma_sends m k)) (length (ma_recvs m k)) \<and>
         \<not> (i \<in> ma_arrived m k \<and> i < length (ma_recvs m k))
      then Some \<lparr>ct_send_event = nth_opt (ma_sends m k) i, ct_recv_event = nth_opt (ma_recvs m k) i,
                 ct_transmission_finished = (i \<in> ma_arrived m k)\<rparr>
      else None)"

text \<open>The callbacks due: both of every arrived pair, and the send callback of an arrived send.\<close>

definition due_at :: "'cb matching \<Rightarrow> chunk_key \<Rightarrow> 'cb multiset" where
  "due_at m k =
     image_mset (\<lambda>i. ma_sends m k ! i) (mset_set (ma_arrived m k)) +
     image_mset (\<lambda>i. ma_recvs m k ! i) (mset_set (ma_arrived m k \<inter> {..<length (ma_recvs m k)}))"

definition due :: "'cb matching \<Rightarrow> 'cb multiset" where
  "due m = (\<Sum>k\<in>ma_keys m. due_at m k)"

definition ma_wf :: "'cb matching \<Rightarrow> bool" where
  "ma_wf m \<longleftrightarrow> finite (ma_keys m) \<and> (\<forall>k\<in>ma_keys m. check_key k = Inr ()) \<and>
     (\<forall>k. ma_arrived m k \<subseteq> {..<length (ma_sends m k)}) \<and>
     (\<forall>k. k \<notin> ma_keys m \<longrightarrow> ma_sends m k = [] \<and> ma_recvs m k = [])"

fun queue_arrivals :: "(nat \<times> 'cb net_event) list \<Rightarrow> (chunk_key \<times> int) list" where
  "queue_arrivals [] = []"
| "queue_arrivals ((t, ChunkArrival kc) # q) = kc # queue_arrivals q"
| "queue_arrivals ((t, RunCallback cb) # q) = queue_arrivals q"

fun queue_callbacks :: "(nat \<times> 'cb net_event) list \<Rightarrow> 'cb list" where
  "queue_callbacks [] = []"
| "queue_callbacks ((t, ChunkArrival kc) # q) = queue_callbacks q"
| "queue_callbacks ((t, RunCallback cb) # q) = cb # queue_callbacks q"

definition pending_arrivals :: "'cb net_api \<Rightarrow> (chunk_key \<times> int) multiset" where
  "pending_arrivals n = mset (queue_arrivals (na_event_queue n)) + mset (na_chunks n)"

definition fired :: "'cb net_api \<Rightarrow> 'cb multiset" where
  "fired n = mset (na_invoked n) + mset (queue_callbacks (na_event_queue n))"

definition gen_entry :: "ChunkIdGenerator \<Rightarrow> chunk_key \<Rightarrow> ChunkIdGeneratorEntry" where
  "gen_entry g k = (case g k of None \<Rightarrow> ChunkIdGeneratorEntry_new | Some e \<Rightarrow> e)"

definition gen_ok :: "'cb matching \<Rightarrow> ChunkIdGenerator \<Rightarrow> bool" where
  "gen_ok m g \<longleftrightarrow> (\<forall>k. cg_send_id (gen_entry g k) = int (length (ma_sends m k)) - 1 \<and>
                     cg_recv_id (gen_entry g k) = int (length (ma_recvs m k)) - 1)"

definition tracker_ok :: "'cb matching \<Rightarrow> 'cb CallbackTracker \<Rightarrow> bool" where
  "tracker_ok m tr \<longleftrightarrow> (\<forall>k i. tr (k, i) = (if i < 0 then None else track_entry m k (nat i)))"

definition pending_ok :: "'cb matching \<Rightarrow> (chunk_key \<times> int) multiset \<Rightarrow> bool" where
  "pending_ok m P \<longleftrightarrow> (\<forall>k i. count P (k, i) =
     (if 0 \<le> i \<and> nat i < length (ma_sends m k) \<and> nat i \<notin> ma_arrived m k then 1 else 0))"

definition net_refines :: "'cb matching \<Rightarrow> 'cb net_api \<Rightarrow> bool" where
  "net_refines m n \<longleftrightarrow> ma_wf m \<and> gen_ok m (na_chunk_id_generator n) \<and>
     tracker_ok m (na_callback_tracker n) \<and> pending_ok m (pending_arrivals n) \<and> fired n = due m"

lemma nth_opt_append: "nth_opt (xs @ [x]) i = (if i = length xs then Some x else nth_opt xs i)"
  by (auto simp: nth_opt_def nth_append)

lemma queue_append [simp]:
  "queue_arrivals (q @ q') = queue_arrivals q @ queue_arrivals q'"
  "queue_callbacks (q @ q') = queue_callbacks q @ queue_callbacks q'"
  by (induction q rule: queue_arrivals.induct) simp_all

lemma queue_remove1:
  "(t, ChunkArrival kc) \<in> set q \<Longrightarrow>
    mset (queue_arrivals q) = add_mset kc (mset (queue_arrivals (remove1 (t, ChunkArrival kc) q)))"
  "queue_callbacks (remove1 (t, ChunkArrival kc) q) = queue_callbacks q"
  "(t, RunCallback cb) \<in> set q \<Longrightarrow>
    mset (queue_callbacks q) = add_mset cb (mset (queue_callbacks (remove1 (t, RunCallback cb) q)))"
  "queue_arrivals (remove1 (t, RunCallback cb) q) = queue_arrivals q"
  by (induction q rule: queue_arrivals.induct) auto

section \<open>Simulation of each operation\<close>

declare split_paired_All [simp del] split_paired_Ex [simp del]

lemma gen_entry_upd: "gen_entry (g(k \<mapsto> e)) k' = (if k' = k then e else gen_entry g k')"
  by (simp add: gen_entry_def)

lemma create_send_chunk_id_ok:
  assumes "gen_ok m g" and "check_key k = Inr ()"
  shows "\<exists>g'. create_send_chunk_id k g = Inr (int (length (ma_sends m k)), g') \<and> gen_ok (ma_send k cb m) g'"
proof -
  let ?g = "g(k \<mapsto> increment_send_id (gen_entry g k))"
  have "create_send_chunk_id k g = Inr (int (length (ma_sends m k)), ?g)"
    using assms by (simp add: create_send_chunk_id_def gen_entry_def [symmetric] get_send_id_def
        increment_send_id_def Let_def gen_ok_def)
  moreover have "gen_ok (ma_send k cb m) ?g"
    using assms(1) by (simp add: gen_ok_def ma_send_def gen_entry_upd increment_send_id_def)
  ultimately show ?thesis by blast
qed

lemma create_recv_chunk_id_ok:
  assumes "gen_ok m g" and "check_key k = Inr ()"
  shows "\<exists>g'. create_recv_chunk_id k g = Inr (int (length (ma_recvs m k)), g') \<and> gen_ok (ma_recv k cb m) g'"
proof -
  let ?g = "g(k \<mapsto> increment_recv_id (gen_entry g k))"
  have "create_recv_chunk_id k g = Inr (int (length (ma_recvs m k)), ?g)"
    using assms by (simp add: create_recv_chunk_id_def gen_entry_def [symmetric] get_recv_id_def
        increment_recv_id_def Let_def gen_ok_def)
  moreover have "gen_ok (ma_recv k cb m) ?g"
    using assms(1) by (simp add: gen_ok_def ma_recv_def gen_entry_upd increment_recv_id_def)
  ultimately show ?thesis by blast
qed

lemma tracker_upd:
  assumes "tracker_ok m tr" and "track_entry m' k i = e"
    and "\<And>k' j. (k', j) \<noteq> (k, i) \<Longrightarrow> track_entry m' k' j = track_entry m k' j"
  shows "tracker_ok m' (tr((k, int i) := e))"
  unfolding tracker_ok_def
proof (intro allI)
  fix k' j
  show "(tr((k, int i) := e)) (k', j) = (if j < 0 then None else track_entry m' k' (nat j))"
  proof (cases "(k', j) = (k, int i)")
    case True
    with assms(2) show ?thesis by auto
  next
    case False
    then have "\<not> j < 0 \<Longrightarrow> (k', nat j) \<noteq> (k, i)" by auto
    with False assms(1,3) show ?thesis by (auto simp: tracker_ok_def)
  qed
qed

lemma check_chunk_ok [simp]: "check_key k = Inr () \<Longrightarrow> check_chunk (k, int i) = Inr ()"
  by (simp add: check_chunk_def)

lemma ma_wf_arrived:
  assumes "ma_wf m"
  shows "length (ma_sends m k) \<notin> ma_arrived m k" "finite (ma_arrived m k)"
proof -
  have "ma_arrived m k \<subseteq> {..<length (ma_sends m k)}" using assms by (simp add: ma_wf_def)
  then show "length (ma_sends m k) \<notin> ma_arrived m k" "finite (ma_arrived m k)"
    using finite_subset by auto
qed

lemma ma_wf_unused:
  assumes "ma_wf m" and "k \<notin> ma_keys m"
  shows "ma_arrived m k = {}" "ma_sends m k = []" "ma_recvs m k = []" "due_at m k = {#}"
proof -
  show s: "ma_sends m k = []" "ma_recvs m k = []" using assms by (auto simp: ma_wf_def)
  have "ma_arrived m k \<subseteq> {..<length (ma_sends m k)}" using assms(1) by (simp add: ma_wf_def)
  with s show "ma_arrived m k = {}" by simp
  then show "due_at m k = {#}" by (simp add: due_at_def)
qed

text \<open>If only the contribution of \<open>k\<close> changes, the total changes by that much.\<close>

lemma due_change:
  assumes "ma_wf m" and "ma_keys m' = insert k (ma_keys m)"
    and "\<And>k'. k' \<noteq> k \<Longrightarrow> due_at m' k' = due_at m k'" and "due_at m' k = due_at m k + D"
  shows "due m' = due m + D"
proof -
  have fin: "finite (ma_keys m)" using assms(1) by (simp add: ma_wf_def)
  have "(\<Sum>j\<in>ma_keys m - {k}. due_at m' j) = (\<Sum>j\<in>ma_keys m - {k}. due_at m j)"
    using assms(3) by (intro sum.cong) auto
  moreover have "due m = due_at m k + (\<Sum>j\<in>ma_keys m - {k}. due_at m j)"
  proof (cases "k \<in> ma_keys m")
    case True
    then show ?thesis by (simp add: due_def sum.remove [OF fin])
  next
    case False
    then show ?thesis by (simp add: due_def ma_wf_unused(4) [OF assms(1)])
  qed
  ultimately show ?thesis
    using fin assms(2,4) by (simp add: due_def sum.insert_remove)
qed

lemma due_send:
  assumes "ma_wf m"
  shows "due (ma_send k cb m) = due m"
proof -
  have "image_mset (\<lambda>i. (ma_sends m k @ [cb]) ! i) (mset_set (ma_arrived m k))
      = image_mset (\<lambda>i. ma_sends m k ! i) (mset_set (ma_arrived m k))"
  proof (rule image_mset_cong)
    fix i
    assume "i \<in># mset_set (ma_arrived m k)"
    then have "i \<in> ma_arrived m k" by (metis elem_mset_set empty_iff infinite_set_mset_mset_set)
    then have "i < length (ma_sends m k)" using assms by (auto simp: ma_wf_def)
    then show "(ma_sends m k @ [cb]) ! i = ma_sends m k ! i" by (simp add: nth_append)
  qed
  then have "due (ma_send k cb m) = due m + {#}"
    by (intro due_change [OF assms, where k = k]) (auto simp: ma_send_def due_at_def)
  then show ?thesis by simp
qed

lemma due_recv:
  assumes "ma_wf m"
  shows "due (ma_recv k cb m)
    = due m + (if length (ma_recvs m k) \<in> ma_arrived m k then {#cb#} else {#})"
proof -
  let ?i = "length (ma_recvs m k)" and ?A = "ma_arrived m k"
  have fin: "finite ?A" using ma_wf_arrived(2) [OF assms] .
  have old: "image_mset (\<lambda>i. (ma_recvs m k @ [cb]) ! i) (mset_set (?A \<inter> {..<?i}))
      = image_mset (\<lambda>i. ma_recvs m k ! i) (mset_set (?A \<inter> {..<?i}))"
    using fin by (intro image_mset_cong) (auto simp: nth_append)
  have "?A \<inter> {..<Suc ?i} = (if ?i \<in> ?A then insert ?i (?A \<inter> {..<?i}) else ?A \<inter> {..<?i})"
    by (auto simp: less_Suc_eq)
  then have "due_at (ma_recv k cb m) k = due_at m k + (if ?i \<in> ?A then {#cb#} else {#})"
    using fin old by (auto simp: due_at_def ma_recv_def)
  then show ?thesis
    by (intro due_change [OF assms, where k = k]) (auto simp: ma_recv_def due_at_def)
qed

lemma due_arrive:
  assumes "ma_wf m" and "i < length (ma_sends m k)" and "i \<notin> ma_arrived m k"
  shows "due (ma_arrive (k, int i) m) = due m + (add_mset (ma_sends m k ! i)
    (if i < length (ma_recvs m k) then {#ma_recvs m k ! i#} else {#}))"
proof -
  have fin: "finite (ma_arrived m k)" using ma_wf_arrived(2) [OF assms(1)] .
  have "due_at (ma_arrive (k, int i) m) k = due_at m k + (add_mset (ma_sends m k ! i)
      (if i < length (ma_recvs m k) then {#ma_recvs m k ! i#} else {#}))"
    using fin assms(3) by (simp add: due_at_def ma_arrive_def)
  moreover have "k \<in> ma_keys m"
    using assms(2) ma_wf_unused(2) [OF assms(1), of k] by (cases "k \<in> ma_keys m") auto
  ultimately show ?thesis
    by (intro due_change [OF assms(1), where k = k]) (auto simp: ma_arrive_def due_at_def)
qed

lemma tracker_okD: "tracker_ok m tr \<Longrightarrow> tr (k, int i) = track_entry m k i"
  by (simp add: tracker_ok_def)

lemma register_send_ok:
  assumes "net_refines m n" and "check_key k = Inr ()"
  shows "\<exists>g tr. register_send k cb n = Inr (int (length (ma_sends m k)),
        n\<lparr>na_chunk_id_generator := g, na_callback_tracker := tr\<rparr>) \<and>
      gen_ok (ma_send k cb m) g \<and> tracker_ok (ma_send k cb m) tr"
proof -
  let ?L = "length (ma_sends m k)" and ?m = "ma_send k cb m" and ?tr = "na_callback_tracker n"
  from assms have wf: "ma_wf m" and tr: "tracker_ok m ?tr" by (simp_all add: net_refines_def)
  obtain g where g: "create_send_chunk_id k (na_chunk_id_generator n) = Inr (int ?L, g)" "gen_ok ?m g"
    using create_send_chunk_id_ok [of m "na_chunk_id_generator n" k cb] assms
    by (auto simp: net_refines_def)
  have old: "?tr (k, int ?L) = (if ?L < length (ma_recvs m k)
      then Some \<lparr>ct_send_event = None, ct_recv_event = Some (ma_recvs m k ! ?L),
                 ct_transmission_finished = False\<rparr> else None)"
    using tracker_okD [OF tr] ma_wf_arrived(1) [OF wf] by (auto simp: track_entry_def nth_opt_def)
  have new: "track_entry ?m k ?L = Some \<lparr>ct_send_event = Some cb,
      ct_recv_event = nth_opt (ma_recvs m k) ?L, ct_transmission_finished = False\<rparr>"
    using ma_wf_arrived(1) [OF wf] by (auto simp: track_entry_def ma_send_def nth_opt_append)
  have "register_send k cb n = Inr (int ?L, n\<lparr>na_chunk_id_generator := g,
      na_callback_tracker := ?tr((k, int ?L) := track_entry ?m k ?L)\<rparr>)"
    using old unfolding new
    by (simp add: register_send_def g(1) search_entry_def assms(2) on_tracker_def update_entry_def
        create_new_entry_def register_send_callback_def CallbackTrackerEntry_new_def nth_opt_def Let_def)
  moreover have "tracker_ok ?m (?tr((k, int ?L) := track_entry ?m k ?L))"
    by (rule tracker_upd [OF tr refl])
      (auto simp: track_entry_def ma_send_def nth_opt_append less_Suc_eq)
  ultimately show ?thesis using g(2) by blast
qed

lemma ma_wf_send: "ma_wf m \<Longrightarrow> check_key k = Inr () \<Longrightarrow> ma_wf (ma_send k cb m)"
  by (auto simp: ma_wf_def ma_send_def less_Suc_eq subset_iff)

lemma pending_send:
  assumes "ma_wf m" and "pending_ok m P"
  shows "pending_ok (ma_send k cb m) (add_mset (k, int (length (ma_sends m k))) P)"
  unfolding pending_ok_def
proof (intro allI)
  fix k' i
  show "count (add_mset (k, int (length (ma_sends m k))) P) (k', i) =
     (if 0 \<le> i \<and> nat i < length (ma_sends (ma_send k cb m) k') \<and>
         nat i \<notin> ma_arrived (ma_send k cb m) k' then 1 else 0)"
    using assms(2) ma_wf_arrived(1) [OF assms(1), of k]
    by (auto simp: pending_ok_def ma_send_def less_Suc_eq)
qed

lemma refines_send:
  assumes "net_refines m n" and "check_key k = Inr ()"
  shows "\<exists>n'. CongestionUnaware_sim_send (\<lambda>src dst size. delay) k cb n = Inr n' \<and>
      net_refines (ma_send k cb m) n'"
    and "\<exists>n'. CongestionAware_sim_send k cb n = Inr n' \<and> net_refines (ma_send k cb m) n'"
proof -
  obtain g tr where r: "register_send k cb n = Inr (int (length (ma_sends m k)),
        n\<lparr>na_chunk_id_generator := g, na_callback_tracker := tr\<rparr>)"
      "gen_ok (ma_send k cb m) g" "tracker_ok (ma_send k cb m) tr"
    using register_send_ok [OF assms] by blast
  from assms have m: "ma_wf m" "pending_ok m (pending_arrivals n)" "fired n = due m"
    by (simp_all add: net_refines_def)
  note new = ma_wf_send [OF m(1) assms(2), of cb] pending_send [OF m(1,2), of k cb] due_send [OF m(1), of k cb]
  show "\<exists>n'. CongestionUnaware_sim_send (\<lambda>src dst size. delay) k cb n = Inr n' \<and>
      net_refines (ma_send k cb m) n'"
    using r new m(3)
    by (cases k) (auto simp: CongestionUnaware_sim_send_def sim_schedule_def net_refines_def
        pending_arrivals_def fired_def)
  show "\<exists>n'. CongestionAware_sim_send k cb n = Inr n' \<and> net_refines (ma_send k cb m) n'"
    using r new m(3)
    by (auto simp: CongestionAware_sim_send_def net_refines_def pending_arrivals_def fired_def)
qed

lemma refines_recv:
  assumes "net_refines m n" and "check_key k = Inr ()"
  shows "\<exists>n'. sim_recv k cb n = Inr n' \<and> net_refines (ma_recv k cb m) n'"
proof -
  let ?L = "length (ma_recvs m k)" and ?m = "ma_recv k cb m" and ?tr = "na_callback_tracker n"
  from assms have wf: "ma_wf m" and tr: "tracker_ok m ?tr" and fd: "fired n = due m"
    and pend: "pending_ok m (pending_arrivals n)" by (simp_all add: net_refines_def)
  obtain g where g: "create_recv_chunk_id k (na_chunk_id_generator n) = Inr (int ?L, g)" "gen_ok ?m g"
    using create_recv_chunk_id_ok [of m "na_chunk_id_generator n" k cb] assms
    by (auto simp: net_refines_def)
  have arr: "?L \<in> ma_arrived m k \<Longrightarrow> ?L < length (ma_sends m k)" using wf by (auto simp: ma_wf_def)
  have old: "?tr (k, int ?L) = (if ?L < length (ma_sends m k)
      then Some \<lparr>ct_send_event = Some (ma_sends m k ! ?L), ct_recv_event = None,
                 ct_transmission_finished = (?L \<in> ma_arrived m k)\<rparr> else None)"
    using tracker_okD [OF tr, of k ?L] by (auto simp: track_entry_def nth_opt_def)
  have new: "track_entry ?m k ?L = (if ?L \<in> ma_arrived m k then None
      else Some \<lparr>ct_send_event = nth_opt (ma_sends m k) ?L, ct_recv_event = Some cb,
                 ct_transmission_finished = False\<rparr>)"
    by (auto simp: track_entry_def ma_recv_def nth_opt_append)
  let ?n = "n\<lparr>na_chunk_id_generator := g, na_callback_tracker := ?tr((k, int ?L) := track_entry ?m k ?L)\<rparr>"
  let ?n' = "if ?L \<in> ma_arrived m k then sim_schedule 0 (RunCallback cb) ?n else ?n"
  have "sim_recv k cb n = Inr ?n'"
    using old arr unfolding new
    by (auto simp: sim_recv_def g(1) search_entry_def assms(2) on_tracker_def update_entry_def
        create_new_entry_def pop_entry_def register_recv_callback_def CallbackTrackerEntry_new_def
        nth_opt_def Let_def is_transmission_finished_def)
  moreover have "tracker_ok ?m (?tr((k, int ?L) := track_entry ?m k ?L))"
    by (rule tracker_upd [OF tr refl])
      (auto simp: track_entry_def ma_recv_def nth_opt_append less_Suc_eq)
  moreover have "ma_wf ?m" using wf assms(2) by (auto simp: ma_wf_def ma_recv_def)
  moreover have "pending_ok ?m (pending_arrivals ?n')"
    using pend by (simp add: pending_ok_def ma_recv_def pending_arrivals_def sim_schedule_def)
  moreover have "fired ?n' = due ?m"
    using fd by (simp add: due_recv [OF wf] fired_def sim_schedule_def)
  ultimately show ?thesis using g(2) by (simp add: net_refines_def sim_schedule_def)
qed

lemma pending_arrive:
  assumes "pending_ok m (add_mset (k, int i) P)"
  shows "pending_ok (ma_arrive (k, int i) m) P" "i < length (ma_sends m k)" "i \<notin> ma_arrived m k"
proof -
  have c: "count (add_mset (k, int i) P) (k', j) =
     (if 0 \<le> j \<and> nat j < length (ma_sends m k') \<and> nat j \<notin> ma_arrived m k' then 1 else 0)" for k' j
    using assms by (simp add: pending_ok_def)
  show i: "i < length (ma_sends m k)" "i \<notin> ma_arrived m k"
    using c [of k "int i"] by (auto split: if_splits)
  show "pending_ok (ma_arrive (k, int i) m) P"
    unfolding pending_ok_def
  proof (intro allI)
    fix k' j
    show "count P (k', j) = (if 0 \<le> j \<and> nat j < length (ma_sends (ma_arrive (k, int i) m) k') \<and>
         nat j \<notin> ma_arrived (ma_arrive (k, int i) m) k' then 1 else 0)"
      using c [of k' j] i by (auto simp: ma_arrive_def split: if_splits)
  qed
qed

lemma refines_arrival:
  assumes wf: "ma_wf m" and gen: "gen_ok m (na_chunk_id_generator n)"
    and tr: "tracker_ok m (na_callback_tracker n)"
    and pend: "pending_ok m (add_mset (k, int i) (pending_arrivals n))"
    and fd: "fired n = due m"
  shows "\<exists>n'. process_chunk_arrival record_invocation (k, int i) n = Inr n' \<and>
    net_refines (ma_arrive (k, int i) m) n'"
proof -
  let ?m = "ma_arrive (k, int i) m" and ?tr = "na_callback_tracker n"
  note p = pending_arrive [OF pend]
  have key: "check_key k = Inr ()"
    using wf p(2) ma_wf_unused(2) [OF wf, of k] by (cases "k \<in> ma_keys m") (auto simp: ma_wf_def)
  let ?r = "i < length (ma_recvs m k)"
  have old: "?tr (k, int i) = Some \<lparr>ct_send_event = Some (ma_sends m k ! i),
      ct_recv_event = nth_opt (ma_recvs m k) i, ct_transmission_finished = False\<rparr>"
    using tracker_okD [OF tr, of k i] p(2,3) by (auto simp: track_entry_def nth_opt_def)
  have new: "track_entry ?m k i = (if ?r then None else Some \<lparr>ct_send_event = Some (ma_sends m k ! i),
      ct_recv_event = None, ct_transmission_finished = True\<rparr>)"
    using p(2,3) by (auto simp: track_entry_def ma_arrive_def nth_opt_def)
  let ?n' = "n\<lparr>na_invoked := na_invoked n @ ma_sends m k ! i # (if ?r then [ma_recvs m k ! i] else []),
      na_callback_tracker := ?tr((k, int i) := track_entry ?m k i)\<rparr>"
  have "process_chunk_arrival record_invocation (k, int i) n = Inr ?n'"
    using old unfolding new
    by (simp add: process_chunk_arrival_def search_entry_def key both_callbacks_registered_def
        invoke_send_handler_def invoke_recv_handler_def record_invocation_def on_tracker_def
        pop_entry_def update_entry_def set_transmission_finished_def nth_opt_def)
  moreover have "tracker_ok ?m (?tr((k, int i) := track_entry ?m k i))"
    by (rule tracker_upd [OF tr refl]) (auto simp: track_entry_def ma_arrive_def)
  moreover have "ma_wf ?m" using wf p(2) by (simp add: ma_wf_def ma_arrive_def)
  moreover have "gen_ok ?m (na_chunk_id_generator n)" using gen by (simp add: gen_ok_def ma_arrive_def)
  moreover have "fired ?n' = due ?m" using fd by (simp add: due_arrive [OF wf p(2,3)] fired_def)
  ultimately show ?thesis using p(1) by (simp add: net_refines_def pending_arrivals_def)
qed

lemma pending_chunk_nonneg:
  assumes "pending_ok m (add_mset kc P)"
  obtains k i where "kc = (k, int i)"
proof -
  obtain k j where kc: "kc = (k, j)" by (cases kc)
  have "count (add_mset kc P) (k, j) \<noteq> 0" using kc by simp
  with assms have "0 \<le> j" unfolding pending_ok_def by (metis (full_types))
  then show thesis using that [of k "nat j"] kc by simp
qed

lemma refines_arrival_of:
  assumes "net_refines m n" and "na_chunk_id_generator n' = na_chunk_id_generator n"
    and "na_callback_tracker n' = na_callback_tracker n" and "fired n' = fired n"
    and "pending_arrivals n = add_mset kc (pending_arrivals n')"
  shows "\<exists>n''. process_chunk_arrival record_invocation kc n' = Inr n'' \<and> net_refines (ma_arrive kc m) n''"
proof -
  from assms have pend: "pending_ok m (add_mset kc (pending_arrivals n'))" by (simp add: net_refines_def)
  then obtain k i where "kc = (k, int i)" by (rule pending_chunk_nonneg)
  with refines_arrival [of m n' k i] pend assms show ?thesis by (simp add: net_refines_def)
qed

lemma net_step_refines:
  assumes "net_refines m n" and "net_enabled opn n"
  shows "\<exists>n'. net_step opn n = Inr n' \<and> net_refines (ma_step opn m) n'"
proof (cases opn)
  case (SendUnaware delay k cb)
  with assms refines_send(1) [of m n k delay cb] show ?thesis by simp
next
  case (SendAware k cb)
  with assms refines_send(2) [of m n k cb] show ?thesis by simp
next
  case (Recv k cb)
  with assms refines_recv [of m n k cb] show ?thesis by simp
next
  case (FireEvent t ev)
  let ?n = "n\<lparr>na_event_queue := remove1 (t, ev) (na_event_queue n), na_current_time := t\<rparr>"
  show ?thesis
  proof (cases ev)
    case (ChunkArrival kc)
    have "(t, ChunkArrival kc) \<in> set (na_event_queue n)" using assms(2) FireEvent ChunkArrival by simp
    then have "\<exists>n'. process_chunk_arrival record_invocation kc ?n = Inr n' \<and> net_refines (ma_arrive kc m) n'"
      using ChunkArrival by (intro refines_arrival_of [OF assms(1)])
        (simp_all add: fired_def pending_arrivals_def queue_remove1)
    with FireEvent ChunkArrival show ?thesis by simp
  next
    case (RunCallback cb)
    have "(t, RunCallback cb) \<in> set (na_event_queue n)" using assms(2) FireEvent RunCallback by simp
    from queue_remove1(3) [OF this] assms(1) FireEvent RunCallback show ?thesis
      by (simp add: record_invocation_def net_refines_def fired_def pending_arrivals_def queue_remove1(4))
  qed
next
  case (ChunkDelivered kc)
  then have "kc \<in># mset (na_chunks n)" using assms(2) by simp
  then have "\<exists>n'. process_chunk_arrival record_invocation kc (n\<lparr>na_chunks := remove1 kc (na_chunks n)\<rparr>) = Inr n' \<and>
      net_refines (ma_arrive kc m) n'"
    by (intro refines_arrival_of [OF assms(1)]) (simp_all add: fired_def pending_arrivals_def)
  with ChunkDelivered show ?thesis by simp
qed

lemma net_init_refines: "net_refines matching_init net_api_init"
  by (simp add: net_refines_def matching_init_def net_api_init_def ma_wf_def gen_ok_def tracker_ok_def
      pending_ok_def pending_arrivals_def fired_def due_def gen_entry_def ChunkIdGeneratorEntry_new_def
      track_entry_def)

lemma net_reach_refines:
  assumes "net_reach net_api_init ops n"
  shows "net_refines (fold ma_step ops matching_init) n"
  using assms
proof induction
  case net_start
  show ?case using net_init_refines by simp
next
  case (net_next ops n opn n')
  from net_step_refines [OF net_next.IH net_next.hyps(2)] net_next.hyps(3) show ?case by auto
qed

section \<open>Exactly-once delivery\<close>

fun op_callbacks :: "'cb net_op \<Rightarrow> 'cb multiset" where
  "op_callbacks (SendUnaware delay k cb) = {#cb#}"
| "op_callbacks (SendAware k cb) = {#cb#}"
| "op_callbacks (Recv k cb) = {#cb#}"
| "op_callbacks (FireEvent t ev) = {#}"
| "op_callbacks (ChunkDelivered kc) = {#}"

definition registered :: "'cb matching \<Rightarrow> 'cb multiset" where
  "registered m = (\<Sum>k\<in>ma_keys m. mset (ma_sends m k) + mset (ma_recvs m k))"

lemma registered_step:
  assumes "ma_wf m"
  shows "registered (ma_step opn m) = registered m + op_callbacks opn"
proof -
  have fin: "finite (ma_keys m)" using assms by (simp add: ma_wf_def)
  have split: "registered m = mset (ma_sends m k) + mset (ma_recvs m k) +
      (\<Sum>j\<in>ma_keys m - {k}. mset (ma_sends m j) + mset (ma_recvs m j))" for k
    using fin ma_wf_unused(2,3) [OF assms, of k]
    by (cases "k \<in> ma_keys m") (simp_all add: registered_def sum.remove [OF fin])
  have send: "registered (ma_send k cb m) = registered m + {#cb#}"
    and recv: "registered (ma_recv k cb m) = registered m + {#cb#}" for k cb
    unfolding split [of k] using fin
    by (simp_all add: registered_def ma_send_def ma_recv_def sum.insert_remove)
  have arrive: "registered (ma_arrive kc m) = registered m" for kc
    by (simp add: registered_def ma_arrive_def)
  show ?thesis
  proof (cases opn)
    case (FireEvent t ev)
    then show ?thesis by (cases ev) (simp_all add: arrive)
  qed (simp_all add: send recv arrive)
qed

lemma net_reach_registered:
  assumes "net_reach net_api_init ops n"
  shows "registered (fold ma_step ops matching_init) = sum_list (map op_callbacks ops)"
  using assms
proof induction
  case net_start
  show ?case by (simp add: registered_def matching_init_def)
next
  case (net_next ops n opn n')
  have "ma_wf (fold ma_step ops matching_init)"
    using net_reach_refines [OF net_next.hyps(1)] by (simp add: net_refines_def)
  from registered_step [OF this] net_next.IH show ?case by simp
qed

lemma image_nth_mset: "image_mset (\<lambda>i. xs ! i) (mset_set {..<length xs}) = mset xs"
proof -
  have "mset xs = mset (map (\<lambda>i. xs ! i) [0..<length xs])" by (simp add: map_nth)
  also have "\<dots> = image_mset (\<lambda>i. xs ! i) (mset_set {..<length xs})"
    by (simp only: mset_map mset_upt atLeast0LessThan)
  finally show ?thesis by simp
qed

lemma due_complete:
  assumes "ma_wf m" and "pending_ok m {#}" and "\<forall>k. length (ma_sends m k) = length (ma_recvs m k)"
  shows "due m = registered m" "tracker_ok m tr \<Longrightarrow> tr = Map.empty"
proof -
  have arr: "ma_arrived m k = {..<length (ma_sends m k)}" for k
  proof -
    have "i \<in> ma_arrived m k" if "i < length (ma_sends m k)" for i
    proof -
      have "count {#} (k, int i) = (if 0 \<le> int i \<and> nat (int i) < length (ma_sends m k) \<and>
          nat (int i) \<notin> ma_arrived m k then 1 else 0)"
        using assms(2) unfolding pending_ok_def by blast
      with that show ?thesis by (auto split: if_splits)
    qed
    then show ?thesis using assms(1) by (auto simp: ma_wf_def)
  qed
  have "due_at m k = mset (ma_sends m k) + mset (ma_recvs m k)" for k
    using assms(3) image_nth_mset [of "ma_sends m k"] image_nth_mset [of "ma_recvs m k"]
    by (simp add: due_at_def arr)
  then show "due m = registered m" by (simp add: due_def registered_def)
  show "tr = Map.empty" if "tracker_ok m tr"
  proof
    fix kc :: "chunk_key \<times> int"
    obtain k i where kc: "kc = (k, i)" by (cases kc)
    show "tr kc = None"
      using that assms(3) unfolding kc tracker_ok_def by (simp add: track_entry_def arr)
  qed
qed

section \<open>Properties\<close>

text \<open>
  \<^bold>\<open>C10\<close>. Refinement of the matching contract. After any sequence of sends (of either front
  end), receives, arrivals and scheduled callbacks, the chunk-id generator, the callback
  tracker, the arrivals still pending and the multiset of callbacks run or scheduled are those
  of the abstract matching in which the \<open>k\<close>-th send of a key is paired with its \<open>k\<close>-th
  receive, independently of the order of the calls and arrivals.
\<close>

theorem network_refines_matching:
  assumes "net_reach net_api_init ops n"
  shows "net_refines (fold ma_step ops matching_init) n"
  by (rule net_reach_refines [OF assms])

text \<open>
  \<^bold>\<open>C16\<close>. No assertion of the front end fails. From every state reached, a send or receive with
  a non-negative tag and ranks and a positive size, and every pending arrival or scheduled
  callback, is processed without an assertion failure or a missing tracker entry.
\<close>

theorem network_never_fails:
  assumes "net_reach net_api_init ops n" and "net_enabled opn n"
  shows "\<exists>n'. net_step opn n = Inr n'"
  using net_step_refines [OF net_reach_refines [OF assms(1)] assms(2)] by blast

text \<open>
  \<^bold>\<open>C3\<close>. Exactly-once delivery. When every key has as many receives as sends and nothing is
  pending any more, the callbacks that have run are exactly those passed to the sends and
  receives, each as often as it was passed, and the tracker is empty again.
\<close>

theorem network_exactly_once:
  assumes "net_reach net_api_init ops n"
    and "na_event_queue n = []" and "na_chunks n = []"
    and "\<forall>k. length (ma_sends (fold ma_step ops matching_init) k)
           = length (ma_recvs (fold ma_step ops matching_init) k)"
  shows "mset (na_invoked n) = sum_list (map op_callbacks ops) \<and> na_callback_tracker n = Map.empty"
proof -
  let ?m = "fold ma_step ops matching_init"
  from net_reach_refines [OF assms(1)] have m: "ma_wf ?m" "pending_ok ?m {#}"
    "tracker_ok ?m (na_callback_tracker n)" "mset (na_invoked n) = due ?m"
    using assms(2,3) by (simp_all add: net_refines_def pending_arrivals_def fired_def)
  with due_complete [OF m(1,2) assms(4)] net_reach_registered [OF assms(1)] show ?thesis by simp
qed

text \<open>Two sends and two receives on one key, interleaved with the arrivals.\<close>

definition demo_key :: chunk_key where
  "demo_key = (1, 0, 2, 64)"

definition demo_ops :: "string net_op list" where
  "demo_ops = [SendUnaware 5 demo_key ''s0'', FireEvent 5 (ChunkArrival (demo_key, 0)),
     SendAware demo_key ''s1'', Recv demo_key ''r0'', FireEvent 5 (RunCallback ''r0''),
     Recv demo_key ''r1'', ChunkDelivered (demo_key, 1)]"

fun run_net :: "'cb net_op list \<Rightarrow> 'cb net_api \<Rightarrow> 'cb net_api option" where
  "run_net [] n = Some n"
| "run_net (opn # ops) n =
     (if net_enabled opn n then (case net_step opn n of Inl e \<Rightarrow> None | Inr n' \<Rightarrow> run_net ops n') else None)"

lemma run_net_reach:
  "run_net ops n = Some n' \<Longrightarrow> net_reach n0 ops0 n \<Longrightarrow> net_reach n0 (ops0 @ ops) n'"
proof (induction ops arbitrary: n ops0)
  case Nil
  then show ?case by simp
next
  case (Cons opn ops)
  then obtain n1 where n1: "net_enabled opn n" "net_step opn n = Inr n1" "run_net ops n1 = Some n'"
    by (auto split: if_splits sum.splits)
  from Cons.IH [OF n1(3) net_next [OF Cons.prems(2) n1(1,2)]] show ?case by simp
qed

definition demo_net :: "string net_api" where
  "demo_net = the (run_net demo_ops net_api_init)"

lemma demo_net_reached: "net_reach net_api_init demo_ops demo_net"
proof -
  have "run_net demo_ops net_api_init \<noteq> None" by code_simp
  then have "run_net demo_ops net_api_init = Some demo_net" by (simp add: demo_net_def)
  from run_net_reach [OF this net_start] show ?thesis by simp
qed

theorem network_refines_matching_witness:
  "net_refines (fold ma_step demo_ops matching_init) demo_net"
  by (rule network_refines_matching [OF demo_net_reached])

theorem network_never_fails_witness:
  "\<exists>n'. net_step (Recv demo_key ''r2'') demo_net = Inr n'"
  by (rule network_never_fails [OF demo_net_reached]) (simp add: demo_key_def check_key_def)

theorem network_exactly_once_witness:
  "mset (na_invoked demo_net) = mset [''s0'', ''r0'', ''s1'', ''r1''] \<and>
   na_callback_tracker demo_net = Map.empty"
proof -
  have "na_event_queue demo_net = []" "na_chunks demo_net = []" by code_simp+
  moreover have "\<forall>k. length (ma_sends (fold ma_step demo_ops matching_init) k)
      = length (ma_recvs (fold ma_step demo_ops matching_init) k)"
    by (simp add: demo_ops_def matching_init_def ma_send_def ma_recv_def ma_arrive_def)
  ultimately show ?thesis
    using network_exactly_once [OF demo_net_reached] by (simp add: demo_ops_def)
qed

end
