(* ===== verification/Sys_Events.thy ===== *)
theory Sys_Events
  imports Astra_Prelude "HOL-Library.Multiset"
begin

text \<open>
  The event loop of \<^verbatim>\<open>Sys.cc\<close>: \<^verbatim>\<open>try_register_event\<close>, \<^verbatim>\<open>call_events\<close> and the branch of
  \<^verbatim>\<open>handleEvent\<close> that starts them. A callable with its event type and data is a value of the
  type parameter. What a callback does to the event queue is a parameter of the loop: the list
  of events it registers in turn, with their delays; they are appended to the list being
  traversed when the delay is 0.
\<close>

section \<open>State and operations\<close>

text \<open>
  \<open>sq_timers\<close> are the absolute times of the handler calls scheduled with the network back
  end. The two logs are history: everything registered with its events_due time, everything called
  with the time of the call.
\<close>

record 'e sys_queue =
  sq_event_queue :: "Tick \<rightharpoonup> 'e list"
  sq_pending_events :: int
  sq_timers :: "Tick multiset"
  sq_registered :: "(Tick \<times> 'e) list"
  sq_called :: "(Tick \<times> 'e) list"

definition sys_queue_init :: "'e sys_queue" where
  "sys_queue_init = \<lparr>sq_event_queue = Map.empty, sq_pending_events = 0, sq_timers = {#},
     sq_registered = [], sq_called = []\<rparr>"

definition try_register_event :: "Tick \<Rightarrow> 'e \<Rightarrow> Tick \<Rightarrow> 'e sys_queue \<Rightarrow> 'e sys_queue" where
  "try_register_event now e delta_cycles s =
     (let event_time = now + delta_cycles;
          should_schedule = (sq_event_queue s event_time = None);
          s = s\<lparr>sq_event_queue := (sq_event_queue s)(event_time \<mapsto>
                  (case sq_event_queue s event_time of None \<Rightarrow> [] | Some es \<Rightarrow> es) @ [e]),
                sq_registered := sq_registered s @ [(event_time, e)]\<rparr>;
          s = (if should_schedule then s\<lparr>sq_timers := add_mset event_time (sq_timers s)\<rparr> else s)
      in s\<lparr>sq_pending_events := sq_pending_events s + 1\<rparr>)"

definition register_event :: "Tick \<Rightarrow> 'e \<Rightarrow> Tick \<Rightarrow> 'e sys_queue \<Rightarrow> 'e sys_queue" where
  "register_event now e delta_cycles s = try_register_event now e delta_cycles s"

text \<open>A callback runs: the counter goes down, then its own registrations happen.\<close>

definition call_one :: "('e \<Rightarrow> ('e \<times> Tick) list) \<Rightarrow> Tick \<Rightarrow> 'e \<Rightarrow> 'e sys_queue \<Rightarrow> 'e sys_queue" where
  "call_one behaviour now e s =
     fold (\<lambda>(e', delta). try_register_event now e' delta) (behaviour e)
       (s\<lparr>sq_pending_events := sq_pending_events s - 1, sq_called := sq_called s @ [(now, e)]\<rparr>)"

text \<open>
  The traversal of \<^verbatim>\<open>event_queue[now]\<close>: the iterator is the position \<open>i\<close>; elements that are
  appended while it runs are visited too. It is partial because callbacks may register
  zero-delay events for ever.
\<close>

partial_function (option) call_loop ::
    "('e \<Rightarrow> ('e \<times> Tick) list) \<Rightarrow> Tick \<Rightarrow> nat \<Rightarrow> 'e sys_queue \<Rightarrow> 'e sys_queue option" where
  "call_loop behaviour now i s =
     (case sq_event_queue s now of
        None \<Rightarrow> Some s
      | Some es \<Rightarrow> if i < length es then call_loop behaviour now (i + 1) (call_one behaviour now (es ! i) s)
                   else Some s)"

declare call_loop.simps [code]

definition call_events :: "('e \<Rightarrow> ('e \<times> Tick) list) \<Rightarrow> Tick \<Rightarrow> 'e sys_queue \<Rightarrow> 'e sys_queue option" where
  "call_events behaviour now s =
     map_option (\<lambda>s. s\<lparr>sq_event_queue := (sq_event_queue s)(now := None)\<rparr>) (call_loop behaviour now 0 s)"

text \<open>The back end runs the handler of a timer: \<^verbatim>\<open>handleEvent\<close> with \<^verbatim>\<open>CallEvents\<close>.\<close>

definition handle_timer :: "('e \<Rightarrow> ('e \<times> Tick) list) \<Rightarrow> Tick \<Rightarrow> 'e sys_queue \<Rightarrow> 'e sys_queue option" where
  "handle_timer behaviour now s = call_events behaviour now (s\<lparr>sq_timers := sq_timers s - {#now#}\<rparr>)"

section \<open>Invariant\<close>

definition queued :: "(Tick \<rightharpoonup> 'e list) \<Rightarrow> (Tick \<times> 'e) multiset" where
  "queued q = (\<Sum>t\<in>dom q. image_mset (\<lambda>e. (t, e)) (mset (the (q t))))"

text \<open>
  \<open>running\<close> is the time whose list is being traversed, if any, with the number of its elements
  that have been called; its timer is gone already.
\<close>

definition queue_ok :: "(Tick \<times> nat) option \<Rightarrow> 'e sys_queue \<Rightarrow> bool" where
  "queue_ok running s \<longleftrightarrow> finite (dom (sq_event_queue s)) \<and>
     (\<forall>t. count (sq_timers s) t =
        (if t \<in> dom (sq_event_queue s) \<and> (\<forall>i. running \<noteq> Some (t, i)) then 1 else 0)) \<and>
     (case running of
        None \<Rightarrow> mset (sq_registered s) = mset (sq_called s) + queued (sq_event_queue s) \<and>
                sq_pending_events s = int (size (queued (sq_event_queue s)))
      | Some (t, i) \<Rightarrow> \<exists>es. sq_event_queue s t = Some es \<and> i \<le> length es \<and>
          mset (sq_registered s) = mset (sq_called s) + queued ((sq_event_queue s)(t \<mapsto> drop i es)) \<and>
          sq_pending_events s = int (size (queued ((sq_event_queue s)(t \<mapsto> drop i es)))))"

lemma queued_split:
  assumes "finite (dom q)"
  shows "queued (q(t := v)) = (case v of None \<Rightarrow> {#} | Some es \<Rightarrow> image_mset (\<lambda>e. (t, e)) (mset es)) +
    (\<Sum>u\<in>dom q - {t}. image_mset (\<lambda>e. (u, e)) (mset (the (q u))))"
proof -
  have "(\<Sum>u\<in>dom q - {t}. image_mset (\<lambda>e. (u, e)) (mset (the ((q(t := v)) u))))
      = (\<Sum>u\<in>dom q - {t}. image_mset (\<lambda>e. (u, e)) (mset (the (q u))))"
    by (intro sum.cong) auto
  then show ?thesis
    using assms by (cases v) (simp_all add: queued_def sum.insert_remove)
qed

lemma queued_same: "finite (dom q) \<Longrightarrow> queued q = (case q t of None \<Rightarrow> {#} | Some es \<Rightarrow> image_mset (\<lambda>e. (t, e)) (mset es)) +
    (\<Sum>u\<in>dom q - {t}. image_mset (\<lambda>e. (u, e)) (mset (the (q u))))"
  using queued_split [of q t "q t"] by simp

lemma queued_push:
  assumes "finite (dom q)"
  shows "queued (q(t \<mapsto> (case q t of None \<Rightarrow> [] | Some es \<Rightarrow> es) @ [e])) = add_mset (t, e) (queued q)"
  unfolding queued_split [OF assms] queued_same [OF assms, of t] by (cases "q t") simp_all

lemma register_fields:
  "sq_event_queue (try_register_event now e delta s) = (sq_event_queue s)(now + delta \<mapsto>
     (case sq_event_queue s (now + delta) of None \<Rightarrow> [] | Some es \<Rightarrow> es) @ [e])"
  "sq_pending_events (try_register_event now e delta s) = sq_pending_events s + 1"
  "sq_timers (try_register_event now e delta s) =
     (if sq_event_queue s (now + delta) = None then add_mset (now + delta) (sq_timers s) else sq_timers s)"
  "sq_registered (try_register_event now e delta s) = sq_registered s @ [(now + delta, e)]"
  "sq_called (try_register_event now e delta s) = sq_called s"
  by (simp_all add: try_register_event_def Let_def)

lemma register_ok:
  assumes "queue_ok running s"
  shows "queue_ok running (try_register_event now e delta s)"
proof -
  let ?q = "sq_event_queue s" and ?t = "now + delta"
  let ?q' = "?q(?t \<mapsto> (case ?q ?t of None \<Rightarrow> [] | Some es \<Rightarrow> es) @ [e])"
  have fin: "finite (dom ?q)" using assms by (simp add: queue_ok_def)
  have timers: "count (sq_timers (try_register_event now e delta s)) t =
      (if t \<in> dom ?q' \<and> (\<forall>i. running \<noteq> Some (t, i)) then 1 else 0)" for t
  proof -
    have c: "count (sq_timers s) t = (if t \<in> dom ?q \<and> (\<forall>i. running \<noteq> Some (t, i)) then 1 else 0)"
      using assms by (simp add: queue_ok_def)
    have "running \<noteq> Some (?t, i)" if "?q ?t = None" for i
      using assms that by (auto simp: queue_ok_def)
    with c show ?thesis by (cases "?q ?t") (auto simp: register_fields domIff)
  qed
  show ?thesis
  proof (cases running)
    case None
    then show ?thesis
      using assms timers fin queued_push [OF fin, of ?t e] by (simp add: queue_ok_def register_fields)
  next
    case (Some ti)
    then obtain t i es where ti: "running = Some (t, i)" "?q t = Some es" "i \<le> length es"
      "mset (sq_registered s) = mset (sq_called s) + queued (?q(t \<mapsto> drop i es))"
      "sq_pending_events s = int (size (queued (?q(t \<mapsto> drop i es))))"
      using assms by (cases ti) (auto simp: queue_ok_def)
    define es' where "es' = (if ?t = t then es @ [e] else es)"
    have es': "?q' t = Some es'" "i \<le> length es'" using ti by (auto simp: es'_def)
    have "queued (?q'(t \<mapsto> drop i es')) = add_mset (?t, e) (queued (?q(t \<mapsto> drop i es)))"
    proof (cases "?t = t")
      case True
      then have "?q'(t \<mapsto> drop i es') = ?q(t \<mapsto> drop i es @ [e])" using ti by (simp add: es'_def)
      then show ?thesis by (simp add: queued_split [OF fin] True)
    next
      case False
      then have "?q'(t \<mapsto> drop i es') = (?q(t \<mapsto> drop i es))(?t \<mapsto>
          (case (?q(t \<mapsto> drop i es)) ?t of None \<Rightarrow> [] | Some es \<Rightarrow> es) @ [e])"
        by (auto simp: es'_def fun_upd_twist)
      then show ?thesis using queued_push [of "?q(t \<mapsto> drop i es)" ?t e] fin by simp
    qed
    then show ?thesis
      using timers fin ti es' unfolding queue_ok_def by (simp add: register_fields)
  qed
qed

lemma call_one_ok:
  assumes "queue_ok (Some (now, i)) s" and "sq_event_queue s now = Some es" and "i < length es"
  shows "queue_ok (Some (now, Suc i)) (call_one behaviour now (es ! i) s)"
proof -
  let ?s = "s\<lparr>sq_pending_events := sq_pending_events s - 1, sq_called := sq_called s @ [(now, es ! i)]\<rparr>"
  have fin: "finite (dom (sq_event_queue s))" using assms(1) by (simp add: queue_ok_def)
  have "queued ((sq_event_queue s)(now \<mapsto> drop i es))
      = add_mset (now, es ! i) (queued ((sq_event_queue s)(now \<mapsto> drop (Suc i) es)))"
    using assms(3) by (simp add: queued_split [OF fin] Cons_nth_drop_Suc [symmetric])
  then have start: "queue_ok (Some (now, Suc i)) ?s"
    using assms by (auto simp: queue_ok_def)
  have "queue_ok (Some (now, Suc i)) (fold (\<lambda>(e', delta). try_register_event now e' delta) rs s')"
    if "queue_ok (Some (now, Suc i)) s'" for rs s'
    using that by (induction rs arbitrary: s') (auto simp: register_ok)
  with start show ?thesis by (simp add: call_one_def)
qed

text \<open>Order: what is queued for a time is what was registered for it and not called yet.\<close>

definition events_due :: "Tick \<Rightarrow> (Tick \<times> 'e) list \<Rightarrow> 'e list" where
  "events_due t xs = map snd (filter (\<lambda>p. fst p = t) xs)"

definition fifo_ok :: "(Tick \<times> nat) option \<Rightarrow> 'e sys_queue \<Rightarrow> bool" where
  "fifo_ok running s \<longleftrightarrow> (\<forall>t. events_due t (sq_registered s) = events_due t (sq_called s) @
     drop (case running of None \<Rightarrow> 0 | Some (u, i) \<Rightarrow> if u = t then i else 0)
       (map_index (sq_event_queue s) [] t) \<and>
     (\<forall>i. running = Some (t, i) \<longrightarrow> i \<le> length (map_index (sq_event_queue s) [] t)))"

lemma due_simps [simp]:
  "events_due t [] = []" "events_due t (xs @ ys) = events_due t xs @ events_due t ys" "events_due t [(u, e)] = (if u = t then [e] else [])"
  by (simp_all add: events_due_def)

lemma register_fifo:
  assumes "fifo_ok running s"
  shows "fifo_ok running (try_register_event now e delta s)"
  unfolding fifo_ok_def
proof (intro allI conjI impI)
  fix t i
  have *: "events_due t (sq_registered s) = events_due t (sq_called s) @
     drop (case running of None \<Rightarrow> 0 | Some (u, i) \<Rightarrow> if u = t then i else 0)
       (map_index (sq_event_queue s) [] t)"
    and **: "\<forall>i. running = Some (t, i) \<longrightarrow> i \<le> length (map_index (sq_event_queue s) [] t)"
    using assms by (auto simp: fifo_ok_def)
  show "events_due t (sq_registered (try_register_event now e delta s))
      = events_due t (sq_called (try_register_event now e delta s)) @
     drop (case running of None \<Rightarrow> 0 | Some (u, i) \<Rightarrow> if u = t then i else 0)
       (map_index (sq_event_queue (try_register_event now e delta s)) [] t)"
    using * ** by (auto simp: register_fields map_index_def split: option.splits)
  show "i \<le> length (map_index (sq_event_queue (try_register_event now e delta s)) [] t)"
    if "running = Some (t, i)"
    using ** that by (auto simp: register_fields map_index_def split: option.splits)
qed

lemma call_one_fifo:
  assumes "fifo_ok (Some (now, i)) s" and "sq_event_queue s now = Some es" and "i < length es"
  shows "fifo_ok (Some (now, Suc i)) (call_one behaviour now (es ! i) s)"
proof -
  let ?s = "s\<lparr>sq_pending_events := sq_pending_events s - 1, sq_called := sq_called s @ [(now, es ! i)]\<rparr>"
  have start: "fifo_ok (Some (now, Suc i)) ?s"
    using assms by (auto simp: fifo_ok_def Cons_nth_drop_Suc)
  have "fifo_ok (Some (now, Suc i)) (fold (\<lambda>(e', delta). try_register_event now e' delta) rs s')"
    if "fifo_ok (Some (now, Suc i)) s'" for rs s'
    using that by (induction rs arbitrary: s') (auto simp: register_fifo)
  with start show ?thesis by (simp add: call_one_def)
qed

section \<open>The loop\<close>

definition loop_post :: "Tick \<Rightarrow> nat \<Rightarrow> 'e sys_queue \<Rightarrow> 'e sys_queue \<Rightarrow> bool" where
  "loop_post now i s s' \<longleftrightarrow> (queue_ok (Some (now, i)) s \<longrightarrow> fifo_ok (Some (now, i)) s \<longrightarrow>
     (\<exists>es. sq_event_queue s' now = Some es \<and> queue_ok (Some (now, length es)) s' \<and>
        fifo_ok (Some (now, length es)) s'))"

lemma call_loop_post:
  assumes "call_loop behaviour now i s = Some s'"
  shows "loop_post now i s s'"
proof (rule call_loop.raw_induct [of "\<lambda>behaviour now i s s'. loop_post now i s s'", OF _ assms])
  fix call behaviour now i s s'
  assume IH: "\<And>behaviour now i (s :: 'a sys_queue) s'. call behaviour now i s = Some s' \<Longrightarrow> loop_post now i s s'"
    and step: "(case sq_event_queue s now of None \<Rightarrow> Some s
      | Some es \<Rightarrow> if i < length es then call behaviour now (i + 1) (call_one behaviour now (es ! i) s) else Some s)
      = Some s'"
  show "loop_post now i s s'"
    unfolding loop_post_def
  proof (intro impI)
    assume ok: "queue_ok (Some (now, i)) s" "fifo_ok (Some (now, i)) s"
    then obtain es where es: "sq_event_queue s now = Some es" "i \<le> length es"
      by (auto simp: queue_ok_def)
    show "\<exists>es. sq_event_queue s' now = Some es \<and> queue_ok (Some (now, length es)) s' \<and>
        fifo_ok (Some (now, length es)) s'"
    proof (cases "i < length es")
      case True
      then have "call behaviour now (Suc i) (call_one behaviour now (es ! i) s) = Some s'"
        using step es by simp
      from IH [OF this] call_one_ok [OF ok(1) es(1) True] call_one_fifo [OF ok(2) es(1) True]
      show ?thesis unfolding loop_post_def by metis
    next
      case False
      then have "s' = s" "i = length es" using step es by auto
      then show ?thesis using ok es by blast
    qed
  qed
qed

lemma queue_ok_start:
  assumes "queue_ok None s" and "fifo_ok None s" and "now \<in># sq_timers s"
  shows "queue_ok (Some (now, 0)) (s\<lparr>sq_timers := sq_timers s - {#now#}\<rparr>)"
    "fifo_ok (Some (now, 0)) (s\<lparr>sq_timers := sq_timers s - {#now#}\<rparr>)"
proof -
  have c: "count (sq_timers s) t = (if t \<in> dom (sq_event_queue s) then 1 else 0)" for t
    using assms(1) by (simp add: queue_ok_def)
  have n: "now \<in> dom (sq_event_queue s)" "count (sq_timers s) now = 1"
    using c [of now] assms(3) by (auto simp: count_eq_zero_iff split: if_splits)
  then obtain es where es: "sq_event_queue s now = Some es" by auto
  then have q: "(sq_event_queue s)(now \<mapsto> es) = sq_event_queue s" by auto
  have "count (sq_timers s - {#now#}) t = (if t \<in> dom (sq_event_queue s) \<and> now \<noteq> t then 1 else 0)" for t
    using assms(1) n by (cases "t = now") (auto simp: queue_ok_def)
  then show "queue_ok (Some (now, 0)) (s\<lparr>sq_timers := sq_timers s - {#now#}\<rparr>)"
    using assms(1) es q by (simp add: queue_ok_def)
  show "fifo_ok (Some (now, 0)) (s\<lparr>sq_timers := sq_timers s - {#now#}\<rparr>)"
    using assms(2) by (simp add: fifo_ok_def)
qed

lemma queue_ok_finish:
  assumes "sq_event_queue s now = Some es" and "queue_ok (Some (now, length es)) s"
    and "fifo_ok (Some (now, length es)) s"
  shows "queue_ok None (s\<lparr>sq_event_queue := (sq_event_queue s)(now := None)\<rparr>)"
    "fifo_ok None (s\<lparr>sq_event_queue := (sq_event_queue s)(now := None)\<rparr>)"
proof -
  have fin: "finite (dom (sq_event_queue s))" using assms(2) by (simp add: queue_ok_def)
  have "queued ((sq_event_queue s)(now \<mapsto> [])) = queued ((sq_event_queue s)(now := None))"
    by (simp add: queued_split [OF fin] del: fun_upd_apply)
  then show "queue_ok None (s\<lparr>sq_event_queue := (sq_event_queue s)(now := None)\<rparr>)"
    using assms(1,2) fin by (auto simp: queue_ok_def)
  show "fifo_ok None (s\<lparr>sq_event_queue := (sq_event_queue s)(now := None)\<rparr>)"
    using assms(1,3) by (auto simp: fifo_ok_def map_index_def)
qed

lemma handle_timer_ok:
  assumes "handle_timer behaviour now s = Some s'"
    and "queue_ok None s" and "fifo_ok None s" and "now \<in># sq_timers s"
  shows "queue_ok None s' \<and> fifo_ok None s' \<and> sq_event_queue s' now = None"
proof -
  obtain s1 where s1: "call_loop behaviour now 0 (s\<lparr>sq_timers := sq_timers s - {#now#}\<rparr>) = Some s1"
    "s' = s1\<lparr>sq_event_queue := (sq_event_queue s1)(now := None)\<rparr>"
    using assms(1) by (auto simp: handle_timer_def call_events_def)
  from call_loop_post [OF s1(1)] queue_ok_start [OF assms(2-4)]
  obtain es where "sq_event_queue s1 now = Some es" "queue_ok (Some (now, length es)) s1"
    "fifo_ok (Some (now, length es)) s1"
    unfolding loop_post_def by metis
  from queue_ok_finish [OF this] show ?thesis by (simp add: s1(2))
qed

text \<open>
  Termination: the loop ends when zero-delay registrations descend along some rank. The events
  left in the list, by rank, then decrease in the multiset order.
\<close>

definition ranked :: "('e \<Rightarrow> nat) \<Rightarrow> ('e \<Rightarrow> ('e \<times> Tick) list) \<Rightarrow> bool" where
  "ranked rank behaviour \<longleftrightarrow> (\<forall>e. list_all (\<lambda>(e', delta). delta = 0 \<longrightarrow> rank e' < rank e) (behaviour e))"

lemma fold_register_queue:
  "sq_event_queue s now = Some es \<Longrightarrow>
   sq_event_queue (fold (\<lambda>(e', delta). try_register_event now e' delta) rs s) now
      = Some (es @ map fst (filter (\<lambda>(e', delta). delta = 0) rs))"
  by (induction rs arbitrary: s es) (auto simp: register_fields)

lemma call_one_queue:
  "sq_event_queue s now = Some es \<Longrightarrow>
   sq_event_queue (call_one behaviour now e s) now
     = Some (es @ map fst (filter (\<lambda>(e', delta). delta = 0) (behaviour e)))"
  by (simp add: call_one_def fold_register_queue)

lemma call_loop_terminates:
  assumes "ranked rank behaviour" and "sq_event_queue s now = Some es"
  shows "\<exists>s'. call_loop behaviour now i s = Some s'"
  using assms(2)
proof (induction "image_mset rank (mset (drop i es))" arbitrary: i s es
    rule: wf_induct_rule [OF wf_mult [OF wf_less_than]])
  case 1
  show ?case
  proof (cases "i < length es")
    case False
    then show ?thesis using 1(2) by (subst call_loop.simps) simp
  next
    case True
    let ?new = "map fst (filter (\<lambda>(e', delta). delta = 0) (behaviour (es ! i)))"
    have split: "drop i es = es ! i # drop (Suc i) es" using True by (simp add: Cons_nth_drop_Suc)
    have small: "\<forall>r \<in># image_mset rank (mset ?new). r < rank (es ! i)"
      using assms(1) by (fastforce simp: ranked_def list_all_iff)
    have "(image_mset rank (mset (drop (Suc i) es)) + image_mset rank (mset ?new),
           image_mset rank (mset (drop (Suc i) es)) + {#rank (es ! i)#}) \<in> mult less_than"
      using small by (intro one_step_implies_mult) auto
    then have "(image_mset rank (mset (drop (Suc i) (es @ ?new))), image_mset rank (mset (drop i es))) \<in> mult less_than"
      using True by (simp add: split)
    from 1(1) [OF this call_one_queue [OF 1(2), of behaviour "es ! i"]] show ?thesis
      using True 1(2) by (subst call_loop.simps) simp
  qed
qed

section \<open>Runs\<close>

text \<open>
  A run of the simulator as the event queue sees it: something registers an event at the
  current time, the clock moves on (never past a scheduled timer), or the back end runs the
  handler of a timer that is due.
\<close>

inductive event_run :: "('e \<Rightarrow> ('e \<times> Tick) list) \<Rightarrow> Tick \<Rightarrow> 'e sys_queue \<Rightarrow> bool" for behaviour where
  start: "event_run behaviour 0 sys_queue_init"
| register: "event_run behaviour now s \<Longrightarrow> event_run behaviour now (register_event now e delta s)"
| advance: "event_run behaviour now s \<Longrightarrow> now \<le> now' \<Longrightarrow> \<forall>t \<in># sq_timers s. now' \<le> t \<Longrightarrow>
    event_run behaviour now' s"
| timer: "event_run behaviour now s \<Longrightarrow> now \<in># sq_timers s \<Longrightarrow> handle_timer behaviour now s = Some s' \<Longrightarrow>
    event_run behaviour now s'"

lemma event_run_ok: "event_run behaviour now s \<Longrightarrow> queue_ok None s \<and> fifo_ok None s"
proof (induction rule: event_run.induct)
  case start
  show ?case by (simp add: sys_queue_init_def queue_ok_def fifo_ok_def queued_def)
next
  case (register now s e delta)
  then show ?case by (simp add: register_event_def register_ok register_fifo)
next
  case (timer now s s')
  then show ?case using handle_timer_ok [OF timer(3)] by simp
qed simp_all

lemma fold_register_times:
  "\<forall>t\<in>dom (sq_event_queue s). now \<le> t \<Longrightarrow>
   \<forall>t\<in>dom (sq_event_queue (fold (\<lambda>(e', delta). try_register_event now e' delta) rs s)). now \<le> t"
proof (induction rs arbitrary: s)
  case (Cons r rs)
  have "\<forall>t\<in>dom (sq_event_queue (try_register_event now (fst r) (snd r) s)). now \<le> t"
    using Cons(2) by (auto simp: register_fields)
  from Cons(1) [OF this] show ?case by (simp add: case_prod_beta)
qed simp

lemma call_loop_times:
  assumes "call_loop behaviour now i s = Some s'"
  shows "(\<forall>t\<in>dom (sq_event_queue s). now \<le> t) \<longrightarrow> (\<forall>t\<in>dom (sq_event_queue s'). now \<le> t)"
proof (rule call_loop.raw_induct [of "\<lambda>behaviour now i s s'.
    (\<forall>t\<in>dom (sq_event_queue s). now \<le> t) \<longrightarrow> (\<forall>t\<in>dom (sq_event_queue s'). now \<le> t)", OF _ assms])
  fix call behaviour now i s s'
  assume IH: "\<And>behaviour now i (s :: 'a sys_queue) s'. call behaviour now i s = Some s' \<Longrightarrow>
      (\<forall>t\<in>dom (sq_event_queue s). now \<le> t) \<longrightarrow> (\<forall>t\<in>dom (sq_event_queue s'). now \<le> t)"
    and step: "(case sq_event_queue s now of None \<Rightarrow> Some s
      | Some es \<Rightarrow> if i < length es then call behaviour now (i + 1) (call_one behaviour now (es ! i) s) else Some s)
      = Some s'"
  have one: "\<forall>t\<in>dom (sq_event_queue (call_one behaviour now e s)). now \<le> t"
    if "\<forall>t\<in>dom (sq_event_queue s). now \<le> t" for e
    unfolding call_one_def using that by (intro fold_register_times) simp
  show "(\<forall>t\<in>dom (sq_event_queue s). now \<le> t) \<longrightarrow> (\<forall>t\<in>dom (sq_event_queue s'). now \<le> t)"
    using step IH one by (auto split: option.splits if_splits)
qed

lemma event_run_times: "event_run behaviour now s \<Longrightarrow> \<forall>t\<in>dom (sq_event_queue s). now \<le> t"
proof (induction rule: event_run.induct)
  case (advance now s now')
  from event_run_ok [OF advance(1)] have "count (sq_timers s) t = 1" if "t \<in> dom (sq_event_queue s)" for t
    using that by (simp add: queue_ok_def)
  then have "t \<in># sq_timers s" if "t \<in> dom (sq_event_queue s)" for t
    using that by (metis count_eq_zero_iff zero_neq_one)
  with advance(3) show ?case by blast
next
  case (timer now s s')
  then obtain s1 where s1: "call_loop behaviour now 0 (s\<lparr>sq_timers := sq_timers s - {#now#}\<rparr>) = Some s1"
    "s' = s1\<lparr>sq_event_queue := (sq_event_queue s1)(now := None)\<rparr>"
    by (auto simp: handle_timer_def call_events_def)
  then show ?case using call_loop_times [OF s1(1)] timer(4) by auto
qed (auto simp: sys_queue_init_def register_event_def register_fields)

section \<open>Properties\<close>

text \<open>
  \<^bold>\<open>C18\<close>. In every run, for every time, the events registered for it are exactly the events
  called at it followed by the ones still queued for it, in registration order: an event is
  called once, at its events_due time, first come first served. Exactly one timer is scheduled per
  queued time, no queued time is in the past, and the counter of pending events is the
  number of events registered and not called.
\<close>

theorem events_called_once_in_order:
  assumes "event_run behaviour now s"
  shows "(\<forall>t. events_due t (sq_registered s) = events_due t (sq_called s) @ map_index (sq_event_queue s) [] t) \<and>
    sq_timers s = mset_set (dom (sq_event_queue s)) \<and>
    (\<forall>t. sq_event_queue s t \<noteq> None \<longrightarrow> now \<le> t) \<and>
    sq_pending_events s = int (length (sq_registered s)) - int (length (sq_called s))"
proof (intro conjI)
  note ok = event_run_ok [OF assms]
  show "\<forall>t. events_due t (sq_registered s) = events_due t (sq_called s) @ map_index (sq_event_queue s) [] t"
    using ok by (simp add: fifo_ok_def)
  show "sq_timers s = mset_set (dom (sq_event_queue s))"
    using ok by (intro multiset_eqI) (simp add: queue_ok_def count_mset_set')
  show "\<forall>t. sq_event_queue s t \<noteq> None \<longrightarrow> now \<le> t" using event_run_times [OF assms] by auto
  have "size (mset (sq_registered s)) = size (mset (sq_called s)) + size (queued (sq_event_queue s))"
    using ok by (simp add: queue_ok_def del: size_mset)
  then show "sq_pending_events s = int (length (sq_registered s)) - int (length (sq_called s))"
    using ok by (simp add: queue_ok_def)
qed

text \<open>Event 0 registers event 1 at once and event 2 five ticks later; the others register nothing.\<close>

definition demo_behaviour :: "nat \<Rightarrow> (nat \<times> Tick) list" where
  "demo_behaviour e = (if e = 0 then [(1, 0), (2, 5)] else [])"

lemma demo_event_run:
  "\<exists>s. event_run demo_behaviour 3 s \<and> sq_called s = [(3, 0), (3, 7), (3, 1)] \<and> sq_event_queue s 8 = Some [2]"
proof -
  let ?s = "register_event 0 7 3 (register_event 0 (0 :: nat) 3 sys_queue_init)"
  have run: "event_run demo_behaviour 3 ?s"
    by (rule event_run.advance [OF event_run.register [OF event_run.register [OF event_run.start]]])
      (simp_all add: register_event_def register_fields sys_queue_init_def)
  have "\<exists>s'. handle_timer demo_behaviour 3 ?s = Some s' \<and> sq_called s' = [(3, 0), (3, 7), (3, 1)] \<and>
      sq_event_queue s' 8 = Some [2]"
    by (simp add: handle_timer_def call_events_def register_event_def try_register_event_def Let_def
        sys_queue_init_def call_loop.simps call_one_def demo_behaviour_def)
  with event_run.timer [OF run] show ?thesis
    by (auto simp: register_event_def register_fields sys_queue_init_def)
qed

theorem events_called_once_in_order_witness:
  "\<exists>s. sq_called s = [(3, 0), (3, 7), (3, 1 :: nat)] \<and> event_run demo_behaviour 3 s \<and>
     (\<forall>t. events_due t (sq_registered s) = events_due t (sq_called s) @ map_index (sq_event_queue s) [] t)"
  using demo_event_run events_called_once_in_order by metis

text \<open>
  \<^bold>\<open>C19\<close>. Liveness of the event loop: when zero-delay registrations descend along some rank (in
  particular when no callback registers a zero-delay event), the handler of a due timer
  returns, and afterwards nothing is queued for the current time: everything registered for
  it so far has been called.
\<close>

theorem handle_timer_completes:
  assumes "event_run behaviour now s" and "now \<in># sq_timers s" and "ranked rank behaviour"
  shows "\<exists>s'. handle_timer behaviour now s = Some s' \<and> sq_event_queue s' now = None \<and>
    events_due now (sq_called s') = events_due now (sq_registered s')"
proof -
  note ok = event_run_ok [OF assms(1)]
  have "queue_ok (Some (now, 0)) (s\<lparr>sq_timers := sq_timers s - {#now#}\<rparr>)"
    using queue_ok_start ok assms(2) by blast
  then obtain es where "sq_event_queue (s\<lparr>sq_timers := sq_timers s - {#now#}\<rparr>) now = Some es"
    unfolding queue_ok_def by auto
  from call_loop_terminates [OF assms(3) this]
  obtain s' where s': "handle_timer behaviour now s = Some s'"
    by (fastforce simp: handle_timer_def call_events_def)
  from handle_timer_ok [OF this] ok assms(2)
  have "sq_event_queue s' now = None" "fifo_ok None s'" by blast+
  with s' show ?thesis by (simp add: fifo_ok_def)
qed

theorem handle_timer_completes_witness:
  "\<exists>s s'. handle_timer demo_behaviour 3 s = Some s' \<and> sq_event_queue s' 3 = None \<and>
     events_due 3 (sq_called s') = events_due 3 (sq_registered s') \<and> 3 \<in># sq_timers s"
proof -
  let ?s = "register_event 0 7 3 (register_event 0 (0 :: nat) 3 sys_queue_init)"
  have run: "event_run demo_behaviour 3 ?s"
    by (rule event_run.advance [OF event_run.register [OF event_run.register [OF event_run.start]]])
      (simp_all add: register_event_def register_fields sys_queue_init_def)
  have "3 \<in># sq_timers ?s" by (simp add: register_event_def register_fields sys_queue_init_def)
  moreover have "ranked (\<lambda>e. if e = 0 then 1 else 0) demo_behaviour"
    by (simp add: ranked_def demo_behaviour_def)
  ultimately show ?thesis using handle_timer_completes [OF run] by blast
qed

end
