(* ===== verification/Front_End.thy ===== *)
theory Front_End
  imports Network_Frontend Sys_Events
begin

text \<open>
  The low-level network primitives of \<^verbatim>\<open>Sys.cc\<close>: \<^verbatim>\<open>front_end_sim_send\<close> and
  \<^verbatim>\<open>front_end_sim_recv\<close>, the rendezvous handshake, delayed sends and receives
  (\<^verbatim>\<open>SimSendCaller\<close>, \<^verbatim>\<open>SimRecvCaller\<close>) and the rendezvous branches of
  \<^verbatim>\<open>handleEvent\<close>. The calls a node makes on the network back end are recorded in order.
  Buffers are opaque pointers that no code reads and are left out.
\<close>

section \<open>Data\<close>

datatype FrontEndSendRecvType = NATIVE | COLLECTIVE | RENDEZVOUS

fun tag_offset :: "FrontEndSendRecvType \<Rightarrow> int" where
  "tag_offset NATIVE = 0"
| "tag_offset COLLECTIVE = 500000000"
| "tag_offset RENDEZVOUS = 1000000000"

datatype req_type_e = UINT8 | BFLOAT16 | FP32

record sim_request =
  rq_srcRank :: "32 word"
  rq_dstRank :: "32 word"
  rq_tag :: "32 word"
  rq_reqType :: req_type_e
  rq_reqCount :: u64
  rq_vnet :: "32 word"
  rq_layerNum :: "32 word"

text \<open>
  A message handler is a callback of the client with its argument, or \<^verbatim>\<open>Sys::handleEvent\<close>
  with rendezvous data. A caller keeps the message size in an \<^verbatim>\<open>int\<close>: 32 bits.
\<close>

datatype 'h handler = MsgHandler 'h | HandleEvent "'h rendezvous_data"
  and 'h rendezvous_data = RendezvousSendData "'h sim_caller" | RendezvousRecvData "'h sim_caller"
  and 'h sim_caller =
    SimSendCaller "32 word" int int int sim_request "'h handler" bool
  | SimRecvCaller "32 word" int int int sim_request "'h handler" bool

text \<open>Calls on the network interface \<^verbatim>\<open>comm_NI\<close>: size, type, peer, tag, request, handler.\<close>

datatype 'h ni_call =
    NI_sim_send u64 int int int sim_request "'h handler"
  | NI_sim_recv u64 int int int sim_request "'h handler"

record 'h fe_sys =
  fe_id :: int
  fe_rendezvous_enabled :: bool
  fe_now :: Tick
  fe_events :: "'h sim_caller sys_queue"
  fe_calls :: "'h ni_call list"

section \<open>Operations\<close>

text \<open>The conversions between \<^verbatim>\<open>uint64_t\<close> and \<^verbatim>\<open>int\<close>: truncation, then sign extension.\<close>

definition SimSendCaller_new ::
    "u64 \<Rightarrow> int \<Rightarrow> int \<Rightarrow> int \<Rightarrow> sim_request \<Rightarrow> 'h handler \<Rightarrow> bool \<Rightarrow> 'h sim_caller" where
  "SimSendCaller_new bytes ty dst tag request h should_cleanup =
     SimSendCaller (ucast bytes) ty dst tag request h should_cleanup"

definition SimRecvCaller_new ::
    "u64 \<Rightarrow> int \<Rightarrow> int \<Rightarrow> int \<Rightarrow> sim_request \<Rightarrow> 'h handler \<Rightarrow> bool \<Rightarrow> 'h sim_caller" where
  "SimRecvCaller_new bytes ty src tag request h should_cleanup =
     SimRecvCaller (ucast bytes) ty src tag request h should_cleanup"

definition ni_call :: "'h ni_call \<Rightarrow> 'h fe_sys \<Rightarrow> 'h fe_sys" where
  "ni_call c s = s\<lparr>fe_calls := fe_calls s @ [c]\<rparr>"

fun caller_call :: "'h sim_caller \<Rightarrow> 'h fe_sys \<Rightarrow> 'h fe_sys" where
  "caller_call (SimSendCaller bytes ty dst tag request h should_cleanup) s =
     ni_call (NI_sim_send (signed (bytes :: 32 word)) ty dst tag request h) s"
| "caller_call (SimRecvCaller bytes ty src tag request h should_cleanup) s =
     ni_call (NI_sim_recv (signed (bytes :: 32 word)) ty src tag request h) s"

definition sys_sim_send ::
    "Tick \<Rightarrow> u64 \<Rightarrow> int \<Rightarrow> int \<Rightarrow> int \<Rightarrow> sim_request \<Rightarrow> 'h handler \<Rightarrow> 'h fe_sys \<Rightarrow> 'h fe_sys" where
  "sys_sim_send delay bytes ty dst tag request h s =
     (if delay = 0 then ni_call (NI_sim_send bytes ty dst tag request h) s
      else s\<lparr>fe_events := try_register_event (fe_now s)
               (SimSendCaller_new bytes ty dst tag request h True) delay (fe_events s)\<rparr>)"

definition sys_sim_recv ::
    "Tick \<Rightarrow> u64 \<Rightarrow> int \<Rightarrow> int \<Rightarrow> int \<Rightarrow> sim_request \<Rightarrow> 'h handler \<Rightarrow> 'h fe_sys \<Rightarrow> 'h fe_sys" where
  "sys_sim_recv delay bytes ty src tag request h s =
     (if delay = 0 then ni_call (NI_sim_recv bytes ty src tag request h) s
      else s\<lparr>fe_events := try_register_event (fe_now s)
               (SimRecvCaller_new bytes ty src tag request h True) delay (fe_events s)\<rparr>)"

definition handshake_request :: "int \<Rightarrow> sim_request \<Rightarrow> sim_request" where
  "handshake_request newTag request = request\<lparr>rq_dstRank := rq_srcRank request,
     rq_srcRank := rq_dstRank request, rq_reqCount := 8192, rq_tag := word_of_int newTag\<rparr>"

definition rendezvous_sim_send ::
    "Tick \<Rightarrow> u64 \<Rightarrow> int \<Rightarrow> int \<Rightarrow> int \<Rightarrow> sim_request \<Rightarrow> 'h handler \<Rightarrow> 'h fe_sys \<Rightarrow> 'h fe_sys result" where
  "rendezvous_sim_send delay bytes ty dst tag request h s =
     (if tag \<ge> tag_offset RENDEZVOUS then Inl (SysPanic ''tag is bigger than RENDEZVOUS_COMM_TAG_OFFSET'')
      else let rsd = RendezvousSendData (SimSendCaller_new bytes ty dst tag request h False);
               newTag = tag + tag_offset RENDEZVOUS
           in Inr (sys_sim_recv delay 8192 ty dst newTag (handshake_request newTag request)
                     (HandleEvent rsd) s))"

definition rendezvous_sim_recv ::
    "Tick \<Rightarrow> u64 \<Rightarrow> int \<Rightarrow> int \<Rightarrow> int \<Rightarrow> sim_request \<Rightarrow> 'h handler \<Rightarrow> 'h fe_sys \<Rightarrow> 'h fe_sys result" where
  "rendezvous_sim_recv delay bytes ty src tag request h s =
     (if tag \<ge> tag_offset RENDEZVOUS then Inl (SysPanic ''tag is bigger than RENDEZVOUS_COMM_TAG_OFFSET'')
      else let rrd = RendezvousRecvData (SimRecvCaller_new bytes ty src tag request h False);
               newTag = tag + tag_offset RENDEZVOUS
           in Inr (sys_sim_send delay 8192 ty src newTag (handshake_request newTag request)
                     (HandleEvent rrd) s))"

text \<open>The tag a message of the given kind is sent with.\<close>

definition front_end_tag :: "FrontEndSendRecvType \<Rightarrow> int \<Rightarrow> int result" where
  "front_end_tag k tag =
     (if k = NATIVE
      then Inr (c_mod tag (tag_offset COLLECTIVE - tag_offset NATIVE) + tag_offset NATIVE)
      else if k = COLLECTIVE
      then Inr (c_mod tag (tag_offset RENDEZVOUS - tag_offset COLLECTIVE) + tag_offset COLLECTIVE)
      else Inl (SysPanic ''A type of RENDZVOUS should never issued in frontend''))"

definition front_end_sim_send ::
    "Tick \<Rightarrow> u64 \<Rightarrow> int \<Rightarrow> int \<Rightarrow> int \<Rightarrow> sim_request \<Rightarrow> FrontEndSendRecvType \<Rightarrow> 'h handler \<Rightarrow>
     'h fe_sys \<Rightarrow> 'h fe_sys result" where
  "front_end_sim_send delay bytes ty dst tag request send_type h s =
     rbind (front_end_tag send_type tag) (\<lambda>tag.
       if fe_rendezvous_enabled s then rendezvous_sim_send delay bytes ty dst tag request h s
       else Inr (sys_sim_send delay bytes ty dst tag request h s))"

definition front_end_sim_recv ::
    "Tick \<Rightarrow> u64 \<Rightarrow> int \<Rightarrow> int \<Rightarrow> int \<Rightarrow> sim_request \<Rightarrow> FrontEndSendRecvType \<Rightarrow> 'h handler \<Rightarrow>
     'h fe_sys \<Rightarrow> 'h fe_sys result" where
  "front_end_sim_recv delay bytes ty src tag request recv_type h s =
     rbind (front_end_tag recv_type tag) (\<lambda>tag.
       if fe_rendezvous_enabled s then rendezvous_sim_recv delay bytes ty src tag request h s
       else Inr (sys_sim_recv delay bytes ty src tag request h s))"

text \<open>The rendezvous branches of \<^verbatim>\<open>handleEvent\<close>.\<close>

fun handleEvent_rendezvous :: "'h rendezvous_data \<Rightarrow> 'h fe_sys \<Rightarrow> 'h fe_sys" where
  "handleEvent_rendezvous (RendezvousSendData send) s = caller_call send s"
| "handleEvent_rendezvous (RendezvousRecvData recv) s = caller_call recv s"

section \<open>Properties\<close>

text \<open>The key under which the back end matches a call made by node \<open>rank\<close>, its tag and its handler.\<close>

fun call_key :: "int \<Rightarrow> 'h ni_call \<Rightarrow> chunk_key" where
  "call_key rank (NI_sim_send bytes ty dst tag request h) = (tag, rank, dst, bytes)"
| "call_key rank (NI_sim_recv bytes ty src tag request h) = (tag, src, rank, bytes)"

fun call_tag :: "'h ni_call \<Rightarrow> int" where
  "call_tag (NI_sim_send bytes ty dst tag request h) = tag"
| "call_tag (NI_sim_recv bytes ty src tag request h) = tag"

fun call_handler :: "'h ni_call \<Rightarrow> 'h handler" where
  "call_handler (NI_sim_send bytes ty dst tag request h) = h"
| "call_handler (NI_sim_recv bytes ty src tag request h) = h"

fun is_ni_send :: "'h ni_call \<Rightarrow> bool" where
  "is_ni_send (NI_sim_send bytes ty dst tag request h) = True"
| "is_ni_send (NI_sim_recv bytes ty src tag request h) = False"

lemma narrow_count_int:
  fixes u :: int
  assumes "0 \<le> u" and "u < 2 ^ 64"
  shows "signed_take_bit 31 u mod 2 ^ 64 = u \<longleftrightarrow> u < 2 ^ 31 \<or> 2 ^ 64 - 2 ^ 31 \<le> u"
proof -
  define r where "r = signed_take_bit 31 u"
  have lo: "- (2 ^ 31) \<le> r" and hi: "r < 2 ^ 31"
    unfolding r_def by (rule signed_take_bit_int_greater_eq_minus_exp, rule signed_take_bit_int_less_exp)
  have neg: "r mod 2 ^ 64 = r + 2 ^ 64" if "r < 0"
  proof -
    have "(r + 2 ^ 64) mod 2 ^ 64 = r + 2 ^ 64" using lo that by (intro mod_pos_pos_trivial) simp_all
    then show ?thesis by simp
  qed
  have pos: "r mod 2 ^ 64 = r" if "0 \<le> r" using hi that by (intro mod_pos_pos_trivial) simp_all
  have small: "r = u" if "u < 2 ^ 31" using assms(1) that unfolding r_def by (intro signed_take_bit_int_eq_self) simp_all
  have big: "r = u - 2 ^ 64" if "2 ^ 64 - 2 ^ 31 \<le> u"
  proof -
    have "r = signed_take_bit 31 (u - 2 ^ 64)"
    proof -
      have "(u - 2 ^ 64 + 2 ^ 31) mod 2 ^ 32 = (u + 2 ^ 31) mod (2 ^ 32 :: int)"
        using mod_mult_self2 [of "u + 2 ^ 31" "2 ^ 32" "- (2 ^ 32) :: int"] by (simp add: algebra_simps)
      then show ?thesis by (simp add: r_def signed_take_bit_eq_take_bit_shift take_bit_eq_mod)
    qed
    also have "\<dots> = u - 2 ^ 64" using assms(2) that by (intro signed_take_bit_int_eq_self) simp_all
    finally show ?thesis .
  qed
  show ?thesis
    unfolding r_def [symmetric] using lo hi neg pos small big assms by (cases "0 \<le> r") auto
qed

lemma narrow_count:
  fixes c :: u64
  shows "(signed (ucast c :: 32 word) :: u64) = c \<longleftrightarrow> c < 2 ^ 31 \<or> - (2 ^ 31) \<le> c"
proof -
  have "uint (signed (ucast c :: 32 word) :: u64) = signed_take_bit 31 (uint c) mod 2 ^ 64"
  proof -
    have a: "sint (ucast c :: 32 word) = signed_take_bit 31 (uint c)"
      unfolding ucast_eq by (subst sint_sbintrunc') simp
    have b: "uint (signed w :: u64) = sint w mod 2 ^ 64" for w :: "32 word"
      unfolding scast_eq by (subst uint_word_of_int) simp
    show ?thesis unfolding b a by (rule refl)
  qed
  moreover have "0 \<le> uint c" "uint c < 2 ^ 64" using uint_lt2p [of c] by simp_all
  moreover have "c < 2 ^ 31 \<longleftrightarrow> uint c < 2 ^ 31" "- (2 ^ 31) \<le> c \<longleftrightarrow> 2 ^ 64 - 2 ^ 31 \<le> uint c"
    by (simp_all add: word_less_def word_le_def)
  ultimately show ?thesis using narrow_count_int [of "uint c"] by (simp add: word_uint_eq_iff)
qed

text \<open>
  A caller keeps the size of a message in an \<^verbatim>\<open>int\<close>: the send that a delayed or
  rendezvous message finally issues has the requested size exactly when that size is below
  2 GiB (or so large that it is the sign extension of a 32-bit value). Every other size is
  silently changed.
\<close>

theorem caller_count_narrowed:
  "\<exists>bytes'. caller_call (SimSendCaller_new bytes ty dst tag request h b) s
      = s\<lparr>fe_calls := fe_calls s @ [NI_sim_send bytes' ty dst tag request h]\<rparr> \<and>
    (bytes' = bytes \<longleftrightarrow> bytes < 2 ^ 31 \<or> - (2 ^ 31) \<le> bytes)"
  by (rule exI [of _ "signed (ucast bytes :: 32 word)"])
    (simp add: SimSendCaller_new_def ni_call_def narrow_count)

lemma front_end_tag_bounds:
  assumes "0 \<le> tag"
  shows "\<exists>t. front_end_tag NATIVE tag = Inr t \<and> 0 \<le> t \<and> t < 500000000"
    and "\<exists>t. front_end_tag COLLECTIVE tag = Inr t \<and> 500000000 \<le> t \<and> t < 1000000000"
proof -
  have "0 \<le> tag mod 500000000" "tag mod 500000000 < 500000000" by simp_all
  then show "\<exists>t. front_end_tag NATIVE tag = Inr t \<and> 0 \<le> t \<and> t < 500000000"
    and "\<exists>t. front_end_tag COLLECTIVE tag = Inr t \<and> 500000000 \<le> t \<and> t < 1000000000"
    using assms by (simp_all add: front_end_tag_def)
qed

lemmas front_end_defs = front_end_sim_send_def front_end_sim_recv_def rendezvous_sim_send_def
  rendezvous_sim_recv_def sys_sim_send_def sys_sim_recv_def ni_call_def

lemma front_end_calls:
  assumes "front_end_tag k tag = Inr t" and "t < 1000000000"
  shows "front_end_sim_send 0 bytes ty dst tag request k h s = Inr (s\<lparr>fe_calls := fe_calls s @
      [if fe_rendezvous_enabled s
       then NI_sim_recv 8192 ty dst (t + 1000000000) (handshake_request (t + 1000000000) request)
              (HandleEvent (RendezvousSendData (SimSendCaller (ucast bytes) ty dst t request h False)))
       else NI_sim_send bytes ty dst t request h]\<rparr>)"
    and "front_end_sim_recv 0 bytes ty src tag request k h s = Inr (s\<lparr>fe_calls := fe_calls s @
      [if fe_rendezvous_enabled s
       then NI_sim_send 8192 ty src (t + 1000000000) (handshake_request (t + 1000000000) request)
              (HandleEvent (RendezvousRecvData (SimRecvCaller (ucast bytes) ty src t request h False)))
       else NI_sim_recv bytes ty src t request h]\<rparr>)"
  using assms by (simp_all add: front_end_defs SimSendCaller_new_def SimRecvCaller_new_def Let_def)

definition tag_range :: "FrontEndSendRecvType \<Rightarrow> bool \<Rightarrow> int \<Rightarrow> bool" where
  "tag_range k handshake t \<longleftrightarrow>
     (let b = tag_offset k + (if handshake then 1000000000 else 0) in b \<le> t \<and> t < b + 500000000)"

text \<open>The call of a front-end operation whose tag has become \<open>t\<close>.\<close>

lemma single_call:
  assumes t: "front_end_tag k tag = Inr t" and range: "tag_range k' False t" and k': "k' \<noteq> RENDEZVOUS"
  shows "\<exists>c. front_end_sim_send 0 bytes ty dst tag request k h s = Inr (s\<lparr>fe_calls := fe_calls s @ [c]\<rparr>) \<and>
      tag_range k' (fe_rendezvous_enabled s) (call_tag c) \<and> call_tag c < 2 ^ 31 \<and>
      (is_ni_send c \<longleftrightarrow> \<not> fe_rendezvous_enabled s)"
    and "\<exists>c. front_end_sim_recv 0 bytes ty dst tag request k h s = Inr (s\<lparr>fe_calls := fe_calls s @ [c]\<rparr>) \<and>
      tag_range k' (fe_rendezvous_enabled s) (call_tag c) \<and> call_tag c < 2 ^ 31 \<and>
      (is_ni_send c \<longleftrightarrow> fe_rendezvous_enabled s)"
proof -
  have b: "t < 1000000000" using range k' by (cases k') (simp_all add: tag_range_def Let_def)
  have handshake: "tag_range k' True (t + 1000000000)" using range by (simp add: tag_range_def Let_def)
  note calls = front_end_calls [OF t b]
  show "\<exists>c. front_end_sim_send 0 bytes ty dst tag request k h s = Inr (s\<lparr>fe_calls := fe_calls s @ [c]\<rparr>) \<and>
      tag_range k' (fe_rendezvous_enabled s) (call_tag c) \<and> call_tag c < 2 ^ 31 \<and>
      (is_ni_send c \<longleftrightarrow> \<not> fe_rendezvous_enabled s)"
    unfolding calls by (intro exI conjI refl) (use b range handshake in \<open>auto split: if_splits\<close>)
  show "\<exists>c. front_end_sim_recv 0 bytes ty dst tag request k h s = Inr (s\<lparr>fe_calls := fe_calls s @ [c]\<rparr>) \<and>
      tag_range k' (fe_rendezvous_enabled s) (call_tag c) \<and> call_tag c < 2 ^ 31 \<and>
      (is_ni_send c \<longleftrightarrow> fe_rendezvous_enabled s)"
    unfolding calls by (intro exI conjI refl) (use b range handshake in \<open>auto split: if_splits\<close>)
qed

text \<open>The remainder of a negative tag is negative, as in C.\<close>

lemma front_end_negative:
  assumes "tag < 0" "\<not> 500000000 dvd tag"
  shows "\<exists>t. front_end_tag COLLECTIVE tag = Inr t \<and> tag_range NATIVE False t"
    and "\<exists>t. front_end_tag NATIVE tag = Inr t \<and> t < 0 \<and> tag_range COLLECTIVE False (t + 1000000000)"
proof -
  define r where "r = (- tag) mod 500000000"
  have r: "0 < r" "r < 500000000"
    using assms pos_mod_sign [of 500000000 "- tag"] unfolding r_def by (simp_all add: dvd_eq_mod_eq_0 zmod_zminus1_eq_if)
  have "c_div tag 500000000 = - ((- tag) div 500000000)" using assms(1) by (simp add: c_div_def)
  then have c_mod: "c_mod tag 500000000 = - r"
    unfolding c_mod_def r_def using minus_div_mult_eq_mod [of "- tag" 500000000] by (simp only: mult_minus_left)
  show "\<exists>t. front_end_tag COLLECTIVE tag = Inr t \<and> tag_range NATIVE False t"
    using r c_mod by (simp add: front_end_tag_def tag_range_def Let_def)
  show "\<exists>t. front_end_tag NATIVE tag = Inr t \<and> t < 0 \<and> tag_range COLLECTIVE False (t + 1000000000)"
    using r c_mod by (simp add: front_end_tag_def tag_range_def Let_def)
qed

text \<open>
  \<^bold>\<open>C21\<close>. Tags of different traffic. For every non-negative tag, an immediate front-end send or receive of
  kind \<^verbatim>\<open>NATIVE\<close> or \<^verbatim>\<open>COLLECTIVE\<close> makes exactly one call on the back end and does not
  panic; the tag of the call lies in the range of its kind, or in the range of the handshakes of its kind when
  rendezvous is on, all below the largest \<^verbatim>\<open>int\<close>. The four ranges are disjoint, so that such tags
  never collide. A negative tag of kind \<^verbatim>\<open>COLLECTIVE\<close> that is not a multiple of the size of a range
  ends in the range of \<^verbatim>\<open>NATIVE\<close> instead, and one of kind \<^verbatim>\<open>NATIVE\<close> is negative or, with
  rendezvous, has its handshake in the range of \<^verbatim>\<open>COLLECTIVE\<close>. A send or a receive of kind \<^verbatim>\<open>RENDEZVOUS\<close> panics.
\<close>

theorem front_end_tag_ranges:
  assumes "k = NATIVE \<or> k = COLLECTIVE"
  shows "(0 \<le> tag \<longrightarrow>
      (\<exists>c. front_end_sim_send 0 bytes ty dst tag request k h s = Inr (s\<lparr>fe_calls := fe_calls s @ [c]\<rparr>) \<and>
        tag_range k (fe_rendezvous_enabled s) (call_tag c) \<and> call_tag c < 2 ^ 31 \<and>
        (is_ni_send c \<longleftrightarrow> \<not> fe_rendezvous_enabled s)) \<and>
      (\<exists>c. front_end_sim_recv 0 bytes ty dst tag request k h s = Inr (s\<lparr>fe_calls := fe_calls s @ [c]\<rparr>) \<and>
        tag_range k (fe_rendezvous_enabled s) (call_tag c) \<and> call_tag c < 2 ^ 31 \<and>
        (is_ni_send c \<longleftrightarrow> fe_rendezvous_enabled s))) \<and>
    (\<forall>b k' b' t. k' \<noteq> RENDEZVOUS \<longrightarrow> tag_range k b t \<longrightarrow> tag_range k' b' t \<longrightarrow> k' = k \<and> b' = b) \<and>
    (tag < 0 \<and> \<not> 500000000 dvd tag \<longrightarrow>
      (\<exists>c. front_end_sim_send 0 bytes ty dst tag request COLLECTIVE h s = Inr (s\<lparr>fe_calls := fe_calls s @ [c]\<rparr>) \<and>
        tag_range NATIVE (fe_rendezvous_enabled s) (call_tag c)) \<and>
      (\<exists>c. front_end_sim_recv 0 bytes ty dst tag request COLLECTIVE h s = Inr (s\<lparr>fe_calls := fe_calls s @ [c]\<rparr>) \<and>
        tag_range NATIVE (fe_rendezvous_enabled s) (call_tag c)) \<and>
      (\<exists>c. front_end_sim_send 0 bytes ty dst tag request NATIVE h s = Inr (s\<lparr>fe_calls := fe_calls s @ [c]\<rparr>) \<and>
        (if fe_rendezvous_enabled s then tag_range COLLECTIVE False (call_tag c) else call_tag c < 0)) \<and>
      (\<exists>c. front_end_sim_recv 0 bytes ty dst tag request NATIVE h s = Inr (s\<lparr>fe_calls := fe_calls s @ [c]\<rparr>) \<and>
        (if fe_rendezvous_enabled s then tag_range COLLECTIVE False (call_tag c) else call_tag c < 0))) \<and>
    (\<exists>e. front_end_sim_send 0 bytes ty dst tag request RENDEZVOUS h s = Inl (SysPanic e)) \<and>
    (\<exists>e. front_end_sim_recv 0 bytes ty dst tag request RENDEZVOUS h s = Inl (SysPanic e))"
proof -
  have calls: "(\<exists>c. front_end_sim_send 0 bytes ty dst tag request k h s = Inr (s\<lparr>fe_calls := fe_calls s @ [c]\<rparr>) \<and>
        tag_range k (fe_rendezvous_enabled s) (call_tag c) \<and> call_tag c < 2 ^ 31 \<and>
        (is_ni_send c \<longleftrightarrow> \<not> fe_rendezvous_enabled s)) \<and>
      (\<exists>c. front_end_sim_recv 0 bytes ty dst tag request k h s = Inr (s\<lparr>fe_calls := fe_calls s @ [c]\<rparr>) \<and>
        tag_range k (fe_rendezvous_enabled s) (call_tag c) \<and> call_tag c < 2 ^ 31 \<and>
        (is_ni_send c \<longleftrightarrow> fe_rendezvous_enabled s))" if "0 \<le> tag"
  proof -
    obtain t where t: "front_end_tag k tag = Inr t" "tag_range k False t"
      using front_end_tag_bounds [OF \<open>0 \<le> tag\<close>] assms by (fastforce simp: tag_range_def Let_def)
    then show ?thesis using single_call [OF t] assms by blast
  qed
  have negative: "(\<exists>c. front_end_sim_send 0 bytes ty dst tag request COLLECTIVE h s = Inr (s\<lparr>fe_calls := fe_calls s @ [c]\<rparr>) \<and>
        tag_range NATIVE (fe_rendezvous_enabled s) (call_tag c)) \<and>
      (\<exists>c. front_end_sim_recv 0 bytes ty dst tag request COLLECTIVE h s = Inr (s\<lparr>fe_calls := fe_calls s @ [c]\<rparr>) \<and>
        tag_range NATIVE (fe_rendezvous_enabled s) (call_tag c))" if neg: "tag < 0 \<and> \<not> 500000000 dvd tag"
  proof -
    obtain t where t: "front_end_tag COLLECTIVE tag = Inr t" "tag_range NATIVE False t" using front_end_negative(1) neg by blast
    have "NATIVE \<noteq> RENDEZVOUS" by simp
    note calls = single_call [OF t this]
    show ?thesis using calls(1) [of bytes ty dst request h s] calls(2) [of bytes ty dst request h s] by blast
  qed
  have disjoint: "k' = k \<and> b' = b"
    if "k' \<noteq> RENDEZVOUS" "tag_range k b t" "tag_range k' b' t" for b k' b' t
    using that assms by (cases k'; cases b; cases b') (auto simp: tag_range_def Let_def)
  have native: "(\<exists>c. front_end_sim_send 0 bytes ty dst tag request NATIVE h s = Inr (s\<lparr>fe_calls := fe_calls s @ [c]\<rparr>) \<and>
        (if fe_rendezvous_enabled s then tag_range COLLECTIVE False (call_tag c) else call_tag c < 0)) \<and>
      (\<exists>c. front_end_sim_recv 0 bytes ty dst tag request NATIVE h s = Inr (s\<lparr>fe_calls := fe_calls s @ [c]\<rparr>) \<and>
        (if fe_rendezvous_enabled s then tag_range COLLECTIVE False (call_tag c) else call_tag c < 0))"
    if neg: "tag < 0 \<and> \<not> 500000000 dvd tag"
  proof -
    obtain t where t: "front_end_tag NATIVE tag = Inr t" "t < 0" "tag_range COLLECTIVE False (t + 1000000000)"
      using front_end_negative(2) neg by blast
    have b: "t < 1000000000" using t(2) by simp
    show ?thesis
      unfolding front_end_calls [OF t(1) b] by (intro conjI exI [where P = "\<lambda>c. _ c \<and> _ c"] refl) (use t(2,3) in \<open>auto split: if_splits\<close>)
  qed
  have "\<exists>e. front_end_sim_send 0 bytes ty dst tag request RENDEZVOUS h s = Inl (SysPanic e)"
    "\<exists>e. front_end_sim_recv 0 bytes ty dst tag request RENDEZVOUS h s = Inl (SysPanic e)"
    by (simp_all add: front_end_sim_send_def front_end_sim_recv_def front_end_tag_def)
  then show ?thesis using calls disjoint negative native by blast
qed

definition demo_request :: sim_request where
  "demo_request = \<lparr>rq_srcRank = 0, rq_dstRank = 1, rq_tag = 9, rq_reqType = UINT8, rq_reqCount = 64,
     rq_vnet = 0, rq_layerNum = 0\<rparr>"

definition demo_fe :: "int \<Rightarrow> string fe_sys" where
  "demo_fe i = \<lparr>fe_id = i, fe_rendezvous_enabled = True, fe_now = 0, fe_events = sys_queue_init, fe_calls = []\<rparr>"

theorem front_end_tag_ranges_witness:
  "\<exists>c. front_end_sim_send 0 64 0 1 9 demo_request COLLECTIVE (MsgHandler ''done'') (demo_fe 0)
      = Inr ((demo_fe 0)\<lparr>fe_calls := [c]\<rparr>) \<and> tag_range COLLECTIVE True (call_tag c)"
  using front_end_tag_ranges [of COLLECTIVE 9 64 0 1 demo_request "MsgHandler ''done''" "demo_fe 0"]
  by (auto simp: demo_fe_def)

text \<open>
  \<^bold>\<open>C20\<close>. The rendezvous handshake is sound. When node \<open>a\<close> sends to \<open>b\<close> and \<open>b\<close> posts the
  receive, both with rendezvous on, the only call on either side is the handshake, a message
  from \<open>b\<close> to \<open>a\<close> whose two ends have the same key at the back end. No data is sent before
  it. When its two handlers run, \<open>a\<close> issues the send and \<open>b\<close> the receive of the data; these
  have equal keys too, namely the ones used without rendezvous, and carry the client's
  handlers, provided the message is below 2 GiB.
\<close>

theorem rendezvous_sound:
  assumes "0 \<le> tag" and "k = NATIVE \<or> k = COLLECTIVE" and "bytes < 2 ^ 31"
    and "fe_rendezvous_enabled sa" and "fe_rendezvous_enabled sb"
  shows "\<exists>t ca cb da db ra rb.
    front_end_sim_send 0 bytes ty b tag reqa k ha sa = Inr (sa\<lparr>fe_calls := fe_calls sa @ [ca]\<rparr>) \<and>
    front_end_sim_recv 0 bytes ty a tag reqb k hb sb = Inr (sb\<lparr>fe_calls := fe_calls sb @ [cb]\<rparr>) \<and>
    \<not> is_ni_send ca \<and> is_ni_send cb \<and> call_key a ca = call_key b cb \<and>
    call_key a ca = (t + 1000000000, b, a, 8192) \<and> call_handler ca = HandleEvent da \<and> call_handler cb = HandleEvent db \<and>
    (\<forall>s. handleEvent_rendezvous da s = s\<lparr>fe_calls := fe_calls s @ [ra]\<rparr>) \<and>
    (\<forall>s. handleEvent_rendezvous db s = s\<lparr>fe_calls := fe_calls s @ [rb]\<rparr>) \<and>
    is_ni_send ra \<and> \<not> is_ni_send rb \<and> call_key a ra = (t, a, b, bytes) \<and> call_key b rb = (t, a, b, bytes) \<and>
    call_handler ra = ha \<and> call_handler rb = hb \<and> front_end_tag k tag = Inr t"
proof -
  obtain t where t: "front_end_tag k tag = Inr t" "t < 1000000000"
    using front_end_tag_bounds [OF assms(1)] assms(2) by fastforce
  have n: "(signed (ucast bytes :: 32 word) :: u64) = bytes" using assms(3) narrow_count by blast
  let ?da = "RendezvousSendData (SimSendCaller (ucast bytes) ty b t reqa ha False)"
    and ?db = "RendezvousRecvData (SimRecvCaller (ucast bytes) ty a t reqb hb False)"
  show ?thesis
    unfolding front_end_calls [OF t] using t(1) n assms(4,5)
    by (intro exI [of _ t] exI [of _ "NI_sim_recv 8192 ty b (t + 1000000000)
          (handshake_request (t + 1000000000) reqa) (HandleEvent ?da)"]
        exI [of _ "NI_sim_send 8192 ty a (t + 1000000000)
          (handshake_request (t + 1000000000) reqb) (HandleEvent ?db)"] exI [of _ ?da] exI [of _ ?db]
        exI [of _ "NI_sim_send bytes ty b t reqa ha"] exI [of _ "NI_sim_recv bytes ty a t reqb hb"])
      (simp add: ni_call_def)
qed

theorem rendezvous_sound_witness:
  "\<exists>ca cb. front_end_sim_send 0 64 0 1 9 demo_request COLLECTIVE (MsgHandler ''sent'') (demo_fe 0)
      = Inr ((demo_fe 0)\<lparr>fe_calls := [ca]\<rparr>) \<and>
    front_end_sim_recv 0 64 0 0 9 demo_request COLLECTIVE (MsgHandler ''received'') (demo_fe 1)
      = Inr ((demo_fe 1)\<lparr>fe_calls := [cb]\<rparr>) \<and> call_key 0 ca = call_key 1 cb"
  using rendezvous_sound [of 9 COLLECTIVE 64 "demo_fe 0" "demo_fe 1" 0 1 demo_request
      "MsgHandler ''sent''" 0 demo_request "MsgHandler ''received''"]
  by (auto simp: demo_fe_def)

end
