(* ===== verification/Binary_Tree.thy ===== *)
theory Binary_Tree
  imports Astra_Prelude "HOL-Library.Tree"
begin

text \<open>
  The binary trees of \<^verbatim>\<open>logical_topology/BinaryTree.cc\<close> and the pair of trees of
  \<^verbatim>\<open>DoubleBinaryTreeTopology.cc\<close>. The heap of nodes that the constructor builds is a tree,
  so it is a value of type \<open>int tree\<close>; a node's links are recorded in \<^verbatim>\<open>node_list\<close> under its id,
  in the order in which \<^verbatim>\<open>build_tree\<close> inserts them.
\<close>

section \<open>Construction\<close>

datatype TreeType = RootMax | RootMin

datatype NodeType = LeafNode | RootNode | IntermediateNode

text \<open>A node with its three pointers; a pointer is the id of the node it points to.\<close>

record Node =
  nd_parent :: "int option"
  nd_left_child :: "int option"
  nd_right_child :: "int option"

record BinaryTree =
  bt_total_tree_nodes :: int
  bt_start :: int
  bt_tree_type :: TreeType
  bt_stride :: int
  bt_tree :: "int tree"
  bt_node_list :: "int \<rightharpoonup> Node"

text \<open>The loop that computes the depth.\<close>

function tree_depth :: "int \<Rightarrow> nat" where
  "tree_depth tmp = (if tmp > 1 then Suc (tree_depth (tmp div 2)) else 1)"
  by pat_completeness auto
termination by (relation "measure nat") auto

declare tree_depth.simps [simp del]

text \<open>New nodes carry the id -1 until \<^verbatim>\<open>build_tree\<close> numbers them.\<close>

fun initialize_tree :: "nat \<Rightarrow> int tree" where
  "initialize_tree depth =
     (if depth > 1 then Node (initialize_tree (depth - 1)) (-1) (initialize_tree (depth - 1))
      else Node Leaf (-1) Leaf)"

declare initialize_tree.simps [simp del]

fun build_tree :: "int \<Rightarrow> int tree \<Rightarrow> int \<Rightarrow> int tree \<times> int" where
  "build_tree stride Leaf start = (Leaf, start)"
| "build_tree stride (Node l a r) start =
     (let (l', start1) = build_tree stride l start;
          (r', start2) = build_tree stride r (start1 + stride)
      in (Node l' start1 r', start2))"

fun root_id :: "int tree \<Rightarrow> int option" where
  "root_id Leaf = None"
| "root_id (Node l a r) = Some a"

fun node_entries :: "int option \<Rightarrow> int tree \<Rightarrow> (int \<times> Node) list" where
  "node_entries parent Leaf = []"
| "node_entries parent (Node l a r) =
     node_entries (Some a) l @
     (a, \<lparr>nd_parent = parent, nd_left_child = root_id l, nd_right_child = root_id r\<rparr>) #
     node_entries (Some a) r"

definition BinaryTree_new :: "TreeType \<Rightarrow> int \<Rightarrow> int \<Rightarrow> int \<Rightarrow> BinaryTree" where
  "BinaryTree_new tree_type total_tree_nodes start stride =
     (let sub = initialize_tree (tree_depth total_tree_nodes - 1);
          tree = (if tree_type = RootMin then Node Leaf (-1) sub else Node sub (-1) Leaf);
          (tree', start') = build_tree stride tree start
      in \<lparr>bt_total_tree_nodes = total_tree_nodes, bt_start = start', bt_tree_type = tree_type,
          bt_stride = stride, bt_tree = tree', bt_node_list = map_of (rev (node_entries None tree'))\<rparr>)"

section \<open>Queries\<close>

text \<open>
  \<^verbatim>\<open>node_list[id]\<close> of an absent id is a null pointer, which the queries dereference.
\<close>

definition node_at :: "BinaryTree \<Rightarrow> int \<Rightarrow> Node result" where
  "node_at t nid = (case bt_node_list t nid of None \<Rightarrow> Inl (NullDeref ''node_list[id]'') | Some n \<Rightarrow> Inr n)"

definition id_or_minus_one :: "int option \<Rightarrow> int" where
  "id_or_minus_one p = (case p of None \<Rightarrow> -1 | Some i \<Rightarrow> i)"

definition get_parent_id :: "BinaryTree \<Rightarrow> int \<Rightarrow> int result" where
  "get_parent_id t nid = rbind (node_at t nid) (\<lambda>n. Inr (id_or_minus_one (nd_parent n)))"

definition get_right_child_id :: "BinaryTree \<Rightarrow> int \<Rightarrow> int result" where
  "get_right_child_id t nid = rbind (node_at t nid) (\<lambda>n. Inr (id_or_minus_one (nd_right_child n)))"

definition get_left_child_id :: "BinaryTree \<Rightarrow> int \<Rightarrow> int result" where
  "get_left_child_id t nid = rbind (node_at t nid) (\<lambda>n. Inr (id_or_minus_one (nd_left_child n)))"

definition get_node_type :: "BinaryTree \<Rightarrow> int \<Rightarrow> NodeType result" where
  "get_node_type t nid = rbind (node_at t nid) (\<lambda>n. Inr (
     if nd_parent n = None then RootNode
     else if nd_left_child n = None \<and> nd_right_child n = None then LeafNode
     else IntermediateNode))"

definition bt_get_num_of_nodes_in_dimension :: "BinaryTree \<Rightarrow> int" where
  "bt_get_num_of_nodes_in_dimension t = bt_total_tree_nodes t"

record DoubleBinaryTreeTopology =
  db_counter :: nat
  db_DBMAX :: BinaryTree
  db_DBMIN :: BinaryTree

definition DoubleBinaryTreeTopology_new :: "int \<Rightarrow> int \<Rightarrow> int \<Rightarrow> DoubleBinaryTreeTopology" where
  "DoubleBinaryTreeTopology_new total_tree_nodes start stride =
     \<lparr>db_counter = 0, db_DBMAX = BinaryTree_new RootMax total_tree_nodes start stride,
      db_DBMIN = BinaryTree_new RootMin total_tree_nodes start stride\<rparr>"

definition get_topology :: "DoubleBinaryTreeTopology \<Rightarrow> BinaryTree \<times> DoubleBinaryTreeTopology" where
  "get_topology d = ((if db_counter d mod 2 = 0 then db_DBMAX d else db_DBMIN d),
     d\<lparr>db_counter := db_counter d + 1\<rparr>)"

text \<open>\<open>None\<close> is the null pointer returned for every dimension but the first.\<close>

definition dbt_get_basic_topology_at_dimension ::
    "int \<Rightarrow> DoubleBinaryTreeTopology \<Rightarrow> BinaryTree option \<times> DoubleBinaryTreeTopology" where
  "dbt_get_basic_topology_at_dimension dimension d =
     (if dimension = 0 then (let (t, d') = get_topology d in (Some t, d')) else (None, d))"

definition dbt_get_num_of_nodes_in_dimension :: "DoubleBinaryTreeTopology \<Rightarrow> int" where
  "dbt_get_num_of_nodes_in_dimension d = bt_get_num_of_nodes_in_dimension (db_DBMIN d)"

section \<open>Shape of the trees\<close>

lemma tree_depth_power: "tree_depth (2 ^ d) = Suc d"
proof (induction d)
  case 0
  show ?case by (simp add: tree_depth.simps)
next
  case (Suc d)
  have "(1::int) < 2 ^ Suc d" by (rule one_less_power) simp_all
  with Suc show ?case by (subst tree_depth.simps) simp
qed

lemma tree_depth_range: "2 ^ d \<le> n \<Longrightarrow> n < 2 ^ Suc d \<Longrightarrow> tree_depth n = Suc d"
proof (induction d arbitrary: n)
  case 0
  then show ?case by (simp add: tree_depth.simps)
next
  case (Suc d)
  have "(1::int) < 2 ^ Suc d" by (rule one_less_power) simp_all
  moreover have "tree_depth (n div 2) = Suc d" by (rule Suc.IH) (use Suc.prems in auto)
  ultimately show ?case using Suc.prems(1) by (subst tree_depth.simps) auto
qed

lemma initialize_tree_step:
  "initialize_tree (Suc (Suc e)) = Node (initialize_tree (Suc e)) (-1) (initialize_tree (Suc e))"
  "initialize_tree (Suc 0) = Node Leaf (-1) Leaf" "initialize_tree 0 = Node Leaf (-1) Leaf"
  by (simp_all add: initialize_tree.simps)

lemma initialize_tree_size: "size (initialize_tree (Suc e)) = 2 ^ Suc e - 1"
proof (induction e)
  case 0
  show ?case by (simp add: initialize_tree_step)
next
  case (Suc e)
  obtain q where "(2::nat) ^ e = Suc q" by (metis Suc_pred' zero_less_numeral zero_less_power)
  with Suc show ?case by (simp add: initialize_tree_step)
qed

text \<open>Numbering is by in-order position.\<close>

lemma build_tree_inorder:
  "inorder (fst (build_tree stride t start)) = map (\<lambda>k. start + int k * stride) [0..<size t] \<and>
   snd (build_tree stride t start) = start + int (size t) * stride"
proof (induction t arbitrary: start)
  case Leaf
  show ?case by simp
next
  case (Node l a r)
  obtain l' s1 where l: "build_tree stride l start = (l', s1)" by fastforce
  obtain r' s2 where r: "build_tree stride r (s1 + stride) = (r', s2)" by fastforce
  have s1: "s1 = start + int (size l) * stride" and
    il: "inorder l' = map (\<lambda>k. start + int k * stride) [0..<size l]"
    using Node.IH(1) [of start] l by auto
  have s2: "s2 = s1 + stride + int (size r) * stride" and
    ir: "inorder r' = map (\<lambda>k. s1 + stride + int k * stride) [0..<size r]"
    using Node.IH(2) [of "s1 + stride"] r by auto
  have "[0..<size l + Suc (size r)] = [0..<size l] @ [size l..<size l + Suc (size r)]"
    by (rule upt_add_eq_append) simp
  also have "[size l..<size l + Suc (size r)] = size l # [Suc (size l)..<size l + Suc (size r)]"
    by (simp add: upt_conv_Cons del: upt_Suc)
  also have "[Suc (size l)..<size l + Suc (size r)] = map (\<lambda>k. k + Suc (size l)) [0..<size r]"
    by (simp only: map_add_upt) (simp add: add.commute del: upt_Suc)
  finally have "inorder (fst (build_tree stride (Node l a r) start))
      = map (\<lambda>k. start + int k * stride) [0..<size (Node l a r)]"
    using il ir s1 l r by (simp add: algebra_simps del: upt_Suc)
  then show ?case using s1 s2 l r by (simp add: algebra_simps)
qed

lemma build_tree_size: "size (fst (build_tree stride t start)) = size t"
  by (metis build_tree_inorder length_inorder length_map length_upt minus_nat.diff_0)

lemma node_entries_ids: "map fst (node_entries p t) = inorder t"
  by (induction t arbitrary: p) auto

lemma node_entries_length: "length (node_entries p t) = size t"
  by (metis length_inorder length_map node_entries_ids)

definition is_leaf_entry :: "Node \<Rightarrow> bool" where
  "is_leaf_entry n \<longleftrightarrow> nd_left_child n = None \<and> nd_right_child n = None"

lemma build_tree_root: "root_id (fst (build_tree stride t start)) = None \<longleftrightarrow> t = Leaf"
  by (cases t) (auto simp: split_beta)

text \<open>In a perfect tree the leaves are the nodes at the even in-order positions.\<close>

lemma perfect_leaves:
  assumes "k < 2 ^ Suc e - 1"
  shows "is_leaf_entry (snd (node_entries p (fst (build_tree stride (initialize_tree (Suc e)) start)) ! k))
    \<longleftrightarrow> even k"
  using assms
proof (induction e arbitrary: p start k)
  case 0
  then show ?case by (simp add: initialize_tree_step is_leaf_entry_def)
next
  case (Suc e)
  let ?s = "initialize_tree (Suc e)"
  let ?m = "2 ^ Suc e - 1 :: nat"
  define l where "l = fst (build_tree stride ?s start)"
  define s1 where "s1 = snd (build_tree stride ?s start)"
  define r where "r = fst (build_tree stride ?s (s1 + stride))"
  have t: "fst (build_tree stride (initialize_tree (Suc (Suc e))) start) = Node l s1 r"
    by (simp add: initialize_tree_step l_def s1_def r_def split_beta)
  have len: "length (node_entries (Some s1) l) = ?m"
    by (simp add: l_def node_entries_length build_tree_size initialize_tree_size)
  have "?s \<noteq> Leaf" by (cases e) (simp_all add: initialize_tree_step)
  then have root: "root_id l \<noteq> None" by (simp add: l_def build_tree_root)
  have odd: "odd ?m" by simp
  consider "k < ?m" | "k = ?m" | j where "k = ?m + 1 + j" "j < ?m"
  proof -
    have "k < 2 * 2 ^ Suc e - 1" using Suc.prems by simp
    then have "k \<ge> ?m + 1 \<Longrightarrow> k - (?m + 1) < ?m" by linarith
    then show thesis using that by (metis add.commute le_add_diff_inverse less_Suc_eq_le
          linorder_neqE_nat Suc_eq_plus1 Suc_leI)
  qed
  then show ?case
  proof cases
    case 1
    then show ?thesis using Suc.IH [of k "Some s1" start, folded l_def] unfolding t
      by (simp add: nth_append len)
  next
    case 2
    then show ?thesis using root odd unfolding t
      by (simp add: nth_append len is_leaf_entry_def)
  next
    case 3
    then have "k = length (node_entries (Some s1) l) + Suc j" by (simp only: len)
    then have "node_entries p (Node l s1 r) ! k = node_entries (Some s1) r ! j"
      by (simp only: node_entries.simps nth_append_length_plus nth_Cons_Suc)
    moreover have "even k \<longleftrightarrow> even j" using 3 by simp
    ultimately show ?thesis using Suc.IH [of j "Some s1" "s1 + stride", folded r_def] 3 unfolding t
      by simp
  qed
qed

section \<open>The node list of a tree with a power-of-two number of nodes\<close>

definition tree_entries :: "BinaryTree \<Rightarrow> (int \<times> Node) list" where
  "tree_entries t = node_entries None (bt_tree t)"

lemma BinaryTree_new_tree:
  fixes d start stride type
  defines "t \<equiv> BinaryTree_new type (2 ^ Suc d) start stride"
  shows "inorder (bt_tree t) = map (\<lambda>k. start + int k * stride) [0..<2 ^ Suc d]"
    and "bt_node_list t = map_of (rev (tree_entries t))"
    and "bt_tree t = (let sub = initialize_tree (Suc d) in
      if type = RootMin then Node Leaf start (fst (build_tree stride sub (start + stride)))
      else Node (fst (build_tree stride sub start)) (snd (build_tree stride sub start)) Leaf)"
proof -
  let ?sub = "initialize_tree (Suc d)"
  let ?shape = "if type = RootMin then Node Leaf (-1) ?sub else Node ?sub (-1) Leaf"
  have depth: "tree_depth (2 ^ Suc d) - 1 = Suc d" by (simp only: tree_depth_power)
  have t: "bt_tree t = fst (build_tree stride ?shape start)"
    unfolding t_def BinaryTree_new_def depth by (simp add: Let_def split_beta)
  have "(1::nat) \<le> 2 ^ Suc d" by simp
  then have "size ?shape = 2 ^ Suc d" using initialize_tree_size [of d] by auto
  then show "inorder (bt_tree t) = map (\<lambda>k. start + int k * stride) [0..<2 ^ Suc d]"
    using build_tree_inorder [of stride ?shape start] t by metis
  show "bt_node_list t = map_of (rev (tree_entries t))"
    by (simp add: t_def BinaryTree_new_def tree_entries_def Let_def split_beta)
  show "bt_tree t = (let sub = initialize_tree (Suc d) in
      if type = RootMin then Node Leaf start (fst (build_tree stride sub (start + stride)))
      else Node (fst (build_tree stride sub start)) (snd (build_tree stride sub start)) Leaf)"
    unfolding t by (simp add: Let_def split_beta)
qed

lemma tree_entries_nth:
  fixes type :: TreeType and start stride :: int and k d :: nat
  assumes "stride \<noteq> 0" and "k < 2 ^ Suc d"
  defines "t \<equiv> BinaryTree_new type (2 ^ Suc d) start stride"
  shows "bt_node_list t (start + int k * stride) = Some (snd (tree_entries t ! k))"
    and "length (tree_entries t) = 2 ^ Suc d"
    and "fst (tree_entries t ! k) = start + int k * stride"
proof -
  have ids: "map fst (tree_entries t) = map (\<lambda>k. start + int k * stride) [0..<2 ^ Suc d]"
    unfolding tree_entries_def node_entries_ids t_def by (rule BinaryTree_new_tree(1))
  show len: "length (tree_entries t) = 2 ^ Suc d"
    using arg_cong [OF ids, of length] by (simp only: length_map length_upt diff_zero)
  show fst: "fst (tree_entries t ! k) = start + int k * stride"
    using arg_cong [OF ids, of "\<lambda>xs. xs ! k"] assms(2) len
    by (metis (no_types, lifting) add_0 diff_zero length_upt nth_map nth_upt)
  have "distinct (map fst (tree_entries t))"
    unfolding ids using assms(1) by (simp add: distinct_map inj_on_def del: power_Suc)
  moreover have "(start + int k * stride, snd (tree_entries t ! k)) \<in> set (tree_entries t)"
    using assms(2) len fst by (metis nth_mem prod.collapse)
  ultimately have "map_of (rev (tree_entries t)) (start + int k * stride) = Some (snd (tree_entries t ! k))"
    by (intro map_of_is_SomeI) (simp_all add: rev_map [symmetric])
  then show "bt_node_list t (start + int k * stride) = Some (snd (tree_entries t ! k))"
    unfolding t_def BinaryTree_new_tree(2) .
qed

lemma tree_entry_absent:
  assumes "x \<notin> (\<lambda>k. start + int k * stride) ` {..<2 ^ Suc d}"
  shows "bt_node_list (BinaryTree_new type (2 ^ Suc d) start stride) x = None"
proof -
  have "x \<notin> fst ` set (tree_entries (BinaryTree_new type (2 ^ Suc d) start stride))"
    using assms node_entries_ids BinaryTree_new_tree(1) [of type d start stride]
    by (metis (no_types, lifting) atLeast0LessThan list.set_map set_upt tree_entries_def)
  then show ?thesis
    unfolding BinaryTree_new_tree(2) by (simp add: map_of_eq_None_iff del: power_Suc)
qed

section \<open>Links between nodes\<close>

lemma root_entry:
  "root_id t = Some c \<Longrightarrow> \<exists>n. (c, n) \<in> set (node_entries p t) \<and> nd_parent n = p"
  by (cases t) auto

lemma child_entry:
  assumes "(x, n) \<in> set (node_entries p t)" and "nd_left_child n = Some c \<or> nd_right_child n = Some c"
  shows "\<exists>m. (c, m) \<in> set (node_entries p t) \<and> nd_parent m = Some x"
  using assms
proof (induction t arbitrary: p)
  case Leaf
  then show ?case by simp
next
  case (Node l a r)
  then show ?case
    using root_entry [of l c "Some a"] root_entry [of r c "Some a"] by fastforce
qed

lemma parent_entry:
  assumes "(x, n) \<in> set (node_entries p t)" and "nd_parent n = Some q"
  shows "p = Some q \<and> root_id t = Some x \<or>
    (\<exists>m. (q, m) \<in> set (node_entries p t) \<and> (nd_left_child m = Some x \<or> nd_right_child m = Some x))"
  using assms
proof (induction t arbitrary: p)
  case Leaf
  then show ?case by simp
next
  case (Node l a r)
  consider "(x, n) \<in> set (node_entries (Some a) l)" | "(x, n) \<in> set (node_entries (Some a) r)"
    | "x = a" "nd_parent n = p"
    using Node.prems(1) by auto
  then show ?case
  proof cases
    case 1
    with Node.IH(1) [OF 1 Node.prems(2)] show ?thesis by auto
  next
    case 2
    with Node.IH(2) [OF 2 Node.prems(2)] show ?thesis by auto
  next
    case 3
    with Node.prems(2) show ?thesis by simp
  qed
qed

lemma node_list_entry:
  fixes type :: TreeType and start stride :: int and d :: nat
  assumes "stride \<noteq> 0"
  defines "t \<equiv> BinaryTree_new type (2 ^ Suc d) start stride"
  shows "bt_node_list t x = Some n \<longleftrightarrow> (x, n) \<in> set (tree_entries t)"
proof
  assume "bt_node_list t x = Some n"
  then show "(x, n) \<in> set (tree_entries t)"
    unfolding t_def BinaryTree_new_tree(2) using map_of_SomeD by fastforce
next
  assume "(x, n) \<in> set (tree_entries t)"
  then obtain k where k: "k < 2 ^ Suc d" "tree_entries t ! k = (x, n)"
    unfolding in_set_conv_nth using tree_entries_nth(2) [OF assms(1), of 0 d type start]
    by (auto simp: t_def simp del: power_Suc)
  from tree_entries_nth(1,3) [OF assms(1) k(1), of type start, folded t_def] k(2)
  show "bt_node_list t x = Some n" by simp
qed

lemma inner_parent:
  "(x, n) \<in> set (node_entries (Some q) t) \<Longrightarrow> nd_parent n \<noteq> None"
  by (induction t arbitrary: q) auto

lemma inner_parent_nth: "k < size t \<Longrightarrow> nd_parent (snd (node_entries (Some q) t ! k)) \<noteq> None"
  by (metis inner_parent node_entries_length nth_mem prod.collapse)

text \<open>The entries of a whole tree: the root at one end, a perfect tree at the other.\<close>

lemma tree_entries_split:
  fixes type :: TreeType and start stride :: int and k d :: nat
  assumes "k < 2 ^ Suc d"
  defines "e \<equiv> snd (tree_entries (BinaryTree_new type (2 ^ Suc d) start stride) ! k)"
  shows "nd_parent e = None \<longleftrightarrow> (case type of RootMax \<Rightarrow> k = 2 ^ Suc d - 1 | RootMin \<Rightarrow> k = 0)"
    and "nd_parent e \<noteq> None \<Longrightarrow> is_leaf_entry e \<longleftrightarrow> (case type of RootMax \<Rightarrow> even k | RootMin \<Rightarrow> odd k)"
proof -
  let ?sub = "initialize_tree (Suc d)"
  let ?n = "2 ^ Suc d - 1 :: nat"
  have size: "size (fst (build_tree stride ?sub s)) = ?n" for s
    using initialize_tree_size [of d] by (simp only: build_tree_size)
  have k: "k < Suc ?n" using assms(1) by simp
  have "(nd_parent e = None \<longleftrightarrow> (case type of RootMax \<Rightarrow> k = ?n | RootMin \<Rightarrow> k = 0)) \<and>
    (nd_parent e \<noteq> None \<longrightarrow> (is_leaf_entry e \<longleftrightarrow> (case type of RootMax \<Rightarrow> even k | RootMin \<Rightarrow> odd k)))"
  proof (cases type)
    case RootMax
    let ?l = "fst (build_tree stride ?sub start)" and ?s = "snd (build_tree stride ?sub start)"
    have e: "e = (if k < ?n then snd (node_entries (Some ?s) ?l ! k)
        else \<lparr>nd_parent = None, nd_left_child = root_id ?l, nd_right_child = None\<rparr>)"
      unfolding e_def tree_entries_def BinaryTree_new_tree(3) using RootMax k
      by (simp add: Let_def nth_append node_entries_length size del: power_Suc)
    show ?thesis
      using perfect_leaves [of k d "Some ?s" stride start] inner_parent_nth [of k ?l ?s] size [of start] k
      by (auto simp: e RootMax simp del: power_Suc)
  next
    case RootMin
    let ?r = "fst (build_tree stride ?sub (start + stride))"
    have e: "e = (case k of 0 \<Rightarrow> \<lparr>nd_parent = None, nd_left_child = None, nd_right_child = root_id ?r\<rparr>
        | Suc j \<Rightarrow> snd (node_entries (Some start) ?r ! j))"
      unfolding e_def tree_entries_def BinaryTree_new_tree(3) using RootMin
      by (simp add: Let_def split: nat.split)
    show ?thesis
    proof (cases k)
      case 0
      then show ?thesis by (simp add: e RootMin)
    next
      case (Suc j)
      then have "j < ?n" using k by linarith
      with perfect_leaves [of j d "Some start" stride "start + stride"]
        inner_parent_nth [of j ?r start] size [of "start + stride"]
      show ?thesis by (auto simp: e RootMin Suc simp del: power_Suc)
    qed
  qed
  then show "nd_parent e = None \<longleftrightarrow> (case type of RootMax \<Rightarrow> k = ?n | RootMin \<Rightarrow> k = 0)"
    and "nd_parent e \<noteq> None \<Longrightarrow> is_leaf_entry e \<longleftrightarrow> (case type of RootMax \<Rightarrow> even k | RootMin \<Rightarrow> odd k)"
    by blast+
qed

lemma link_query:
  assumes "start + int j * stride = x" and "0 \<le> x"
  shows "rbind (node_at t y) (\<lambda>n. Inr (id_or_minus_one (f n))) = Inr x \<longleftrightarrow>
    (\<exists>n. bt_node_list t y = Some n \<and> f n = Some x)"
  using assms by (auto simp: node_at_def id_or_minus_one_def split: option.splits)

lemma parent_child_iff:
  fixes type :: TreeType and start stride :: int and d :: nat
  assumes "stride \<noteq> 0"
  defines "t \<equiv> BinaryTree_new type (2 ^ Suc d) start stride"
  shows "(\<exists>n. bt_node_list t c = Some n \<and> nd_parent n = Some x) \<longleftrightarrow>
    (\<exists>n. bt_node_list t x = Some n \<and> (nd_left_child n = Some c \<or> nd_right_child n = Some c))"
  unfolding t_def node_list_entry [OF assms(1)]
  using child_entry [of x _ None] parent_entry [of c _ None] unfolding tree_entries_def by blast

section \<open>Properties\<close>

text \<open>
  The links of a tree. In a tree with \<open>2 ^ (d + 1)\<close> nodes, numbered
  \<open>start + k * stride\<close>, a node is the left or right child of another exactly when that node
  is its parent, and the only root is the last node (\<^verbatim>\<open>RootMax\<close>) or the first (\<^verbatim>\<open>RootMin\<close>).
\<close>

theorem BinaryTree_links:
  assumes "0 < stride" and "0 \<le> start" and "k < 2 ^ Suc d" and "j < 2 ^ Suc d"
    and "t = BinaryTree_new type (2 ^ Suc d) start stride"
  shows "(get_parent_id t (start + int k * stride) = Inr (start + int j * stride) \<longleftrightarrow>
      get_left_child_id t (start + int j * stride) = Inr (start + int k * stride) \<or>
      get_right_child_id t (start + int j * stride) = Inr (start + int k * stride)) \<and>
    (get_node_type t (start + int k * stride) = Inr RootNode \<longleftrightarrow>
      (case type of RootMax \<Rightarrow> k = 2 ^ Suc d - 1 | RootMin \<Rightarrow> k = 0))"
proof -
  have stride: "stride \<noteq> 0" using assms(1) by simp
  have nn: "0 \<le> start + int m * stride" for m using assms(1,2) by simp
  have "get_parent_id t (start + int k * stride) = Inr (start + int j * stride) \<longleftrightarrow>
      get_left_child_id t (start + int j * stride) = Inr (start + int k * stride) \<or>
      get_right_child_id t (start + int j * stride) = Inr (start + int k * stride)"
    unfolding get_parent_id_def get_left_child_id_def get_right_child_id_def link_query [OF refl nn]
    using parent_child_iff [OF stride, of type d start "start + int k * stride" "start + int j * stride"]
    unfolding assms(5) by blast
  moreover have "get_node_type t (start + int k * stride) = Inr RootNode \<longleftrightarrow>
      nd_parent (snd (tree_entries t ! k)) = None"
    using tree_entries_nth(1) [OF stride assms(3), of type start]
    unfolding assms(5) by (simp add: get_node_type_def node_at_def del: power_Suc)
  ultimately show ?thesis
    using tree_entries_split(1) [OF assms(3), of type start stride] assms(5) by simp
qed

theorem BinaryTree_links_witness:
  "get_parent_id (BinaryTree_new RootMax 4 0 1) 0 = Inr 1 \<and>
   get_left_child_id (BinaryTree_new RootMax 4 0 1) 1 = Inr 0 \<and>
   get_node_type (BinaryTree_new RootMax 4 0 1) 3 = Inr RootNode"
proof -
  have p: "get_parent_id (BinaryTree_new RootMax 4 0 1) 0 = Inr 1"
    and r: "get_right_child_id (BinaryTree_new RootMax 4 0 1) 1 \<noteq> Inr 0" by code_simp+
  from p r BinaryTree_links [of 1 0 0 1 1 _ RootMax] BinaryTree_links [of 1 0 3 1 3 _ RootMax]
  show ?thesis by (simp add: numeral_eq_Suc)
qed

text \<open>
  The two trees complement each other. In the pair of trees over \<open>2 ^ (d + 1)\<close> nodes
  every node is a leaf of exactly one tree: of \<^verbatim>\<open>DBMAX\<close> at even positions, of \<^verbatim>\<open>DBMIN\<close> at odd
  positions; no query on a node of the group fails.
\<close>

theorem double_tree_leaves:
  assumes "stride \<noteq> 0" and "k < 2 ^ Suc d" and "db = DoubleBinaryTreeTopology_new (2 ^ Suc d) start stride"
  shows "(get_node_type (db_DBMAX db) (start + int k * stride) = Inr LeafNode \<longleftrightarrow> even k) \<and>
    (get_node_type (db_DBMIN db) (start + int k * stride) = Inr LeafNode \<longleftrightarrow> odd k)"
proof -
  have leaf: "get_node_type (BinaryTree_new type (2 ^ Suc d) start stride) (start + int k * stride) = Inr LeafNode
    \<longleftrightarrow> (case type of RootMax \<Rightarrow> even k | RootMin \<Rightarrow> odd k)" for type
    using tree_entries_nth(1) [OF assms(1,2), of type start]
      tree_entries_split [OF assms(2), of type start stride]
    by (cases type) (auto simp: get_node_type_def node_at_def is_leaf_entry_def simp del: power_Suc)
  show ?thesis
    using leaf [of RootMax] leaf [of RootMin]
    by (simp add: assms(3) DoubleBinaryTreeTopology_new_def del: power_Suc)
qed

theorem double_tree_leaves_witness:
  "get_node_type (db_DBMAX (DoubleBinaryTreeTopology_new 8 5 3)) 17 = Inr LeafNode"
  using double_tree_leaves [of 3 4 2 _ 5] by simp

text \<open>
  Sizes that are not a power of two. The depth loop rounds down to a power of two, so
  of the \<open>n\<close> nodes of the group only the first \<open>2 ^ (d + 1)\<close> are in the tree; for any other node
  the queries dereference a null pointer.
\<close>

theorem BinaryTree_missing_nodes:
  assumes "2 ^ Suc d \<le> n" and "n < 2 ^ Suc (Suc d)" and "0 < stride"
    and "2 ^ Suc d \<le> k"
  shows "get_parent_id (BinaryTree_new type n start stride) (start + int k * stride)
    = Inl (NullDeref ''node_list[id]'')"
proof -
  have "bt_node_list (BinaryTree_new type n start stride)
      = bt_node_list (BinaryTree_new type (2 ^ Suc d) start stride)"
    using tree_depth_range [OF assms(1,2)] tree_depth_power [of "Suc d"]
    by (simp add: BinaryTree_new_def Let_def split_beta del: power_Suc)
  moreover have "start + int k * stride \<notin> (\<lambda>k. start + int k * stride) ` {..<2 ^ Suc d}"
    using assms(3,4) by (auto simp del: power_Suc)
  ultimately show ?thesis
    by (simp add: get_parent_id_def node_at_def tree_entry_absent del: power_Suc)
qed

theorem BinaryTree_missing_nodes_witness:
  "get_parent_id (BinaryTree_new RootMax 6 0 1) 5 = Inl (NullDeref ''node_list[id]'')"
  using BinaryTree_missing_nodes [of 1 6 1 5 RootMax 0] by simp

lemma get_topology_iter:
  "((\<lambda>d. snd (get_topology d)) ^^ j) db = db\<lparr>db_counter := db_counter db + j\<rparr>"
  by (induction j) (simp_all add: get_topology_def)

text \<open>
  Alternation. The successive calls of \<^verbatim>\<open>get_basic_topology_at_dimension\<close> on dimension
  0 return the two trees in turn, starting with \<^verbatim>\<open>DBMAX\<close>; every other dimension yields a null
  pointer.
\<close>

theorem double_tree_alternates:
  "fst (dbt_get_basic_topology_at_dimension dim
      (((\<lambda>d. snd (dbt_get_basic_topology_at_dimension 0 d)) ^^ j) (DoubleBinaryTreeTopology_new n start stride)))
    = (if dim \<noteq> 0 then None
       else Some (BinaryTree_new (if even j then RootMax else RootMin) n start stride))"
proof -
  have "(\<lambda>d. snd (dbt_get_basic_topology_at_dimension 0 d)) = (\<lambda>d. snd (get_topology d))"
    by (auto simp: dbt_get_basic_topology_at_dimension_def split_beta)
  then have iter: "((\<lambda>d. snd (dbt_get_basic_topology_at_dimension 0 d)) ^^ j) db
      = db\<lparr>db_counter := db_counter db + j\<rparr>" for db
    by (simp only: get_topology_iter)
  show ?thesis
    unfolding iter by (auto simp: dbt_get_basic_topology_at_dimension_def get_topology_def
        DoubleBinaryTreeTopology_new_def even_iff_mod_2_eq_zero)
qed

end
