(* ===== verification/Logical_Topologies.thy ===== *)
theory Logical_Topologies
  imports Ring_Topology Binary_Tree
begin

text \<open>
  The logical topologies that are built from rings and trees:
  \<^verbatim>\<open>GeneralComplexTopology.cc\<close>, \<^verbatim>\<open>Torus3D.cc\<close>, \<^verbatim>\<open>LocalRingGlobalBinaryTree.cc\<close> and
  \<^verbatim>\<open>LocalRingNodeA2AGlobalDBT.cc\<close>. The theorems say which nodes share a ring: those that agree
  in every other coordinate, and all of them build the same ring.
\<close>

section \<open>Data\<close>

datatype CollectiveImplType =
    ImplRing | OneRing | Direct | OneDirect | ImplAllToAll | DoubleBinaryTreeLocalAllToAll
  | ImplLocalRingNodeA2AGlobalDBT | HierarchicalRing | DoubleBinaryTree | HalvingDoubling
  | OneHalvingDoubling | CustomCollectiveImpl

text \<open>
  An implementation with the parameter its subclass adds: the window of a direct algorithm, the
  file name of a custom one.
\<close>

record CollectiveImpl =
  ci_type :: CollectiveImplType
  ci_direct_collective_window :: int
  ci_filename :: string

datatype BasicLogicalTopology = BasicRing RingTopology | BasicTree BinaryTree

text \<open>The elements of \<^verbatim>\<open>dimension_topology\<close>.\<close>

datatype LogicalTopology = DimRing RingTopology | DimDBT DoubleBinaryTreeTopology

fun lt_get_num_of_nodes_in_dimension :: "LogicalTopology \<Rightarrow> int \<Rightarrow> int" where
  "lt_get_num_of_nodes_in_dimension (DimRing r) dimension = ring_get_num_of_nodes_in_dimension r dimension"
| "lt_get_num_of_nodes_in_dimension (DimDBT d) dimension = dbt_get_num_of_nodes_in_dimension d"

fun lt_get_basic_topology_at_dimension ::
    "LogicalTopology \<Rightarrow> int \<Rightarrow> BasicLogicalTopology option \<times> LogicalTopology" where
  "lt_get_basic_topology_at_dimension (DimRing r) dimension = (Some (BasicRing r), DimRing r)"
| "lt_get_basic_topology_at_dimension (DimDBT d) dimension =
     (let (t, d') = dbt_get_basic_topology_at_dimension dimension d
      in (map_option BasicTree t, DimDBT d'))"

section \<open>GeneralComplexTopology\<close>

definition ring_in_dimension :: "int \<Rightarrow> int \<Rightarrow> int \<Rightarrow> RingTopology result" where
  "ring_in_dimension nid size_of_dim offset =
     (if offset * size_of_dim = 0 then Inl (DivisionByZero ''id % (offset * dimension_size[dim])'')
      else RingTopology_homogeneous DimNA nid size_of_dim
             (c_div (c_mod nid (offset * size_of_dim)) offset) offset)"

definition one_ring :: "int \<Rightarrow> int list \<Rightarrow> RingTopology result" where
  "one_ring nid dimension_size =
     (let total_npus = prod_list dimension_size in
      if total_npus = 0 then Inl (DivisionByZero ''id % total_npus'')
      else RingTopology_homogeneous DimNA nid total_npus (c_mod nid total_npus) 1)"

definition dbt_in_dimension :: "int \<Rightarrow> int \<Rightarrow> int \<Rightarrow> bool \<Rightarrow> DoubleBinaryTreeTopology result" where
  "dbt_in_dimension nid size_of_dim offset is_last =
     (if offset = 0 \<or> \<not> is_last \<and> offset * size_of_dim = 0 then Inl (DivisionByZero ''id % offset'')
      else Inr (DoubleBinaryTreeTopology_new size_of_dim
             (if is_last then c_mod nid offset
              else (nid - c_mod nid (offset * size_of_dim)) + c_mod nid offset) offset))"

text \<open>
  The loop over the dimensions; the lists are the rest of \<^verbatim>\<open>collective_impl\<close> and the sizes
  from the current dimension on, \<open>all_sizes\<close> is the whole \<^verbatim>\<open>dimension_size\<close>.
\<close>

fun complex_loop ::
    "int \<Rightarrow> int list \<Rightarrow> CollectiveImplType list \<Rightarrow> int list \<Rightarrow> int \<Rightarrow> LogicalTopology list \<Rightarrow>
     LogicalTopology list result" where
  "complex_loop nid all_sizes [] sizes offset acc = Inr acc"
| "complex_loop nid all_sizes (ty # impls) [] offset acc = Inl (OutOfRange ''dimension_size[dim]'')"
| "complex_loop nid all_sizes (ty # impls) (sz # sizes) offset acc =
     (if ty = ImplRing \<or> ty = Direct \<or> ty = HalvingDoubling \<or> ty = CustomCollectiveImpl then
        rbind (ring_in_dimension nid sz offset) (\<lambda>r.
          complex_loop nid all_sizes impls sizes (offset * sz) (acc @ [DimRing r]))
      else if ty = OneRing \<or> ty = OneDirect \<or> ty = OneHalvingDoubling then
        rbind (one_ring nid all_sizes) (\<lambda>r. Inr (acc @ [DimRing r]))
      else if ty = DoubleBinaryTree then
        rbind (dbt_in_dimension nid sz offset (impls = [])) (\<lambda>d.
          complex_loop nid all_sizes impls sizes (offset * sz) (acc @ [DimDBT d]))
      else complex_loop nid all_sizes impls sizes (offset * sz) acc)"

definition GeneralComplexTopology_new ::
    "int \<Rightarrow> int list \<Rightarrow> CollectiveImplType list \<Rightarrow> LogicalTopology list result" where
  "GeneralComplexTopology_new nid dimension_size collective_impl =
     rbind (assert_that (length collective_impl \<le> length dimension_size)
              ''collective_impl.size() <= dimension_size.size()'') (\<lambda>_.
       complex_loop nid dimension_size collective_impl dimension_size 1 [])"

definition gc_get_num_of_dimensions :: "LogicalTopology list \<Rightarrow> int" where
  "gc_get_num_of_dimensions dimension_topology = int (length dimension_topology)"

definition gc_get_num_of_nodes_in_dimension :: "LogicalTopology list \<Rightarrow> int \<Rightarrow> int result" where
  "gc_get_num_of_nodes_in_dimension dimension_topology dimension =
     rbind (assert_that (0 \<le> dimension \<and> dimension < int (length dimension_topology))
              ''dimension < dimension_topology.size()'') (\<lambda>_.
       Inr (lt_get_num_of_nodes_in_dimension (dimension_topology ! nat dimension) 0))"

definition gc_get_basic_topology_at_dimension ::
    "LogicalTopology list \<Rightarrow> int \<Rightarrow> (BasicLogicalTopology option \<times> LogicalTopology list) result" where
  "gc_get_basic_topology_at_dimension dimension_topology dimension =
     (if 0 \<le> dimension \<and> dimension < int (length dimension_topology)
      then (let (b, t) = lt_get_basic_topology_at_dimension (dimension_topology ! nat dimension) 0
            in Inr (b, dimension_topology[nat dimension := t]))
      else Inl (OutOfRange ''dimension_topology[dimension]''))"

section \<open>Torus3D\<close>

record Torus3D =
  t3_local_dimension :: RingTopology
  t3_vertical_dimension :: RingTopology
  t3_horizontal_dimension :: RingTopology

definition Torus3D_new :: "int \<Rightarrow> int \<Rightarrow> int \<Rightarrow> int \<Rightarrow> Torus3D result" where
  "Torus3D_new nid total_nodes local_dim vertical_dim =
     (if vertical_dim * local_dim = 0 then Inl (DivisionByZero ''vertical_dim * local_dim'')
      else (let horizontal_dim = c_div total_nodes (vertical_dim * local_dim) in
        rbind (RingTopology_homogeneous DimLocal nid local_dim (c_mod nid local_dim) 1) (\<lambda>l.
        if local_dim * horizontal_dim = 0 then Inl (DivisionByZero ''local_dim * horizontal_dim'')
        else
          rbind (RingTopology_homogeneous DimVertical nid vertical_dim
                   (c_div nid (local_dim * horizontal_dim)) (local_dim * horizontal_dim)) (\<lambda>v.
          rbind (RingTopology_homogeneous DimHorizontal nid horizontal_dim
                   (c_mod (c_div nid local_dim) horizontal_dim) local_dim) (\<lambda>h.
            Inr \<lparr>t3_local_dimension = l, t3_vertical_dimension = v, t3_horizontal_dimension = h\<rparr>)))))"

definition torus_get_num_of_nodes_in_dimension :: "Torus3D \<Rightarrow> int \<Rightarrow> int" where
  "torus_get_num_of_nodes_in_dimension t dimension =
     (if dimension = 0 then ring_get_num_of_nodes_in_dimension (t3_local_dimension t) 0
      else if dimension = 1 then ring_get_num_of_nodes_in_dimension (t3_vertical_dimension t) 0
      else if dimension = 2 then ring_get_num_of_nodes_in_dimension (t3_horizontal_dimension t) 0
      else -1)"

definition torus_get_basic_topology_at_dimension :: "Torus3D \<Rightarrow> int \<Rightarrow> BasicLogicalTopology option" where
  "torus_get_basic_topology_at_dimension t dimension =
     (if dimension = 0 then Some (BasicRing (t3_local_dimension t))
      else if dimension = 1 then Some (BasicRing (t3_vertical_dimension t))
      else if dimension = 2 then Some (BasicRing (t3_horizontal_dimension t))
      else None)"

section \<open>LocalRingGlobalBinaryTree\<close>

record LocalRingGlobalBinaryTree =
  lg_local_dimension :: RingTopology
  lg_global_dimension_other :: RingTopology
  lg_global_dimension_all_reduce :: BinaryTree

definition LocalRingGlobalBinaryTree_new ::
    "int \<Rightarrow> int \<Rightarrow> TreeType \<Rightarrow> int \<Rightarrow> int \<Rightarrow> int \<Rightarrow> LocalRingGlobalBinaryTree result" where
  "LocalRingGlobalBinaryTree_new nid local_dim tree_type total_tree_nodes start stride =
     (if local_dim = 0 then Inl (DivisionByZero ''id % local_dim'')
      else
        rbind (RingTopology_homogeneous DimLocal nid local_dim (c_mod nid local_dim) 1) (\<lambda>l.
        rbind (RingTopology_homogeneous DimHorizontal nid total_tree_nodes (c_div nid local_dim) local_dim) (\<lambda>g.
          Inr \<lparr>lg_local_dimension = l, lg_global_dimension_other = g,
               lg_global_dimension_all_reduce = BinaryTree_new tree_type total_tree_nodes start stride\<rparr>)))"

definition lg_get_num_of_nodes_in_dimension :: "LocalRingGlobalBinaryTree \<Rightarrow> int \<Rightarrow> int" where
  "lg_get_num_of_nodes_in_dimension t dimension =
     (if dimension = 0 then ring_get_num_of_nodes_in_dimension (lg_local_dimension t) 0
      else if dimension = 1 then 1
      else if dimension = 2 then bt_get_num_of_nodes_in_dimension (lg_global_dimension_all_reduce t)
      else -1)"

definition lg_get_basic_topology_at_dimension ::
    "LocalRingGlobalBinaryTree \<Rightarrow> int \<Rightarrow> ComType \<Rightarrow> BasicLogicalTopology option" where
  "lg_get_basic_topology_at_dimension t dimension type =
     (if dimension = 0 then Some (BasicRing (lg_local_dimension t))
      else if dimension = 1 then None
      else if dimension = 2 then
        (if type = All_Reduce then Some (BasicTree (lg_global_dimension_all_reduce t))
         else Some (BasicRing (lg_global_dimension_other t)))
      else None)"

section \<open>LocalRingNodeA2AGlobalDBT\<close>

record LocalRingNodeA2AGlobalDBT =
  ld_local_dimension :: RingTopology
  ld_node_dimension :: RingTopology
  ld_global_dimension_other :: RingTopology
  ld_global_dimension_all_reduce :: DoubleBinaryTreeTopology

definition LocalRingNodeA2AGlobalDBT_new ::
    "int \<Rightarrow> int \<Rightarrow> int \<Rightarrow> int \<Rightarrow> int \<Rightarrow> int \<Rightarrow> LocalRingNodeA2AGlobalDBT result" where
  "LocalRingNodeA2AGlobalDBT_new nid local_dim node_dim total_tree_nodes start stride =
     (if local_dim * node_dim = 0 then Inl (DivisionByZero ''id / (local_dim * node_dim)'')
      else
        rbind (RingTopology_homogeneous DimVertical nid total_tree_nodes
                 (c_div nid (local_dim * node_dim)) (local_dim * node_dim)) (\<lambda>g.
        rbind (RingTopology_homogeneous DimLocal nid local_dim (c_mod nid local_dim) 1) (\<lambda>l.
        rbind (RingTopology_homogeneous DimHorizontal nid node_dim
                 (c_div (c_mod nid (local_dim * node_dim)) local_dim) local_dim) (\<lambda>n.
          Inr \<lparr>ld_local_dimension = l, ld_node_dimension = n, ld_global_dimension_other = g,
               ld_global_dimension_all_reduce =
                 DoubleBinaryTreeTopology_new total_tree_nodes start stride\<rparr>))))"

definition ld_get_num_of_nodes_in_dimension :: "LocalRingNodeA2AGlobalDBT \<Rightarrow> int \<Rightarrow> int" where
  "ld_get_num_of_nodes_in_dimension t dimension =
     (if dimension = 0 then ring_get_num_of_nodes_in_dimension (ld_local_dimension t) 0
      else if dimension = 1 then ring_get_num_of_nodes_in_dimension (ld_node_dimension t) 0
      else if dimension = 2 then ring_get_num_of_nodes_in_dimension (ld_global_dimension_other t) 0
      else -1)"

text \<open>
  In dimension 2 the request for an all-reduce is passed on with the argument 2 to a topology
  that has one dimension only.
\<close>

definition ld_get_basic_topology_at_dimension ::
    "LocalRingNodeA2AGlobalDBT \<Rightarrow> int \<Rightarrow> ComType \<Rightarrow> BasicLogicalTopology option \<times> LocalRingNodeA2AGlobalDBT" where
  "ld_get_basic_topology_at_dimension t dimension type =
     (if dimension = 0 then (Some (BasicRing (ld_local_dimension t)), t)
      else if dimension = 1 then (Some (BasicRing (ld_node_dimension t)), t)
      else if dimension = 2 then
        (if type = All_Reduce
         then (let (b, d) = dbt_get_basic_topology_at_dimension 2 (ld_global_dimension_all_reduce t)
               in (map_option BasicTree b, t\<lparr>ld_global_dimension_all_reduce := d\<rparr>))
         else (Some (BasicRing (ld_global_dimension_other t)), t))
      else (None, t))"

section \<open>Rings with a stride\<close>

text \<open>
  The ring of node \<open>nid\<close> in a dimension of size \<open>sz\<close> and stride \<open>offset\<close>: the nodes that
  agree with it below the stride and above the dimension.
\<close>

definition stride_class :: "int \<Rightarrow> int \<Rightarrow> int \<Rightarrow> int set" where
  "stride_class nid sz offset =
     {x. 0 \<le> x \<and> x mod offset = nid mod offset \<and> x div (offset * sz) = nid div (offset * sz)}"

definition stride_base :: "int \<Rightarrow> int \<Rightarrow> int \<Rightarrow> int" where
  "stride_base nid sz offset = (nid div (offset * sz)) * (offset * sz) + nid mod offset"

definition stride_ring :: "int \<Rightarrow> int \<Rightarrow> int \<Rightarrow> RingTopology \<Rightarrow> bool" where
  "stride_ring nid sz offset r \<longleftrightarrow> ring_wf r \<and> rt_id r = nid \<and> ring_size r = nat sz \<and>
     (\<forall>k < nat sz. ring_at r k = stride_base nid sz offset + int k * offset)"

lemma stride_position:
  assumes "0 < offset" and "0 < sz" and "0 \<le> k" and "k < sz"
  shows "(stride_base nid sz offset + k * offset) mod offset = nid mod offset"
    "(stride_base nid sz offset + k * offset) div (offset * sz) = nid div (offset * sz)"
    "((stride_base nid sz offset + k * offset) mod (offset * sz)) div offset = k"
proof -
  let ?m = "nid mod offset" and ?q = "nid div (offset * sz)"
  have m: "0 \<le> ?m" "?m < offset" using assms(1) by simp_all
  have "k * offset + ?m < (k + 1) * offset" using m by (simp add: algebra_simps)
  also have "\<dots> \<le> sz * offset" using assms by (intro mult_right_mono) auto
  finally have low: "k * offset + ?m < offset * sz" by (simp add: mult.commute)
  have nonneg: "0 \<le> k * offset + ?m" using assms m by simp
  have x: "stride_base nid sz offset + k * offset = ?q * (offset * sz) + (k * offset + ?m)"
    by (simp add: stride_base_def)
  have os: "0 < offset * sz" using assms by simp
  show "(stride_base nid sz offset + k * offset) div (offset * sz) = ?q"
    unfolding x by (rule int_div_mult_eq(1) [OF os nonneg low])
  have "(stride_base nid sz offset + k * offset) mod (offset * sz) = k * offset + ?m"
    unfolding x by (rule int_div_mult_eq(2) [OF os nonneg low])
  then show "((stride_base nid sz offset + k * offset) mod (offset * sz)) div offset = k"
    using int_div_mult_eq(1) [OF assms(1) m, of k] by simp
  have "stride_base nid sz offset + k * offset = (?q * sz + k) * offset + ?m"
    by (simp add: stride_base_def algebra_simps)
  then show "(stride_base nid sz offset + k * offset) mod offset = nid mod offset"
    using int_div_mult_eq(2) [OF assms(1) m, of "?q * sz + k"] by simp
qed

lemma stride_decompose:
  assumes "0 < offset" and "0 < sz"
  shows "x = stride_base x sz offset + ((x mod (offset * sz)) div offset) * offset"
    and "0 \<le> (x mod (offset * sz)) div offset" "(x mod (offset * sz)) div offset < sz"
proof -
  have os: "0 < offset * sz" using assms by simp
  have "x mod offset = (x mod (offset * sz)) mod offset" by (simp add: mod_mod_cancel)
  then show "x = stride_base x sz offset + ((x mod (offset * sz)) div offset) * offset"
    using mod_div_mult_eq [of x "offset * sz"] by (simp add: stride_base_def)
  show "0 \<le> (x mod (offset * sz)) div offset" using assms os by (simp add: pos_imp_zdiv_nonneg_iff)
  have "x mod (offset * sz) < sz * offset" using os by (simp add: mult.commute)
  moreover have "((x mod (offset * sz)) div offset) * offset \<le> x mod (offset * sz)"
    using mod_div_mult_eq [of "x mod (offset * sz)" offset] pos_mod_sign [OF assms(1)]
    by (metis add.commute le_add_same_cancel1)
  ultimately have "((x mod (offset * sz)) div offset) * offset < sz * offset" by linarith
  then show "(x mod (offset * sz)) div offset < sz" using assms(1) by simp
qed

lemma stride_base_class: "x \<in> stride_class nid sz offset \<Longrightarrow> stride_base x sz offset = stride_base nid sz offset"
  by (simp add: stride_class_def stride_base_def)

lemma stride_base_nonneg: "0 < offset \<Longrightarrow> 0 < sz \<Longrightarrow> 0 \<le> nid \<Longrightarrow> 0 \<le> stride_base nid sz offset"
  by (simp add: stride_base_def pos_imp_zdiv_nonneg_iff)

lemma stride_ring_members:
  assumes "stride_ring nid sz offset r" and "0 < offset" and "0 < sz" and "0 \<le> nid"
  shows "ring_members r = stride_class nid sz offset"
proof -
  have "ring_members r = (\<lambda>k. stride_base nid sz offset + int k * offset) ` {..<nat sz}"
    using assms(1) by (auto simp: stride_ring_def ring_members_image)
  also have "\<dots> = stride_class nid sz offset"
  proof (intro set_eqI iffI)
    fix x
    assume "x \<in> (\<lambda>k. stride_base nid sz offset + int k * offset) ` {..<nat sz}"
    then obtain k where "k < nat sz" "x = stride_base nid sz offset + int k * offset" by blast
    with stride_position [OF assms(2,3), of "int k" nid] stride_base_nonneg [OF assms(2,3,4)] assms(2)
    show "x \<in> stride_class nid sz offset" by (simp add: stride_class_def)
  next
    fix x
    assume x: "x \<in> stride_class nid sz offset"
    let ?k = "(x mod (offset * sz)) div offset"
    from stride_decompose [OF assms(2,3), of x] stride_base_class [OF x]
    show "x \<in> (\<lambda>k. stride_base nid sz offset + int k * offset) ` {..<nat sz}"
      by (intro image_eqI [of _ _ "nat ?k"]) auto
  qed
  finally show ?thesis .
qed

lemma stride_ring_built:
  assumes "0 < offset" and "0 < sz" and "0 \<le> nid"
  shows "\<exists>r. RingTopology_homogeneous dim nid sz ((nid mod (offset * sz)) div offset) offset = Inr r \<and>
    stride_ring nid sz offset r"
proof -
  let ?k = "(nid mod (offset * sz)) div offset" and ?b = "stride_base nid sz offset"
  note dec = stride_decompose [OF assms(1,2), of nid]
  from ring_homogeneous_built [OF assms(1) dec(2,3) stride_base_nonneg [OF assms], of dim] dec(1)
  obtain r where r: "RingTopology_homogeneous dim nid sz ?k offset = Inr r"
    "partial_ring ?b offset {0..<sz} r"
    "ring_params r = (ring_name dim, nid, offset, sz, ?k, dim)" by auto
  then have f: "rt_total_nodes_in_ring r = sz" "rt_index_in_ring r = ?k" "rt_id r = nid"
    by (simp_all add: ring_params_def)
  have "ring_wf r" "\<forall>k < nat sz. ring_at r k = ?b + int k * offset"
    using partial_ring_full [OF r(2) f(1)] f dec by (simp_all add: ring_size_def)
  with f r(1) show ?thesis by (auto simp: stride_ring_def ring_size_def)
qed

text \<open>All nodes of a class build the same ring.\<close>

lemma stride_ring_agree:
  assumes "stride_ring nid sz offset r" and "stride_ring nid' sz offset r'"
    and "0 < offset" and "0 < sz" and "0 \<le> nid" and "nid' \<in> stride_class nid sz offset"
    and "x \<in> stride_class nid sz offset"
  shows "get_receiver r' x d = get_receiver r x d" "get_sender r' x d = get_sender r x d"
proof -
  have "\<forall>k < ring_size r. ring_at r' k = ring_at r k"
    using assms(1,2) stride_base_class [OF assms(6)] by (simp add: stride_ring_def)
  moreover have "x \<in> ring_members r" using stride_ring_members [OF assms(1,3,4,5)] assms(7) by simp
  ultimately show "get_receiver r' x d = get_receiver r x d" "get_sender r' x d = get_sender r x d"
    using ring_copies_agree [of r r' x] assms(1,2) by (simp_all add: stride_ring_def)
qed

lemma ring_in_dimension_ok:
  assumes "0 < offset" and "0 < sz" and "0 \<le> nid"
  shows "\<exists>r. ring_in_dimension nid sz offset = Inr r \<and> stride_ring nid sz offset r"
  using stride_ring_built [OF assms, of DimNA] assms by (simp add: ring_in_dimension_def)

section \<open>The dimensions of a complex topology\<close>

definition ring_impl :: "CollectiveImplType \<Rightarrow> bool" where
  "ring_impl ty \<longleftrightarrow> ty = ImplRing \<or> ty = Direct \<or> ty = HalvingDoubling \<or> ty = CustomCollectiveImpl"

lemma complex_loop_rings:
  assumes "\<forall>ty\<in>set impls. ring_impl ty" and "length impls \<le> length sizes" and "\<forall>sz\<in>set sizes. 0 < sz"
    and "0 \<le> nid" and "0 < offset"
  shows "\<exists>rs. complex_loop nid all_sizes impls sizes offset acc = Inr (acc @ map DimRing rs) \<and>
    length rs = length impls \<and>
    (\<forall>d < length impls. stride_ring nid (sizes ! d) (offset * prod_list (take d sizes)) (rs ! d))"
  using assms
proof (induction impls arbitrary: sizes offset acc)
  case Nil
  then show ?case by simp
next
  case (Cons ty impls)
  then obtain sz rest where sizes: "sizes = sz # rest" by (cases sizes) auto
  obtain r where r: "ring_in_dimension nid sz offset = Inr r" "stride_ring nid sz offset r"
    using ring_in_dimension_ok [of offset sz nid] Cons.prems sizes by auto
  obtain rs where rs: "complex_loop nid all_sizes impls rest (offset * sz) (acc @ [DimRing r])
      = Inr ((acc @ [DimRing r]) @ map DimRing rs)" "length rs = length impls"
    "\<forall>d < length impls. stride_ring nid (rest ! d) (offset * sz * prod_list (take d rest)) (rs ! d)"
    using Cons.IH [of rest "offset * sz" "acc @ [DimRing r]"] Cons.prems sizes by auto
  have "complex_loop nid all_sizes (ty # impls) sizes offset acc = Inr (acc @ map DimRing (r # rs))"
    using Cons.prems(1) r(1) rs(1) sizes by (simp add: ring_impl_def)
  moreover have "stride_ring nid (sizes ! d) (offset * prod_list (take d sizes)) ((r # rs) ! d)"
    if "d < length (ty # impls)" for d
    using that r(2) rs(3) sizes by (cases d) (simp_all add: mult.assoc)
  ultimately show ?case using rs(2) by (intro exI [of _ "r # rs"]) simp
qed

lemma complex_rings_built:
  assumes "\<forall>ty\<in>set impls. ring_impl ty" and "length impls \<le> length sizes" and "\<forall>sz\<in>set sizes. 0 < sz"
    and "0 \<le> nid"
  shows "\<exists>rs. GeneralComplexTopology_new nid sizes impls = Inr (map DimRing rs) \<and> length rs = length impls \<and>
    (\<forall>d < length impls. stride_ring nid (sizes ! d) (prod_list (take d sizes)) (rs ! d))"
  using complex_loop_rings [OF assms, of 1 sizes "[]"] assms(2)
  by (simp add: GeneralComplexTopology_new_def)

lemma prod_take_pos: "\<forall>sz\<in>set sizes. 0 < sz \<Longrightarrow> 0 < prod_list (take d sizes :: int list)"
  by (induction sizes arbitrary: d) (auto simp: take_Cons split: nat.split)

section \<open>Properties\<close>

text \<open>
  \<^bold>\<open>C23\<close>. Rings of a multi-dimensional topology. With a ring-based algorithm in every dimension
  the constructor succeeds with one ring per dimension; the ring of dimension \<open>d\<close> has as many
  nodes as the dimension and consists of the nodes that agree with \<open>nid\<close> in all lower
  coordinates (modulo the product of the lower sizes) and in all higher ones.
\<close>

theorem complex_topology_rings:
  assumes "\<forall>ty\<in>set impls. ring_impl ty" and "length impls \<le> length sizes" and "\<forall>sz\<in>set sizes. 0 < sz"
    and "0 \<le> nid"
  shows "\<exists>ts. GeneralComplexTopology_new nid sizes impls = Inr ts \<and>
    gc_get_num_of_dimensions ts = int (length impls) \<and>
    (\<forall>d < length impls. gc_get_num_of_nodes_in_dimension ts (int d) = Inr (sizes ! d) \<and>
      (\<exists>r. gc_get_basic_topology_at_dimension ts (int d) = Inr (Some (BasicRing r), ts) \<and> ring_wf r \<and>
        ring_members r = {x. 0 \<le> x \<and>
          x mod prod_list (take d sizes) = nid mod prod_list (take d sizes) \<and>
          x div prod_list (take (Suc d) sizes) = nid div prod_list (take (Suc d) sizes)}))"
proof -
  obtain rs where rs: "GeneralComplexTopology_new nid sizes impls = Inr (map DimRing rs)"
    "length rs = length impls"
    "\<forall>d < length impls. stride_ring nid (sizes ! d) (prod_list (take d sizes)) (rs ! d)"
    using complex_rings_built [OF assms] by blast
  let ?ts = "map DimRing rs"
  have each: "gc_get_num_of_nodes_in_dimension ?ts (int d) = Inr (sizes ! d) \<and>
      (\<exists>r. gc_get_basic_topology_at_dimension ?ts (int d) = Inr (Some (BasicRing r), ?ts) \<and> ring_wf r \<and>
        ring_members r = {x. 0 \<le> x \<and>
          x mod prod_list (take d sizes) = nid mod prod_list (take d sizes) \<and>
          x div prod_list (take (Suc d) sizes) = nid div prod_list (take (Suc d) sizes)})"
    if d: "d < length impls" for d
  proof -
    have s: "stride_ring nid (sizes ! d) (prod_list (take d sizes)) (rs ! d)" using rs(3) d by blast
    have d': "d < length sizes" using d assms(2) by simp
    have pos: "0 < sizes ! d" using assms(3) d' by simp
    have "prod_list (take (Suc d) sizes) = prod_list (take d sizes) * sizes ! d"
      using d' by (simp add: take_Suc_conv_app_nth)
    with stride_ring_members [OF s prod_take_pos [OF assms(3)] pos assms(4)]
    have "ring_members (rs ! d) = {x. 0 \<le> x \<and>
          x mod prod_list (take d sizes) = nid mod prod_list (take d sizes) \<and>
          x div prod_list (take (Suc d) sizes) = nid div prod_list (take (Suc d) sizes)}"
      by (simp add: stride_class_def)
    moreover have "?ts[d := DimRing (rs ! d)] = ?ts"
      using d rs(2) by (metis length_map list_update_id nth_map)
    moreover have "rt_total_nodes_in_ring (rs ! d) = sizes ! d"
      using s pos ring_wf_size [of "rs ! d"] by (auto simp: stride_ring_def)
    ultimately show ?thesis
      using d rs(2) s by (simp add: gc_get_num_of_nodes_in_dimension_def gc_get_basic_topology_at_dimension_def
          ring_get_num_of_nodes_in_dimension_def get_nodes_in_ring_def stride_ring_def)
  qed
  with rs(1,2) show ?thesis by (auto simp: gc_get_num_of_dimensions_def)
qed

theorem complex_topology_rings_witness:
  "\<exists>ts r. GeneralComplexTopology_new 7 [2, 4, 2] [ImplRing, Direct, HalvingDoubling] = Inr ts \<and>
     gc_get_basic_topology_at_dimension ts 1 = Inr (Some (BasicRing r), ts) \<and> 5 \<in> ring_members r"
proof -
  have p: "\<forall>ty\<in>set [ImplRing, Direct, HalvingDoubling]. ring_impl ty"
    "length [ImplRing, Direct, HalvingDoubling] \<le> length [2, 4, 2 :: int]"
    "\<forall>sz\<in>set [2, 4, 2]. (0::int) < sz" "(0::int) \<le> 7" "1 < length [ImplRing, Direct, HalvingDoubling]"
    by (simp_all add: ring_impl_def)
  from complex_topology_rings [OF p(1-4)] p(5) obtain ts r where
    "GeneralComplexTopology_new 7 [2, 4, 2] [ImplRing, Direct, HalvingDoubling] = Inr ts"
    "gc_get_basic_topology_at_dimension ts (int 1) = Inr (Some (BasicRing r), ts)"
    "ring_members r = {x. 0 \<le> x \<and> x mod prod_list (take 1 [2, 4, 2]) = 7 mod prod_list (take 1 [2, 4, 2]) \<and>
       x div prod_list (take (Suc 1) [2, 4, 2]) = 7 div prod_list (take (Suc 1) [2, 4, 2])}"
    by blast
  then show ?thesis by auto
qed

text \<open>
  \<^bold>\<open>C24\<close>. Agreement of the nodes. If node \<open>nid'\<close> is in the ring that node \<open>nid\<close> builds for
  dimension \<open>d\<close>, then the ring that \<open>nid'\<close> builds itself gives every member of that ring the same
  receiver and sender, so the nodes of a phase never address each other inconsistently.
\<close>

theorem complex_topology_agrees:
  assumes "\<forall>ty\<in>set impls. ring_impl ty" and "length impls \<le> length sizes" and "\<forall>sz\<in>set sizes. 0 < sz"
    and "0 \<le> nid" and "d < length impls"
    and "GeneralComplexTopology_new nid sizes impls = Inr ts" and "ts ! d = DimRing r"
    and "nid' \<in> ring_members r" and "x \<in> ring_members r"
  shows "\<exists>ts' r'. GeneralComplexTopology_new nid' sizes impls = Inr ts' \<and> ts' ! d = DimRing r' \<and>
    get_receiver r' x dir = get_receiver r x dir \<and> get_sender r' x dir = get_sender r x dir"
proof -
  let ?o = "prod_list (take d sizes)"
  have pos: "0 < sizes ! d" "0 < ?o" using assms(2,3,5) prod_take_pos by auto
  obtain rs where rs: "GeneralComplexTopology_new nid sizes impls = Inr (map DimRing rs)"
    "length rs = length impls" "\<forall>d < length impls. stride_ring nid (sizes ! d) (prod_list (take d sizes)) (rs ! d)"
    using complex_rings_built [OF assms(1-4)] by blast
  have r: "rs ! d = r" using rs(1,2) assms(5,6,7) by auto
  then have s: "stride_ring nid (sizes ! d) ?o r" using rs(3) assms(5) by auto
  have mem: "nid' \<in> stride_class nid (sizes ! d) ?o" "x \<in> stride_class nid (sizes ! d) ?o"
    using stride_ring_members [OF s pos(2,1) assms(4)] assms(8,9) by auto
  then have "0 \<le> nid'" by (simp add: stride_class_def)
  then obtain rs' where rs': "GeneralComplexTopology_new nid' sizes impls = Inr (map DimRing rs')"
    "length rs' = length impls" "stride_ring nid' (sizes ! d) ?o (rs' ! d)"
    using complex_rings_built [OF assms(1-3)] assms(5) by blast
  with stride_ring_agree [OF s rs'(3) pos(2,1) assms(4) mem] assms(5) show ?thesis by auto
qed

theorem complex_topology_agrees_witness:
  "\<exists>ts' r'. GeneralComplexTopology_new 5 [2, 4] [ImplRing, ImplRing] = Inr ts' \<and> ts' ! 1 = DimRing r' \<and>
     get_receiver r' 7 Clockwise = Inr 1"
proof -
  let ?res = "GeneralComplexTopology_new 7 [2, 4] [ImplRing, ImplRing]"
  let ?r = "case projr ?res ! 1 of DimRing r \<Rightarrow> r | DimDBT d \<Rightarrow> undefined"
  have res: "\<not> isl ?res" by code_simp
  have "case projr ?res ! 1 of DimRing r \<Rightarrow> 5 \<in> dom (rt_id_to_index r) \<and> 7 \<in> dom (rt_id_to_index r) \<and>
      get_receiver r 7 Clockwise = Inr 1 | DimDBT d \<Rightarrow> False" by code_simp
  then obtain r where r: "projr ?res ! 1 = DimRing r" "5 \<in> ring_members r" "7 \<in> ring_members r"
    "get_receiver r 7 Clockwise = Inr 1"
    by (auto simp: ring_members_def split: LogicalTopology.splits)
  from res have "?res = Inr (projr ?res)" by (simp add: sum.collapse(2))
  from complex_topology_agrees [OF _ _ _ _ _ this, of 1 r 5 7 Clockwise] r show ?thesis
    by (simp add: ring_impl_def) blast
qed

text \<open>
  The torus. For a node of a torus of \<open>l * v * h\<close> nodes the constructor succeeds; the
  local, vertical and horizontal ring contain the nodes that differ from it in the respective
  coordinate only.
\<close>

theorem Torus3D_rings:
  assumes "0 < l" and "0 < v" and "0 < h" and "0 \<le> nid" and "nid < l * v * h"
  shows "\<exists>t. Torus3D_new nid (l * v * h) l v = Inr t \<and>
    ring_members (t3_local_dimension t) = {x. 0 \<le> x \<and> x div l = nid div l} \<and>
    ring_members (t3_vertical_dimension t) = {x. 0 \<le> x \<and> x < l * v * h \<and> x mod (l * h) = nid mod (l * h)} \<and>
    ring_members (t3_horizontal_dimension t) =
      {x. 0 \<le> x \<and> x mod l = nid mod l \<and> x div (l * h) = nid div (l * h)} \<and>
    map (torus_get_num_of_nodes_in_dimension t) [0, 1, 2, 3] = [l, v, h, -1]"
proof -
  have tot: "l * v * h = (l * h) * v" by simp
  have hd: "c_div (l * v * h) (v * l) = h"
    using assms(1-3) by (simp add: mult.commute [of v l])
  have lh: "0 < l * h" using assms(1,3) by simp
  obtain rl where rl: "RingTopology_homogeneous DimLocal nid l (nid mod l) 1 = Inr rl" "stride_ring nid l 1 rl"
    using stride_ring_built [of 1 l nid DimLocal] assms by auto
  have "nid mod (l * h * v) = nid" using assms(4,5) by (simp add: tot)
  then obtain rv where rv: "RingTopology_homogeneous DimVertical nid v (nid div (l * h)) (l * h) = Inr rv"
      "stride_ring nid v (l * h) rv"
    using stride_ring_built [OF lh assms(2,4), of DimVertical] by auto
  have "nid mod (l * h) = (nid div l mod h) * l + nid mod l"
    using zmod_zmult2_eq [of h nid l] assms(3) by (simp add: mult.commute)
  then have "(nid mod (l * h)) div l = (nid div l) mod h"
    using int_div_mult_eq(1) [OF assms(1), of "nid mod l" "(nid div l) mod h"] assms(1)
    by simp
  then obtain rh where rh: "RingTopology_homogeneous DimHorizontal nid h ((nid div l) mod h) l = Inr rh"
      "stride_ring nid h l rh"
    using stride_ring_built [OF assms(1,3,4), of DimHorizontal] by auto
  let ?t = "\<lparr>t3_local_dimension = rl, t3_vertical_dimension = rv, t3_horizontal_dimension = rh\<rparr>"
  have "Torus3D_new nid (l * v * h) l v = Inr ?t"
    using assms lh rl(1) rv(1) rh(1) hd
    by (simp add: Torus3D_new_def pos_imp_zdiv_nonneg_iff Let_def)
  moreover have "ring_members rl = {x. 0 \<le> x \<and> x div l = nid div l}"
    using stride_ring_members [OF rl(2)] assms by (simp add: stride_class_def)
  moreover have "ring_members rv = {x. 0 \<le> x \<and> x < l * v * h \<and> x mod (l * h) = nid mod (l * h)}"
  proof -
    have "nid div (l * h * v) = 0" using assms(4,5) by (simp add: tot)
    moreover have "x div (l * h * v) = 0 \<longleftrightarrow> x < l * v * h" if "0 \<le> x" for x
      using that assms(1-3) by (auto simp: tot zdiv_eq_0_iff)
    ultimately show ?thesis
      using stride_ring_members [OF rv(2) lh assms(2,4)] by (auto simp: stride_class_def)
  qed
  moreover have "ring_members rh = {x. 0 \<le> x \<and> x mod l = nid mod l \<and> x div (l * h) = nid div (l * h)}"
    using stride_ring_members [OF rh(2)] assms by (simp add: stride_class_def)
  moreover have "rt_total_nodes_in_ring rl = l" "rt_total_nodes_in_ring rv = v" "rt_total_nodes_in_ring rh = h"
    using rl(2) rv(2) rh(2) assms(1-3) ring_wf_size [of rl] ring_wf_size [of rv] ring_wf_size [of rh]
    by (auto simp: stride_ring_def)
  ultimately show ?thesis
    by (intro exI [of _ ?t]) (simp add: torus_get_num_of_nodes_in_dimension_def
        ring_get_num_of_nodes_in_dimension_def get_nodes_in_ring_def)
qed

theorem Torus3D_rings_witness:
  "\<exists>t. Torus3D_new 9 24 2 3 = Inr t \<and> 17 \<in> ring_members (t3_vertical_dimension t) \<and>
     15 \<in> ring_members (t3_horizontal_dimension t)"
  using Torus3D_rings [of 2 3 4 9] by fastforce

text \<open>
  The global dimension of \<^verbatim>\<open>LocalRingNodeA2AGlobalDBT\<close> for all-reduce is a null pointer:
  the double binary tree is asked for its dimension 2, which it does not have, and its
  alternation counter does not move.
\<close>

theorem LocalRingNodeA2AGlobalDBT_null:
  "ld_get_basic_topology_at_dimension t 2 All_Reduce = (None, t)"
  by (simp add: ld_get_basic_topology_at_dimension_def dbt_get_basic_topology_at_dimension_def)

end
