(* ===== verification/Queue_Levels.thy ===== *)
theory Queue_Levels
  imports Ring_Topology
begin

text \<open>
  The queue allocators of \<^verbatim>\<open>QueueLevelHandler.cc\<close> and \<^verbatim>\<open>QueueLevels.cc\<close>. Each handler
  hands out the queues of one level in three ways: round robin over all of them, over the first
  half, and over the second half. The locale \<open>cyclic_allocator\<close> is what the three have in
  common; it is interpreted once per allocator.
\<close>

section \<open>Handlers\<close>

datatype BackendType = NotSpecified | Garnet | NS3 | Analytical

record QueueLevelHandler =
  ql_queues :: "int list"
  ql_allocator :: nat
  ql_first_allocator :: nat
  ql_last_allocator :: nat
  ql_level :: int
  ql_backend :: BackendType

definition QueueLevelHandler_new :: "int \<Rightarrow> int \<Rightarrow> int \<Rightarrow> BackendType \<Rightarrow> QueueLevelHandler" where
  "QueueLevelHandler_new level start end backend =
     (let queues = [start..end] in
      \<lparr>ql_queues = queues, ql_allocator = 0, ql_first_allocator = 0,
       ql_last_allocator = length queues div 2, ql_level = level, ql_backend = backend\<rparr>)"

definition get_next_queue_id :: "QueueLevelHandler \<Rightarrow> (int \<times> Direction) \<times> QueueLevelHandler" where
  "get_next_queue_id h =
     (let n = length (ql_queues h);
          dir = (if (ql_backend h \<noteq> Garnet \<or> ql_level h > 0) \<and> n > 1 \<and> ql_allocator h \<ge> n div 2
                 then Anticlockwise else Clockwise)
      in if n = 0 then ((-1, dir), h)
         else (let tmp = ql_queues h ! ql_allocator h;
                   a = ql_allocator h + 1
               in ((tmp, dir), h\<lparr>ql_allocator := (if a \<ge> n then 0 else a)\<rparr>)))"

definition get_next_queue_id_first :: "QueueLevelHandler \<Rightarrow> (int \<times> Direction) \<times> QueueLevelHandler" where
  "get_next_queue_id_first h =
     (let n = length (ql_queues h) in
      if n = 0 then ((-1, Clockwise), h)
      else (let tmp = ql_queues h ! ql_first_allocator h;
                a = ql_first_allocator h + 1
            in ((tmp, Clockwise), h\<lparr>ql_first_allocator := (if a \<ge> n div 2 then 0 else a)\<rparr>)))"

definition get_next_queue_id_last :: "QueueLevelHandler \<Rightarrow> (int \<times> Direction) \<times> QueueLevelHandler" where
  "get_next_queue_id_last h =
     (let n = length (ql_queues h) in
      if n = 0 then ((-1, Anticlockwise), h)
      else (let tmp = ql_queues h ! ql_last_allocator h;
                a = ql_last_allocator h + 1
            in ((tmp, Anticlockwise), h\<lparr>ql_last_allocator := (if a \<ge> n then n div 2 else a)\<rparr>)))"

section \<open>Levels\<close>

fun levels_from :: "int list \<Rightarrow> int \<Rightarrow> int \<Rightarrow> BackendType \<Rightarrow> QueueLevelHandler list" where
  "levels_from [] l start backend = []"
| "levels_from (i # lv) l start backend =
     QueueLevelHandler_new l start (start + i - 1) backend # levels_from lv (l + 1) (start + i) backend"

definition QueueLevels_of :: "int list \<Rightarrow> int \<Rightarrow> BackendType \<Rightarrow> QueueLevelHandler list" where
  "QueueLevels_of lv offset backend = levels_from lv 0 offset backend"

definition QueueLevels_uniform :: "int \<Rightarrow> int \<Rightarrow> int \<Rightarrow> BackendType \<Rightarrow> QueueLevelHandler list" where
  "QueueLevels_uniform total_levels queues_per_level offset backend =
     levels_from (replicate (nat total_levels) queues_per_level) 0 offset backend"

definition at_level ::
    "(QueueLevelHandler \<Rightarrow> (int \<times> Direction) \<times> QueueLevelHandler) \<Rightarrow> QueueLevelHandler list \<Rightarrow> int \<Rightarrow>
     ((int \<times> Direction) \<times> QueueLevelHandler list) result" where
  "at_level next levels level =
     (if 0 \<le> level \<and> level < int (length levels)
      then (let (q, h) = next (levels ! nat level) in Inr (q, levels[nat level := h]))
      else Inl (OutOfRange ''levels[level]''))"

definition get_next_queue_at_level where
  "get_next_queue_at_level = at_level get_next_queue_id"

definition get_next_queue_at_level_first where
  "get_next_queue_at_level_first = at_level get_next_queue_id_first"

definition get_next_queue_at_level_last where
  "get_next_queue_at_level_last = at_level get_next_queue_id_last"

section \<open>Cyclic allocation\<close>

text \<open>
  A cursor that moves through the positions \<open>lo..<hi\<close> and wraps; every call returns what is
  at the cursor.
\<close>

locale cyclic_allocator =
  fixes ok :: "'s \<Rightarrow> bool"
    and lo :: "'s \<Rightarrow> nat"
    and hi :: "'s \<Rightarrow> nat"
    and cursor :: "'s \<Rightarrow> nat"
    and alloc :: "'s \<Rightarrow> 'q \<times> 's"
    and item :: "'s \<Rightarrow> nat \<Rightarrow> 'q"
  assumes range: "ok s \<Longrightarrow> lo s \<le> cursor s \<and> cursor s < hi s"
    and result: "ok s \<Longrightarrow> fst (alloc s) = item s (cursor s)"
    and advance: "ok s \<Longrightarrow> cursor (snd (alloc s)) = (if cursor s + 1 = hi s then lo s else cursor s + 1)"
    and frame: "ok s \<Longrightarrow> ok (snd (alloc s)) \<and> lo (snd (alloc s)) = lo s \<and> hi (snd (alloc s)) = hi s \<and>
      item (snd (alloc s)) = item s"
begin

definition after :: "nat \<Rightarrow> 's \<Rightarrow> 's" where
  "after k s = ((\<lambda>s. snd (alloc s)) ^^ k) s"

lemma after_frame:
  assumes "ok s"
  shows "ok (after k s) \<and> lo (after k s) = lo s \<and> hi (after k s) = hi s \<and> item (after k s) = item s"
proof (induction k)
  case 0
  with assms show ?case by (simp add: after_def)
next
  case (Suc k)
  with frame [of "after k s"] show ?case by (simp add: after_def)
qed

lemma cursor_after:
  assumes "ok s"
  shows "cursor (after k s) = lo s + (cursor s - lo s + k) mod (hi s - lo s)"
proof (induction k)
  case 0
  have "cursor s - lo s < hi s - lo s" "lo s \<le> cursor s" using range [OF assms] by linarith+
  then show ?case by (simp add: after_def)
next
  case (Suc k)
  let ?n = "hi s - lo s" and ?m = "(cursor s - lo s + k) mod (hi s - lo s)"
  have n: "0 < ?n" using range [OF assms] by linarith
  then have m: "?m < ?n" by simp
  have "cursor (after (Suc k) s) = (if lo s + ?m + 1 = hi s then lo s else lo s + ?m + 1)"
    using advance [of "after k s"] after_frame [OF assms, of k] Suc by (simp add: after_def)
  also have "\<dots> = lo s + (?m + 1) mod ?n"
  proof -
    have "lo s + ?m + 1 = hi s \<longleftrightarrow> ?m + 1 = ?n" using m by linarith
    then show ?thesis using mod_add_one_less [OF m] by simp
  qed
  also have "(?m + 1) mod ?n = (cursor s - lo s + Suc k) mod ?n"
    by (simp add: mod_Suc_eq)
  finally show ?case .
qed

lemma nth_result:
  assumes "ok s"
  shows "fst (alloc (after k s)) = item s (lo s + (cursor s - lo s + k) mod (hi s - lo s))"
  using result [of "after k s"] after_frame [OF assms, of k] cursor_after [OF assms, of k] by simp

lemma results_in_range:
  assumes "ok s"
  shows "\<exists>p. lo s \<le> p \<and> p < hi s \<and> fst (alloc (after k s)) = item s p"
proof -
  have "0 < hi s - lo s" using range [OF assms] by linarith
  then have "(cursor s - lo s + k) mod (hi s - lo s) < hi s - lo s" by simp
  then show ?thesis using nth_result [OF assms, of k]
    by (intro exI [of _ "lo s + (cursor s - lo s + k) mod (hi s - lo s)"]) auto
qed

end

definition ql_item :: "QueueLevelHandler \<Rightarrow> Direction \<Rightarrow> nat \<Rightarrow> int \<times> Direction" where
  "ql_item h d p = (ql_queues h ! p, d)"

definition ql_item_dir :: "QueueLevelHandler \<Rightarrow> nat \<Rightarrow> int \<times> Direction" where
  "ql_item_dir h p = (ql_queues h ! p,
     if (ql_backend h \<noteq> Garnet \<or> ql_level h > 0) \<and> length (ql_queues h) > 1 \<and> p \<ge> length (ql_queues h) div 2
     then Anticlockwise else Clockwise)"

interpretation whole: cyclic_allocator
  "\<lambda>h. ql_allocator h < length (ql_queues h)" "\<lambda>h. 0" "\<lambda>h. length (ql_queues h)" ql_allocator
  get_next_queue_id ql_item_dir
  by unfold_locales (auto simp: get_next_queue_id_def ql_item_dir_def Let_def fun_eq_iff)

interpretation first_half: cyclic_allocator
  "\<lambda>h. 2 \<le> length (ql_queues h) \<and> ql_first_allocator h < length (ql_queues h) div 2"
  "\<lambda>h. 0" "\<lambda>h. length (ql_queues h) div 2" ql_first_allocator get_next_queue_id_first
  "\<lambda>h. ql_item h Clockwise"
  by unfold_locales (auto simp: get_next_queue_id_first_def ql_item_def Let_def fun_eq_iff)

interpretation last_half: cyclic_allocator
  "\<lambda>h. length (ql_queues h) div 2 \<le> ql_last_allocator h \<and> ql_last_allocator h < length (ql_queues h)"
  "\<lambda>h. length (ql_queues h) div 2" "\<lambda>h. length (ql_queues h)" ql_last_allocator get_next_queue_id_last
  "\<lambda>h. ql_item h Anticlockwise"
  by unfold_locales (auto simp: get_next_queue_id_last_def ql_item_def Let_def fun_eq_iff)

lemma handler_queues:
  "ql_queues (QueueLevelHandler_new level start (start + int n - 1) backend) = map (\<lambda>p. start + int p) [0..<n]"
proof -
  have "[start..start + int n - 1] = map (\<lambda>p. start + int p) [0..<n]"
  proof (induction n)
    case 0
    show ?case by simp
  next
    case (Suc n)
    then show ?case using upto_rec2 [of start "start + int n"] by (simp add: add.commute)
  qed
  then show ?thesis by (simp add: QueueLevelHandler_new_def Let_def)
qed

lemma handler_fields:
  "ql_allocator (QueueLevelHandler_new level start end backend) = 0"
  "ql_first_allocator (QueueLevelHandler_new level start end backend) = 0"
  "ql_last_allocator (QueueLevelHandler_new level start end backend)
     = length (ql_queues (QueueLevelHandler_new level start end backend)) div 2"
  "ql_level (QueueLevelHandler_new level start end backend) = level"
  "ql_backend (QueueLevelHandler_new level start end backend) = backend"
  by (simp_all add: QueueLevelHandler_new_def Let_def)

section \<open>Properties\<close>

text \<open>
  Round robin. The \<open>k\<close>-th call of \<^verbatim>\<open>get_next_queue_id\<close> on a fresh handler over \<open>n\<close> queues
  returns queue \<open>start + k mod n\<close>; the queues of the upper half are used anticlockwise, unless
  the back end is Garnet on the local level or there is a single queue.
\<close>

theorem queue_round_robin:
  assumes "0 < n" and "h = QueueLevelHandler_new level start (start + int n - 1) backend"
  shows "fst (get_next_queue_id (((\<lambda>h. snd (get_next_queue_id h)) ^^ k) h)) =
    (start + int (k mod n),
     if (backend \<noteq> Garnet \<or> level > 0) \<and> n > 1 \<and> k mod n \<ge> n div 2 then Anticlockwise else Clockwise)"
proof -
  have q: "ql_queues h = map (\<lambda>p. start + int p) [0..<n]" using assms(2) handler_queues by simp
  have "ql_allocator h < length (ql_queues h)" using assms q by (simp add: handler_fields)
  from whole.nth_result [OF this, of k] q assms show ?thesis
    by (simp add: whole.after_def ql_item_dir_def handler_fields)
qed

theorem queue_round_robin_witness:
  "fst (get_next_queue_id (((\<lambda>h. snd (get_next_queue_id h)) ^^ 7) (QueueLevelHandler_new 0 10 13 Analytical)))
   = (13, Anticlockwise)"
  using queue_round_robin [of 4 "QueueLevelHandler_new 0 10 13 Analytical" 0 10 Analytical 7] by simp

text \<open>
  Two disjoint halves. With at least two queues, the queues handed out by the first-half
  and the last-half allocator are disjoint, whatever calls came before, and lie in the range of
  the handler; the first are clockwise, the last anticlockwise.
\<close>

theorem queue_halves_disjoint:
  assumes "2 \<le> n" and "h = QueueLevelHandler_new level start (start + int n - 1) backend"
  shows "\<exists>p q. fst (get_next_queue_id_first (((\<lambda>h. snd (get_next_queue_id_first h)) ^^ k) h)) =
      (start + int p, Clockwise) \<and> p < n div 2 \<and>
    fst (get_next_queue_id_last (((\<lambda>h. snd (get_next_queue_id_last h)) ^^ j) h)) =
      (start + int q, Anticlockwise) \<and> n div 2 \<le> q \<and> q < n"
proof -
  have q: "ql_queues h = map (\<lambda>p. start + int p) [0..<n]" using assms(2) handler_queues by simp
  have half: "n div 2 < n" using assms(1) by simp
  have "2 \<le> length (ql_queues h) \<and> ql_first_allocator h < length (ql_queues h) div 2"
    using assms q by (simp add: handler_fields)
  from first_half.results_in_range [OF this, of k] q half obtain p where
    "fst (get_next_queue_id_first (((\<lambda>h. snd (get_next_queue_id_first h)) ^^ k) h)) =
      (start + int p, Clockwise)" "p < n div 2"
    by (auto simp: first_half.after_def ql_item_def)
  moreover have "length (ql_queues h) div 2 \<le> ql_last_allocator h \<and> ql_last_allocator h < length (ql_queues h)"
    using assms q half by (simp add: handler_fields)
  from last_half.results_in_range [OF this, of j] q obtain r where
    "fst (get_next_queue_id_last (((\<lambda>h. snd (get_next_queue_id_last h)) ^^ j) h)) =
      (start + int r, Anticlockwise)" "n div 2 \<le> r" "r < n"
    by (auto simp: last_half.after_def ql_item_def)
  ultimately show ?thesis by blast
qed

theorem queue_halves_disjoint_witness:
  "fst (fst (get_next_queue_id_first (QueueLevelHandler_new 1 4 7 NS3))) < 6 \<and>
   6 \<le> fst (fst (get_next_queue_id_last (QueueLevelHandler_new 1 4 7 NS3)))"
  using queue_halves_disjoint [of 4 "QueueLevelHandler_new 1 4 7 NS3" 1 4 NS3 0 0] by auto

lemma levels_from_nth:
  "i < length lv \<Longrightarrow> levels_from lv l start backend ! i =
     QueueLevelHandler_new (l + int i) (start + sum_list (take i lv))
       (start + sum_list (take i lv) + lv ! i - 1) backend"
proof (induction lv arbitrary: l start i)
  case Nil
  then show ?case by simp
next
  case (Cons x lv)
  then show ?case by (cases i) (simp_all add: algebra_simps)
qed

lemma levels_from_length [simp]: "length (levels_from lv l start backend) = length lv"
  by (induction lv arbitrary: l start) simp_all

text \<open>
  Levels own disjoint, consecutive ranges of queues: level \<open>i\<close> of
  \<^verbatim>\<open>QueueLevels(lv, offset)\<close> holds the \<open>lv ! i\<close> queues that follow those of the lower levels.
\<close>

theorem queue_levels_partition:
  assumes "\<forall>x\<in>set lv. 0 \<le> x" and "i < length lv"
  shows "set (ql_queues (QueueLevels_of lv offset backend ! i)) =
      {offset + sum_list (take i lv) ..< offset + sum_list (take (Suc i) lv)} \<and>
    (\<forall>j < i. set (ql_queues (QueueLevels_of lv offset backend ! i)) \<inter>
             set (ql_queues (QueueLevels_of lv offset backend ! j)) = {})"
proof -
  have eq: "set (ql_queues (QueueLevels_of lv offset backend ! m)) =
      {offset + sum_list (take m lv) ..< offset + sum_list (take (Suc m) lv)}" if "m < length lv" for m
    using that by (auto simp: QueueLevels_of_def levels_from_nth QueueLevelHandler_new_def Let_def
        take_Suc_conv_app_nth)
  have "sum_list (take (Suc j) lv) \<le> sum_list (take i lv)" if "j < i" for j
  proof -
    have "take i lv = take (Suc j) lv @ drop (Suc j) (take i lv)"
      using that by (metis Suc_leI append_take_drop_id min.absorb1 take_take)
    moreover have "0 \<le> sum_list (drop (Suc j) (take i lv))"
      using assms(1) by (intro sum_list_nonneg) (meson in_set_dropD in_set_takeD)
    ultimately show ?thesis by (metis le_add_same_cancel1 sum_list_append)
  qed
  then show ?thesis using eq assms(2) by (fastforce simp: eq)
qed

theorem queue_levels_partition_witness:
  "set (ql_queues (QueueLevels_of [2, 3, 1] 0 Analytical ! 1)) = {2 ..< 5}"
  using queue_levels_partition [of "[2, 3, 1]" 1 0 Analytical] by simp

end
