(* ===== verification/Usage_Tracker.thy ===== *)
theory Usage_Tracker
  imports Astra_Prelude
begin

text \<open>
  \<^verbatim>\<open>UsageTracker.cc\<close>: the history of the activity level of a network dimension and the
  report of the activity per period. \<^verbatim>\<open>Sys::boostedTick()\<close> is the argument \<open>now\<close>. The report
  loop need not end, so it is a partial function whose value \<open>None\<close> means that it runs for
  ever.
\<close>

section \<open>State and operations\<close>

record Usage =
  us_level :: int
  us_start :: nat
  us_end :: nat

record UsageTracker =
  ut_levels :: int
  ut_current_level :: int
  ut_last_tick :: nat
  ut_usage :: "Usage list"

definition UsageTracker_new :: "int \<Rightarrow> UsageTracker" where
  "UsageTracker_new levels = \<lparr>ut_levels = levels, ut_current_level = 0, ut_last_tick = 0, ut_usage = []\<rparr>"

definition log_usage :: "nat \<Rightarrow> int \<Rightarrow> UsageTracker \<Rightarrow> UsageTracker" where
  "log_usage now level t =
     t\<lparr>ut_usage := ut_usage t @ [\<lparr>us_level = ut_current_level t, us_start = ut_last_tick t, us_end = now\<rparr>],
       ut_current_level := level, ut_last_tick := now\<rparr>"

definition increase_usage :: "nat \<Rightarrow> UsageTracker \<Rightarrow> UsageTracker" where
  "increase_usage now t =
     (if ut_current_level t < ut_levels t - 1 then log_usage now (ut_current_level t + 1) t else t)"

definition decrease_usage :: "nat \<Rightarrow> UsageTracker \<Rightarrow> UsageTracker" where
  "decrease_usage now t =
     (if ut_current_level t > 0 then log_usage now (ut_current_level t - 1) t else t)"

definition set_usage :: "nat \<Rightarrow> int \<Rightarrow> UsageTracker \<Rightarrow> UsageTracker" where
  "set_usage now level t = (if ut_current_level t \<noteq> level then log_usage now level t else t)"

text \<open>
  The loop of \<^verbatim>\<open>report_percentage\<close>. A result is the end of the period with the activity in it;
  the percentage is 100 times the activity over \<^verbatim>\<open>total_activity_possible\<close>.
\<close>

partial_function (option) report_loop ::
    "nat \<Rightarrow> Usage list \<Rightarrow> int \<Rightarrow> nat \<Rightarrow> nat \<Rightarrow> (nat \<times> int) list \<Rightarrow> (nat \<times> int) list result option" where
  "report_loop cycles us current_activity period_start period_end res =
     (case us of
        [] \<Rightarrow> Some (Inr res)
      | u # rest \<Rightarrow>
          if \<not> max period_start (us_start u) \<le> min period_end (us_end u)
          then Some (Inl (AssertionFailed ''begin <= end''))
          else if us_end u \<ge> period_end
          then report_loop cycles us 0 (period_start + cycles) (period_end + cycles)
                 (res @ [(period_end, current_activity +
                    int (min period_end (us_end u) - max period_start (us_start u)) * us_level u)])
          else report_loop cycles rest
                 (current_activity +
                    int (min period_end (us_end u) - max period_start (us_start u)) * us_level u)
                 period_start period_end res)"

declare report_loop.simps [code]

definition report_percentage ::
    "nat \<Rightarrow> nat \<Rightarrow> UsageTracker \<Rightarrow> (int \<times> (nat \<times> int) list) result option \<times> UsageTracker" where
  "report_percentage now cycles t =
     (let t = increase_usage now (decrease_usage now t);
          total_activity_possible = (ut_levels t - 1) * int cycles
      in (map_option (\<lambda>r. rbind r (\<lambda>res. Inr (total_activity_possible, res)))
            (report_loop cycles (ut_usage t) 0 0 cycles []), t))"

section \<open>Invariant\<close>

text \<open>The history tiles the time from \<open>a\<close> to \<open>b\<close> without gaps.\<close>

fun tiles :: "nat \<Rightarrow> Usage list \<Rightarrow> nat \<Rightarrow> bool" where
  "tiles a [] b \<longleftrightarrow> a = b"
| "tiles a (u # us) b \<longleftrightarrow> us_start u = a \<and> a \<le> us_end u \<and> tiles (us_end u) us b"

definition tracker_inv :: "nat \<Rightarrow> UsageTracker \<Rightarrow> bool" where
  "tracker_inv now t \<longleftrightarrow> tiles 0 (ut_usage t) (ut_last_tick t) \<and> ut_last_tick t \<le> now \<and>
     0 \<le> ut_current_level t \<and> (1 \<le> ut_levels t \<longrightarrow> ut_current_level t < ut_levels t) \<and>
     (\<forall>u\<in>set (ut_usage t). 0 \<le> us_level u \<and> (1 \<le> ut_levels t \<longrightarrow> us_level u < ut_levels t))"

lemma tiles_append: "tiles a us b \<Longrightarrow> b \<le> c \<Longrightarrow> tiles a (us @ [\<lparr>us_level = l, us_start = b, us_end = c\<rparr>]) c"
  by (induction us arbitrary: a) auto

lemma tiles_le: "tiles a us b \<Longrightarrow> a \<le> b"
  by (induction us arbitrary: a) (auto dest: le_trans)

lemma log_usage_inv:
  assumes "tracker_inv now t" and "now \<le> now'" and "0 \<le> level" and "1 \<le> ut_levels t \<longrightarrow> level < ut_levels t"
  shows "tracker_inv now' (log_usage now' level t)"
  using assms tiles_append [of 0 "ut_usage t" "ut_last_tick t" now']
  by (auto simp: tracker_inv_def log_usage_def)

lemma tracker_inv_mono: "tracker_inv now t \<Longrightarrow> now \<le> now' \<Longrightarrow> tracker_inv now' t"
  by (auto simp: tracker_inv_def)

lemma usage_ops_inv:
  assumes "tracker_inv now t" and "now \<le> now'"
  shows "tracker_inv now' (increase_usage now' t)" "tracker_inv now' (decrease_usage now' t)"
  using assms log_usage_inv [OF assms] tracker_inv_mono [OF assms]
  by (auto simp: increase_usage_def decrease_usage_def tracker_inv_def [of now])

section \<open>The report\<close>

text \<open>The activity of a history in the period from \<open>a\<close> to \<open>b\<close>.\<close>

definition activity :: "Usage list \<Rightarrow> nat \<Rightarrow> nat \<Rightarrow> int" where
  "activity us a b = (\<Sum>u\<leftarrow>us. int (min b (us_end u) - max a (us_start u)) * us_level u)"

lemma activity_after: "tiles s us e \<Longrightarrow> b \<le> s \<Longrightarrow> activity us a b = 0"
  by (induction us arbitrary: s) (auto simp: activity_def)

lemma activity_Cons:
  "activity (u # us) a b = int (min b (us_end u) - max a (us_start u)) * us_level u + activity us a b"
  by (simp add: activity_def)

definition periods :: "nat \<Rightarrow> Usage list \<Rightarrow> nat \<Rightarrow> nat \<Rightarrow> (nat \<times> int) list" where
  "periods cycles us p k =
     map (\<lambda>j. (p + Suc j * cycles, activity us (p + j * cycles) (p + Suc j * cycles))) [0..<k]"

lemma periods_Suc:
  "periods cycles us p (Suc k) =
     (p + cycles, activity us p (p + cycles)) # periods cycles us (p + cycles) k"
  unfolding periods_def by (subst upt_conv_Cons) (simp_all add: map_Suc_upt [symmetric] algebra_simps del: upt_Suc)

lemma periods_drop:
  assumes "us_end u \<le> p"
  shows "periods cycles (u # us) p k = periods cycles us p k"
  using assms by (auto simp: periods_def activity_Cons)

text \<open>
  The value of the loop from any reachable state: the current period gets the activity seen so
  far plus that of the rest of the history.
\<close>

lemma report_loop_value:
  assumes "0 < cycles" and "tiles s us e" and "s \<le> p + cycles" and "p \<le> e"
    and "us = [] \<Longrightarrow> e < p + cycles" and "us \<noteq> [] \<Longrightarrow> p \<le> us_end (hd us)"
  shows "report_loop cycles us act p (p + cycles) res = Some (Inr (res @
    (case (e - p) div cycles of 0 \<Rightarrow> []
     | Suc k \<Rightarrow> (p + cycles, act + activity us p (p + cycles)) # periods cycles us (p + cycles) k)))"
  using assms
proof (induction "length us + (e - p)" arbitrary: us s act p res rule: less_induct)
  case less
  show ?case
  proof (cases us)
    case Nil
    with less.prems have "(e - p) div cycles = 0" by (intro div_less) auto
    then show ?thesis by (simp add: Nil report_loop.simps)
  next
    case (Cons u rest)
    let ?pe = "p + cycles" and ?d = "int (min (p + cycles) (us_end u) - max p (us_start u)) * us_level u"
    have u: "us_start u = s" "s \<le> us_end u" "tiles (us_end u) rest e" "p \<le> us_end u"
      using less.prems Cons by auto
    then have ok: "max p (us_start u) \<le> min ?pe (us_end u)" using less.prems(3) by simp
    have le: "us_end u \<le> e" using tiles_le [OF u(3)] .
    show ?thesis
    proof (cases "?pe \<le> us_end u")
      case True
      have "(e - p) div cycles = Suc ((e - ?pe) div cycles)"
        using True le less.prems(1) by (simp add: le_div_geq)
      moreover have "act + ?d = act + activity us p ?pe"
        using activity_after [OF u(3), of ?pe p] True by (simp add: Cons activity_Cons)
      moreover have "report_loop cycles us 0 ?pe (?pe + cycles) (res @ [(?pe, act + ?d)]) =
        Some (Inr ((res @ [(?pe, act + ?d)]) @
          (case (e - ?pe) div cycles of 0 \<Rightarrow> []
           | Suc k \<Rightarrow> (?pe + cycles, 0 + activity us ?pe (?pe + cycles)) # periods cycles us (?pe + cycles) k)))"
        using less.prems(1,2,3) True le Cons by (intro less.hyps [of us ?pe s]) auto
      moreover have "periods cycles us ?pe m = (case m of 0 \<Rightarrow> []
          | Suc k \<Rightarrow> (?pe + cycles, 0 + activity us ?pe (?pe + cycles)) # periods cycles us (?pe + cycles) k)" for m
        by (cases m) (simp_all add: periods_Suc periods_def [of _ _ _ 0])
      ultimately show ?thesis
        using ok True by (simp add: Cons report_loop.simps [of cycles "u # rest" act])
    next
      case False
      have hd: "p \<le> us_end (hd rest)" if "rest \<noteq> []" using that u(3,4) by (cases rest) auto
      have "report_loop cycles rest (act + ?d) p ?pe res = Some (Inr (res @
        (case (e - p) div cycles of 0 \<Rightarrow> []
         | Suc k \<Rightarrow> (?pe, (act + ?d) + activity rest p ?pe) # periods cycles rest ?pe k)))"
        using less.prems(1,4) u False hd Cons by (intro less.hyps [of rest p "us_end u"]) auto
      moreover have "periods cycles us ?pe k = periods cycles rest ?pe k" for k
        using periods_drop [of u ?pe cycles rest k] False Cons by simp
      ultimately show ?thesis
        using ok False by (simp add: Cons report_loop.simps [of cycles "u # rest" act] activity_Cons
            algebra_simps split: nat.split)
    qed
  qed
qed

text \<open>With periods of length 0 the loop makes no progress on a history that starts at 0.\<close>

definition no_progress :: "nat \<Rightarrow> Usage list \<Rightarrow> nat \<Rightarrow> nat \<Rightarrow> bool" where
  "no_progress cycles us ps pe \<longleftrightarrow> cycles = 0 \<and> ps = 0 \<and> pe = 0 \<and> us \<noteq> [] \<and> us_start (hd us) = 0"

lemma report_loop_zero:
  assumes "report_loop cycles us act ps pe res = Some y"
  shows "\<not> no_progress cycles us ps pe"
  using _ assms
proof (rule report_loop.raw_induct [where P = "\<lambda>cycles us act ps pe res y. \<not> no_progress cycles us ps pe"])
  fix f cycles us act ps pe res y
  assume IH: "\<And>cycles us act ps pe res y. f cycles us act ps pe res = Some y \<Longrightarrow> \<not> no_progress cycles us ps pe"
    and step: "(case us of [] \<Rightarrow> Some (Inr res)
      | u # rest \<Rightarrow>
          if \<not> max ps (us_start u) \<le> min pe (us_end u)
          then Some (Inl (AssertionFailed ''begin <= end''))
          else if us_end u \<ge> pe
          then f cycles us 0 (ps + cycles) (pe + cycles)
                 (res @ [(pe, act + int (min pe (us_end u) - max ps (us_start u)) * us_level u)])
          else f cycles rest (act + int (min pe (us_end u) - max ps (us_start u)) * us_level u) ps pe res) = Some y"
  show "\<not> no_progress cycles us ps pe"
  proof
    assume "no_progress cycles us ps pe"
    moreover from this obtain u rest where "us = u # rest" by (cases us) (auto simp: no_progress_def)
    ultimately show False
      using step IH [of 0 us 0 0 0 "res @ [(0, act)]" y] by (auto simp: no_progress_def)
  qed
qed

section \<open>Properties\<close>

fun usage_op :: "bool \<times> nat \<Rightarrow> UsageTracker \<Rightarrow> UsageTracker" where
  "usage_op (True, now) t = increase_usage now t"
| "usage_op (False, now) t = decrease_usage now t"

lemma usage_ops_fold:
  assumes "tracker_inv now t" and "sorted (now # map snd ops)"
  shows "tracker_inv (last (now # map snd ops)) (fold usage_op ops t)"
  using assms
proof (induction ops arbitrary: now t)
  case Nil
  then show ?case by simp
next
  case (Cons opn ops)
  obtain up n where opn: "opn = (up, n)" by (cases opn)
  have "tracker_inv n (usage_op opn t)"
    using usage_ops_inv [OF Cons.prems(1), of n] Cons.prems(2) opn by (cases up) auto
  from Cons.IH [OF this] Cons.prems(2) opn show ?case by simp
qed

text \<open>
  The history tiles time. After any sequence of increases and decreases at
  non-decreasing times the recorded intervals follow each other without gap from 0 to the last
  change, and all recorded levels lie between 0 and \<open>levels - 1\<close>.
\<close>

theorem usage_history_tiles:
  assumes "1 \<le> levels" and "sorted (map snd ops)"
  shows "\<exists>now. tracker_inv now (fold usage_op ops (UsageTracker_new levels))"
proof -
  have "tracker_inv 0 (UsageTracker_new levels)"
    using assms(1) by (simp add: tracker_inv_def UsageTracker_new_def)
  from usage_ops_fold [OF this, of ops] assms(2) show ?thesis by auto
qed

theorem usage_history_tiles_witness:
  "\<exists>now. tracker_inv now (fold usage_op [(True, 3), (True, 5), (False, 9)] (UsageTracker_new 2))"
  by (rule usage_history_tiles) simp_all

text \<open>
  The report. For periods of positive length the report loop ends, no assertion fails,
  and there is one entry per full period up to the last change: its end and the exact integral
  of the level over the period.
\<close>

theorem report_percentage_correct:
  assumes "tracker_inv now t" and "0 < cycles" and "now \<le> now'"
    and "t' = increase_usage now' (decrease_usage now' t)"
  shows "report_percentage now' cycles t =
    (Some (Inr ((ut_levels t' - 1) * int cycles,
       map (\<lambda>j. (Suc j * cycles, activity (ut_usage t') (j * cycles) (Suc j * cycles)))
         [0..<ut_last_tick t' div cycles])), t')"
proof -
  have "tracker_inv now' t'"
    using usage_ops_inv(1) [OF usage_ops_inv(2) [OF assms(1,3)] order_refl] assms(4) by simp
  then have tiles: "tiles 0 (ut_usage t') (ut_last_tick t')" by (simp add: tracker_inv_def)
  then have "ut_usage t' = [] \<Longrightarrow> ut_last_tick t' < 0 + cycles" using assms(2) by simp
  note looped = report_loop_value [OF assms(2) tiles _ _ this, of 0 "[]"]
  have "periods cycles (ut_usage t') 0 m = (case m of 0 \<Rightarrow> []
      | Suc k \<Rightarrow> (0 + cycles, 0 + activity (ut_usage t') 0 (0 + cycles)) # periods cycles (ut_usage t') (0 + cycles) k)"
    for m by (cases m) (simp_all add: periods_Suc periods_def [of _ _ _ 0])
  with looped have "report_loop cycles (ut_usage t') 0 0 cycles []
      = Some (Inr (periods cycles (ut_usage t') 0 (ut_last_tick t' div cycles)))"
    by simp
  then show ?thesis by (simp add: report_percentage_def Let_def assms(4) [symmetric] periods_def)
qed

theorem report_percentage_correct_witness:
  "fst (report_percentage 20 10 (increase_usage 4 (UsageTracker_new 3)))
   = Some (Inr (20, [(10, 6), (20, 10)]))"
proof -
  let ?t = "increase_usage 4 (UsageTracker_new 3)"
  have "tracker_inv 4 ?t" by (simp add: tracker_inv_def increase_usage_def log_usage_def UsageTracker_new_def)
  from report_percentage_correct [OF this, of 10 20] show ?thesis
    by (simp add: increase_usage_def decrease_usage_def log_usage_def UsageTracker_new_def activity_def
        upt_rec)
qed

text \<open>
  A report with periods of length 0 never ends, unless the history is empty.
\<close>

theorem report_percentage_diverges:
  assumes "tracker_inv now t" and "ut_usage (increase_usage now (decrease_usage now t)) \<noteq> []"
  shows "fst (report_percentage now 0 t) = None"
proof -
  let ?t = "increase_usage now (decrease_usage now t)"
  have "tracker_inv now ?t" using usage_ops_inv [OF _ order_refl] assms(1) by blast
  then have "no_progress 0 (ut_usage ?t) 0 0"
    using assms(2) by (cases "ut_usage ?t") (auto simp: no_progress_def tracker_inv_def)
  then have "report_loop 0 (ut_usage ?t) 0 0 0 [] = None"
    using report_loop_zero by (metis not_Some_eq)
  then show ?thesis by (simp add: report_percentage_def Let_def)
qed

theorem report_percentage_diverges_witness:
  "fst (report_percentage 7 0 (UsageTracker_new 2)) = None"
  by (rule report_percentage_diverges)
    (simp_all add: tracker_inv_def increase_usage_def decrease_usage_def log_usage_def UsageTracker_new_def)

end
