(* ===== verification/Stream_Stats.thy ===== *)
theory Stream_Stats
  imports Complex_Main Astra_Prelude
begin

text \<open>
  The statistics that streams accumulate and the data set that collects them:
  \<^verbatim>\<open>SharedBusStat.hh\<close>, \<^verbatim>\<open>NetworkStat.hh\<close>, \<^verbatim>\<open>StreamStat.hh\<close> and \<^verbatim>\<open>DataSet.cc\<close>. The
  classes inherit from each other, and so do the records. Floating-point values are rational
  numbers; averages are only claimed for positive counters.
\<close>

section \<open>Bus and network statistics\<close>

record SharedBusStat =
  total_shared_bus_transfer_queue_delay :: rat
  total_shared_bus_transfer_delay :: rat
  total_shared_bus_processing_queue_delay :: rat
  total_shared_bus_processing_delay :: rat
  total_mem_bus_transfer_queue_delay :: rat
  total_mem_bus_transfer_delay :: rat
  total_mem_bus_processing_queue_delay :: rat
  total_mem_bus_processing_delay :: rat
  mem_request_counter :: nat
  shared_request_counter :: nat

definition SharedBusStat_new :: "BusType \<Rightarrow> rat \<Rightarrow> rat \<Rightarrow> rat \<Rightarrow> rat \<Rightarrow> SharedBusStat" where
  "SharedBusStat_new busType transfer_queue transfer processing_queue processing =
     (if busType = BusShared
      then \<lparr>total_shared_bus_transfer_queue_delay = transfer_queue, total_shared_bus_transfer_delay = transfer,
            total_shared_bus_processing_queue_delay = processing_queue,
            total_shared_bus_processing_delay = processing,
            total_mem_bus_transfer_queue_delay = 0, total_mem_bus_transfer_delay = 0,
            total_mem_bus_processing_queue_delay = 0, total_mem_bus_processing_delay = 0,
            mem_request_counter = 0, shared_request_counter = 0\<rparr>
      else \<lparr>total_shared_bus_transfer_queue_delay = 0, total_shared_bus_transfer_delay = 0,
            total_shared_bus_processing_queue_delay = 0, total_shared_bus_processing_delay = 0,
            total_mem_bus_transfer_queue_delay = transfer_queue, total_mem_bus_transfer_delay = transfer,
            total_mem_bus_processing_queue_delay = processing_queue,
            total_mem_bus_processing_delay = processing,
            mem_request_counter = 0, shared_request_counter = 0\<rparr>)"

definition update_shared_bus_stats :: "'b SharedBusStat_scheme \<Rightarrow> 'a SharedBusStat_scheme \<Rightarrow> 'a SharedBusStat_scheme" where
  "update_shared_bus_stats st s =
     s\<lparr>total_shared_bus_transfer_queue_delay :=
         total_shared_bus_transfer_queue_delay s + total_shared_bus_transfer_queue_delay st,
       total_shared_bus_transfer_delay := total_shared_bus_transfer_delay s + total_shared_bus_transfer_delay st,
       total_shared_bus_processing_queue_delay :=
         total_shared_bus_processing_queue_delay s + total_shared_bus_processing_queue_delay st,
       total_shared_bus_processing_delay :=
         total_shared_bus_processing_delay s + total_shared_bus_processing_delay st,
       shared_request_counter := shared_request_counter s + 1\<rparr>"

definition update_mem_bus_stats :: "'b SharedBusStat_scheme \<Rightarrow> 'a SharedBusStat_scheme \<Rightarrow> 'a SharedBusStat_scheme" where
  "update_mem_bus_stats st s =
     s\<lparr>total_mem_bus_transfer_queue_delay :=
         total_mem_bus_transfer_queue_delay s + total_mem_bus_transfer_queue_delay st,
       total_mem_bus_transfer_delay := total_mem_bus_transfer_delay s + total_mem_bus_transfer_delay st,
       total_mem_bus_processing_queue_delay :=
         total_mem_bus_processing_queue_delay s + total_mem_bus_processing_queue_delay st,
       total_mem_bus_processing_delay :=
         total_mem_bus_processing_delay s + total_mem_bus_processing_delay st,
       mem_request_counter := mem_request_counter s + 1\<rparr>"

definition update_bus_stats ::
    "BusType \<Rightarrow> 'b SharedBusStat_scheme \<Rightarrow> 'a SharedBusStat_scheme \<Rightarrow> 'a SharedBusStat_scheme" where
  "update_bus_stats busType st s =
     (case busType of
        BusShared \<Rightarrow> update_shared_bus_stats st s
      | BusMem \<Rightarrow> update_mem_bus_stats st s
      | BusBoth \<Rightarrow> update_mem_bus_stats st (update_shared_bus_stats st s))"

definition take_bus_stats_average :: "'a SharedBusStat_scheme \<Rightarrow> 'a SharedBusStat_scheme" where
  "take_bus_stats_average s =
     (let sh = of_nat (shared_request_counter s); me = of_nat (mem_request_counter s) in
      s\<lparr>total_shared_bus_transfer_queue_delay := total_shared_bus_transfer_queue_delay s / sh,
        total_shared_bus_transfer_delay := total_shared_bus_transfer_delay s / sh,
        total_shared_bus_processing_queue_delay := total_shared_bus_processing_queue_delay s / sh,
        total_shared_bus_processing_delay := total_shared_bus_processing_delay s / sh,
        total_mem_bus_transfer_queue_delay := total_mem_bus_transfer_queue_delay s / me,
        total_mem_bus_transfer_delay := total_mem_bus_transfer_delay s / me,
        total_mem_bus_processing_queue_delay := total_mem_bus_processing_queue_delay s / me,
        total_mem_bus_processing_delay := total_mem_bus_processing_delay s / me\<rparr>)"

text \<open>
  The addition of one list of delays to another, which is padded with zeros first: shared by
  \<^verbatim>\<open>update_network_stat\<close> and \<^verbatim>\<open>update_stream_stats\<close>.
\<close>

fun add_pointwise :: "rat list \<Rightarrow> rat list \<Rightarrow> rat list" where
  "add_pointwise (x # xs) (y # ys) = (x + y) # add_pointwise xs ys"
| "add_pointwise xs _ = xs"

definition accumulate :: "rat list \<Rightarrow> rat list \<Rightarrow> rat list" where
  "accumulate xs ys = add_pointwise (xs @ replicate (length ys - length xs) 0) ys"

record NetworkStat = SharedBusStat +
  net_message_latency :: "rat list"
  net_message_counter :: nat

definition update_network_stat :: "'b NetworkStat_scheme \<Rightarrow> 'a NetworkStat_scheme \<Rightarrow> 'a NetworkStat_scheme" where
  "update_network_stat st s =
     s\<lparr>net_message_latency := accumulate (net_message_latency s) (net_message_latency st),
       net_message_counter := net_message_counter s + 1\<rparr>"

definition take_network_stat_average :: "'a NetworkStat_scheme \<Rightarrow> 'a NetworkStat_scheme" where
  "take_network_stat_average s =
     s\<lparr>net_message_latency := map (\<lambda>ml. ml / of_nat (net_message_counter s)) (net_message_latency s)\<rparr>"

section \<open>Stream statistics\<close>

record StreamStat = NetworkStat +
  queuing_delay :: "rat list"
  stream_stat_counter :: nat

definition StreamStat_new :: StreamStat where
  "StreamStat_new =
     \<lparr>total_shared_bus_transfer_queue_delay = 0, total_shared_bus_transfer_delay = 0,
      total_shared_bus_processing_queue_delay = 0, total_shared_bus_processing_delay = 0,
      total_mem_bus_transfer_queue_delay = 0, total_mem_bus_transfer_delay = 0,
      total_mem_bus_processing_queue_delay = 0, total_mem_bus_processing_delay = 0,
      mem_request_counter = 0, shared_request_counter = 0, net_message_latency = [],
      net_message_counter = 0, queuing_delay = [], stream_stat_counter = 0\<rparr>"

definition update_stream_stats :: "'b StreamStat_scheme \<Rightarrow> 'a StreamStat_scheme \<Rightarrow> 'a StreamStat_scheme" where
  "update_stream_stats st s =
     (let s = update_network_stat st (update_bus_stats BusBoth st s) in
      s\<lparr>queuing_delay := accumulate (queuing_delay s) (queuing_delay st),
        stream_stat_counter := stream_stat_counter s + 1\<rparr>)"

definition take_stream_stats_average :: "'a StreamStat_scheme \<Rightarrow> 'a StreamStat_scheme" where
  "take_stream_stats_average s =
     (let s = take_network_stat_average (take_bus_stats_average s) in
      s\<lparr>queuing_delay := map (\<lambda>tick. tick / of_nat (stream_stat_counter s)) (queuing_delay s)\<rparr>)"

section \<open>Data sets\<close>

text \<open>
  \<open>ds_notifier\<close> is the callable with its event. A notification carries the data-set id and the
  execution time.
\<close>

record 'c DataSet = StreamStat +
  ds_my_id :: int
  ds_total_streams :: int
  ds_finished_streams :: int
  ds_finished :: bool
  ds_active :: bool
  ds_finish_tick :: Tick
  ds_creation_tick :: Tick
  ds_notifier :: "('c \<times> EventType) option"

definition DataSet_new :: "int \<Rightarrow> int \<Rightarrow> Tick \<Rightarrow> 'c DataSet" where
  "DataSet_new id_auto_increment total_streams now =
     StreamStat.extend StreamStat_new
       (DataSet.fields id_auto_increment total_streams 0 False True 0 now None)"

definition set_notifier :: "'c \<Rightarrow> EventType \<Rightarrow> 'c DataSet \<Rightarrow> 'c DataSet" where
  "set_notifier callable event d = d\<lparr>ds_notifier := Some (callable, event)\<rparr>"

record 'c notification =
  nt_callable :: 'c
  nt_event :: EventType
  nt_data :: int
  nt_execution_time :: Tick

definition notify_stream_finished ::
    "Tick \<Rightarrow> StreamStat option \<Rightarrow> 'c DataSet \<Rightarrow> 'c notification option \<times> 'c DataSet" where
  "notify_stream_finished now data d =
     (let d = d\<lparr>ds_finished_streams := ds_finished_streams d + 1\<rparr>;
          d = (case data of None \<Rightarrow> d | Some st \<Rightarrow> update_stream_stats st d)
      in if ds_finished_streams d = ds_total_streams d
         then (let d = d\<lparr>ds_finished := True, ds_finish_tick := now\<rparr> in
               case ds_notifier d of
                 None \<Rightarrow> (None, d)
               | Some (c, ev) \<Rightarrow>
                   (Some \<lparr>nt_callable = c, nt_event = ev, nt_data = ds_my_id d,
                          nt_execution_time = now - ds_creation_tick d\<rparr>,
                    take_stream_stats_average d))
         else (None, d))"

definition is_finished :: "'c DataSet \<Rightarrow> bool" where
  "is_finished d = ds_finished d"

section \<open>Runs of a data set\<close>

fun notify_all :: "(Tick \<times> StreamStat option) list \<Rightarrow> 'c DataSet \<Rightarrow> 'c notification list \<times> 'c DataSet" where
  "notify_all [] d = ([], d)"
| "notify_all ((now, data) # xs) d =
     (let (n, d1) = notify_stream_finished now data d;
          (ns, d2) = notify_all xs d1
      in ((case n of None \<Rightarrow> ns | Some x \<Rightarrow> x # ns), d2))"

definition ds_core :: "'c DataSet \<Rightarrow> int \<times> int \<times> Tick \<times> ('c \<times> EventType) option" where
  "ds_core d = (ds_my_id d, ds_total_streams d, ds_creation_tick d, ds_notifier d)"

lemmas stat_defs = update_stream_stats_def update_network_stat_def update_bus_stats_def
  update_mem_bus_stats_def update_shared_bus_stats_def take_stream_stats_average_def
  take_network_stat_average_def take_bus_stats_average_def

lemma stats_frame [simp]:
  fixes d :: "'c DataSet"
  shows "ds_core (update_stream_stats st d) = ds_core d"
    "ds_finished_streams (update_stream_stats st d) = ds_finished_streams d"
    "ds_finished (update_stream_stats st d) = ds_finished d"
    "ds_finish_tick (update_stream_stats st d) = ds_finish_tick d"
    "ds_core (take_stream_stats_average d) = ds_core d"
    "ds_finished_streams (take_stream_stats_average d) = ds_finished_streams d"
    "ds_finished (take_stream_stats_average d) = ds_finished d"
    "ds_finish_tick (take_stream_stats_average d) = ds_finish_tick d"
  by (simp_all add: stat_defs Let_def ds_core_def)

lemma ds_core_upd [simp]:
  "ds_core (d\<lparr>ds_finished_streams := x\<rparr>) = ds_core d" "ds_core (d\<lparr>ds_finished := b\<rparr>) = ds_core d"
  "ds_core (d\<lparr>ds_finish_tick := t\<rparr>) = ds_core d"
  by (simp_all add: ds_core_def)

lemma notify_step:
  assumes "ds_core d = (i, n, t0, Some (c, ev))" and "ds_finished_streams d = k"
    and "notify_stream_finished now data d = (nt, d')"
  shows "ds_core d' = ds_core d \<and> ds_finished_streams d' = k + 1 \<and>
    ds_finished d' = (ds_finished d \<or> k + 1 = n) \<and>
    nt = (if k + 1 = n then Some \<lparr>nt_callable = c, nt_event = ev, nt_data = i, nt_execution_time = now - t0\<rparr>
          else None)"
proof -
  let ?d0 = "d\<lparr>ds_finished_streams := ds_finished_streams d + 1\<rparr>"
  define d1 where "d1 = (case data of None \<Rightarrow> ?d0 | Some st \<Rightarrow> update_stream_stats st ?d0)"
  have d1: "ds_core d1 = ds_core d" "ds_finished_streams d1 = k + 1" "ds_finished d1 = ds_finished d"
    using assms(2) by (simp_all add: d1_def split: option.split)
  then have f: "ds_my_id d1 = i" "ds_total_streams d1 = n" "ds_creation_tick d1 = t0" "ds_notifier d1 = Some (c, ev)"
    using assms(1) by (simp_all add: ds_core_def)
  have eq: "notify_stream_finished now data d =
      (if ds_finished_streams d1 = ds_total_streams d1
       then (case ds_notifier (d1\<lparr>ds_finished := True, ds_finish_tick := now\<rparr>) of
               None \<Rightarrow> (None, d1\<lparr>ds_finished := True, ds_finish_tick := now\<rparr>)
             | Some (c, ev) \<Rightarrow>
                 (Some \<lparr>nt_callable = c, nt_event = ev,
                        nt_data = ds_my_id (d1\<lparr>ds_finished := True, ds_finish_tick := now\<rparr>),
                        nt_execution_time = now - ds_creation_tick (d1\<lparr>ds_finished := True, ds_finish_tick := now\<rparr>)\<rparr>,
                  take_stream_stats_average (d1\<lparr>ds_finished := True, ds_finish_tick := now\<rparr>)))
       else (None, d1))"
    by (simp only: notify_stream_finished_def Let_def d1_def)
  have "(nt, d') = (if k + 1 = n
      then (Some \<lparr>nt_callable = c, nt_event = ev, nt_data = i, nt_execution_time = now - t0\<rparr>,
            take_stream_stats_average (d1\<lparr>ds_finished := True, ds_finish_tick := now\<rparr>))
      else (None, d1))"
    using assms(3) f d1 by (cases "k + 1 = n") (simp_all add: eq)
  then show ?thesis using d1 by (auto split: if_splits)
qed

lemma notify_complete:
  assumes "ds_core d = (i, n, t0, Some (c, ev))" and "ds_finished_streams d + 1 = n"
  shows "snd (notify_stream_finished t (Some st) d) =
    take_stream_stats_average ((update_stream_stats st (d\<lparr>ds_finished_streams := ds_finished_streams d + 1\<rparr>))
      \<lparr>ds_finished := True, ds_finish_tick := t\<rparr>)"
proof -
  define d2 where "d2 = update_stream_stats st (d\<lparr>ds_finished_streams := ds_finished_streams d + 1\<rparr>)"
  have "ds_core d2 = ds_core d" "ds_finished_streams d2 = n" using assms(2) by (simp_all add: d2_def)
  then have "ds_total_streams d2 = n" "ds_notifier d2 = Some (c, ev)" "ds_finished_streams d2 = n"
    using assms(1) by (simp_all add: ds_core_def)
  then show ?thesis
    unfolding notify_stream_finished_def Let_def option.case d2_def [symmetric] by simp
qed

lemma notify_all_result:
  assumes "ds_core d = (i, n, t0, Some (c, ev))" and "ds_finished_streams d = k" and "notify_all xs d = (ns, d')"
  shows "ds_finished d' = (ds_finished d \<or> k < n \<and> n \<le> k + int (length xs)) \<and>
    ns = (if k < n \<and> n \<le> k + int (length xs)
      then [\<lparr>nt_callable = c, nt_event = ev, nt_data = i,
             nt_execution_time = fst (xs ! nat (n - k - 1)) - t0\<rparr>] else [])"
  using assms
proof (induction xs arbitrary: d d' k ns)
  case Nil
  then show ?case by auto
next
  case (Cons x xs)
  obtain now data where x: "x = (now, data)" by (cases x)
  obtain nt d1 where s: "notify_stream_finished now data d = (nt, d1)" by fastforce
  obtain ns1 d2 where r: "notify_all xs d1 = (ns1, d2)" by fastforce
  note step = notify_step [OF Cons.prems(1,2) s]
  have core: "ds_core d1 = (i, n, t0, Some (c, ev))" using step Cons.prems(1) by simp
  note IH = Cons.IH [OF core _ r, of "k + 1"]
  have out: "d' = d2" "ns = (case nt of None \<Rightarrow> ns1 | Some y \<Rightarrow> y # ns1)"
    using Cons.prems(3) x s r by auto
  show ?case
  proof (cases "k + 1 = n")
    case True
    with step IH out x show ?thesis by auto
  next
    case False
    have idx: "nat (n - k - 1) = Suc (nat (n - (k + 1) - 1))" if "k + 1 < n" using that by auto
    from False step IH out idx show ?thesis by auto
  qed
qed

text \<open>
  Notification exactly once. A data set of \<open>n\<close> streams with a notifier calls it once, at
  the \<open>n\<close>-th finished stream and with the time since its creation, and never before or after; it
  is finished from that moment on.
\<close>

theorem dataset_notifies_once:
  assumes "0 < n"
    and "d = set_notifier c ev (DataSet_new i n t0)"
  shows "fst (notify_all xs d) = (if n \<le> int (length xs)
      then [\<lparr>nt_callable = c, nt_event = ev, nt_data = i,
             nt_execution_time = fst (xs ! nat (n - 1)) - t0\<rparr>] else []) \<and>
    (is_finished (snd (notify_all xs d)) \<longleftrightarrow> n \<le> int (length xs))"
proof -
  obtain ns d' where r: "notify_all xs d = (ns, d')" by fastforce
  have "ds_core d = (i, n, t0, Some (c, ev))" "ds_finished_streams d = 0" "\<not> ds_finished d"
    by (simp_all add: assms(2) ds_core_def set_notifier_def DataSet_new_def DataSet.defs StreamStat.defs
        StreamStat_new_def)
  from notify_all_result [OF this(1,2) r] this(3) assms(1) r show ?thesis
    by (simp add: is_finished_def)
qed

theorem dataset_notifies_once_witness:
  "fst (notify_all [(4, None), (9, None), (11, None)]
     (set_notifier ''workload'' CollectiveCommunicationFinished (DataSet_new 7 2 1)))
   = [\<lparr>nt_callable = ''workload'', nt_event = CollectiveCommunicationFinished, nt_data = 7,
       nt_execution_time = 8\<rparr>]"
  using dataset_notifies_once [OF _ refl, of 2 "[(4, None), (9, None), (11, None)]" "''workload''"
      CollectiveCommunicationFinished 7 1] by simp

section \<open>Averages\<close>

definition nth0 :: "rat list \<Rightarrow> nat \<Rightarrow> rat" where
  "nth0 xs j = (if j < length xs then xs ! j else 0)"

lemma add_pointwise_length: "length (add_pointwise xs ys) = length xs"
  by (induction xs ys rule: add_pointwise.induct) auto

lemma add_pointwise_nth:
  "j < length xs \<Longrightarrow> length ys \<le> length xs \<Longrightarrow> add_pointwise xs ys ! j = xs ! j + nth0 ys j"
  by (induction xs ys arbitrary: j rule: add_pointwise.induct) (auto simp: nth0_def nth_Cons' split: if_splits)

lemma accumulate_nth0: "nth0 (accumulate xs ys) j = nth0 xs j + nth0 ys j"
proof -
  let ?zs = "xs @ replicate (length ys - length xs) 0"
  have len: "length ys \<le> length ?zs" by simp
  show ?thesis
  proof (cases "j < length ?zs")
    case True
    have "nth0 (accumulate xs ys) j = ?zs ! j + nth0 ys j"
      using add_pointwise_nth [OF True len] True
      by (simp add: accumulate_def nth0_def [of "add_pointwise ?zs ys"] add_pointwise_length)
    also have "?zs ! j = nth0 xs j" using True by (auto simp: nth0_def nth_append)
    finally show ?thesis .
  next
    case False
    then show ?thesis by (auto simp: nth0_def accumulate_def add_pointwise_length)
  qed
qed

definition bus_totals :: "'a SharedBusStat_scheme \<Rightarrow> rat list" where
  "bus_totals s =
     [total_shared_bus_transfer_queue_delay s, total_shared_bus_transfer_delay s,
      total_shared_bus_processing_queue_delay s, total_shared_bus_processing_delay s,
      total_mem_bus_transfer_queue_delay s, total_mem_bus_transfer_delay s,
      total_mem_bus_processing_queue_delay s, total_mem_bus_processing_delay s]"

text \<open>What \<open>m\<close> accumulated statistics look like, as sums over the finished streams.\<close>

definition stats_sum :: "StreamStat list \<Rightarrow> 'a StreamStat_scheme \<Rightarrow> bool" where
  "stats_sum sts s \<longleftrightarrow>
     (\<forall>j. nth0 (queuing_delay s) j = (\<Sum>st\<leftarrow>sts. nth0 (queuing_delay st) j)) \<and>
     (\<forall>j. nth0 (net_message_latency s) j = (\<Sum>st\<leftarrow>sts. nth0 (net_message_latency st) j)) \<and>
     (\<forall>j < 8. bus_totals s ! j = (\<Sum>st\<leftarrow>sts. bus_totals st ! j)) \<and>
     stream_stat_counter s = length sts \<and> net_message_counter s = length sts \<and>
     shared_request_counter s = length sts \<and> mem_request_counter s = length sts"

lemma bus_totals_nth:
  "j < 8 \<Longrightarrow> bus_totals (update_stream_stats st s) ! j = bus_totals s ! j + bus_totals st ! j"
  "j < 8 \<Longrightarrow> shared_request_counter s = n \<Longrightarrow> mem_request_counter s = n \<Longrightarrow>
    bus_totals (take_stream_stats_average s) ! j = bus_totals s ! j / of_nat n"
  by (auto simp: bus_totals_def stat_defs Let_def less_Suc_eq eval_nat_numeral)

lemma update_stream_stats_sum:
  "stats_sum sts s \<Longrightarrow> stats_sum (sts @ [st]) (update_stream_stats st s)"
  unfolding stats_sum_def
  by (intro conjI allI impI) (simp_all add: bus_totals_nth, simp_all add: stat_defs Let_def accumulate_nth0)

lemma stats_sum_frame [simp]:
  "stats_sum sts (d\<lparr>ds_finished_streams := x\<rparr>) = stats_sum sts d"
  "stats_sum sts (d\<lparr>ds_finished := b\<rparr>) = stats_sum sts d"
  "stats_sum sts (d\<lparr>ds_finish_tick := t\<rparr>) = stats_sum sts d"
  by (simp_all add: stats_sum_def bus_totals_def)

lemma notify_all_append: "snd (notify_all (xs @ ys) d) = snd (notify_all ys (snd (notify_all xs d)))"
  by (induction xs arbitrary: d) (auto simp: split_beta)

lemma notify_accumulates:
  assumes "ds_finished_streams d + int (length xs) < ds_total_streams d" and "stats_sum sts d"
  shows "stats_sum (sts @ map snd xs) (snd (notify_all (map (\<lambda>(t, st). (t, Some st)) xs) d)) \<and>
    ds_finished_streams (snd (notify_all (map (\<lambda>(t, st). (t, Some st)) xs) d)) = ds_finished_streams d + int (length xs) \<and>
    ds_core (snd (notify_all (map (\<lambda>(t, st). (t, Some st)) xs) d)) = ds_core d"
  using assms
proof (induction xs arbitrary: d sts)
  case Nil
  then show ?case by simp
next
  case (Cons x xs)
  obtain t st where x: "x = (t, st)" by (cases x)
  let ?d = "update_stream_stats st (d\<lparr>ds_finished_streams := ds_finished_streams d + 1\<rparr>)"
  have tot: "ds_total_streams ?d = ds_total_streams d" by (simp add: stat_defs Let_def)
  have "notify_stream_finished t (Some st) d = (None, ?d)"
    using Cons.prems(1) tot by (simp add: notify_stream_finished_def Let_def)
  moreover have "stats_sum (sts @ [st]) ?d"
    using Cons.prems(2) by (intro update_stream_stats_sum) simp
  ultimately show ?case
    using Cons.IH [of ?d "sts @ [st]"] Cons.prems(1) tot x by (simp add: split_beta)
qed

lemma nth0_map: "f 0 = 0 \<Longrightarrow> nth0 (map f xs) j = f (nth0 xs j)"
  by (simp add: nth0_def)

lemma average_of_sum:
  assumes "stats_sum sts s" and "length sts = n"
  shows "(\<forall>j. nth0 (queuing_delay (take_stream_stats_average s)) j
            = (\<Sum>st\<leftarrow>sts. nth0 (queuing_delay st) j) / of_nat n) \<and>
    (\<forall>j. nth0 (net_message_latency (take_stream_stats_average s)) j
            = (\<Sum>st\<leftarrow>sts. nth0 (net_message_latency st) j) / of_nat n) \<and>
    (\<forall>j < 8. bus_totals (take_stream_stats_average s) ! j = (\<Sum>st\<leftarrow>sts. bus_totals st ! j) / of_nat n)"
proof (intro conjI allI impI)
  fix j
  show "nth0 (queuing_delay (take_stream_stats_average s)) j = (\<Sum>st\<leftarrow>sts. nth0 (queuing_delay st) j) / of_nat n"
    "nth0 (net_message_latency (take_stream_stats_average s)) j
       = (\<Sum>st\<leftarrow>sts. nth0 (net_message_latency st) j) / of_nat n"
    using assms by (simp_all add: stats_sum_def take_stream_stats_average_def take_network_stat_average_def
        take_bus_stats_average_def Let_def nth0_map)
  assume "j < 8"
  then show "bus_totals (take_stream_stats_average s) ! j = (\<Sum>st\<leftarrow>sts. bus_totals st ! j) / of_nat n"
    using assms bus_totals_nth(2) [of j s n] by (simp add: stats_sum_def)
qed

text \<open>
  The reported statistics are averages. When the last of the \<open>n\<close> streams of a data set has
  finished, every delay of the data set (queueing per phase, network latency per phase, all
  eight bus delays) is the sum over the streams divided by \<open>n\<close>, missing entries counting as 0.
\<close>

theorem dataset_averages:
  assumes "length xs = n" and "0 < n" and "d = set_notifier c ev (DataSet_new i (int n) t0)"
    and "d' = snd (notify_all (map (\<lambda>(t, st). (t, Some st)) xs) d)"
  shows "(\<forall>j. nth0 (queuing_delay d') j = (\<Sum>st\<leftarrow>map snd xs. nth0 (queuing_delay st) j) / of_nat n) \<and>
    (\<forall>j. nth0 (net_message_latency d') j = (\<Sum>st\<leftarrow>map snd xs. nth0 (net_message_latency st) j) / of_nat n) \<and>
    (\<forall>j < 8. bus_totals d' ! j = (\<Sum>st\<leftarrow>map snd xs. bus_totals st ! j) / of_nat n)"
proof -
  obtain ys t st where xs: "xs = ys @ [(t, st)]"
    using assms(1,2) by (metis length_greater_0_conv rev_exhaust surj_pair)
  have init: "stats_sum [] d" "ds_finished_streams d = 0" "ds_core d = (i, int n, t0, Some (c, ev))"
    by (simp_all add: assms(3) ds_core_def set_notifier_def DataSet_new_def DataSet.defs StreamStat.defs
        StreamStat_new_def stats_sum_def nth0_def bus_totals_def less_Suc_eq eval_nat_numeral)
  let ?d1 = "snd (notify_all (map (\<lambda>(t, st). (t, Some st)) ys) d)"
  have d1: "stats_sum (map snd ys) ?d1" "ds_finished_streams ?d1 = int (length ys)" "ds_core ?d1 = ds_core d"
    using notify_accumulates [of d ys "[]"] init assms(1) xs by (auto simp: ds_core_def)
  let ?d2 = "update_stream_stats st (?d1\<lparr>ds_finished_streams := ds_finished_streams ?d1 + 1\<rparr>)"
  have core: "ds_core ?d2 = (i, int n, t0, Some (c, ev))" using d1(3) init(3) by simp
  have d': "d' = take_stream_stats_average (?d2\<lparr>ds_finished := True, ds_finish_tick := t\<rparr>)"
  proof -
    have "ds_core ?d1 = (i, int n, t0, Some (c, ev))" "ds_finished_streams ?d1 + 1 = int n"
      using d1(2,3) init(3) assms(1) xs by auto
    from notify_complete [OF this, of t st] show ?thesis
      unfolding assms(4) xs map_append notify_all_append by (simp add: split_beta)
  qed
  have sum: "stats_sum (map snd xs) (?d2\<lparr>ds_finished := True, ds_finish_tick := t\<rparr>)"
    using update_stream_stats_sum [of "map snd ys" "?d1\<lparr>ds_finished_streams := ds_finished_streams ?d1 + 1\<rparr>" st]
      d1(1) xs by simp
  have len: "length (map snd xs) = n" using assms(1) by simp
  show ?thesis unfolding d' by (rule average_of_sum [OF sum len])
qed

theorem dataset_averages_witness:
  "nth0 (queuing_delay (snd (notify_all [(3, Some (StreamStat_new\<lparr>queuing_delay := [4, 6]\<rparr>)),
      (5, Some (StreamStat_new\<lparr>queuing_delay := [2]\<rparr>))]
      (set_notifier ''w'' CompFinished (DataSet_new 0 2 0))))) 1 = 3"
proof -
  let ?xs = "[(3, StreamStat_new\<lparr>queuing_delay := [4, 6]\<rparr>), (5, StreamStat_new\<lparr>queuing_delay := [2]\<rparr>)]"
  have "length ?xs = 2" "(0::nat) < 2" by simp_all
  from dataset_averages [OF this refl refl, of "''w''" CompFinished 0 0, THEN conjunct1, THEN spec, of 1]
  show ?thesis by (simp add: nth0_def [of "[4, 6]"] nth0_def [of "[2]"])
qed

end
