(* ===== verification/Halving_Doubling.thy ===== *)
theory Halving_Doubling
  imports Ring_Algorithm
begin

text \<open>
  The halving-doubling collective of \<^verbatim>\<open>collective_algorithm/HalvingDoubling.cc\<close>:
  constructor, the event handler \<^verbatim>\<open>run\<close> and every method it calls. In each step a node
  exchanges data with the node whose ring index differs in one bit. Calls that leave the object
  are logged as for the ring.
\<close>

section \<open>State\<close>

text \<open>\<^verbatim>\<open>offset_multiplier\<close> is a \<^verbatim>\<open>double\<close> that only takes the values 2 and 0.5.\<close>

datatype offset_multiplier = Times_2 | Times_half

record HalvingDoubling =
  hd_comType :: ComType
  hd_id :: int
  hd_logical_topo :: RingTopology
  hd_data_size :: u64
  hd_final_data_size :: u64
  hd_msg_size :: u64
  hd_transmition :: Transmition
  hd_zero_latency_packets :: int
  hd_non_zero_latency_packets :: int
  hd_curr_receiver :: int
  hd_curr_sender :: int
  hd_nodes_in_ring :: int
  hd_stream_count :: int
  hd_max_count :: int
  hd_remained_packets_per_max_count :: int
  hd_remained_packets_per_message :: int
  hd_parallel_reduce :: int
  hd_packets :: "MyPacket list"
  hd_toggle :: bool
  hd_free_packets :: int
  hd_total_packets_sent :: int
  hd_total_packets_received :: int
  hd_locked_packets :: "MyPacket list"
  hd_processed :: bool
  hd_send_back :: bool
  hd_NPU_to_MA :: bool
  hd_rank_offset :: int
  hd_offset_multiplier :: offset_multiplier
  hd_stream_state :: StreamState
  hd_stream_id :: int
  hd_current_queue_id :: int
  hd_log :: "effect list"

section \<open>Arithmetic\<close>

text \<open>
  The truncation of \<^verbatim>\<open>log2(n)\<close> to an \<^verbatim>\<open>int\<close>, for positive \<open>n\<close>, and the compound
  assignments with the multiplier. A \<^verbatim>\<open>uint64_t\<close> goes through a \<^verbatim>\<open>double\<close> there, which
  is exact for sizes up to \<open>2 ^ 53\<close>.
\<close>

fun ilog2 :: "nat \<Rightarrow> nat" where
  "ilog2 n = (if n < 2 then 0 else Suc (ilog2 (n div 2)))"

declare ilog2.simps [simp del]

fun scale_rank :: "offset_multiplier \<Rightarrow> int \<Rightarrow> int" where
  "scale_rank Times_2 rank_offset = rank_offset * 2"
| "scale_rank Times_half rank_offset = c_div rank_offset 2"

fun scale_msg :: "offset_multiplier \<Rightarrow> u64 \<Rightarrow> u64" where
  "scale_msg Times_2 msg_size = msg_size div 2"
| "scale_msg Times_half msg_size = msg_size * 2"

section \<open>Operations\<close>

definition specify_direction :: "RingTopology \<Rightarrow> int \<Rightarrow> Direction" where
  "specify_direction t rank_offset =
     (if rank_offset = 0 then Clockwise
      else let reminder = c_mod (c_div (get_index_in_ring t) rank_offset) 2
           in if reminder = 0 then Clockwise else Anticlockwise)"

text \<open>
  The loop that walks \<open>rank_offset\<close> hops: it returns the receiver, and the sender is the
  receiver when at least one hop was made and keeps its value otherwise.
\<close>

definition walk_peers :: "RingTopology \<Rightarrow> int \<Rightarrow> int \<Rightarrow> int \<Rightarrow> (int \<times> int) result" where
  "walk_peers t nid rank_offset sender =
     rbind (iter_result (nat rank_offset) (\<lambda>x. get_receiver t x (specify_direction t rank_offset)) nid)
       (\<lambda>receiver. Inr (receiver, if 0 < rank_offset then receiver else sender))"

text \<open>The sizes, the first offset and the multiplier chosen by the last \<^verbatim>\<open>switch\<close>.\<close>

definition HD_sizes :: "ComType \<Rightarrow> u64 \<Rightarrow> int \<Rightarrow> (u64 \<times> u64 \<times> int \<times> offset_multiplier) result" where
  "HD_sizes type data_size nodes_in_ring =
     (let n = u64_of_int nodes_in_ring in
      case type of
        All_Reduce \<Rightarrow> Inr (data_size, data_size div 2, 1, Times_2)
      | All_Gather \<Rightarrow> Inr (data_size * n, data_size, c_div nodes_in_ring 2, Times_half)
      | Reduce_Scatter \<Rightarrow>
          if n = 0 then Inl (DivisionByZero ''data_size / nodes_in_ring'')
          else Inr (data_size div n, data_size div 2, 1, Times_2)
      | _ \<Rightarrow> Inl (ProcessExit ''unknown communication type for HalvingDoubling collective algorithm''))"

text \<open>
  For All-Reduce \<^verbatim>\<open>2 * log2(n)\<close> is truncated after the multiplication, which is the
  truncated logarithm of the square. \<open>uninit\<close> is the content of \<^verbatim>\<open>curr_sender\<close> when the
  constructor does not set it.
\<close>

definition HalvingDoubling_new ::
    "ComType \<Rightarrow> int \<Rightarrow> RingTopology \<Rightarrow> u64 \<Rightarrow> int \<Rightarrow> HalvingDoubling result" where
  "HalvingDoubling_new type nid ring_topology data_size uninit =
     (let nodes_in_ring = get_nodes_in_ring ring_topology; lg = int (ilog2 (nat nodes_in_ring)) in
      rbind (HD_sizes type data_size nodes_in_ring) (\<lambda>(final_data_size, msg_size, rank_offset, mult).
      rbind (walk_peers ring_topology nid rank_offset uninit) (\<lambda>(receiver, sender).
        Inr \<lparr>hd_comType = type, hd_id = nid, hd_logical_topo = ring_topology,
             hd_data_size = data_size, hd_final_data_size = final_data_size, hd_msg_size = msg_size,
             hd_transmition = (if get_dimension ring_topology = DimLocal then Fast else Usual),
             hd_zero_latency_packets = 0, hd_non_zero_latency_packets = 0,
             hd_curr_receiver = receiver, hd_curr_sender = sender,
             hd_nodes_in_ring = nodes_in_ring,
             hd_stream_count = (if type = All_Reduce then int (ilog2 (nat nodes_in_ring ^ 2)) else lg),
             hd_max_count = (if type = All_Gather then 0 else lg),
             hd_remained_packets_per_max_count = 1, hd_remained_packets_per_message = 1,
             hd_parallel_reduce = 1, hd_packets = [], hd_toggle = False, hd_free_packets = 0,
             hd_total_packets_sent = 0, hd_total_packets_received = 0, hd_locked_packets = [],
             hd_processed = False, hd_send_back = False, hd_NPU_to_MA = False,
             hd_rank_offset = rank_offset, hd_offset_multiplier = mult,
             hd_stream_state = Created, hd_stream_id = 0, hd_current_queue_id = -1, hd_log = []\<rparr>)))"

definition HD_init :: "int \<Rightarrow> int \<Rightarrow> StreamState \<Rightarrow> HalvingDoubling \<Rightarrow> HalvingDoubling" where
  "HD_init stream_id current_queue_id state h =
     h\<lparr>hd_stream_id := stream_id, hd_current_queue_id := current_queue_id, hd_stream_state := state\<rparr>"

definition HD_get_non_zero_latency_packets :: "HalvingDoubling \<Rightarrow> int" where
  "HD_get_non_zero_latency_packets h =
     int (ilog2 (nat (hd_nodes_in_ring h))) - 1 * hd_parallel_reduce h"

definition HD_release_packets :: "HalvingDoubling \<Rightarrow> HalvingDoubling" where
  "HD_release_packets h =
     h\<lparr>hd_log := hd_log h @
         [(if hd_NPU_to_MA h then SendToMA else SendToNPU)
            (hd_locked_packets h) (hd_processed h) (hd_send_back h) (hd_msg_size h) (hd_transmition h)],
       hd_locked_packets := []\<rparr>"

definition HD_rescale :: "HalvingDoubling \<Rightarrow> HalvingDoubling" where
  "HD_rescale h =
     (let h = h\<lparr>hd_rank_offset := scale_rank (hd_offset_multiplier h) (hd_rank_offset h),
                hd_msg_size := scale_msg (hd_offset_multiplier h) (hd_msg_size h)\<rparr>
      in if hd_rank_offset h = hd_nodes_in_ring h \<and> hd_comType h = All_Reduce
         then h\<lparr>hd_offset_multiplier := Times_half,
                hd_rank_offset := scale_rank Times_half (hd_rank_offset h),
                hd_msg_size := scale_msg Times_half (hd_msg_size h)\<rparr>
         else h)"

definition HD_process_max_count :: "HalvingDoubling \<Rightarrow> HalvingDoubling result" where
  "HD_process_max_count h =
     (let h = (if hd_remained_packets_per_max_count h > 0
               then h\<lparr>hd_remained_packets_per_max_count := hd_remained_packets_per_max_count h - 1\<rparr>
               else h)
      in if hd_remained_packets_per_max_count h = 0
         then (let h = HD_rescale ((HD_release_packets (h\<lparr>hd_max_count := hd_max_count h - 1\<rparr>))
                         \<lparr>hd_remained_packets_per_max_count := 1\<rparr>)
               in rbind (walk_peers (hd_logical_topo h) (hd_id h) (hd_rank_offset h) (hd_curr_sender h))
                    (\<lambda>(receiver, sender).
                      Inr (h\<lparr>hd_curr_receiver := receiver, hd_curr_sender := sender\<rparr>)))
         else Inr h)"

definition HD_push_packet :: "HalvingDoubling \<Rightarrow> HalvingDoubling" where
  "HD_push_packet h =
     (let p = MyPacket_sized (hd_msg_size h) (hd_current_queue_id h) (hd_curr_sender h) (hd_curr_receiver h)
      in h\<lparr>hd_packets := hd_packets h @ [p], hd_locked_packets := hd_locked_packets h @ [p]\<rparr>)"

definition HD_start_round :: "HalvingDoubling \<Rightarrow> HalvingDoubling" where
  "HD_start_round h =
     (if hd_zero_latency_packets h = 0 \<and> hd_non_zero_latency_packets h = 0
      then h\<lparr>hd_zero_latency_packets := hd_parallel_reduce h * 1,
             hd_non_zero_latency_packets := HD_get_non_zero_latency_packets h,
             hd_toggle := \<not> hd_toggle h\<rparr>
      else h)"

definition HD_insert_packet :: "HalvingDoubling \<Rightarrow> HalvingDoubling result" where
  "HD_insert_packet h0 =
     (let h = HD_start_round h0 in
      if hd_zero_latency_packets h > 0 then
        rbind (HD_process_max_count
                 ((HD_push_packet h)\<lparr>hd_processed := False, hd_send_back := False, hd_NPU_to_MA := True\<rparr>))
          (\<lambda>h. Inr (h\<lparr>hd_zero_latency_packets := hd_zero_latency_packets h - 1\<rparr>))
      else if hd_non_zero_latency_packets h > 0 then
        rbind (HD_process_max_count
                 ((HD_push_packet h)
                    \<lparr>hd_processed := (hd_comType h = Reduce_Scatter \<or> hd_comType h = All_Reduce \<and> hd_toggle h),
                     hd_send_back := \<not> (hd_non_zero_latency_packets h \<le> hd_parallel_reduce h * 1),
                     hd_NPU_to_MA := False\<rparr>))
          (\<lambda>h. Inr (h\<lparr>hd_non_zero_latency_packets := hd_non_zero_latency_packets h - 1\<rparr>))
      else Inl (SysPanic ''should not inject nothing!''))"

definition HD_process_stream_count :: "HalvingDoubling \<Rightarrow> HalvingDoubling" where
  "HD_process_stream_count h =
     (let h = (if hd_remained_packets_per_message h > 0
               then h\<lparr>hd_remained_packets_per_message := hd_remained_packets_per_message h - 1\<rparr> else h);
          h = (if hd_remained_packets_per_message h = 0 \<and> hd_stream_count h > 0
               then (let h = h\<lparr>hd_stream_count := hd_stream_count h - 1\<rparr>
                     in if hd_stream_count h > 0 then h\<lparr>hd_remained_packets_per_message := 1\<rparr> else h)
               else h)
      in if hd_remained_packets_per_message h = 0 \<and> hd_stream_count h = 0 \<and> hd_stream_state h \<noteq> Dead
         then h\<lparr>hd_stream_state := Zombie\<rparr> else h)"

definition HD_reduce :: "HalvingDoubling \<Rightarrow> HalvingDoubling" where
  "HD_reduce h =
     (let h = HD_process_stream_count h
      in h\<lparr>hd_packets := tl (hd_packets h), hd_free_packets := hd_free_packets h - 1,
           hd_total_packets_sent := hd_total_packets_sent h + 1\<rparr>)"

definition HD_ready :: "HalvingDoubling \<Rightarrow> bool \<times> HalvingDoubling" where
  "HD_ready h0 =
     (let h = (if hd_stream_state h0 = Created \<or> hd_stream_state h0 = Ready
               then h0\<lparr>hd_stream_state := Executing\<rparr> else h0)
      in if hd_packets h = [] \<or> hd_stream_count h = 0 \<or> hd_free_packets h = 0 then (False, h)
         else (let packet = hd (hd_packets h)
               in (True, HD_reduce (h\<lparr>hd_log := hd_log h @
                    [FrontEndSend (mp_msg_size packet) (mp_preferred_dest packet) (hd_stream_id h),
                     FrontEndRecv (mp_msg_size packet) (mp_preferred_src packet) (hd_stream_id h)]\<rparr>))))"

definition HD_exit :: "HalvingDoubling \<Rightarrow> HalvingDoubling" where
  "HD_exit h = h\<lparr>hd_packets := [], hd_locked_packets := [], hd_log := hd_log h @ [ProceedToNextVnet]\<rparr>"

definition HD_iteratable :: "HalvingDoubling \<Rightarrow> bool \<times> HalvingDoubling" where
  "HD_iteratable h =
     (if hd_stream_count h = 0 \<and> hd_free_packets h = hd_parallel_reduce h * 1
      then (False, HD_exit h) else (True, h))"

definition HD_run :: "EventType \<Rightarrow> HalvingDoubling \<Rightarrow> HalvingDoubling result" where
  "HD_run event h =
     (if event = General then
        Inr (snd (HD_iteratable (snd (HD_ready (h\<lparr>hd_free_packets := hd_free_packets h + 1\<rparr>)))))
      else if event = PacketReceived then
        HD_insert_packet (h\<lparr>hd_total_packets_received := hd_total_packets_received h + 1\<rparr>)
      else if event = StreamInit then
        iter_result (nat (hd_parallel_reduce h)) HD_insert_packet h
      else Inr h)"

section \<open>Partners\<close>

text \<open>The node with the given index exchanges with the node at distance \<open>r\<close>, up or down.\<close>

definition partner :: "nat \<Rightarrow> nat \<Rightarrow> nat" where
  "partner r i = (if even (i div r) then i + r else i - r)"

lemma partner_lt:
  assumes "i < 2 ^ m" and "k < m"
  shows "partner (2 ^ k) i < 2 ^ m" "odd (i div 2 ^ k) \<Longrightarrow> 2 ^ k \<le> i"
proof -
  let ?q = "i div 2 ^ k"
  have q: "?q < 2 ^ (m - k)"
    using assms by (simp add: less_mult_imp_div_less flip: power_add)
  have even: "even (2 ^ (m - k) :: nat)" using assms(2) by simp
  show "partner (2 ^ k) i < 2 ^ m"
  proof (cases "even ?q")
    case True
    then have "Suc ?q < 2 ^ (m - k)" using q even by (metis Suc_lessI even_Suc)
    then have "(Suc ?q + 1) * 2 ^ k \<le> 2 ^ (m - k) * 2 ^ k" by (intro mult_right_mono) simp_all
    also have "\<dots> = 2 ^ m" using assms(2) by (simp flip: power_add)
    finally have "(Suc ?q + 1) * 2 ^ k \<le> (2 ^ m :: nat)" .
    moreover have "i = ?q * 2 ^ k + i mod 2 ^ k" by (rule div_mult_mod_eq [symmetric])
    moreover have "i mod 2 ^ k < 2 ^ k" by simp
    ultimately have "i + 2 ^ k < 2 ^ m" unfolding add_mult_distrib mult_Suc mult_1 by linarith
    then show ?thesis using True by (simp add: partner_def)
  next
    case False
    then show ?thesis using assms(1) by (simp add: partner_def)
  qed
  show "2 ^ k \<le> i" if "odd ?q"
    using that by (metis div_less even_zero linorder_not_less)
qed

lemma partner_involution:
  assumes "i < 2 ^ m" and "k < m"
  shows "partner (2 ^ k) (partner (2 ^ k) i) = i"
proof (cases "even (i div 2 ^ k)")
  case True
  then have "odd ((i + 2 ^ k) div 2 ^ k)" using div_mult_self1 [of "2 ^ k" i 1] by simp
  with True show ?thesis by (simp add: partner_def)
next
  case False
  then have "2 ^ k \<le> i" by (rule partner_lt(2) [OF assms])
  moreover have "i div 2 ^ k = Suc ((i - 2 ^ k) div 2 ^ k)"
    using calculation by (simp add: le_div_geq)
  ultimately show ?thesis using False by (simp add: partner_def)
qed

lemma ring_at_rev_index:
  assumes "ring_wf t" and "i < ring_size t"
  shows "ring_at t i = ring_at_rev t ((ring_size t - i) mod ring_size t)"
  using assms by (cases i) (simp_all add: ring_at_rev_def)

lemma walk_anticlockwise:
  assumes "ring_wf t" and "i < ring_size t" and "r \<le> i" and "0 < r"
  shows "iter_result r (\<lambda>x. get_receiver t x Anticlockwise) (ring_at t i) = Inr (ring_at t (i - r))"
proof -
  let ?n = "ring_size t"
  have "(?n - i) mod ?n = ?n - i" using assms by simp
  then have "iter_result r (\<lambda>x. get_receiver t x Anticlockwise) (ring_at t i)
      = Inr (ring_at_rev t ((?n - i + r) mod ?n))"
    using acw.iter_succ [OF assms(1), of "?n - i" r] ring_at_rev_index [OF assms(1,2)] assms by simp
  moreover have "(?n - (?n - i + r) mod ?n) mod ?n = i - r"
    using assms by (cases "i = r") (simp_all add: mod_if)
  ultimately show ?thesis by (simp add: ring_at_rev_def)
qed

lemma walk_partner:
  assumes "ring_wf t" and "ring_size t = 2 ^ m" and "k < m" and "rt_index_in_ring t = int i"
    and "i < 2 ^ m"
  shows "walk_peers t (ring_at t i) (2 ^ k) s
    = Inr (ring_at t (partner (2 ^ k) i), ring_at t (partner (2 ^ k) i))"
proof -
  have idx: "c_mod (c_div (get_index_in_ring t) (2 ^ k)) 2 = int ((i div 2 ^ k) mod 2)"
  proof -
    have "0 \<le> int i div 2 ^ k" by (simp add: pos_imp_zdiv_nonneg_iff)
    then show ?thesis using assms(4) by (simp add: get_index_in_ring_def zdiv_int zmod_int)
  qed
  have nat: "nat (2 ^ k :: int) = 2 ^ k" by (simp add: nat_power_eq)
  show ?thesis
  proof (cases "even (i div 2 ^ k)")
    case True
    then have "specify_direction t (2 ^ k) = Clockwise"
      using idx by (simp add: specify_direction_def Let_def even_iff_mod_2_eq_zero)
    moreover have "partner (2 ^ k) i = (i + 2 ^ k) mod 2 ^ m"
      using partner_lt(1) [OF assms(5,3)] True by (simp add: partner_def)
    ultimately show ?thesis
      using cw.iter_succ [OF assms(1), of i "2 ^ k"] assms by (simp add: walk_peers_def nat)
  next
    case False
    then have "specify_direction t (2 ^ k) = Anticlockwise"
      using idx by (simp add: specify_direction_def Let_def odd_iff_mod_2_eq_one)
    moreover have "2 ^ k \<le> i" by (rule partner_lt(2) [OF assms(5,3) False])
    ultimately show ?thesis
      using walk_anticlockwise [of t i "2 ^ k"] False assms
      by (simp add: walk_peers_def nat partner_def)
  qed
qed

lemma walk_peers_ok:
  assumes "ring_wf t" and "x \<in> ring_members t"
  shows "\<exists>p. walk_peers t x r s = Inr p"
proof -
  have "\<exists>y. iter_result (nat r) (\<lambda>x. get_receiver t x (specify_direction t r)) x = Inr y"
    using cw.iter_succ_in [of t x "nat r"] acw.iter_succ_in [of t x "nat r"] assms
    by (cases "specify_direction t r") (auto simp: mem_eq_ring_members)
  then show ?thesis by (auto simp: walk_peers_def)
qed

lemma ilog2_power: "ilog2 (2 ^ m) = m"
proof (induction m)
  case 0
  show ?case by (subst ilog2.simps) simp
next
  case (Suc m)
  then show ?case by (subst ilog2.simps) simp
qed

section \<open>The schedule\<close>

text \<open>Distance, message size and multiplier of step \<open>j\<close>, and the number of steps.\<close>

definition hd_steps :: "ComType \<Rightarrow> nat \<Rightarrow> nat" where
  "hd_steps type m = (if type = All_Reduce then 2 * m else m)"

definition hd_off :: "ComType \<Rightarrow> nat \<Rightarrow> nat \<Rightarrow> nat" where
  "hd_off type m j =
     (case type of
        All_Gather \<Rightarrow> if j < m then 2 ^ (m - 1 - j) else 0
      | All_Reduce \<Rightarrow> if j < m then 2 ^ j else if j < 2 * m then 2 ^ (2 * m - 1 - j) else 0
      | _ \<Rightarrow> 2 ^ j)"

definition hd_size :: "ComType \<Rightarrow> nat \<Rightarrow> u64 \<Rightarrow> nat \<Rightarrow> u64" where
  "hd_size type m d j =
     (case type of
        All_Gather \<Rightarrow> push_bit j d
      | All_Reduce \<Rightarrow> if j < m then drop_bit (Suc j) d else push_bit (Suc (j - m)) (drop_bit (Suc m) d)
      | _ \<Rightarrow> drop_bit (Suc j) d)"

definition hd_mult :: "ComType \<Rightarrow> nat \<Rightarrow> nat \<Rightarrow> offset_multiplier" where
  "hd_mult type m j = (if type = All_Gather \<or> type = All_Reduce \<and> m \<le> j then Times_half else Times_2)"

definition hd_type :: "ComType \<Rightarrow> bool" where
  "hd_type type \<longleftrightarrow> type = All_Reduce \<or> type = All_Gather \<or> type = Reduce_Scatter"

definition hd_at :: "nat \<Rightarrow> u64 \<Rightarrow> nat \<Rightarrow> HalvingDoubling \<Rightarrow> bool" where
  "hd_at m d j h \<longleftrightarrow> hd_rank_offset h = int (hd_off (hd_comType h) m j) \<and>
     hd_msg_size h = hd_size (hd_comType h) m d j \<and> hd_offset_multiplier h = hd_mult (hd_comType h) m j"

lemma push_double: "push_bit k x * 2 = push_bit (Suc k) (x :: u64)"
  by (simp add: push_bit_double push_bit_Suc mult.commute)

lemma c_div_2_power: "c_div (2 ^ Suc e) 2 = 2 ^ e" "c_div 1 2 = 0"
  by simp_all

lemma hd_off_is_power:
  assumes "hd_type type" and "j < hd_steps type m"
  shows "\<exists>k < m. hd_off type m j = 2 ^ k"
proof -
  consider "type = All_Gather" | "type = Reduce_Scatter" | "type = All_Reduce" "j < m"
    | "type = All_Reduce" "m \<le> j"
    using assms(1) linorder_not_less [of j m] unfolding hd_type_def by metis
  then show ?thesis
  proof cases
    case 1
    then show ?thesis
      using assms by (intro exI [of _ "m - 1 - j"]) (simp add: hd_off_def hd_steps_def)
  next
    case 2
    then show ?thesis using assms by (intro exI [of _ j]) (simp add: hd_off_def hd_steps_def)
  next
    case 3
    then show ?thesis by (intro exI [of _ j]) (simp add: hd_off_def)
  next
    case 4
    then show ?thesis
      using assms by (intro exI [of _ "2 * m - 1 - j"]) (simp add: hd_off_def hd_steps_def)
  qed
qed

lemma HD_rescale_step:
  assumes "hd_at m d j h" and "hd_type (hd_comType h)" and "hd_nodes_in_ring h = 2 ^ m"
    and "j < hd_steps (hd_comType h) m"
  shows "hd_at m d (Suc j) (HD_rescale h)"
proof -
  consider "hd_comType h = All_Gather" "Suc j < m" | "hd_comType h = All_Gather" "Suc j = m"
    | "hd_comType h = Reduce_Scatter" | "hd_comType h = All_Reduce" "Suc j < m"
    | "hd_comType h = All_Reduce" "Suc j = m" | "hd_comType h = All_Reduce" "m \<le> j" "Suc j < 2 * m"
    | "hd_comType h = All_Reduce" "m \<le> j" "Suc j = 2 * m"
    using assms(2,4) by (fastforce simp: hd_type_def hd_steps_def)
  then show ?thesis
  proof cases
    case 1
    then have "m - 1 - j = Suc (m - 1 - Suc j)" by simp
    with 1 assms show ?thesis
      by (simp add: hd_at_def HD_rescale_def Let_def hd_off_def hd_size_def hd_mult_def push_bit_double
          push_bit_Suc mult.commute)
  next
    case 2
    with assms show ?thesis
      by (auto simp: hd_at_def HD_rescale_def Let_def hd_off_def hd_size_def hd_mult_def push_bit_double
          push_bit_Suc mult.commute)
  next
    case 3
    with assms show ?thesis
      by (simp add: hd_at_def HD_rescale_def Let_def hd_off_def hd_size_def hd_mult_def drop_bit_half
          drop_bit_Suc)
  next
    case 4
    then have "(2 :: int) * 2 ^ j \<noteq> 2 ^ m"
      unfolding power_Suc [symmetric] by (simp del: power_Suc)
    with 4 assms show ?thesis
      by (simp add: hd_at_def HD_rescale_def Let_def hd_off_def hd_size_def hd_mult_def drop_bit_half
          drop_bit_Suc mult.commute)
  next
    case 5
    have n: "hd_rank_offset h = 2 ^ j" "hd_msg_size h = drop_bit (Suc j) d" "hd_offset_multiplier h = Times_2"
      "hd_nodes_in_ring h = 2 * 2 ^ j"
      using 5 assms(1,3) by (auto simp: hd_at_def hd_off_def hd_size_def hd_mult_def)
    have "hd_at (Suc j) d (Suc j) (HD_rescale h)"
      using n 5(1) by (simp add: hd_at_def HD_rescale_def Let_def hd_off_def hd_size_def hd_mult_def
          drop_bit_half drop_bit_Suc mult.commute)
    with 5(2) show ?thesis by simp
  next
    case 6
    then have e: "2 * m - 1 - j = Suc (2 * m - 1 - Suc j)" "Suc j - m = Suc (j - m)" by simp_all
    have "(2 :: int) ^ (2 * m - 1 - Suc j) \<noteq> 2 ^ m" using 6 by simp
    with 6 e assms show ?thesis
      by (simp add: hd_at_def HD_rescale_def Let_def hd_off_def hd_size_def hd_mult_def push_double)
  next
    case 7
    then have e: "2 * m - 1 - j = 0" "Suc j - m = Suc (j - m)" "0 < m" by simp_all
    with 7 assms show ?thesis
      by (simp add: hd_at_def HD_rescale_def Let_def hd_off_def hd_size_def hd_mult_def push_double)
  qed
qed

section \<open>The handler as a machine\<close>

text \<open>What stays true of a node with index \<open>i\<close> in a ring of \<open>2 ^ m\<close> nodes.\<close>

definition hd_core :: "nat \<Rightarrow> nat \<Rightarrow> HalvingDoubling \<Rightarrow> bool" where
  "hd_core m i h \<longleftrightarrow> ring_wf (hd_logical_topo h) \<and> ring_size (hd_logical_topo h) = 2 ^ m \<and>
     rt_index_in_ring (hd_logical_topo h) = int i \<and> i < 2 ^ m \<and> 0 < m \<and>
     hd_id h = ring_at (hd_logical_topo h) i \<and> hd_type (hd_comType h) \<and>
     hd_nodes_in_ring h = 2 ^ m \<and> hd_parallel_reduce h = 1 \<and>
     0 \<le> hd_zero_latency_packets h \<and> 0 \<le> hd_non_zero_latency_packets h \<and>
     hd_remained_packets_per_max_count h = 1 \<and> hd_locked_packets h = [] \<and>
     0 \<le> hd_stream_count h \<and> (0 < hd_stream_count h \<longrightarrow> hd_remained_packets_per_message h = 1)"

definition hd_peer :: "HalvingDoubling \<Rightarrow> nat \<Rightarrow> nat \<Rightarrow> nat \<Rightarrow> int" where
  "hd_peer h m i j = ring_at (hd_logical_topo h) (partner (hd_off (hd_comType h) m j) i)"

definition hd_aimed :: "nat \<Rightarrow> nat \<Rightarrow> u64 \<Rightarrow> nat \<Rightarrow> HalvingDoubling \<Rightarrow> bool" where
  "hd_aimed m i d j h \<longleftrightarrow> hd_at m d j h \<and>
     (j < hd_steps (hd_comType h) m \<longrightarrow> hd_curr_receiver h = hd_peer h m i j \<and> hd_curr_sender h = hd_peer h m i j)"

definition hd_packet :: "HalvingDoubling \<Rightarrow> nat \<Rightarrow> nat \<Rightarrow> u64 \<Rightarrow> nat \<Rightarrow> MyPacket" where
  "hd_packet h m i d j = MyPacket_sized (hd_size (hd_comType h) m d j) (hd_current_queue_id h)
     (hd_peer h m i j) (hd_peer h m i j)"

definition hd_frame :: "HalvingDoubling \<Rightarrow> RingTopology \<times> ComType \<times> int \<times> int \<times> int" where
  "hd_frame h = (hd_logical_topo h, hd_comType h, hd_id h, hd_stream_id h, hd_current_queue_id h)"

lemma hd_frame_D:
  assumes "hd_frame h' = hd_frame h"
  shows "hd_peer h' m i j = hd_peer h m i j" "hd_packet h' m i d j = hd_packet h m i d j"
    "hd_comType h' = hd_comType h" "hd_stream_id h' = hd_stream_id h"
  using assms by (simp_all add: hd_frame_def hd_peer_def hd_packet_def)

lemma hd_walk:
  assumes "hd_core m i h" and "j < hd_steps (hd_comType h) m" and "hd_rank_offset h = int (hd_off (hd_comType h) m j)"
  shows "walk_peers (hd_logical_topo h) (hd_id h) (hd_rank_offset h) s = Inr (hd_peer h m i j, hd_peer h m i j)"
proof -
  obtain k where k: "k < m" "hd_off (hd_comType h) m j = 2 ^ k"
    using hd_off_is_power [OF _ assms(2)] assms(1) unfolding hd_core_def by blast
  then show ?thesis
    using walk_partner [of "hd_logical_topo h" m k i s] assms by (simp add: hd_core_def hd_peer_def)
qed

lemma HD_rescale_frame [simp]:
  "hd_frame (HD_rescale h) = hd_frame h" "hd_core m i (HD_rescale h) = hd_core m i h"
  "hd_packets (HD_rescale h) = hd_packets h" "hd_log (HD_rescale h) = hd_log h"
  "hd_free_packets (HD_rescale h) = hd_free_packets h"
  "hd_stream_count (HD_rescale h) = hd_stream_count h"
  "hd_zero_latency_packets (HD_rescale h) = hd_zero_latency_packets h"
  "hd_non_zero_latency_packets (HD_rescale h) = hd_non_zero_latency_packets h"
  by (simp_all add: HD_rescale_def Let_def hd_frame_def hd_core_def)

text \<open>What a packet insertion leaves alone, apart from the aim.\<close>

definition hd_inserted :: "nat \<Rightarrow> nat \<Rightarrow> HalvingDoubling \<Rightarrow> HalvingDoubling \<Rightarrow> bool" where
  "hd_inserted m i h h' \<longleftrightarrow> hd_core m i h' \<and> hd_frame h' = hd_frame h \<and>
     hd_free_packets h' = hd_free_packets h \<and> hd_stream_count h' = hd_stream_count h \<and>
     (\<exists>p e. hd_packets h' = hd_packets h @ [p] \<and> hd_log h' = hd_log h @ [e] \<and> is_bundle e)"

lemma HD_process_max_count_ok:
  assumes "hd_core m i (h\<lparr>hd_locked_packets := []\<rparr>)"
  shows "\<exists>h' e. HD_process_max_count h = Inr h' \<and> hd_core m i h' \<and> hd_frame h' = hd_frame h \<and>
    hd_free_packets h' = hd_free_packets h \<and> hd_stream_count h' = hd_stream_count h \<and>
    hd_zero_latency_packets h' = hd_zero_latency_packets h \<and>
    hd_non_zero_latency_packets h' = hd_non_zero_latency_packets h \<and>
    hd_packets h' = hd_packets h \<and> hd_log h' = hd_log h @ [e] \<and> is_bundle e \<and>
    (\<forall>d j. hd_at m d j h \<longrightarrow> j < hd_steps (hd_comType h) m \<longrightarrow> hd_aimed m i d (Suc j) h')"
proof -
  define h1 where "h1 = (HD_release_packets (h\<lparr>hd_remained_packets_per_max_count := 0, hd_max_count := hd_max_count h - 1\<rparr>))
      \<lparr>hd_remained_packets_per_max_count := 1\<rparr>"
  define h2 where "h2 = HD_rescale h1"
  have core1: "hd_core m i h1" "hd_frame h1 = hd_frame h"
    using assms by (simp_all add: h1_def HD_release_packets_def hd_core_def hd_frame_def)
  then have core2: "hd_core m i h2" "hd_frame h2 = hd_frame h" by (simp_all add: h2_def)
  have "hd_id h2 \<in> ring_members (hd_logical_topo h2)"
    using core2 by (auto simp: hd_core_def ring_members_image)
  then obtain p where p: "walk_peers (hd_logical_topo h2) (hd_id h2) (hd_rank_offset h2) (hd_curr_sender h2) = Inr p"
    using walk_peers_ok core2 unfolding hd_core_def by blast
  define h' where "h' = h2\<lparr>hd_curr_receiver := fst p, hd_curr_sender := snd p\<rparr>"
  have run: "HD_process_max_count h = Inr h'"
    using assms p by (simp add: HD_process_max_count_def h'_def h1_def h2_def hd_core_def Let_def case_prod_beta)
  have log: "\<exists>e. hd_log h' = hd_log h @ [e] \<and> is_bundle e"
    by (simp add: h'_def h2_def h1_def HD_release_packets_def)
  have aim: "hd_aimed m i d (Suc j) h'" if "hd_at m d j h" "j < hd_steps (hd_comType h) m" for d j
  proof -
    have "hd_at m d j h1" using that by (simp add: h1_def HD_release_packets_def hd_at_def)
    then have at: "hd_at m d (Suc j) h2"
      unfolding h2_def using core1 that by (intro HD_rescale_step) (simp_all add: hd_core_def hd_frame_def)
    then have "p = (hd_peer h2 m i (Suc j), hd_peer h2 m i (Suc j))" if "Suc j < hd_steps (hd_comType h2) m"
      using hd_walk [OF core2(1) that] p by (simp add: hd_at_def)
    with at show ?thesis by (simp add: hd_aimed_def hd_at_def h'_def hd_peer_def)
  qed
  have rest: "hd_core m i h'" "hd_frame h' = hd_frame h" "hd_free_packets h' = hd_free_packets h"
    "hd_stream_count h' = hd_stream_count h" "hd_zero_latency_packets h' = hd_zero_latency_packets h"
    "hd_non_zero_latency_packets h' = hd_non_zero_latency_packets h" "hd_packets h' = hd_packets h"
    using core2 by (simp add: h'_def hd_core_def, simp add: h'_def hd_frame_def,
      simp_all add: h'_def h2_def h1_def HD_release_packets_def)
  from log run rest aim show ?thesis by blast
qed

lemma HD_insert_ok:
  assumes "hd_core m i h"
  shows "\<exists>h'. HD_insert_packet h = Inr h' \<and> hd_inserted m i h h' \<and>
    (\<forall>d j. hd_aimed m i d j h \<longrightarrow> j < hd_steps (hd_comType h) m \<longrightarrow>
       hd_aimed m i d (Suc j) h' \<and> hd_packets h' = hd_packets h @ [hd_packet h m i d j])"
proof -
  define g where "g = HD_start_round h"
  have lg: "HD_get_non_zero_latency_packets h = int m - 1"
    using assms by (simp add: HD_get_non_zero_latency_packets_def hd_core_def nat_power_eq ilog2_power)
  have g: "hd_core m i g" "hd_frame g = hd_frame h" "hd_packets g = hd_packets h" "hd_log g = hd_log h"
    "hd_free_packets g = hd_free_packets h" "hd_stream_count g = hd_stream_count h"
    "hd_curr_receiver g = hd_curr_receiver h" "hd_curr_sender g = hd_curr_sender h"
    "hd_msg_size g = hd_msg_size h" "hd_rank_offset g = hd_rank_offset h"
    "hd_offset_multiplier g = hd_offset_multiplier h"
    "hd_zero_latency_packets g > 0 \<or> hd_non_zero_latency_packets g > 0"
    using assms lg by (auto simp: g_def HD_start_round_def hd_core_def hd_frame_def)
  define z where "z = (hd_zero_latency_packets g > 0)"
  define p where "p = (HD_push_packet g)\<lparr>hd_processed := (if z then False else
      (hd_comType g = Reduce_Scatter \<or> hd_comType g = All_Reduce \<and> hd_toggle g)),
    hd_send_back := (if z then False else \<not> (hd_non_zero_latency_packets g \<le> hd_parallel_reduce g * 1)),
    hd_NPU_to_MA := z\<rparr>"
  have pcore: "hd_core m i (p\<lparr>hd_locked_packets := []\<rparr>)"
    using g(1) by (simp add: p_def HD_push_packet_def hd_core_def Let_def)
  obtain h1 e where h1: "HD_process_max_count p = Inr h1" "hd_core m i h1" "hd_frame h1 = hd_frame p"
    "hd_free_packets h1 = hd_free_packets p" "hd_stream_count h1 = hd_stream_count p"
    "hd_zero_latency_packets h1 = hd_zero_latency_packets p"
    "hd_non_zero_latency_packets h1 = hd_non_zero_latency_packets p"
    "hd_packets h1 = hd_packets p" "hd_log h1 = hd_log p @ [e]" "is_bundle e"
    "\<forall>d j. hd_at m d j p \<longrightarrow> j < hd_steps (hd_comType p) m \<longrightarrow> hd_aimed m i d (Suc j) h1"
    using HD_process_max_count_ok [OF pcore] by blast
  define h' where "h' = (if z then h1\<lparr>hd_zero_latency_packets := hd_zero_latency_packets h1 - 1\<rparr>
     else h1\<lparr>hd_non_zero_latency_packets := hd_non_zero_latency_packets h1 - 1\<rparr>)"
  have pf: "hd_frame p = hd_frame h" "hd_free_packets p = hd_free_packets h"
    "hd_stream_count p = hd_stream_count h" "hd_log p = hd_log h"
    "hd_zero_latency_packets p = hd_zero_latency_packets g"
    "hd_non_zero_latency_packets p = hd_non_zero_latency_packets g"
    "hd_packets p = hd_packets h @ [MyPacket_sized (hd_msg_size h) (hd_current_queue_id h) (hd_curr_sender h) (hd_curr_receiver h)]"
    using g by (simp_all add: p_def HD_push_packet_def Let_def hd_frame_def)
  have run: "HD_insert_packet h = Inr h'"
    using g(12) h1(1) by (cases z) (simp_all add: HD_insert_packet_def g_def [symmetric] h'_def p_def z_def)
  have fr: "hd_frame h' = hd_frame h" "hd_packets h' = hd_packets p" "hd_log h' = hd_log h @ [e]"
    "hd_free_packets h' = hd_free_packets h" "hd_stream_count h' = hd_stream_count h"
    using h1 pf by (simp_all add: h'_def hd_frame_def)
  have "hd_core m i h'" using h1(2,6,7) pf(5,6) g(12) by (auto simp: h'_def hd_core_def z_def)
  then have ins: "hd_inserted m i h h'" using fr pf(7) h1(10) by (simp add: hd_inserted_def)
  have "hd_aimed m i d (Suc j) h' \<and> hd_packets h' = hd_packets h @ [hd_packet h m i d j]"
    if "hd_aimed m i d j h" "j < hd_steps (hd_comType h) m" for d j
  proof -
    have "hd_comType p = hd_comType h" using pf(1) by (simp add: hd_frame_def)
    moreover have "hd_at m d j p"
      using that(1) g(2,9-11) by (simp add: hd_aimed_def hd_at_def p_def HD_push_packet_def Let_def hd_frame_def)
    ultimately have "hd_aimed m i d (Suc j) h1" using h1(11) that(2) by simp
    then have "hd_aimed m i d (Suc j) h'" by (simp add: h'_def hd_aimed_def hd_at_def hd_peer_def)
    moreover have "hd_packets h' = hd_packets h @ [hd_packet h m i d j]"
      using that fr(2) pf(7) by (simp add: hd_aimed_def hd_at_def hd_packet_def)
    ultimately show ?thesis ..
  qed
  with run ins show ?thesis by blast
qed

section \<open>Traces\<close>

text \<open>Before the \<open>j\<close>-th exchange: its bundle is on the memory bus.\<close>

definition hd_transfer :: "nat \<Rightarrow> nat \<Rightarrow> u64 \<Rightarrow> nat \<Rightarrow> HalvingDoubling \<Rightarrow> bool" where
  "hd_transfer m i d j h \<longleftrightarrow> hd_core m i h \<and> hd_free_packets h = 0 \<and> j \<le> hd_steps (hd_comType h) m \<and>
     hd_stream_count h = int (hd_steps (hd_comType h) m) - int j \<and>
     (j < hd_steps (hd_comType h) m \<longrightarrow> hd_packets h = [hd_packet h m i d j] \<and> hd_aimed m i d (Suc j) h)"

definition hd_exchange :: "HalvingDoubling \<Rightarrow> nat \<Rightarrow> nat \<Rightarrow> u64 \<Rightarrow> nat \<Rightarrow> effect list" where
  "hd_exchange h m i d j =
     [FrontEndSend (hd_size (hd_comType h) m d j) (hd_peer h m i j) (hd_stream_id h),
      FrontEndRecv (hd_size (hd_comType h) m d j) (hd_peer h m i j) (hd_stream_id h)]"

definition external :: "effect list \<Rightarrow> effect list" where
  "external = filter (\<lambda>e. \<not> is_bundle e)"

lemma external_simps [simp]:
  "external [] = []" "external (xs @ ys) = external xs @ external ys" "is_bundle e \<Longrightarrow> external [e] = []"
  "external (hd_exchange h m i d j) = hd_exchange h m i d j"
  by (simp_all add: external_def hd_exchange_def)

lemma HD_process_stream_count_step:
  assumes "hd_remained_packets_per_message h = 1" and "0 < hd_stream_count h"
  shows "\<exists>st. HD_process_stream_count h = h\<lparr>hd_stream_count := hd_stream_count h - 1,
    hd_remained_packets_per_message := (if hd_stream_count h = 1 then 0 else 1), hd_stream_state := st\<rparr>"
proof (cases "hd_stream_count h = 1")
  case True
  with assms show ?thesis
    by (intro exI [of _ "if hd_stream_state h = Dead then Dead else Zombie"])
      (simp add: HD_process_stream_count_def Let_def)
next
  case False
  with assms show ?thesis
    by (intro exI [of _ "hd_stream_state h"]) (simp add: HD_process_stream_count_def Let_def)
qed

lemma HD_ready_sends:
  assumes "hd_packets h = [p]" and "hd_stream_count h \<noteq> 0" and "hd_free_packets h \<noteq> 0"
  shows "\<exists>st. HD_ready h = (True, HD_reduce (h\<lparr>hd_stream_state := st, hd_log := hd_log h @
    [FrontEndSend (mp_msg_size p) (mp_preferred_dest p) (hd_stream_id h),
     FrontEndRecv (mp_msg_size p) (mp_preferred_src p) (hd_stream_id h)]\<rparr>))"
proof (cases "hd_stream_state h = Created \<or> hd_stream_state h = Ready")
  case True
  with assms show ?thesis by (auto simp: HD_ready_def Let_def)
next
  case False
  with assms show ?thesis
    by (intro exI [of _ "hd_stream_state h"]) (auto simp: HD_ready_def Let_def)
qed

lemma HD_step_general:
  assumes "hd_transfer m i d j h" and "j < hd_steps (hd_comType h) m"
  shows "\<exists>h'. HD_run General h = Inr h' \<and> hd_core m i h' \<and> hd_frame h' = hd_frame h \<and>
    hd_packets h' = [] \<and> hd_free_packets h' = 0 \<and> hd_aimed m i d (Suc j) h' \<and>
    hd_stream_count h' = int (hd_steps (hd_comType h) m) - int (Suc j) \<and>
    hd_log h' = hd_log h @ hd_exchange h m i d j"
proof -
  let ?S = "int (hd_steps (hd_comType h) m)"
  define g where "g = h\<lparr>hd_free_packets := 1\<rparr>"
  have tr: "hd_core m i h" "hd_free_packets h = 0" "hd_stream_count h = ?S - int j"
    "hd_packets h = [hd_packet h m i d j]" "hd_aimed m i d (Suc j) h" "?S - int j > 0"
    using assms by (auto simp: hd_transfer_def)
  have pkt: "mp_msg_size (hd_packet h m i d j) = hd_size (hd_comType h) m d j"
    "mp_preferred_dest (hd_packet h m i d j) = hd_peer h m i j"
    "mp_preferred_src (hd_packet h m i d j) = hd_peer h m i j"
    by (simp_all add: hd_packet_def MyPacket_sized_def)
  obtain st where st: "HD_ready g = (True, HD_reduce (g\<lparr>hd_stream_state := st,
      hd_log := hd_log h @ hd_exchange h m i d j\<rparr>))"
    using HD_ready_sends [of g "hd_packet h m i d j"] tr pkt by (auto simp: g_def hd_exchange_def)
  obtain st' where st': "HD_process_stream_count (g\<lparr>hd_stream_state := st, hd_log := hd_log h @ hd_exchange h m i d j\<rparr>)
      = g\<lparr>hd_log := hd_log h @ hd_exchange h m i d j, hd_stream_count := ?S - int j - 1,
          hd_remained_packets_per_message := (if ?S - int j = 1 then 0 else 1), hd_stream_state := st'\<rparr>"
    using HD_process_stream_count_step [of "g\<lparr>hd_stream_state := st, hd_log := hd_log h @ hd_exchange h m i d j\<rparr>"] tr
    by (auto simp: g_def hd_core_def)
  define h' where "h' = h\<lparr>hd_stream_state := st', hd_log := hd_log h @ hd_exchange h m i d j,
     hd_stream_count := ?S - int j - 1, hd_remained_packets_per_message := (if ?S - int j = 1 then 0 else 1),
     hd_packets := [], hd_free_packets := 0, hd_total_packets_sent := hd_total_packets_sent h + 1\<rparr>"
  have red: "snd (HD_ready g) = h'"
    unfolding st using st' tr by (simp add: HD_reduce_def Let_def g_def h'_def)
  have core: "hd_core m i h'" using tr by (simp add: h'_def hd_core_def)
  then have "HD_iteratable h' = (True, h')" by (simp add: HD_iteratable_def hd_core_def h'_def)
  then have "HD_run General h = Inr h'" using red tr(2) by (simp add: HD_run_def g_def)
  moreover have "hd_frame h' = hd_frame h" "hd_aimed m i d (Suc j) h'"
    using tr(5) by (simp_all add: h'_def hd_frame_def hd_aimed_def hd_at_def hd_peer_def)
  ultimately show ?thesis using core by (simp add: h'_def)
qed

lemma HD_step_received:
  assumes "hd_core m i h" and "hd_packets h = []" and "hd_free_packets h = 0" and "hd_aimed m i d j h"
    and "j \<le> hd_steps (hd_comType h) m"
    and "hd_stream_count h = int (hd_steps (hd_comType h) m) - int j"
  shows "\<exists>h' e. HD_insert_packet h = Inr h' \<and> hd_transfer m i d j h' \<and> hd_frame h' = hd_frame h \<and>
    hd_log h' = hd_log h @ [e] \<and> is_bundle e"
proof -
  obtain h' where h': "HD_insert_packet h = Inr h'" "hd_inserted m i h h'"
    "j < hd_steps (hd_comType h) m \<longrightarrow> hd_aimed m i d (Suc j) h' \<and> hd_packets h' = [hd_packet h m i d j]"
    using HD_insert_ok [OF assms(1)] assms(2,4) by fastforce
  then have "hd_frame h' = hd_frame h" by (simp add: hd_inserted_def)
  note fr = hd_frame_D [OF this]
  have "hd_transfer m i d j h'"
    using h' assms fr by (simp add: hd_transfer_def hd_inserted_def)
  with h' show ?thesis by (auto simp: hd_inserted_def)
qed

lemma HD_step_exit:
  assumes "hd_transfer m i d j h" and "j = hd_steps (hd_comType h) m"
  shows "\<exists>h'. HD_run General h = Inr h' \<and> hd_log h' = hd_log h @ [ProceedToNextVnet]"
  using assms by (auto simp: HD_run_def HD_ready_def HD_iteratable_def HD_exit_def hd_transfer_def hd_core_def Let_def)

lemma hd_frame_received: "hd_frame (h\<lparr>hd_total_packets_received := k\<rparr>) = hd_frame h"
  by (simp add: hd_frame_def)

lemma HD_rounds:
  assumes "hd_transfer m i d j h" and "j + k = hd_steps (hd_comType h) m"
  shows "\<exists>h'. fold_result HD_run (concat (replicate k [General, PacketReceived]) @ [General]) h = Inr h' \<and>
    external (hd_log h') = external (hd_log h) @
      concat (map (hd_exchange h m i d) [j..<j + k]) @ [ProceedToNextVnet]"
  using assms
proof (induction k arbitrary: j h)
  case 0
  then have "j = hd_steps (hd_comType h) m" by simp
  with HD_step_exit [OF 0(1)] show ?case by (auto simp: external_def)
next
  case (Suc k)
  have j: "j < hd_steps (hd_comType h) m" "Suc j \<le> hd_steps (hd_comType h) m" using Suc.prems(2) by simp_all
  obtain h1 where h1: "HD_run General h = Inr h1" "hd_core m i h1" "hd_frame h1 = hd_frame h"
    "hd_packets h1 = []" "hd_free_packets h1 = 0" "hd_aimed m i d (Suc j) h1"
    "hd_stream_count h1 = int (hd_steps (hd_comType h) m) - int (Suc j)"
    "hd_log h1 = hd_log h @ hd_exchange h m i d j"
    using HD_step_general [OF Suc.prems(1) j(1)] by blast
  note fr1 = hd_frame_D [OF h1(3)]
  let ?g = "h1\<lparr>hd_total_packets_received := hd_total_packets_received h1 + 1\<rparr>"
  have "hd_core m i ?g" "hd_aimed m i d (Suc j) ?g"
    using h1(2,6) by (simp_all add: hd_core_def hd_aimed_def hd_at_def hd_peer_def)
  then obtain h2 e where h2: "HD_insert_packet ?g = Inr h2" "hd_transfer m i d (Suc j) h2"
    "hd_frame h2 = hd_frame ?g" "hd_log h2 = hd_log h1 @ [e]" "is_bundle e"
    using HD_step_received [of m i ?g d "Suc j"] h1 fr1 j(2) by auto
  have fr2: "hd_frame h2 = hd_frame h" using h2(3) h1(3) by (simp add: hd_frame_received)
  note fr2' = hd_frame_D [OF fr2]
  have ex: "hd_exchange h2 m i d = hd_exchange h m i d" using fr2' by (intro ext) (simp add: hd_exchange_def)
  obtain h' where h': "fold_result HD_run (concat (replicate k [General, PacketReceived]) @ [General]) h2 = Inr h'"
    "external (hd_log h') = external (hd_log h2) @ concat (map (hd_exchange h m i d) [Suc j..<Suc j + k]) @ [ProceedToNextVnet]"
    using Suc.IH [OF h2(2)] Suc.prems(2) fr2' ex by auto
  have "HD_run PacketReceived h1 = Inr h2" using h2(1) by (simp add: HD_run_def)
  with h1(1,8) h2(4,5) h' show ?case by (simp add: upt_conv_Cons del: upt_Suc)
qed

lemma HalvingDoubling_new_aimed:
  assumes "ring_wf t" and "ring_size t = 2 ^ m" and "0 < m" and "hd_type type"
    and "rt_index_in_ring t = int i" and "i < 2 ^ m" and "m < 64"
  shows "\<exists>h. HalvingDoubling_new type (rt_id t) t d uninit = Inr h \<and>
    hd_core m i (HD_init sid q st h) \<and> hd_aimed m i d 0 (HD_init sid q st h) \<and>
    hd_packets h = [] \<and> hd_free_packets h = 0 \<and> hd_log h = [] \<and> hd_logical_topo h = t \<and> hd_comType h = type \<and>
    hd_stream_count h = int (hd_steps type m)"
proof -
  have n: "get_nodes_in_ring t = 2 ^ m" "nat (2 ^ m :: int) = 2 ^ m"
    using assms(1,2) ring_wf_size [OF assms(1)] by (simp_all add: get_nodes_in_ring_def nat_power_eq)
  have own: "rt_id t = ring_at t i"
    using assms(1,5,6) by (simp add: ring_wf_def ring_at_def)
  have lg: "ilog2 (nat (2 ^ m)) = m" "int (ilog2 ((nat (2 ^ m))\<^sup>2)) = 2 * int m"
    using ilog2_power [of "m * 2"] by (simp_all add: n(2) ilog2_power power_mult mult.commute)
  have u: "u64_of_int (2 ^ m) \<noteq> 0"
  proof -
    have "(2 ^ m :: int) < 2 ^ 64" using assms(7) by (intro power_strict_increasing) simp_all
    then have "(2 ^ m :: int) mod 2 ^ 64 = 2 ^ m" by (intro mod_pos_pos_trivial) simp_all
    then have "uint (u64_of_int (2 ^ m)) \<noteq> 0"
      unfolding u64_of_int_def by (simp only: uint_word_of_int) simp
    then show ?thesis by (metis uint_0_eq)
  qed
  define off where "off = hd_off type m 0"
  have "0 < hd_steps type m" using assms(3) by (simp add: hd_steps_def)
  from hd_off_is_power [OF assms(4) this] obtain k where k: "k < m" "off = 2 ^ k"
    unfolding off_def by blast
  have half: "c_div (2 ^ m) 2 = 2 ^ (m - 1)" using assms(3) by (cases m) simp_all
  have sizes: "\<exists>fs. HD_sizes type d (2 ^ m) = Inr (fs, hd_size type m d 0, int off, hd_mult type m 0)"
    using assms(3,4) u half
    by (auto simp: hd_type_def HD_sizes_def Let_def hd_size_def off_def hd_off_def hd_mult_def drop_bit_Suc)
  then obtain fs where fs: "HD_sizes type d (2 ^ m) = Inr (fs, hd_size type m d 0, int off, hd_mult type m 0)"
    by blast
  have walk: "walk_peers t (rt_id t) (int off) uninit = Inr (ring_at t (partner off i), ring_at t (partner off i))"
    using walk_partner [OF assms(1,2) k(1) assms(5,6), of uninit] own k(2) by simp
  show ?thesis
    using fs walk assms own n lg
    by (auto simp: HalvingDoubling_new_def Let_def HD_init_def hd_core_def hd_aimed_def hd_at_def hd_peer_def
        off_def hd_steps_def)
qed

section \<open>Properties\<close>

definition hd_events :: "nat \<Rightarrow> EventType list" where
  "hd_events k = StreamInit # concat (replicate k [General, PacketReceived]) @ [General]"

text \<open>
  \<^bold>\<open>C22\<close>. Halving-doubling does what its name says. Take a node with index \<open>i\<close> in a ring of
  \<open>2 ^ m\<close> nodes. Driven by the start of the stream and by, in turn, the completion of its
  bundle and the arrival of a message, the handler never fails; it exchanges exactly one
  message with one peer in each of its \<open>m\<close> steps (\<open>2 m\<close> for All-Reduce), and then proceeds
  to the next phase, once. Step \<open>j\<close> is with the peer at distance \<open>hd_off\<close>, which is a power
  of two below the ring size, so the peer's index differs from \<open>i\<close> in that one bit.
\<close>

theorem halving_doubling_trace:
  assumes "ring_wf t" and "ring_size t = 2 ^ m" and "0 < m" and "m < 64"
    and "type = All_Reduce \<or> type = All_Gather \<or> type = Reduce_Scatter"
    and "rt_index_in_ring t = int i" and "i < 2 ^ m"
  shows "\<exists>h h'. HalvingDoubling_new type (rt_id t) t d uninit = Inr h \<and>
    fold_result HD_run (hd_events (hd_steps type m)) (HD_init sid q st h) = Inr h' \<and>
    external (hd_log h') = concat (map (\<lambda>j.
       [FrontEndSend (hd_size type m d j) (ring_at t (partner (hd_off type m j) i)) sid,
        FrontEndRecv (hd_size type m d j) (ring_at t (partner (hd_off type m j) i)) sid])
      [0..<hd_steps type m]) @ [ProceedToNextVnet] \<and>
    (\<forall>j < hd_steps type m. \<exists>k < m. hd_off type m j = 2 ^ k)"
proof -
  have ty: "hd_type type" using assms(5) by (simp add: hd_type_def)
  obtain h where h: "HalvingDoubling_new type (rt_id t) t d uninit = Inr h"
    "hd_core m i (HD_init sid q st h)" "hd_aimed m i d 0 (HD_init sid q st h)"
    "hd_packets h = []" "hd_free_packets h = 0" "hd_log h = []" "hd_logical_topo h = t" "hd_comType h = type"
    "hd_stream_count h = int (hd_steps type m)"
    using HalvingDoubling_new_aimed [OF assms(1-3) ty assms(6,7,4)] by blast
  let ?h = "HD_init sid q st h"
  have f: "hd_packets ?h = []" "hd_free_packets ?h = 0" "hd_log ?h = []" "hd_comType ?h = type"
    "hd_logical_topo ?h = t" "hd_stream_id ?h = sid" "hd_stream_count ?h = int (hd_steps type m)"
    using h by (simp_all add: HD_init_def)
  obtain h1 e where h1: "HD_insert_packet ?h = Inr h1" "hd_transfer m i d 0 h1" "hd_frame h1 = hd_frame ?h"
    "hd_log h1 = [e]" "is_bundle e"
    using HD_step_received [OF h(2) f(1,2) h(3)] f by auto
  note fr = hd_frame_D [OF h1(3)]
  have start: "HD_run StreamInit ?h = Inr h1"
    using h1(1) h(2) by (simp add: HD_run_def hd_core_def)
  obtain h' where h': "fold_result HD_run (concat (replicate (hd_steps type m) [General, PacketReceived]) @ [General]) h1 = Inr h'"
    "external (hd_log h') = concat (map (hd_exchange h1 m i d) [0..<hd_steps type m]) @ [ProceedToNextVnet]"
    using HD_rounds [OF h1(2), of "hd_steps type m"] fr(3) f(4) h1(4,5) by auto
  have ex: "hd_exchange h1 m i d = (\<lambda>j.
       [FrontEndSend (hd_size type m d j) (ring_at t (partner (hd_off type m j) i)) sid,
        FrontEndRecv (hd_size type m d j) (ring_at t (partner (hd_off type m j) i)) sid])"
    using fr f by (intro ext) (simp add: hd_exchange_def hd_peer_def)
  have "fold_result HD_run (hd_events (hd_steps type m)) ?h = Inr h'"
    using start h'(1) by (simp add: hd_events_def)
  then show ?thesis
    using h(1) h'(2) hd_off_is_power [OF ty] unfolding ex by blast
qed

text \<open>A ring of four nodes seen by the node with index 2.\<close>

definition demo_square :: RingTopology where
  "demo_square = projr (RingTopology_of_NPUs DimNA 2 [0, 1, 2, 3])"

lemma demo_square_wf: "ring_wf demo_square" "ring_size demo_square = 2 ^ 2"
  "rt_index_in_ring demo_square = int 2" "rt_id demo_square = 2"
proof -
  obtain t where t: "RingTopology_of_NPUs DimNA 2 [0, 1, 2, 3] = Inr t" "ring_wf t" "ring_size t = 4"
    "rt_id t = 2"
    using ring_NPUs_built [of "[0, 1, 2, 3]" 2 DimNA] by auto
  then show "ring_wf demo_square" "ring_size demo_square = 2 ^ 2" "rt_id demo_square = 2"
    by (simp_all add: demo_square_def)
  show "rt_index_in_ring demo_square = int 2"
    by (simp add: demo_square_def RingTopology_of_NPUs_def Let_def assert_that_def)
qed

theorem halving_doubling_trace_witness:
  "\<exists>h h'. HalvingDoubling_new Reduce_Scatter 2 demo_square 1024 0 = Inr h \<and>
    fold_result HD_run (hd_events 2) (HD_init 7 0 Created h) = Inr h' \<and>
    last (external (hd_log h')) = ProceedToNextVnet"
proof -
  have "hd_steps Reduce_Scatter 2 = 2" by (simp add: hd_steps_def)
  then show ?thesis
    using halving_doubling_trace [of demo_square 2 Reduce_Scatter 2 1024 0 7 0 Created] demo_square_wf
    by fastforce
qed

text \<open>
  The exchanges are pairwise. In every step the partner of a node has that node as its
  own partner, the partner is another member, and the walk along the ring that the code makes
  from either side ends at the other: the message each of them expects is the one the other
  sends, of the same size since sizes depend on the step only.
\<close>

theorem halving_doubling_pairs:
  assumes "ring_wf t" and "ring_size t = 2 ^ m" and "ring_wf t'" and "ring_size t' = 2 ^ m"
    and "\<forall>k < 2 ^ m. ring_at t' k = ring_at t k"
    and "type = All_Reduce \<or> type = All_Gather \<or> type = Reduce_Scatter"
    and "j < hd_steps type m" and "i < 2 ^ m" and "rt_index_in_ring t = int i"
    and "rt_index_in_ring t' = int (partner (hd_off type m j) i)"
  shows "walk_peers t (rt_id t) (int (hd_off type m j)) s = Inr (rt_id t', rt_id t') \<and>
    walk_peers t' (rt_id t') (int (hd_off type m j)) s = Inr (rt_id t, rt_id t) \<and> rt_id t \<noteq> rt_id t'"
proof -
  have ty: "hd_type type" using assms(6) by (simp add: hd_type_def)
  obtain k where k: "k < m" "hd_off type m j = 2 ^ k" using hd_off_is_power [OF ty assms(7)] by blast
  let ?p = "partner (2 ^ k) i"
  have p: "?p < 2 ^ m" "partner (2 ^ k) ?p = i"
    using partner_lt(1) [OF assms(8) k(1)] partner_involution [OF assms(8) k(1)] by simp_all
  have ids: "rt_id t = ring_at t i" "rt_id t' = ring_at t ?p"
  proof -
    show "rt_id t = ring_at t i" using assms(1,9) by (simp add: ring_wf_def ring_at_def)
    have "rt_id t' = ring_at t' ?p" using assms(3,10) k(2) by (simp add: ring_wf_def ring_at_def)
    then show "rt_id t' = ring_at t ?p" using assms(5) p(1) by simp
  qed
  have "i - r \<noteq> i" if "0 < r" "r \<le> i" for r using that by simp
  then have "?p \<noteq> i" using partner_lt(2) [OF assms(8) k(1)] by (simp add: partner_def)
  then have ne: "ring_at t i \<noteq> ring_at t ?p" using ring_at_inj [OF assms(1)] p(1) assms(2,8) by metis
  show ?thesis
    using walk_partner [OF assms(1,2) k(1) assms(9,8), of s]
      walk_partner [OF assms(3,4) k(1), of ?p s] assms(5,8,10) p ids ne k(2) by simp
qed

definition demo_square3 :: RingTopology where
  "demo_square3 = projr (RingTopology_of_NPUs DimNA 3 [0, 1, 2, 3])"

lemma demo_square3_wf: "ring_wf demo_square3" "ring_size demo_square3 = 2 ^ 2"
  "rt_index_in_ring demo_square3 = int 3" "rt_id demo_square3 = 3"
  "\<forall>k < 2 ^ 2. ring_at demo_square3 k = ring_at demo_square k"
proof -
  obtain t where t: "RingTopology_of_NPUs DimNA 3 [0, 1, 2, 3] = Inr t" "ring_wf t" "ring_size t = 4"
    "rt_id t = 3" "\<forall>k < 4. ring_at t k = [0, 1, 2, 3] ! k"
    using ring_NPUs_built [of "[0, 1, 2, 3]" 3 DimNA] by auto
  obtain u where u: "RingTopology_of_NPUs DimNA 2 [0, 1, 2, 3] = Inr u" "\<forall>k < 4. ring_at u k = [0, 1, 2, 3] ! k"
    using ring_NPUs_built [of "[0, 1, 2, 3]" 2 DimNA] by auto
  from t u show "ring_wf demo_square3" "ring_size demo_square3 = 2 ^ 2" "rt_id demo_square3 = 3"
    "\<forall>k < 2 ^ 2. ring_at demo_square3 k = ring_at demo_square k"
    by (simp_all add: demo_square3_def demo_square_def)
  show "rt_index_in_ring demo_square3 = int 3"
    by (simp add: demo_square3_def RingTopology_of_NPUs_def Let_def assert_that_def)
qed

theorem halving_doubling_pairs_witness:
  "walk_peers demo_square 2 1 0 = Inr (3, 3) \<and> walk_peers demo_square3 3 1 0 = Inr (2, 2)"
proof -
  have "hd_off Reduce_Scatter 2 0 = 1" "hd_steps Reduce_Scatter 2 = 2" "partner 1 2 = 3"
    by (simp_all add: hd_off_def hd_steps_def partner_def)
  then show ?thesis
    using halving_doubling_pairs [OF demo_square_wf(1,2) demo_square3_wf(1,2,5), of Reduce_Scatter 0 2 0]
      demo_square_wf demo_square3_wf by simp
qed

text \<open>
  The All-Reduce loses the last bit of the share of a node. The reduce-scatter half
  ends with messages of \<^verbatim>\<open>data_size / nodes\<close> bytes. The all-gather half starts with
  \<^verbatim>\<open>2 * (data_size / (2 * nodes))\<close> bytes, because the size is halved once too often and
  then doubled, in whole bytes. It is one byte short when the share is odd, and with a share of
  one byte, the least one the system layer asks for, every message of the all-gather half has
  size 0.
\<close>

theorem halving_doubling_all_reduce_loses_bit:
  assumes "0 < m" and "j < m"
  shows "hd_size All_Reduce m d (m - 1) = drop_bit m d \<and>
    hd_size All_Reduce m d m = 2 * (drop_bit m d div 2) \<and>
    (odd (drop_bit m d) \<longrightarrow> hd_size All_Reduce m d m = hd_size All_Reduce m d (m - 1) - 1) \<and>
    (drop_bit m d = 1 \<longrightarrow> hd_size All_Reduce m d (m + j) = 0)"
proof (intro conjI impI)
  have half: "drop_bit (Suc m) d = drop_bit m d div 2" by (simp add: drop_bit_Suc drop_bit_half)
  show "hd_size All_Reduce m d (m - 1) = drop_bit m d" using assms(1) by (simp add: hd_size_def)
  show last: "hd_size All_Reduce m d m = 2 * (drop_bit m d div 2)"
    by (simp add: hd_size_def half push_bit_Suc mult.commute)
  show "hd_size All_Reduce m d m = hd_size All_Reduce m d (m - 1) - 1" if "odd (drop_bit m d)"
  proof -
    have "drop_bit m d div 2 * 2 + 1 = drop_bit m d"
      using div_mult_mod_eq [of "drop_bit m d" 2] that by (simp add: mod_2_eq_odd)
    then have "2 * (drop_bit m d div 2) = drop_bit m d - 1" by (simp add: eq_diff_eq mult.commute)
    then show ?thesis unfolding last using assms(1) by (simp add: hd_size_def)
  qed
  show "hd_size All_Reduce m d (m + j) = 0" if "drop_bit m d = 1"
    using half that by (simp add: hd_size_def)
qed

theorem halving_doubling_all_reduce_loses_bit_witness:
  "hd_size All_Reduce 2 4 1 = 1 \<and> hd_size All_Reduce 2 4 3 = 0"
  using halving_doubling_all_reduce_loses_bit [of 2 1 4] by (simp add: drop_bit_eq_div)

end
