(* ===== verification/Tree_Algorithm.thy ===== *)
theory Tree_Algorithm
  imports Binary_Tree Ring_Algorithm
begin

text \<open>
  The all-reduce on one tree of a double binary tree,
  \<^verbatim>\<open>collective_algorithm/DoubleBinaryTreeAllReduce.cc\<close>: leaves send their data up,
  interior nodes reduce what their children send, the root turns around and the result travels
  down. The handler is one chain of conditions on the state, the kind of the node and the event.
  Calls that leave the object are logged as for the ring; a bundle without packets carries the
  empty list.
\<close>

section \<open>State and operations\<close>

datatype DBTState =
    DBT_Begin | WaitingForTwoChildData | WaitingForOneChildData | SendingDataToParent
  | WaitingDataFromParent | SendingDataToChilds | DBT_End

record DoubleBinaryTreeAllReduce =
  dt_comType :: ComType
  dt_id :: int
  dt_data_size :: u64
  dt_final_data_size :: u64
  dt_state :: DBTState
  dt_reductions :: int
  dt_parent :: int
  dt_left_child :: int
  dt_right_child :: int
  dt_type :: NodeType
  dt_stream_id :: int
  dt_log :: "effect list"

definition DoubleBinaryTreeAllReduce_new :: "int \<Rightarrow> BinaryTree \<Rightarrow> u64 \<Rightarrow> DoubleBinaryTreeAllReduce result" where
  "DoubleBinaryTreeAllReduce_new nid tree data_size =
     rbind (get_parent_id tree nid) (\<lambda>parent.
     rbind (get_left_child_id tree nid) (\<lambda>left_child.
     rbind (get_right_child_id tree nid) (\<lambda>right_child.
     rbind (get_node_type tree nid) (\<lambda>type.
       Inr \<lparr>dt_comType = All_Reduce, dt_id = nid, dt_data_size = data_size, dt_final_data_size = data_size,
            dt_state = DBT_Begin, dt_reductions = 0, dt_parent = parent, dt_left_child = left_child,
            dt_right_child = right_child, dt_type = type, dt_stream_id = 0, dt_log = []\<rparr>))))"

definition DBT_init :: "int \<Rightarrow> DoubleBinaryTreeAllReduce \<Rightarrow> DoubleBinaryTreeAllReduce" where
  "DBT_init stream_id d = d\<lparr>dt_stream_id := stream_id\<rparr>"

definition dt_effects :: "effect list \<Rightarrow> DoubleBinaryTreeAllReduce \<Rightarrow> DoubleBinaryTreeAllReduce" where
  "dt_effects es d = d\<lparr>dt_log := dt_log d @ es\<rparr>"

definition dt_send :: "DoubleBinaryTreeAllReduce \<Rightarrow> int \<Rightarrow> effect" where
  "dt_send d peer = FrontEndSend (dt_data_size d) peer (dt_stream_id d)"

definition dt_recv :: "DoubleBinaryTreeAllReduce \<Rightarrow> int \<Rightarrow> effect" where
  "dt_recv d peer = FrontEndRecv (dt_data_size d) peer (dt_stream_id d)"

definition only_child_id :: "DoubleBinaryTreeAllReduce \<Rightarrow> int" where
  "only_child_id d = (if dt_left_child d \<ge> 0 then dt_left_child d else dt_right_child d)"

text \<open>\<^verbatim>\<open>Algorithm::exit\<close> hands the stream back to the scheduler.\<close>

definition dt_exit :: "DoubleBinaryTreeAllReduce \<Rightarrow> DoubleBinaryTreeAllReduce" where
  "dt_exit d = dt_effects [ProceedToNextVnet] d"

definition DBT_run :: "EventType \<Rightarrow> DoubleBinaryTreeAllReduce \<Rightarrow> DoubleBinaryTreeAllReduce" where
  "DBT_run event d =
     (if dt_state d = DBT_Begin \<and> dt_type d = LeafNode then
        (dt_effects [SendToMA [] False False (dt_data_size d) Usual] d)\<lparr>dt_state := SendingDataToParent\<rparr>
      else if dt_state d = SendingDataToParent \<and> dt_type d = LeafNode then
        (dt_effects [dt_send d (dt_parent d), dt_recv d (dt_parent d)] d)\<lparr>dt_state := WaitingDataFromParent\<rparr>
      else if dt_state d = WaitingDataFromParent \<and> dt_type d = LeafNode then
        (dt_effects [SendToNPU [] False False (dt_data_size d) Usual] d)\<lparr>dt_state := DBT_End\<rparr>
      else if dt_state d = DBT_End \<and> dt_type d = LeafNode then dt_exit d
      else if dt_state d = DBT_Begin \<and> dt_type d = IntermediateNode then
        dt_effects [dt_recv d (dt_left_child d), dt_recv d (dt_right_child d)]
          (d\<lparr>dt_state := WaitingForTwoChildData\<rparr>)
      else if dt_state d = WaitingForTwoChildData \<and> dt_type d = IntermediateNode \<and> event = PacketReceived then
        (dt_effects [SendToNPU [] True False (dt_data_size d) Usual] d)\<lparr>dt_state := WaitingForOneChildData\<rparr>
      else if dt_state d = WaitingForOneChildData \<and> dt_type d = IntermediateNode \<and> event = PacketReceived then
        (dt_effects [SendToNPU [] True True (dt_data_size d) Usual] d)\<lparr>dt_state := SendingDataToParent\<rparr>
      else if dt_reductions d < 1 \<and> dt_type d = IntermediateNode \<and> event = General then
        d\<lparr>dt_reductions := dt_reductions d + 1\<rparr>
      else if dt_state d = SendingDataToParent \<and> dt_type d = IntermediateNode then
        dt_effects [dt_send d (dt_parent d), dt_recv d (dt_parent d)]
          (d\<lparr>dt_state := WaitingDataFromParent\<rparr>)
      else if dt_state d = WaitingDataFromParent \<and> dt_type d = IntermediateNode \<and> event = PacketReceived then
        (dt_effects [SendToNPU [] True True (dt_data_size d) Usual] d)\<lparr>dt_state := SendingDataToChilds\<rparr>
      else if dt_state d = SendingDataToChilds \<and> dt_type d = IntermediateNode then
        dt_exit (dt_effects [dt_send d (dt_left_child d), dt_send d (dt_right_child d)] d)
      else if dt_state d = DBT_Begin \<and> dt_type d = RootNode then
        dt_effects [dt_recv d (only_child_id d)] (d\<lparr>dt_state := WaitingForOneChildData\<rparr>)
      else if dt_state d = WaitingForOneChildData \<and> dt_type d = RootNode then
        (dt_effects [SendToNPU [] True True (dt_data_size d) Usual] d)\<lparr>dt_state := SendingDataToChilds\<rparr>
      else if dt_state d = SendingDataToChilds \<and> dt_type d = RootNode then
        dt_exit (dt_effects [dt_send d (only_child_id d)] d)
      else d)"

lemmas DBT_defs = DBT_run_def dt_effects_def dt_send_def dt_recv_def only_child_id_def dt_exit_def

end
