(* ===== verification/Tree_Shape.thy ===== *)
theory Tree_Shape
  imports Binary_Tree
begin

text \<open>
  The shape of the trees that \<^verbatim>\<open>BinaryTree.cc\<close> builds for a power-of-two number of nodes:
  every node but the root has both children or none, the root has exactly one, ids are
  distinct and links descend.
\<close>

section \<open>The trees of the code\<close>

fun full :: "int tree \<Rightarrow> bool" where
  "full Leaf = True"
| "full (Node l a r) = ((l = Leaf \<longleftrightarrow> r = Leaf) \<and> full l \<and> full r)"

lemma full_initialize: "full (initialize_tree (Suc e))"
  by (induction e) (simp_all add: initialize_tree_step)

lemma build_tree_leaf: "fst (build_tree stride t start) = Leaf \<longleftrightarrow> t = Leaf"
  by (cases t) (auto simp: split_beta)

lemma full_build: "full t \<Longrightarrow> full (fst (build_tree stride t start))"
  by (induction t arbitrary: start) (auto simp: split_beta build_tree_leaf)

lemma root_id_none: "root_id t = None \<longleftrightarrow> t = Leaf"
  by (cases t) auto

lemma full_entries:
  "full t \<Longrightarrow> (x, n) \<in> set (node_entries p t) \<Longrightarrow> nd_left_child n = None \<longleftrightarrow> nd_right_child n = None"
  by (induction t arbitrary: p) (auto simp: root_id_none)

lemma root_id_in: "root_id t = Some c \<Longrightarrow> c \<in> set (inorder t)"
  by (cases t) auto

lemma distinct_children:
  assumes "distinct (inorder t)" and "(x, n) \<in> set (node_entries p t)" and "nd_left_child n = Some c"
  shows "nd_right_child n \<noteq> Some c"
  using assms
proof (induction t arbitrary: p)
  case (Node l a r)
  have dist: "set (inorder l) \<inter> set (inorder r) = {}" "distinct (inorder l)" "distinct (inorder r)"
    using Node.prems(1) by auto
  consider "(x, n) \<in> set (node_entries (Some a) l)" | "(x, n) \<in> set (node_entries (Some a) r)"
    | "nd_left_child n = root_id l" "nd_right_child n = root_id r"
    using Node.prems(2) by auto
  then show ?case
  proof cases
    case 3
    then show ?thesis using dist(1) Node.prems(3) root_id_in by (metis disjoint_iff)
  qed (use Node.IH Node.prems(3) dist in blast)+
qed simp

fun entry_depths :: "nat \<Rightarrow> int tree \<Rightarrow> (int \<times> nat) list" where
  "entry_depths k Leaf = []"
| "entry_depths k (Node l a r) = entry_depths (Suc k) l @ (a, k) # entry_depths (Suc k) r"

lemma entry_depths_ids: "map fst (entry_depths k t) = inorder t"
  by (induction t arbitrary: k) auto

lemma entry_depths_parent:
  assumes "(x, n) \<in> set (node_entries p t)" and "nd_parent n = Some q"
  shows "p = Some q \<and> root_id t = Some x \<and> (x, k) \<in> set (entry_depths k t) \<or>
    (\<exists>e. (q, e) \<in> set (entry_depths k t) \<and> (x, Suc e) \<in> set (entry_depths k t))"
  using assms
proof (induction t arbitrary: p k)
  case (Node l a r)
  consider "(x, n) \<in> set (node_entries (Some a) l)" | "(x, n) \<in> set (node_entries (Some a) r)" | "x = a" "nd_parent n = p"
    using Node.prems(1) by auto
  then show ?case
  proof cases
    case 1
    then show ?thesis using Node.IH(1) [of "Some a" "Suc k"] Node.prems(2) by auto
  next
    case 2
    then show ?thesis using Node.IH(2) [of "Some a" "Suc k"] Node.prems(2) by auto
  next
    case 3
    then show ?thesis using Node.prems(2) by simp
  qed
qed simp

definition power_tree :: "BinaryTree \<Rightarrow> bool" where
  "power_tree t \<longleftrightarrow> (\<exists>type d start stride. 0 < stride \<and> 0 \<le> start \<and> t = BinaryTree_new type (2 ^ Suc d) start stride)"

definition tree_nodes :: "BinaryTree \<Rightarrow> int set" where
  "tree_nodes t = dom (bt_node_list t)"

definition tree_depth_of :: "BinaryTree \<Rightarrow> int \<Rightarrow> nat" where
  "tree_depth_of t x = the (map_of (entry_depths 0 (bt_tree t)) x)"

definition tree_only_child :: "BinaryTree \<Rightarrow> int \<Rightarrow> int" where
  "tree_only_child t i = (if projr (get_left_child_id t i) \<ge> 0 then projr (get_left_child_id t i)
     else projr (get_right_child_id t i))"

lemma power_tree_facts:
  assumes "power_tree t"
  shows "finite (tree_nodes t)" "distinct (inorder (bt_tree t))"
    and "bt_node_list t x = Some n \<longleftrightarrow> (x, n) \<in> set (node_entries None (bt_tree t))"
    and "bt_node_list t x = Some n \<Longrightarrow> 0 \<le> x"
    and "bt_node_list t x = Some n \<Longrightarrow> nd_parent n \<noteq> None \<Longrightarrow> nd_left_child n = None \<longleftrightarrow> nd_right_child n = None"
    and "bt_node_list t x = Some n \<Longrightarrow> nd_parent n = None \<Longrightarrow> nd_left_child n = None \<longleftrightarrow> nd_right_child n \<noteq> None"
proof -
  obtain type d start stride where t: "0 < stride" "0 \<le> start" "t = BinaryTree_new type (2 ^ Suc d) start stride"
    using assms unfolding power_tree_def by blast
  have inorder: "inorder (bt_tree t) = map (\<lambda>k. start + int k * stride) [0..<2 ^ Suc d]"
    unfolding t(3) by (rule BinaryTree_new_tree(1))
  show dist: "distinct (inorder (bt_tree t))"
    unfolding inorder using t(1) by (simp add: distinct_map inj_on_def del: power_Suc)
  show entry: "bt_node_list t x = Some n \<longleftrightarrow> (x, n) \<in> set (node_entries None (bt_tree t))" for x n
    using node_list_entry [of stride type d start x n] t by (simp add: tree_entries_def del: power_Suc)
  have ids: "x \<in> set (inorder (bt_tree t))" if "bt_node_list t x = Some n" for x n
    using that unfolding entry node_entries_ids [of None, symmetric] by force
  show "finite (tree_nodes t)"
    by (rule finite_subset [of _ "set (inorder (bt_tree t))"]) (use ids in \<open>auto simp: tree_nodes_def\<close>)
  show "0 \<le> x" if "bt_node_list t x = Some n" using ids [OF that] t(1,2) unfolding inorder by auto
  let ?sub = "\<lambda>s. fst (build_tree stride (initialize_tree (Suc d)) s)"
  have sub: "full (?sub s)" "?sub s \<noteq> Leaf" for s
    using full_build [OF full_initialize] build_tree_leaf [of stride "initialize_tree (Suc d)"]
    by (auto simp: initialize_tree.simps)
  obtain a l r where shape: "bt_tree t = Node l a r" "full l" "full r" "l = Leaf \<longleftrightarrow> r \<noteq> Leaf"
  proof (cases type)
    case RootMax
    show thesis
      by (rule that [of "?sub start" _ Leaf]) (use BinaryTree_new_tree(3) [of type d start stride] sub RootMax t(3)
          in \<open>simp_all add: Let_def del: power_Suc\<close>)
  next
    case RootMin
    show thesis
      by (rule that [of Leaf _ "?sub (start + stride)"]) (use BinaryTree_new_tree(3) [of type d start stride] sub RootMin t(3)
          in \<open>simp_all add: Let_def del: power_Suc\<close>)
  qed
  have cases: "(x, n) \<in> set (node_entries (Some a) l) \<or> (x, n) \<in> set (node_entries (Some a) r) \<or>
      nd_parent n = None \<and> nd_left_child n = root_id l \<and> nd_right_child n = root_id r"
    if "bt_node_list t x = Some n" for x n
    using that unfolding entry shape(1) by auto
  show "nd_left_child n = None \<longleftrightarrow> nd_right_child n = None" if "bt_node_list t x = Some n" "nd_parent n \<noteq> None"
    using cases [OF that(1)] that(2) full_entries shape(2,3) by blast
  show "nd_left_child n = None \<longleftrightarrow> nd_right_child n \<noteq> None" if "bt_node_list t x = Some n" "nd_parent n = None"
    using cases [OF that(1)] that(2) inner_parent shape(4) root_id_none by metis
qed

lemma queries:
  assumes "bt_node_list t i = Some n"
  shows "get_parent_id t i = Inr (id_or_minus_one (nd_parent n))"
    "get_left_child_id t i = Inr (id_or_minus_one (nd_left_child n))"
    "get_right_child_id t i = Inr (id_or_minus_one (nd_right_child n))"
    "get_node_type t i = Inr (if nd_parent n = None then RootNode
       else if nd_left_child n = None \<and> nd_right_child n = None then LeafNode else IntermediateNode)"
  using assms by (simp_all add: get_parent_id_def get_left_child_id_def get_right_child_id_def get_node_type_def node_at_def)

lemma power_tree_parent:
  assumes "power_tree t" and "bt_node_list t i = Some n" and "nd_parent n = Some q"
  shows "\<exists>m. bt_node_list t q = Some m \<and> (nd_left_child m = Some i \<or> nd_right_child m = Some i)"
    and "tree_depth_of t q < tree_depth_of t i"
proof -
  have e: "(i, n) \<in> set (node_entries None (bt_tree t))" using power_tree_facts(3) [OF assms(1)] assms(2) by simp
  show "\<exists>m. bt_node_list t q = Some m \<and> (nd_left_child m = Some i \<or> nd_right_child m = Some i)"
    using parent_entry [OF e assms(3)] power_tree_facts(3) [OF assms(1)] by auto
  obtain k where "(q, k) \<in> set (entry_depths 0 (bt_tree t))" "(i, Suc k) \<in> set (entry_depths 0 (bt_tree t))"
    using entry_depths_parent [OF e assms(3), of 0] by auto
  moreover have "distinct (map fst (entry_depths 0 (bt_tree t)))"
    unfolding entry_depths_ids by (rule power_tree_facts(2) [OF assms(1)])
  ultimately show "tree_depth_of t q < tree_depth_of t i" by (simp add: tree_depth_of_def)
qed

lemma power_tree_child:
  assumes "power_tree t" and "bt_node_list t i = Some n" and "nd_left_child n = Some c \<or> nd_right_child n = Some c"
  shows "\<exists>m. bt_node_list t c = Some m \<and> nd_parent m = Some i"
  using child_entry [of i n None "bt_tree t" c] assms power_tree_facts(3) [OF assms(1)] by auto

lemma power_tree_distinct:
  "power_tree t \<Longrightarrow> bt_node_list t i = Some n \<Longrightarrow> nd_left_child n = Some c \<Longrightarrow> nd_right_child n \<noteq> Some c"
  using distinct_children power_tree_facts(2,3) by blast

end
