(* ===== verification/Tree_Collective.thy ===== *)
theory Tree_Collective
  imports Tree_Algorithm Tree_Shape
begin

text \<open>
  The distributed execution of the tree all-reduce: every node of a binary tree runs its own
  instance, bundles travel through the node's memory bus and the network pairs sends and
  receives per (source, destination). As for the ring, a run is any interleaving of starts,
  bundle completions and message deliveries.
\<close>

section \<open>System state and steps\<close>

record tsys =
  ts_algo :: "int \<Rightarrow> DoubleBinaryTreeAllReduce"
  ts_started :: "int \<Rightarrow> bool"
  ts_done :: "int \<Rightarrow> bool"
  ts_bundles :: "int \<Rightarrow> nat"
  ts_sent :: "int \<times> int \<Rightarrow> nat"
  ts_posted :: "int \<times> int \<Rightarrow> nat"
  ts_delivered :: "int \<times> int \<Rightarrow> nat"

datatype tlabel = TStart int | TBundleDone int | TDeliver int int

fun t_apply_effect :: "int \<Rightarrow> effect \<Rightarrow> tsys \<Rightarrow> tsys" where
  "t_apply_effect i (SendToMA ps pr sb sz tr) s = s\<lparr>ts_bundles := (ts_bundles s)(i := ts_bundles s i + 1)\<rparr>"
| "t_apply_effect i (SendToNPU ps pr sb sz tr) s = s\<lparr>ts_bundles := (ts_bundles s)(i := ts_bundles s i + 1)\<rparr>"
| "t_apply_effect i (FrontEndSend sz dst tag) s = s\<lparr>ts_sent := (ts_sent s)((i, dst) := ts_sent s (i, dst) + 1)\<rparr>"
| "t_apply_effect i (FrontEndRecv sz src tag) s = s\<lparr>ts_posted := (ts_posted s)((src, i) := ts_posted s (src, i) + 1)\<rparr>"
| "t_apply_effect i ProceedToNextVnet s = s\<lparr>ts_done := (ts_done s)(i := True)\<rparr>"

definition t_handle :: "EventType \<Rightarrow> int \<Rightarrow> tsys \<Rightarrow> tsys" where
  "t_handle event i s =
     (let d = DBT_run event ((ts_algo s i)\<lparr>dt_log := []\<rparr>)
      in fold (t_apply_effect i) (dt_log d) (s\<lparr>ts_algo := (ts_algo s)(i := d)\<rparr>))"

fun t_enabled :: "int set \<Rightarrow> tlabel \<Rightarrow> tsys \<Rightarrow> bool" where
  "t_enabled nodes (TStart i) s \<longleftrightarrow> i \<in> nodes \<and> \<not> ts_started s i"
| "t_enabled nodes (TBundleDone i) s \<longleftrightarrow> i \<in> nodes \<and> 0 < ts_bundles s i"
| "t_enabled nodes (TDeliver src dst) s \<longleftrightarrow> src \<in> nodes \<and> dst \<in> nodes \<and>
     ts_delivered s (src, dst) < min (ts_sent s (src, dst)) (ts_posted s (src, dst))"

fun t_step :: "tlabel \<Rightarrow> tsys \<Rightarrow> tsys" where
  "t_step (TStart i) s = t_handle StreamInit i (s\<lparr>ts_started := (ts_started s)(i := True)\<rparr>)"
| "t_step (TBundleDone i) s = t_handle General i (s\<lparr>ts_bundles := (ts_bundles s)(i := ts_bundles s i - 1)\<rparr>)"
| "t_step (TDeliver src dst) s = t_handle PacketReceived dst
     (s\<lparr>ts_delivered := (ts_delivered s)((src, dst) := ts_delivered s (src, dst) + 1)\<rparr>)"

definition tsys_init :: "(int \<Rightarrow> DoubleBinaryTreeAllReduce) \<Rightarrow> tsys" where
  "tsys_init algo = \<lparr>ts_algo = algo, ts_started = (\<lambda>_. False), ts_done = (\<lambda>_. False), ts_bundles = (\<lambda>_. 0),
     ts_sent = (\<lambda>_. 0), ts_posted = (\<lambda>_. 0), ts_delivered = (\<lambda>_. 0)\<rparr>"

inductive t_reach :: "int set \<Rightarrow> tsys \<Rightarrow> nat \<Rightarrow> tsys \<Rightarrow> bool" for nodes s0 where
  t_init: "t_reach nodes s0 0 s0"
| t_next: "t_reach nodes s0 k s \<Longrightarrow> t_enabled nodes l s \<Longrightarrow> t_reach nodes s0 (Suc k) (t_step l s)"

section \<open>The invariant of a node\<close>

text \<open>
  For each kind of node the finitely many situations it can be in. The columns are: state,
  started, done, (reductions,) bundles on the bus, then the counters of the links.
\<close>

definition leaf_ok :: "int \<Rightarrow> tsys \<Rightarrow> int \<Rightarrow> bool" where
  "leaf_ok p s i \<longleftrightarrow> dt_type (ts_algo s i) = LeafNode \<and> dt_parent (ts_algo s i) = p \<and>
     (dt_state (ts_algo s i), ts_started s i, ts_done s i, ts_bundles s i,
      ts_sent s (i, p), ts_posted s (p, i), ts_delivered s (p, i)) \<in>
     {(DBT_Begin, False, False, 0, 0, 0, 0), (SendingDataToParent, True, False, 1, 0, 0, 0),
      (WaitingDataFromParent, True, False, 0, 1, 1, 0), (DBT_End, True, False, 1, 1, 1, 1),
      (DBT_End, True, True, 0, 1, 1, 1)}"

definition root_ok :: "int \<Rightarrow> tsys \<Rightarrow> int \<Rightarrow> bool" where
  "root_ok c s i \<longleftrightarrow> dt_type (ts_algo s i) = RootNode \<and> only_child_id (ts_algo s i) = c \<and>
     (dt_state (ts_algo s i), ts_started s i, ts_done s i, ts_bundles s i,
      ts_posted s (c, i), ts_delivered s (c, i), ts_sent s (i, c)) \<in>
     {(DBT_Begin, False, False, 0, 0, 0, 0), (WaitingForOneChildData, True, False, 0, 1, 0, 0),
      (SendingDataToChilds, True, False, 1, 1, 1, 0), (SendingDataToChilds, True, True, 0, 1, 1, 1)}"

definition inner_ok :: "int \<Rightarrow> int \<Rightarrow> int \<Rightarrow> tsys \<Rightarrow> int \<Rightarrow> bool" where
  "inner_ok p l r s i \<longleftrightarrow> dt_type (ts_algo s i) = IntermediateNode \<and> dt_parent (ts_algo s i) = p \<and>
     dt_left_child (ts_algo s i) = l \<and> dt_right_child (ts_algo s i) = r \<and>
     (dt_state (ts_algo s i), ts_started s i, ts_done s i, dt_reductions (ts_algo s i), ts_bundles s i,
      (ts_posted s (l, i), ts_posted s (r, i), ts_delivered s (l, i), ts_delivered s (r, i)),
      (ts_sent s (i, p), ts_posted s (p, i), ts_delivered s (p, i)), (ts_sent s (i, l), ts_sent s (i, r))) \<in>
     {(DBT_Begin, False, False, 0, 0, (0, 0, 0, 0), (0, 0, 0), (0, 0)),
      (WaitingForTwoChildData, True, False, 0, 0, (1, 1, 0, 0), (0, 0, 0), (0, 0)),
      (WaitingForOneChildData, True, False, 0, 1, (1, 1, 1, 0), (0, 0, 0), (0, 0)),
      (WaitingForOneChildData, True, False, 0, 1, (1, 1, 0, 1), (0, 0, 0), (0, 0)),
      (WaitingForOneChildData, True, False, 1, 0, (1, 1, 1, 0), (0, 0, 0), (0, 0)),
      (WaitingForOneChildData, True, False, 1, 0, (1, 1, 0, 1), (0, 0, 0), (0, 0)),
      (SendingDataToParent, True, False, 0, 2, (1, 1, 1, 1), (0, 0, 0), (0, 0)),
      (SendingDataToParent, True, False, 1, 1, (1, 1, 1, 1), (0, 0, 0), (0, 0)),
      (WaitingDataFromParent, True, False, 1, 0, (1, 1, 1, 1), (1, 1, 0), (0, 0)),
      (SendingDataToChilds, True, False, 1, 1, (1, 1, 1, 1), (1, 1, 1), (0, 0)),
      (SendingDataToChilds, True, True, 1, 0, (1, 1, 1, 1), (1, 1, 1), (1, 1))}"

text \<open>The handler calls left at a node.\<close>

definition leaf_work :: "int \<Rightarrow> tsys \<Rightarrow> int \<Rightarrow> nat" where
  "leaf_work p s i = of_bool (\<not> ts_started s i) + (1 - ts_delivered s (p, i)) + (1 - ts_sent s (i, p)) +
     of_bool (\<not> ts_done s i)"

definition root_work :: "int \<Rightarrow> tsys \<Rightarrow> int \<Rightarrow> nat" where
  "root_work c s i = of_bool (\<not> ts_started s i) + (1 - ts_delivered s (c, i)) + of_bool (\<not> ts_done s i)"

definition inner_work :: "int \<Rightarrow> int \<Rightarrow> int \<Rightarrow> tsys \<Rightarrow> int \<Rightarrow> nat" where
  "inner_work p l r s i = of_bool (\<not> ts_started s i) + (1 - ts_delivered s (l, i)) + (1 - ts_delivered s (r, i)) +
     (1 - ts_delivered s (p, i)) + (1 - nat (dt_reductions (ts_algo s i))) + (1 - ts_sent s (i, p)) +
     of_bool (\<not> ts_done s i)"

section \<open>Steps of a node\<close>

text \<open>A step of node \<open>i\<close> leaves the rest of the system alone and posts no other receives.\<close>

definition t_only :: "int \<Rightarrow> int set \<Rightarrow> tsys \<Rightarrow> tsys \<Rightarrow> bool" where
  "t_only i peers s s' \<longleftrightarrow>
     (\<forall>j. j \<noteq> i \<longrightarrow> ts_algo s' j = ts_algo s j \<and> ts_started s' j = ts_started s j \<and>
        ts_done s' j = ts_done s j \<and> ts_bundles s' j = ts_bundles s j \<and>
        (\<forall>b. ts_sent s' (j, b) = ts_sent s (j, b)) \<and>
        (\<forall>a. ts_posted s' (a, j) = ts_posted s (a, j) \<and> ts_delivered s' (a, j) = ts_delivered s (a, j))) \<and>
     (\<forall>a. a \<notin> peers \<longrightarrow> ts_posted s' (a, i) = ts_posted s (a, i))"

lemma only_child_id_frame [simp]:
  "only_child_id (d\<lparr>dt_log := es\<rparr>) = only_child_id d" "only_child_id (d\<lparr>dt_state := st\<rparr>) = only_child_id d"
  by (simp_all add: only_child_id_def)

lemmas t_defs = t_handle_def Let_def DBT_run_def dt_effects_def dt_send_def dt_recv_def dt_exit_def t_only_def

lemma leaf_step:
  assumes ok: "leaf_ok p s i"
  shows "\<not> ts_started s i \<Longrightarrow> leaf_ok p (t_step (TStart i) s) i \<and> t_only i {p} s (t_step (TStart i) s) \<and>
      leaf_work p s i = Suc (leaf_work p (t_step (TStart i) s) i)"
    and "0 < ts_bundles s i \<Longrightarrow> leaf_ok p (t_step (TBundleDone i) s) i \<and> t_only i {p} s (t_step (TBundleDone i) s) \<and>
      leaf_work p s i = Suc (leaf_work p (t_step (TBundleDone i) s) i)"
    and "ts_delivered s (p, i) < ts_posted s (p, i) \<Longrightarrow> leaf_ok p (t_step (TDeliver p i) s) i \<and>
      t_only i {p} s (t_step (TDeliver p i) s) \<and> leaf_work p s i = Suc (leaf_work p (t_step (TDeliver p i) s) i)"
  using ok unfolding leaf_ok_def leaf_work_def by (auto simp: t_defs)

lemma root_step:
  assumes ok: "root_ok c s i"
  shows "\<not> ts_started s i \<Longrightarrow> root_ok c (t_step (TStart i) s) i \<and> t_only i {c} s (t_step (TStart i) s) \<and>
      root_work c s i = Suc (root_work c (t_step (TStart i) s) i)"
    and "0 < ts_bundles s i \<Longrightarrow> root_ok c (t_step (TBundleDone i) s) i \<and> t_only i {c} s (t_step (TBundleDone i) s) \<and>
      root_work c s i = Suc (root_work c (t_step (TBundleDone i) s) i)"
    and "ts_delivered s (c, i) < ts_posted s (c, i) \<Longrightarrow> root_ok c (t_step (TDeliver c i) s) i \<and>
      t_only i {c} s (t_step (TDeliver c i) s) \<and> root_work c s i = Suc (root_work c (t_step (TDeliver c i) s) i)"
  using ok unfolding root_ok_def root_work_def by (auto simp: t_defs)

lemma inner_runs:
  assumes "dt_type d = IntermediateNode"
  shows "dt_state d = DBT_Begin \<Longrightarrow> DBT_run StreamInit d =
      dt_effects [dt_recv d (dt_left_child d), dt_recv d (dt_right_child d)] (d\<lparr>dt_state := WaitingForTwoChildData\<rparr>)"
    and "dt_state d = WaitingForTwoChildData \<Longrightarrow> DBT_run PacketReceived d =
      (dt_effects [SendToNPU [] True False (dt_data_size d) Usual] d)\<lparr>dt_state := WaitingForOneChildData\<rparr>"
    and "dt_state d = WaitingForOneChildData \<Longrightarrow> DBT_run PacketReceived d =
      (dt_effects [SendToNPU [] True True (dt_data_size d) Usual] d)\<lparr>dt_state := SendingDataToParent\<rparr>"
    and "dt_state d \<noteq> DBT_Begin \<Longrightarrow> dt_reductions d = 0 \<Longrightarrow> DBT_run General d = d\<lparr>dt_reductions := 1\<rparr>"
    and "dt_state d = SendingDataToParent \<Longrightarrow> dt_reductions d = 1 \<Longrightarrow> DBT_run General d =
      dt_effects [dt_send d (dt_parent d), dt_recv d (dt_parent d)] (d\<lparr>dt_state := WaitingDataFromParent\<rparr>)"
    and "dt_state d = WaitingDataFromParent \<Longrightarrow> DBT_run PacketReceived d =
      (dt_effects [SendToNPU [] True True (dt_data_size d) Usual] d)\<lparr>dt_state := SendingDataToChilds\<rparr>"
    and "dt_state d = SendingDataToChilds \<Longrightarrow> dt_reductions d = 1 \<Longrightarrow> DBT_run General d =
      dt_exit (dt_effects [dt_send d (dt_left_child d), dt_send d (dt_right_child d)] d)"
  using assms by (simp_all add: DBT_run_def)

lemmas inner_defs = inner_ok_def inner_work_def t_only_def t_handle_def Let_def inner_runs dt_effects_def
  dt_send_def dt_recv_def dt_exit_def

lemma inner_start:
  assumes ok: "inner_ok p l r s i" and ne: "l \<noteq> r" "p \<noteq> l" "p \<noteq> r" and "\<not> ts_started s i"
  shows "inner_ok p l r (t_step (TStart i) s) i \<and> t_only i {p, l, r} s (t_step (TStart i) s) \<and>
      inner_work p l r s i = Suc (inner_work p l r (t_step (TStart i) s) i)"
proof -
  have "dt_state (ts_algo s i) = DBT_Begin" using ok assms(5) by (auto simp: inner_ok_def)
  then show ?thesis using assms by (simp add: inner_defs)
qed

lemma inner_bundle:
  assumes ok: "inner_ok p l r s i" and ne: "l \<noteq> r" "p \<noteq> l" "p \<noteq> r" and "0 < ts_bundles s i"
  shows "inner_ok p l r (t_step (TBundleDone i) s) i \<and> t_only i {p, l, r} s (t_step (TBundleDone i) s) \<and>
      inner_work p l r s i = Suc (inner_work p l r (t_step (TBundleDone i) s) i)"
proof -
  consider "dt_state (ts_algo s i) = WaitingForOneChildData" "dt_reductions (ts_algo s i) = 0"
    | "dt_state (ts_algo s i) = SendingDataToParent" "dt_reductions (ts_algo s i) = 0"
    | "dt_state (ts_algo s i) = SendingDataToParent" "dt_reductions (ts_algo s i) = 1"
    | "dt_state (ts_algo s i) = SendingDataToChilds" "dt_reductions (ts_algo s i) = 1"
    using ok assms(5) by (auto simp: inner_ok_def)
  then show ?thesis
  proof cases
    case 1
    then have "ts_delivered s (l, i) = 1 \<and> ts_delivered s (r, i) = 0 \<or> ts_delivered s (l, i) = 0 \<and> ts_delivered s (r, i) = 1"
      using ok by (auto simp: inner_ok_def)
    then show ?thesis using 1 assms by (elim disjE) (simp_all add: inner_defs)
  next
    case 2
    then show ?thesis using assms by (simp add: inner_defs)
  next
    case 3
    then show ?thesis using assms by (simp add: inner_defs)
  next
    case 4
    then have "ts_done s i = False" using ok assms(5) by (auto simp: inner_ok_def)
    then show ?thesis using 4 assms by (simp add: inner_defs)
  qed
qed

lemma inner_deliver:
  assumes ok: "inner_ok p l r s i" and ne: "l \<noteq> r" "p \<noteq> l" "p \<noteq> r"
    and "q \<in> {p, l, r}" and "ts_delivered s (q, i) < ts_posted s (q, i)"
  shows "inner_ok p l r (t_step (TDeliver q i) s) i \<and> t_only i {p, l, r} s (t_step (TDeliver q i) s) \<and>
      inner_work p l r s i = Suc (inner_work p l r (t_step (TDeliver q i) s) i)"
proof -
  consider "dt_state (ts_algo s i) = WaitingForTwoChildData" "q = l"
    | "dt_state (ts_algo s i) = WaitingForTwoChildData" "q = r"
    | "dt_state (ts_algo s i) = WaitingForOneChildData" "dt_reductions (ts_algo s i) = 0" "q = l"
    | "dt_state (ts_algo s i) = WaitingForOneChildData" "dt_reductions (ts_algo s i) = 0" "q = r"
    | "dt_state (ts_algo s i) = WaitingForOneChildData" "dt_reductions (ts_algo s i) = 1" "q = l"
    | "dt_state (ts_algo s i) = WaitingForOneChildData" "dt_reductions (ts_algo s i) = 1" "q = r"
    | "dt_state (ts_algo s i) = WaitingDataFromParent" "q = p"
    using ok assms(5,6) by (auto simp: inner_ok_def)
  then show ?thesis
  proof cases
    case 3
    then have "ts_delivered s (l, i) = 0" using ok assms(6) by (auto simp: inner_ok_def)
    then show ?thesis using 3 assms by (simp add: inner_defs)
  next
    case 4
    then have "ts_delivered s (r, i) = 0" using ok assms(6) by (auto simp: inner_ok_def)
    then show ?thesis using 4 assms by (simp add: inner_defs)
  next
    case 5
    then have "ts_delivered s (l, i) = 0" using ok assms(6) by (auto simp: inner_ok_def)
    then show ?thesis using 5 assms by (simp add: inner_defs)
  next
    case 6
    then have "ts_delivered s (r, i) = 0" using ok assms(6) by (auto simp: inner_ok_def)
    then show ?thesis using 6 assms by (simp add: inner_defs)
  qed (use assms in \<open>simp_all add: inner_defs\<close>)
qed

section \<open>Trees of nodes\<close>

lemma t_only_ok:
  assumes "t_only i P s s'" and "j \<noteq> i"
  shows "leaf_ok p s' j = leaf_ok p s j" "root_ok c s' j = root_ok c s j" "inner_ok p l r s' j = inner_ok p l r s j"
    "leaf_work p s' j = leaf_work p s j" "root_work c s' j = root_work c s j"
    "inner_work p l r s' j = inner_work p l r s j"
  using assms
  by (simp_all add: t_only_def leaf_ok_def root_ok_def inner_ok_def leaf_work_def root_work_def inner_work_def)

text \<open>
  What the all-reduce relies on: a finite tree of nodes, each a leaf, a root with one child or
  an inner node with two, whose links are mutually consistent and descend.
\<close>

locale tree_links =
  fixes ok :: "'t \<Rightarrow> bool"
    and nodes :: "'t \<Rightarrow> int set"
    and kind :: "'t \<Rightarrow> int \<Rightarrow> NodeType"
    and par :: "'t \<Rightarrow> int \<Rightarrow> int"
    and lch :: "'t \<Rightarrow> int \<Rightarrow> int"
    and rch :: "'t \<Rightarrow> int \<Rightarrow> int"
    and och :: "'t \<Rightarrow> int \<Rightarrow> int"
    and depth :: "'t \<Rightarrow> int \<Rightarrow> nat"
  assumes finite_nodes: "ok t \<Longrightarrow> finite (nodes t)"
    and par_in: "ok t \<Longrightarrow> i \<in> nodes t \<Longrightarrow> kind t i \<noteq> RootNode \<Longrightarrow> par t i \<in> nodes t"
    and par_depth: "ok t \<Longrightarrow> i \<in> nodes t \<Longrightarrow> kind t i \<noteq> RootNode \<Longrightarrow> depth t (par t i) < depth t i"
    and par_kind: "ok t \<Longrightarrow> i \<in> nodes t \<Longrightarrow> kind t i \<noteq> RootNode \<Longrightarrow> kind t (par t i) \<noteq> LeafNode"
    and par_root: "ok t \<Longrightarrow> i \<in> nodes t \<Longrightarrow> kind t i \<noteq> RootNode \<Longrightarrow> kind t (par t i) = RootNode \<Longrightarrow>
      och t (par t i) = i"
    and par_inner: "ok t \<Longrightarrow> i \<in> nodes t \<Longrightarrow> kind t i \<noteq> RootNode \<Longrightarrow> kind t (par t i) = IntermediateNode \<Longrightarrow>
      i = lch t (par t i) \<or> i = rch t (par t i)"
    and inner_kids: "ok t \<Longrightarrow> i \<in> nodes t \<Longrightarrow> kind t i = IntermediateNode \<Longrightarrow> c = lch t i \<or> c = rch t i \<Longrightarrow>
      c \<in> nodes t \<and> kind t c \<noteq> RootNode \<and> par t c = i"
    and inner_distinct: "ok t \<Longrightarrow> i \<in> nodes t \<Longrightarrow> kind t i = IntermediateNode \<Longrightarrow> lch t i \<noteq> rch t i"
    and root_kid: "ok t \<Longrightarrow> i \<in> nodes t \<Longrightarrow> kind t i = RootNode \<Longrightarrow>
      och t i \<in> nodes t \<and> kind t (och t i) \<noteq> RootNode \<and> par t (och t i) = i"
begin

definition node_ok :: "'t \<Rightarrow> tsys \<Rightarrow> int \<Rightarrow> bool" where
  "node_ok t s i \<longleftrightarrow> (case kind t i of LeafNode \<Rightarrow> leaf_ok (par t i) s i | RootNode \<Rightarrow> root_ok (och t i) s i
     | IntermediateNode \<Rightarrow> inner_ok (par t i) (lch t i) (rch t i) s i)"

definition peers :: "'t \<Rightarrow> int \<Rightarrow> int set" where
  "peers t i = (case kind t i of LeafNode \<Rightarrow> {par t i} | RootNode \<Rightarrow> {och t i}
     | IntermediateNode \<Rightarrow> {par t i, lch t i, rch t i})"

definition node_work :: "'t \<Rightarrow> tsys \<Rightarrow> int \<Rightarrow> nat" where
  "node_work t s i = (case kind t i of LeafNode \<Rightarrow> leaf_work (par t i) s i | RootNode \<Rightarrow> root_work (och t i) s i
     | IntermediateNode \<Rightarrow> inner_work (par t i) (lch t i) (rch t i) s i)"

definition inv :: "'t \<Rightarrow> tsys \<Rightarrow> bool" where
  "inv t s \<longleftrightarrow> (\<forall>i\<in>nodes t. node_ok t s i \<and> (\<forall>a. a \<notin> peers t i \<longrightarrow> ts_posted s (a, i) = 0))"

definition work :: "'t \<Rightarrow> tsys \<Rightarrow> nat" where
  "work t s = (\<Sum>i\<in>nodes t. node_work t s i)"

lemma inner_ne:
  assumes "ok t" and "i \<in> nodes t" and "kind t i = IntermediateNode"
  shows "lch t i \<noteq> rch t i" "par t i \<noteq> lch t i" "par t i \<noteq> rch t i"
proof -
  show "lch t i \<noteq> rch t i" using inner_distinct assms by blast
  have "depth t (par t i) < depth t i" using par_depth assms by simp
  moreover have "depth t i < depth t c" if "c = lch t i \<or> c = rch t i" for c
    using inner_kids [OF assms that] par_depth [OF assms(1), of c] by simp
  ultimately show "par t i \<noteq> lch t i" "par t i \<noteq> rch t i" by (metis less_irrefl less_trans)+
qed

lemma node_step:
  assumes "ok t" and "inv t s" and "t_enabled (nodes t) l s"
  shows "\<exists>i\<in>nodes t. node_ok t (t_step l s) i \<and> t_only i (peers t i) s (t_step l s) \<and>
    node_work t s i = Suc (node_work t (t_step l s) i)"
proof (cases l)
  case (TStart i)
  then have i: "i \<in> nodes t" "\<not> ts_started s i" "node_ok t s i" using assms by (auto simp: inv_def)
  show ?thesis
    using i inner_start inner_ne [OF assms(1)] leaf_step(1) root_step(1) unfolding TStart
    by (intro bexI [OF _ i(1)], cases "kind t i") (simp_all add: node_ok_def peers_def node_work_def del: t_step.simps)
next
  case (TBundleDone i)
  then have i: "i \<in> nodes t" "0 < ts_bundles s i" "node_ok t s i" using assms by (auto simp: inv_def)
  show ?thesis
    using i inner_bundle inner_ne [OF assms(1)] leaf_step(2) root_step(2) unfolding TBundleDone
    by (intro bexI [OF _ i(1)], cases "kind t i") (simp_all add: node_ok_def peers_def node_work_def del: t_step.simps)
next
  case (TDeliver q i)
  then have i: "i \<in> nodes t" "node_ok t s i" "ts_delivered s (q, i) < ts_posted s (q, i)"
    using assms by (auto simp: inv_def)
  moreover from this have "q \<in> peers t i" using assms(2) unfolding inv_def by (metis less_nat_zero_code)
  ultimately show ?thesis
    using inner_deliver [of "par t i" "lch t i" "rch t i" s i q] inner_ne [OF assms(1) i(1)]
      leaf_step(3) [of "par t i" s i] root_step(3) [of "och t i" s i] unfolding TDeliver
    by (intro bexI [OF _ i(1)], cases "kind t i") (simp_all add: node_ok_def peers_def node_work_def del: t_step.simps)
qed

lemma inv_step:
  assumes "ok t" and "inv t s" and "t_enabled (nodes t) l s"
  shows "inv t (t_step l s) \<and> work t s = Suc (work t (t_step l s))"
proof -
  obtain i where i: "i \<in> nodes t" "node_ok t (t_step l s) i" "t_only i (peers t i) s (t_step l s)"
    "node_work t s i = Suc (node_work t (t_step l s) i)"
    using node_step [OF assms] by blast
  have other: "node_ok t (t_step l s) j = node_ok t s j" "node_work t (t_step l s) j = node_work t s j" if "j \<noteq> i" for j
    using t_only_ok [OF i(3) that] by (cases "kind t j"; simp add: node_ok_def node_work_def)+
  have "node_ok t (t_step l s) j" if "j \<in> nodes t" for j
    using i(2) other(1) [of j] assms(2) that by (cases "j = i") (auto simp: inv_def)
  moreover have "ts_posted (t_step l s) (a, j) = 0" if "j \<in> nodes t" "a \<notin> peers t j" for a j
    using i(3) assms(2) that by (cases "j = i") (auto simp: inv_def t_only_def)
  ultimately have inv: "inv t (t_step l s)" by (simp add: inv_def)
  have "work t s = node_work t s i + (\<Sum>j\<in>nodes t - {i}. node_work t s j)"
    "work t (t_step l s) = node_work t (t_step l s) i + (\<Sum>j\<in>nodes t - {i}. node_work t (t_step l s) j)"
    unfolding work_def by (rule sum.remove [OF finite_nodes [OF assms(1)] i(1)])+
  moreover have "(\<Sum>j\<in>nodes t - {i}. node_work t (t_step l s) j) = (\<Sum>j\<in>nodes t - {i}. node_work t s j)"
    using other(2) by (intro sum.cong) auto
  ultimately show ?thesis using inv i(4) by simp
qed

lemma reach_inv:
  assumes "ok t" and "inv t s0" and "t_reach (nodes t) s0 k s"
  shows "inv t s \<and> work t s0 = work t s + k"
  using assms(3)
proof induction
  case t_init
  show ?case using assms(2) by simp
next
  case (t_next k s l)
  then show ?case using inv_step [OF assms(1)] by fastforce
qed

text \<open>What a stuck node looks like: it has started and has nothing on its bus.\<close>

lemma stuck_local:
  assumes "inv t s" and "\<And>l. \<not> t_enabled (nodes t) l s" and "i \<in> nodes t"
  shows "ts_started s i" "ts_bundles s i = 0" "node_ok t s i"
  using assms(1,3) assms(2) [of "TStart i"] assms(2) [of "TBundleDone i"] by (auto simp: inv_def)

lemma stuck_link:
  assumes "\<And>l. \<not> t_enabled (nodes t) l s" and "i \<in> nodes t" and "j \<in> nodes t" and "ts_sent s (j, i) = 1"
    and "ts_posted s (j, i) = 1"
  shows "ts_delivered s (j, i) \<noteq> 0"
  using assms(1) [of "TDeliver j i"] assms(2-5) by auto

lemma stuck_up:
  assumes "ok t" and "inv t s" and "\<And>l. \<not> t_enabled (nodes t) l s" and "i \<in> nodes t" and "kind t i \<noteq> RootNode"
  shows "ts_sent s (i, par t i) = 1 \<and> ts_posted s (par t i, i) = 1"
  using assms(4,5)
proof (induction "Max (depth t ` nodes t) - depth t i" arbitrary: i rule: less_induct)
  case less
  note loc = stuck_local [OF assms(2,3) less.prems(1)]
  show ?case
  proof (cases "kind t i")
    case LeafNode
    then show ?thesis using loc by (auto simp: node_ok_def leaf_ok_def)
  next
    case IntermediateNode
    have kid: "ts_delivered s (c, i) \<noteq> 0" if c: "c = lch t i \<or> c = rch t i" "ts_posted s (c, i) = 1" for c
    proof -
      note kid = inner_kids [OF assms(1) less.prems(1) IntermediateNode c(1)]
      have d: "depth t i < depth t c" using par_depth [OF assms(1), of c] kid by simp
      have "depth t c \<le> Max (depth t ` nodes t)" using kid finite_nodes [OF assms(1)] by simp
      then have "Max (depth t ` nodes t) - depth t c < Max (depth t ` nodes t) - depth t i" using d by simp
      from less.hyps [OF this] kid have "ts_sent s (c, i) = 1" by simp
      then show ?thesis using stuck_link [OF assms(3) less.prems(1)] kid c(2) by blast
    qed
    then have "ts_posted s (lch t i, i) = 1 \<longrightarrow> ts_delivered s (lch t i, i) \<noteq> 0"
      "ts_posted s (rch t i, i) = 1 \<longrightarrow> ts_delivered s (rch t i, i) \<noteq> 0" by blast+
    then show ?thesis using loc IntermediateNode by (auto simp: node_ok_def inner_ok_def)
  qed (use less.prems in simp)
qed

lemma stuck_done:
  assumes "ok t" and "inv t s" and "\<And>l. \<not> t_enabled (nodes t) l s" and "i \<in> nodes t"
  shows "ts_done s i"
  using assms(4)
proof (induction "depth t i" arbitrary: i rule: less_induct)
  case less
  note loc = stuck_local [OF assms(2,3) less.prems]
  show ?case
  proof (cases "kind t i = RootNode")
    case True
    note kid = root_kid [OF assms(1) less.prems True]
    have "ts_sent s (och t i, i) = 1" using stuck_up [OF assms(1-3), of "och t i"] kid by simp
    then show ?thesis
      using loc True stuck_link [OF assms(3) less.prems, of "och t i"] kid by (auto simp: node_ok_def root_ok_def)
  next
    case False
    let ?p = "par t i"
    have p: "?p \<in> nodes t" "ts_done s ?p"
      using par_in [OF assms(1) less.prems False] par_depth [OF assms(1) less.prems False] less.hyps by blast+
    have "node_ok t s ?p" using assms(2) p(1) by (simp add: inv_def)
    then have "ts_sent s (?p, i) = 1"
      using p par_kind [OF assms(1) less.prems False] par_root [OF assms(1) less.prems False]
        par_inner [OF assms(1) less.prems False]
      by (cases "kind t ?p") (auto simp: node_ok_def root_ok_def inner_ok_def)
    then have "ts_delivered s (?p, i) \<noteq> 0"
      using stuck_link [OF assms(3) less.prems p(1)] stuck_up [OF assms(1-3) less.prems False] by blast
    then show ?thesis using loc False by (cases "kind t i") (auto simp: node_ok_def leaf_ok_def inner_ok_def)
  qed
qed

lemma done_stuck:
  assumes "inv t s" and "\<forall>i\<in>nodes t. ts_done s i"
  shows "\<not> t_enabled (nodes t) l s" "work t s = 0"
proof -
  have d: "ts_started s i \<and> ts_bundles s i = 0 \<and> (\<forall>a\<in>peers t i. ts_posted s (a, i) \<le> ts_delivered s (a, i)) \<and> node_work t s i = 0"
    if "i \<in> nodes t" for i
    using assms that
    by (cases "kind t i") (auto simp: inv_def node_ok_def leaf_ok_def root_ok_def inner_ok_def peers_def
        node_work_def leaf_work_def root_work_def inner_work_def)
  show "\<not> t_enabled (nodes t) l s"
  proof (cases l)
    case (TDeliver q i)
    have "ts_posted s (q, i) \<le> ts_delivered s (q, i)" if "i \<in> nodes t"
      using d [OF that] assms(1) that unfolding inv_def by (metis le0)
    then show ?thesis unfolding TDeliver by fastforce
  qed (use d in auto)
  show "work t s = 0" using d by (simp add: work_def)
qed

definition cost :: "'t \<Rightarrow> int \<Rightarrow> nat" where
  "cost t i = (case kind t i of LeafNode \<Rightarrow> 4 | RootNode \<Rightarrow> 3 | IntermediateNode \<Rightarrow> 7)"

text \<open>Nodes that have just been constructed for the tree.\<close>

definition fresh :: "'t \<Rightarrow> (int \<Rightarrow> DoubleBinaryTreeAllReduce) \<Rightarrow> bool" where
  "fresh t algo \<longleftrightarrow> (\<forall>i\<in>nodes t. dt_state (algo i) = DBT_Begin \<and> dt_reductions (algo i) = 0 \<and>
     dt_type (algo i) = kind t i \<and> (kind t i \<noteq> RootNode \<longrightarrow> dt_parent (algo i) = par t i) \<and>
     (kind t i = IntermediateNode \<longrightarrow> dt_left_child (algo i) = lch t i \<and> dt_right_child (algo i) = rch t i) \<and>
     (kind t i = RootNode \<longrightarrow> only_child_id (algo i) = och t i))"

lemma fresh_inv:
  assumes "fresh t algo"
  shows "inv t (tsys_init algo)" "work t (tsys_init algo) = (\<Sum>i\<in>nodes t. cost t i)"
proof -
  show "inv t (tsys_init algo)"
    unfolding inv_def
  proof (intro ballI conjI allI impI)
    fix i assume i: "i \<in> nodes t"
    show "node_ok t (tsys_init algo) i"
      using assms i by (cases "kind t i") (auto simp: fresh_def tsys_init_def node_ok_def leaf_ok_def root_ok_def inner_ok_def)
    show "ts_posted (tsys_init algo) (a, i) = 0" for a by (simp add: tsys_init_def)
  qed
  show "work t (tsys_init algo) = (\<Sum>i\<in>nodes t. cost t i)"
    unfolding work_def
  proof (intro sum.cong refl)
    fix i assume "i \<in> nodes t"
    then show "node_work t (tsys_init algo) i = cost t i"
      using assms by (cases "kind t i") (auto simp: fresh_def tsys_init_def node_work_def cost_def leaf_work_def root_work_def inner_work_def)
  qed
qed

theorem terminates:
  assumes "ok t" and "fresh t algo" and "t_reach (nodes t) (tsys_init algo) k s"
  shows "k \<le> (\<Sum>i\<in>nodes t. cost t i) \<and>
    ((\<forall>l. \<not> t_enabled (nodes t) l s) \<longleftrightarrow> (\<forall>i\<in>nodes t. ts_done s i)) \<and>
    ((\<forall>i\<in>nodes t. ts_done s i) \<longrightarrow> k = (\<Sum>i\<in>nodes t. cost t i))"
proof -
  note r = reach_inv [OF assms(1) fresh_inv(1) [OF assms(2)] assms(3)] fresh_inv(2) [OF assms(2)]
  have "ts_done s i" if "\<forall>l. \<not> t_enabled (nodes t) l s" "i \<in> nodes t" for i
    using stuck_done [OF assms(1)] r(1) that by blast
  moreover have "\<not> t_enabled (nodes t) l s \<and> work t s = 0" if "\<forall>i\<in>nodes t. ts_done s i" for l
    using done_stuck r(1) that by blast
  ultimately show ?thesis using r by auto
qed

end

section \<open>The trees of the code\<close>

abbreviation tree_kind :: "BinaryTree \<Rightarrow> int \<Rightarrow> NodeType" where
  "tree_kind t i \<equiv> projr (get_node_type t i)"

abbreviation tree_parent :: "BinaryTree \<Rightarrow> int \<Rightarrow> int" where
  "tree_parent t i \<equiv> projr (get_parent_id t i)"

abbreviation tree_left :: "BinaryTree \<Rightarrow> int \<Rightarrow> int" where
  "tree_left t i \<equiv> projr (get_left_child_id t i)"

abbreviation tree_right :: "BinaryTree \<Rightarrow> int \<Rightarrow> int" where
  "tree_right t i \<equiv> projr (get_right_child_id t i)"

lemma tree_node_cases:
  assumes "power_tree t" and "i \<in> tree_nodes t"
  obtains (root) n c where "bt_node_list t i = Some n" "tree_kind t i = RootNode" "nd_parent n = None"
      "nd_left_child n = Some c \<and> nd_right_child n = None \<or> nd_left_child n = None \<and> nd_right_child n = Some c"
      "tree_only_child t i = c"
  | (leaf) n p where "bt_node_list t i = Some n" "tree_kind t i = LeafNode" "nd_parent n = Some p"
      "tree_parent t i = p" "nd_left_child n = None" "nd_right_child n = None"
  | (inner) n p l r where "bt_node_list t i = Some n" "tree_kind t i = IntermediateNode" "nd_parent n = Some p"
      "tree_parent t i = p" "nd_left_child n = Some l" "nd_right_child n = Some r"
      "tree_left t i = l" "tree_right t i = r"
proof -
  obtain n where n: "bt_node_list t i = Some n" using assms(2) by (auto simp: tree_nodes_def)
  note q = queries [OF n]
  show thesis
  proof (cases "nd_parent n")
    case None
    with power_tree_facts(6) [OF assms(1) n] obtain c where
      c: "nd_left_child n = Some c \<and> nd_right_child n = None \<or> nd_left_child n = None \<and> nd_right_child n = Some c"
      by (cases "nd_left_child n"; cases "nd_right_child n") auto
    then have "0 \<le> c" using power_tree_child [OF assms(1) n, of c] power_tree_facts(4) [OF assms(1)] by auto
    with c have "tree_only_child t i = c" by (auto simp: tree_only_child_def q id_or_minus_one_def)
    with c None q show thesis by (intro root [OF n]) simp_all
  next
    case (Some p)
    then have "nd_left_child n = None \<longleftrightarrow> nd_right_child n = None" using power_tree_facts(5) [OF assms(1) n] by simp
    with Some q show thesis
      by (cases "nd_left_child n"; cases "nd_right_child n") (auto intro: leaf [OF n] inner [OF n] simp: id_or_minus_one_def)
  qed
qed

lemma tree_kind_root:
  "bt_node_list t i = Some n \<Longrightarrow> tree_kind t i = RootNode \<longleftrightarrow> nd_parent n = None"
  by (simp add: queries)

interpretation tl: tree_links power_tree tree_nodes tree_kind tree_parent tree_left tree_right
  tree_only_child tree_depth_of
proof
  fix t i c
  assume ok: "power_tree t"
  show "finite (tree_nodes t)" by (rule power_tree_facts(1) [OF ok])
  assume i: "i \<in> tree_nodes t"
  have par: "\<exists>m. bt_node_list t (tree_parent t i) = Some m \<and>
      (nd_left_child m = Some i \<or> nd_right_child m = Some i) \<and> tree_depth_of t (tree_parent t i) < tree_depth_of t i"
    if "tree_kind t i \<noteq> RootNode"
    using ok i
  proof (cases rule: tree_node_cases)
    case (leaf n p)
    then show ?thesis using power_tree_parent [OF ok leaf(1,3)] by auto
  next
    case (inner n p l r)
    then show ?thesis using power_tree_parent [OF ok inner(1,3)] by auto
  qed (use that in simp)
  show "tree_parent t i \<in> tree_nodes t" "tree_depth_of t (tree_parent t i) < tree_depth_of t i"
    if "tree_kind t i \<noteq> RootNode"
    using par [OF that] by (auto simp: tree_nodes_def)
  have parn: "tree_parent t i \<in> tree_nodes t" if "tree_kind t i \<noteq> RootNode"
    using par [OF that] by (auto simp: tree_nodes_def)
  show "tree_kind t (tree_parent t i) \<noteq> LeafNode" if r: "tree_kind t i \<noteq> RootNode"
    using ok parn [OF r] by (cases rule: tree_node_cases) (use par [OF r] in auto)
  show "tree_only_child t (tree_parent t i) = i"
    if r: "tree_kind t i \<noteq> RootNode" and "tree_kind t (tree_parent t i) = RootNode"
    using ok parn [OF r] by (cases rule: tree_node_cases) (use par [OF r] that(2) in auto)
  show "i = tree_left t (tree_parent t i) \<or> i = tree_right t (tree_parent t i)"
    if r: "tree_kind t i \<noteq> RootNode" and "tree_kind t (tree_parent t i) = IntermediateNode"
    using ok parn [OF r] by (cases rule: tree_node_cases) (use par [OF r] that(2) in auto)
  have kid: "c \<in> tree_nodes t \<and> tree_kind t c \<noteq> RootNode \<and> tree_parent t c = i"
    if "bt_node_list t i = Some n" "nd_left_child n = Some c \<or> nd_right_child n = Some c" for n c
    using power_tree_child [OF ok that] by (auto simp: tree_nodes_def queries id_or_minus_one_def split: if_splits)
  show "c \<in> tree_nodes t \<and> tree_kind t c \<noteq> RootNode \<and> tree_parent t c = i"
    if "tree_kind t i = IntermediateNode" and "c = tree_left t i \<or> c = tree_right t i"
    using ok i by (cases rule: tree_node_cases) (use that kid in auto)
  show "tree_left t i \<noteq> tree_right t i" if "tree_kind t i = IntermediateNode"
    using ok i by (cases rule: tree_node_cases) (use that power_tree_distinct [OF ok] in auto)
  show "tree_only_child t i \<in> tree_nodes t \<and> tree_kind t (tree_only_child t i) \<noteq> RootNode \<and>
      tree_parent t (tree_only_child t i) = i" if "tree_kind t i = RootNode"
    using ok i by (cases rule: tree_node_cases) (use that kid in auto)
qed

section \<open>The number of handler calls\<close>

lemma sum_pairs: "(\<Sum>k < 2 * n. f k) = (\<Sum>j < n. f (2 * j) + f (Suc (2 * j)) :: nat)"
  by (induction n) simp_all

lemma tree_nodes_power:
  assumes "0 < stride"
  shows "tree_nodes (BinaryTree_new type (2 ^ Suc d) start stride) = (\<lambda>k. start + int k * stride) ` {..<2 ^ Suc d}"
proof
  show "tree_nodes (BinaryTree_new type (2 ^ Suc d) start stride) \<subseteq> (\<lambda>k. start + int k * stride) ` {..<2 ^ Suc d}"
    using tree_entry_absent [of _ start stride d type] by (force simp: tree_nodes_def simp del: power_Suc)
  show "(\<lambda>k. start + int k * stride) ` {..<2 ^ Suc d} \<subseteq> tree_nodes (BinaryTree_new type (2 ^ Suc d) start stride)"
    using tree_entries_nth(1) [of stride _ d type start] assms by (force simp: tree_nodes_def simp del: power_Suc)
qed

lemma tree_kind_power:
  assumes "0 < stride" and "k < 2 ^ Suc d"
  shows "tree_kind (BinaryTree_new type (2 ^ Suc d) start stride) (start + int k * stride) =
    (if (case type of RootMax \<Rightarrow> k = 2 ^ Suc d - 1 | RootMin \<Rightarrow> k = 0) then RootNode
     else if (case type of RootMax \<Rightarrow> even k | RootMin \<Rightarrow> odd k) then LeafNode else IntermediateNode)"
  using tree_entries_nth(1) [of stride k d type start] tree_entries_split [OF assms(2), of type start stride] assms
  by (auto simp: queries is_leaf_entry_def split: TreeType.splits simp del: power_Suc)

lemma tree_cost:
  assumes "0 < stride"
  shows "(\<Sum>i\<in>tree_nodes (BinaryTree_new type (2 ^ Suc d) start stride).
    tl.cost (BinaryTree_new type (2 ^ Suc d) start stride) i) = 11 * 2 ^ d - 4"
proof -
  let ?t = "BinaryTree_new type (2 ^ Suc d) start stride" and ?n = "2 ^ d :: nat"
  define f where "f k = (if (case type of RootMax \<Rightarrow> k = 2 * ?n - 1 | RootMin \<Rightarrow> k = 0) then 3
    else if (case type of RootMax \<Rightarrow> even k | RootMin \<Rightarrow> odd k) then 4 else 7 :: nat)" for k
  have inj: "inj_on (\<lambda>k. start + int k * stride) {..<2 ^ Suc d}" using assms by (auto simp: inj_on_def)
  have "(\<Sum>i\<in>tree_nodes ?t. tl.cost ?t i) = (\<Sum>k < 2 ^ Suc d. tl.cost ?t (start + int k * stride))"
    unfolding tree_nodes_power [OF assms] by (simp only: sum.reindex [OF inj] comp_def)
  also have "\<dots> = (\<Sum>k < 2 ^ Suc d. f k)"
  proof (intro sum.cong refl)
    fix k :: nat assume "k \<in> {..<2 ^ Suc d}"
    then have k: "k < 2 ^ Suc d" by simp
    show "tl.cost ?t (start + int k * stride) = f k"
      unfolding tl.cost_def tree_kind_power [OF assms k] by (cases type) (simp_all add: f_def)
  qed
  also have "\<dots> = (\<Sum>j < ?n. f (2 * j) + f (Suc (2 * j)))" using sum_pairs [of f ?n] by simp
  also have "\<dots> = (\<Sum>j < ?n. if j = (case type of RootMax \<Rightarrow> ?n - 1 | RootMin \<Rightarrow> 0) then 7 else 11)"
    by (intro sum.cong refl) (auto simp: f_def split: TreeType.splits)
  also have "\<dots> = 11 * 2 ^ d - 4"
  proof -
    have j: "(case type of RootMax \<Rightarrow> ?n - 1 | RootMin \<Rightarrow> 0) \<in> {..<?n}" by (cases type) simp_all
    obtain q where q: "?n = Suc q" by (metis Suc_pred' zero_less_numeral zero_less_power)
    show ?thesis
      unfolding sum.remove [OF finite_lessThan j] using card_Diff_singleton [OF j] q by simp
  qed
  finally show ?thesis .
qed

section \<open>Properties\<close>

text \<open>
  \<^bold>\<open>C25\<close>. The tree all-reduce always completes. On a tree of \<open>2 ^ (d + 1)\<close> nodes, with every
  node running the handler that the constructor sets up for it, and whatever the order in which
  nodes start, bundles complete and messages arrive: at most \<open>11 * 2 ^ d - 4\<close> handler calls
  happen; no call is possible any more exactly when every node has proceeded to its next
  phase, so there is no deadlock; and then exactly that many calls have happened.
\<close>

theorem tree_allreduce_terminates:
  assumes "0 < stride" and "0 \<le> start" and "t = BinaryTree_new type (2 ^ Suc d) start stride"
    and "nodes = (\<lambda>k. start + int k * stride) ` {..<2 ^ Suc d}"
    and "\<forall>i\<in>nodes. \<exists>a. DoubleBinaryTreeAllReduce_new i t bytes = Inr a \<and> algo i = DBT_init sid a"
    and "t_reach nodes (tsys_init algo) k s"
  shows "k \<le> 11 * 2 ^ d - 4 \<and>
    ((\<forall>l. \<not> t_enabled nodes l s) \<longleftrightarrow> (\<forall>i\<in>nodes. ts_done s i)) \<and>
    ((\<forall>i\<in>nodes. ts_done s i) \<longrightarrow> k = 11 * 2 ^ d - 4)"
proof -
  have ok: "power_tree t" using assms(1-3) unfolding power_tree_def by blast
  have n: "nodes = tree_nodes t" unfolding assms(3,4) by (rule tree_nodes_power [OF assms(1), symmetric])
  have "tl.fresh t algo"
    unfolding tl.fresh_def
  proof
    fix i assume i: "i \<in> tree_nodes t"
    then obtain a where a: "DoubleBinaryTreeAllReduce_new i t bytes = Inr a" "algo i = DBT_init sid a"
      using assms(5) n by blast
    obtain m where m: "bt_node_list t i = Some m" using i by (auto simp: tree_nodes_def)
    show "dt_state (algo i) = DBT_Begin \<and> dt_reductions (algo i) = 0 \<and> dt_type (algo i) = tree_kind t i \<and>
        (tree_kind t i \<noteq> RootNode \<longrightarrow> dt_parent (algo i) = tree_parent t i) \<and>
        (tree_kind t i = IntermediateNode \<longrightarrow> dt_left_child (algo i) = tree_left t i \<and> dt_right_child (algo i) = tree_right t i) \<and>
        (tree_kind t i = RootNode \<longrightarrow> only_child_id (algo i) = tree_only_child t i)"
      using a by (auto simp: DoubleBinaryTreeAllReduce_new_def DBT_init_def queries [OF m] only_child_id_def
          tree_only_child_def)
  qed
  from tl.terminates [OF ok this] assms(6) show ?thesis
    unfolding n using tree_cost [OF assms(1), of type d start] assms(3) by simp
qed

definition demo_tree :: BinaryTree where
  "demo_tree = BinaryTree_new RootMax 4 0 1"

definition demo_tree_algo :: "int \<Rightarrow> DoubleBinaryTreeAllReduce" where
  "demo_tree_algo i = DBT_init 3 (projr (DoubleBinaryTreeAllReduce_new i demo_tree 64))"

fun t_run :: "int set \<Rightarrow> tlabel list \<Rightarrow> tsys \<Rightarrow> tsys option" where
  "t_run nodes [] s = Some s"
| "t_run nodes (l # ls) s = (if t_enabled nodes l s then t_run nodes ls (t_step l s) else None)"

lemma t_run_reach:
  assumes "t_reach nodes s0 k s" and "t_run nodes ls s = Some s'"
  shows "t_reach nodes s0 (k + length ls) s'"
  using assms
proof (induction ls arbitrary: k s)
  case (Cons l ls)
  then have "t_enabled nodes l s" "t_run nodes ls (t_step l s) = Some s'" by (auto split: if_splits)
  with Cons.IH [OF t_next [OF Cons.prems(1)]] show ?case by simp
qed simp

definition demo_tree_run :: "tlabel list" where
  "demo_tree_run = map TStart [0, 1, 2, 3] @
     [TBundleDone 0, TBundleDone 2, TDeliver 0 1, TDeliver 2 1, TBundleDone 1, TBundleDone 1, TDeliver 1 3,
      TBundleDone 3, TDeliver 3 1, TBundleDone 1, TDeliver 1 0, TDeliver 1 2, TBundleDone 0, TBundleDone 2]"

lemma demo_tree_run_ok:
  "case t_run {0, 1, 2, 3} demo_tree_run (tsys_init demo_tree_algo) of None \<Rightarrow> False
   | Some s \<Rightarrow> list_all (ts_done s) [0, 1, 2, 3]"
  by code_simp

theorem tree_allreduce_terminates_witness:
  "\<exists>s. t_reach {0, 1, 2, 3} (tsys_init demo_tree_algo) 18 s \<and> (\<forall>l. \<not> t_enabled {0, 1, 2, 3} l s)"
proof -
  obtain s where s: "t_run {0, 1, 2, 3} demo_tree_run (tsys_init demo_tree_algo) = Some s"
    "\<forall>i\<in>{0, 1, 2, 3}. ts_done s i"
    using demo_tree_run_ok by (auto split: option.splits)
  have r: "t_reach {0, 1, 2, 3} (tsys_init demo_tree_algo) 18 s"
    using t_run_reach [OF t_init s(1)] by (simp add: demo_tree_run_def eval_nat_numeral)
  have nodes: "{0, 1, 2, 3} = (\<lambda>k. 0 + int k * 1) ` {..<2 ^ Suc 1}"
    by (auto simp: lessThan_Suc numeral_eq_Suc)
  have "\<not> isl (DoubleBinaryTreeAllReduce_new 0 demo_tree 64)" "\<not> isl (DoubleBinaryTreeAllReduce_new 1 demo_tree 64)"
    "\<not> isl (DoubleBinaryTreeAllReduce_new 2 demo_tree 64)" "\<not> isl (DoubleBinaryTreeAllReduce_new 3 demo_tree 64)"
    by code_simp+
  then have "\<forall>i\<in>{0, 1, 2, 3}. \<exists>a. DoubleBinaryTreeAllReduce_new i demo_tree 64 = Inr a \<and> demo_tree_algo i = DBT_init 3 a"
    by (auto simp: demo_tree_algo_def isl_def) (metis sum.exhaust_sel sum.sel(2))+
  then show ?thesis
    using tree_allreduce_terminates [of 1 0 demo_tree RootMax 1 "{0, 1, 2, 3}" 64 demo_tree_algo 3 18 s] r s(2) nodes
    by (auto simp: demo_tree_def)
qed

end
