(* ===== verification/Collective_Plans.thy ===== *)
theory Collective_Plans
  imports Logical_Topologies
begin

text \<open>
  Which algorithm runs a collective, and on which topology: \<^verbatim>\<open>CollectiveImplLookup.cc\<close> (the
  configured implementations and their priorities), \<^verbatim>\<open>CommunicatorGroup.cc\<close> and
  \<^verbatim>\<open>CollectivePlan.cc\<close>. The JSON configuration is a finite view of its keys; the YAML library
  (\<^verbatim>\<open>yaml-cpp\<close>) enters as the result of loading a file and the conversion of a scalar.
\<close>

section \<open>Implementations from the configuration\<close>

definition CollectiveImpl_new :: "CollectiveImplType \<Rightarrow> CollectiveImpl" where
  "CollectiveImpl_new ty = \<lparr>ci_type = ty, ci_direct_collective_window = 0, ci_filename = []\<rparr>"

definition DirectCollectiveImpl_new :: "CollectiveImplType \<Rightarrow> int \<Rightarrow> CollectiveImpl" where
  "DirectCollectiveImpl_new ty window = (CollectiveImpl_new ty)\<lparr>ci_direct_collective_window := window\<rparr>"

definition CustomCollectiveImpl_new :: "CollectiveImplType \<Rightarrow> string \<Rightarrow> CollectiveImpl" where
  "CustomCollectiveImpl_new ty filename = (CollectiveImpl_new ty)\<lparr>ci_filename := filename\<rparr>"

definition starts_with :: "string \<Rightarrow> string \<Rightarrow> bool" where
  "starts_with s p \<longleftrightarrow> take (length p) s = p"

definition direct_window :: "string \<Rightarrow> string \<Rightarrow> int result" where
  "direct_window s prefix_str =
     (if s = prefix_str then Inr (-1) else stoi (take 5 (drop (length prefix_str) s)))"

definition generate_collective_impl_from_input :: "string \<Rightarrow> CollectiveImpl result" where
  "generate_collective_impl_from_input s =
     (if s = ''ring'' then Inr (CollectiveImpl_new ImplRing)
      else if s = ''oneRing'' then Inr (CollectiveImpl_new OneRing)
      else if s = ''doubleBinaryTree'' then Inr (CollectiveImpl_new DoubleBinaryTree)
      else if starts_with s ''direct'' then
        rbind (direct_window s ''direct'') (\<lambda>w. Inr (DirectCollectiveImpl_new Direct w))
      else if starts_with s ''oneDirect'' then
        rbind (direct_window s ''oneDirect'') (\<lambda>w. Inr (DirectCollectiveImpl_new OneDirect w))
      else if s = ''halvingDoubling'' then Inr (CollectiveImpl_new HalvingDoubling)
      else if s = ''oneHalvingDoubling'' then Inr (CollectiveImpl_new OneHalvingDoubling)
      else Inl (ProcessExit ''Cannot interpret collective implementations''))"

definition generate_custom_collective_impl :: "string \<Rightarrow> CollectiveImpl" where
  "generate_custom_collective_impl chakra_filepath = CustomCollectiveImpl_new CustomCollectiveImpl chakra_filepath"

text \<open>The parsed YAML document, as the library presents it.\<close>

datatype YamlNode = YamlScalar string | YamlMap "(YamlNode \<times> YamlNode) list" | YamlOther

datatype YamlLoad = BadFile | ParserException | Loaded YamlNode

definition yaml_entry ::
    "(string \<Rightarrow> int option) \<Rightarrow> YamlNode \<times> YamlNode \<Rightarrow> (int \<rightharpoonup> string) \<Rightarrow> (int \<rightharpoonup> string) result" where
  "yaml_entry as_int kv m =
     (case kv of
        (YamlScalar k, YamlScalar v) \<Rightarrow>
          (case as_int k of
             None \<Rightarrow> Inl (RuntimeError ''YAML mapping keys must be integers.'')
           | Some node_id \<Rightarrow> Inr (m(node_id \<mapsto> v)))
      | _ \<Rightarrow> Inl (RuntimeError ''YAML mapping keys and values must be scalars.''))"

definition parse_per_node_yaml_file :: "YamlLoad \<Rightarrow> (string \<Rightarrow> int option) \<Rightarrow> (int \<rightharpoonup> string) result" where
  "parse_per_node_yaml_file loaded as_int =
     (case loaded of
        BadFile \<Rightarrow> Inl (RuntimeError ''Failed to open YAML file'')
      | ParserException \<Rightarrow> Inl (RuntimeError ''YAML parse error'')
      | Loaded (YamlMap kvs) \<Rightarrow> fold_result (yaml_entry as_int) kvs Map.empty
      | Loaded _ \<Rightarrow> Inl (RuntimeError ''Top-level YAML must be a mapping of int -> string.''))"

section \<open>Lookup of an implementation\<close>

datatype BypassRule = NO_BYPASS | BYPASS_PERNODE_CUSTOM | BYPASS_ALL_CUSTOM

record CollectiveImplLookup =
  cl_per_node_custom_impl :: "int \<rightharpoonup> CollectiveImpl"
  cl_global_custom_impl_per_coll :: "ComType \<rightharpoonup> CollectiveImpl"
  cl_native_impl_per_coll_dim :: "ComType \<rightharpoonup> CollectiveImpl list"
  cl_rank :: int

definition CollectiveImplLookup_new :: "int \<Rightarrow> CollectiveImplLookup" where
  "CollectiveImplLookup_new rank = \<lparr>cl_per_node_custom_impl = Map.empty,
     cl_global_custom_impl_per_coll = Map.empty, cl_native_impl_per_coll_dim = Map.empty, cl_rank = rank\<rparr>"

text \<open>
  The keys of the configuration that this class reads: the string lists under
  \<^verbatim>\<open>*-implementation\<close> and \<^verbatim>\<open>*-implementation-custom\<close>, and the file under
  \<^verbatim>\<open>per-node-custom-implementation\<close>, given by what loading it yields.
\<close>

record lookup_config =
  cfg_native :: "ComType \<rightharpoonup> string list"
  cfg_custom :: "ComType \<rightharpoonup> string list"
  cfg_per_node :: "YamlLoad option"

definition push_native :: "ComType \<Rightarrow> string \<Rightarrow> CollectiveImplLookup \<Rightarrow> CollectiveImplLookup result" where
  "push_native ct s lk =
     rbind (generate_collective_impl_from_input s) (\<lambda>ci.
       Inr (lk\<lparr>cl_native_impl_per_coll_dim :=
         (cl_native_impl_per_coll_dim lk)(ct \<mapsto> map_index (cl_native_impl_per_coll_dim lk) [] ct @ [ci])\<rparr>))"

definition setup_native :: "lookup_config \<Rightarrow> ComType \<Rightarrow> CollectiveImplLookup \<Rightarrow> CollectiveImplLookup result" where
  "setup_native j ct lk =
     (case cfg_native j ct of None \<Rightarrow> Inr lk | Some strs \<Rightarrow> fold_result (push_native ct) strs lk)"

definition setup_custom :: "lookup_config \<Rightarrow> ComType \<Rightarrow> CollectiveImplLookup \<Rightarrow> CollectiveImplLookup result" where
  "setup_custom j ct lk =
     (case cfg_custom j ct of
        None \<Rightarrow> Inr lk
      | Some [f] \<Rightarrow> Inr (lk\<lparr>cl_global_custom_impl_per_coll :=
            (cl_global_custom_impl_per_coll lk)(ct \<mapsto> generate_custom_collective_impl f)\<rparr>)
      | Some _ \<Rightarrow> Inl (RuntimeError ''There should be 1 Chakra ET only.''))"

definition setup_per_node ::
    "(string \<Rightarrow> int option) \<Rightarrow> lookup_config \<Rightarrow> CollectiveImplLookup \<Rightarrow> CollectiveImplLookup result" where
  "setup_per_node as_int j lk =
     (case cfg_per_node j of
        None \<Rightarrow> Inr lk
      | Some loaded \<Rightarrow>
          rbind (parse_per_node_yaml_file loaded as_int) (\<lambda>m.
            Inr (lk\<lparr>cl_per_node_custom_impl :=
              (\<lambda>node. case m node of None \<Rightarrow> cl_per_node_custom_impl lk node
                                   | Some f \<Rightarrow> Some (generate_custom_collective_impl f))\<rparr>)))"

definition setup_collective_impl_from_config ::
    "(string \<Rightarrow> int option) \<Rightarrow> lookup_config \<Rightarrow> CollectiveImplLookup \<Rightarrow> CollectiveImplLookup result" where
  "setup_collective_impl_from_config as_int j lk =
     rbind (fold_result (setup_native j) [All_Reduce, Reduce_Scatter, All_Gather, All_to_All] lk) (\<lambda>lk.
     rbind (fold_result (setup_custom j) [All_to_All, All_Gather, Reduce_Scatter, All_Reduce] lk) (\<lambda>lk.
       setup_per_node as_int j lk))"

definition get_collective_impl ::
    "CollectiveImplLookup \<Rightarrow> ComType \<Rightarrow> u64 \<Rightarrow> BypassRule \<Rightarrow> CollectiveImpl list result" where
  "get_collective_impl lk ct workload_node_id bypass_rule =
     (case (if bypass_rule \<noteq> BYPASS_PERNODE_CUSTOM \<and> bypass_rule \<noteq> BYPASS_ALL_CUSTOM
            then cl_per_node_custom_impl lk (int_of_u64 workload_node_id) else None) of
        Some ci \<Rightarrow> Inr [ci]
      | None \<Rightarrow>
          (case (if bypass_rule \<noteq> BYPASS_ALL_CUSTOM then cl_global_custom_impl_per_coll lk ct else None) of
             Some ci \<Rightarrow> Inr [ci]
           | None \<Rightarrow>
               (case cl_native_impl_per_coll_dim lk ct of
                  Some cis \<Rightarrow> Inr cis
                | None \<Rightarrow> if bypass_rule = BYPASS_ALL_CUSTOM then Inr []
                          else Inl (RuntimeError ''No collective implementation found''))))"

section \<open>Plans and communicator groups\<close>

text \<open>
  The topology of a plan is either one of the generator's own topologies, which are shared and
  change as collectives are generated, or a ring that the group has built for itself.
\<close>

datatype TopologyRef = SharedTopology ComType | OwnRing RingTopology

record CollectivePlan =
  pl_topology :: TopologyRef
  pl_implementation_per_dimension :: "CollectiveImpl list"
  pl_dimensions_involved :: "bool list"
  pl_should_be_removed :: bool

definition CollectivePlan_new :: "TopologyRef \<Rightarrow> CollectiveImpl list \<Rightarrow> bool list \<Rightarrow> bool \<Rightarrow> CollectivePlan" where
  "CollectivePlan_new topology implementation_per_dimension dimensions_involved should_be_removed =
     \<lparr>pl_topology = topology, pl_implementation_per_dimension = implementation_per_dimension,
      pl_dimensions_involved = dimensions_involved, pl_should_be_removed = should_be_removed\<rparr>"

definition get_logical_topology :: "ComType \<Rightarrow> TopologyRef result" where
  "get_logical_topology ct =
     (if ct = All_Reduce \<or> ct = All_to_All \<or> ct = Reduce_Scatter \<or> ct = All_Gather
      then Inr (SharedTopology ct) else Inl (SysPanic ''no known logical topology!''))"

record CommunicatorGroup =
  cg_id :: int
  cg_involved_NPUs :: "int list"
  cg_num_streams :: int
  cg_pos_in_group :: int
  cg_comm_plans :: "ComType \<rightharpoonup> CollectivePlan"

text \<open>The position of the generator in a list of ranks, \<open>-1\<close> when it is not there.\<close>

fun position_from :: "int \<Rightarrow> int \<Rightarrow> int list \<Rightarrow> int" where
  "position_from nid i [] = -1"
| "position_from nid i (x # xs) = (if x = nid then i else position_from nid (i + 1) xs)"

definition set_id :: "int \<Rightarrow> CommunicatorGroup \<Rightarrow> CommunicatorGroup result" where
  "set_id gid g =
     rbind (assert_that (gid > 0) ''id > 0'') (\<lambda>_. Inr (g\<lparr>cg_id := gid, cg_num_streams := gid * 1000000\<rparr>))"

definition CommunicatorGroup_new :: "int \<Rightarrow> int list \<Rightarrow> int \<Rightarrow> CommunicatorGroup result" where
  "CommunicatorGroup_new comm_group_id involved_NPUs generator_id =
     set_id comm_group_id
       \<lparr>cg_id = 0, cg_involved_NPUs = involved_NPUs, cg_num_streams = 0,
        cg_pos_in_group = position_from generator_id 0 (sort involved_NPUs), cg_comm_plans = Map.empty\<rparr>"

definition get_position_in_group :: "CommunicatorGroup \<Rightarrow> int" where
  "get_position_in_group g = cg_pos_in_group g"

definition whole_plan :: "CollectiveImplLookup \<Rightarrow> ComType \<Rightarrow> u64 \<Rightarrow> CollectivePlan result" where
  "whole_plan lk ct node =
     rbind (get_logical_topology ct) (\<lambda>topology.
     rbind (get_collective_impl lk ct node NO_BYPASS) (\<lambda>impls.
       Inr (CollectivePlan_new topology impls (replicate 10 True) False)))"

definition partial_plan ::
    "int \<Rightarrow> CollectiveImplLookup \<Rightarrow> ComType \<Rightarrow> u64 \<Rightarrow> int list \<Rightarrow> CollectivePlan result" where
  "partial_plan generator_id lk ct node involved_NPUs =
     rbind (get_collective_impl lk ct node NO_BYPASS) (\<lambda>impls.
     rbind (RingTopology_of_NPUs DimLocal generator_id involved_NPUs) (\<lambda>ring.
       Inr (CollectivePlan_new (OwnRing ring)
         (if length impls > 1 then [CollectiveImpl_new ImplRing] else impls) [True] True)))"

definition get_collective_plan ::
    "int \<Rightarrow> int \<Rightarrow> CollectiveImplLookup \<Rightarrow> ComType \<Rightarrow> u64 \<Rightarrow> CommunicatorGroup \<Rightarrow>
     (CollectivePlan \<times> CommunicatorGroup) result" where
  "get_collective_plan generator_id total_nodes lk ct node g =
     (case cg_comm_plans g ct of
        Some plan \<Rightarrow> Inr (plan, g)
      | None \<Rightarrow>
          rbind (if u64_of_int total_nodes = of_nat (length (cg_involved_NPUs g)) then whole_plan lk ct node
                 else partial_plan generator_id lk ct node (cg_involved_NPUs g)) (\<lambda>plan.
            Inr (plan, g\<lparr>cg_comm_plans := (cg_comm_plans g)(ct \<mapsto> plan)\<rparr>)))"

text \<open>The translation of a rank of a custom algorithm into a rank of the system.\<close>

definition convert_algo_rank_to_real_rank :: "CommunicatorGroup option \<Rightarrow> int \<Rightarrow> int result" where
  "convert_algo_rank_to_real_rank comm_group algo_rank =
     (case comm_group of
        None \<Rightarrow> Inr algo_rank
      | Some g \<Rightarrow>
          if 0 \<le> algo_rank \<and> algo_rank < int (length (cg_involved_NPUs g))
          then Inr (cg_involved_NPUs g ! nat algo_rank)
          else Inl (OutOfRange ''comm_group->involved_NPUs[algo_rank]''))"

section \<open>Priorities of the implementations\<close>

fun impls_of :: "string list \<Rightarrow> CollectiveImpl list result" where
  "impls_of [] = Inr []"
| "impls_of (s # ss) =
     rbind (generate_collective_impl_from_input s) (\<lambda>c. rbind (impls_of ss) (\<lambda>cs. Inr (c # cs)))"

fun yaml_lookup :: "(string \<Rightarrow> int option) \<Rightarrow> (YamlNode \<times> YamlNode) list \<Rightarrow> int \<Rightarrow> string option" where
  "yaml_lookup as_int [] n = None"
| "yaml_lookup as_int (kv # kvs) n =
     (case yaml_lookup as_int kvs n of
        Some f \<Rightarrow> Some f
      | None \<Rightarrow> (case kv of
            (YamlScalar k, YamlScalar v) \<Rightarrow> if as_int k = Some n then Some v else None
          | _ \<Rightarrow> None))"

definition per_node_file :: "(string \<Rightarrow> int option) \<Rightarrow> lookup_config \<Rightarrow> int \<Rightarrow> string option" where
  "per_node_file as_int j n =
     (case cfg_per_node j of Some (Loaded (YamlMap kvs)) \<Rightarrow> yaml_lookup as_int kvs n | _ \<Rightarrow> None)"

lemma yaml_entry_ok:
  assumes "yaml_entry as_int kv m = Inr m1"
  shows "\<exists>k v i. kv = (YamlScalar k, YamlScalar v) \<and> as_int k = Some i \<and> m1 = m(i \<mapsto> v)"
  using assms by (auto simp: yaml_entry_def split: prod.splits YamlNode.splits option.splits)

lemma yaml_fold:
  assumes "fold_result (yaml_entry as_int) kvs m = Inr m'"
  shows "m' n = (case yaml_lookup as_int kvs n of Some f \<Rightarrow> Some f | None \<Rightarrow> m n)"
  using assms
proof (induction kvs arbitrary: m)
  case Nil
  then show ?case by simp
next
  case (Cons kv kvs)
  then obtain m1 where m1: "yaml_entry as_int kv m = Inr m1" "fold_result (yaml_entry as_int) kvs m1 = Inr m'"
    by (auto simp: rbind_def split: sum.splits)
  with yaml_entry_ok [OF m1(1)] Cons.IH [OF m1(2)] show ?case
    by (auto split: option.split)
qed

lemma push_native_fold:
  "fold_result (push_native ct) strs lk = rbind (impls_of strs) (\<lambda>cis.
     Inr (if strs = [] then lk else lk\<lparr>cl_native_impl_per_coll_dim :=
       (cl_native_impl_per_coll_dim lk)(ct \<mapsto> map_index (cl_native_impl_per_coll_dim lk) [] ct @ cis)\<rparr>))"
proof (induction strs arbitrary: lk)
  case Nil
  then show ?case by simp
next
  case (Cons s ss)
  show ?case
  proof (cases "generate_collective_impl_from_input s")
    case (Inl e)
    then show ?thesis by (simp add: push_native_def)
  next
    case (Inr c)
    let ?lk = "lk\<lparr>cl_native_impl_per_coll_dim := (cl_native_impl_per_coll_dim lk)
      (ct \<mapsto> map_index (cl_native_impl_per_coll_dim lk) [] ct @ [c])\<rparr>"
    have "push_native ct s lk = Inr ?lk"
      using Inr by (simp add: push_native_def)
    then show ?thesis
      using Inr Cons.IH [of ?lk] by (cases "impls_of ss"; cases "ss = []") simp_all
  qed
qed

text \<open>What the set-up has stored under a collective type, given what was there before.\<close>

definition native_entry :: "lookup_config \<Rightarrow> ComType \<Rightarrow> CollectiveImpl list option \<Rightarrow> bool" where
  "native_entry j ct e \<longleftrightarrow>
     (case cfg_native j ct of
        Some (s # ss) \<Rightarrow> \<exists>cis. impls_of (s # ss) = Inr cis \<and> e = Some cis
      | _ \<Rightarrow> e = None)"

lemma setup_native_entry:
  assumes "setup_native j ct lk = Inr lk'" and "cl_native_impl_per_coll_dim lk ct = None"
  shows "native_entry j ct (cl_native_impl_per_coll_dim lk' ct)"
    and "ct' \<noteq> ct \<Longrightarrow> cl_native_impl_per_coll_dim lk' ct' = cl_native_impl_per_coll_dim lk ct'"
    and "cl_global_custom_impl_per_coll lk' = cl_global_custom_impl_per_coll lk"
    and "cl_per_node_custom_impl lk' = cl_per_node_custom_impl lk"
  using assms
  by (auto simp: setup_native_def native_entry_def push_native_fold rbind_def
      split: option.splits sum.splits list.splits if_splits)

lemma setup_custom_entry:
  assumes "setup_custom j ct lk = Inr lk'"
  shows "cl_global_custom_impl_per_coll lk' = (case cfg_custom j ct of
      None \<Rightarrow> cl_global_custom_impl_per_coll lk
    | Some fs \<Rightarrow> (cl_global_custom_impl_per_coll lk)(ct \<mapsto> generate_custom_collective_impl (hd fs)))"
    and "cl_native_impl_per_coll_dim lk' = cl_native_impl_per_coll_dim lk"
    and "cl_per_node_custom_impl lk' = cl_per_node_custom_impl lk"
  using assms by (auto simp: setup_custom_def split: option.splits list.splits)

lemma setup_per_node_entry:
  assumes "setup_per_node as_int j lk = Inr lk'"
  shows "cl_per_node_custom_impl lk' n = (case per_node_file as_int j n of
      None \<Rightarrow> cl_per_node_custom_impl lk n | Some f \<Rightarrow> Some (generate_custom_collective_impl f))"
    and "cl_native_impl_per_coll_dim lk' = cl_native_impl_per_coll_dim lk"
    and "cl_global_custom_impl_per_coll lk' = cl_global_custom_impl_per_coll lk"
proof -
  consider (none) "cfg_per_node j = None" "lk' = lk"
    | (entries) kvs m where "cfg_per_node j = Some (Loaded (YamlMap kvs))"
        "fold_result (yaml_entry as_int) kvs Map.empty = Inr m"
        "lk' = lk\<lparr>cl_per_node_custom_impl := (\<lambda>node. case m node of None \<Rightarrow> cl_per_node_custom_impl lk node
           | Some f \<Rightarrow> Some (generate_custom_collective_impl f))\<rparr>"
    using assms
    by (auto simp: setup_per_node_def parse_per_node_yaml_file_def rbind_def
        split: option.splits sum.splits YamlLoad.splits YamlNode.splits)
  then show "cl_per_node_custom_impl lk' n = (case per_node_file as_int j n of
      None \<Rightarrow> cl_per_node_custom_impl lk n | Some f \<Rightarrow> Some (generate_custom_collective_impl f))"
    and "cl_native_impl_per_coll_dim lk' = cl_native_impl_per_coll_dim lk"
    and "cl_global_custom_impl_per_coll lk' = cl_global_custom_impl_per_coll lk"
    by (cases; auto simp: per_node_file_def yaml_fold [of as_int _ Map.empty _ n] split: option.splits)+
qed

definition native_types :: "ComType list" where
  "native_types = [All_Reduce, Reduce_Scatter, All_Gather, All_to_All]"

lemma setup_native_all:
  assumes "fold_result (setup_native j) cts lk = Inr lk'" and "distinct cts"
    and "\<forall>ct\<in>set cts. cl_native_impl_per_coll_dim lk ct = None"
  shows "(\<forall>ct\<in>set cts. native_entry j ct (cl_native_impl_per_coll_dim lk' ct)) \<and>
    (\<forall>ct. ct \<notin> set cts \<longrightarrow> cl_native_impl_per_coll_dim lk' ct = cl_native_impl_per_coll_dim lk ct) \<and>
    cl_global_custom_impl_per_coll lk' = cl_global_custom_impl_per_coll lk \<and>
    cl_per_node_custom_impl lk' = cl_per_node_custom_impl lk"
  using assms
proof (induction cts arbitrary: lk)
  case Nil
  then show ?case by simp
next
  case (Cons ct cts)
  obtain lk1 where s: "setup_native j ct lk = Inr lk1" and f: "fold_result (setup_native j) cts lk1 = Inr lk'"
    using Cons.prems(1) by (auto simp: rbind_def split: sum.splits)
  have none: "cl_native_impl_per_coll_dim lk ct = None"
    using Cons.prems(3) by simp
  note e = setup_native_entry [OF s none]
  have "distinct cts" and "\<forall>x\<in>set cts. cl_native_impl_per_coll_dim lk1 x = None"
    using Cons.prems(2,3) e(2) by (simp, metis distinct.simps(2) list.set_intros(2))
  from Cons.IH [OF f this] Cons.prems(2) e show ?case
    by auto
qed

lemma setup_custom_all:
  assumes "fold_result (setup_custom j) cts lk = Inr lk'" and "distinct cts"
  shows "(\<forall>ct\<in>set cts. cl_global_custom_impl_per_coll lk' ct = (case cfg_custom j ct of
      None \<Rightarrow> cl_global_custom_impl_per_coll lk ct | Some fs \<Rightarrow> Some (generate_custom_collective_impl (hd fs)))) \<and>
    (\<forall>ct. ct \<notin> set cts \<longrightarrow> cl_global_custom_impl_per_coll lk' ct = cl_global_custom_impl_per_coll lk ct) \<and>
    cl_native_impl_per_coll_dim lk' = cl_native_impl_per_coll_dim lk \<and>
    cl_per_node_custom_impl lk' = cl_per_node_custom_impl lk"
  using assms
proof (induction cts arbitrary: lk)
  case Nil
  then show ?case by simp
next
  case (Cons ct cts)
  obtain lk1 where s: "setup_custom j ct lk = Inr lk1" and f: "fold_result (setup_custom j) cts lk1 = Inr lk'"
    using Cons.prems(1) by (auto simp: rbind_def split: sum.splits)
  have "distinct cts" using Cons.prems(2) by simp
  from Cons.IH [OF f this] Cons.prems(2) setup_custom_entry [OF s] show ?case
    by (auto split: option.splits)
qed

text \<open>
  \<^emph>\<open>Priorities of the configured implementations.\<close> After a successful set-up from a configuration,
  the lookup of a collective returns the custom algorithm that the per-node file names for the
  node (the last entry for its identifier), else the custom algorithm configured for the collective,
  else the native implementations in the order of the dimensions, and fails when there is none of
  them or an empty list.
\<close>

theorem collective_impl_priority:
  assumes "setup_collective_impl_from_config as_int j (CollectiveImplLookup_new rank) = Inr lk"
    and "ct \<in> set native_types"
  shows "get_collective_impl lk ct node NO_BYPASS =
    (case per_node_file as_int j (int_of_u64 node) of
       Some f \<Rightarrow> Inr [generate_custom_collective_impl f]
     | None \<Rightarrow> (case cfg_custom j ct of
         Some fs \<Rightarrow> Inr [generate_custom_collective_impl (hd fs)]
       | None \<Rightarrow> (case cfg_native j ct of
           Some (s # ss) \<Rightarrow> impls_of (s # ss)
         | _ \<Rightarrow> Inl (RuntimeError ''No collective implementation found''))))"
proof -
  obtain lk1 lk2 where
    s1: "fold_result (setup_native j) [All_Reduce, Reduce_Scatter, All_Gather, All_to_All]
      (CollectiveImplLookup_new rank) = Inr lk1"
    and s2: "fold_result (setup_custom j) [All_to_All, All_Gather, Reduce_Scatter, All_Reduce] lk1 = Inr lk2"
    and s3: "setup_per_node as_int j lk2 = Inr lk"
    using assms(1)
    by (cases "fold_result (setup_native j) [All_Reduce, Reduce_Scatter, All_Gather, All_to_All]
          (CollectiveImplLookup_new rank)")
      (auto simp: setup_collective_impl_from_config_def rbind_def simp del: fold_result.simps split: sum.splits)
  have n: "\<forall>ct\<in>set native_types. native_entry j ct (cl_native_impl_per_coll_dim lk1 ct)"
    "cl_global_custom_impl_per_coll lk1 = Map.empty" "cl_per_node_custom_impl lk1 = Map.empty"
    using setup_native_all [OF s1] by (simp_all add: CollectiveImplLookup_new_def native_types_def)
  have c: "\<forall>ct\<in>set native_types. cl_global_custom_impl_per_coll lk2 ct =
      map_option (\<lambda>fs. generate_custom_collective_impl (hd fs)) (cfg_custom j ct)"
    "cl_native_impl_per_coll_dim lk2 = cl_native_impl_per_coll_dim lk1" "cl_per_node_custom_impl lk2 = Map.empty"
    using setup_custom_all [OF s2] n(2,3) by (auto simp: native_types_def split: option.splits)
  note p = setup_per_node_entry [OF s3]
  have native: "native_entry j ct (cl_native_impl_per_coll_dim lk ct)"
    using n(1) c(2) p(2) assms(2) by simp
  have custom: "cl_global_custom_impl_per_coll lk ct =
      map_option (\<lambda>fs. generate_custom_collective_impl (hd fs)) (cfg_custom j ct)"
    using c(1) p(3) assms(2) by simp
  have node: "cl_per_node_custom_impl lk i = map_option generate_custom_collective_impl (per_node_file as_int j i)" for i
    using c(3) p(1) by (simp split: option.splits)
  show ?thesis
    using native unfolding get_collective_impl_def native_entry_def
    by (auto simp: node custom split: option.splits list.splits)
qed

theorem collective_impl_priority_witness:
  "\<exists>lk. setup_collective_impl_from_config (\<lambda>s. if s = ''7'' then Some 7 else None)
      \<lparr>cfg_native = [All_Reduce \<mapsto> [''ring'', ''direct12'']], cfg_custom = Map.empty,
       cfg_per_node = Some (Loaded (YamlMap [(YamlScalar ''7'', YamlScalar ''ar'')]))\<rparr>
      (CollectiveImplLookup_new 0) = Inr lk \<and>
    get_collective_impl lk All_Reduce 7 NO_BYPASS = Inr [generate_custom_collective_impl ''ar''] \<and>
    get_collective_impl lk All_Reduce 8 NO_BYPASS =
      Inr [CollectiveImpl_new ImplRing, DirectCollectiveImpl_new Direct 12] \<and>
    get_collective_impl lk All_Gather 8 NO_BYPASS = Inl (RuntimeError ''No collective implementation found'')"
proof -
  let ?as = "\<lambda>s. if s = ''7'' then Some 7 else None"
  let ?j = "\<lparr>cfg_native = [All_Reduce \<mapsto> [''ring'', ''direct12'']], cfg_custom = Map.empty,
    cfg_per_node = Some (Loaded (YamlMap [(YamlScalar ''7'', YamlScalar ''ar'')]))\<rparr>"
  have impls: "impls_of [''ring'', ''direct12''] = Inr [CollectiveImpl_new ImplRing, DirectCollectiveImpl_new Direct 12]"
    by code_simp
  have gen: "generate_collective_impl_from_input ''ring'' = Inr (CollectiveImpl_new ImplRing)"
    "generate_collective_impl_from_input ''direct12'' = Inr (DirectCollectiveImpl_new Direct 12)"
    by code_simp+
  have "\<exists>lk. setup_collective_impl_from_config ?as ?j (CollectiveImplLookup_new 0) = Inr lk"
    by (simp add: setup_collective_impl_from_config_def setup_native_def push_native_def gen setup_custom_def
        setup_per_node_def parse_per_node_yaml_file_def yaml_entry_def)
  then obtain lk where lk: "setup_collective_impl_from_config ?as ?j (CollectiveImplLookup_new 0) = Inr lk"
    by blast
  have ids: "int_of_u64 7 = 7" "int_of_u64 8 = 8"
    by code_simp+
  show ?thesis
    using lk collective_impl_priority [OF lk, of All_Reduce 7] collective_impl_priority [OF lk, of All_Reduce 8]
      collective_impl_priority [OF lk, of All_Gather 8]
    by (auto simp: native_types_def per_node_file_def ids impls simp del: impls_of.simps)
qed

section \<open>Groups\<close>

text \<open>
  \<^emph>\<open>The plan of a proper group.\<close> A group of distinct ranks that contains the generator and is not as
  large as the system gets, for a collective that has an implementation, a plan of one dimension: a
  ring over exactly the ranks of the group, in their order, with a single implementation (the ring
  algorithm when several dimensions were configured). The plan is kept: every later request for the
  collective returns it, whichever workload node asks.
\<close>

theorem group_plan:
  assumes "CommunicatorGroup_new gid npus nid = Inr g" and "distinct npus" and "nid \<in> set npus"
    and "u64_of_int total_nodes \<noteq> of_nat (length npus)"
    and "get_collective_impl lk ct node NO_BYPASS = Inr (ci # cis)"
  shows "\<exists>ring plan g'. get_collective_plan nid total_nodes lk ct node g = Inr (plan, g') \<and>
    pl_topology plan = OwnRing ring \<and> ring_wf ring \<and> ring_size ring = length npus \<and>
    (\<forall>k < length npus. ring_at ring k = npus ! k) \<and> pl_dimensions_involved plan = [True] \<and>
    pl_implementation_per_dimension plan = [if cis = [] then ci else CollectiveImpl_new ImplRing] \<and>
    (\<forall>node'. get_collective_plan nid total_nodes lk ct node' g' = Inr (plan, g'))"
proof -
  obtain ring where ring: "RingTopology_of_NPUs DimLocal nid npus = Inr ring" "ring_wf ring"
    "ring_size ring = length npus" "\<forall>k < length npus. ring_at ring k = npus ! k"
    using ring_NPUs_built [OF assms(2,3)] by blast
  have g: "cg_involved_NPUs g = npus" "cg_comm_plans g = Map.empty"
    using assms(1) by (auto simp: CommunicatorGroup_new_def set_id_def assert_that_def split: if_splits)
  show ?thesis
    using ring assms(4,5) g
    by (auto simp: get_collective_plan_def partial_plan_def CollectivePlan_new_def)
qed

theorem group_plan_witness:
  "\<exists>g ring plan g'. CommunicatorGroup_new 1 [2, 0] 2 = Inr g \<and>
    get_collective_plan 2 4 (CollectiveImplLookup_new 2 \<lparr>cl_native_impl_per_coll_dim :=
      [All_Reduce \<mapsto> [CollectiveImpl_new Direct, CollectiveImpl_new OneRing]]\<rparr>) All_Reduce 5 g = Inr (plan, g') \<and>
    pl_topology plan = OwnRing ring \<and> ring_at ring 1 = 0 \<and>
    pl_implementation_per_dimension plan = [CollectiveImpl_new ImplRing]"
proof -
  let ?lk = "CollectiveImplLookup_new 2 \<lparr>cl_native_impl_per_coll_dim :=
      [All_Reduce \<mapsto> [CollectiveImpl_new Direct, CollectiveImpl_new OneRing]]\<rparr>"
  obtain g where g: "CommunicatorGroup_new 1 [2, 0] 2 = Inr g"
    by (simp add: CommunicatorGroup_new_def set_id_def)
  have lk: "get_collective_impl ?lk All_Reduce 5 NO_BYPASS = Inr [CollectiveImpl_new Direct, CollectiveImpl_new OneRing]"
    by (simp add: get_collective_impl_def CollectiveImplLookup_new_def)
  have "u64_of_int 4 \<noteq> of_nat (length [2, 0::int])"
    by (simp add: u64_of_int_def)
  from group_plan [OF g _ _ this lk] g show ?thesis
    by force
qed

lemma position_from_nth:
  assumes "distinct xs" and "k < length xs"
  shows "position_from (xs ! k) i xs = i + int k"
  using assms
proof (induction xs arbitrary: i k)
  case (Cons x xs)
  then show ?case by (cases k) auto
qed simp

text \<open>
  \<^bold>\<open>C29\<close>. \<^emph>\<open>Ranks of a group and ranks of the system.\<close> The position that a group computes for its generator
  and the translation of positions back into ranks are inverse to each other for every member
  exactly when the group was given its ranks in ascending order: the constructor sorts its argument
  after the member list has been copied from it.
\<close>

theorem group_rank_round_trip:
  assumes "distinct npus" and "0 < gid"
  shows "(\<forall>nid\<in>set npus. \<exists>g. CommunicatorGroup_new gid npus nid = Inr g \<and>
      convert_algo_rank_to_real_rank (Some g) (get_position_in_group g) = Inr nid) \<longleftrightarrow> sorted npus"
proof -
  let ?pos = "\<lambda>nid. position_from nid 0 (sort npus)"
  have new: "CommunicatorGroup_new gid npus nid = Inr \<lparr>cg_id = gid, cg_involved_NPUs = npus,
      cg_num_streams = gid * 1000000, cg_pos_in_group = ?pos nid, cg_comm_plans = Map.empty\<rparr>" for nid
    using assms(2) by (simp add: CommunicatorGroup_new_def set_id_def)
  have pos: "?pos (sort npus ! k) = int k" if "k < length npus" for k
    using position_from_nth [of "sort npus" k 0] assms(1) that by simp
  have at: "(\<exists>g. CommunicatorGroup_new gid npus (sort npus ! k) = Inr g \<and>
      convert_algo_rank_to_real_rank (Some g) (get_position_in_group g) = Inr (sort npus ! k)) \<longleftrightarrow>
      npus ! k = sort npus ! k" if "k < length npus" for k
    using that by (simp add: new pos convert_algo_rank_to_real_rank_def get_position_in_group_def)
  have "(\<forall>nid\<in>set npus. \<exists>g. CommunicatorGroup_new gid npus nid = Inr g \<and>
      convert_algo_rank_to_real_rank (Some g) (get_position_in_group g) = Inr nid) \<longleftrightarrow>
      (\<forall>k < length npus. npus ! k = sort npus ! k)"
    (is "?A \<longleftrightarrow> ?B")
  proof
    assume ?A
    show ?B
    proof (intro allI impI)
      fix k assume k: "k < length npus"
      then have "sort npus ! k \<in> set npus"
        by (metis length_sort nth_mem set_sort)
      with \<open>?A\<close> at [OF k] show "npus ! k = sort npus ! k" by blast
    qed
  next
    assume ?B
    show ?A
    proof
      fix nid assume "nid \<in> set npus"
      then obtain k where "k < length npus" "nid = sort npus ! k"
        by (metis in_set_conv_nth length_sort set_sort)
      with \<open>?B\<close> at show "\<exists>g. CommunicatorGroup_new gid npus nid = Inr g \<and>
          convert_algo_rank_to_real_rank (Some g) (get_position_in_group g) = Inr nid" by blast
    qed
  qed
  also have "\<dots> \<longleftrightarrow> npus = sort npus"
    by (simp add: list_eq_iff_nth_eq)
  also have "\<dots> \<longleftrightarrow> sorted npus"
    by (metis sorted_sort sorted_sort_id)
  finally show ?thesis .
qed

theorem group_rank_round_trip_witness:
  "\<exists>nid\<in>{3, 1}. \<not> (\<exists>g. CommunicatorGroup_new 1 [3, 1] nid = Inr g \<and>
      convert_algo_rank_to_real_rank (Some g) (get_position_in_group g) = Inr nid)"
  using group_rank_round_trip [of "[3, 1]" 1] by auto

end
