(* ===== verification/Collective_Phase.thy ===== *)
theory Collective_Phase
  imports Halving_Doubling Tree_Algorithm Collective_Plans Stream_Stats
begin

text \<open>
  Phases and streams: \<^verbatim>\<open>CollectivePhase.cc\<close>, \<^verbatim>\<open>BaseStream.cc\<close> and the constructor of
  \<^verbatim>\<open>StreamBaseline.cc\<close>. A phase runs one algorithm on one dimension; a stream carries one chunk of a
  collective through its phases. The classes derived from \<^verbatim>\<open>Algorithm\<close> become the constructors of a
  datatype. Fields that no constructor sets take their values from the argument \<open>u\<close>.
\<close>

record unset =
  un_ring_sizes :: "u64 \<times> u64"
  un_peer :: int
  un_data_size :: u64
  un_final_data_size :: u64
  un_com_type :: ComType
  un_enabled :: bool
  un_tick :: Tick
  un_streams :: int

section \<open>Algorithms\<close>

text \<open>The decimal notation of \<^verbatim>\<open>std::to_string\<close>.\<close>

fun nat_to_string :: "nat \<Rightarrow> string" where
  "nat_to_string n =
     (if n < 10 then [char_of (48 + n)] else nat_to_string (n div 10) @ [char_of (48 + n mod 10)])"

definition int_to_string :: "int \<Rightarrow> string" where
  "int_to_string i = (if i < 0 then CHR ''-'' # nat_to_string (nat (- i)) else nat_to_string (nat i))"

text \<open>
  A custom algorithm holds the trace it replays; the trace reader is third-party code, of which
  only whether the file can be opened matters here (\<open>et_readable\<close>).
\<close>

record CustomAlgorithm =
  cu_et_filename :: string
  cu_id :: int
  cu_comm_group :: "CommunicatorGroup option"
  cu_data_size :: u64
  cu_final_data_size :: u64
  cu_comType :: ComType
  cu_stream_id :: int

definition CustomAlgorithm_new ::
    "(string \<Rightarrow> bool) \<Rightarrow> unset \<Rightarrow> string \<Rightarrow> int \<Rightarrow> int \<Rightarrow> CommunicatorGroup option \<Rightarrow> CustomAlgorithm result" where
  "CustomAlgorithm_new et_readable u et_filename nid pos_in_comm comm_group =
     (let f = et_filename @ ''.'' @ int_to_string pos_in_comm @ ''.et'' in
      if et_readable f
      then Inr \<lparr>cu_et_filename = f, cu_id = nid, cu_comm_group = comm_group, cu_data_size = un_data_size u,
                cu_final_data_size = un_final_data_size u, cu_comType = un_com_type u, cu_stream_id = 0\<rparr>
      else Inl (ProcessExit ''Cannot access et file for collective algorithm''))"

datatype Algorithm =
    AlgRing Ring
  | AlgHalvingDoubling HalvingDoubling
  | AlgDoubleBinaryTree DoubleBinaryTreeAllReduce
  | AlgCustom CustomAlgorithm

fun alg_data_size :: "Algorithm \<Rightarrow> u64" where
  "alg_data_size (AlgRing r) = rg_data_size r"
| "alg_data_size (AlgHalvingDoubling h) = hd_data_size h"
| "alg_data_size (AlgDoubleBinaryTree d) = dt_data_size d"
| "alg_data_size (AlgCustom c) = cu_data_size c"

fun alg_final_data_size :: "Algorithm \<Rightarrow> u64" where
  "alg_final_data_size (AlgRing r) = rg_final_data_size r"
| "alg_final_data_size (AlgHalvingDoubling h) = hd_final_data_size h"
| "alg_final_data_size (AlgDoubleBinaryTree d) = dt_final_data_size d"
| "alg_final_data_size (AlgCustom c) = cu_final_data_size c"

fun alg_comType :: "Algorithm \<Rightarrow> ComType" where
  "alg_comType (AlgRing r) = rg_comType r"
| "alg_comType (AlgHalvingDoubling h) = hd_comType h"
| "alg_comType (AlgDoubleBinaryTree d) = dt_comType d"
| "alg_comType (AlgCustom c) = cu_comType c"

text \<open>\<^verbatim>\<open>Algorithm::Algorithm\<close> enables the algorithm and nothing disables it again.\<close>

definition alg_enabled :: "Algorithm \<Rightarrow> bool" where
  "alg_enabled a = True"

fun alg_init :: "int \<Rightarrow> int \<Rightarrow> StreamState \<Rightarrow> Algorithm \<Rightarrow> Algorithm" where
  "alg_init stream_id queue_id st (AlgRing r) = AlgRing (Algorithm_init stream_id queue_id st r)"
| "alg_init stream_id queue_id st (AlgHalvingDoubling h) = AlgHalvingDoubling (HD_init stream_id queue_id st h)"
| "alg_init stream_id queue_id st (AlgDoubleBinaryTree d) = AlgDoubleBinaryTree (DBT_init stream_id d)"
| "alg_init stream_id queue_id st (AlgCustom c) = AlgCustom (c\<lparr>cu_stream_id := stream_id\<rparr>)"

section \<open>Phases\<close>

record CollectivePhase =
  cp_queue_id :: int
  cp_algorithm :: "Algorithm option"
  cp_initial_data_size :: u64
  cp_final_data_size :: u64
  cp_enabled :: bool
  cp_comm_type :: ComType

definition CollectivePhase_new :: "int \<Rightarrow> Algorithm \<Rightarrow> CollectivePhase" where
  "CollectivePhase_new queue_id a =
     \<lparr>cp_queue_id = queue_id, cp_algorithm = Some a, cp_initial_data_size = alg_data_size a,
      cp_final_data_size = alg_final_data_size a, cp_enabled = alg_enabled a, cp_comm_type = alg_comType a\<rparr>"

definition CollectivePhase_default :: "unset \<Rightarrow> CollectivePhase" where
  "CollectivePhase_default u =
     \<lparr>cp_queue_id = -1, cp_algorithm = None, cp_initial_data_size = un_data_size u,
      cp_final_data_size = un_final_data_size u, cp_enabled = un_enabled u, cp_comm_type = un_com_type u\<rparr>"

definition CollectivePhase_init :: "int \<Rightarrow> int \<Rightarrow> StreamState \<Rightarrow> CollectivePhase \<Rightarrow> CollectivePhase" where
  "CollectivePhase_init stream_id queue_id st p =
     p\<lparr>cp_algorithm := map_option (alg_init stream_id queue_id st) (cp_algorithm p)\<rparr>"

text \<open>
  The topology of a phase is passed as a pointer to the common base class and cast to the class the
  implementation expects; a null pointer or an object of another class is undefined behaviour.
\<close>

fun as_ring :: "BasicLogicalTopology option \<Rightarrow> RingTopology result" where
  "as_ring (Some (BasicRing r)) = Inr r"
| "as_ring _ = Inl (NullDeref ''(RingTopology*)topology'')"

fun as_tree :: "BasicLogicalTopology option \<Rightarrow> BinaryTree result" where
  "as_tree (Some (BasicTree t)) = Inr t"
| "as_tree _ = Inl (NullDeref ''(BinaryTree*)topology'')"

definition generate_collective_phase ::
    "(string \<Rightarrow> bool) \<Rightarrow> unset \<Rightarrow> int \<Rightarrow> ComType \<Rightarrow> BasicLogicalTopology option \<Rightarrow> u64 \<Rightarrow> int \<Rightarrow> Direction \<Rightarrow>
     InjectionPolicy \<Rightarrow> CollectiveImpl \<Rightarrow> CommunicatorGroup option \<Rightarrow> CollectivePhase result" where
  "generate_collective_phase et_readable u nid collective_type topology data_size queue_id direction
      injection_policy collective_impl comm_group =
     (let ty = ci_type collective_impl in
      if ty = ImplRing \<or> ty = OneRing then
        rbind (as_ring topology) (\<lambda>t.
        rbind (Ring_new collective_type nid t data_size direction injection_policy (un_ring_sizes u)) (\<lambda>a.
          Inr (CollectivePhase_new queue_id (AlgRing a))))
      else if ty = Direct \<or> ty = OneDirect then
        rbind (as_ring topology) (\<lambda>t.
        rbind (AllToAll_new collective_type (ci_direct_collective_window collective_impl) nid t data_size
                 direction Normal (un_ring_sizes u)) (\<lambda>a.
          Inr (CollectivePhase_new queue_id (AlgRing a))))
      else if ty = DoubleBinaryTree then
        rbind (as_tree topology) (\<lambda>t.
        rbind (DoubleBinaryTreeAllReduce_new nid t data_size) (\<lambda>a.
          Inr (CollectivePhase_new queue_id (AlgDoubleBinaryTree a))))
      else if ty = HalvingDoubling \<or> ty = OneHalvingDoubling then
        rbind (as_ring topology) (\<lambda>t.
        rbind (HalvingDoubling_new collective_type nid t data_size (un_peer u)) (\<lambda>a.
          Inr (CollectivePhase_new queue_id (AlgHalvingDoubling a))))
      else if ty = CustomCollectiveImpl then
        rbind (CustomAlgorithm_new et_readable u (ci_filename collective_impl) nid queue_id comm_group) (\<lambda>a.
          Inr (CollectivePhase_new 0 (AlgCustom a)))
      else Inl (ProcessExit ''No known collective implementation for collective phase''))"

section \<open>Streams\<close>

record BaseStream = StreamStat +
  bs_stream_id :: int
  bs_total_packets_sent :: int
  bs_phases_to_go :: "CollectivePhase list"
  bs_current_queue_id :: int
  bs_my_current_phase :: CollectivePhase
  bs_current_com_type :: ComType
  bs_creation_time :: Tick
  bs_last_init :: Tick
  bs_dataset :: int
  bs_steps_finished :: int
  bs_initial_data_size :: int
  bs_priority :: int
  bs_state :: StreamState
  bs_initialized :: bool
  bs_last_phase_change :: Tick
  bs_preferred_scheduling :: SchedulingPolicy

text \<open>The static counters of the class.\<close>

record stream_counters =
  sc_synchronizer :: "int \<rightharpoonup> int"
  sc_ready_counter :: "int \<rightharpoonup> int"

definition count_stream :: "int \<Rightarrow> stream_counters \<Rightarrow> stream_counters" where
  "count_stream stream_id c =
     (case sc_synchronizer c stream_id of
        Some n \<Rightarrow> c\<lparr>sc_synchronizer := (sc_synchronizer c)(stream_id \<mapsto> n + 1)\<rparr>
      | None \<Rightarrow> c\<lparr>sc_synchronizer := (sc_synchronizer c)(stream_id \<mapsto> 1),
                  sc_ready_counter := (sc_ready_counter c)(stream_id \<mapsto> 0)\<rparr>)"

definition changeState :: "StreamState \<Rightarrow> BaseStream \<Rightarrow> BaseStream" where
  "changeState st s = s\<lparr>bs_state := st\<rparr>"

definition BaseStream_new :: "unset \<Rightarrow> Tick \<Rightarrow> int \<Rightarrow> CollectivePhase list \<Rightarrow> BaseStream" where
  "BaseStream_new u now stream_id phases_to_go =
     StreamStat.extend StreamStat_new
       (BaseStream.fields stream_id 0 (map (CollectivePhase_init stream_id (-1) Created) phases_to_go) (-1)
          (CollectivePhase_default u) (un_com_type u) now (un_tick u) (-1) 0 0 0 Created False (un_tick u)
          PolicyNone)"

definition StreamBaseline_new ::
    "unset \<Rightarrow> Tick \<Rightarrow> int \<Rightarrow> int \<Rightarrow> CollectivePhase list \<Rightarrow> int \<Rightarrow> BaseStream" where
  "StreamBaseline_new u now dataset stream_id phases_to_go priority =
     (BaseStream_new u now stream_id phases_to_go)
       \<lparr>bs_dataset := dataset, bs_priority := priority, bs_steps_finished := 0,
        bs_initial_data_size := int_of_u64 (cp_initial_data_size (hd phases_to_go))\<rparr>"

end
