(* ===== verification/Offline_Greedy.thy ===== *)
theory Offline_Greedy
  imports Complex_Main Astra_Prelude
begin

text \<open>
  The chunk scheduler \<^verbatim>\<open>scheduling/OfflineGreedy.cc\<close>: it orders the dimensions of a collective
  by the load they carry and fixes how much data the next chunk takes. The schedule of a chunk is
  computed once, by the instance of system 0, and handed to every other system from a table shared
  by all of them; the record therefore holds the instance of system 0 together with the tables.
  Floating-point loads and bandwidths are rational numbers. \<^verbatim>\<open>std::sort\<close> is the stable sort,
  which is what the library does on the at most 16 dimensions of a topology.
\<close>

section \<open>State\<close>

record DimElapsedTime =
  de_dim_num :: int
  de_elapsed_time :: rat

definition DimElapsedTime_new :: "int \<Rightarrow> DimElapsedTime" where
  "DimElapsedTime_new dim_num = \<lparr>de_dim_num = dim_num, de_elapsed_time = 0\<rparr>"

record OfflineGreedy =
  og_dim_elapsed_time :: "DimElapsedTime list"
  og_dim_BW :: "rat list"
  og_dim_size :: "int list"
  og_chunk_schedule :: "int \<rightharpoonup> int list"
  og_schedule_consumer :: "int \<rightharpoonup> int"
  og_global_chunk_size :: "int \<rightharpoonup> u64"

text \<open>The network's bandwidth per dimension is the argument \<open>BW\<close>.\<close>

definition OfflineGreedy_new :: "int \<Rightarrow> int list \<Rightarrow> int list \<Rightarrow> (int \<Rightarrow> rat) \<Rightarrow> OfflineGreedy" where
  "OfflineGreedy_new dim_to_break physical_dims logical_broken_dims BW =
     (let sizes = (if dim_to_break = -1 then physical_dims else logical_broken_dims);
          dims = map int [0..<length sizes]
      in \<lparr>og_dim_elapsed_time = map DimElapsedTime_new dims,
          og_dim_BW = map (\<lambda>i. if dim_to_break \<noteq> -1 \<and> i > dim_to_break then BW (i - 1) else BW i) dims,
          og_dim_size = sizes,
          og_chunk_schedule = Map.empty, og_schedule_consumer = Map.empty, og_global_chunk_size = Map.empty\<rparr>)"

definition reset_loads :: "OfflineGreedy \<Rightarrow> OfflineGreedy" where
  "reset_loads g = g\<lparr>og_dim_elapsed_time := map DimElapsedTime_new (map int [0..<length (og_dim_elapsed_time g)])\<rparr>"

section \<open>Loads\<close>

abbreviation dim_size_at :: "OfflineGreedy \<Rightarrow> int \<Rightarrow> int" where
  "dim_size_at g d \<equiv> og_dim_size g ! nat d"

definition og_active :: "OfflineGreedy \<Rightarrow> bool list \<Rightarrow> int \<Rightarrow> bool" where
  "og_active g dimensions_involved d \<longleftrightarrow> dimensions_involved ! nat d \<and> dim_size_at g d \<noteq> 1"

definition get_chunk_size_from_elapsed_time :: "OfflineGreedy \<Rightarrow> rat \<Rightarrow> DimElapsedTime \<Rightarrow> ComType \<Rightarrow> u64" where
  "get_chunk_size_from_elapsed_time g elapsed_time dm comm_type =
     (let d = de_dim_num dm;
          scaled = elapsed_time * (og_dim_BW g ! nat d / og_dim_BW g ! 0);
          sz = rat_of_int (dim_size_at g d)
      in word_of_int \<lfloor>scaled / (if comm_type = Reduce_Scatter then (sz - 1) / sz else sz - 1) * 1048576\<rfloor>)"

text \<open>The load that a chunk puts on dimension \<open>d\<close>, and the size of the chunk behind it.\<close>

definition chunk_load :: "OfflineGreedy \<Rightarrow> ComType \<Rightarrow> int \<Rightarrow> u64 \<Rightarrow> rat" where
  "chunk_load g comm_type d chunk_size =
     (let sz = rat_of_int (dim_size_at g d) in
      rat_of_int (uint chunk_size) / 1048576 * (if comm_type = Reduce_Scatter then (sz - 1) / sz else sz - 1)
        / (og_dim_BW g ! nat d / og_dim_BW g ! 0))"

definition chunk_after :: "OfflineGreedy \<Rightarrow> ComType \<Rightarrow> int \<Rightarrow> u64 \<Rightarrow> u64" where
  "chunk_after g comm_type d chunk_size =
     (if comm_type = Reduce_Scatter then chunk_size div u64_of_int (dim_size_at g d)
      else chunk_size * u64_of_int (dim_size_at g d))"

definition add_load :: "rat \<Rightarrow> DimElapsedTime \<Rightarrow> DimElapsedTime" where
  "add_load t e = e\<lparr>de_elapsed_time := de_elapsed_time e + t\<rparr>"

text \<open>
  The chunk size that would level the load of the dimension at position \<open>p\<close> with that of the last
  (active) one; \<open>last_active\<close> is the loop that moves \<^verbatim>\<open>lastIndex\<close> down, \<open>shrink\<close> the one that
  divides by the sizes of the dimensions passed on the way back to \<open>p\<close>.
\<close>

fun last_active :: "OfflineGreedy \<Rightarrow> bool list \<Rightarrow> DimElapsedTime list \<Rightarrow> nat \<Rightarrow> nat" where
  "last_active g invd ds 0 = 0"
| "last_active g invd ds (Suc i) =
     (if og_active g invd (de_dim_num (ds ! Suc i)) then Suc i else last_active g invd ds i)"

fun shrink :: "OfflineGreedy \<Rightarrow> bool list \<Rightarrow> DimElapsedTime list \<Rightarrow> nat list \<Rightarrow> u64 \<Rightarrow> u64" where
  "shrink g invd ds [] c = c"
| "shrink g invd ds (i # is) c =
     (let d = de_dim_num (ds ! i) in
      shrink g invd ds is (if invd ! nat d \<and> dim_size_at g d > 1 then c div u64_of_int (dim_size_at g d) else c))"

definition levelling_size :: "OfflineGreedy \<Rightarrow> bool list \<Rightarrow> ComType \<Rightarrow> DimElapsedTime list \<Rightarrow> nat \<Rightarrow> u64" where
  "levelling_size g invd comm_type ds p =
     (if comm_type = Reduce_Scatter then
        get_chunk_size_from_elapsed_time g \<bar>de_elapsed_time (last ds) - de_elapsed_time (ds ! p)\<bar> (ds ! p) Reduce_Scatter
      else
        (let l = last_active g invd ds (length ds - 1) in
         shrink g invd ds (rev [p..<l])
           (get_chunk_size_from_elapsed_time g \<bar>de_elapsed_time (ds ! l) - de_elapsed_time (ds ! p)\<bar>
              (ds ! l) All_Gather)))"

section \<open>Scheduling of a chunk\<close>

text \<open>
  The fall-back to the default order: the loads go back into the order of the dimensions, reversed
  for an All-Gather, and are increased position by position with the parameters of dimension
  \<^verbatim>\<open>myDim\<close>.
\<close>

definition my_reordered :: "DimElapsedTime list \<Rightarrow> DimElapsedTime list" where
  "my_reordered ds =
     map (\<lambda>d. case find (\<lambda>e. de_dim_num e = int d) ds of None \<Rightarrow> ds ! 0 | Some e \<Rightarrow> e) [0..<length ds]"

fun default_loads ::
    "OfflineGreedy \<Rightarrow> bool list \<Rightarrow> ComType \<Rightarrow> nat list \<Rightarrow> u64 \<Rightarrow> DimElapsedTime list \<Rightarrow> DimElapsedTime list" where
  "default_loads g invd comm_type [] c ds = ds"
| "default_loads g invd comm_type (i # is) c ds =
     (if \<not> og_active g invd (int i) then default_loads g invd comm_type is c ds
      else default_loads g invd comm_type is (chunk_after g comm_type (int i) c)
             (ds[i := add_load (chunk_load g comm_type (int i) c) (ds ! i)]))"

definition publish :: "int \<Rightarrow> int list \<Rightarrow> OfflineGreedy \<Rightarrow> OfflineGreedy" where
  "publish chunk_id order g = g\<lparr>og_chunk_schedule := (og_chunk_schedule g)(chunk_id \<mapsto> order),
     og_schedule_consumer := (og_schedule_consumer g)(chunk_id \<mapsto> 1)\<rparr>"

definition take_data :: "int \<Rightarrow> u64 \<Rightarrow> u64 \<Rightarrow> OfflineGreedy \<Rightarrow> u64 \<times> OfflineGreedy" where
  "take_data chunk_id remaining chunk_size g =
     (remaining - min remaining chunk_size,
      g\<lparr>og_global_chunk_size := (og_global_chunk_size g)(chunk_id \<mapsto> min remaining chunk_size)\<rparr>)"

definition default_schedule ::
    "OfflineGreedy \<Rightarrow> bool list \<Rightarrow> ComType \<Rightarrow> int \<Rightarrow> u64 \<Rightarrow> DimElapsedTime list \<Rightarrow> OfflineGreedy" where
  "default_schedule g invd comm_type chunk_id chunk_size ds =
     (let re = my_reordered ds;
          re' = (if comm_type = All_Gather then rev re else re)
      in publish chunk_id (map int [0..<length ds])
           (g\<lparr>og_dim_elapsed_time := default_loads g invd comm_type [0..<length ds] chunk_size re'\<rparr>))"

text \<open>
  The main loop over the sorted dimensions, \<open>p\<close> the position of the next one. The state of the
  loop is the load table, the order built so far, the current chunk size, whether the size has
  been decided, and the data that remains.
\<close>

fun greedy_loop ::
    "bool list \<Rightarrow> InterDimensionScheduling \<Rightarrow> ComType \<Rightarrow> int \<Rightarrow> u64 \<Rightarrow> nat list \<Rightarrow> OfflineGreedy \<Rightarrow>
     DimElapsedTime list \<Rightarrow> int list \<Rightarrow> u64 \<Rightarrow> bool \<Rightarrow> u64 \<Rightarrow> int list \<times> u64 \<times> OfflineGreedy" where
  "greedy_loop invd sched comm_type chunk_id rec [] g ds order chunk_size calculated remaining =
     (order, remaining, publish chunk_id order (g\<lparr>og_dim_elapsed_time := ds\<rparr>))"
| "greedy_loop invd sched comm_type chunk_id rec (p # ps) g ds order chunk_size calculated remaining =
     (let d = de_dim_num (ds ! p);
          continue = (\<lambda>g chunk remaining.
            greedy_loop invd sched comm_type chunk_id rec ps g
              (ds[p := add_load (chunk_load g comm_type d chunk) (ds ! p)]) (order @ [d])
              (chunk_after g comm_type d chunk) True remaining)
      in if \<not> og_active g invd d then
           greedy_loop invd sched comm_type chunk_id rec ps g ds (order @ [d]) chunk_size calculated remaining
         else if sched = OfflineGreedyFlex \<and> \<not> calculated then
           (let size = levelling_size g invd comm_type ds p in
            if size < rec then
              (let (remaining', g') = take_data chunk_id remaining rec g in
               (map int [0..<length ds] @ filter (\<lambda>d. \<not> og_active g invd d) (map int [0..<length ds]),
                remaining', default_schedule g' invd comm_type chunk_id (min remaining rec) ds))
            else
              (let (remaining', g') = take_data chunk_id remaining size g in continue g' size remaining'))
         else if sched = OfflineGreedy \<and> \<not> calculated then
           (if levelling_size g invd comm_type ds p < rec div 16 then
              (map int [0..<length ds], remaining, default_schedule g invd comm_type chunk_id chunk_size ds)
            else continue g chunk_size remaining)
         else greedy_loop invd sched comm_type chunk_id rec ps g
                (ds[p := add_load (chunk_load g comm_type d chunk_size) (ds ! p)]) (order @ [d])
                (chunk_after g comm_type d chunk_size) calculated remaining)"

definition new_schedule ::
    "int \<Rightarrow> u64 \<Rightarrow> u64 \<Rightarrow> bool list \<Rightarrow> InterDimensionScheduling \<Rightarrow> ComType \<Rightarrow> OfflineGreedy \<Rightarrow>
     int list \<times> u64 \<times> OfflineGreedy" where
  "new_schedule chunk_id remaining rec invd sched comm_type g =
     (let comm_type = (if comm_type = All_Reduce then Reduce_Scatter else comm_type);
          in_order = sort_key de_elapsed_time (og_dim_elapsed_time g);
          ds = (if comm_type = All_Gather then rev in_order else in_order);
          (remaining', g') = (if sched = OfflineGreedy then take_data chunk_id remaining rec g else (remaining, g))
      in greedy_loop invd sched comm_type chunk_id rec [0..<length ds] g' ds [] rec False remaining')"

definition forget_chunk :: "int \<Rightarrow> OfflineGreedy \<Rightarrow> OfflineGreedy" where
  "forget_chunk c g = g\<lparr>og_chunk_schedule := (og_chunk_schedule g)(c := None),
     og_schedule_consumer := (og_schedule_consumer g)(c := None),
     og_global_chunk_size := (og_global_chunk_size g)(c := None)\<rparr>"

definition get_chunk_scheduling ::
    "int \<Rightarrow> int \<Rightarrow> u64 \<Rightarrow> u64 \<Rightarrow> bool list \<Rightarrow> InterDimensionScheduling \<Rightarrow> ComType \<Rightarrow> OfflineGreedy \<Rightarrow>
     (int list \<times> u64 \<times> OfflineGreedy) result" where
  "get_chunk_scheduling all_sys_size chunk_id remaining rec invd sched comm_type g =
     (if length invd < length (og_dim_size g) then Inl (OutOfRange ''dimensions_involved[dim.dim_num]'')
      else case og_chunk_schedule g chunk_id of
        Some order \<Rightarrow>
          (let consumers = map_index (og_schedule_consumer g) 0 chunk_id + 1;
               taken = map_index (og_global_chunk_size g) 0 chunk_id
           in Inr (order, remaining - taken,
                if consumers = all_sys_size then
                  forget_chunk chunk_id g
                else g\<lparr>og_schedule_consumer := (og_schedule_consumer g)(chunk_id \<mapsto> consumers)\<rparr>))
      | None \<Rightarrow> Inr (new_schedule chunk_id remaining rec invd sched comm_type g))"

section \<open>Every schedule orders all dimensions\<close>

definition dims_ok :: "nat \<Rightarrow> int list \<Rightarrow> bool" where
  "dims_ok n xs \<longleftrightarrow> distinct xs \<and> set xs = int ` {..<n}"

definition og_ok :: "OfflineGreedy \<Rightarrow> bool" where
  "og_ok g \<longleftrightarrow> length (og_dim_BW g) = length (og_dim_size g) \<and>
     dims_ok (length (og_dim_size g)) (map de_dim_num (og_dim_elapsed_time g))"

lemma dims_ok_length: "dims_ok n xs \<Longrightarrow> length xs = n"
proof -
  assume "dims_ok n xs"
  then have "distinct xs" and eq: "set xs = int ` {..<n}"
    by (simp_all add: dims_ok_def)
  then have "length xs = card (set xs)"
    by (metis distinct_card)
  then show "length xs = n"
    by (simp add: eq card_image)
qed

lemma dims_ok_upt [simp]: "dims_ok n (map int [0..<n])"
  by (auto simp: dims_ok_def distinct_map)

lemma dims_ok_rev [simp]: "dims_ok n (rev xs) = dims_ok n xs"
  by (simp add: dims_ok_def)

lemma dims_ok_sort: "dims_ok n (map f (sort_key k xs)) = dims_ok n (map f xs)"
  by (simp add: dims_ok_def distinct_map)

lemma dim_num_add_load [simp]: "de_dim_num (add_load t e) = de_dim_num e"
  by (simp add: add_load_def)

lemma dim_nums_update [simp]: "map de_dim_num (ds[p := add_load t (ds ! p)]) = map de_dim_num ds"
  by (cases "p < length ds") (simp_all add: map_update list_update_same_conv list_update_beyond)

lemma dim_nums_default_loads [simp]:
  "map de_dim_num (default_loads g invd ty is c ds) = map de_dim_num ds"
  by (induction "is" arbitrary: c ds) simp_all

lemma dim_nums_reordered:
  assumes "dims_ok (length ds) (map de_dim_num ds)"
  shows "map de_dim_num (my_reordered ds) = map int [0..<length ds]"
proof -
  have "de_dim_num (case find (\<lambda>e. de_dim_num e = int d) ds of None \<Rightarrow> ds ! 0 | Some e \<Rightarrow> e) = int d"
    if "d < length ds" for d
  proof -
    have "int d \<in> set (map de_dim_num ds)"
      using assms that by (auto simp: dims_ok_def)
    then obtain e where e: "find (\<lambda>e. de_dim_num e = int d) ds = Some e"
      by (cases "find (\<lambda>e. de_dim_num e = int d) ds") (auto simp: find_None_iff)
    then have "de_dim_num e = int d"
      by (auto simp: find_Some_iff)
    with e show ?thesis
      by simp
  qed
  then show ?thesis
    by (simp add: my_reordered_def)
qed

text \<open>What a computed schedule leaves behind, for any order of the dimensions.\<close>

definition scheduled :: "OfflineGreedy \<Rightarrow> int \<Rightarrow> int list \<Rightarrow> OfflineGreedy \<Rightarrow> bool" where
  "scheduled g c order g' \<longleftrightarrow>
     (let n = length (og_dim_size g) in
      og_ok g' \<and> og_dim_size g' = og_dim_size g \<and> dims_ok n (take n order) \<and>
      og_chunk_schedule g' = (og_chunk_schedule g)(c \<mapsto> take n order) \<and>
      og_schedule_consumer g' = (og_schedule_consumer g)(c \<mapsto> 1))"

lemma scheduled_default:
  assumes "length (og_dim_BW g) = length (og_dim_size g)" and "dims_ok (length (og_dim_size g)) (map de_dim_num ds)"
  shows "scheduled g c (map int [0..<length ds] @ rest) (default_schedule g invd ty c chunk ds)"
proof -
  have len: "length ds = length (og_dim_size g)"
    using dims_ok_length [OF assms(2)] by simp
  then have re: "map de_dim_num (my_reordered ds) = map int [0..<length ds]"
    using dim_nums_reordered assms(2) by simp
  have "dims_ok (length ds) (map de_dim_num (if ty = All_Gather then rev (my_reordered ds) else my_reordered ds))"
    using re by (simp flip: rev_map)
  then show ?thesis
    using assms(1) len by (simp add: scheduled_def default_schedule_def publish_def og_ok_def Let_def)
qed

lemma scheduled_cong:
  assumes "scheduled g1 c order g'" and "og_dim_size g1 = og_dim_size g"
    and "og_chunk_schedule g1 = og_chunk_schedule g" and "og_schedule_consumer g1 = og_schedule_consumer g"
  shows "scheduled g c order g'"
  using assms by (simp add: scheduled_def)

lemma take_data_frame [simp]:
  "og_dim_size (snd (take_data c r k g)) = og_dim_size g"
  "og_dim_BW (snd (take_data c r k g)) = og_dim_BW g"
  "og_chunk_schedule (snd (take_data c r k g)) = og_chunk_schedule g"
  "og_schedule_consumer (snd (take_data c r k g)) = og_schedule_consumer g"
  "og_dim_elapsed_time (snd (take_data c r k g)) = og_dim_elapsed_time g"
  by (simp_all add: take_data_def)

lemma greedy_loop_scheduled:
  assumes "greedy_loop invd sched ty c rec ps g ds order chunk calc rem = (order', rem', g')"
    and "length (og_dim_BW g) = length (og_dim_size g)" and "dims_ok (length (og_dim_size g)) (map de_dim_num ds)"
    and "ps = [k..<length ds]" and "k \<le> length ds" and "order = map de_dim_num (take k ds)"
  shows "scheduled g c order' g'"
  using assms
proof (induction ps arbitrary: g ds order chunk calc rem k)
  case Nil
  have "length ds = length (og_dim_size g)"
    using dims_ok_length [OF Nil.prems(3)] by simp
  moreover have "k = length ds"
    using Nil.prems(5) upt_eq_Nil_conv [of k "length ds", folded Nil.prems(4)] by auto
  ultimately show ?case
    using Nil.prems by (auto simp: scheduled_def publish_def og_ok_def Let_def)
next
  case (Cons p ps)
  have p: "p = k" "k < length ds" "ps = [Suc k..<length ds]"
    using Cons.prems(4) [symmetric] by (auto simp: upt_eq_Cons_conv)
  let ?d = "de_dim_num (ds ! p)"
  have step: "scheduled g c order' g'"
    if "greedy_loop invd sched ty c rec ps g1 ds1 (order @ [?d]) ch cl r = (order', rem', g')"
      and same: "map de_dim_num ds1 = map de_dim_num ds" "og_dim_size g1 = og_dim_size g"
        "og_dim_BW g1 = og_dim_BW g" "og_chunk_schedule g1 = og_chunk_schedule g"
        "og_schedule_consumer g1 = og_schedule_consumer g"
    for g1 ds1 ch cl r
  proof -
    have len: "length ds1 = length ds"
      using same(1) by (metis length_map)
    have order: "order @ [?d] = map de_dim_num (take (Suc k) ds1)"
      using p Cons.prems(6) same(1) by (simp add: take_Suc_conv_app_nth flip: take_map)
    have "scheduled g1 c order' g'"
      by (rule Cons.IH [OF that(1), where k = "Suc k"]) (use p len order same Cons.prems in simp_all)
    then show ?thesis
      using same by (auto intro: scheduled_cong)
  qed
  have loop: "greedy_loop invd sched ty c rec (p # ps) g ds order chunk calc rem = (order', rem', g')"
    using Cons.prems(1) .
  consider "\<not> og_active g invd ?d"
    | "og_active g invd ?d" "sched = OfflineGreedyFlex" "\<not> calc" "levelling_size g invd ty ds p < rec"
    | "og_active g invd ?d" "sched = OfflineGreedyFlex" "\<not> calc" "\<not> levelling_size g invd ty ds p < rec"
    | "og_active g invd ?d" "sched = OfflineGreedy" "\<not> calc" "levelling_size g invd ty ds p < rec div 16"
    | "og_active g invd ?d" "sched = OfflineGreedy" "\<not> calc" "\<not> levelling_size g invd ty ds p < rec div 16"
    | "og_active g invd ?d" "calc \<or> sched \<noteq> OfflineGreedyFlex \<and> sched \<noteq> OfflineGreedy"
    by blast
  then show ?case
  proof cases
    case 1
    with loop show ?thesis by (auto intro: step)
  next
    case 2
    have "scheduled (snd (take_data c rem rec g)) c order' g'"
      using loop 2 Cons.prems(2,3)
        scheduled_default [of "snd (take_data c rem rec g)" ds c _ invd ty "min rem rec"]
      by (auto simp: Let_def split_beta)
    then show ?thesis by (rule scheduled_cong) simp_all
  next
    case 3
    with loop show ?thesis by (auto simp: Let_def split_beta intro: step)
  next
    case 4
    with loop show ?thesis
      using scheduled_default [of g ds c "[]" invd ty chunk] Cons.prems(2,3) by auto
  next
    case 5
    with loop show ?thesis by (auto simp: Let_def intro: step)
  next
    case 6
    with loop show ?thesis by (auto simp: Let_def intro: step)
  qed
qed

section \<open>The data a chunk takes\<close>

lemma default_schedule_sizes [simp]:
  "og_global_chunk_size (default_schedule g invd ty c chunk ds) = og_global_chunk_size g"
  by (simp add: default_schedule_def publish_def Let_def)

text \<open>Once the size is decided, or with \<^verbatim>\<open>OfflineGreedy\<close>, the loop leaves the amounts alone.\<close>

lemma greedy_loop_keeps_amount:
  assumes "greedy_loop invd sched ty c rec ps g ds order chunk calc rem = (order', rem', g')"
    and "calc \<or> sched = OfflineGreedy"
  shows "rem' = rem \<and> og_global_chunk_size g' = og_global_chunk_size g"
  using assms
proof (induction ps arbitrary: g ds order chunk calc rem)
  case Nil
  then show ?case by (auto simp: publish_def)
next
  case (Cons p ps)
  let ?d = "de_dim_num (ds ! p)"
  consider "\<not> og_active g invd ?d" | "og_active g invd ?d" "calc"
    | "og_active g invd ?d" "sched = OfflineGreedy" "\<not> calc" "levelling_size g invd ty ds p < rec div 16"
    | "og_active g invd ?d" "sched = OfflineGreedy" "\<not> calc" "\<not> levelling_size g invd ty ds p < rec div 16"
    using Cons.prems(2) by blast
  then show ?case
  proof cases
    case 1
    with Cons.prems(1) have "greedy_loop invd sched ty c rec ps g ds (order @ [?d]) chunk calc rem = (order', rem', g')"
      by simp
    then show ?thesis by (rule Cons.IH [OF _ Cons.prems(2)])
  next
    case 2
    with Cons.prems show ?thesis by (auto simp: Let_def dest: Cons.IH)
  next
    case 3
    with Cons.prems(1) show ?thesis by auto
  next
    case 4
    with Cons.prems(1) have
      "greedy_loop invd sched ty c rec ps g (ds[p := add_load (chunk_load g ty ?d chunk) (ds ! p)]) (order @ [?d])
         (chunk_after g ty ?d chunk) True rem = (order', rem', g')"
      by (simp add: Let_def)
    then show ?thesis by (rule Cons.IH) simp
  qed
qed

lemma greedy_loop_flex_amount:
  assumes "greedy_loop invd OfflineGreedyFlex ty c rec ps g ds order chunk False rem = (order', rem', g')"
    and "\<exists>p\<in>set ps. og_active g invd (de_dim_num (ds ! p))"
  shows "\<exists>k \<ge> rec. rem' = rem - min rem k \<and> og_global_chunk_size g' = (og_global_chunk_size g)(c \<mapsto> min rem k)"
  using assms
proof (induction ps arbitrary: order)
  case Nil
  then show ?case by simp
next
  case (Cons p ps)
  let ?d = "de_dim_num (ds ! p)" and ?k = "levelling_size g invd ty ds p"
  consider "\<not> og_active g invd ?d" | "og_active g invd ?d" "?k < rec" | "og_active g invd ?d" "\<not> ?k < rec"
    by blast
  then show ?case
  proof cases
    case 1
    with Cons.prems(1) have
      "greedy_loop invd OfflineGreedyFlex ty c rec ps g ds (order @ [?d]) chunk False rem = (order', rem', g')"
      by simp
    moreover have "\<exists>p\<in>set ps. og_active g invd (de_dim_num (ds ! p))"
      using Cons.prems(2) 1 by auto
    ultimately show ?thesis by (rule Cons.IH)
  next
    case 2
    with Cons.prems(1) show ?thesis by (auto simp: take_data_def intro!: exI [of _ rec])
  next
    case 3
    with Cons.prems(1) show ?thesis
      by (intro exI [of _ ?k]) (auto simp: take_data_def Let_def dest!: greedy_loop_keeps_amount)
  qed
qed

lemma new_schedule_ok:
  assumes "new_schedule c rem rec invd sched ty g = (order, rem', g')" and "og_ok g"
  shows "scheduled g c order g'"
proof -
  define ty' where "ty' = (if ty = All_Reduce then Reduce_Scatter else ty)"
  define ds where "ds = (if ty' = All_Gather then rev (sort_key de_elapsed_time (og_dim_elapsed_time g))
    else sort_key de_elapsed_time (og_dim_elapsed_time g))"
  define h where "h = (if sched = OfflineGreedy then snd (take_data c rem rec g) else g)"
  define r where "r = (if sched = OfflineGreedy then fst (take_data c rem rec g) else rem)"
  have loop: "greedy_loop invd sched ty' c rec [0..<length ds] h ds [] rec False r = (order, rem', g')"
    using assms(1) unfolding new_schedule_def ds_def h_def r_def ty'_def Let_def
    by (simp split: if_splits prod.splits)
  have dims: "dims_ok (length (og_dim_size h)) (map de_dim_num ds)"
    using assms(2) by (simp add: og_ok_def dims_ok_sort ds_def h_def flip: rev_map)
  have "scheduled h c order g'"
    by (rule greedy_loop_scheduled [OF loop _ dims refl]) (use assms(2) in \<open>simp_all add: h_def og_ok_def\<close>)
  then show ?thesis by (rule scheduled_cong) (simp_all add: h_def)
qed

lemma new_schedule_amount:
  assumes "new_schedule c rem rec invd sched ty g = (order, rem', g')" and "og_ok g"
    and "sched = OfflineGreedy \<or> sched = OfflineGreedyFlex"
    and "d < length (og_dim_size g)" and "og_active g invd (int d)"
  shows "\<exists>k \<ge> rec. (sched = OfflineGreedy \<longrightarrow> k = rec) \<and> rem' = rem - min rem k \<and>
    og_global_chunk_size g' = (og_global_chunk_size g)(c \<mapsto> min rem k)"
proof (cases "sched = OfflineGreedy")
  case True
  with assms(1) show ?thesis
    by (intro exI [of _ rec])
      (auto simp: new_schedule_def take_data_def Let_def dest!: greedy_loop_keeps_amount)
next
  case False
  let ?ty = "if ty = All_Reduce then Reduce_Scatter else ty"
  let ?s = "sort_key de_elapsed_time (og_dim_elapsed_time g)"
  let ?ds = "if ?ty = All_Gather then rev ?s else ?s"
  have "int d \<in> de_dim_num ` set ?ds"
    using assms(2,4) by (auto simp: og_ok_def dims_ok_def)
  then have "\<exists>p\<in>set [0..<length ?ds]. og_active g invd (de_dim_num (?ds ! p))"
    using assms(5) by (force simp: in_set_conv_nth simp del: length_rev length_sort)
  moreover have "sched = OfflineGreedyFlex"
    using False assms(3) by simp
  ultimately show ?thesis
    using assms(1) False greedy_loop_flex_amount [of invd ?ty c rec "[0..<length ?ds]" g ?ds "[]" rec rem order rem' g']
    by (auto simp: new_schedule_def Let_def)
qed

section \<open>All systems follow the same schedule\<close>

text \<open>The systems ask for the schedule of a chunk one after the other, each with the same request.\<close>

fun greedy_calls ::
    "nat \<Rightarrow> int \<Rightarrow> int \<Rightarrow> u64 \<Rightarrow> u64 \<Rightarrow> bool list \<Rightarrow> InterDimensionScheduling \<Rightarrow> ComType \<Rightarrow> OfflineGreedy \<Rightarrow>
     ((int list \<times> u64) list \<times> OfflineGreedy) result" where
  "greedy_calls 0 n c rem rec invd sched ty g = Inr ([], g)"
| "greedy_calls (Suc k) n c rem rec invd sched ty g =
     rbind (get_chunk_scheduling n c rem rec invd sched ty g) (\<lambda>(order, r, g1).
     rbind (greedy_calls k n c rem rec invd sched ty g1) (\<lambda>(xs, g2). Inr ((order, r) # xs, g2)))"

lemma forget_chunk_consumer [simp]:
  "forget_chunk c (g\<lparr>og_schedule_consumer := (og_schedule_consumer g)(c \<mapsto> j)\<rparr>) = forget_chunk c g"
  by (simp add: forget_chunk_def)

lemma greedy_calls_shared:
  assumes "og_chunk_schedule g c = Some order" and "og_schedule_consumer g c = Some (int j)"
    and "og_global_chunk_size g c = Some taken" and "j + k = n" and "0 < k"
    and "length (og_dim_size g) \<le> length invd"
  shows "greedy_calls k (int n) c rem rec invd sched ty g =
    Inr (replicate k (order, rem - taken), forget_chunk c g)"
  using assms
proof (induction k arbitrary: g j)
  case 0
  then show ?case by simp
next
  case (Suc k)
  show ?case
  proof (cases "k = 0")
    case True
    with Suc.prems have "int j + 1 = int n" by simp
    with Suc.prems True show ?thesis by (simp add: get_chunk_scheduling_def)
  next
    case False
    with Suc.prems have more: "int j + 1 \<noteq> int n" by linarith
    let ?g = "g\<lparr>og_schedule_consumer := (og_schedule_consumer g)(c \<mapsto> int j + 1)\<rparr>"
    have "greedy_calls k (int n) c rem rec invd sched ty ?g =
        Inr (replicate k (order, rem - taken), forget_chunk c g)"
      using Suc.IH [of ?g "Suc j"] Suc.prems False by simp
    with Suc.prems more show ?thesis by (simp add: get_chunk_scheduling_def)
  qed
qed

text \<open>
  \<^bold>\<open>C30\<close>. \<^emph>\<open>The systems agree on every chunk.\<close> When the \<open>n \<ge> 2\<close> systems ask, one after the other, for the
  schedule of the same new chunk of a collective with at least one active dimension, each of them
  gets the same order of the dimensions, a permutation of all of them, and the same amount of data,
  which is \<^verbatim>\<open>recommended_chunk_size\<close> or more but never more than what remains (exactly the
  smaller of the two for \<^verbatim>\<open>OfflineGreedy\<close>). Afterwards the shared tables are as before. (The first
  system may see trailing entries behind the permutation, which its caller never reads.)
\<close>

theorem greedy_schedule_shared:
  assumes "og_ok g" and "og_chunk_schedule g c = None" and "og_schedule_consumer g c = None"
    and "og_global_chunk_size g c = None" and "2 \<le> n" and "length (og_dim_size g) \<le> length invd"
    and "sched = OfflineGreedy \<or> sched = OfflineGreedyFlex"
    and "d < length (og_dim_size g)" and "og_active g invd (int d)"
  shows "\<exists>order k g'. let dims = length (og_dim_size g); rem' = rem - min rem k in
    greedy_calls n (int n) c rem rec invd sched ty g =
      Inr ((order, rem') # replicate (n - 1) (take dims order, rem'), g') \<and>
    dims_ok dims (take dims order) \<and> rec \<le> k \<and> (sched = OfflineGreedy \<longrightarrow> k = rec) \<and> og_ok g' \<and>
    og_chunk_schedule g' = og_chunk_schedule g \<and> og_schedule_consumer g' = og_schedule_consumer g \<and>
    og_global_chunk_size g' = og_global_chunk_size g"
proof -
  obtain order rem' g1 where new: "new_schedule c rem rec invd sched ty g = (order, rem', g1)"
    by (cases "new_schedule c rem rec invd sched ty g")
  obtain k where k: "rec \<le> k" "sched = OfflineGreedy \<longrightarrow> k = rec" "rem' = rem - min rem k"
    "og_global_chunk_size g1 = (og_global_chunk_size g)(c \<mapsto> min rem k)"
    using new_schedule_amount [OF new assms(1,7,8,9)] by blast
  have s: "scheduled g c order g1"
    by (rule new_schedule_ok [OF new assms(1)])
  define dims where "dims = length (og_dim_size g)"
  define g' where "g' = forget_chunk c g1"
  have later: "greedy_calls (n - 1) (int n) c rem rec invd sched ty g1 =
      Inr (replicate (n - 1) (take dims order, rem - min rem k), g')"
    unfolding g'_def
    by (rule greedy_calls_shared [where j = 1])
      (use s k assms(5,6) in \<open>auto simp: scheduled_def dims_def Let_def\<close>)
  have first: "get_chunk_scheduling (int n) c rem rec invd sched ty g = Inr (order, rem', g1)"
    using new assms(2,6) by (simp add: get_chunk_scheduling_def)
  have "greedy_calls (Suc (n - 1)) (int n) c rem rec invd sched ty g =
      Inr ((order, rem - min rem k) # replicate (n - 1) (take dims order, rem - min rem k), g')"
    using later by (simp add: first k(3))
  moreover have "Suc (n - 1) = n"
    using assms(5) by simp
  moreover have "og_ok g'"
    using s by (auto simp: scheduled_def g'_def forget_chunk_def og_ok_def Let_def)
  moreover have "og_chunk_schedule g' = og_chunk_schedule g" "og_schedule_consumer g' = og_schedule_consumer g"
    "og_global_chunk_size g' = og_global_chunk_size g"
    using s k(4) assms(2-4) by (auto simp: scheduled_def g'_def forget_chunk_def Let_def)
  ultimately show ?thesis
    using s k(1,2) unfolding Let_def dims_def [symmetric]
    by (intro exI [of _ order] exI [of _ k] exI [of _ g']) (simp add: scheduled_def Let_def dims_def)
qed

text \<open>An instance with two dimensions of sizes 4 and 2 and three systems.\<close>

definition demo_greedy :: OfflineGreedy where
  "demo_greedy = OfflineGreedy_new (-1) [4, 2] [] (\<lambda>d. if d = 0 then 100 else 50)"

theorem greedy_schedule_shared_witness:
  "\<exists>order k g'. let rem' = 1000 - min 1000 k in
    greedy_calls 3 3 7 1000 250 [True, True] OfflineGreedy All_Reduce demo_greedy =
      Inr ((order, rem') # replicate 2 (take 2 order, rem'), g') \<and>
    dims_ok 2 (take 2 order) \<and> 250 \<le> k \<and> k = 250 \<and> og_ok g' \<and>
    og_chunk_schedule g' = Map.empty \<and> og_schedule_consumer g' = Map.empty \<and> og_global_chunk_size g' = Map.empty"
proof -
  have "og_ok demo_greedy"
    by (simp add: og_ok_def demo_greedy_def OfflineGreedy_new_def Let_def DimElapsedTime_new_def dims_ok_def
        lessThan_Suc insert_commute numeral_2_eq_2)
  moreover have "og_active demo_greedy [True, True] (int 0)" "length (og_dim_size demo_greedy) = 2"
    by (simp_all add: og_active_def demo_greedy_def OfflineGreedy_new_def Let_def)
  moreover have "og_chunk_schedule demo_greedy = Map.empty" "og_schedule_consumer demo_greedy = Map.empty"
    "og_global_chunk_size demo_greedy = Map.empty"
    by (simp_all add: demo_greedy_def OfflineGreedy_new_def Let_def)
  ultimately show ?thesis
    using greedy_schedule_shared [of demo_greedy 7 3 "[True, True]" OfflineGreedy 0 1000 250 All_Reduce] by simp
qed

end
