(* ===== verification/Collective_Generation.thy ===== *)
theory Collective_Generation
  imports Collective_Phase Queue_Levels Offline_Greedy
begin

text \<open>
  The generation of a collective, \<^verbatim>\<open>Sys::generate_collective\<close> and the functions around it in
  \<^verbatim>\<open>Sys.cc\<close>: the data is cut into chunks, and every chunk becomes a stream whose phases visit the
  dimensions of the topology. The record holds the part of \<^verbatim>\<open>Sys\<close> that this code reads and writes.
  \<^verbatim>\<open>insert_into_ready_list\<close> is logged: \<open>gn_inserted\<close> lists the streams handed to it, in order.
  The scheduler behind that call touches none of the fields used here.
\<close>

section \<open>State\<close>

text \<open>What does not change while a collective is generated.\<close>

record gen_env =
  ge_now :: Tick
  ge_all_sys_size :: int
  ge_et_readable :: "string \<Rightarrow> bool"
  ge_unset :: unset

record gen_sys =
  gn_id :: int
  gn_total_nodes :: int
  gn_preferred_dataset_splits :: int
  gn_scheduling_policy :: SchedulingPolicy
  gn_priority_counter :: int
  gn_inter_dimension_scheduling :: InterDimensionScheduling
  gn_collectiveOptimization :: CollectiveOptimization
  gn_round_robin_inter_dimension_scheduler :: int
  gn_num_streams :: int
  gn_vLevels :: "QueueLevelHandler list"
  gn_last_scheduled_collective :: Tick
  gn_logical_topologies :: "ComType \<Rightarrow> LogicalTopology list"
  gn_collective_impl_lookup :: CollectiveImplLookup
  gn_offline_greedy :: OfflineGreedy
  gn_counters :: stream_counters
  gn_next_dataset_id :: int
  gn_inserted :: "BaseStream list"

section \<open>Sizes and priorities\<close>

definition determine_chunk_size :: "gen_sys \<Rightarrow> u64 \<Rightarrow> ComType \<Rightarrow> (u64 \<times> u64) result" where
  "determine_chunk_size s sz ty =
     (let splits = u64_of_int (gn_preferred_dataset_splits s) in
      if splits = 0 then Inl (DivisionByZero ''size / preferred_dataset_splits'')
      else (let chunk_size = sz div splits; nodes = u64_of_int (gn_total_nodes s) in
            if ty \<noteq> All_Gather \<and> nodes > chunk_size then Inr (nodes, splits * nodes)
            else Inr (chunk_size, sz)))"

definition get_priority :: "int \<Rightarrow> gen_sys \<Rightarrow> (int \<times> gen_sys) result" where
  "get_priority explicit_priority s =
     (case gn_scheduling_policy s of
        LIFO \<Rightarrow> Inr (gn_priority_counter s, s\<lparr>gn_priority_counter := gn_priority_counter s + 1\<rparr>)
      | FIFO \<Rightarrow> Inr (gn_priority_counter s, s\<lparr>gn_priority_counter := gn_priority_counter s - 1\<rparr>)
      | EXPLICIT \<Rightarrow> Inr (explicit_priority, s)
      | PolicyNone \<Rightarrow> Inl (AssertionFailed ''get_priority''))"

section \<open>Topologies behind a plan\<close>

fun topology_dims :: "gen_sys \<Rightarrow> TopologyRef \<Rightarrow> int" where
  "topology_dims s (SharedTopology ct) = gc_get_num_of_dimensions (gn_logical_topologies s ct)"
| "topology_dims s (OwnRing r) = 1"

fun topology_nodes :: "gen_sys \<Rightarrow> TopologyRef \<Rightarrow> int \<Rightarrow> int result" where
  "topology_nodes s (SharedTopology ct) d = gc_get_num_of_nodes_in_dimension (gn_logical_topologies s ct) d"
| "topology_nodes s (OwnRing r) d = Inr (ring_get_num_of_nodes_in_dimension r d)"

fun topology_basic :: "gen_sys \<Rightarrow> TopologyRef \<Rightarrow> int \<Rightarrow> (BasicLogicalTopology option \<times> gen_sys) result" where
  "topology_basic s (SharedTopology ct) d =
     rbind (gc_get_basic_topology_at_dimension (gn_logical_topologies s ct) d) (\<lambda>(t, ts).
       Inr (t, s\<lparr>gn_logical_topologies := (gn_logical_topologies s)(ct := ts)\<rparr>))"
| "topology_basic s (OwnRing r) d = Inr (Some (BasicRing r), s)"

text \<open>Reading \<^verbatim>\<open>xs[i]\<close>, undefined in the source when \<open>i\<close> is out of range.\<close>

definition at_index :: "'a list \<Rightarrow> int \<Rightarrow> string \<Rightarrow> 'a result" where
  "at_index xs i what = (if 0 \<le> i \<and> i < int (length xs) then Inr (xs ! nat i) else Inl (OutOfRange what))"

section \<open>Phases of a chunk\<close>

record gen_args =
  ga_topology :: TopologyRef
  ga_impls :: "CollectiveImpl list"
  ga_involved :: "bool list"
  ga_type :: ComType
  ga_priority :: int
  ga_recommended_chunk_size :: u64
  ga_dataset :: int

text \<open>A dimension gets a phase when it has several nodes and takes part in the collective.\<close>

definition dim_active :: "gen_args \<Rightarrow> gen_sys \<Rightarrow> int \<Rightarrow> bool result" where
  "dim_active a s d =
     rbind (topology_nodes s (ga_topology a) d) (\<lambda>n.
       if n = 1 then Inr False else at_index (ga_involved a) d ''dimensions_involved[dim]'')"

type_synonym allocator = "QueueLevelHandler list \<Rightarrow> int \<Rightarrow> ((int \<times> Direction) \<times> QueueLevelHandler list) result"

type_synonym phase_state = "gen_sys \<times> u64 \<times> CollectivePhase list"

definition push_phase ::
    "gen_env \<Rightarrow> gen_args \<Rightarrow> allocator \<Rightarrow> ComType \<Rightarrow> int \<Rightarrow> phase_state \<Rightarrow> phase_state result" where
  "push_phase env a alloc ct d = (\<lambda>(s, remain_size, vect).
     rbind (alloc (gn_vLevels s) d) (\<lambda>((queue_id, direction), levels).
     rbind (topology_basic (s\<lparr>gn_vLevels := levels\<rparr>) (ga_topology a) d) (\<lambda>(topology, s).
     rbind (at_index (ga_impls a) d ''implementation_per_dimension[dim]'') (\<lambda>impl.
     rbind (generate_collective_phase (ge_et_readable env) (ge_unset env) (gn_id s) ct topology remain_size
              queue_id direction Normal impl None) (\<lambda>phase.
       Inr (s, cp_final_data_size phase, vect @ [phase]))))))"

definition visit_dim ::
    "gen_env \<Rightarrow> gen_args \<Rightarrow> allocator \<Rightarrow> ComType \<Rightarrow> int \<Rightarrow> phase_state \<Rightarrow> phase_state result" where
  "visit_dim env a alloc ct d st =
     rbind (dim_active a (fst st) d) (\<lambda>active. if active then push_phase env a alloc ct d st else Inr st)"

definition baseline_phases :: "gen_env \<Rightarrow> gen_args \<Rightarrow> int list \<Rightarrow> phase_state \<Rightarrow> phase_state result" where
  "baseline_phases env a dims st =
     fold_result (visit_dim env a get_next_queue_at_level (ga_type a)) dims st"

definition greedy_phases :: "gen_env \<Rightarrow> gen_args \<Rightarrow> int list \<Rightarrow> phase_state \<Rightarrow> phase_state result" where
  "greedy_phases env a dims st =
     rbind (fold_result (visit_dim env a get_next_queue_at_level_first Reduce_Scatter) dims st) (\<lambda>st.
       fold_result (visit_dim env a get_next_queue_at_level_last All_Gather) (rev dims) st)"

text \<open>
  The hierarchical All-Reduce: \<open>last_active_dim\<close> is the search for the turning point, \<open>back_up\<close> the
  loop that moves it back over inactive dimensions.
\<close>

fun last_active_dim :: "gen_args \<Rightarrow> gen_sys \<Rightarrow> int list \<Rightarrow> nat \<Rightarrow> nat \<Rightarrow> nat result" where
  "last_active_dim a s [] i found = Inr found"
| "last_active_dim a s (d # ds) i found =
     rbind (dim_active a s d) (\<lambda>active. last_active_dim a s ds (Suc i) (if active then i else found))"

fun back_up :: "gen_args \<Rightarrow> gen_sys \<Rightarrow> int list \<Rightarrow> nat \<Rightarrow> nat result" where
  "back_up a s dims 0 = Inr 0"
| "back_up a s dims (Suc k) =
     rbind (dim_active a s (dims ! Suc k)) (\<lambda>active. if active then Inr (Suc k) else back_up a s dims k)"

definition visit_turning_point :: "gen_env \<Rightarrow> gen_args \<Rightarrow> int \<Rightarrow> phase_state \<Rightarrow> phase_state result" where
  "visit_turning_point env a d st =
     rbind (at_index (ga_involved a) d ''dimensions_involved[dim]'') (\<lambda>involved.
       if \<not> involved then Inr st
       else rbind (topology_nodes (fst st) (ga_topology a) d) (\<lambda>n.
              if n > 1 then push_phase env a get_next_queue_at_level_first All_Reduce d st else Inr st))"

definition hierarchical_phases :: "gen_env \<Rightarrow> gen_args \<Rightarrow> int list \<Rightarrow> phase_state \<Rightarrow> phase_state result" where
  "hierarchical_phases env a dims st =
     rbind (last_active_dim a (fst st) dims 0 0) (\<lambda>last_active.
     rbind (fold_result (visit_dim env a get_next_queue_at_level_first Reduce_Scatter) (take last_active dims) st) (\<lambda>st.
     rbind (back_up a (fst st) dims last_active) (\<lambda>turn.
     rbind (at_index dims (int turn) ''dim_mapper[dim]'') (\<lambda>d.
     rbind (visit_turning_point env a d st) (\<lambda>st.
       fold_result (visit_dim env a get_next_queue_at_level_last All_Gather) (rev (take turn dims)) st)))))"

definition is_offline_greedy :: "InterDimensionScheduling \<Rightarrow> bool" where
  "is_offline_greedy sched \<longleftrightarrow> sched = OfflineGreedy \<or> sched = OfflineGreedyFlex"

definition chunk_phases :: "gen_env \<Rightarrow> gen_args \<Rightarrow> int list \<Rightarrow> u64 \<Rightarrow> gen_sys \<Rightarrow> phase_state result" where
  "chunk_phases env a dim_mapper chunk_size s =
     (let n = nat (topology_dims s (ga_topology a)); dims = take n dim_mapper; st = (s, chunk_size, []) in
      if length dim_mapper < n then Inl (OutOfRange ''dim_mapper[dim]'')
      else if ga_type a \<noteq> All_Reduce \<or> gn_collectiveOptimization s = Baseline then baseline_phases env a dims st
      else if is_offline_greedy (gn_inter_dimension_scheduling s) \<or> gn_inter_dimension_scheduling s = OnlineGreedy
      then greedy_phases env a dims st
      else hierarchical_phases env a dims st)"

section \<open>The order of the dimensions\<close>

text \<open>
  \<^verbatim>\<open>std::rotate\<close> needs its middle inside the vector, which the counter only guarantees as long as it
  is used with topologies of one number of dimensions.
\<close>

definition round_robin_order :: "int list \<Rightarrow> gen_sys \<Rightarrow> (int list \<times> gen_sys) result" where
  "round_robin_order dim_mapper s =
     (let r = gn_round_robin_inter_dimension_scheduler s; n = int (length dim_mapper) in
      if r < 0 \<or> r > n then Inl (OutOfRange ''dim_mapper.begin() + round_robin_inter_dimension_scheduler'')
      else Inr (rotate (nat r) dim_mapper,
                s\<lparr>gn_round_robin_inter_dimension_scheduler := (if r + 1 = n then 0 else r + 1)\<rparr>))"

text \<open>The order for the next chunk, the size of the chunk and the data that remains after it.\<close>

definition next_chunk ::
    "gen_env \<Rightarrow> gen_args \<Rightarrow> u64 \<Rightarrow> u64 \<Rightarrow> gen_sys \<Rightarrow> (int list \<times> u64 \<times> u64 \<times> gen_sys) result" where
  "next_chunk env a sz chunk_size s =
     (let sched = gn_inter_dimension_scheduling s;
          dims = map int [0..<nat (topology_dims s (ga_topology a))];
          dim_mapper = (if ga_type a = All_Gather then rev dims else dims);
          rest = (if chunk_size > sz then 0 else sz - chunk_size)
      in if sched = RoundRobin then
           rbind (round_robin_order dim_mapper s) (\<lambda>(dim_mapper, s). Inr (dim_mapper, chunk_size, rest, s))
         else if ga_type a \<noteq> All_to_All \<and> is_offline_greedy sched then
           rbind (get_chunk_scheduling (ge_all_sys_size env) (gn_num_streams s) sz (ga_recommended_chunk_size a)
                    (ga_involved a) sched (ga_type a) (gn_offline_greedy s)) (\<lambda>(dim_mapper, sz', g).
             Inr (dim_mapper, sz - sz', sz', s\<lparr>gn_offline_greedy := g\<rparr>))
         else Inr (dim_mapper, chunk_size, rest, s))"

section \<open>Streams of a collective\<close>

definition new_stream_id :: "CommunicatorGroup option \<Rightarrow> gen_sys \<Rightarrow> int \<times> CommunicatorGroup option \<times> gen_sys" where
  "new_stream_id grp s =
     (let s' = s\<lparr>gn_num_streams := gn_num_streams s + 1\<rparr> in
      case grp of
        None \<Rightarrow> (gn_num_streams s, None, s')
      | Some g \<Rightarrow> (cg_num_streams g, Some (g\<lparr>cg_num_streams := cg_num_streams g + 1\<rparr>), s'))"

definition add_stream ::
    "gen_env \<Rightarrow> int \<Rightarrow> int \<Rightarrow> CollectivePhase list \<Rightarrow> CommunicatorGroup option \<Rightarrow> gen_sys \<Rightarrow>
     CommunicatorGroup option \<times> gen_sys" where
  "add_stream env dataset pri vect grp s =
     (let (stream_id, grp', s') = new_stream_id grp s;
          stream = (StreamBaseline_new (ge_unset env) (ge_now env) dataset stream_id vect pri)\<lparr>bs_current_queue_id := -1\<rparr>
      in (grp', s'\<lparr>gn_counters := count_stream stream_id (gn_counters s'),
                     gn_inserted := gn_inserted s' @ [stream]\<rparr>))"

record gen_loop =
  gl_sys :: gen_sys
  gl_group :: "CommunicatorGroup option"
  gl_size :: u64
  gl_chunk_size :: u64
  gl_count :: int
  gl_active :: bool

definition chunk_step :: "gen_env \<Rightarrow> gen_args \<Rightarrow> gen_loop \<Rightarrow> gen_loop result" where
  "chunk_step env a st =
     rbind (next_chunk env a (gl_size st) (gl_chunk_size st) (gl_sys st)) (\<lambda>(dim_mapper, chunk_size, sz, s).
     rbind (chunk_phases env a dim_mapper chunk_size s) (\<lambda>(s, remain_size, vect).
       let st' = st\<lparr>gl_size := sz, gl_chunk_size := chunk_size, gl_count := gl_count st + 1\<rparr> in
       if vect = [] then Inr (st'\<lparr>gl_sys := s, gl_active := False\<rparr>)
       else (let (grp, s) = add_stream env (ga_dataset a) (ga_priority a) vect (gl_group st) s
             in Inr (st'\<lparr>gl_sys := s, gl_group := grp\<rparr>))))"

text \<open>\<^verbatim>\<open>while (size > 0)\<close>; \<open>None\<close> when the loop does not end.\<close>

partial_function (option) chunk_loop :: "gen_env \<Rightarrow> gen_args \<Rightarrow> gen_loop \<Rightarrow> gen_loop result option" where
  "chunk_loop env a st =
     (if gl_size st = 0 then Some (Inr st)
      else case chunk_step env a st of
             Inl e \<Rightarrow> Some (Inl e)
           | Inr st' \<Rightarrow> if gl_active st' then chunk_loop env a st' else Some (Inr st'))"

text \<open>
  \<^verbatim>\<open>ceil(((double)size) / chunk_size)\<close>; the conversion of an infinite or undefined quotient to
  \<^verbatim>\<open>int\<close> has no defined value.
\<close>

definition stream_estimate :: "unset \<Rightarrow> u64 \<Rightarrow> u64 \<Rightarrow> int" where
  "stream_estimate u sz chunk_size =
     (if chunk_size = 0 then un_streams u
      else \<lceil>rat_of_int (uint sz) / rat_of_int (uint chunk_size)\<rceil>)"

definition reset_greedy :: "gen_env \<Rightarrow> gen_sys \<Rightarrow> gen_sys" where
  "reset_greedy env s =
     (if gn_id s = 0 \<and> is_offline_greedy (gn_inter_dimension_scheduling s) \<and>
         gn_last_scheduled_collective s \<noteq> ge_now env
      then s\<lparr>gn_offline_greedy := reset_loads (gn_offline_greedy s), gn_last_scheduled_collective := ge_now env\<rparr>
      else s)"

definition custom_collective ::
    "gen_env \<Rightarrow> gen_args \<Rightarrow> u64 \<Rightarrow> CollectiveImpl \<Rightarrow> CommunicatorGroup option \<Rightarrow> gen_sys \<Rightarrow>
     (CommunicatorGroup option \<times> gen_sys) result" where
  "custom_collective env a sz impl grp s =
     (let pos_in_comm = (case grp of None \<Rightarrow> gn_id s | Some g \<Rightarrow> get_position_in_group g) in
      rbind (generate_collective_phase (ge_et_readable env) (ge_unset env) (gn_id s) (ga_type a) None sz
               pos_in_comm Clockwise Normal impl grp) (\<lambda>phase.
        Inr (add_stream env (ga_dataset a) (ga_priority a) [phase] grp s)))"

definition generate_collective ::
    "gen_env \<Rightarrow> u64 \<Rightarrow> TopologyRef \<Rightarrow> CollectiveImpl list \<Rightarrow> bool list \<Rightarrow> ComType \<Rightarrow> int \<Rightarrow>
     CommunicatorGroup option \<Rightarrow> gen_sys \<Rightarrow> ('c DataSet \<times> CommunicatorGroup option \<times> gen_sys) result option" where
  "generate_collective env sz topology impls involved ct explicit_priority grp s =
     (case rbind (determine_chunk_size s sz ct) (\<lambda>(chunk_size, sz).
           rbind (get_priority explicit_priority s) (\<lambda>(pri, s).
           rbind (at_index impls 0 ''implementation_per_dimension[0]'') (\<lambda>impl.
             Inr (chunk_size, sz, pri, s, impl)))) of
        Inl e \<Rightarrow> Some (Inl e)
      | Inr (chunk_size, sz, pri, s, impl) \<Rightarrow>
          (let dsid = gn_next_dataset_id s;
               dataset = DataSet_new dsid (stream_estimate (ge_unset env) sz chunk_size) (ge_now env);
               s = reset_greedy env (s\<lparr>gn_next_dataset_id := dsid + 1\<rparr>);
               a = \<lparr>ga_topology = topology, ga_impls = impls, ga_involved = involved, ga_type = ct,
                    ga_priority = pri, ga_recommended_chunk_size = chunk_size, ga_dataset = dsid\<rparr>
           in if ci_type impl = CustomCollectiveImpl then
                Some (rbind (custom_collective env a sz impl grp s) (\<lambda>(grp, s). Inr (dataset, grp, s)))
              else
                map_option (\<lambda>r. rbind r (\<lambda>st.
                    Inr (if gl_active st then dataset\<lparr>ds_total_streams := gl_count st\<rparr> else dataset\<lparr>ds_active := False\<rparr>,
                         gl_group st, gl_sys st)))
                  (chunk_loop env a \<lparr>gl_sys = s, gl_group = grp, gl_size = sz, gl_chunk_size = chunk_size,
                                     gl_count = 0, gl_active = True\<rparr>)))"

section \<open>The four collectives\<close>

definition generate_for ::
    "ComType \<Rightarrow> gen_env \<Rightarrow> u64 \<Rightarrow> bool list \<Rightarrow> CommunicatorGroup option \<Rightarrow> int \<Rightarrow> u64 \<Rightarrow> gen_sys \<Rightarrow>
     ('c DataSet \<times> CommunicatorGroup option \<times> gen_sys) result option" where
  "generate_for ct env sz involved_dimensions communicator_group explicit_priority workload_node_id s =
     (case communicator_group of
        None \<Rightarrow>
          (case get_collective_impl (gn_collective_impl_lookup s) ct workload_node_id NO_BYPASS of
             Inl e \<Rightarrow> Some (Inl e)
           | Inr impls \<Rightarrow>
               generate_collective env sz (SharedTopology ct) impls involved_dimensions ct explicit_priority None s)
      | Some g \<Rightarrow>
          (case get_collective_plan (gn_id s) (gn_total_nodes s) (gn_collective_impl_lookup s) ct workload_node_id g of
             Inl e \<Rightarrow> Some (Inl e)
           | Inr (plan, g') \<Rightarrow>
               generate_collective env sz (pl_topology plan) (pl_implementation_per_dimension plan)
                 (pl_dimensions_involved plan) ct explicit_priority (Some g') s))"

definition generate_all_reduce where "generate_all_reduce = generate_for All_Reduce"

definition generate_all_to_all where "generate_all_to_all = generate_for All_to_All"

definition generate_all_gather where "generate_all_gather = generate_for All_Gather"

definition generate_reduce_scatter where "generate_reduce_scatter = generate_for Reduce_Scatter"

end
