(* ===== verification/Generated_Phases.thy ===== *)
theory Generated_Phases
  imports Collective_Generation
begin

text \<open>
  What the generation of collectives produces on topologies made of rings: the phases of a chunk and
  their sizes, the streams of a collective, and the cases in which no stream ever completes the
  data set.
\<close>

section \<open>Systems of rings\<close>

definition ring_impl_type :: "CollectiveImplType \<Rightarrow> bool" where
  "ring_impl_type ty \<longleftrightarrow> ty = ImplRing \<or> ty = OneRing \<or> ty = Direct \<or> ty = OneDirect"

definition topology_rings :: "gen_args \<Rightarrow> gen_sys \<Rightarrow> RingTopology list \<Rightarrow> bool" where
  "topology_rings a s rs \<longleftrightarrow>
     (case ga_topology a of
        SharedTopology ct \<Rightarrow> gn_logical_topologies s ct = map DimRing rs
      | OwnRing r \<Rightarrow> rs = [r])"

text \<open>
  Every dimension has a well-formed ring around the node, of a size that a 64-bit word can hold, an
  implementation that runs on rings, and a level of queues.
\<close>

definition ring_system :: "gen_args \<Rightarrow> gen_sys \<Rightarrow> RingTopology list \<Rightarrow> bool" where
  "ring_system a s rs \<longleftrightarrow> topology_rings a s rs \<and> rs \<noteq> [] \<and>
     (\<forall>r\<in>set rs. ring_wf r \<and> rt_id r = gn_id s \<and> ring_size r < 2 ^ 63) \<and>
     length rs \<le> length (ga_impls a) \<and> (\<forall>c\<in>set (ga_impls a). ring_impl_type (ci_type c)) \<and>
     length rs \<le> length (ga_involved a) \<and> length rs \<le> length (gn_vLevels s)"

definition active :: "gen_args \<Rightarrow> RingTopology list \<Rightarrow> nat \<Rightarrow> bool" where
  "active a rs d \<longleftrightarrow> ring_size (rs ! d) \<noteq> 1 \<and> ga_involved a ! d"

text \<open>The data a node holds after a phase on a ring.\<close>

definition data_after :: "ComType \<Rightarrow> nat \<Rightarrow> u64 \<Rightarrow> u64" where
  "data_after ct n c =
     (case ct of Reduce_Scatter \<Rightarrow> c div of_nat n | All_Gather \<Rightarrow> c * of_nat n | _ \<Rightarrow> c)"

fun phase_ring :: "Algorithm option \<Rightarrow> RingTopology option" where
  "phase_ring (Some (AlgRing r)) = Some (rg_logical_topo r)"
| "phase_ring _ = None"

text \<open>A list of phases carries out a list of steps, each a collective on a dimension.\<close>

fun phases_for ::
    "RingTopology list \<Rightarrow> u64 \<Rightarrow> (ComType \<times> nat) list \<Rightarrow> CollectivePhase list \<Rightarrow> u64 \<Rightarrow> bool" where
  "phases_for rs c [] [] c' \<longleftrightarrow> c' = c"
| "phases_for rs c ((ct, d) # steps) (p # ps) c' \<longleftrightarrow>
     cp_comm_type p = ct \<and> phase_ring (cp_algorithm p) = Some (rs ! d) \<and> cp_enabled p \<and>
     cp_initial_data_size p = c \<and> cp_final_data_size p = data_after ct (ring_size (rs ! d)) c \<and>
     phases_for rs (cp_final_data_size p) steps ps c'"
| "phases_for rs c _ _ c' \<longleftrightarrow> False"

lemma phases_for_append:
  assumes "phases_for rs c steps ps c1" and "phases_for rs c1 steps' ps' c2"
  shows "phases_for rs c (steps @ steps') (ps @ ps') c2"
  using assms by (induction rs c steps ps c1 rule: phases_for.induct) auto

lemma phases_for_length: "phases_for rs c steps ps c' \<Longrightarrow> length ps = length steps"
  by (induction rs c steps ps c' rule: phases_for.induct) auto

definition basic_type :: "ComType \<Rightarrow> bool" where
  "basic_type ct \<longleftrightarrow> ct = Reduce_Scatter \<or> ct = All_Gather \<or> ct = All_Reduce \<or> ct = All_to_All"

section \<open>One phase\<close>

definition good_alloc :: "allocator \<Rightarrow> bool" where
  "good_alloc alloc \<longleftrightarrow> (\<forall>levels d. 0 \<le> d \<and> d < int (length levels) \<longrightarrow>
     (\<exists>q dir levels'. alloc levels d = Inr ((q, dir), levels') \<and> length levels' = length levels))"

lemma good_alloc_at_level [simp]:
  "good_alloc (at_level f)"
  by (auto simp: good_alloc_def at_level_def split: prod.split)

lemma good_allocs [simp]:
  "good_alloc get_next_queue_at_level" "good_alloc get_next_queue_at_level_first"
  "good_alloc get_next_queue_at_level_last"
  by (simp_all add: get_next_queue_at_level_def get_next_queue_at_level_first_def get_next_queue_at_level_last_def)

lemma u64_of_nat [simp]: "u64_of_int (int n) = of_nat n"
  by (simp add: u64_of_int_def)

lemma of_nat_small_neq_0:
  assumes "0 < n" and "n < 2 ^ 63"
  shows "(of_nat n :: u64) \<noteq> 0"
proof
  assume "(of_nat n :: u64) = 0"
  then have "unat (of_nat n :: u64) = 0" by simp
  moreover have "unat (of_nat n :: u64) = n"
    using assms by (simp add: unat_of_nat)
  ultimately show False using assms by simp
qed

lemma ring_neighbours_exist:
  assumes "ring_wf r"
  shows "\<exists>x. get_receiver r (rt_id r) dir = Inr x" "\<exists>x. get_sender r (rt_id r) dir = Inr x"
proof -
  have "rt_id r \<in> ring_members r"
    by (rule ring_own_index(1) [OF assms])
  then obtain k where "k < ring_size r" "rt_id r = ring_at r k"
    using ring_members_image [OF assms] by auto
  then show "\<exists>x. get_receiver r (rt_id r) dir = Inr x" "\<exists>x. get_sender r (rt_id r) dir = Inr x"
    using get_receiver_at [OF assms] by (cases dir; simp)+
qed

lemma Ring_new_ok:
  assumes "ring_wf r" and "rt_id r = nid" and "ring_size r < 2 ^ 63" and "basic_type ct"
  shows "\<exists>g. Ring_new ct nid r c dir pol u = Inr g \<and> rg_comType g = ct \<and> rg_logical_topo g = r \<and>
    rg_data_size g = c \<and> rg_final_data_size g = data_after ct (ring_size r) c"
proof -
  obtain x y where xy: "get_receiver r nid dir = Inr x" "get_sender r nid dir = Inr y"
    using ring_neighbours_exist [OF assms(1)] assms(2) by metis
  have n: "u64_of_int (get_nodes_in_ring r) = of_nat (ring_size r)"
    using assms(1) by (simp add: get_nodes_in_ring_def u64_of_int_def flip: ring_wf_size)
  have "(of_nat (ring_size r) :: u64) \<noteq> 0"
    using of_nat_small_neq_0 assms(3) ring_wf_size_pos [OF assms(1)] by blast
  then obtain f m where "ring_sizes ct c (get_nodes_in_ring r) u = Inr (f, m)" "f = data_after ct (ring_size r) c"
    using assms(4) unfolding basic_type_def
    by (auto simp: ring_sizes_def data_after_def n Let_def)
  then show ?thesis
    by (simp add: Ring_new_def Let_def xy)
qed

lemma AllToAll_new_ok:
  assumes "ring_wf r" and "rt_id r = nid" and "ring_size r < 2 ^ 63" and "basic_type ct"
  shows "\<exists>g. AllToAll_new ct w nid r c dir pol u = Inr g \<and> rg_comType g = ct \<and> rg_logical_topo g = r \<and>
    rg_data_size g = c \<and> rg_final_data_size g = data_after ct (ring_size r) c"
proof -
  obtain g where "Ring_new ct nid r c dir pol u = Inr g" "rg_comType g = ct" "rg_logical_topo g = r"
    "rg_data_size g = c" "rg_final_data_size g = data_after ct (ring_size r) c"
    using Ring_new_ok [OF assms] by blast
  then show ?thesis by (simp add: AllToAll_new_def Let_def)
qed

lemma ring_phase_ok:
  assumes "ring_wf r" and "rt_id r = nid" and "ring_size r < 2 ^ 63" and "basic_type ct"
    and "ring_impl_type (ci_type impl)"
  shows "\<exists>p. generate_collective_phase et u nid ct (Some (BasicRing r)) c q dir pol impl grp = Inr p \<and>
    cp_comm_type p = ct \<and> phase_ring (cp_algorithm p) = Some r \<and> cp_enabled p \<and>
    cp_initial_data_size p = c \<and> cp_final_data_size p = data_after ct (ring_size r) c"
proof -
  consider "ci_type impl = ImplRing \<or> ci_type impl = OneRing" | "ci_type impl = Direct \<or> ci_type impl = OneDirect"
    using assms(5) by (auto simp: ring_impl_type_def)
  then show ?thesis
  proof cases
    case 1
    obtain g where "Ring_new ct nid r c dir pol (un_ring_sizes u) = Inr g" "rg_comType g = ct"
      "rg_logical_topo g = r" "rg_data_size g = c" "rg_final_data_size g = data_after ct (ring_size r) c"
      using Ring_new_ok [OF assms(1-4)] by blast
    with 1 show ?thesis
      by (auto simp: generate_collective_phase_def CollectivePhase_new_def alg_enabled_def Let_def)
  next
    case 2
    obtain g where "AllToAll_new ct (ci_direct_collective_window impl) nid r c dir Normal (un_ring_sizes u) = Inr g"
      "rg_comType g = ct" "rg_logical_topo g = r" "rg_data_size g = c"
      "rg_final_data_size g = data_after ct (ring_size r) c"
      using AllToAll_new_ok [OF assms(1-4)] by blast
    with 2 show ?thesis
      by (auto simp: generate_collective_phase_def CollectivePhase_new_def alg_enabled_def Let_def)
  qed
qed

text \<open>Generation changes nothing but the cursors of the queue levels.\<close>

definition same_sys :: "gen_sys \<Rightarrow> gen_sys \<Rightarrow> bool" where
  "same_sys s s' \<longleftrightarrow> (\<exists>levels. length levels = length (gn_vLevels s) \<and> s' = s\<lparr>gn_vLevels := levels\<rparr>)"

lemma same_sys_refl [simp]: "same_sys s s"
  unfolding same_sys_def by (rule exI [of _ "gn_vLevels s"]) simp

lemma same_sys_trans: "same_sys s s1 \<Longrightarrow> same_sys s1 s2 \<Longrightarrow> same_sys s s2"
  by (auto simp: same_sys_def)

lemma same_sys_ring_system: "same_sys s s' \<Longrightarrow> ring_system a s rs \<Longrightarrow> ring_system a s' rs"
  by (auto simp: same_sys_def ring_system_def topology_rings_def split: TopologyRef.splits)

lemma ring_system_topology:
  assumes "ring_system a s rs" and "d < length rs"
  shows "topology_basic s (ga_topology a) (int d) = Inr (Some (BasicRing (rs ! d)), s)"
    and "topology_nodes s (ga_topology a) (int d) = Inr (int (ring_size (rs ! d)))"
proof -
  have wf: "ring_wf (rs ! d)" and rings: "topology_rings a s rs"
    using assms by (auto simp: ring_system_def)
  show "topology_basic s (ga_topology a) (int d) = Inr (Some (BasicRing (rs ! d)), s)"
  proof (cases "ga_topology a")
    case (SharedTopology ct)
    have "s\<lparr>gn_logical_topologies := (gn_logical_topologies s)(ct := map DimRing rs)\<rparr> = s"
      using rings SharedTopology by (simp add: topology_rings_def fun_upd_idem)
    moreover have "(map DimRing rs)[d := DimRing (rs ! d)] = map DimRing rs"
      using assms(2) by (simp add: list_update_same_conv)
    ultimately show ?thesis
      using rings SharedTopology assms(2)
      by (simp add: topology_rings_def gc_get_basic_topology_at_dimension_def)
  next
    case (OwnRing r)
    then show ?thesis using rings assms(2) by (simp add: topology_rings_def)
  qed
  show "topology_nodes s (ga_topology a) (int d) = Inr (int (ring_size (rs ! d)))"
    using rings assms(2) wf
    by (cases "ga_topology a")
      (auto simp: topology_rings_def gc_get_num_of_nodes_in_dimension_def
        ring_get_num_of_nodes_in_dimension_def get_nodes_in_ring_def)
qed

lemma push_phase_ok:
  assumes "ring_system a s rs" and "d < length rs" and "basic_type ct" and "good_alloc alloc"
  shows "\<exists>s' p. push_phase env a alloc ct (int d) (s, c, v) = Inr (s', cp_final_data_size p, v @ [p]) \<and>
    same_sys s s' \<and> phases_for rs c [(ct, d)] [p] (cp_final_data_size p)"
proof -
  have "int d < int (length (gn_vLevels s))"
    using assms(1,2) by (simp add: ring_system_def)
  then obtain q dir levels where al: "alloc (gn_vLevels s) (int d) = Inr ((q, dir), levels)"
    and len: "length levels = length (gn_vLevels s)"
    using assms(4) unfolding good_alloc_def by (metis of_nat_0_le_iff)
  let ?s = "s\<lparr>gn_vLevels := levels\<rparr>"
  have same: "same_sys s ?s"
    using len by (auto simp: same_sys_def)
  then have sys: "ring_system a ?s rs"
    using assms(1) by (rule same_sys_ring_system)
  note top = ring_system_topology(1) [OF sys assms(2)]
  have impl: "at_index (ga_impls a) (int d) w = Inr (ga_impls a ! d)" "ring_impl_type (ci_type (ga_impls a ! d))" for w
    using assms(1,2) by (auto simp: ring_system_def at_index_def)
  have ring: "ring_wf (rs ! d)" "rt_id (rs ! d) = gn_id s" "ring_size (rs ! d) < 2 ^ 63"
    using assms(1,2) by (auto simp: ring_system_def)
  obtain p where "generate_collective_phase (ge_et_readable env) (ge_unset env) (gn_id s) ct
      (Some (BasicRing (rs ! d))) c q dir Normal (ga_impls a ! d) None = Inr p"
    "cp_comm_type p = ct" "phase_ring (cp_algorithm p) = Some (rs ! d)" "cp_enabled p"
    "cp_initial_data_size p = c" "cp_final_data_size p = data_after ct (ring_size (rs ! d)) c"
    using ring_phase_ok [OF ring assms(3) impl(2)] by blast
  then show ?thesis
    using same by (auto simp: push_phase_def al top impl(1))
qed

section \<open>Visiting dimensions\<close>

lemma dim_active_ok:
  assumes "ring_system a s rs" and "d < length rs"
  shows "dim_active a s (int d) = Inr (active a rs d)"
proof -
  have "d < length (ga_involved a)"
    using assms by (simp add: ring_system_def)
  then show ?thesis
    by (simp add: dim_active_def active_def at_index_def ring_system_topology(2) [OF assms] del: ring_wf_size)
qed

lemma visit_dims_ok:
  assumes "ring_system a s rs" and "set ds \<subseteq> {..<length rs}" and "basic_type ct" and "good_alloc alloc"
  shows "\<exists>s' c' ps. fold_result (visit_dim env a alloc ct) (map int ds) (s, c, v) = Inr (s', c', v @ ps) \<and>
    same_sys s s' \<and> phases_for rs c (map (Pair ct) (filter (active a rs) ds)) ps c'"
  using assms(1,2)
proof (induction ds arbitrary: s c v)
  case Nil
  then show ?case by (intro exI [of _ s] exI [of _ c] exI [of _ "[]"]) simp
next
  case (Cons d ds)
  then have d: "d < length rs" by simp
  note act = dim_active_ok [OF Cons.prems(1) d]
  show ?case
  proof (cases "active a rs d")
    case False
    then show ?thesis
      using Cons act by (simp add: visit_dim_def)
  next
    case True
    obtain s1 p where p: "push_phase env a alloc ct (int d) (s, c, v) = Inr (s1, cp_final_data_size p, v @ [p])"
      "same_sys s s1" "phases_for rs c [(ct, d)] [p] (cp_final_data_size p)"
      using push_phase_ok [OF Cons.prems(1) d assms(3,4)] by blast
    obtain s2 c2 ps where r: "fold_result (visit_dim env a alloc ct) (map int ds)
        (s1, cp_final_data_size p, v @ [p]) = Inr (s2, c2, (v @ [p]) @ ps)" "same_sys s1 s2"
      "phases_for rs (cp_final_data_size p) (map (Pair ct) (filter (active a rs) ds)) ps c2"
      using Cons.IH [OF same_sys_ring_system [OF p(2) Cons.prems(1)],
          of "cp_final_data_size p" "v @ [p]"] Cons.prems(2) by (simp only: list.set insert_subset) blast
    have "phases_for rs c (map (Pair ct) (filter (active a rs) (d # ds))) (p # ps) c2"
      using phases_for_append [OF p(3) r(3)] True by (simp del: phases_for.simps)
    moreover have "same_sys s s2"
      using p(2) r(2) by (rule same_sys_trans)
    moreover have "fold_result (visit_dim env a alloc ct) (map int (d # ds)) (s, c, v) = Inr (s2, c2, v @ p # ps)"
      using p(1) r(1) act True by (simp add: visit_dim_def)
    ultimately show ?thesis by blast
  qed
qed

section \<open>The hierarchical All-Reduce\<close>

text \<open>Reduce-Scatter inwards, All-Reduce on the last active dimension, All-Gather outwards.\<close>

definition hierarchical_steps :: "nat list \<Rightarrow> (ComType \<times> nat) list" where
  "hierarchical_steps ds = map (Pair Reduce_Scatter) (butlast ds) @
     (if ds = [] then [] else [(All_Reduce, last ds)]) @ map (Pair All_Gather) (rev (butlast ds))"

lemma last_active_append:
  "last_active_dim a s (xs @ [d]) i f =
     rbind (last_active_dim a s xs i f) (\<lambda>k. rbind (dim_active a s d) (\<lambda>act.
       Inr (if act then i + length xs else k)))"
proof (induction xs arbitrary: i f)
  case Nil
  then show ?case by (cases "dim_active a s d") simp_all
next
  case (Cons x xs)
  then show ?case by (cases "dim_active a s x") (simp_all cong: if_cong)
qed

text \<open>The turning point: the last active dimension, or the first one when none is active.\<close>

definition turning_point :: "(nat \<Rightarrow> bool) \<Rightarrow> nat list \<Rightarrow> nat \<Rightarrow> bool" where
  "turning_point P ds k \<longleftrightarrow>
     (if filter P ds = [] then k = 0
      else k < length ds \<and> P (ds ! k) \<and> ds ! k = last (filter P ds) \<and>
           filter P (take k ds) = butlast (filter P ds))"

lemma last_active_dim_ok:
  assumes "ring_system a s rs" and "set ds \<subseteq> {..<length rs}"
  shows "\<exists>k. last_active_dim a s (map int ds) 0 0 = Inr k \<and> turning_point (active a rs) ds k"
  using assms(2)
proof (induction ds rule: rev_induct)
  case Nil
  then show ?case by (simp add: turning_point_def)
next
  case (snoc d ds)
  then obtain k where k: "last_active_dim a s (map int ds) 0 0 = Inr k" "turning_point (active a rs) ds k"
    by auto
  have act: "dim_active a s (int d) = Inr (active a rs d)"
    using dim_active_ok [OF assms(1)] snoc.prems by simp
  show ?case
  proof (cases "active a rs d")
    case True
    then show ?thesis
      using k(1) act by (simp add: last_active_append turning_point_def)
  next
    case False
    have "turning_point (active a rs) (ds @ [d]) k"
      using k(2) False by (auto simp: turning_point_def nth_append split: if_splits)
    then show ?thesis
      using k(1) act False by (simp add: last_active_append)
  qed
qed

lemma back_up_ok:
  assumes "ring_system a s rs" and "set ds \<subseteq> {..<length rs}" and "turning_point (active a rs) ds k"
  shows "back_up a s (map int ds) k = Inr k"
proof (cases k)
  case (Suc j)
  then have "k < length ds" "active a rs (ds ! k)"
    using assms(3) by (auto simp: turning_point_def split: if_splits)
  moreover from this have "ds ! k < length rs"
    using assms(2) nth_mem by blast
  ultimately show ?thesis
    using Suc dim_active_ok [OF assms(1), of "ds ! k"] by simp
qed simp

lemma turning_phase_ok:
  assumes "ring_system a s rs" and "d < length rs"
  shows "\<exists>s' c' ps. visit_turning_point env a (int d) (s, c, v) = Inr (s', c', v @ ps) \<and> same_sys s s' \<and>
    phases_for rs c (if active a rs d then [(All_Reduce, d)] else []) ps c'"
proof -
  have inv: "at_index (ga_involved a) (int d) w = Inr (ga_involved a ! d)" for w
    using assms by (simp add: ring_system_def at_index_def)
  have "ring_wf (rs ! d)"
    using assms by (simp add: ring_system_def)
  then have pos: "0 < ring_size (rs ! d)"
    by (rule ring_wf_size_pos)
  note nodes = ring_system_topology(2) [OF assms]
  show ?thesis
  proof (cases "active a rs d")
    case True
    then have "1 < int (ring_size (rs ! d))" "ga_involved a ! d"
      using pos by (simp_all add: active_def del: ring_wf_size)
    moreover obtain s' p where
      "push_phase env a get_next_queue_at_level_first All_Reduce (int d) (s, c, v) =
         Inr (s', cp_final_data_size p, v @ [p])" "same_sys s s'"
      "phases_for rs c [(All_Reduce, d)] [p] (cp_final_data_size p)"
      using push_phase_ok [OF assms, of All_Reduce get_next_queue_at_level_first env c v]
      by (auto simp: basic_type_def)
    ultimately show ?thesis
      using True by (auto simp: visit_turning_point_def inv nodes simp del: ring_wf_size phases_for.simps)
  next
    case False
    then have "visit_turning_point env a (int d) (s, c, v) = Inr (s, c, v)"
      using pos by (auto simp: visit_turning_point_def inv nodes active_def simp del: ring_wf_size)
    then show ?thesis
      using False by (intro exI [of _ s] exI [of _ c] exI [of _ "[]"]) simp
  qed
qed

lemma hierarchical_phases_ok:
  assumes "ring_system a s rs" and "set ds \<subseteq> {..<length rs}" and "ds \<noteq> []"
  shows "\<exists>s' c' ps. hierarchical_phases env a (map int ds) (s, c, []) = Inr (s', c', ps) \<and> same_sys s s' \<and>
    phases_for rs c (hierarchical_steps (filter (active a rs) ds)) ps c'"
proof -
  let ?A = "filter (active a rs) ds"
  obtain k where k: "last_active_dim a s (map int ds) 0 0 = Inr k" "turning_point (active a rs) ds k"
    using last_active_dim_ok [OF assms(1,2)] by blast
  have klen: "k < length ds"
    using k(2) assms(3) by (auto simp: turning_point_def split: if_splits)
  then have d: "ds ! k < length rs"
    using assms(2) nth_mem by fastforce
  have inner: "filter (active a rs) (take k ds) = butlast ?A"
    using k(2) by (auto simp: turning_point_def split: if_splits)
  have sub: "set (take k ds) \<subseteq> {..<length rs}"
    using assms(2) set_take_subset [of k ds] by blast
  obtain s1 c1 p1 where 1: "fold_result (visit_dim env a get_next_queue_at_level_first Reduce_Scatter)
      (map int (take k ds)) (s, c, []) = Inr (s1, c1, [] @ p1)" "same_sys s s1"
    "phases_for rs c (map (Pair Reduce_Scatter) (butlast ?A)) p1 c1"
    using visit_dims_ok [OF assms(1) sub, of Reduce_Scatter get_next_queue_at_level_first env c "[]"]
    unfolding inner by (auto simp: basic_type_def)
  have sys1: "ring_system a s1 rs"
    by (rule same_sys_ring_system [OF 1(2) assms(1)])
  obtain s2 c2 p2 where 2: "visit_turning_point env a (int (ds ! k)) (s1, c1, p1) = Inr (s2, c2, p1 @ p2)"
    "same_sys s1 s2" "phases_for rs c1 (if active a rs (ds ! k) then [(All_Reduce, ds ! k)] else []) p2 c2"
    using turning_phase_ok [OF sys1 d] by blast
  have turn: "(if active a rs (ds ! k) then [(All_Reduce, ds ! k)] else []) =
      (if ?A = [] then [] else [(All_Reduce, last ?A)])"
    using k(2) klen by (auto simp: turning_point_def filter_empty_conv split: if_splits)
  have sys2: "ring_system a s2 rs"
    by (rule same_sys_ring_system [OF 2(2) sys1])
  have sub': "set (rev (take k ds)) \<subseteq> {..<length rs}"
    using sub by simp
  obtain s3 c3 p3 where 3: "fold_result (visit_dim env a get_next_queue_at_level_last All_Gather)
      (map int (rev (take k ds))) (s2, c2, p1 @ p2) = Inr (s3, c3, (p1 @ p2) @ p3)" "same_sys s2 s3"
    "phases_for rs c2 (map (Pair All_Gather) (rev (butlast ?A))) p3 c3"
    using visit_dims_ok [OF sys2 sub', of All_Gather get_next_queue_at_level_last env c2 "p1 @ p2"]
    by (auto simp: basic_type_def inner simp flip: rev_filter)
  have "phases_for rs c (hierarchical_steps ?A) (p1 @ p2 @ p3) c3"
    unfolding hierarchical_steps_def
    by (rule phases_for_append [OF 1(3) phases_for_append [OF 2(3) [unfolded turn] 3(3)]])
  moreover have "same_sys s s3"
    using 1(2) 2(2) 3(2) same_sys_trans by blast
  moreover have "hierarchical_phases env a (map int ds) (s, c, []) = Inr (s3, c3, p1 @ p2 @ p3)"
    using k(1) 1(1) 2(1) 3(1) back_up_ok [OF sys1 assms(2) k(2)] klen
    by (simp add: hierarchical_phases_def at_index_def take_map rev_map)
  ultimately show ?thesis by blast
qed

section \<open>Sizes along the phases\<close>

lemma phases_for_data:
  assumes "phases_for rs c steps ps c'"
  shows "c' = foldl (\<lambda>c (ct, d). data_after ct (ring_size (rs ! d)) c) c steps"
  using assms by (induction rs c steps ps c' rule: phases_for.induct) auto

lemma word_of_nat_unat_self: "of_nat (unat c) = (c :: u64)"
  by simp

lemma unat_div_of_nat:
  fixes c :: u64
  assumes "n < 2 ^ 63"
  shows "unat (c div of_nat n) = unat c div n"
  using assms by (simp add: unat_div unat_of_nat)

lemma scatter_data:
  assumes "\<forall>d\<in>set ds. ring_size (rs ! d) < 2 ^ 63"
  shows "unat (foldl (\<lambda>c (ct, d). data_after ct (ring_size (rs ! d)) c) c (map (Pair Reduce_Scatter) ds)) =
    unat c div prod_list (map (\<lambda>d. ring_size (rs ! d)) ds)"
  using assms
proof (induction ds arbitrary: c)
  case (Cons d ds)
  then show ?case
    by (simp add: data_after_def unat_div_of_nat div_mult2_eq)
qed simp

lemma gather_data:
  "foldl (\<lambda>c (ct, d). data_after ct (ring_size (rs ! d)) c) c (map (Pair All_Gather) ds) =
    c * of_nat (prod_list (map (\<lambda>d. ring_size (rs ! d)) ds))"
  by (induction ds arbitrary: c) (simp_all add: data_after_def mult.assoc)

lemma prod_list_rev [simp]: "prod_list (rev xs) = (prod_list xs :: nat)"
  by (induction xs) simp_all

lemma hierarchical_data:
  assumes "phases_for rs c (hierarchical_steps ds) ps c'" and "\<forall>d\<in>set ds. ring_size (rs ! d) < 2 ^ 63"
    and "prod_list (map (\<lambda>d. ring_size (rs ! d)) (butlast ds)) dvd unat c"
  shows "c' = c"
proof -
  let ?f = "\<lambda>c (ct, d). data_after ct (ring_size (rs ! d)) c"
  let ?n = "prod_list (map (\<lambda>d. ring_size (rs ! d)) (butlast ds))"
  define c1 where "c1 = foldl ?f c (map (Pair Reduce_Scatter) (butlast ds))"
  have c1: "unat c1 = unat c div ?n"
    unfolding c1_def by (rule scatter_data) (use assms(2) in \<open>auto dest: in_set_butlastD\<close>)
  have "c' = foldl ?f c1 (map (Pair All_Gather) (rev (butlast ds)))"
    using phases_for_data [OF assms(1)] by (auto simp: hierarchical_steps_def c1_def data_after_def split: if_splits)
  also have "\<dots> = of_nat (unat c1) * of_nat ?n"
    by (subst gather_data) (simp only: rev_map [symmetric] prod_list_rev word_of_nat_unat_self)
  also have "\<dots> = of_nat (unat c1 * ?n)"
    by simp
  also have "\<dots> = c"
    using assms(3) by (simp only: c1 dvd_div_mult_self word_of_nat_unat_self)
  finally show ?thesis .
qed

text \<open>
  \<^bold>\<open>C26\<close>. \<^emph>\<open>The phases of an All-Reduce.\<close> On a system of rings, with the bandwidth-aware optimisation and a
  scheduling that is not greedy, a chunk of an All-Reduce gets, in whichever order the dimensions
  are mapped, exactly these phases: Reduce-Scatter on the active dimensions but the last, All-Reduce
  on the last active one, All-Gather back in reverse, each on the ring of its dimension and with the
  data that the phase before it leaves. Nothing else of the system changes but the queue cursors. When
  the sizes of the inner dimensions divide the chunk, the stream ends with as much data as it started.
\<close>

theorem all_reduce_phases:
  assumes "ring_system a s rs" and "ga_type a = All_Reduce" and "gn_collectiveOptimization s \<noteq> Baseline"
    and "gn_inter_dimension_scheduling s = Ascending \<or> gn_inter_dimension_scheduling s = RoundRobin"
    and "distinct ds" and "set ds = {..<length rs}"
  shows "\<exists>s' c' ps. chunk_phases env a (map int ds) c s = Inr (s', c', ps) \<and> same_sys s s' \<and>
    phases_for rs c (hierarchical_steps (filter (active a rs) ds)) ps c' \<and>
    (prod_list (map (\<lambda>d. ring_size (rs ! d)) (butlast (filter (active a rs) ds))) dvd unat c \<longrightarrow> c' = c)"
proof -
  have dims: "nat (topology_dims s (ga_topology a)) = length rs" and "rs \<noteq> []"
    using assms(1)
    by (auto simp: ring_system_def topology_rings_def gc_get_num_of_dimensions_def split: TopologyRef.splits)
  have len: "length ds = length rs"
    using assms(5,6) by (metis card_lessThan distinct_card)
  then have "ds \<noteq> []" using \<open>rs \<noteq> []\<close> by auto
  then obtain s' c' ps where h: "hierarchical_phases env a (map int ds) (s, c, []) = Inr (s', c', ps)"
    "same_sys s s'" "phases_for rs c (hierarchical_steps (filter (active a rs) ds)) ps c'"
    using hierarchical_phases_ok [OF assms(1)] assms(6) by blast
  have "chunk_phases env a (map int ds) c s = Inr (s', c', ps)"
    using h(1) dims len assms(2-4) by (auto simp: chunk_phases_def is_offline_greedy_def Let_def)
  moreover have "\<forall>d\<in>set (filter (active a rs) ds). ring_size (rs ! d) < 2 ^ 63"
    using assms(1,6) by (auto simp: ring_system_def)
  ultimately show ?thesis
    using h hierarchical_data by blast
qed

section \<open>Phases of a chunk in general\<close>

text \<open>A chunk has phases as soon as one dimension is active, whatever the collective.\<close>

lemma chunk_phases_ok:
  assumes "ring_system a s rs" and "basic_type (ga_type a)" and "distinct ds" and "set ds = {..<length rs}"
  shows "\<exists>s' c' ps. chunk_phases env a (map int ds) c s = Inr (s', c', ps) \<and> same_sys s s' \<and>
    (ps = [] \<longleftrightarrow> filter (active a rs) ds = [])"
proof -
  have dims: "nat (topology_dims s (ga_topology a)) = length rs" and "rs \<noteq> []"
    using assms(1)
    by (auto simp: ring_system_def topology_rings_def gc_get_num_of_dimensions_def split: TopologyRef.splits)
  have len: "length ds = length rs"
    using assms(3,4) by (metis card_lessThan distinct_card)
  have sub: "set ds \<subseteq> {..<length rs}" "set (rev ds) \<subseteq> {..<length rs}"
    using assms(4) by simp_all
  have ne: "ds \<noteq> []"
    using len \<open>rs \<noteq> []\<close> by auto
  consider (base) "ga_type a \<noteq> All_Reduce \<or> gn_collectiveOptimization s = Baseline"
    | (greedy) "ga_type a = All_Reduce" "gn_collectiveOptimization s \<noteq> Baseline"
        "is_offline_greedy (gn_inter_dimension_scheduling s) \<or> gn_inter_dimension_scheduling s = OnlineGreedy"
    | (hier) "ga_type a = All_Reduce" "gn_collectiveOptimization s \<noteq> Baseline"
        "\<not> (is_offline_greedy (gn_inter_dimension_scheduling s) \<or> gn_inter_dimension_scheduling s = OnlineGreedy)"
    by blast
  then show ?thesis
  proof cases
    case base
    obtain s' c' ps where v: "fold_result (visit_dim env a get_next_queue_at_level (ga_type a)) (map int ds) (s, c, []) =
        Inr (s', c', [] @ ps)" "same_sys s s'" "phases_for rs c (map (Pair (ga_type a)) (filter (active a rs) ds)) ps c'"
      using visit_dims_ok [OF assms(1) sub(1) assms(2), of get_next_queue_at_level env c "[]"] by auto
    have "chunk_phases env a (map int ds) c s = Inr (s', c', ps)"
      using v(1) base dims len by (auto simp: chunk_phases_def baseline_phases_def Let_def)
    then show ?thesis
      using v(2) phases_for_length [OF v(3)] by (intro exI [of _ s'] exI [of _ c'] exI [of _ ps]) auto
  next
    case greedy
    obtain s1 c1 p1 where 1: "fold_result (visit_dim env a get_next_queue_at_level_first Reduce_Scatter) (map int ds) (s, c, []) =
        Inr (s1, c1, [] @ p1)" "same_sys s s1" "phases_for rs c (map (Pair Reduce_Scatter) (filter (active a rs) ds)) p1 c1"
      using visit_dims_ok [OF assms(1) sub(1), of Reduce_Scatter get_next_queue_at_level_first env c "[]"]
      by (auto simp: basic_type_def)
    obtain s2 c2 p2 where 2: "fold_result (visit_dim env a get_next_queue_at_level_last All_Gather) (map int (rev ds)) (s1, c1, p1) =
        Inr (s2, c2, p1 @ p2)" "same_sys s1 s2" "phases_for rs c1 (map (Pair All_Gather) (filter (active a rs) (rev ds))) p2 c2"
      using visit_dims_ok [OF same_sys_ring_system [OF 1(2) assms(1)] sub(2), of All_Gather get_next_queue_at_level_last env c1 p1]
      by (auto simp: basic_type_def)
    have "chunk_phases env a (map int ds) c s = Inr (s2, c2, p1 @ p2)"
      using 1(1) 2(1) greedy dims len by (auto simp: chunk_phases_def greedy_phases_def Let_def rev_map)
    moreover have "p1 @ p2 = [] \<longleftrightarrow> filter (active a rs) ds = []"
      using phases_for_length [OF 1(3)] phases_for_length [OF 2(3)] by (auto simp flip: rev_filter)
    ultimately show ?thesis
      using same_sys_trans [OF 1(2) 2(2)] by blast
  next
    case hier
    obtain s' c' ps where h: "hierarchical_phases env a (map int ds) (s, c, []) = Inr (s', c', ps)"
      "same_sys s s'" "phases_for rs c (hierarchical_steps (filter (active a rs) ds)) ps c'"
      using hierarchical_phases_ok [OF assms(1) sub(1) ne] by blast
    have "chunk_phases env a (map int ds) c s = Inr (s', c', ps)"
      using h(1) hier dims len by (auto simp: chunk_phases_def Let_def)
    moreover have "ps = [] \<longleftrightarrow> filter (active a rs) ds = []"
      using phases_for_length [OF h(3)] by (auto simp: hierarchical_steps_def split: if_splits)
    ultimately show ?thesis
      using h(2) by blast
  qed
qed

section \<open>The streams of a collective\<close>

text \<open>
  The setting of the loop: rings, a scheduling that does not need the load table, a round-robin
  counter inside the topology, and an active dimension.
\<close>

definition gen_ok :: "gen_args \<Rightarrow> RingTopology list \<Rightarrow> gen_sys \<Rightarrow> bool" where
  "gen_ok a rs s \<longleftrightarrow> ring_system a s rs \<and> basic_type (ga_type a) \<and>
     \<not> is_offline_greedy (gn_inter_dimension_scheduling s) \<and>
     0 \<le> gn_round_robin_inter_dimension_scheduler s \<and>
     gn_round_robin_inter_dimension_scheduler s < int (length rs)"

lemma gen_ok_same_sys: "same_sys s s' \<Longrightarrow> gen_ok a rs s \<Longrightarrow> gen_ok a rs s'"
  using same_sys_ring_system by (auto simp: gen_ok_def same_sys_def)

lemma next_chunk_ok:
  assumes "gen_ok a rs s"
  shows "\<exists>ds s'. next_chunk env a sz c s = Inr (map int ds, c, if c > sz then 0 else sz - c, s') \<and>
    distinct ds \<and> set ds = {..<length rs} \<and> gen_ok a rs s' \<and>
    (\<exists>r. s' = s\<lparr>gn_round_robin_inter_dimension_scheduler := r\<rparr>)"
proof -
  have dims: "nat (topology_dims s (ga_topology a)) = length rs"
    using assms
    by (auto simp: gen_ok_def ring_system_def topology_rings_def gc_get_num_of_dimensions_def split: TopologyRef.splits)
  define ds where "ds = (if ga_type a = All_Gather then rev [0..<length rs] else [0..<length rs])"
  have ds: "distinct ds" "set ds = {..<length rs}" "length ds = length rs"
    by (auto simp: ds_def)
  have mapper: "(if ga_type a = All_Gather then rev (map int [0..<length rs]) else map int [0..<length rs]) = map int ds"
    by (simp add: ds_def rev_map)
  show ?thesis
  proof (cases "gn_inter_dimension_scheduling s = RoundRobin")
    case True
    let ?r = "gn_round_robin_inter_dimension_scheduler s"
    let ?s = "s\<lparr>gn_round_robin_inter_dimension_scheduler := (if ?r + 1 = int (length rs) then 0 else ?r + 1)\<rparr>"
    have "round_robin_order (map int ds) s = Inr (map int (rotate (nat ?r) ds), ?s)"
      using assms ds(3) by (simp add: round_robin_order_def gen_ok_def rotate_map Let_def)
    then have "next_chunk env a sz c s = Inr (map int (rotate (nat ?r) ds), c, if c > sz then 0 else sz - c, ?s)"
      using True by (simp add: next_chunk_def Let_def dims mapper)
    moreover have "gen_ok a rs ?s"
      using assms by (auto simp: gen_ok_def ring_system_def topology_rings_def split: TopologyRef.splits)
    ultimately show ?thesis
      using ds by (intro exI [of _ "rotate (nat ?r) ds"] exI [of _ ?s]) (auto simp del: if_split)
  next
    case False
    then have "next_chunk env a sz c s = Inr (map int ds, c, if c > sz then 0 else sz - c, s)"
      using assms by (simp add: next_chunk_def Let_def dims mapper gen_ok_def)
    then show ?thesis
      using ds assms
      by (intro exI [of _ ds] exI [of _ s]) (auto intro: exI [of _ "gn_round_robin_inter_dimension_scheduler s"])
  qed
qed

text \<open>The identifier that the next stream gets.\<close>

fun next_id :: "CommunicatorGroup option \<Rightarrow> gen_sys \<Rightarrow> int" where
  "next_id None s = gn_num_streams s"
| "next_id (Some g) s = cg_num_streams g"

definition stream_of :: "gen_args \<Rightarrow> int \<Rightarrow> BaseStream \<Rightarrow> bool" where
  "stream_of a i x \<longleftrightarrow> bs_stream_id x = i \<and> bs_dataset x = ga_dataset a \<and> bs_priority x = ga_priority a \<and>
     bs_phases_to_go x \<noteq> [] \<and> bs_current_queue_id x = -1 \<and> bs_state x = Created \<and> \<not> bs_initialized x"

lemma add_stream_ok:
  assumes "vect \<noteq> []"
  shows "\<exists>x grp' s'. add_stream env (ga_dataset a) (ga_priority a) vect grp s = (grp', s') \<and>
    stream_of a (next_id grp s) x \<and> gn_inserted s' = gn_inserted s @ [x] \<and> next_id grp' s' = next_id grp s + 1 \<and>
    (gen_ok a rs s \<longrightarrow> gen_ok a rs s')"
proof (cases grp)
  case None
  then show ?thesis
    using assms
    by (auto simp: add_stream_def new_stream_id_def Let_def stream_of_def StreamBaseline_new_def BaseStream_new_def
        StreamStat.defs BaseStream.defs gen_ok_def ring_system_def topology_rings_def split: TopologyRef.splits)
next
  case (Some g)
  then show ?thesis
    using assms
    by (auto simp: add_stream_def new_stream_id_def Let_def stream_of_def StreamBaseline_new_def BaseStream_new_def
        StreamStat.defs BaseStream.defs gen_ok_def ring_system_def topology_rings_def split: TopologyRef.splits)
qed

lemma chunk_step_ok:
  assumes "gen_ok a rs (gl_sys st)" and "\<exists>d < length rs. active a rs d"
  shows "\<exists>x s' grp'. chunk_step env a st = Inr (st\<lparr>gl_size := (if gl_chunk_size st > gl_size st then 0 else gl_size st - gl_chunk_size st),
      gl_chunk_size := gl_chunk_size st, gl_count := gl_count st + 1, gl_sys := s', gl_group := grp'\<rparr>) \<and>
    stream_of a (next_id (gl_group st) (gl_sys st)) x \<and> gn_inserted s' = gn_inserted (gl_sys st) @ [x] \<and>
    next_id grp' s' = next_id (gl_group st) (gl_sys st) + 1 \<and> gen_ok a rs s'"
proof -
  let ?c = "gl_chunk_size st" and ?sz = "gl_size st" and ?s = "gl_sys st"
  obtain ds s1 r where n: "next_chunk env a ?sz ?c ?s = Inr (map int ds, ?c, if ?c > ?sz then 0 else ?sz - ?c, s1)"
    "distinct ds" "set ds = {..<length rs}" "gen_ok a rs s1"
    "s1 = ?s\<lparr>gn_round_robin_inter_dimension_scheduler := r\<rparr>"
    using next_chunk_ok [OF assms(1)] by blast
  have "filter (active a rs) ds \<noteq> []"
    using assms(2) n(3) by (auto simp: filter_empty_conv)
  then obtain s2 c2 ps where p: "chunk_phases env a (map int ds) ?c s1 = Inr (s2, c2, ps)" "same_sys s1 s2" "ps \<noteq> []"
    using chunk_phases_ok [of a s1 rs ds env ?c] n by (auto simp: gen_ok_def)
  obtain levels where s2: "s2 = ?s\<lparr>gn_round_robin_inter_dimension_scheduler := r, gn_vLevels := levels\<rparr>"
    using p(2) unfolding same_sys_def n(5) by blast
  have same: "gn_inserted s2 = gn_inserted ?s" "next_id (gl_group st) s2 = next_id (gl_group st) ?s"
    by (cases "gl_group st"; simp add: s2)+
  obtain x grp' s3 where a: "add_stream env (ga_dataset a) (ga_priority a) ps (gl_group st) s2 = (grp', s3)"
    "stream_of a (next_id (gl_group st) s2) x" "gn_inserted s3 = gn_inserted s2 @ [x]"
    "next_id grp' s3 = next_id (gl_group st) s2 + 1" "gen_ok a rs s3"
    using add_stream_ok [OF p(3), of env a "gl_group st" s2 rs] gen_ok_same_sys [OF p(2) n(4)] by blast
  have "chunk_step env a st = Inr (st\<lparr>gl_size := (if ?c > ?sz then 0 else ?sz - ?c),
      gl_chunk_size := ?c, gl_count := gl_count st + 1, gl_sys := s3, gl_group := grp'\<rparr>)"
    unfolding chunk_step_def n(1) by (simp add: p(1,3) a(1))
  with a(2-5) show ?thesis
    unfolding same by blast
qed

definition chunks :: "u64 \<Rightarrow> u64 \<Rightarrow> nat" where
  "chunks sz c = (unat sz + unat c - 1) div unat c"

lemma chunks_0 [simp]: "c \<noteq> 0 \<Longrightarrow> chunks 0 c = 0"
  by (simp add: chunks_def unat_gt_0)

lemma div_one_more: "0 < c \<Longrightarrow> (c + m) div c = Suc (m div c)" for c :: nat
  by simp

lemma chunks_step:
  assumes "c \<noteq> 0" and "sz \<noteq> 0"
  shows "chunks sz c = Suc (chunks (if c > sz then 0 else sz - c) c)"
proof -
  have pos: "0 < unat c" "0 < unat sz"
    using assms by (simp_all add: unat_gt_0)
  show ?thesis
  proof (cases "c > sz")
    case True
    then have "unat sz < unat c"
      by (simp add: word_less_nat_alt)
    then have "unat sz + unat c - 1 = unat c + (unat sz - 1)" "unat sz - 1 < unat c"
      using pos by simp_all
    then have "chunks sz c = Suc 0"
      unfolding chunks_def using pos(1) by (metis div_one_more div_less)
    then show ?thesis
      using True assms(1) by simp
  next
    case False
    then have le: "unat c \<le> unat sz"
      by (simp add: word_less_nat_alt)
    then have "unat (sz - c) = unat sz - unat c"
      by (simp add: unat_sub word_le_nat_alt)
    moreover have "unat sz + unat c - 1 = unat c + (unat sz - unat c + unat c - 1)"
      using le pos by simp
    ultimately have "chunks sz c = Suc (chunks (sz - c) c)"
      unfolding chunks_def using pos(1) by (metis div_one_more)
    then show ?thesis
      using False by simp
  qed
qed

text \<open>The streams that a collective inserts, with consecutive identifiers.\<close>

definition streams_of :: "gen_args \<Rightarrow> int \<Rightarrow> BaseStream list \<Rightarrow> bool" where
  "streams_of a i xs \<longleftrightarrow> (\<forall>k < length xs. stream_of a (i + int k) (xs ! k))"

lemma streams_of_Cons:
  assumes "stream_of a i x" and "streams_of a (i + 1) xs"
  shows "streams_of a i (x # xs)"
  unfolding streams_of_def
proof (intro allI impI)
  fix k assume "k < length (x # xs)"
  then show "stream_of a (i + int k) ((x # xs) ! k)"
    using assms by (cases k) (auto simp: streams_of_def algebra_simps)
qed

lemma chunk_loop_ok:
  assumes "gen_ok a rs (gl_sys st)" and "\<exists>d < length rs. active a rs d" and "gl_chunk_size st \<noteq> 0" and "gl_active st"
  shows "\<exists>st' xs. chunk_loop env a st = Some (Inr st') \<and> gl_active st' \<and>
    gl_count st' = gl_count st + int (chunks (gl_size st) (gl_chunk_size st)) \<and>
    length xs = chunks (gl_size st) (gl_chunk_size st) \<and> streams_of a (next_id (gl_group st) (gl_sys st)) xs \<and>
    gn_inserted (gl_sys st') = gn_inserted (gl_sys st) @ xs \<and>
    next_id (gl_group st') (gl_sys st') = next_id (gl_group st) (gl_sys st) + int (length xs)"
  using assms(1,3,4)
proof (induction "chunks (gl_size st) (gl_chunk_size st)" arbitrary: st)
  case 0
  then have "gl_size st = 0"
    using chunks_step [of "gl_chunk_size st" "gl_size st"] by (cases "gl_size st = 0") auto
  then have "chunk_loop env a st = Some (Inr st)"
    by (simp add: chunk_loop.simps)
  with 0 show ?case
    by (intro exI [of _ st] exI [of _ "[]"]) (simp add: streams_of_def)
next
  case (Suc n)
  let ?c = "gl_chunk_size st" and ?sz = "gl_size st"
  have sz: "?sz \<noteq> 0"
    using Suc.hyps(2) Suc.prems(2) by (metis chunks_0 nat.distinct(1))
  obtain x s' grp' where x: "chunk_step env a st = Inr (st\<lparr>gl_size := (if ?c > ?sz then 0 else ?sz - ?c),
      gl_chunk_size := ?c, gl_count := gl_count st + 1, gl_sys := s', gl_group := grp'\<rparr>)"
    "stream_of a (next_id (gl_group st) (gl_sys st)) x" "gn_inserted s' = gn_inserted (gl_sys st) @ [x]"
    "next_id grp' s' = next_id (gl_group st) (gl_sys st) + 1" "gen_ok a rs s'"
    using chunk_step_ok [OF Suc.prems(1) assms(2)] by blast
  define st1 where "st1 = st\<lparr>gl_size := (if ?c > ?sz then 0 else ?sz - ?c), gl_chunk_size := ?c,
    gl_count := gl_count st + 1, gl_sys := s', gl_group := grp'\<rparr>"
  have st1: "gl_size st1 = (if ?c > ?sz then 0 else ?sz - ?c)" "gl_chunk_size st1 = ?c" "gl_count st1 = gl_count st + 1"
    "gl_sys st1 = s'" "gl_group st1 = grp'" "gl_active st1"
    using Suc.prems(3) by (simp_all add: st1_def)
  have n: "chunks ?sz ?c = Suc (chunks (gl_size st1) (gl_chunk_size st1))"
    using chunks_step [OF Suc.prems(2) sz] st1(1,2) by simp
  obtain st' xs where r: "chunk_loop env a st1 = Some (Inr st')" "gl_active st'"
    "gl_count st' = gl_count st1 + int (chunks (gl_size st1) (gl_chunk_size st1))"
    "length xs = chunks (gl_size st1) (gl_chunk_size st1)" "streams_of a (next_id (gl_group st1) (gl_sys st1)) xs"
    "gn_inserted (gl_sys st') = gn_inserted (gl_sys st1) @ xs"
    "next_id (gl_group st') (gl_sys st') = next_id (gl_group st1) (gl_sys st1) + int (length xs)"
    using Suc.hyps(1) [of st1] n Suc.hyps(2) x(5) Suc.prems(2) st1 by auto
  have "chunk_loop env a st = Some (Inr st')"
    using r(1) sz x(1) [folded st1_def] st1(6) by (subst chunk_loop.simps) simp
  moreover have "streams_of a (next_id (gl_group st) (gl_sys st)) (x # xs)"
    using streams_of_Cons [OF x(2)] r(5) x(4) st1(4,5) by simp
  ultimately show ?case
    using r n x(3,4) st1 by (intro exI [of _ st'] exI [of _ "x # xs"]) simp
qed

section \<open>Whole collectives\<close>

definition args_for :: "TopologyRef \<Rightarrow> CollectiveImpl list \<Rightarrow> bool list \<Rightarrow> ComType \<Rightarrow> int \<Rightarrow> u64 \<Rightarrow> int \<Rightarrow> gen_args" where
  "args_for topology impls involved ct pri c dsid = \<lparr>ga_topology = topology, ga_impls = impls,
     ga_involved = involved, ga_type = ct, ga_priority = pri, ga_recommended_chunk_size = c, ga_dataset = dsid\<rparr>"

lemma gen_ok_args: "gen_ok (args_for tp impls involved ct pri c dsid) rs s \<longleftrightarrow> gen_ok (args_for tp impls involved ct 0 0 0) rs s"
  by (simp add: gen_ok_def ring_system_def topology_rings_def args_for_def)

lemma active_args: "active (args_for tp impls involved ct pri c dsid) rs d \<longleftrightarrow> active (args_for tp impls involved ct 0 0 0) rs d"
  by (simp add: active_def args_for_def)

lemma gen_ok_frame [simp]:
  "gen_ok a rs (s\<lparr>gn_priority_counter := k\<rparr>) = gen_ok a rs s"
  "gen_ok a rs (s\<lparr>gn_next_dataset_id := k\<rparr>) = gen_ok a rs s"
  by (simp_all add: gen_ok_def ring_system_def topology_rings_def cong: TopologyRef.case_cong)

lemma get_priority_frame:
  assumes "get_priority e s = Inr (pri, s1)"
  shows "\<exists>k. s1 = s\<lparr>gn_priority_counter := k\<rparr>"
proof -
  have "s1 = s\<lparr>gn_priority_counter := gn_priority_counter s1\<rparr>"
    using assms by (cases "gn_scheduling_policy s") (auto simp: get_priority_def)
  then show ?thesis by blast
qed

text \<open>
  \<^bold>\<open>C27\<close>. \<^emph>\<open>The streams of a collective.\<close> On a system of rings with an active dimension, whose collective uses native ring algorithms
  and whose scheduling keeps no load table, the generation of a collective whose chunk size is not zero returns. It has then
  inserted one stream for each of the \<open>\<lceil>size / chunk_size\<rceil>\<close> chunks, all of the given priority, attached to
  the new data set, each with at least one phase and with consecutive identifiers, of the group when
  there is one; and the data set waits for exactly these streams.
\<close>

theorem collective_streams:
  fixes s :: gen_sys and env :: gen_env
  assumes "gen_ok (args_for tp impls involved ct 0 0 0) rs s"
    and "\<exists>d < length rs. active (args_for tp impls involved ct 0 0 0) rs d"
    and "determine_chunk_size s sz ct = Inr (c, sz')" and "c \<noteq> 0" and "get_priority e s = Inr (pri, s1)"
  shows "\<exists>(d :: 'c DataSet) grp' s' xs.
    generate_collective env sz tp impls involved ct e grp s = Some (Inr (d, grp', s')) \<and>
    length xs = chunks sz' c \<and> gn_inserted s' = gn_inserted s @ xs \<and>
    streams_of (args_for tp impls involved ct pri c (ds_my_id d)) (next_id grp s) xs \<and>
    next_id grp' s' = next_id grp s + int (length xs) \<and>
    ds_active d \<and> ds_total_streams d = int (length xs) \<and> ds_finished_streams d = 0"
proof -
  let ?id = "gn_next_dataset_id s"
  let ?a = "args_for tp impls involved ct pri c ?id"
  obtain k where s1: "s1 = s\<lparr>gn_priority_counter := k\<rparr>"
    using get_priority_frame [OF assms(5)] by blast
  let ?s = "s1\<lparr>gn_next_dataset_id := ?id + 1\<rparr>"
  have "gen_ok ?a rs s"
    using assms(1) gen_ok_args by blast
  then have ok: "gen_ok ?a rs ?s"
    by (simp add: s1)
  then have reset: "reset_greedy env ?s = ?s"
    by (simp add: reset_greedy_def gen_ok_def)
  have act: "\<exists>d < length rs. active ?a rs d"
    using assms(2) active_args by blast
  have "rs \<noteq> []" "length rs \<le> length impls" and ty: "\<forall>c\<in>set impls. ring_impl_type (ci_type c)"
    using assms(1) by (auto simp: gen_ok_def ring_system_def args_for_def)
  then have ne: "0 < length impls"
    by (cases rs) auto
  then have impl: "at_index impls 0 w = Inr (impls ! 0)" and first: "impls ! 0 \<in> set impls" for w
    using nth_mem [OF ne] by (auto simp: at_index_def)
  have native: "ci_type (impls ! 0) \<noteq> CustomCollectiveImpl"
    using ty first by (auto simp: ring_impl_type_def)
  define s2 where "s2 = ?s"
  define st0 where "st0 = \<lparr>gl_sys = s2, gl_group = grp, gl_size = sz', gl_chunk_size = c, gl_count = 0, gl_active = True\<rparr>"
  have st0: "gl_sys st0 = s2" "gl_group st0 = grp" "gl_size st0 = sz'" "gl_chunk_size st0 = c" "gl_count st0 = 0"
    "gl_active st0 = True"
    by (simp_all add: st0_def)
  obtain st' xs where r: "chunk_loop env ?a st0 = Some (Inr st')" "gl_active st'"
    "gl_count st' = 0 + int (chunks sz' c)" "length xs = chunks sz' c" "streams_of ?a (next_id grp s2) xs"
    "gn_inserted (gl_sys st') = gn_inserted s2 @ xs"
    "next_id (gl_group st') (gl_sys st') = next_id grp s2 + int (length xs)"
    using chunk_loop_ok [of ?a rs st0 env] ok act assms(4) unfolding st0 s2_def [symmetric] by blast
  have id_eq: "next_id grp s2 = next_id grp s"
    by (cases grp) (simp_all add: s1 s2_def)
  let ?d = "(DataSet_new ?id (stream_estimate (ge_unset env) sz' c) (ge_now env) :: 'c DataSet)
    \<lparr>ds_total_streams := int (chunks sz' c)\<rparr>"
  have "gn_next_dataset_id s1 = ?id"
    by (simp add: s1)
  then have "generate_collective env sz tp impls involved ct e grp s = Some (Inr (?d, gl_group st', gl_sys st'))"
    using r(1-3) native
    by (simp add: generate_collective_def assms(3,5) impl reset args_for_def [symmetric] st0_def s2_def)
  moreover have "ds_my_id ?d = ?id" "ds_active ?d" "ds_total_streams ?d = int (length xs)" "ds_finished_streams ?d = 0"
    using r(4) by (simp_all add: DataSet_new_def StreamStat.defs DataSet.defs)
  moreover have "gn_inserted s2 = gn_inserted s"
    by (simp add: s1 s2_def)
  ultimately show ?thesis
    using r(4-7) id_eq by (intro exI [of _ ?d] exI [of _ "gl_group st'"] exI [of _ "gl_sys st'"] exI [of _ xs]) simp
qed

section \<open>Collectives that never complete\<close>



lemma finished_after_notify:
  fixes d :: "'c DataSet"
  shows "is_finished (snd (notify_stream_finished now st d)) \<longleftrightarrow>
    ds_finished d \<or> ds_finished_streams d + 1 = ds_total_streams d"
proof -
  have "ds_total_streams (update_stream_stats x (d\<lparr>ds_finished_streams := k\<rparr>)) = ds_total_streams d"
    for x :: StreamStat and k
    using stats_frame(1) [of x "d\<lparr>ds_finished_streams := k\<rparr>"] by (simp add: ds_core_def)
  then show ?thesis
    by (cases st) (simp_all add: notify_stream_finished_def is_finished_def Let_def split: option.split)
qed

lemma ceiling_one: "0 < b \<Longrightarrow> \<lceil>rat_of_int a / rat_of_int b\<rceil> = 1 \<longleftrightarrow> 0 < a \<and> a \<le> b"
  by (simp add: ceiling_eq_iff zero_less_divide_iff divide_le_eq)

text \<open>
  \<^emph>\<open>Custom collectives and splits.\<close> A custom collective is carried by a single stream, whatever its
  size, but its data set is told to wait for \<open>\<lceil>size / chunk_size\<rceil>\<close> streams. So the data set is
  finished by that stream exactly when the data was not split; otherwise no notification follows.
\<close>

theorem custom_collective_completion:
  fixes s :: gen_sys
  assumes "ci_type impl = CustomCollectiveImpl"
    and "ge_et_readable env (ci_filename impl @ ''.'' @
      int_to_string (case grp of None \<Rightarrow> gn_id s | Some g \<Rightarrow> get_position_in_group g) @ ''.et'')"
    and "determine_chunk_size s sz ct = Inr (c, sz')" and "c \<noteq> 0" and "get_priority e s = Inr (pri, s1)"
  shows "\<exists>(d :: 'c DataSet) grp' s' x.
    generate_collective env sz tp (impl # impls) involved ct e grp s = Some (Inr (d, grp', s')) \<and>
    gn_inserted s' = gn_inserted s @ [x] \<and> bs_dataset x = ds_my_id d \<and>
    (is_finished (snd (notify_stream_finished now st d)) \<longleftrightarrow> 0 < sz' \<and> sz' \<le> c)"
proof -
  obtain k where s1: "s1 = s\<lparr>gn_priority_counter := k\<rparr>"
    using get_priority_frame [OF assms(5)] by blast
  let ?id = "gn_next_dataset_id s"
  let ?s = "reset_greedy env (s1\<lparr>gn_next_dataset_id := ?id + 1\<rparr>)"
  let ?d = "DataSet_new ?id (stream_estimate (ge_unset env) sz' c) (ge_now env) :: 'c DataSet"
  let ?a = "args_for tp (impl # impls) involved ct pri c ?id"
  have same: "gn_id ?s = gn_id s" "gn_inserted ?s = gn_inserted s" "gn_next_dataset_id s1 = ?id"
    by (simp_all add: reset_greedy_def s1)
  obtain p where p: "generate_collective_phase (ge_et_readable env) (ge_unset env) (gn_id s) ct None sz'
      (case grp of None \<Rightarrow> gn_id s | Some g \<Rightarrow> get_position_in_group g) Clockwise Normal impl grp = Inr p"
    using assms(1,2) by (auto simp: generate_collective_phase_def CustomAlgorithm_new_def Let_def)
  obtain x grp' s' where x: "add_stream env ?id pri [p] grp ?s = (grp', s')" "stream_of ?a (next_id grp ?s) x"
    "gn_inserted s' = gn_inserted ?s @ [x]"
    using add_stream_ok [of "[p]" env ?a grp ?s "[]"] by (simp add: args_for_def) blast
  have "custom_collective env ?a sz' impl grp ?s = Inr (grp', s')"
    using p x(1) by (simp add: custom_collective_def same args_for_def split: option.splits)
  then have gen: "generate_collective env sz tp (impl # impls) involved ct e grp s = Some (Inr (?d, grp', s'))"
    using assms(1) by (simp add: generate_collective_def assms(3,5) at_index_def same args_for_def)
  have "uint c > 0"
    using assms(4) by (simp add: order_less_le uint_0_iff eq_commute [of 0])
  then have "stream_estimate (ge_unset env) sz' c = 1 \<longleftrightarrow> 0 < uint sz' \<and> uint sz' \<le> uint c"
    using assms(4) by (simp only: stream_estimate_def ceiling_one if_False)
  then have fin: "is_finished (snd (notify_stream_finished now st ?d)) \<longleftrightarrow> 0 < sz' \<and> sz' \<le> c"
    by (auto simp: finished_after_notify DataSet_new_def StreamStat.defs DataSet.defs word_less_def word_le_def)
  show ?thesis
    using gen fin x(2,3) same(2)
    by (intro exI [of _ ?d] exI [of _ grp'] exI [of _ s'] exI [of _ x])
      (simp add: stream_of_def args_for_def DataSet_new_def StreamStat.defs DataSet.defs)
qed

section \<open>An instance\<close>

text \<open>A node with two ring dimensions of three nodes each.\<close>

definition demo_unset :: unset where
  "demo_unset = \<lparr>un_ring_sizes = (0, 0), un_peer = 0, un_data_size = 0, un_final_data_size = 0,
     un_com_type = ComNone, un_enabled = False, un_tick = 0, un_streams = 0\<rparr>"

definition demo_env :: gen_env where
  "demo_env = \<lparr>ge_now = 5, ge_all_sys_size = 9, ge_et_readable = (\<lambda>f. True), ge_unset = demo_unset\<rparr>"

definition demo_gen :: gen_sys where
  "demo_gen = \<lparr>gn_id = 3, gn_total_nodes = 9, gn_preferred_dataset_splits = 4, gn_scheduling_policy = LIFO,
     gn_priority_counter = 0, gn_inter_dimension_scheduling = Ascending, gn_collectiveOptimization = LocalBWAware,
     gn_round_robin_inter_dimension_scheduler = 0, gn_num_streams = 0,
     gn_vLevels = QueueLevels_uniform 2 4 0 Analytical, gn_last_scheduled_collective = 0,
     gn_logical_topologies = (\<lambda>ct. [DimRing demo_ring, DimRing demo_ring]),
     gn_collective_impl_lookup = CollectiveImplLookup_new 3,
     gn_offline_greedy = demo_greedy, gn_counters = \<lparr>sc_synchronizer = Map.empty, sc_ready_counter = Map.empty\<rparr>,
     gn_next_dataset_id = 0, gn_inserted = []\<rparr>"

definition demo_impls :: "CollectiveImpl list" where
  "demo_impls = [CollectiveImpl_new ImplRing, DirectCollectiveImpl_new Direct 2]"

abbreviation demo_args :: "ComType \<Rightarrow> gen_args" where
  "demo_args ct \<equiv> args_for (SharedTopology ct) demo_impls [True, True] ct 0 0 0"

lemma demo_gen_ok:
  assumes "basic_type ct"
  shows "gen_ok (demo_args ct) [demo_ring, demo_ring] demo_gen" "active (demo_args ct) [demo_ring, demo_ring] 0"
    "active (demo_args ct) [demo_ring, demo_ring] 1"
proof -
  have "rt_id demo_ring = 3"
    by code_simp
  moreover have "length (gn_vLevels demo_gen) = 2"
    by code_simp
  ultimately show "gen_ok (demo_args ct) [demo_ring, demo_ring] demo_gen"
    using assms demo_ring_wf
    by (simp add: gen_ok_def ring_system_def topology_rings_def args_for_def demo_gen_def demo_impls_def
        ring_impl_type_def CollectiveImpl_new_def DirectCollectiveImpl_new_def is_offline_greedy_def)
  show "active (demo_args ct) [demo_ring, demo_ring] 0" "active (demo_args ct) [demo_ring, demo_ring] 1"
    using demo_ring_wf by (simp_all add: active_def args_for_def)
qed

theorem all_reduce_phases_witness:
  "\<exists>s' ps. chunk_phases demo_env (demo_args All_Reduce) [0, 1] 27 demo_gen = Inr (s', 27, ps) \<and>
    phases_for [demo_ring, demo_ring] 27 [(Reduce_Scatter, 0), (All_Reduce, 1), (All_Gather, 0)] ps 27"
proof -
  let ?a = "demo_args All_Reduce" and ?rs = "[demo_ring, demo_ring]"
  have ok: "gen_ok ?a ?rs demo_gen" and act: "active ?a ?rs 0" "active ?a ?rs 1"
    using demo_gen_ok [of All_Reduce] by (simp_all add: basic_type_def)
  have filt: "filter (active ?a ?rs) [0, 1] = [0, 1]"
    using act by simp
  have "ring_system ?a demo_gen ?rs" "ga_type ?a = All_Reduce" "gn_collectiveOptimization demo_gen \<noteq> Baseline"
    "gn_inter_dimension_scheduling demo_gen = Ascending" "set [0, 1] = {..<length ?rs}"
    using ok by (auto simp: gen_ok_def args_for_def demo_gen_def)
  then obtain s' c' ps where r: "chunk_phases demo_env ?a (map int [0, 1]) 27 demo_gen = Inr (s', c', ps)"
    "phases_for ?rs 27 (hierarchical_steps [0, 1]) ps c'"
    "prod_list (map (\<lambda>d. ring_size (?rs ! d)) (butlast [0, 1])) dvd unat (27 :: u64) \<longrightarrow> c' = 27"
    using all_reduce_phases [of ?a demo_gen ?rs "[0, 1]" demo_env 27] unfolding filt by auto
  have "prod_list (map (\<lambda>d. ring_size (?rs ! d)) (butlast [0, 1])) dvd unat (27 :: u64)"
    using demo_ring_wf(3) by simp
  with r show ?thesis
    by (intro exI [of _ s'] exI [of _ ps]) (simp add: hierarchical_steps_def)
qed

theorem collective_streams_witness:
  "\<exists>(d :: nat DataSet) grp' s'. generate_collective demo_env 100 (SharedTopology All_Reduce) demo_impls [True, True]
      All_Reduce 0 None demo_gen = Some (Inr (d, grp', s')) \<and>
    map bs_stream_id (gn_inserted s') = [0, 1, 2, 3] \<and> ds_total_streams d = 4"
proof -
  let ?rs = "[demo_ring, demo_ring]"
  have det: "determine_chunk_size demo_gen 100 All_Reduce = Inr (25, 100)"
    by (simp add: determine_chunk_size_def demo_gen_def u64_of_int_def Let_def)
  have pri: "get_priority 0 demo_gen = Inr (0, demo_gen\<lparr>gn_priority_counter := 1\<rparr>)"
    by (simp add: get_priority_def demo_gen_def)
  have ok: "gen_ok (demo_args All_Reduce) ?rs demo_gen" and act: "\<exists>d < length ?rs. active (demo_args All_Reduce) ?rs d"
    using demo_gen_ok [of All_Reduce] by (auto simp: basic_type_def)
  have c: "(25 :: u64) \<noteq> 0"
    by simp
  obtain d :: "nat DataSet" and grp' s' xs where
    r: "generate_collective demo_env 100 (SharedTopology All_Reduce) demo_impls [True, True] All_Reduce 0 None demo_gen =
        Some (Inr (d, grp', s'))" "length xs = chunks 100 25" "gn_inserted s' = gn_inserted demo_gen @ xs"
      "streams_of (args_for (SharedTopology All_Reduce) demo_impls [True, True] All_Reduce 0 25 (ds_my_id d))
         (next_id None demo_gen) xs" "ds_total_streams d = int (length xs)"
    using collective_streams [OF ok act det c pri, of demo_env None] by blast
  have len: "length xs = 4"
    using r(2) by (simp add: chunks_def)
  have next0: "next_id None demo_gen = 0"
    by (simp add: demo_gen_def)
  have "map bs_stream_id xs = map int [0..<4]"
    using r(4) len unfolding next0 streams_of_def stream_of_def by (intro nth_equalityI) simp_all
  also have "\<dots> = [0, 1, 2, 3]"
    by code_simp
  finally have "map bs_stream_id xs = [0, 1, 2, 3]" .
  moreover have "gn_inserted demo_gen = []"
    by (simp add: demo_gen_def)
  ultimately show ?thesis
    using r(1,3,5) len by auto
qed


theorem custom_collective_completion_witness:
  "\<exists>(d :: nat DataSet) grp' s'. generate_collective demo_env 100 (SharedTopology All_Reduce)
      [generate_custom_collective_impl ''ar''] [True] All_Reduce 0 None demo_gen = Some (Inr (d, grp', s')) \<and>
    length (gn_inserted s') = 1 \<and> \<not> is_finished (snd (notify_stream_finished 9 None d))"
proof -
  let ?impl = "generate_custom_collective_impl ''ar''"
  have det: "determine_chunk_size demo_gen 100 All_Reduce = Inr (25, 100)"
    by (simp add: determine_chunk_size_def demo_gen_def u64_of_int_def Let_def)
  have pri: "get_priority 0 demo_gen = Inr (0, demo_gen\<lparr>gn_priority_counter := 1\<rparr>)"
    by (simp add: get_priority_def demo_gen_def)
  have ty: "ci_type ?impl = CustomCollectiveImpl"
    by (simp add: generate_custom_collective_impl_def CustomCollectiveImpl_new_def CollectiveImpl_new_def)
  have et: "ge_et_readable demo_env (ci_filename ?impl @ ''.'' @
      int_to_string (case None of None \<Rightarrow> gn_id demo_gen | Some g \<Rightarrow> get_position_in_group g) @ ''.et'')"
    by (simp add: demo_env_def)
  have c: "(25 :: u64) \<noteq> 0"
    by simp
  obtain d :: "nat DataSet" and grp' s' x where
    r: "generate_collective demo_env 100 (SharedTopology All_Reduce) [?impl] [True] All_Reduce 0 None demo_gen =
        Some (Inr (d, grp', s'))" "gn_inserted s' = gn_inserted demo_gen @ [x]"
      "is_finished (snd (notify_stream_finished 9 None d)) \<longleftrightarrow> (0 :: u64) < 100 \<and> (100 :: u64) \<le> 25"
    using custom_collective_completion [OF ty et det c pri, of "SharedTopology All_Reduce" "[]" "[True]" 9 None]
    by blast
  moreover have "gn_inserted demo_gen = []"
    by (simp add: demo_gen_def)
  ultimately show ?thesis
    by auto
qed

end
