(* ===== verification/Scheduler.thy ===== *)
theory Scheduler
  imports Collective_Phase Usage_Tracker
begin

text \<open>
  The scheduling of streams in \<^verbatim>\<open>Sys.cc\<close>: the ready list, the queues of active streams, the class
  \<^verbatim>\<open>SchedulerUnit\<close>, and \<^verbatim>\<open>proceed_to_next_vnet_baseline\<close>, which takes a stream from one phase to the
  next; with the handlers of \<^verbatim>\<open>StreamBaseline.cc\<close>. Streams are objects that several lists refer to,
  so the state holds them in a store and the lists hold addresses.
\<close>

section \<open>Insertion into a queue\<close>

text \<open>
  The position is the number of elements that the iterator of \<^verbatim>\<open>insert_stream\<close> passes. Streams that
  have been initialised are always passed; what else is passed depends on the policy.
\<close>

fun skip_while :: "(BaseStream \<Rightarrow> bool) \<Rightarrow> BaseStream list \<Rightarrow> nat" where
  "skip_while skip [] = 0"
| "skip_while skip (x # xs) = (if bs_initialized x \<or> skip x then Suc (skip_while skip xs) else 0)"

definition phase_data :: "BaseStream \<Rightarrow> u64" where
  "phase_data x = max (cp_initial_data_size (bs_my_current_phase x)) (cp_final_data_size (bs_my_current_phase x))"

text \<open>The policy \<^verbatim>\<open>RG\<close> alternates between Reduce-Scatter and All-Gather.\<close>

definition alternating :: "ComType \<Rightarrow> ComType \<Rightarrow> bool" where
  "alternating one_to_last lst \<longleftrightarrow>
     lst = Reduce_Scatter \<and> one_to_last = All_Gather \<or> lst = All_Gather \<and> one_to_last = Reduce_Scatter"

function skip_rg :: "int \<Rightarrow> ComType \<Rightarrow> ComType \<Rightarrow> BaseStream list \<Rightarrow> nat" where
  "skip_rg priority one_to_last lst [] = 0"
| "skip_rg priority one_to_last lst (x # xs) =
     (let com = bs_current_com_type x in
      if bs_initialized x then
        (if xs \<noteq> [] \<and> \<not> bs_initialized (hd xs)
         then Suc (Suc (skip_rg priority com (bs_current_com_type (hd xs)) (tl xs)))
         else Suc (skip_rg priority lst com xs))
      else if bs_priority x > priority then Suc (skip_rg priority lst com xs)
      else if alternating lst com then Suc (skip_rg priority lst com xs)
      else 0)"
  by pat_completeness auto
termination
  by (relation "measure (\<lambda>(p, a, b, xs). length xs)") auto

definition insert_position :: "IntraDimensionScheduling \<Rightarrow> BaseStream \<Rightarrow> BaseStream list \<Rightarrow> nat" where
  "insert_position intra b q =
     (if intra = IntraFIFO \<or> bs_current_queue_id b < 0 \<or> bs_current_com_type b = All_to_All \<or>
         bs_current_com_type b = All_Reduce
      then skip_while (\<lambda>x. bs_priority x \<ge> bs_priority b) q
      else case intra of
             RG \<Rightarrow> skip_rg (bs_priority b) ComNone ComNone q
           | SmallestFirst \<Rightarrow>
               if length (bs_phases_to_go b) = 1 then length q
               else skip_while (\<lambda>x. phase_data x < phase_data b) q
           | LessRemainingPhaseFirst \<Rightarrow>
               skip_while (\<lambda>x. length (bs_phases_to_go x) < length (bs_phases_to_go b)) q
           | IntraFIFO \<Rightarrow> 0)"

definition insert_at :: "nat \<Rightarrow> 'a \<Rightarrow> 'a list \<Rightarrow> 'a list" where
  "insert_at n x xs = take n xs @ x # drop n xs"

definition insert_stream ::
    "IntraDimensionScheduling \<Rightarrow> (nat \<rightharpoonup> BaseStream) \<Rightarrow> nat \<Rightarrow> nat list \<Rightarrow> nat list" where
  "insert_stream intra streams x q =
     insert_at (insert_position intra (the (streams x)) (map (\<lambda>y. the (streams y)) q)) x q"

section \<open>Handlers of a stream\<close>

text \<open>
  The virtual call of the algorithm. The replay of a custom algorithm rests on the trace reader,
  third-party code, and is the argument \<open>custom_run\<close>.
\<close>

fun alg_run :: "(EventType \<Rightarrow> CustomAlgorithm \<Rightarrow> CustomAlgorithm result) \<Rightarrow> EventType \<Rightarrow> Algorithm \<Rightarrow> Algorithm result" where
  "alg_run custom_run event (AlgRing r) = rbind (ring_algorithm_run event r) (\<lambda>r. Inr (AlgRing r))"
| "alg_run custom_run event (AlgHalvingDoubling h) = rbind (HD_run event h) (\<lambda>h. Inr (AlgHalvingDoubling h))"
| "alg_run custom_run event (AlgDoubleBinaryTree d) = Inr (AlgDoubleBinaryTree (DBT_run event d))"
| "alg_run custom_run event (AlgCustom c) = rbind (custom_run event c) (\<lambda>c. Inr (AlgCustom c))"

type_synonym runner = "EventType \<Rightarrow> Algorithm \<Rightarrow> Algorithm result"

definition run_phase :: "runner \<Rightarrow> EventType \<Rightarrow> BaseStream \<Rightarrow> BaseStream result" where
  "run_phase run event st =
     (case cp_algorithm (bs_my_current_phase st) of
        None \<Rightarrow> Inl (NullDeref ''my_current_phase.algorithm'')
      | Some a \<Rightarrow> rbind (run event a) (\<lambda>a.
          Inr (st\<lparr>bs_my_current_phase := (bs_my_current_phase st)\<lparr>cp_algorithm := Some a\<rparr>\<rparr>)))"

definition StreamBaseline_init :: "runner \<Rightarrow> Tick \<Rightarrow> BaseStream \<Rightarrow> BaseStream result" where
  "StreamBaseline_init run now st0 =
     (let st = st0\<lparr>bs_initialized := True, bs_last_init := now\<rparr> in
      if \<not> cp_enabled (bs_my_current_phase st) then Inr st
      else rbind (run_phase run StreamInit st) (\<lambda>st.
        Inr (st\<lparr>queuing_delay := queuing_delay st @
               (if bs_steps_finished st = 1
                then [rat_of_int (int (bs_last_phase_change st) - int (bs_creation_time st))] else []) @
               [rat_of_int (int now - int (bs_last_phase_change st))],
             bs_total_packets_sent := 1\<rparr>)))"

definition StreamBaseline_call :: "runner \<Rightarrow> 'b SharedBusStat_scheme \<Rightarrow> BaseStream \<Rightarrow> BaseStream result" where
  "StreamBaseline_call run sharedBusStat st = run_phase run General (update_bus_stats BusBoth sharedBusStat st)"

definition StreamBaseline_consume :: "runner \<Rightarrow> Tick \<Rightarrow> Tick \<Rightarrow> BaseStream \<Rightarrow> BaseStream result" where
  "StreamBaseline_consume run now ready_time st =
     (if net_message_latency st = [] then Inl (OutOfRange ''net_message_latency.back()'')
      else run_phase run PacketReceived
        (st\<lparr>net_message_latency := butlast (net_message_latency st) @
              [last (net_message_latency st) + rat_of_int (int now - int ready_time)],
            net_message_counter := net_message_counter st + 1\<rparr>))"

section \<open>State of the scheduler\<close>

record 'c sched =
  sd_id :: int
  sd_intra_dimension_scheduling :: IntraDimensionScheduling
  sd_streams :: "nat \<rightharpoonup> BaseStream"
  sd_ready_list :: "nat list"
  sd_active_Streams :: "int \<rightharpoonup> nat list"
  sd_first_phase_streams :: int
  sd_total_running_streams :: int
  sd_datasets :: "int \<rightharpoonup> 'c DataSet"
  sd_max_running_streams :: int
  sd_ready_list_threshold :: int
  sd_queue_threshold :: int
  sd_running_streams :: "int \<rightharpoonup> int"
  sd_latency_per_dimension :: "Tick list"
  sd_total_chunks_per_dimension :: "rat list"
  sd_total_active_chunks_per_dimension :: "u64 list"
  sd_queue_id_to_dimension :: "int \<rightharpoonup> int"
  sd_usage :: "UsageTracker list"

text \<open>The queues of all dimensions, numbered from 0; each with the dimension it belongs to.\<close>

definition queue_dimensions :: "int list \<Rightarrow> int list" where
  "queue_dimensions queues = concat (map (\<lambda>(d, n). replicate (nat n) (int d)) (List.enumerate 0 queues))"

definition SchedulerUnit_new ::
    "int \<Rightarrow> IntraDimensionScheduling \<Rightarrow> int list \<Rightarrow> int \<Rightarrow> int \<Rightarrow> int \<Rightarrow> 'c sched" where
  "SchedulerUnit_new sid intra queues max_running_streams ready_list_threshold queue_threshold =
     (let dims = queue_dimensions queues;
          for_queues = (\<lambda>f k. if 0 \<le> k \<and> k < int (length dims) then Some (f (nat k)) else None)
      in \<lparr>sd_id = sid, sd_intra_dimension_scheduling = intra, sd_streams = Map.empty, sd_ready_list = [],
          sd_active_Streams = for_queues (\<lambda>k. []), sd_first_phase_streams = 0, sd_total_running_streams = 0,
          sd_datasets = Map.empty, sd_max_running_streams = max_running_streams,
          sd_ready_list_threshold = ready_list_threshold, sd_queue_threshold = queue_threshold,
          sd_running_streams = (\<lambda>k. if 0 \<le> k \<and> k < int (length dims) then Some 0 else None),
          sd_latency_per_dimension = replicate (length queues) 0,
          sd_total_chunks_per_dimension = replicate (length queues) 0,
          sd_total_active_chunks_per_dimension = replicate (length queues) 0,
          sd_queue_id_to_dimension =
            (\<lambda>k. if 0 \<le> k \<and> k < int (length dims) then Some (dims ! nat k) else None),
          sd_usage = replicate (length queues) (UsageTracker_new 2)\<rparr>)"

abbreviation queue_of :: "'c sched \<Rightarrow> int \<Rightarrow> nat list" where
  "queue_of s v \<equiv> map_index (sd_active_Streams s) [] v"

abbreviation running_of :: "'c sched \<Rightarrow> int \<Rightarrow> int" where
  "running_of s v \<equiv> map_index (sd_running_streams s) 0 v"

abbreviation dimension_of :: "'c sched \<Rightarrow> int \<Rightarrow> int" where
  "dimension_of s v \<equiv> map_index (sd_queue_id_to_dimension s) 0 v"

definition deref :: "'c sched \<Rightarrow> nat \<Rightarrow> BaseStream result" where
  "deref s x = (case sd_streams s x of None \<Rightarrow> Inl (NullDeref ''stream'') | Some st \<Rightarrow> Inr st)"

section \<open>Starting streams\<close>

definition init_stream :: "runner \<Rightarrow> Tick \<Rightarrow> nat \<Rightarrow> 'c sched \<Rightarrow> 'c sched result" where
  "init_stream run now x s =
     rbind (deref s x) (\<lambda>st. rbind (StreamBaseline_init run now st) (\<lambda>st.
       Inr (s\<lparr>sd_streams := (sd_streams s)(x \<mapsto> st)\<rparr>)))"

text \<open>The loop that initialises waiting streams from the stream pointer on.\<close>

fun start_loop :: "runner \<Rightarrow> Tick \<Rightarrow> int \<Rightarrow> nat list \<Rightarrow> 'c sched \<Rightarrow> 'c sched result" where
  "start_loop run now vnet [] s = Inr s"
| "start_loop run now vnet (x # xs) s =
     (if running_of s vnet < sd_queue_threshold s then
        rbind (init_stream run now x s) (\<lambda>s.
          start_loop run now vnet xs
            (s\<lparr>sd_running_streams := (sd_running_streams s)(vnet \<mapsto> running_of s vnet + 1)\<rparr>))
      else Inr s)"

definition start_streams :: "runner \<Rightarrow> Tick \<Rightarrow> int \<Rightarrow> 'c sched \<Rightarrow> 'c sched result" where
  "start_streams run now vnet s =
     (let r = running_of s vnet in
      if r < 0 \<or> r > int (length (queue_of s vnet)) then Inl (OutOfRange ''advance(stream_pointer[vnet])'')
      else start_loop run now vnet (drop (nat r) (queue_of s vnet)) s)"

text \<open>The bookkeeping of busy dimensions, kept by system 0 only.\<close>

definition dimension_index :: "'c sched \<Rightarrow> int \<Rightarrow> nat result" where
  "dimension_index s vnet =
     (let d = dimension_of s vnet in
      if 0 \<le> d \<and> d < int (length (sd_total_active_chunks_per_dimension s)) \<and> d < int (length (sd_usage s)) \<and>
         d < int (length (sd_latency_per_dimension s)) \<and> d < int (length (sd_total_chunks_per_dimension s))
      then Inr (nat d) else Inl (OutOfRange ''dimension''))"

definition chunk_arrives :: "Tick \<Rightarrow> int \<Rightarrow> 'c sched \<Rightarrow> 'c sched result" where
  "chunk_arrives now vnet s =
     (if sd_id s \<noteq> 0 then Inr s
      else rbind (dimension_index s vnet) (\<lambda>d.
        let n = sd_total_active_chunks_per_dimension s ! d + 1;
            s = s\<lparr>sd_total_active_chunks_per_dimension := (sd_total_active_chunks_per_dimension s)[d := n]\<rparr>
        in Inr (if n = 1 then s\<lparr>sd_usage := (sd_usage s)[d := increase_usage now (sd_usage s ! d)]\<rparr> else s)))"

definition chunk_leaves :: "Tick \<Rightarrow> int \<Rightarrow> 'c sched \<Rightarrow> 'c sched result" where
  "chunk_leaves now vnet s =
     (if sd_id s \<noteq> 0 then Inr s
      else rbind (dimension_index s vnet) (\<lambda>d.
        let n = sd_total_active_chunks_per_dimension s ! d - 1;
            s = s\<lparr>sd_total_active_chunks_per_dimension := (sd_total_active_chunks_per_dimension s)[d := n]\<rparr>
        in Inr (if n = 0 then s\<lparr>sd_usage := (sd_usage s)[d := decrease_usage now (sd_usage s ! d)]\<rparr> else s)))"

definition notify_stream_added :: "runner \<Rightarrow> Tick \<Rightarrow> int \<Rightarrow> 'c sched \<Rightarrow> 'c sched result" where
  "notify_stream_added run now vnet s = rbind (chunk_arrives now vnet s) (start_streams run now vnet)"

section \<open>From phase to phase\<close>

text \<open>
  The parts of \<^verbatim>\<open>proceed_to_next_vnet_baseline\<close> in order. \<open>finish_phase\<close> closes the books of the
  phase that has ended and notifies the data set after the last one; \<open>callback\<close> is the owner's
  handler of that notification, which may add streams to the system.
\<close>

type_synonym 'c callback = "'c notification \<Rightarrow> 'c sched \<Rightarrow> 'c sched result"

definition average_latency :: "BaseStream \<Rightarrow> BaseStream result" where
  "average_latency st =
     (if bs_steps_finished st = 0 then Inr st
      else if net_message_latency st = [] then Inl (OutOfRange ''net_message_latency.back()'')
      else Inr (st\<lparr>net_message_latency := butlast (net_message_latency st) @
             [last (net_message_latency st) / of_nat (net_message_counter st)]\<rparr>))"

definition notify_dataset :: "'c callback \<Rightarrow> Tick \<Rightarrow> BaseStream \<Rightarrow> 'c sched \<Rightarrow> 'c sched result" where
  "notify_dataset callback now st s =
     (case sd_datasets s (bs_dataset st) of
        None \<Rightarrow> Inl (NullDeref ''stream->dataset'')
      | Some d \<Rightarrow>
          (let (n, d') = notify_stream_finished now (Some (StreamStat.truncate st)) d;
               s = s\<lparr>sd_datasets := (sd_datasets s)(bs_dataset st \<mapsto> d')\<rparr>
           in case n of None \<Rightarrow> Inr s | Some n \<Rightarrow> callback n s))"

definition finish_phase :: "'c callback \<Rightarrow> Tick \<Rightarrow> nat \<Rightarrow> 'c sched \<Rightarrow> 'c sched result" where
  "finish_phase callback now x s =
     rbind (deref s x) (\<lambda>st.
     rbind (average_latency st) (\<lambda>st'.
       let s = (if bs_steps_finished st = 1
                then s\<lparr>sd_first_phase_streams := sd_first_phase_streams s - 1\<rparr> else s);
           st' = st'\<lparr>bs_my_current_phase := (bs_my_current_phase st')\<lparr>cp_algorithm := None\<rparr>\<rparr>
       in if bs_phases_to_go st = []
          then (let st' = take_bus_stats_average st'
                in notify_dataset callback now st' (s\<lparr>sd_streams := (sd_streams s)(x \<mapsto> st')\<rparr>))
          else Inr (s\<lparr>sd_streams := (sd_streams s)(x \<mapsto> st')\<rparr>)))"

fun erase_first :: "('a \<Rightarrow> bool) \<Rightarrow> 'a list \<Rightarrow> 'a list" where
  "erase_first P [] = []"
| "erase_first P (x # xs) = (if P x then xs else x # erase_first P xs)"

definition leave_queue :: "nat \<Rightarrow> 'c sched \<Rightarrow> 'c sched result" where
  "leave_queue x s =
     rbind (deref s x) (\<lambda>st.
       if bs_current_queue_id st \<ge> 0 \<and> cp_enabled (bs_my_current_phase st) then
         (let v = cp_queue_id (bs_my_current_phase st) in
          case sd_active_Streams s v of
            None \<Rightarrow> Inl (OutOfRange ''active_Streams.at'')
          | Some q \<Rightarrow> Inr (s\<lparr>sd_active_Streams := (sd_active_Streams s)(v \<mapsto>
              erase_first (\<lambda>y. bs_stream_id (the (sd_streams s y)) = bs_stream_id st) q)\<rparr>))
       else Inr s)"

text \<open>The next phase, with the stream's view in the algorithm kept up to date.\<close>

definition next_phase :: "Tick \<Rightarrow> BaseStream \<Rightarrow> BaseStream" where
  "next_phase now st =
     (let p = hd (bs_phases_to_go st);
          p = (if cp_queue_id p < 0 then p\<lparr>cp_queue_id := - cp_queue_id p\<rparr> else p);
          p = CollectivePhase_init (bs_stream_id st) (cp_queue_id p) Ready p
      in st\<lparr>bs_steps_finished := bs_steps_finished st + 1, bs_current_queue_id := cp_queue_id p,
            bs_current_com_type := cp_comm_type p, bs_my_current_phase := p,
            bs_phases_to_go := tl (bs_phases_to_go st), bs_initialized := False,
            bs_last_phase_change := now, bs_total_packets_sent := 0,
            net_message_latency := net_message_latency st @ [0], net_message_counter := 0, bs_state := Ready\<rparr>)"

definition enter_queue :: "Tick \<Rightarrow> nat \<Rightarrow> 'c sched \<Rightarrow> 'c sched result" where
  "enter_queue now x s =
     rbind (deref s x) (\<lambda>st.
       let st' = next_phase now st;
           streams = (sd_streams s)(x \<mapsto> st');
           v = bs_current_queue_id st'
       in Inr (if cp_enabled (bs_my_current_phase st')
               then s\<lparr>sd_streams := streams, sd_active_Streams := (sd_active_Streams s)(v \<mapsto>
                      insert_stream (sd_intra_dimension_scheduling s) streams x (queue_of s v))\<rparr>
               else s\<lparr>sd_streams := streams\<rparr>))"

definition proceed_with ::
    "(int \<Rightarrow> Tick \<Rightarrow> 'c sched \<Rightarrow> 'c sched result) \<Rightarrow> 'c callback \<Rightarrow> runner \<Rightarrow> Tick \<Rightarrow> nat \<Rightarrow> 'c sched \<Rightarrow> 'c sched result" where
  "proceed_with removed callback run now x s =
     rbind (deref s x) (\<lambda>st0.
     let previous_vnet = bs_current_queue_id st0;
         notify_removed = (\<lambda>s. if previous_vnet \<ge> 0 then removed previous_vnet (now - bs_last_init st0) s else Inr s)
     in rbind (finish_phase callback now x s) (\<lambda>s.
        rbind (leave_queue x s) (\<lambda>s.
          if bs_phases_to_go st0 = [] then
            rbind (notify_removed (s\<lparr>sd_total_running_streams := sd_total_running_streams s - 1\<rparr>)) (\<lambda>s.
              Inr (s\<lparr>sd_streams := (sd_streams s)(x := None)\<rparr>))
          else
            rbind (enter_queue now x s) (\<lambda>s.
            rbind (notify_removed s) (\<lambda>s.
            rbind (deref s x) (\<lambda>st. notify_stream_added run now (bs_current_queue_id st) s))))))"

section \<open>Scheduling\<close>

text \<open>
  A stream in the ready list has no queue yet, so its first step removes nothing from a queue: no
  call of \<^verbatim>\<open>notify_stream_removed\<close> nests inside \<^verbatim>\<open>schedule\<close>. The model marks such a call as an
  error, and the invariant below excludes it.
\<close>

definition no_removal :: "int \<Rightarrow> Tick \<Rightarrow> 'c sched \<Rightarrow> 'c sched result" where
  "no_removal vnet running_time s = Inl (SysPanic ''notify_stream_removed inside schedule'')"

definition no_callback :: "'c callback" where
  "no_callback n s = Inl (SysPanic ''a stream of the ready list has finished'')"

fun schedule_loop :: "runner \<Rightarrow> Tick \<Rightarrow> nat \<Rightarrow> 'c sched \<Rightarrow> 'c sched result" where
  "schedule_loop run now 0 s = Inr s"
| "schedule_loop run now (Suc counter) s =
     (case sd_ready_list s of
        [] \<Rightarrow> Inl (OutOfRange ''ready_list.front()'')
      | x # _ \<Rightarrow>
          rbind (proceed_with no_removal no_callback run now x s) (\<lambda>s.
          rbind (deref s x) (\<lambda>st.
            if bs_current_queue_id st = -1 then Inl (SysPanic ''should not happen!'')
            else schedule_loop run now counter
                   (s\<lparr>sd_ready_list := tl (sd_ready_list s),
                      sd_first_phase_streams := sd_first_phase_streams s + 1,
                      sd_total_running_streams := sd_total_running_streams s + 1\<rparr>))))"

definition schedule :: "runner \<Rightarrow> Tick \<Rightarrow> int \<Rightarrow> 'c sched \<Rightarrow> 'c sched result" where
  "schedule run now num s = schedule_loop run now (nat (min num (int (length (sd_ready_list s))))) s"

text \<open>The admission test shared by the two notifications.\<close>

definition admit :: "runner \<Rightarrow> Tick \<Rightarrow> 'c sched \<Rightarrow> 'c sched result" where
  "admit run now s =
     (if sd_first_phase_streams s < sd_ready_list_threshold s \<and> sd_total_running_streams s < sd_max_running_streams s
      then schedule run now (min (sd_ready_list_threshold s - sd_first_phase_streams s)
                                 (sd_max_running_streams s - sd_total_running_streams s)) s
      else Inr s)"

definition notify_stream_added_into_ready_list :: "runner \<Rightarrow> Tick \<Rightarrow> 'c sched \<Rightarrow> 'c sched result" where
  "notify_stream_added_into_ready_list run now s = admit run now s"

definition notify_stream_removed :: "runner \<Rightarrow> Tick \<Rightarrow> int \<Rightarrow> Tick \<Rightarrow> 'c sched \<Rightarrow> 'c sched result" where
  "notify_stream_removed run now vnet running_time s =
     rbind (chunk_leaves now vnet s) (\<lambda>s.
     rbind (dimension_index s vnet) (\<lambda>d.
     rbind (admit run now
       (s\<lparr>sd_running_streams := (sd_running_streams s)(vnet \<mapsto> running_of s vnet - 1),
          sd_latency_per_dimension := (sd_latency_per_dimension s)[d := sd_latency_per_dimension s ! d + running_time],
          sd_total_chunks_per_dimension := (sd_total_chunks_per_dimension s)[d := sd_total_chunks_per_dimension s ! d + 1]\<rparr>))
       (start_streams run now vnet)))"

text \<open>A dimension without chunks has no average: the division by zero gives no number.\<close>

definition get_average_latency_per_dimension :: "'c sched \<Rightarrow> rat option list" where
  "get_average_latency_per_dimension s =
     map2 (\<lambda>latency n. if n = 0 then None else Some (of_nat latency / n)) (sd_latency_per_dimension s) (sd_total_chunks_per_dimension s)"

definition insert_into_ready_list :: "runner \<Rightarrow> Tick \<Rightarrow> nat \<Rightarrow> BaseStream \<Rightarrow> 'c sched \<Rightarrow> 'c sched result" where
  "insert_into_ready_list run now x st s =
     (let streams = (sd_streams s)(x \<mapsto> st) in
      notify_stream_added_into_ready_list run now
        (s\<lparr>sd_streams := streams,
           sd_ready_list := insert_stream (sd_intra_dimension_scheduling s) streams x (sd_ready_list s)\<rparr>))"

definition proceed_to_next_vnet_baseline ::
    "'c callback \<Rightarrow> runner \<Rightarrow> Tick \<Rightarrow> nat \<Rightarrow> 'c sched \<Rightarrow> 'c sched result" where
  "proceed_to_next_vnet_baseline callback run now x s =
     proceed_with (notify_stream_removed run now) callback run now x s"

text \<open>
  The admission of streams that wait on every system; the comparison of the unsigned size with a
  negative \<open>max_num\<close> is false, as in the code.
\<close>

definition front_stream :: "'c sched \<Rightarrow> int option" where
  "front_stream s =
     (case sd_ready_list s of [] \<Rightarrow> None | x # _ \<Rightarrow> map_option (\<lambda>st. bs_stream_id st) (sd_streams s x))"

definition ask_for_schedule ::
    "runner \<Rightarrow> Tick \<Rightarrow> (int \<rightharpoonup> int) \<Rightarrow> int \<Rightarrow> nat \<Rightarrow> 'c sched list \<Rightarrow> 'c sched list result" where
  "ask_for_schedule run now synchronizer max_num i all_sys =
     (let waiting = (\<lambda>s. int (length (sd_ready_list s)));
          own = waiting (all_sys ! i)
      in case front_stream (all_sys ! i) of
           None \<Rightarrow> Inr all_sys
         | Some front_id \<Rightarrow>
             if map_index synchronizer 0 front_id < int (length all_sys) \<or>
                list_ex (\<lambda>s. front_stream s \<noteq> Some front_id) all_sys
             then Inr all_sys
             else (let n = fold min (map waiting all_sys) (if 0 \<le> max_num \<and> max_num < own then max_num else own)
                   in fold_result (\<lambda>s acc. rbind (schedule run now n s) (\<lambda>s'. Inr (acc @ [s']))) all_sys []))"

end
