(* ===== verification/Scheduler_Invariant.thy ===== *)
theory Scheduler_Invariant
  imports Scheduler
begin

text \<open>
  The invariant of the stream scheduler and its preservation by every operation. It has three
  parts, each a predicate on the components of the state it concerns: the references between the
  lists and the store of streams, the slots of the queues, and the counters of the system.
\<close>

section \<open>The invariant\<close>

abbreviation active_set :: "(int \<Rightarrow> nat list) \<Rightarrow> nat set" where
  "active_set Q \<equiv> (\<Union>v. set (Q v))"

definition startable :: "runner \<Rightarrow> Algorithm option \<Rightarrow> bool" where
  "startable run a \<longleftrightarrow> (\<exists>b b'. a = Some b \<and> run StreamInit b = Inr b')"

text \<open>
  A phase can start in whatever queue the stream is placed. The dataset of a stream exists as long
  as the stream does.
\<close>

definition phase_ok :: "runner \<Rightarrow> int \<Rightarrow> CollectivePhase \<Rightarrow> bool" where
  "phase_ok run i p \<longleftrightarrow>
     cp_enabled p \<and> (\<forall>v. startable run (map_option (alg_init i v Ready) (cp_algorithm p)))"

definition stream_ok :: "runner \<Rightarrow> int set \<Rightarrow> BaseStream \<Rightarrow> bool" where
  "stream_ok run D st \<longleftrightarrow>
     bs_dataset st \<in> D \<and> (\<forall>p \<in> set (bs_phases_to_go st). phase_ok run (bs_stream_id st) p)"

definition waiting_ok :: "runner \<Rightarrow> int set \<Rightarrow> BaseStream \<Rightarrow> bool" where
  "waiting_ok run D st \<longleftrightarrow>
     stream_ok run D st \<and> bs_current_queue_id st = -1 \<and> bs_steps_finished st = 0 \<and>
     bs_phases_to_go st \<noteq> [] \<and> \<not> bs_initialized st"

definition active_ok :: "runner \<Rightarrow> int set \<Rightarrow> int \<Rightarrow> BaseStream \<Rightarrow> bool" where
  "active_ok run D v st \<longleftrightarrow>
     stream_ok run D st \<and> 0 \<le> v \<and> bs_current_queue_id st = v \<and>
     cp_queue_id (bs_my_current_phase st) = v \<and> cp_enabled (bs_my_current_phase st) \<and>
     1 \<le> bs_steps_finished st \<and> net_message_latency st \<noteq> [] \<and>
     (bs_initialized st \<or> startable run (cp_algorithm (bs_my_current_phase st)))"

text \<open>Every allocated stream is in the ready list, in one queue, or in the set \<open>Z\<close> of streams in transit.\<close>

definition refs_ok ::
    "runner \<Rightarrow> int set \<Rightarrow> (nat \<rightharpoonup> BaseStream) \<Rightarrow> nat list \<Rightarrow> (int \<Rightarrow> nat list) \<Rightarrow> nat set \<Rightarrow> bool" where
  "refs_ok run D str rl Q Z \<longleftrightarrow>
     finite (dom str) \<and> dom str = set rl \<union> active_set Q \<union> Z \<and>
     Z \<inter> (set rl \<union> active_set Q) = {} \<and>
     distinct rl \<and> (\<forall>v. distinct (Q v)) \<and>
     (\<forall>x \<in> set rl. waiting_ok run D (the (str x))) \<and>
     (\<forall>v. \<forall>x \<in> set (Q v). active_ok run D v (the (str x))) \<and>
     inj_on (\<lambda>x. bs_stream_id (the (str x))) (dom str)"

text \<open>
  The initialised streams of a queue are its first ones, as many as the counter says and at most
  the threshold; outside the set \<open>X\<close> no stream of the queue waits while a slot is free.
\<close>

definition slots_ok ::
    "(nat \<rightharpoonup> BaseStream) \<Rightarrow> (int \<Rightarrow> nat list) \<Rightarrow> (int \<Rightarrow> int) \<Rightarrow> int \<Rightarrow> int set \<Rightarrow> bool" where
  "slots_ok str Q R threshold X \<longleftrightarrow>
     (\<forall>v. 0 \<le> R v \<and> R v \<le> int (length (Q v)) \<and> R v \<le> threshold \<and>
          (\<forall>i < length (Q v). bs_initialized (the (str (Q v ! i))) \<longleftrightarrow> int i < R v) \<and>
          (v \<notin> X \<longrightarrow> R v = int (length (Q v)) \<or> R v = threshold))"

definition first_phase_set :: "(nat \<rightharpoonup> BaseStream) \<Rightarrow> (int \<Rightarrow> nat list) \<Rightarrow> nat set" where
  "first_phase_set str Q = {x \<in> active_set Q. bs_steps_finished (the (str x)) = 1}"

definition counts_ok :: "(nat \<rightharpoonup> BaseStream) \<Rightarrow> (int \<Rightarrow> nat list) \<Rightarrow> int \<Rightarrow> int \<Rightarrow> bool" where
  "counts_ok str Q first_phase running \<longleftrightarrow>
     int (card (first_phase_set str Q)) = first_phase \<and> int (card (active_set Q)) = running"

section \<open>References\<close>

lemma refs_okI:
  assumes "finite (dom str)" "dom str = set rl \<union> active_set Q \<union> Z" "Z \<inter> (set rl \<union> active_set Q) = {}"
    and "distinct rl" "\<And>v. distinct (Q v)" "\<And>x. x \<in> set rl \<Longrightarrow> waiting_ok run D (the (str x))"
    and "\<And>v x. x \<in> set (Q v) \<Longrightarrow> active_ok run D v (the (str x))"
    and "inj_on (\<lambda>x. bs_stream_id (the (str x))) (dom str)"
  shows "refs_ok run D str rl Q Z"
  using assms by (simp add: refs_ok_def)

lemma refs_okD:
  assumes "refs_ok run D str rl Q Z"
  shows "finite (dom str)" "dom str = set rl \<union> active_set Q \<union> Z" "Z \<inter> (set rl \<union> active_set Q) = {}"
    and "distinct rl" "distinct (Q v)" "x \<in> set rl \<Longrightarrow> waiting_ok run D (the (str x))"
    and "x \<in> set (Q v) \<Longrightarrow> active_ok run D v (the (str x))"
    and "inj_on (\<lambda>x. bs_stream_id (the (str x))) (dom str)"
  using assms unfolding refs_ok_def by blast+

lemma refs_ready:
  assumes "refs_ok run D str rl Q Z" "x \<in> set rl"
  shows "\<exists>st. str x = Some st \<and> waiting_ok run D st" "\<forall>v. x \<notin> set (Q v)" "x \<notin> Z"
proof -
  have "x \<in> dom str" "x \<notin> Z" using refs_okD(2,3) [OF assms(1)] assms(2) by blast+
  moreover have w: "waiting_ok run D (the (str x))" using refs_okD(6) [OF assms] .
  ultimately show "\<exists>st. str x = Some st \<and> waiting_ok run D st" "x \<notin> Z" by auto
  show "\<forall>v. x \<notin> set (Q v)"
    using refs_okD(7) [OF assms(1), of x] w by (auto simp: waiting_ok_def active_ok_def)
qed

lemma refs_active:
  assumes "refs_ok run D str rl Q Z" "x \<in> set (Q v)"
  shows "\<exists>st. str x = Some st \<and> active_ok run D v st"
proof -
  have "x \<in> dom str" using refs_okD(2) [OF assms(1)] assms(2) by blast
  then show ?thesis using refs_okD(7) [of run D str rl Q Z x v] assms by auto
qed

lemma refs_queue_unique:
  assumes "refs_ok run D str rl Q Z" "x \<in> set (Q v)" "x \<in> set (Q w)"
  shows "w = v"
  using refs_okD(7) [of run D str rl Q Z x v] refs_okD(7) [of run D str rl Q Z x w] assms
  by (simp add: active_ok_def)

lemma refs_index_unique:
  assumes "refs_ok run D str rl Q Z" "i < length (Q v)" "j < length (Q w)" "Q v ! i = Q w ! j"
  shows "w = v \<and> j = i"
proof -
  have "Q v ! i \<in> set (Q v)" "Q w ! j \<in> set (Q w)" using assms(2,3) by simp_all
  then have "w = v" using refs_queue_unique [OF assms(1)] assms(4) by metis
  then show ?thesis
    using assms(2-4) refs_okD(5) [OF assms(1), of v] by (simp add: nth_eq_iff_index_eq)
qed

lemma ids_update:
  assumes "bs_stream_id st = bs_stream_id (the (str x))"
  shows "(\<lambda>y. bs_stream_id (the ((str(x \<mapsto> st)) y))) = (\<lambda>y. bs_stream_id (the (str y)))"
  using assms by (intro ext) simp

lemma refs_update_active:
  assumes "refs_ok run D str rl Q Z" "x \<in> set (Q v)"
    and "active_ok run D v st" "bs_stream_id st = bs_stream_id (the (str x))"
  shows "refs_ok run D (str(x \<mapsto> st)) rl Q Z"
proof (rule refs_okI)
  have "x \<in> dom str" using refs_okD(2) [OF assms(1)] assms(2) by blast
  then have d: "dom (str(x \<mapsto> st)) = dom str" by auto
  have new: "x \<notin> set rl" using refs_ready(2) [OF assms(1)] assms(2) by blast
  show "finite (dom (str(x \<mapsto> st)))" "dom (str(x \<mapsto> st)) = set rl \<union> active_set Q \<union> Z"
    "Z \<inter> (set rl \<union> active_set Q) = {}" "distinct rl" "distinct (Q w)" for w
    unfolding d by (rule refs_okD [OF assms(1)])+
  show "waiting_ok run D (the ((str(x \<mapsto> st)) y))" if "y \<in> set rl" for y
    using refs_okD(6) [OF assms(1) that] that new by auto
  show "active_ok run D w (the ((str(x \<mapsto> st)) y))" if "y \<in> set (Q w)" for w y
    using refs_okD(7) [OF assms(1) that] that assms(3) refs_queue_unique [OF assms(1,2), of w] by auto
  show "inj_on (\<lambda>y. bs_stream_id (the ((str(x \<mapsto> st)) y))) (dom (str(x \<mapsto> st)))"
    unfolding d ids_update [of st str x, OF assms(4)] by (rule refs_okD(8) [OF assms(1)])
qed

lemma refs_pop:
  assumes "refs_ok run D str (x # rl) Q Z"
  shows "refs_ok run D str rl Q (insert x Z)"
proof (rule refs_okI)
  have new: "\<forall>v. x \<notin> set (Q v)" using refs_ready(2) [OF assms, of x] by simp
  show "dom str = set rl \<union> active_set Q \<union> insert x Z" using refs_okD(2) [OF assms] by auto
  show "insert x Z \<inter> (set rl \<union> active_set Q) = {}"
    using refs_okD(3,4) [OF assms] new by auto
  show "distinct rl" using refs_okD(4) [OF assms] by simp
  show "waiting_ok run D (the (str y))" if "y \<in> set rl" for y
    using refs_okD(6) [OF assms, of y] that by simp
qed (use refs_okD [OF assms] in blast)+

lemma refs_leave:
  assumes "refs_ok run D str rl Q Z" "x \<in> set (Q v)"
  shows "refs_ok run D str rl (Q(v := remove1 x (Q v))) (insert x Z)"
proof (rule refs_okI)
  let ?Q = "Q(v := remove1 x (Q v))"
  have set_Q: "set (?Q w) = set (Q w) - {x}" for w
    using refs_okD(5) [OF assms(1), of v] refs_queue_unique [OF assms, of w] by auto
  have eq: "active_set ?Q = active_set Q - {x}" unfolding set_Q by blast
  have new: "x \<notin> set rl" "x \<notin> Z" "x \<in> active_set Q"
    using refs_ready(2) [OF assms(1)] refs_okD(3) [OF assms(1)] assms(2) by blast+
  show "dom str = set rl \<union> active_set ?Q \<union> insert x Z"
    unfolding eq refs_okD(2) [OF assms(1)] using new by blast
  show "insert x Z \<inter> (set rl \<union> active_set ?Q) = {}"
    unfolding eq using refs_okD(3) [OF assms(1)] new by blast
  show "distinct (?Q w)" for w using refs_okD(5) [OF assms(1)] by simp
  show "active_ok run D w (the (str y))" if "y \<in> set (?Q w)" for w y
    using refs_okD(7) [OF assms(1), of y w] that unfolding set_Q by blast
qed (use refs_okD [OF assms(1)] in blast)+

lemma set_insert_at: "set (insert_at n x xs) = insert x (set xs)"
  by (metis append_take_drop_id insert_at_def list.simps(15) set_append Un_insert_right)

lemma distinct_insert_at: "distinct xs \<Longrightarrow> x \<notin> set xs \<Longrightarrow> distinct (insert_at n x xs)"
  using set_take_disj_set_drop_if_distinct [of xs n n]
  by (auto simp: insert_at_def dest: in_set_takeD in_set_dropD)

lemma active_set_split: "active_set Q = set (Q v) \<union> (\<Union>w \<in> - {v}. set (Q w))"
  by blast

lemma active_set_insert: "active_set (Q(v := insert_at n x (Q v))) = insert x (active_set Q)"
  unfolding active_set_split [of _ v] by (simp add: set_insert_at)

lemma refs_enter:
  assumes "refs_ok run D str rl Q Z" "x \<in> Z"
    and "active_ok run D v st" "bs_stream_id st = bs_stream_id (the (str x))"
  shows "refs_ok run D (str(x \<mapsto> st)) rl (Q(v := insert_at n x (Q v))) (Z - {x})"
proof (rule refs_okI)
  let ?Q = "Q(v := insert_at n x (Q v))"
  have new: "x \<notin> active_set Q" "x \<notin> set rl" using refs_okD(3) [OF assms(1)] assms(2) by blast+
  have "x \<in> dom str" using refs_okD(2) [OF assms(1)] assms(2) by blast
  then have d: "dom (str(x \<mapsto> st)) = dom str" by auto
  show "dom (str(x \<mapsto> st)) = set rl \<union> active_set ?Q \<union> (Z - {x})"
    unfolding d active_set_insert refs_okD(2) [OF assms(1)] using assms(2) by blast
  show "(Z - {x}) \<inter> (set rl \<union> active_set ?Q) = {}"
    unfolding active_set_insert using refs_okD(3) [OF assms(1)] by blast
  show "distinct (?Q w)" for w
    using refs_okD(5) [OF assms(1)] new by (auto intro: distinct_insert_at)
  show "waiting_ok run D (the ((str(x \<mapsto> st)) y))" if "y \<in> set rl" for y
    using refs_okD(6) [OF assms(1) that] that new(2) by auto
  show "active_ok run D w (the ((str(x \<mapsto> st)) y))" if "y \<in> set (?Q w)" for w y
  proof (cases "y = x")
    case True
    then have "w = v" using that new(1) by (auto split: if_splits)
    then show ?thesis using True assms(3) by simp
  next
    case False
    then have "y \<in> set (Q w)" using that by (auto simp: set_insert_at split: if_splits)
    then show ?thesis using refs_okD(7) [OF assms(1)] False by simp
  qed
  show "inj_on (\<lambda>y. bs_stream_id (the ((str(x \<mapsto> st)) y))) (dom (str(x \<mapsto> st)))"
    unfolding d ids_update [of st str x, OF assms(4)] by (rule refs_okD(8) [OF assms(1)])
qed (use refs_okD [OF assms(1)] in auto)

definition fresh_id :: "(nat \<rightharpoonup> BaseStream) \<Rightarrow> int \<Rightarrow> bool" where
  "fresh_id str i \<longleftrightarrow> (\<forall>y \<in> dom str. bs_stream_id (the (str y)) \<noteq> i)"

lemma refs_insert_ready:
  assumes "refs_ok run D str rl Q Z" "str x = None" "waiting_ok run D st" "fresh_id str (bs_stream_id st)"
  shows "refs_ok run D (str(x \<mapsto> st)) (insert_at n x rl) Q Z"
proof (rule refs_okI)
  have "x \<notin> dom str" using assms(2) by blast
  then have new: "x \<notin> active_set Q" "x \<notin> set rl" "x \<notin> Z"
    unfolding refs_okD(2) [OF assms(1)] by blast+
  show "dom (str(x \<mapsto> st)) = set (insert_at n x rl) \<union> active_set Q \<union> Z"
    using refs_okD(2) [OF assms(1)] by (simp add: set_insert_at)
  show "Z \<inter> (set (insert_at n x rl) \<union> active_set Q) = {}"
    using refs_okD(3) [OF assms(1)] new by (simp add: set_insert_at)
  show "distinct (insert_at n x rl)" using refs_okD(4) [OF assms(1)] new by (simp add: distinct_insert_at)
  show "waiting_ok run D (the ((str(x \<mapsto> st)) y))" if "y \<in> set (insert_at n x rl)" for y
    using refs_okD(6) [OF assms(1), of y] that assms(3) by (auto simp: set_insert_at)
  show "active_ok run D w (the ((str(x \<mapsto> st)) y))" if "y \<in> set (Q w)" for w y
  proof -
    have "y \<noteq> x" using that new(1) by blast
    then show ?thesis using refs_okD(7) [OF assms(1) that] by simp
  qed
  show "inj_on (\<lambda>y. bs_stream_id (the ((str(x \<mapsto> st)) y))) (dom (str(x \<mapsto> st)))"
  proof (rule inj_onI)
    let ?id = "\<lambda>y. bs_stream_id (the ((str(x \<mapsto> st)) y))"
    fix y z
    assume yz: "y \<in> dom (str(x \<mapsto> st))" "z \<in> dom (str(x \<mapsto> st))" "?id y = ?id z"
    have old: "?id w \<noteq> bs_stream_id st" if "w \<in> dom (str(x \<mapsto> st))" "w \<noteq> x" for w
      using assms(4) that by (simp add: fresh_id_def)
    show "y = z"
    proof (cases "y = x \<or> z = x")
      case True
      then show ?thesis using yz old by (metis fun_upd_same option.sel)
    next
      case False
      then show ?thesis using yz inj_onD [OF refs_okD(8) [OF assms(1)], of y z] by simp
    qed
  qed
qed (use refs_okD [OF assms(1)] in auto)

lemma refs_delete:
  assumes "refs_ok run D str rl Q Z" "x \<in> Z"
  shows "refs_ok run D (str(x := None)) rl Q (Z - {x})"
proof (rule refs_okI)
  have new: "x \<notin> active_set Q" "x \<notin> set rl" using refs_okD(3) [OF assms(1)] assms(2) by blast+
  show "dom (str(x := None)) = set rl \<union> active_set Q \<union> (Z - {x})"
    using refs_okD(2) [OF assms(1)] new by auto
  show "(Z - {x}) \<inter> (set rl \<union> active_set Q) = {}" using refs_okD(3) [OF assms(1)] by blast
  show "waiting_ok run D (the ((str(x := None)) y))" if "y \<in> set rl" for y
    using refs_okD(6) [OF assms(1) that] that new(2) by auto
  show "active_ok run D w (the ((str(x := None)) y))" if "y \<in> set (Q w)" for w y
  proof -
    have "y \<noteq> x" using that new(1) by blast
    then show ?thesis using refs_okD(7) [OF assms(1) that] by simp
  qed
  show "inj_on (\<lambda>y. bs_stream_id (the ((str(x := None)) y))) (dom (str(x := None)))"
    using refs_okD(8) [OF assms(1)] by (auto simp: inj_on_def)
qed (use refs_okD [OF assms(1)] in auto)

section \<open>Slots\<close>

lemma slots_okD:
  assumes "slots_ok str Q R threshold X"
  shows "0 \<le> R v" "R v \<le> int (length (Q v))" "R v \<le> threshold"
    and "i < length (Q v) \<Longrightarrow> bs_initialized (the (str (Q v ! i))) \<longleftrightarrow> int i < R v"
    and "v \<notin> X \<Longrightarrow> R v = int (length (Q v)) \<or> R v = threshold"
  using assms by (simp_all add: slots_ok_def)

lemma slots_mono: "slots_ok str Q R threshold X \<Longrightarrow> X \<subseteq> Y \<Longrightarrow> slots_ok str Q R threshold Y"
  unfolding slots_ok_def by blast

lemma slots_full:
  assumes "slots_ok str Q R threshold X" "R v = int (length (Q v)) \<or> R v = threshold"
  shows "slots_ok str Q R threshold (X - {v})"
  using assms unfolding slots_ok_def by blast

text \<open>A change of the store that keeps the flags of the queued streams keeps the slots.\<close>

lemma slots_store:
  assumes "slots_ok str Q R threshold X"
    and "\<And>x. x \<in> active_set Q \<Longrightarrow> bs_initialized (the (str' x)) = bs_initialized (the (str x))"
  shows "slots_ok str' Q R threshold X"
proof -
  have "bs_initialized (the (str' (Q v ! i))) = bs_initialized (the (str (Q v ! i)))"
    if "i < length (Q v)" for v i using assms(2) [of "Q v ! i"] nth_mem [OF that] by blast
  then show ?thesis using assms(1) by (simp add: slots_ok_def)
qed

lemma slots_start:
  assumes "refs_ok run D str rl Q Z" "slots_ok str Q R threshold X"
    and "R v < int (length (Q v))" "R v < threshold" "bs_initialized st"
  shows "slots_ok (str(Q v ! nat (R v) \<mapsto> st)) Q (R(v := R v + 1)) threshold (insert v X)"
proof -
  let ?n = "nat (R v)" and ?x = "Q v ! nat (R v)"
  have n: "?n < length (Q v)" "int ?n = R v" using assms(3) slots_okD(1) [OF assms(2), of v] by linarith+
  have flag: "bs_initialized (the ((str(?x \<mapsto> st)) (Q w ! i))) \<longleftrightarrow> int i < (R(v := R v + 1)) w"
    if i: "i < length (Q w)" for w i
  proof (cases "w = v \<and> i = ?n")
    case True
    then show ?thesis using assms(5) n by simp
  next
    case False
    then have "Q w ! i \<noteq> ?x" using refs_index_unique [OF assms(1) n(1) i] by metis
    then show ?thesis using False slots_okD(4) [OF assms(2) i] n by auto
  qed
  show ?thesis
    using assms(3,4) slots_okD [OF assms(2)] flag unfolding slots_ok_def by simp
qed

lemma slots_leave:
  assumes "slots_ok str Q R threshold X" "distinct (Q v)" "x \<in> set (Q v)" "bs_initialized (the (str x))"
  shows "slots_ok str (Q(v := remove1 x (Q v))) (R(v := R v - 1)) threshold (insert v X)"
proof -
  obtain i where i: "i < length (Q v)" "x = Q v ! i" using assms(3) by (metis in_set_conv_nth)
  have bound: "R v - 1 < int (length (Q v))" "R v - 1 \<le> threshold"
    using slots_okD(2,3) [OF assms(1), of v] by linarith+
  have iR: "int i < R v" using slots_okD(4) [OF assms(1) i(1)] assms(4) i(2) by simp
  have rem: "remove1 x (Q v) = take i (Q v) @ drop (Suc i) (Q v)"
  proof -
    have "Q v = take i (Q v) @ x # drop (Suc i) (Q v)" using id_take_nth_drop [OF i(1)] i(2) by simp
    moreover have "x \<notin> set (take i (Q v))"
      using assms(2) i by (metis distinct_take in_set_conv_nth length_take less_irrefl min.absorb3
        nth_eq_iff_index_eq nth_take order_less_trans min_less_iff_conj)
    ultimately show ?thesis by (metis remove1.simps(2) remove1_append)
  qed
  have flag: "bs_initialized (the (str (remove1 x (Q v) ! j))) \<longleftrightarrow> int j < R v - 1"
    if "j < length (remove1 x (Q v))" for j
  proof -
    have "j < length (Q v) - 1" using that i(1) by (simp add: rem)
    then show ?thesis
      using slots_okD(4) [OF assms(1), of j v] slots_okD(4) [OF assms(1), of "Suc j" v] i(1) iR
      by (auto simp: rem nth_append)
  qed
  have "int (length (remove1 x (Q v))) = int (length (Q v)) - 1" using i(1) by (simp add: rem)
  then show ?thesis
    using slots_okD [OF assms(1)] bound flag iR unfolding slots_ok_def by auto
qed

lemma slots_enter:
  assumes "slots_ok str Q R threshold X" "x \<notin> active_set Q" "\<not> bs_initialized st"
    and "R v \<le> int n" "n \<le> length (Q v)"
  shows "slots_ok (str(x \<mapsto> st)) (Q(v := insert_at n x (Q v))) R threshold (insert v X)"
proof -
  let ?Q = "Q(v := insert_at n x (Q v))"
  have bound: "R v \<le> 1 + int (length (Q v))" using slots_okD(2) [OF assms(1), of v] by linarith
  have len: "length (insert_at n x (Q v)) = Suc (length (Q v))" using assms(5) by (simp add: insert_at_def)
  have old: "bs_initialized (the ((str(x \<mapsto> st)) (Q w ! i))) \<longleftrightarrow> int i < R w" if "i < length (Q w)" for w i
  proof -
    have "Q w ! i \<noteq> x" using assms(2) nth_mem [OF that] by blast
    then show ?thesis using slots_okD(4) [OF assms(1) that] by simp
  qed
  have flag: "bs_initialized (the ((str(x \<mapsto> st)) (insert_at n x (Q v) ! i))) \<longleftrightarrow> int i < R v"
    if "i < Suc (length (Q v))" for i
  proof -
    consider "i < n" | "i = n" | j where "i = Suc j" "n \<le> j" by (metis not_less_iff_gr_or_eq less_iff_Suc_add le_add1)
    then show ?thesis
    proof cases
      case 1
      then have "insert_at n x (Q v) ! i = Q v ! i" using assms(5) by (simp add: insert_at_def nth_append)
      then show ?thesis using old [of i v] 1 assms(5) by simp
    next
      case 2
      then have "insert_at n x (Q v) ! i = x" using assms(5) by (simp add: insert_at_def nth_append)
      then show ?thesis using 2 assms(3,4) by simp
    next
      case 3
      then have "insert_at n x (Q v) ! i = Q v ! j" using assms(5) that by (simp add: insert_at_def nth_append min_def)
      then show ?thesis using old [of j v] 3 that assms(4) by simp
    qed
  qed
  show ?thesis
    using slots_okD [OF assms(1)] bound flag old len unfolding slots_ok_def by simp
qed

section \<open>Positions\<close>

lemma skip_while_bounds:
  assumes "\<forall>i < n. bs_initialized (q ! i)" "n \<le> length q"
  shows "n \<le> skip_while P q \<and> skip_while P q \<le> length q"
  using assms
proof (induction q arbitrary: n)
  case (Cons x q)
  then show ?case
  proof (cases n)
    case 0
    then show ?thesis using Cons.IH [of 0] by simp
  next
    case (Suc m)
    then have "bs_initialized x" "\<forall>i < m. bs_initialized (q ! i)" using Cons.prems(1) by auto
    then show ?thesis using Cons.IH [of m] Cons.prems(2) Suc by simp
  qed
qed simp

lemma skip_rg_le: "skip_rg p a b q \<le> length q"
proof (induction p a b q rule: skip_rg.induct)
  case (2 p a b x xs)
  have "Suc k \<le> length xs" if "xs \<noteq> []" "k \<le> length xs - Suc 0" for k
    using that by (cases xs) simp_all
  then show ?case
    by (subst skip_rg.simps(2)) (use "2.IH" [OF refl] in \<open>auto simp: Let_def\<close>)
qed simp

lemma skip_rg_bounds:
  assumes "\<forall>i < n. bs_initialized (q ! i)" "n \<le> length q"
  shows "n \<le> skip_rg p a b q \<and> skip_rg p a b q \<le> length q"
  using assms
proof (induction p a b q arbitrary: n rule: skip_rg.induct)
  case (2 p a b x xs)
  let ?com = "bs_current_com_type x"
  show ?case
  proof (cases n)
    case 0
    then show ?thesis using skip_rg_le [of p a b "x # xs"] by simp
  next
    case (Suc m)
    have x: "bs_initialized x" and m: "\<forall>i < m. bs_initialized (xs ! i)" "m \<le> length xs"
      using "2.prems" Suc by auto
    show ?thesis
    proof (cases "xs \<noteq> [] \<and> \<not> bs_initialized (hd xs)")
      case True
      then obtain y ys where xs: "xs = y # ys" by (cases xs) auto
      then have "m = 0" using True m(1) by (cases m) auto
      then show ?thesis using "2.IH"(1) [OF refl x True, of 0] x True xs Suc by (simp add: Let_def)
    next
      case False
      then show ?thesis using "2.IH"(2) [OF refl x False m] x Suc by (auto simp: Let_def)
    qed
  qed
qed simp

lemma insert_position_bounds:
  assumes "\<forall>i < n. bs_initialized (q ! i)" "n \<le> length q"
  shows "n \<le> insert_position intra b q \<and> insert_position intra b q \<le> length q"
proof (cases "intra = IntraFIFO \<or> bs_current_queue_id b < 0 \<or> bs_current_com_type b = All_to_All \<or>
    bs_current_com_type b = All_Reduce")
  case True
  then show ?thesis unfolding insert_position_def by (simp only: if_True skip_while_bounds [OF assms] simp_thms)
next
  case False
  then show ?thesis
    using skip_while_bounds [OF assms] skip_rg_bounds [OF assms] assms(2)
    unfolding insert_position_def if_not_P [OF False] by (cases intra) auto
qed

lemma slots_insert_position:
  assumes "slots_ok str Q R threshold X" and that: "\<And>y. y \<in> set (Q v) \<Longrightarrow> str' y = str y"
  shows "R v \<le> int (insert_position intra b (map (\<lambda>y. the (str' y)) (Q v))) \<and>
    insert_position intra b (map (\<lambda>y. the (str' y)) (Q v)) \<le> length (Q v)"
proof -
  let ?q = "map (\<lambda>y. the (str' y)) (Q v)"
  have "\<forall>i < nat (R v). bs_initialized (?q ! i)"
  proof (intro allI impI)
    fix i assume i: "i < nat (R v)"
    then have "i < length (Q v)" using slots_okD(2) [OF assms(1), of v] by linarith
    then show "bs_initialized (?q ! i)" using slots_okD(4) [OF assms(1)] i that by simp
  qed
  moreover have "nat (R v) \<le> length ?q" using slots_okD(2) [OF assms(1), of v] by simp
  ultimately have "nat (R v) \<le> insert_position intra b ?q \<and> insert_position intra b ?q \<le> length ?q"
    by (rule insert_position_bounds)
  then show ?thesis by (simp add: nat_le_iff)
qed

section \<open>Counters\<close>

lemma counts_store:
  assumes "counts_ok str Q f t"
    and "\<And>x. x \<in> active_set Q \<Longrightarrow> bs_steps_finished (the (str' x)) = bs_steps_finished (the (str x))"
  shows "counts_ok str' Q f t"
proof -
  have "first_phase_set str' Q = first_phase_set str Q"
    unfolding first_phase_set_def by (rule Collect_cong) (metis assms(2))
  then show ?thesis using assms(1) by (simp add: counts_ok_def)
qed

lemma int_card_remove:
  "finite A \<Longrightarrow> int (card (A - {x})) = (if x \<in> A then int (card A) - 1 else int (card A))"
  using card_gt_0_iff [of A] by (cases "x \<in> A") auto

lemma int_card_insert:
  "finite A \<Longrightarrow> int (card (insert x A)) = (if x \<in> A then int (card A) else int (card A) + 1)"
  by (simp add: card_insert_if)

lemma first_phase_finite:
  assumes "refs_ok run D str rl Q Z"
  shows "finite (active_set Q)" "finite (first_phase_set str Q)"
proof -
  show fin: "finite (active_set Q)" using refs_okD(1,2) [OF assms] by (metis finite_Un)
  show "finite (first_phase_set str Q)"
    unfolding first_phase_set_def by (rule finite_subset [OF _ fin]) blast
qed

lemma counts_leave:
  assumes "counts_ok str Q f t" "refs_ok run D str rl Q Z" "x \<in> set (Q v)"
  shows "counts_ok str (Q(v := remove1 x (Q v)))
    (if bs_steps_finished (the (str x)) = 1 then f - 1 else f) (t - 1)"
proof -
  let ?Q = "Q(v := remove1 x (Q v))"
  have set_Q: "set (?Q w) = set (Q w) - {x}" for w
    using refs_okD(5) [OF assms(2), of v] refs_queue_unique [OF assms(2,3), of w] by auto
  have eq: "active_set ?Q = active_set Q - {x}" unfolding set_Q by blast
  have x: "x \<in> active_set Q" using assms(3) by blast
  have fp: "first_phase_set str ?Q = first_phase_set str Q - {x}"
    unfolding first_phase_set_def eq by blast
  have "x \<in> first_phase_set str Q \<longleftrightarrow> bs_steps_finished (the (str x)) = 1"
    unfolding first_phase_set_def using x by blast
  then show ?thesis
    unfolding counts_ok_def eq fp int_card_remove [OF first_phase_finite(1) [OF assms(2)]]
      int_card_remove [OF first_phase_finite(2) [OF assms(2)]]
    using assms(1) x unfolding counts_ok_def by presburger
qed

lemma counts_enter:
  assumes "counts_ok str Q f t" "refs_ok run D str rl Q Z" "x \<in> Z"
  shows "counts_ok (str(x \<mapsto> st)) (Q(v := insert_at n x (Q v)))
    (if bs_steps_finished st = 1 then f + 1 else f) (t + 1)"
proof -
  let ?Q = "Q(v := insert_at n x (Q v))"
  have new: "x \<notin> active_set Q" using refs_okD(3) [OF assms(2)] assms(3) by blast
  have fp: "first_phase_set (str(x \<mapsto> st)) ?Q =
    (if bs_steps_finished st = 1 then insert x (first_phase_set str Q) else first_phase_set str Q)"
    unfolding first_phase_set_def active_set_insert using new by auto
  have "x \<notin> first_phase_set str Q" unfolding first_phase_set_def using new by blast
  then show ?thesis
    unfolding counts_ok_def active_set_insert fp int_card_insert [OF first_phase_finite(1) [OF assms(2)]]
    using assms(1) new int_card_insert [OF first_phase_finite(2) [OF assms(2)], of x]
    unfolding counts_ok_def by presburger
qed

end
