(* ===== verification/Scheduler_Runs.thy ===== *)
theory Scheduler_Runs
  imports Scheduler_Invariant
begin

text \<open>
  The operations of the stream scheduler keep its invariant: starting streams in a queue, taking
  streams from the ready list, adding a stream, and taking a stream to its next phase. None of them
  can fail, whatever the policy, and after each of them no stream waits while the limits leave room
  for it.
\<close>

section \<open>The invariant on states\<close>

lemma map_index_upd [simp]: "map_index (m(k \<mapsto> x)) d = (map_index m d)(k := x)"
  by (rule ext) (simp add: map_index_def)

definition dims_ok :: "'c sched \<Rightarrow> bool" where
  "dims_ok s \<longleftrightarrow>
     length (sd_total_chunks_per_dimension s) = length (sd_latency_per_dimension s) \<and>
     length (sd_total_active_chunks_per_dimension s) = length (sd_latency_per_dimension s) \<and>
     length (sd_usage s) = length (sd_latency_per_dimension s) \<and>
     (\<forall>v. 0 \<le> dimension_of s v \<and> dimension_of s v < int (length (sd_latency_per_dimension s)))"

definition sched_ok :: "runner \<Rightarrow> nat list \<Rightarrow> nat set \<Rightarrow> int set \<Rightarrow> 'c sched \<Rightarrow> bool" where
  "sched_ok run rl Z X s \<longleftrightarrow>
     refs_ok run (dom (sd_datasets s)) (sd_streams s) rl (queue_of s) Z \<and>
     slots_ok (sd_streams s) (queue_of s) (running_of s) (sd_queue_threshold s) X \<and> dims_ok s"

definition sched_counts :: "int \<Rightarrow> int \<Rightarrow> 'c sched \<Rightarrow> bool" where
  "sched_counts k j s \<longleftrightarrow>
     counts_ok (sd_streams s) (queue_of s) (sd_first_phase_streams s + k) (sd_total_running_streams s + j)"

lemma sched_okD:
  assumes "sched_ok run rl Z X s"
  shows "refs_ok run (dom (sd_datasets s)) (sd_streams s) rl (queue_of s) Z"
    and "slots_ok (sd_streams s) (queue_of s) (running_of s) (sd_queue_threshold s) X"
    and "dims_ok s"
  using assms by (simp_all add: sched_ok_def)

lemma dimension_index_ok:
  assumes "dims_ok s"
  shows "\<exists>d. dimension_index s v = Inr d"
proof -
  have "0 \<le> dimension_of s v" "dimension_of s v < int (length (sd_latency_per_dimension s))"
    using assms unfolding dims_ok_def by blast+
  then show ?thesis using assms unfolding dims_ok_def dimension_index_def by (simp add: Let_def)
qed

text \<open>The identities of the allocated streams.\<close>

definition sched_ids :: "'c sched \<Rightarrow> nat \<rightharpoonup> int" where
  "sched_ids s = (\<lambda>x. map_option (\<lambda>st. bs_stream_id st) (sd_streams s x))"

text \<open>What every operation leaves alone.\<close>

definition keeps :: "'c sched \<Rightarrow> 'c sched \<Rightarrow> bool" where
  "keeps s s' \<longleftrightarrow>
     (\<forall>v. set (queue_of s v) \<subseteq> set (queue_of s' v)) \<and>
     (\<forall>x st. sd_streams s x = Some st \<longrightarrow> bs_initialized st \<longrightarrow> sd_streams s' x = Some st) \<and>
     sd_max_running_streams s' = sd_max_running_streams s \<and>
     sd_ready_list_threshold s' = sd_ready_list_threshold s \<and>
     sd_queue_threshold s' = sd_queue_threshold s \<and> dom (sd_datasets s) \<subseteq> dom (sd_datasets s')"

lemma keeps_refl [simp]: "keeps s s"
  by (simp add: keeps_def)

lemma keeps_trans: "keeps s1 s2 \<Longrightarrow> keeps s2 s3 \<Longrightarrow> keeps s1 s3"
  unfolding keeps_def by (metis order_trans)

lemma keepsD:
  assumes "keeps s s'"
  shows "x \<in> set (queue_of s v) \<Longrightarrow> x \<in> set (queue_of s' v)"
    and "sd_streams s x = Some st \<Longrightarrow> bs_initialized st \<Longrightarrow> sd_streams s' x = Some st"
    and "sd_max_running_streams s' = sd_max_running_streams s"
    and "sd_ready_list_threshold s' = sd_ready_list_threshold s"
    and "sd_queue_threshold s' = sd_queue_threshold s"
    and "dom (sd_datasets s) \<subseteq> dom (sd_datasets s')"
  using assms unfolding keeps_def by blast+

definition sched_limits :: "'c sched \<Rightarrow> int \<times> int \<times> int" where
  "sched_limits s = (sd_max_running_streams s, sd_ready_list_threshold s, sd_queue_threshold s)"

lemma keeps_limits: "keeps s s' \<Longrightarrow> sched_limits s' = sched_limits s"
  by (simp add: keeps_def sched_limits_def)

section \<open>Starting streams\<close>

lemma run_phase_startable:
  assumes "startable run (cp_algorithm (bs_my_current_phase st))"
  shows "\<exists>a. run_phase run StreamInit st =
    Inr (st\<lparr>bs_my_current_phase := (bs_my_current_phase st)\<lparr>cp_algorithm := a\<rparr>\<rparr>)"
  using assms by (auto simp: startable_def run_phase_def)

lemma init_active:
  assumes "active_ok run D v st" "\<not> bs_initialized st"
  shows "\<exists>st'. StreamBaseline_init run now st = Inr st' \<and> active_ok run D v st' \<and> bs_initialized st' \<and>
    bs_stream_id st' = bs_stream_id st \<and> bs_steps_finished st' = bs_steps_finished st"
proof -
  let ?st = "st\<lparr>bs_initialized := True, bs_last_init := now\<rparr>"
  have "startable run (cp_algorithm (bs_my_current_phase ?st))" "cp_enabled (bs_my_current_phase ?st)"
    using assms by (simp_all add: active_ok_def)
  from run_phase_startable [OF this(1)] this(2) obtain a where
    "run_phase run StreamInit ?st = Inr (?st\<lparr>bs_my_current_phase := (bs_my_current_phase ?st)\<lparr>cp_algorithm := a\<rparr>\<rparr>)"
    "cp_enabled (bs_my_current_phase st)"
    by auto
  then show ?thesis
    using assms by (simp add: StreamBaseline_init_def Let_def active_ok_def stream_ok_def)
qed

text \<open>
  Starting streams changes the store and the counters of the queues only. A stream that has been
  initialised is not touched, and no stream changes its identity or its number of phases.
\<close>

definition started :: "'c sched \<Rightarrow> 'c sched \<Rightarrow> bool" where
  "started s s' \<longleftrightarrow>
     (\<exists>str R. s' = s\<lparr>sd_streams := str, sd_running_streams := R\<rparr>) \<and> sched_ids s' = sched_ids s \<and>
     (\<forall>x. bs_steps_finished (the (sd_streams s' x)) = bs_steps_finished (the (sd_streams s x))) \<and>
     (\<forall>x st. sd_streams s x = Some st \<longrightarrow> bs_initialized st \<longrightarrow> sd_streams s' x = Some st)"

lemma started_refl: "started s s"
proof -
  have "s = s\<lparr>sd_streams := sd_streams s, sd_running_streams := sd_running_streams s\<rparr>" by simp
  then show ?thesis unfolding started_def by blast
qed

lemma started_trans:
  assumes "started s1 s2" "started s2 s3"
  shows "started s1 s3"
proof -
  obtain str R str' R' where "s2 = s1\<lparr>sd_streams := str, sd_running_streams := R\<rparr>"
    "s3 = s2\<lparr>sd_streams := str', sd_running_streams := R'\<rparr>"
    using assms unfolding started_def by blast
  then have "s3 = s1\<lparr>sd_streams := str', sd_running_streams := R'\<rparr>" by simp
  then show ?thesis using assms unfolding started_def by (metis (no_types, lifting))
qed

lemma started_fields:
  assumes "started s s'"
  shows "sd_ready_list s' = sd_ready_list s" "sd_active_Streams s' = sd_active_Streams s"
    "sd_first_phase_streams s' = sd_first_phase_streams s"
    "sd_total_running_streams s' = sd_total_running_streams s"
    "sd_queue_threshold s' = sd_queue_threshold s"
    "sd_max_running_streams s' = sd_max_running_streams s"
    "sd_ready_list_threshold s' = sd_ready_list_threshold s"
    "sd_datasets s' = sd_datasets s" "sched_ids s' = sched_ids s"
  using assms unfolding started_def by auto

lemma started_keeps: "started s s' \<Longrightarrow> keeps s s'"
  using started_fields [of s s'] by (simp add: keeps_def started_def)

lemma started_counts: "started s s' \<Longrightarrow> sched_counts k j s \<Longrightarrow> sched_counts k j s'"
  using started_fields [of s s'] counts_store [of "sd_streams s" "queue_of s"]
  by (simp add: sched_counts_def started_def)

lemma start_one:
  assumes ok: "sched_ok run rl Z X s"
    and "running_of s v < int (length (queue_of s v))" "running_of s v < sd_queue_threshold s"
  defines "x \<equiv> queue_of s v ! nat (running_of s v)"
  shows "\<exists>s1. init_stream run now x s = Inr s1 \<and>
    (\<forall>s2. s2 = s1\<lparr>sd_running_streams := (sd_running_streams s1)(v \<mapsto> running_of s1 v + 1)\<rparr> \<longrightarrow>
       sched_ok run rl Z (insert v X) s2 \<and> started s s2 \<and> running_of s2 v = running_of s v + 1)"
proof -
  note refs = sched_okD(1) [OF ok] and slots = sched_okD(2) [OF ok]
  have n: "nat (running_of s v) < length (queue_of s v)" "0 \<le> running_of s v"
    using assms(2) slots_okD(1) [OF slots, of v] by linarith+
  have x: "x \<in> set (queue_of s v)" using n unfolding x_def by simp
  obtain st where st: "sd_streams s x = Some st" "active_ok run (dom (sd_datasets s)) v st"
    using refs_active [OF refs x] by blast
  have not_init: "\<not> bs_initialized st"
    using slots_okD(4) [OF slots n(1)] n(2) st(1) unfolding x_def by simp
  obtain st' where st': "StreamBaseline_init run now st = Inr st'" "active_ok run (dom (sd_datasets s)) v st'"
    "bs_initialized st'" "bs_stream_id st' = bs_stream_id st" "bs_steps_finished st' = bs_steps_finished st"
    using init_active [OF st(2) not_init] by blast
  define s1 where "s1 = s\<lparr>sd_streams := (sd_streams s)(x \<mapsto> st')\<rparr>"
  define s2 where "s2 = s1\<lparr>sd_running_streams := (sd_running_streams s1)(v \<mapsto> running_of s1 v + 1)\<rparr>"
  have "init_stream run now x s = Inr s1"
    using st(1) st'(1) by (simp add: init_stream_def deref_def s1_def)
  moreover have "sched_ok run rl Z (insert v X) s2"
    using refs_update_active [OF refs x st'(2)] st'(4) st(1)
      slots_start [OF refs slots assms(2,3) st'(3)] sched_okD(3) [OF ok]
    unfolding sched_ok_def s2_def s1_def dims_ok_def x_def by simp
  moreover have "started s s2"
    unfolding started_def
  proof (intro conjI allI impI)
    show "\<exists>str R. s2 = s\<lparr>sd_streams := str, sd_running_streams := R\<rparr>"
      unfolding s2_def s1_def by auto
    show "sched_ids s2 = sched_ids s"
      using st(1) st'(4) by (intro ext) (simp add: sched_ids_def s2_def s1_def)
    show "bs_steps_finished (the (sd_streams s2 y)) = bs_steps_finished (the (sd_streams s y))" for y
      using st(1) st'(5) by (simp add: s2_def s1_def)
    show "sd_streams s2 y = Some sty" if "sd_streams s y = Some sty" "bs_initialized sty" for y sty
      using that st(1) not_init by (auto simp: s2_def s1_def)
  qed
  moreover have "running_of s2 v = running_of s v + 1" by (simp add: s2_def s1_def)
  ultimately show ?thesis unfolding s2_def by blast
qed

lemma start_loop_ok:
  fixes s :: "'c sched"
  assumes "sched_ok run rl Z (insert v X) s" "xs = drop (nat (running_of s v)) (queue_of s v)"
  shows "\<exists>s'. start_loop run now v xs s = Inr s' \<and> sched_ok run rl Z (X - {v}) s' \<and> started s s'"
  using assms
proof (induction xs arbitrary: s)
  case Nil
  then have "length (queue_of s v) \<le> nat (running_of s v)" by simp
  then have "running_of s v = int (length (queue_of s v))"
    using slots_okD(1,2) [OF sched_okD(2) [OF Nil.prems(1)], of v] by linarith
  then have "sched_ok run rl Z (insert v X - {v}) s"
    using Nil.prems(1) slots_full [of "sd_streams s" "queue_of s" "running_of s" _ "insert v X" v]
    unfolding sched_ok_def by blast
  then show ?case using started_refl by simp
next
  case (Cons x xs)
  show ?case
  proof (cases "running_of s v < sd_queue_threshold s")
    case True
    have lt: "nat (running_of s v) < length (queue_of s v)"
      using Cons.prems(2) by (metis drop_all list.distinct(1) not_le)
    then have lt': "running_of s v < int (length (queue_of s v))" by linarith
    have x: "x = queue_of s v ! nat (running_of s v)" and xs: "xs = drop (Suc (nat (running_of s v))) (queue_of s v)"
      using Cons.prems(2) lt by (metis Cons_nth_drop_Suc list.inject)+
    define s2 where "s2 = (\<lambda>s1 :: 'c sched. s1\<lparr>sd_running_streams := (sd_running_streams s1)(v \<mapsto> running_of s1 v + 1)\<rparr>)"
    obtain s1 where s1: "init_stream run now x s = Inr s1" "sched_ok run rl Z (insert v X) (s2 s1)"
      "started s (s2 s1)" "running_of (s2 s1) v = running_of s v + 1"
      using start_one [OF Cons.prems(1) lt' True] unfolding x s2_def insert_absorb2 by blast
    have "0 \<le> running_of s v" using slots_okD(1) [OF sched_okD(2) [OF Cons.prems(1)]] .
    then have "xs = drop (nat (running_of (s2 s1) v)) (queue_of (s2 s1) v)"
      unfolding xs s1(4) started_fields(2) [OF s1(3)] by (simp add: nat_add_distrib)
    then obtain s' where "start_loop run now v xs (s2 s1) = Inr s'" "sched_ok run rl Z (X - {v}) s'" "started (s2 s1) s'"
      using Cons.IH [OF s1(2)] by blast
    then show ?thesis using True s1(1) started_trans [OF s1(3)] unfolding s2_def by simp
  next
    case False
    then have "running_of s v = sd_queue_threshold s"
      using slots_okD(3) [OF sched_okD(2) [OF Cons.prems(1)], of v] by linarith
    then have "sched_ok run rl Z (insert v X - {v}) s"
      using Cons.prems(1) slots_full [of "sd_streams s" "queue_of s" "running_of s" _ "insert v X" v]
      unfolding sched_ok_def by blast
    then show ?thesis using False started_refl by simp
  qed
qed

lemma start_streams_ok:
  assumes "sched_ok run rl Z (insert v X) s"
  shows "\<exists>s'. start_streams run now v s = Inr s' \<and> sched_ok run rl Z (X - {v}) s' \<and> started s s'"
proof -
  have "\<not> (running_of s v < 0 \<or> running_of s v > int (length (queue_of s v)))"
    using slots_okD(1,2) [OF sched_okD(2) [OF assms], of v] by linarith
  then show ?thesis
    using start_loop_ok [OF assms refl, of now] unfolding start_streams_def Let_def by (simp only: if_False)
qed

text \<open>The statistics per dimension.\<close>

definition restat :: "'c sched \<Rightarrow> 'c sched \<Rightarrow> bool" where
  "restat s s' \<longleftrightarrow>
     (\<exists>a u l t. s' = s\<lparr>sd_total_active_chunks_per_dimension := a, sd_usage := u,
                     sd_latency_per_dimension := l, sd_total_chunks_per_dimension := t\<rparr> \<and>
        length a = length (sd_total_active_chunks_per_dimension s) \<and> length u = length (sd_usage s) \<and>
        length l = length (sd_latency_per_dimension s) \<and> length t = length (sd_total_chunks_per_dimension s))"

lemma restatI:
  assumes "s' = s\<lparr>sd_total_active_chunks_per_dimension := a, sd_usage := u,
                   sd_latency_per_dimension := l, sd_total_chunks_per_dimension := t\<rparr>"
    and "length a = length (sd_total_active_chunks_per_dimension s)" "length u = length (sd_usage s)"
    and "length l = length (sd_latency_per_dimension s)" "length t = length (sd_total_chunks_per_dimension s)"
  shows "restat s s'"
  using assms unfolding restat_def by blast

lemma restat_refl: "restat s s"
  by (rule restatI [where a = "sd_total_active_chunks_per_dimension s" and u = "sd_usage s" and
      l = "sd_latency_per_dimension s" and t = "sd_total_chunks_per_dimension s"]) simp_all

lemma restat_fields:
  assumes "restat s s'"
  shows "sd_streams s' = sd_streams s" "sd_ready_list s' = sd_ready_list s"
    "sd_active_Streams s' = sd_active_Streams s" "sd_running_streams s' = sd_running_streams s"
    "sd_first_phase_streams s' = sd_first_phase_streams s"
    "sd_total_running_streams s' = sd_total_running_streams s"
    "sd_queue_threshold s' = sd_queue_threshold s"
    "sd_max_running_streams s' = sd_max_running_streams s"
    "sd_ready_list_threshold s' = sd_ready_list_threshold s"
    "sd_datasets s' = sd_datasets s" "sched_ids s' = sched_ids s"
    "dims_ok s' = dims_ok s" "sched_ok run rl Z X s' = sched_ok run rl Z X s"
    "sched_counts k j s' = sched_counts k j s" "keeps s s'"
  using assms unfolding restat_def sched_ids_def sched_ok_def dims_ok_def sched_counts_def keeps_def by auto

lemma chunk_arrives_ok:
  assumes "dims_ok s"
  shows "\<exists>s'. chunk_arrives now v s = Inr s' \<and> restat s s'"
proof -
  obtain d where d: "dimension_index s v = Inr d" using dimension_index_ok [OF assms] by blast
  define a where "a = (sd_total_active_chunks_per_dimension s)[d := sd_total_active_chunks_per_dimension s ! d + 1]"
  define u where "u = (if sd_total_active_chunks_per_dimension s ! d + 1 = 1
    then (sd_usage s)[d := increase_usage now (sd_usage s ! d)] else sd_usage s)"
  have "chunk_arrives now v s = Inr (if sd_id s \<noteq> 0 then s
      else s\<lparr>sd_total_active_chunks_per_dimension := a, sd_usage := u\<rparr>)"
    unfolding chunk_arrives_def d a_def u_def by (simp add: Let_def)
  moreover have "length a = length (sd_total_active_chunks_per_dimension s)" "length u = length (sd_usage s)"
    by (simp_all add: a_def u_def)
  moreover note restat_refl [of s]
  ultimately show ?thesis
    using restatI [of "s\<lparr>sd_total_active_chunks_per_dimension := a, sd_usage := u\<rparr>"
      "sd_total_chunks_per_dimension s" "sd_latency_per_dimension s" u a s] by simp
qed

lemma chunk_leaves_ok:
  assumes "dims_ok s"
  shows "\<exists>s'. chunk_leaves now v s = Inr s' \<and> restat s s'"
proof -
  obtain d where d: "dimension_index s v = Inr d" using dimension_index_ok [OF assms] by blast
  define a where "a = (sd_total_active_chunks_per_dimension s)[d := sd_total_active_chunks_per_dimension s ! d - 1]"
  define u where "u = (if sd_total_active_chunks_per_dimension s ! d - 1 = 0
    then (sd_usage s)[d := decrease_usage now (sd_usage s ! d)] else sd_usage s)"
  have "chunk_leaves now v s = Inr (if sd_id s \<noteq> 0 then s
      else s\<lparr>sd_total_active_chunks_per_dimension := a, sd_usage := u\<rparr>)"
    unfolding chunk_leaves_def d a_def u_def by (simp add: Let_def)
  moreover have "length a = length (sd_total_active_chunks_per_dimension s)" "length u = length (sd_usage s)"
    by (simp_all add: a_def u_def)
  moreover note restat_refl [of s]
  ultimately show ?thesis
    using restatI [of "s\<lparr>sd_total_active_chunks_per_dimension := a, sd_usage := u\<rparr>"
      "sd_total_chunks_per_dimension s" "sd_latency_per_dimension s" u a s] by simp
qed

lemma notify_stream_added_ok:
  assumes "sched_ok run rl Z (insert v X) s"
  shows "\<exists>s1 s'. notify_stream_added run now v s = Inr s' \<and> restat s s1 \<and> started s1 s' \<and>
    sched_ok run rl Z (X - {v}) s'"
proof -
  obtain s1 where s1: "chunk_arrives now v s = Inr s1" "restat s s1"
    using chunk_arrives_ok [OF sched_okD(3) [OF assms]] by blast
  then have "sched_ok run rl Z (insert v X) s1" using restat_fields(13) assms by blast
  from start_streams_ok [OF this] show ?thesis using s1 unfolding notify_stream_added_def by force
qed

section \<open>Taking a stream from the ready list\<close>

lemma sched_ok_mono: "sched_ok run rl Z X s \<Longrightarrow> X \<subseteq> Y \<Longrightarrow> sched_ok run rl Z Y s"
  unfolding sched_ok_def using slots_mono by blast

lemma refs_transit:
  assumes "refs_ok run D str rl Q Z" "x \<in> Z" "bs_stream_id st = bs_stream_id (the (str x))"
  shows "refs_ok run D (str(x \<mapsto> st)) rl Q Z"
proof (rule refs_okI)
  have new: "x \<notin> set rl" "x \<notin> active_set Q" using refs_okD(3) [OF assms(1)] assms(2) by blast+
  have "x \<in> dom str" using refs_okD(2) [OF assms(1)] assms(2) by blast
  then have d: "dom (str(x \<mapsto> st)) = dom str" by auto
  show "finite (dom (str(x \<mapsto> st)))" "dom (str(x \<mapsto> st)) = set rl \<union> active_set Q \<union> Z"
    "Z \<inter> (set rl \<union> active_set Q) = {}" "distinct rl" "distinct (Q w)" for w
    unfolding d by (rule refs_okD [OF assms(1)])+
  show "waiting_ok run D (the ((str(x \<mapsto> st)) y))" if "y \<in> set rl" for y
    using refs_okD(6) [OF assms(1) that] that new(1) by auto
  show "active_ok run D w (the ((str(x \<mapsto> st)) y))" if "y \<in> set (Q w)" for w y
  proof -
    have "y \<noteq> x" using that new(2) by blast
    then show ?thesis using refs_okD(7) [OF assms(1) that] by simp
  qed
  show "inj_on (\<lambda>y. bs_stream_id (the ((str(x \<mapsto> st)) y))) (dom (str(x \<mapsto> st)))"
    unfolding d ids_update [of st str x, OF assms(3)] by (rule refs_okD(8) [OF assms(1)])
qed

lemma store_transit:
  assumes ok: "sched_ok run rl Z X s" and "x \<in> Z" "bs_stream_id st = bs_stream_id (the (sd_streams s x))"
  defines "s' \<equiv> s\<lparr>sd_streams := (sd_streams s)(x \<mapsto> st)\<rparr>"
  shows "sched_ok run rl Z X s'" "sched_counts k j s \<Longrightarrow> sched_counts k j s'"
proof -
  have new: "x \<notin> active_set (queue_of s)" using refs_okD(3) [OF sched_okD(1) [OF ok]] assms(2) by blast
  then have same: "((sd_streams s)(x \<mapsto> st)) y = sd_streams s y" if "y \<in> active_set (queue_of s)" for y
    using that by (metis fun_upd_other)
  show "sched_ok run rl Z X s'"
    using refs_transit [OF sched_okD(1) [OF ok] assms(2,3)] slots_store [OF sched_okD(2) [OF ok]] sched_okD(3) [OF ok] same
    unfolding sched_ok_def s'_def dims_ok_def by simp
  show "sched_counts k j s'" if "sched_counts k j s"
    using counts_store [OF that [unfolded sched_counts_def]] same unfolding sched_counts_def s'_def by simp
qed

lemma next_phase_ok:
  assumes "stream_ok run D st" "bs_phases_to_go st \<noteq> []" "0 \<le> bs_steps_finished st"
  shows "active_ok run D (bs_current_queue_id (next_phase now st)) (next_phase now st)"
    and "\<not> bs_initialized (next_phase now st)" "bs_stream_id (next_phase now st) = bs_stream_id st"
    and "bs_steps_finished (next_phase now st) = bs_steps_finished st + 1"
proof -
  obtain p ps where p: "bs_phases_to_go st = p # ps" using assms(2) by (cases "bs_phases_to_go st") auto
  show "active_ok run D (bs_current_queue_id (next_phase now st)) (next_phase now st)"
    using assms(1,3) p
    by (simp add: next_phase_def Let_def active_ok_def stream_ok_def phase_ok_def CollectivePhase_init_def)
qed (simp_all add: next_phase_def Let_def)

lemma enter_queue_ok:
  assumes ok: "sched_ok run rl Z X s" and "x \<in> Z" and st: "sd_streams s x = Some st"
    and "stream_ok run (dom (sd_datasets s)) st" "bs_phases_to_go st \<noteq> []" "0 \<le> bs_steps_finished st"
  shows "\<exists>s' v str m. enter_queue now x s = Inr s' \<and> s' = s\<lparr>sd_streams := str, sd_active_Streams := m\<rparr> \<and>
    sched_ok run rl (Z - {x}) (insert v X) s' \<and> v = bs_current_queue_id (the (str x)) \<and> 0 \<le> v \<and>
    x \<in> set (queue_of s' v) \<and> sched_ids s' = sched_ids s \<and> (\<not> bs_initialized st \<longrightarrow> keeps s s') \<and>
    (\<forall>k j. sched_counts k j s \<longrightarrow> sched_counts (if bs_steps_finished st = 0 then k + 1 else k) (j + 1) s')"
proof -
  define st' where "st' = next_phase now st"
  define v where "v = bs_current_queue_id st'"
  define str where "str = (sd_streams s)(x \<mapsto> st')"
  define n where "n = insert_position (sd_intra_dimension_scheduling s) st' (map (\<lambda>y. the (str y)) (queue_of s v))"
  define m where "m = (sd_active_Streams s)(v \<mapsto> insert_at n x (queue_of s v))"
  define s' where "s' = s\<lparr>sd_streams := str, sd_active_Streams := m\<rparr>"
  note refs = sched_okD(1) [OF ok] and slots = sched_okD(2) [OF ok]
  have st': "active_ok run (dom (sd_datasets s)) v st'" "\<not> bs_initialized st'"
    "bs_stream_id st' = bs_stream_id (the (sd_streams s x))" "bs_steps_finished st' = bs_steps_finished st + 1"
    using next_phase_ok [OF assms(4-6)] st unfolding st'_def v_def by simp_all
  have new: "x \<notin> active_set (queue_of s)" using refs_okD(3) [OF refs] assms(2) by blast
  have "\<And>y. y \<in> set (queue_of s v) \<Longrightarrow> str y = sd_streams s y"
    using new unfolding str_def by (metis UN_I UNIV_I fun_upd_other)
  then have pos: "running_of s v \<le> int n" "n \<le> length (queue_of s v)"
    using slots_insert_position [OF slots] unfolding n_def by blast+
  have queue: "queue_of s' = (queue_of s)(v := insert_at n x (queue_of s v))" by (rule ext) (simp add: s'_def m_def)
  have "enter_queue now x s = Inr s'"
    using st st'(1)
    by (simp add: enter_queue_def deref_def Let_def insert_stream_def st'_def [symmetric] v_def [symmetric]
      str_def [symmetric] s'_def m_def n_def active_ok_def) (simp add: str_def)
  moreover have "sched_ok run rl (Z - {x}) (insert v X) s'"
    using refs_enter [OF refs assms(2) st'(1,3)] slots_enter [OF slots new st'(2) pos] sched_okD(3) [OF ok]
    unfolding sched_ok_def queue by (simp add: s'_def str_def dims_ok_def)
  moreover have "sched_ids s' = sched_ids s"
    using st st'(3) by (intro ext) (simp add: sched_ids_def s'_def str_def)
  moreover have "keeps s s'" if "\<not> bs_initialized st"
    using that st set_insert_at [of n x "queue_of s v"] unfolding keeps_def queue
    by (auto simp: s'_def str_def)
  moreover have "sched_counts (if bs_steps_finished st = 0 then k + 1 else k) (j + 1) s'" if "sched_counts k j s" for k j
    using counts_enter [OF that [unfolded sched_counts_def] refs assms(2), of st' v n] st'(4)
    unfolding sched_counts_def queue by (simp add: s'_def str_def add.assoc split: if_splits)
  moreover have "x \<in> set (queue_of s' v)" unfolding queue by (simp add: set_insert_at)
  moreover have "v = bs_current_queue_id (the (str x))" by (simp add: str_def v_def)
  moreover have "0 \<le> v" using st'(1) by (simp add: active_ok_def)
  ultimately show ?thesis unfolding s'_def by blast
qed

lemma proceed_ready_ok:
  assumes ok: "sched_ok run (x # rl) Z X s"
  shows "\<exists>s'. proceed_with no_removal no_callback run now x s = Inr s' \<and> sched_ok run rl Z X s' \<and>
    sd_ready_list s' = sd_ready_list s \<and> sd_first_phase_streams s' = sd_first_phase_streams s \<and>
    sd_total_running_streams s' = sd_total_running_streams s \<and> sched_ids s' = sched_ids s \<and> keeps s s' \<and>
    (\<exists>st. sd_streams s' x = Some st \<and> bs_current_queue_id st \<noteq> -1) \<and>
    (\<forall>k j. sched_counts k j s \<longrightarrow> sched_counts (k + 1) (j + 1) s')"
proof -
  obtain st where st: "sd_streams s x = Some st" "waiting_ok run (dom (sd_datasets s)) st"
    using refs_ready(1) [OF sched_okD(1) [OF ok], of x] by auto
  define st1 where "st1 = st\<lparr>bs_my_current_phase := (bs_my_current_phase st)\<lparr>cp_algorithm := None\<rparr>\<rparr>"
  define s1 where "s1 = s\<lparr>sd_streams := (sd_streams s)(x \<mapsto> st1)\<rparr>"
  have w: "bs_steps_finished st = 0" "bs_phases_to_go st \<noteq> []" "bs_current_queue_id st = -1" "\<not> bs_initialized st"
    using st(2) by (simp_all add: waiting_ok_def)
  have w1: "bs_steps_finished st1 = 0" "bs_phases_to_go st1 \<noteq> []" "bs_current_queue_id st1 = -1"
    "\<not> bs_initialized st1" "bs_stream_id st1 = bs_stream_id (the (sd_streams s x))"
    using w st(1) by (simp_all add: st1_def)
  have fin: "finish_phase no_callback now x s = Inr s1"
    using st(1) w by (simp add: finish_phase_def deref_def average_latency_def s1_def st1_def Let_def)
  have leave: "leave_queue x s1 = Inr s1"
    using w1(3) by (simp add: leave_queue_def deref_def s1_def)
  have pop: "sched_ok run rl (insert x Z) X s"
    using refs_pop [OF sched_okD(1) [OF ok]] ok by (simp add: sched_ok_def)
  have ok1: "sched_ok run rl (insert x Z) X s1" "\<And>k j. sched_counts k j s \<Longrightarrow> sched_counts k j s1"
    using store_transit [OF pop _ w1(5)] unfolding s1_def by blast+
  have st1: "sd_streams s1 x = Some st1" "stream_ok run (dom (sd_datasets s1)) st1" "0 \<le> bs_steps_finished st1"
    using st(2) w1(1) by (simp_all add: s1_def waiting_ok_def stream_ok_def) (simp add: st1_def)
  obtain s2 v str m where s2: "enter_queue now x s1 = Inr s2" "s2 = s1\<lparr>sd_streams := str, sd_active_Streams := m\<rparr>"
    "sched_ok run rl (insert x Z - {x}) (insert v X) s2" "v = bs_current_queue_id (the (str x))" "0 \<le> v"
    "x \<in> set (queue_of s2 v)" "sched_ids s2 = sched_ids s1" "keeps s1 s2"
    "\<And>k j. sched_counts k j s1 \<Longrightarrow> sched_counts (k + 1) (j + 1) s2"
    using enter_queue_ok [OF ok1(1) _ st1(1,2) w1(2) st1(3), of now] w1(1,4) by auto
  have Z: "insert x Z - {x} = Z" using refs_ready(3) [OF sched_okD(1) [OF ok], of x] by auto
  obtain s3 s4 where s4: "notify_stream_added run now v s2 = Inr s4" "restat s2 s3" "started s3 s4"
    "sched_ok run rl Z (X - {v}) s4"
    using notify_stream_added_ok [OF s2(3)] unfolding Z by blast
  obtain st2 where st2: "sd_streams s2 x = Some st2" "bs_current_queue_id st2 = v"
    using refs_active [OF sched_okD(1) [OF s2(3)] s2(6)] by (auto simp: active_ok_def)
  have x4: "x \<in> set (queue_of s4 v)" using s2(6) restat_fields(3) [OF s4(2)] started_fields(2) [OF s4(3)] by simp
  obtain st4 where st4: "sd_streams s4 x = Some st4" "bs_current_queue_id st4 = v"
    using refs_active [OF sched_okD(1) [OF s4(4)] x4] by (auto simp: active_ok_def)
  have "proceed_with no_removal no_callback run now x s = Inr s4"
    using st w(2,3) fin leave s2(1) s4(1) st2
    by (simp add: proceed_with_def deref_def Let_def)
  moreover have "sched_ok run rl Z X s4" using s4(4) by (rule sched_ok_mono) blast
  moreover have "keeps s s4"
  proof (rule keeps_trans [OF _ keeps_trans [OF s2(8) keeps_trans [OF restat_fields(15) [OF s4(2)] started_keeps [OF s4(3)]]]])
    show "keeps s s1" using st(1) w(4) by (auto simp: keeps_def s1_def)
  qed
  moreover have "sched_ids s1 = sched_ids s"
    using w1(5) st(1) by (intro ext) (simp add: sched_ids_def s1_def)
  moreover have "sched_counts (k + 1) (j + 1) s4" if "sched_counts k j s" for k j
    using started_counts [OF s4(3)] restat_fields(14) [OF s4(2)] s2(9) [OF ok1(2) [OF that]] by blast
  moreover note fields = restat_fields [OF s4(2)] started_fields [OF s4(3)]
  ultimately show ?thesis
    using s2(2,5,7) st4 fields by (simp add: s1_def)
qed

lemma schedule_loop_ok:
  assumes "sched_ok run (sd_ready_list s) Z X s" "n \<le> length (sd_ready_list s)" "sched_counts k j s"
  shows "\<exists>s'. schedule_loop run now n s = Inr s' \<and> sched_ok run (sd_ready_list s') Z X s' \<and>
    sd_ready_list s' = drop n (sd_ready_list s) \<and>
    sd_first_phase_streams s' = sd_first_phase_streams s + int n \<and>
    sd_total_running_streams s' = sd_total_running_streams s + int n \<and>
    sched_counts k j s' \<and> sched_ids s' = sched_ids s \<and> keeps s s'"
  using assms
proof (induction n arbitrary: s)
  case (Suc n)
  then obtain x rl where rl: "sd_ready_list s = x # rl" by (cases "sd_ready_list s") auto
  obtain s1 st where s1: "proceed_with no_removal no_callback run now x s = Inr s1" "sched_ok run rl Z X s1"
    "sd_ready_list s1 = x # rl" "sd_first_phase_streams s1 = sd_first_phase_streams s"
    "sd_total_running_streams s1 = sd_total_running_streams s" "sched_ids s1 = sched_ids s" "keeps s s1"
    "sd_streams s1 x = Some st" "bs_current_queue_id st \<noteq> -1" "sched_counts (k + 1) (j + 1) s1"
    using proceed_ready_ok [of run x rl Z X s now] Suc.prems(1,3) rl by auto
  define s2 where "s2 = s1\<lparr>sd_ready_list := rl, sd_first_phase_streams := sd_first_phase_streams s1 + 1,
    sd_total_running_streams := sd_total_running_streams s1 + 1\<rparr>"
  have "sched_ok run (sd_ready_list s2) Z X s2" using s1(2) by (simp add: sched_ok_def s2_def dims_ok_def)
  moreover have "sched_counts k j s2"
    using s1(10) by (simp add: sched_counts_def s2_def add.assoc add.commute [of 1])
  moreover have "n \<le> length (sd_ready_list s2)" using Suc.prems(2) rl by (simp add: s2_def)
  ultimately obtain s' where s': "schedule_loop run now n s2 = Inr s'" "sched_ok run (sd_ready_list s') Z X s'"
    "sd_ready_list s' = drop n (sd_ready_list s2)"
    "sd_first_phase_streams s' = sd_first_phase_streams s2 + int n"
    "sd_total_running_streams s' = sd_total_running_streams s2 + int n"
    "sched_counts k j s'" "sched_ids s' = sched_ids s2" "keeps s2 s'"
    using Suc.IH [of s2] by blast
  have "keeps s1 s2" by (simp add: keeps_def s2_def)
  then have "keeps s s'" using keeps_trans s1(7) s'(8) by blast
  moreover have "schedule_loop run now (Suc n) s = Inr s'"
    using s'(1) s1(1,3,8,9) rl by (simp add: deref_def s2_def)
  moreover have "sched_ids s2 = sched_ids s" using s1(6) by (simp add: sched_ids_def s2_def)
  ultimately show ?case
    using s'(2-7) s1(4,5) rl by (simp add: s2_def)
qed simp

section \<open>Admission\<close>

definition within_limits :: "'c sched \<Rightarrow> bool" where
  "within_limits s \<longleftrightarrow>
     sd_first_phase_streams s \<le> sd_ready_list_threshold s \<and> sd_total_running_streams s \<le> sd_max_running_streams s"

text \<open>No stream waits in the ready list while both limits leave room for it.\<close>

definition admitted :: "'c sched \<Rightarrow> bool" where
  "admitted s \<longleftrightarrow>
     sd_ready_list s = [] \<or> sd_first_phase_streams s = sd_ready_list_threshold s \<or>
     sd_total_running_streams s = sd_max_running_streams s"

text \<open>The state between two operations, up to streams in transit, exempt queues and counts in arrears.\<close>

definition sched_inv :: "runner \<Rightarrow> nat set \<Rightarrow> int set \<Rightarrow> int \<Rightarrow> int \<Rightarrow> 'c sched \<Rightarrow> bool" where
  "sched_inv run Z X k j s \<longleftrightarrow>
     sched_ok run (sd_ready_list s) Z X s \<and> sched_counts k j s \<and> within_limits s"

lemma admit_ok:
  assumes "sched_inv run Z X k j s"
  shows "\<exists>s'. admit run now s = Inr s' \<and> sched_inv run Z X k j s' \<and> admitted s' \<and>
    sched_ids s' = sched_ids s \<and> keeps s s'"
proof (cases "sd_first_phase_streams s < sd_ready_list_threshold s \<and>
    sd_total_running_streams s < sd_max_running_streams s")
  case True
  define a b where "a = sd_ready_list_threshold s - sd_first_phase_streams s"
    and "b = sd_max_running_streams s - sd_total_running_streams s"
  define n where "n = nat (min (min a b) (int (length (sd_ready_list s))))"
  have n: "int n \<le> a" "int n \<le> b" "n \<le> length (sd_ready_list s)"
    "int n = a \<or> int n = b \<or> n = length (sd_ready_list s)"
    using True unfolding n_def a_def b_def by linarith+
  obtain s' where s': "schedule_loop run now n s = Inr s'" "sched_ok run (sd_ready_list s') Z X s'"
    "sd_ready_list s' = drop n (sd_ready_list s)"
    "sd_first_phase_streams s' = sd_first_phase_streams s + int n"
    "sd_total_running_streams s' = sd_total_running_streams s + int n"
    "sched_counts k j s'" "sched_ids s' = sched_ids s" "keeps s s'"
    using schedule_loop_ok [of run s Z X n k j now] assms n(3) unfolding sched_inv_def by blast
  have "admit run now s = Inr s'"
    using True s'(1) unfolding admit_def schedule_def n_def a_def b_def by simp
  moreover have "within_limits s'" "admitted s'"
    using n(1,2,4) keepsD(3,4) [OF s'(8)] s'(3-5)
    unfolding within_limits_def admitted_def a_def b_def by auto
  ultimately show ?thesis using s' unfolding sched_inv_def by blast
next
  case False
  then have "admitted s" using assms unfolding sched_inv_def within_limits_def admitted_def by linarith
  moreover have "admit run now s = Inr s" unfolding admit_def using False by (rule if_not_P)
  ultimately show ?thesis using assms by simp
qed

lemma fresh_id_ids: "fresh_id (sd_streams s) i \<longleftrightarrow> i \<notin> ran (sched_ids s)"
  unfolding fresh_id_def sched_ids_def ran_def dom_def by fastforce

lemma insert_into_ready_list_ok:
  assumes inv: "sched_inv run Z X k j s" and "sched_ids s x = None" "bs_stream_id st \<notin> ran (sched_ids s)"
    and st: "waiting_ok run (dom (sd_datasets s)) st"
  shows "\<exists>s'. insert_into_ready_list run now x st s = Inr s' \<and> sched_inv run Z X k j s' \<and> admitted s' \<and>
    sched_ids s' = (sched_ids s)(x \<mapsto> bs_stream_id st) \<and> keeps s s'"
proof -
  note ok = inv [unfolded sched_inv_def, THEN conjunct1]
  have none: "sd_streams s x = None" using assms(2) by (simp add: sched_ids_def)
  define str where "str = (sd_streams s)(x \<mapsto> st)"
  define n where "n = insert_position (sd_intra_dimension_scheduling s) st (map (\<lambda>y. the (str y)) (sd_ready_list s))"
  define s1 where "s1 = s\<lparr>sd_streams := str, sd_ready_list := insert_at n x (sd_ready_list s)\<rparr>"
  have "x \<notin> dom (sd_streams s)" using none by blast
  then have new: "x \<notin> active_set (queue_of s)" unfolding refs_okD(2) [OF sched_okD(1) [OF ok]] by blast
  then have same: "str y = sd_streams s y" if "y \<in> active_set (queue_of s)" for y
    using that unfolding str_def by (metis fun_upd_other)
  have "sched_ok run (sd_ready_list s1) Z X s1"
    using refs_insert_ready [OF sched_okD(1) [OF ok] none st, of n] assms(3) sched_okD(3) [OF ok]
      slots_store [OF sched_okD(2) [OF ok]] same
    unfolding sched_ok_def fresh_id_ids s1_def by (simp add: str_def dims_ok_def)
  moreover have "sched_counts k j s1"
    using counts_store [of "sd_streams s" "queue_of s" _ _ str] inv same
    unfolding sched_inv_def sched_counts_def s1_def by simp
  moreover have "within_limits s1" using inv unfolding sched_inv_def within_limits_def s1_def by simp
  ultimately have "sched_inv run Z X k j s1" unfolding sched_inv_def by blast
  then obtain s' where s': "admit run now s1 = Inr s'" "sched_inv run Z X k j s'" "admitted s'"
    "sched_ids s' = sched_ids s1" "keeps s1 s'"
    using admit_ok by blast
  have "insert_into_ready_list run now x st s = Inr s'"
    using s'(1) unfolding insert_into_ready_list_def notify_stream_added_into_ready_list_def insert_stream_def
      s1_def n_def str_def by (simp add: Let_def)
  moreover have "keeps s s1" using none unfolding keeps_def s1_def str_def by auto
  then have "keeps s s'" using keeps_trans s'(5) by blast
  moreover have "sched_ids s1 = (sched_ids s)(x \<mapsto> bs_stream_id st)"
    by (rule ext) (simp add: sched_ids_def s1_def str_def)
  ultimately show ?thesis using s' by auto
qed

text \<open>
  The owner of a data set reacts to its completion by issuing collectives: it creates data sets and
  adds the streams of each to the ready list.
\<close>

type_synonym 'c batch = "(int \<times> 'c DataSet) list \<times> (nat \<times> BaseStream) list"

definition issue :: "runner \<Rightarrow> Tick \<Rightarrow> 'c batch \<Rightarrow> 'c sched \<Rightarrow> 'c sched result" where
  "issue run now b s =
     fold_result (\<lambda>(x, st). insert_into_ready_list run now x st) (snd b)
       (s\<lparr>sd_datasets := sd_datasets s ++ map_of (fst b)\<rparr>)"

fun fresh_streams :: "runner \<Rightarrow> int set \<Rightarrow> (nat \<rightharpoonup> int) \<Rightarrow> (nat \<times> BaseStream) list \<Rightarrow> bool" where
  "fresh_streams run D ids [] \<longleftrightarrow> True"
| "fresh_streams run D ids ((x, st) # xs) \<longleftrightarrow>
     ids x = None \<and> bs_stream_id st \<notin> ran ids \<and> waiting_ok run D st \<and>
     fresh_streams run D (ids(x \<mapsto> bs_stream_id st)) xs"

definition issuable :: "runner \<Rightarrow> 'c batch \<Rightarrow> 'c sched \<Rightarrow> bool" where
  "issuable run b s \<longleftrightarrow>
     fresh_streams run (dom (sd_datasets s) \<union> fst ` set (fst b)) (sched_ids s) (snd b)"

lemma stream_ok_mono: "stream_ok run D st \<Longrightarrow> D \<subseteq> E \<Longrightarrow> stream_ok run E st"
  unfolding stream_ok_def by blast

lemma refs_mono: "refs_ok run D str rl Q Z \<Longrightarrow> D \<subseteq> E \<Longrightarrow> refs_ok run E str rl Q Z"
  unfolding refs_ok_def waiting_ok_def active_ok_def using stream_ok_mono [of run D _ E] by blast

lemma waiting_ok_mono: "waiting_ok run D st \<Longrightarrow> D \<subseteq> E \<Longrightarrow> waiting_ok run E st"
  unfolding waiting_ok_def using stream_ok_mono by blast

lemma fresh_streams_mono: "fresh_streams run D ids xs \<Longrightarrow> D \<subseteq> E \<Longrightarrow> fresh_streams run E ids xs"
  by (induction run D ids xs rule: fresh_streams.induct) (auto intro: waiting_ok_mono)

lemma insert_all_ok:
  assumes "sched_inv run Z X k j s" "fresh_streams run (dom (sd_datasets s)) (sched_ids s) xs"
  shows "\<exists>s'. fold_result (\<lambda>(x, st). insert_into_ready_list run now x st) xs s = Inr s' \<and>
    sched_inv run Z X k j s' \<and> keeps s s' \<and> (xs \<noteq> [] \<or> admitted s \<longrightarrow> admitted s')"
  using assms
proof (induction xs arbitrary: s)
  case (Cons p xs)
  obtain x st where p: "p = (x, st)" by (cases p)
  then obtain s1 where s1: "insert_into_ready_list run now x st s = Inr s1" "sched_inv run Z X k j s1" "admitted s1"
    "sched_ids s1 = (sched_ids s)(x \<mapsto> bs_stream_id st)" "keeps s s1"
    using insert_into_ready_list_ok [OF Cons.prems(1), of x st now] Cons.prems(2) by auto
  have "fresh_streams run (dom (sd_datasets s1)) (sched_ids s1) xs"
    using fresh_streams_mono [OF _ keepsD(6) [OF s1(5)]] Cons.prems(2) p s1(4) by simp
  then obtain s' where "fold_result (\<lambda>(x, st). insert_into_ready_list run now x st) xs s1 = Inr s'"
    "sched_inv run Z X k j s'" "keeps s1 s'" "admitted s'"
    using Cons.IH [OF s1(2)] s1(3) by blast
  then show ?case using s1(1,5) p keeps_trans by auto
qed simp

lemma issue_ok:
  assumes "sched_inv run Z X k j s" "issuable run b s"
  shows "\<exists>s'. issue run now b s = Inr s' \<and> sched_inv run Z X k j s' \<and> keeps s s' \<and> (admitted s \<longrightarrow> admitted s')"
proof -
  define s1 where "s1 = s\<lparr>sd_datasets := sd_datasets s ++ map_of (fst b)\<rparr>"
  have D: "dom (sd_datasets s1) = dom (sd_datasets s) \<union> fst ` set (fst b)"
    by (auto simp: s1_def dom_map_of_conv_image_fst)
  have "sched_inv run Z X k j s1"
    using assms(1) refs_mono [of run "dom (sd_datasets s)" _ _ _ _ "dom (sd_datasets s1)"] D
    unfolding sched_inv_def sched_ok_def sched_counts_def within_limits_def dims_ok_def
    by (simp add: s1_def)
  moreover have "sched_ids s1 = sched_ids s" by (simp add: sched_ids_def s1_def)
  ultimately obtain s' where s': "fold_result (\<lambda>(x, st). insert_into_ready_list run now x st) (snd b) s1 = Inr s'"
    "sched_inv run Z X k j s'" "keeps s1 s'" "snd b \<noteq> [] \<or> admitted s1 \<longrightarrow> admitted s'"
    using insert_all_ok [of run Z X k j s1 "snd b" now] assms(2) D unfolding issuable_def by auto
  have "keeps s s1" by (auto simp: keeps_def s1_def)
  then have "keeps s s'" using keeps_trans s'(3) by blast
  moreover have "admitted s1 = admitted s" by (simp add: admitted_def s1_def)
  ultimately show ?thesis using s' unfolding issue_def s1_def by blast
qed

section \<open>Leaving a phase\<close>

lemma notify_stream_removed_ok:
  fixes s :: "'c sched" and v :: int
  defines "R \<equiv> (\<lambda>s :: 'c sched. s\<lparr>sd_running_streams := (sd_running_streams s)(v \<mapsto> running_of s v - 1)\<rparr>)"
  assumes "sched_inv run Z (insert v X) k j (R s)"
  shows "\<exists>s'. notify_stream_removed run now v t s = Inr s' \<and> sched_inv run Z (X - {v}) k j s' \<and> admitted s' \<and>
    sched_ids s' = sched_ids s \<and> keeps s s'"
proof -
  have dims: "dims_ok s" using assms(2) unfolding sched_inv_def sched_ok_def R_def by (simp add: dims_ok_def)
  obtain s1 where s1: "chunk_leaves now v s = Inr s1" "restat s s1" using chunk_leaves_ok [OF dims] by blast
  have "dims_ok s1" using dims restat_fields(12) [OF s1(2)] by blast
  then obtain d where d: "dimension_index s1 v = Inr d" using dimension_index_ok by blast
  define s2 where "s2 = s1\<lparr>sd_running_streams := (sd_running_streams s1)(v \<mapsto> running_of s1 v - 1),
    sd_latency_per_dimension := (sd_latency_per_dimension s1)[d := sd_latency_per_dimension s1 ! d + t],
    sd_total_chunks_per_dimension := (sd_total_chunks_per_dimension s1)[d := sd_total_chunks_per_dimension s1 ! d + 1]\<rparr>"
  obtain a u l c where "s1 = s\<lparr>sd_total_active_chunks_per_dimension := a, sd_usage := u,
      sd_latency_per_dimension := l, sd_total_chunks_per_dimension := c\<rparr>"
    and len: "length a = length (sd_total_active_chunks_per_dimension s)" "length u = length (sd_usage s)"
      "length l = length (sd_latency_per_dimension s)" "length c = length (sd_total_chunks_per_dimension s)"
    using s1(2) unfolding restat_def by blast
  then have "s2 = (R s)\<lparr>sd_total_active_chunks_per_dimension := a, sd_usage := u,
      sd_latency_per_dimension := l[d := l ! d + t], sd_total_chunks_per_dimension := c[d := c ! d + 1]\<rparr>"
    by (simp add: s2_def R_def)
  then have "restat (R s) s2" by (rule restatI) (use len in \<open>simp_all add: R_def\<close>)
  note fields = restat_fields [OF this]
  have inv2: "sched_inv run Z (insert v X) k j s2"
    using assms(2) fields(2) fields(13) [of run _ Z] fields(14) fields(5,6,8,9)
    unfolding sched_inv_def within_limits_def by simp
  then obtain s3 where s3: "admit run now s2 = Inr s3" "sched_inv run Z (insert v X) k j s3" "admitted s3"
    "sched_ids s3 = sched_ids s2" "keeps s2 s3" using admit_ok by blast
  obtain s' where s': "start_streams run now v s3 = Inr s'" "sched_ok run (sd_ready_list s3) Z (X - {v}) s'" "started s3 s'"
    using start_streams_ok s3(2) unfolding sched_inv_def by blast
  have "notify_stream_removed run now v t s = Inr s'"
    using s1(1) d s3(1) s'(1) unfolding notify_stream_removed_def s2_def by simp
  moreover have "sched_inv run Z (X - {v}) k j s'" "admitted s'"
    using s'(2) started_counts [OF s'(3)] started_fields [OF s'(3)] s3(2,3)
    unfolding sched_inv_def within_limits_def admitted_def by auto
  moreover have "sched_ids s' = sched_ids s"
    using started_fields(9) [OF s'(3)] s3(4) fields(11) by (simp add: R_def sched_ids_def)
  moreover have "keeps s s2" using fields(15) by (simp add: keeps_def R_def)
  then have "keeps s s'" using keeps_trans s3(5) started_keeps [OF s'(3)] by blast
  ultimately show ?thesis by blast
qed

lemma erase_first_unique:
  assumes "inj_on f (insert x (set xs))"
  shows "erase_first (\<lambda>y. f y = f x) xs = remove1 x xs"
  using assms
proof (induction xs)
  case (Cons y xs)
  then have "f y = f x \<longleftrightarrow> y = x" by (auto simp: inj_on_def)
  moreover have "inj_on f (insert x (set xs))" by (rule inj_on_subset [OF Cons.prems]) auto
  ultimately show ?case using Cons.IH by auto
qed simp

text \<open>The queue without the stream that has finished its phase, with the slot given back.\<close>

lemma leave_queue_ok:
  assumes inv: "sched_inv run {} {} k 0 s" and x: "x \<in> set (queue_of s v)"
    and st: "sd_streams s x = Some st" "bs_initialized st"
    and k: "k = (if bs_steps_finished st = 1 then 1 else 0)"
  shows "\<exists>m. leave_queue x s = Inr (s\<lparr>sd_active_Streams := m\<rparr>) \<and>
    (\<forall>s'. s' = s\<lparr>sd_active_Streams := m, sd_running_streams := (sd_running_streams s)(v \<mapsto> running_of s v - 1)\<rparr> \<longrightarrow>
      sched_inv run {x} {v} 0 (-1) s')"
proof -
  have ok: "sched_ok run (sd_ready_list s) {} {} s" and counts: "sched_counts k 0 s" and lim: "within_limits s"
    using inv unfolding sched_inv_def by blast+
  note refs = sched_okD(1) [OF ok] and slots = sched_okD(2) [OF ok]
  define m where "m = (sd_active_Streams s)(v \<mapsto> remove1 x (queue_of s v))"
  have act: "active_ok run (dom (sd_datasets s)) v st" using refs_active [OF refs x] st(1) by auto
  obtain q where q: "sd_active_Streams s v = Some q" "queue_of s v = q"
    using x by (cases "sd_active_Streams s v") auto
  have "insert x (set q) \<subseteq> dom (sd_streams s)"
    unfolding refs_okD(2) [OF refs] using x q(2) by blast
  then have "erase_first (\<lambda>y. bs_stream_id (the (sd_streams s y)) = bs_stream_id (the (sd_streams s x))) q = remove1 x q"
    using erase_first_unique [of "\<lambda>y. bs_stream_id (the (sd_streams s y))" x q] refs_okD(8) [OF refs] inj_on_subset
    by blast
  then have leave: "leave_queue x s = Inr (s\<lparr>sd_active_Streams := m\<rparr>)"
    using act st(1) q by (simp add: leave_queue_def deref_def active_ok_def m_def)
  define s' where "s' = s\<lparr>sd_active_Streams := m, sd_running_streams := (sd_running_streams s)(v \<mapsto> running_of s v - 1)\<rparr>"
  have queue: "queue_of s' = (queue_of s)(v := remove1 x (queue_of s v))"
    and running: "running_of s' = (running_of s)(v := running_of s v - 1)"
    by (rule ext, simp add: s'_def m_def)+
  have "sched_ok run (sd_ready_list s') {x} {v} s'"
    using refs_leave [OF refs x] slots_leave [OF slots refs_okD(5) [OF refs] x] st sched_okD(3) [OF ok]
    unfolding sched_ok_def queue running by (simp add: s'_def dims_ok_def)
  moreover have "sched_counts 0 (-1) s'"
    using counts_leave [OF counts [unfolded sched_counts_def] refs x] k st(1)
    unfolding sched_counts_def queue by (simp add: s'_def split: if_splits)
  moreover have "within_limits s'" using lim by (simp add: within_limits_def s'_def)
  ultimately have "sched_inv run {x} {v} 0 (-1) s'" unfolding sched_inv_def by blast
  then show ?thesis using leave unfolding s'_def by blast
qed

lemma finish_phase_ok:
  assumes inv: "sched_inv run {} {} 0 0 s" and x: "x \<in> set (queue_of s v)"
    and st: "sd_streams s x = Some st" "bs_initialized st"
    and batch: "\<And>n. issuable run (batch n) s"
    and k: "k = (if bs_steps_finished st = 1 then 1 else 0)"
  shows "\<exists>s1 st1. finish_phase (\<lambda>n. issue run now (batch n)) now x s = Inr s1 \<and> sched_inv run {} {} k 0 s1 \<and>
    x \<in> set (queue_of s1 v) \<and> sd_streams s1 x = Some st1 \<and> bs_initialized st1 \<and>
    bs_steps_finished st1 = bs_steps_finished st \<and> bs_phases_to_go st1 = bs_phases_to_go st \<and>
    sched_limits s1 = sched_limits s"
proof -
  have ok: "sched_ok run (sd_ready_list s) {} {} s" and counts: "sched_counts 0 0 s" and lim: "within_limits s"
    using inv unfolding sched_inv_def by blast+
  note refs = sched_okD(1) [OF ok]
  have act: "active_ok run (dom (sd_datasets s)) v st" using refs_active [OF refs x] st(1) by auto
  define fin where "fin = (\<lambda>st :: BaseStream. if bs_phases_to_go st = [] then take_bus_stats_average st else st)"
  define st1 where "st1 = fin (st\<lparr>net_message_latency := butlast (net_message_latency st) @
      [last (net_message_latency st) / of_nat (net_message_counter st)],
    bs_my_current_phase := (bs_my_current_phase st)\<lparr>cp_algorithm := None\<rparr>\<rparr>)"
  define s0 where "s0 = s\<lparr>sd_first_phase_streams := sd_first_phase_streams s - k, sd_streams := (sd_streams s)(x \<mapsto> st1)\<rparr>"
  have same: "bs_stream_id st1 = bs_stream_id st" "bs_steps_finished st1 = bs_steps_finished st"
    "bs_phases_to_go st1 = bs_phases_to_go st" "bs_initialized st1" "bs_dataset st1 = bs_dataset st"
    "bs_current_queue_id st1 = bs_current_queue_id st" "net_message_latency st1 \<noteq> []"
    "cp_queue_id (bs_my_current_phase st1) = cp_queue_id (bs_my_current_phase st)"
    "cp_enabled (bs_my_current_phase st1) = cp_enabled (bs_my_current_phase st)"
    using st(2) by (simp_all add: st1_def fin_def take_bus_stats_average_def Let_def)
  have act1: "active_ok run (dom (sd_datasets s)) v st1" using act same by (simp add: active_ok_def stream_ok_def)
  have "sched_ok run (sd_ready_list s0) {} {} s0"
    using refs_update_active [OF refs x act1] slots_store [OF sched_okD(2) [OF ok], of "(sd_streams s)(x \<mapsto> st1)"]
      sched_okD(3) [OF ok] st same unfolding sched_ok_def by (simp add: s0_def dims_ok_def)
  moreover have "sched_counts k 0 s0"
    using counts_store [OF counts [unfolded sched_counts_def], of "(sd_streams s)(x \<mapsto> st1)"] st(1) same(2)
    unfolding sched_counts_def by (simp add: s0_def)
  moreover have "within_limits s0" using lim k by (simp add: within_limits_def s0_def)
  ultimately have inv0: "sched_inv run {} {} k 0 s0" unfolding sched_inv_def by blast
  have s0x: "x \<in> set (queue_of s0 v)" "sd_streams s0 x = Some st1" using x by (simp_all add: s0_def)
  have avg: "average_latency st = Inr (st\<lparr>net_message_latency := butlast (net_message_latency st) @
      [last (net_message_latency st) / of_nat (net_message_counter st)]\<rparr>)"
    using act by (simp add: average_latency_def active_ok_def)
  show ?thesis
  proof (cases "bs_phases_to_go st = []")
    case False
    then have "finish_phase (\<lambda>n. issue run now (batch n)) now x s = Inr s0"
      using st(1) avg k by (simp add: finish_phase_def deref_def s0_def st1_def fin_def Let_def)
    moreover have "sched_limits s0 = sched_limits s" by (simp add: sched_limits_def s0_def)
    ultimately show ?thesis using inv0 s0x same by blast
  next
    case True
    have fin_eq: "finish_phase (\<lambda>n. issue run now (batch n)) now x s = notify_dataset (\<lambda>n. issue run now (batch n)) now st1 s0"
      using st(1) avg k True by (simp add: finish_phase_def deref_def s0_def st1_def fin_def Let_def)
    obtain d where d: "sd_datasets s0 (bs_dataset st1) = Some d"
      using act1 by (auto simp: active_ok_def stream_ok_def s0_def)
    obtain n d' where n: "notify_stream_finished now (Some (StreamStat.truncate st1)) d = (n, d')" by fastforce
    define s1 where "s1 = s0\<lparr>sd_datasets := (sd_datasets s0)(bs_dataset st1 \<mapsto> d')\<rparr>"
    have dom1: "dom (sd_datasets s1) = dom (sd_datasets s)" using d by (auto simp: s1_def s0_def)
    have inv1: "sched_inv run {} {} k 0 s1"
      using inv0 d unfolding sched_inv_def sched_ok_def sched_counts_def within_limits_def dims_ok_def
      by (simp add: s1_def insert_absorb domI)
    have "sched_ids s1 = sched_ids s" using st(1) same(1) by (intro ext) (simp add: sched_ids_def s1_def s0_def)
    then have iss: "issuable run (batch n) s1" for n using batch dom1 by (simp add: issuable_def)
    have lim1: "sched_limits s1 = sched_limits s" by (simp add: sched_limits_def s1_def s0_def)
    have s1x: "x \<in> set (queue_of s1 v)" "sd_streams s1 x = Some st1" using s0x by (simp_all add: s1_def)
    show ?thesis
    proof (cases n)
      case None
      then have "finish_phase (\<lambda>n. issue run now (batch n)) now x s = Inr s1"
        using fin_eq d n unfolding notify_dataset_def s1_def by simp
      then show ?thesis using inv1 s1x same lim1 by blast
    next
      case (Some a)
      obtain s2 where s2: "issue run now (batch a) s1 = Inr s2" "sched_inv run {} {} k 0 s2" "keeps s1 s2"
        using issue_ok [OF inv1 iss] by blast
      have "finish_phase (\<lambda>n. issue run now (batch n)) now x s = Inr s2"
        using fin_eq d n Some s2(1) unfolding notify_dataset_def s1_def by simp
      then show ?thesis using s2(2) keepsD(1,2) [OF s2(3)] keeps_limits [OF s2(3)] lim1 s1x same by metis
    qed
  qed
qed

lemma enter_queue_running:
  assumes "enter_queue now x (s\<lparr>sd_running_streams := R\<rparr>) = Inr s'"
  shows "enter_queue now x s = Inr (s'\<lparr>sd_running_streams := sd_running_streams s\<rparr>)"
  using assms by (auto simp: enter_queue_def deref_def Let_def split: option.splits)

lemma proceed_to_next_vnet_baseline_ok:
  fixes s :: "'c sched"
  assumes inv: "sched_inv run {} {} 0 0 s" and x: "x \<in> set (queue_of s v)"
    and st: "sd_streams s x = Some st" "bs_initialized st"
    and batch: "\<And>n. issuable run (batch n) s"
  shows "\<exists>s'. proceed_to_next_vnet_baseline (\<lambda>n. issue run now (batch n)) run now x s = Inr s' \<and>
    sched_inv run {} {} 0 0 s' \<and> admitted s' \<and> sched_limits s' = sched_limits s"
proof -
  define k :: int where "k = (if bs_steps_finished st = 1 then 1 else 0)"
  obtain s1 st1 where s1: "finish_phase (\<lambda>n. issue run now (batch n)) now x s = Inr s1" "sched_inv run {} {} k 0 s1"
    "x \<in> set (queue_of s1 v)" "sd_streams s1 x = Some st1" "bs_initialized st1"
    "bs_steps_finished st1 = bs_steps_finished st" "bs_phases_to_go st1 = bs_phases_to_go st"
    "sched_limits s1 = sched_limits s"
    using finish_phase_ok [of run s x v st batch k now, OF inv x st batch k_def] by blast
  define R where "R = (\<lambda>s :: 'c sched. s\<lparr>sd_running_streams := (sd_running_streams s)(v \<mapsto> running_of s v - 1)\<rparr>)"
  obtain m where m: "leave_queue x s1 = Inr (s1\<lparr>sd_active_Streams := m\<rparr>)"
    "sched_inv run {x} {v} 0 (-1) (s1\<lparr>sd_active_Streams := m, sd_running_streams := (sd_running_streams s1)(v \<mapsto> running_of s1 v - 1)\<rparr>)"
    using leave_queue_ok [OF s1(2-5)] s1(6) k_def by auto
  define s2 where "s2 = s1\<lparr>sd_active_Streams := m\<rparr>"
  have inv2: "sched_inv run {x} {v} 0 (-1) (R s2)" using m(2) by (simp add: s2_def R_def)
  have act: "active_ok run (dom (sd_datasets s)) v st"
    using refs_active [OF sched_okD(1) x] inv st(1) unfolding sched_inv_def by fastforce
  have act1: "active_ok run (dom (sd_datasets s1)) v st1"
    using refs_active [OF sched_okD(1) s1(3)] s1(2,4) unfolding sched_inv_def by fastforce
  have v: "bs_current_queue_id st = v" "v \<ge> 0" using act by (simp_all add: active_ok_def)
  show ?thesis
  proof (cases "bs_phases_to_go st = []")
    case True
    define s3 where "s3 = s2\<lparr>sd_total_running_streams := sd_total_running_streams s2 - 1\<rparr>"
    have "sched_inv run {x} (insert v {}) 0 0 (R s3)"
      using inv2 unfolding sched_inv_def sched_ok_def sched_counts_def within_limits_def dims_ok_def
      by (simp add: s3_def R_def)
    then obtain s4 where s4: "notify_stream_removed run now v (now - bs_last_init st) s3 = Inr s4"
      "sched_inv run {x} ({} - {v}) 0 0 s4" "admitted s4" "keeps s3 s4"
      using notify_stream_removed_ok unfolding R_def by blast
    define s5 where "s5 = s4\<lparr>sd_streams := (sd_streams s4)(x := None)\<rparr>"
    have ok4: "sched_ok run (sd_ready_list s4) {x} {} s4" using s4(2) unfolding sched_inv_def by simp
    have new: "x \<notin> active_set (queue_of s4)" using refs_okD(3) [OF sched_okD(1) [OF ok4]] by blast
    have same: "(sd_streams s5) y = sd_streams s4 y" if "y \<in> active_set (queue_of s4)" for y
    proof -
      have "y \<noteq> x" using that new by blast
      then show ?thesis by (simp add: s5_def)
    qed
    have "sched_ok run (sd_ready_list s5) {} {} s5"
      using refs_delete [OF sched_okD(1) [OF ok4], of x] slots_store [OF sched_okD(2) [OF ok4], of "sd_streams s5"]
        same sched_okD(3) [OF ok4] unfolding sched_ok_def by (simp add: s5_def dims_ok_def)
    moreover have "sched_counts 0 0 s5"
      using counts_store [of "sd_streams s4" "queue_of s4" _ _ "sd_streams s5"] same s4(2)
      unfolding sched_inv_def sched_counts_def by (simp add: s5_def)
    ultimately have "sched_inv run {} {} 0 0 s5" "admitted s5"
      using s4(2,3) by (simp_all add: sched_inv_def within_limits_def admitted_def s5_def)
    moreover have "proceed_to_next_vnet_baseline (\<lambda>n. issue run now (batch n)) run now x s = Inr s5"
      using st(1) s1(1) m(1) v s4(1) True
      by (simp add: proceed_to_next_vnet_baseline_def proceed_with_def deref_def Let_def s2_def [symmetric]
        s3_def [symmetric] s5_def)
    moreover have "sched_limits s5 = sched_limits s"
      using keeps_limits [OF s4(4)] s1(8) by (simp add: sched_limits_def s5_def s3_def s2_def)
    ultimately show ?thesis by blast
  next
    case False
    have pre: "sched_ok run (sd_ready_list s2) {x} {v} (R s2)" using inv2 by (simp add: sched_inv_def R_def)
    have st2: "sd_streams (R s2) x = Some st1" "stream_ok run (dom (sd_datasets (R s2))) st1" "bs_phases_to_go st1 \<noteq> []"
      "0 \<le> bs_steps_finished st1" "bs_steps_finished st1 \<noteq> 0"
      using s1(4,7) act1 False by (simp_all add: R_def s2_def active_ok_def)
    obtain t3 w str q where t3: "enter_queue now x (R s2) = Inr t3" "t3 = (R s2)\<lparr>sd_streams := str, sd_active_Streams := q\<rparr>"
      "sched_ok run (sd_ready_list s2) ({x} - {x}) {w, v} t3" "x \<in> set (queue_of t3 w)"
      "\<And>k j. sched_counts k j (R s2) \<Longrightarrow> sched_counts k (j + 1) t3"
      using enter_queue_ok [OF pre singletonI st2(1-4), of now] unfolding if_not_P [OF st2(5)] by blast
    define s3 where "s3 = t3\<lparr>sd_running_streams := sd_running_streams s2\<rparr>"
    have enter: "enter_queue now x s2 = Inr s3"
      using enter_queue_running [where s = s2 and x = x and now = now] t3(1) unfolding R_def s3_def by blast
    have "R s3 = t3" unfolding s3_def t3(2) R_def by simp
    moreover have "sched_inv run {} (insert v {w}) 0 0 t3"
      using t3(3) t3(5) [of 0 "-1"] inv2 unfolding sched_inv_def within_limits_def
      by (simp add: t3(2) R_def insert_commute)
    ultimately obtain s4 where s4: "notify_stream_removed run now v (now - bs_last_init st) s3 = Inr s4"
      "sched_inv run {} ({w} - {v}) 0 0 s4" "admitted s4" "keeps s3 s4"
      using notify_stream_removed_ok [of run "{}" v "{w}" 0 0 s3] unfolding R_def by auto
    have x4: "x \<in> set (queue_of s4 w)" using keepsD(1) [OF s4(4)] t3(4) by (simp add: s3_def)
    have ok4: "sched_ok run (sd_ready_list s4) {} (insert w {}) s4"
      using s4(2) sched_ok_mono [of run _ _ "{w} - {v}" s4 "{w}"] unfolding sched_inv_def by blast
    obtain st4 where st4: "sd_streams s4 x = Some st4" "bs_current_queue_id st4 = w"
      using refs_active [OF sched_okD(1) [OF ok4] x4] by (auto simp: active_ok_def)
    obtain s5 s6 where s6: "notify_stream_added run now w s4 = Inr s6" "restat s4 s5" "started s5 s6"
      "sched_ok run (sd_ready_list s4) {} ({} - {w}) s6"
      using notify_stream_added_ok [OF ok4] by blast
    note fields = restat_fields [OF s6(2)] started_fields [OF s6(3)]
    have "sched_counts 0 0 s6"
      using started_counts [OF s6(3)] fields(14) s4(2) unfolding sched_inv_def by blast
    then have "sched_inv run {} {} 0 0 s6" "admitted s6"
      using s6(4) s4(2,3) fields unfolding sched_inv_def within_limits_def admitted_def by auto
    moreover have "proceed_to_next_vnet_baseline (\<lambda>n. issue run now (batch n)) run now x s = Inr s6"
      using st(1) s1(1) m(1) v enter s4(1) st4 s6(1) False
      by (simp add: proceed_to_next_vnet_baseline_def proceed_with_def deref_def Let_def s2_def [symmetric])
    moreover have "sched_limits s6 = sched_limits s"
      using keeps_limits [OF s4(4)] s1(8) fields by (simp add: sched_limits_def s3_def t3(2) R_def s2_def)
    ultimately show ?thesis by blast
  qed
qed

end
