(* ===== verification/Scheduler_Policy.thy ===== *)
theory Scheduler_Policy
  imports Scheduler
begin

text \<open>
  The order in which the queues of streams are kept. Except for \<^verbatim>\<open>RG\<close>, a policy of
  \<^verbatim>\<open>Sys::insert_stream\<close> passes the streams with a smaller key; the locales state what follows from
  that, with and without passing the streams of equal key.
\<close>

abbreviation waiting_part :: "BaseStream list \<Rightarrow> BaseStream list" where
  "waiting_part q \<equiv> filter (\<lambda>x. \<not> bs_initialized x) q"

lemma skip_while_take: "\<forall>x \<in> set (take (skip_while P q) q). bs_initialized x \<or> P x"
  by (induction q) auto

lemma skip_while_drop:
  assumes "drop (skip_while P q) q = x # xs"
  shows "\<not> bs_initialized x \<and> \<not> P x"
  using assms by (induction q) (auto split: if_splits)

locale insertion_policy =
  fixes key :: "BaseStream \<Rightarrow> int" and passes :: "BaseStream \<Rightarrow> BaseStream \<Rightarrow> bool"
  assumes passed_key: "passes b x \<Longrightarrow> key x \<le> key b"
    and stopped_key: "\<not> passes b x \<Longrightarrow> key b \<le> key x"
begin

lemma later_keys:
  assumes "sorted (map key (waiting_part q))" "x \<in> set (waiting_part (drop (skip_while (passes b) q) q))"
  shows "key b \<le> key x"
proof (cases "drop (skip_while (passes b) q) q")
  case (Cons y ys)
  then have y: "\<not> bs_initialized y" "key b \<le> key y" using skip_while_drop [OF Cons] stopped_key by blast+
  have "sorted (map key (waiting_part (take (skip_while (passes b) q) q @ drop (skip_while (passes b) q) q)))"
    using assms(1) by simp
  then have "sorted (map key (waiting_part (y # ys)))"
    unfolding Cons filter_append map_append sorted_append by blast
  then have "key y \<le> key x" using assms(2) y(1) unfolding Cons by auto
  then show ?thesis using y(2) by linarith
qed (use assms(2) in simp)

lemma earlier_keys:
  assumes "x \<in> set (waiting_part (take (skip_while (passes b) q) q))"
  shows "passes b x" "key x \<le> key b"
  using assms skip_while_take [of "passes b" q] passed_key by auto

lemma place_sorted:
  assumes "sorted (map key (waiting_part q))"
  shows "sorted (map key (waiting_part (insert_at (skip_while (passes b) q) b q)))"
proof -
  let ?n = "skip_while (passes b) q"
  have q: "sorted (map key (waiting_part (take ?n q @ drop ?n q)))" using assms by simp
  have "\<forall>x \<in> set (waiting_part (take ?n q)). key x \<le> key b"
    "\<forall>x \<in> set (waiting_part (drop ?n q)). key b \<le> key x"
    using earlier_keys(2) later_keys [OF assms] by blast+
  moreover have "key x \<le> key y" if "x \<in> set (waiting_part (take ?n q))" "y \<in> set (waiting_part (drop ?n q))" for x y
    using q that unfolding filter_append map_append sorted_append by auto
  ultimately show ?thesis
    using q unfolding insert_at_def filter_append map_append sorted_append by auto
qed

end

text \<open>Policies that pass the streams of equal key, and policies that stop at them.\<close>

locale arrival_order_policy = insertion_policy +
  assumes equal_passed: "key x = key b \<Longrightarrow> passes b x"
begin

lemma place_bounds:
  assumes "sorted (map key (waiting_part q))"
  shows "(\<forall>y \<in> set (waiting_part (take (skip_while (passes b) q) q)). key y \<le> key b) \<and>
    (\<forall>y \<in> set (waiting_part (drop (skip_while (passes b) q) q)). key b < key y)"
proof -
  let ?n = "skip_while (passes b) q"
  have "key b < key y" if y: "y \<in> set (waiting_part (drop ?n q))" for y
  proof (cases "drop ?n q")
    case (Cons z zs)
    have z: "\<not> bs_initialized z" "\<not> passes b z" using skip_while_drop [OF Cons] by blast+
    then have "key b < key z" using equal_passed stopped_key by (metis order_le_less)
    moreover have "sorted (map key (waiting_part (take ?n q @ z # zs)))" using assms Cons by (metis append_take_drop_id)
    then have "sorted (map key (waiting_part (z # zs)))" unfolding filter_append map_append sorted_append by blast
    then have "key z \<le> key y" using y z(1) unfolding Cons by auto
    ultimately show ?thesis by linarith
  qed (use y in simp)
  then show ?thesis using earlier_keys(2) by blast
qed

end

locale reverse_arrival_policy = insertion_policy +
  assumes equal_stops: "key x = key b \<Longrightarrow> \<not> passes b x"
begin

lemma place_bounds:
  assumes "sorted (map key (waiting_part q))"
  shows "(\<forall>y \<in> set (waiting_part (take (skip_while (passes b) q) q)). key y < key b) \<and>
    (\<forall>y \<in> set (waiting_part (drop (skip_while (passes b) q) q)). key b \<le> key y)"
  using earlier_keys equal_stops later_keys [OF assms] by (metis order_le_less)

end

section \<open>The policies of the code\<close>

definition priority_key :: "BaseStream \<Rightarrow> int" where
  "priority_key x = - bs_priority x"

definition data_key :: "BaseStream \<Rightarrow> int" where
  "data_key x = uint (phase_data x)"

definition phases_key :: "BaseStream \<Rightarrow> int" where
  "phases_key x = int (length (bs_phases_to_go x))"

interpretation fifo: arrival_order_policy priority_key "\<lambda>b x. bs_priority x \<ge> bs_priority b"
  by unfold_locales (auto simp: priority_key_def)

interpretation smallest: reverse_arrival_policy data_key "\<lambda>b x. phase_data x < phase_data b"
  by unfold_locales (auto simp: data_key_def word_less_def)

interpretation fewest: reverse_arrival_policy phases_key
  "\<lambda>b x. length (bs_phases_to_go x) < length (bs_phases_to_go b)"
  by unfold_locales (auto simp: phases_key_def)

fun policy_key :: "IntraDimensionScheduling \<Rightarrow> BaseStream \<Rightarrow> int" where
  "policy_key IntraFIFO = priority_key"
| "policy_key SmallestFirst = data_key"
| "policy_key LessRemainingPhaseFirst = phases_key"
| "policy_key RG = (\<lambda>_. 0)"

lemma streams_insert_at: "map f (insert_at n x q) = insert_at n (f x) (map f q)"
  by (simp add: insert_at_def take_map drop_map)

text \<open>
  Insertion keeps the waiting streams of a queue in order: under \<^verbatim>\<open>FIFO\<close> by descending
  priority, behind the waiting streams of equal priority; under \<^verbatim>\<open>LessRemainingPhaseFirst\<close> by the
  number of remaining phases and under \<^verbatim>\<open>SmallestFirst\<close> by the size of the phase, in both cases
  ahead of the waiting streams of equal key. (The exceptions are in the code: an All-Reduce or an
  All-to-All is always placed by priority, and \<^verbatim>\<open>SmallestFirst\<close> appends a stream with one
  phase to go.)
\<close>

theorem insertion_order:
  fixes str :: "nat \<rightharpoonup> BaseStream" and q :: "nat list" and x :: nat
  assumes "intra = IntraFIFO \<or>
      intra \<in> {SmallestFirst, LessRemainingPhaseFirst} \<and> 0 \<le> bs_current_queue_id (the (str x)) \<and>
      bs_current_com_type (the (str x)) \<notin> {All_to_All, All_Reduce}"
    and "intra = SmallestFirst \<longrightarrow> length (bs_phases_to_go (the (str x))) \<noteq> 1"
    and "sorted (map (policy_key intra) (waiting_part (map (\<lambda>y. the (str y)) q)))"
  shows "\<exists>n. insert_stream intra str x q = insert_at n x q \<and>
    sorted (map (policy_key intra) (waiting_part (map (\<lambda>y. the (str y)) (insert_at n x q)))) \<and>
    (\<forall>y \<in> set (waiting_part (map (\<lambda>y. the (str y)) (take n q))).
       policy_key intra y < policy_key intra (the (str x)) \<or>
       intra = IntraFIFO \<and> policy_key intra y = policy_key intra (the (str x))) \<and>
    (\<forall>y \<in> set (waiting_part (map (\<lambda>y. the (str y)) (drop n q))).
       policy_key intra (the (str x)) < policy_key intra y \<or>
       intra \<noteq> IntraFIFO \<and> policy_key intra y = policy_key intra (the (str x)))"
proof -
  let ?q = "map (\<lambda>y. the (str y)) q" and ?b = "the (str x)"
  define n where "n = insert_position intra ?b ?q"
  consider "intra = IntraFIFO" | "intra = SmallestFirst" | "intra = LessRemainingPhaseFirst" using assms(1) by blast
  then have "sorted (map (policy_key intra) (waiting_part (insert_at n ?b ?q))) \<and>
    (\<forall>y \<in> set (waiting_part (take n ?q)).
       policy_key intra y < policy_key intra ?b \<or> intra = IntraFIFO \<and> policy_key intra y = policy_key intra ?b) \<and>
    (\<forall>y \<in> set (waiting_part (drop n ?q)).
       policy_key intra ?b < policy_key intra y \<or> intra \<noteq> IntraFIFO \<and> policy_key intra y = policy_key intra ?b)"
  proof cases
    case 1
    then have "n = skip_while (\<lambda>x. bs_priority x \<ge> bs_priority ?b) ?q" by (simp add: n_def insert_position_def)
    then show ?thesis using fifo.place_sorted [of ?q ?b] fifo.place_bounds [of ?q ?b] assms(3) 1
      by (simp add: order_le_less)
  next
    case 2
    then have "n = skip_while (\<lambda>x. phase_data x < phase_data ?b) ?q"
      using assms(1,2) by (simp add: n_def insert_position_def)
    then show ?thesis using smallest.place_sorted [of ?q ?b] smallest.place_bounds [of ?q ?b] assms(3) 2
      by (auto simp: order_le_less)
  next
    case 3
    then have "n = skip_while (\<lambda>x. length (bs_phases_to_go x) < length (bs_phases_to_go ?b)) ?q"
      using assms(1) by (simp add: n_def insert_position_def)
    then show ?thesis using fewest.place_sorted [of ?q ?b] fewest.place_bounds [of ?q ?b] assms(3) 3
      by (auto simp: order_le_less)
  qed
  moreover have "insert_stream intra str x q = insert_at n x q" by (simp add: insert_stream_def n_def)
  ultimately show ?thesis by (auto simp: streams_insert_at take_map drop_map)
qed

text \<open>Two waiting streams of priorities 7 and 3, and a third of priority 7 placed between them.\<close>

definition plain_stream :: "int \<Rightarrow> int \<Rightarrow> BaseStream" where
  "plain_stream i priority =
     StreamBaseline_new
       \<lparr>un_ring_sizes = (0, 0), un_peer = 0, un_data_size = 0, un_final_data_size = 0,
        un_com_type = ComNone, un_enabled = False, un_tick = 0, un_streams = 0\<rparr>
       0 0 i [] priority"

definition plain_store :: "nat \<rightharpoonup> BaseStream" where
  "plain_store = [0 \<mapsto> plain_stream 0 7, 1 \<mapsto> plain_stream 1 3, 2 \<mapsto> plain_stream 2 7]"

theorem insertion_order_witness:
  "insert_stream IntraFIFO plain_store 2 [0, 1] = [0, 2, 1] \<and>
   (\<exists>n. insert_stream IntraFIFO plain_store 2 [0, 1] = insert_at n 2 [0, 1] \<and>
     sorted (map priority_key (waiting_part (map (\<lambda>y. the (plain_store y)) (insert_at n 2 [0, 1])))))"
proof -
  have "sorted (map (policy_key IntraFIFO) (waiting_part (map (\<lambda>y. the (plain_store y)) [0, 1])))"
    by code_simp
  then have "\<exists>n. insert_stream IntraFIFO plain_store 2 [0, 1] = insert_at n 2 [0, 1] \<and>
      sorted (map priority_key (waiting_part (map (\<lambda>y. the (plain_store y)) (insert_at n 2 [0, 1]))))"
    using insertion_order [of IntraFIFO plain_store 2 "[0, 1]"] unfolding policy_key.simps by blast
  moreover have "insert_stream IntraFIFO plain_store 2 [0, 1] = [0, 2, 1]" by code_simp
  ultimately show ?thesis by blast
qed

end
