(* ===== verification/Stream_Scheduling.thy ===== *)
theory Stream_Scheduling
  imports Scheduler_Runs Scheduler_Policy
begin

text \<open>
  Runs of the stream scheduler: the states that collectives being issued and phases being finished
  lead to, in any order, from the state the constructor of \<^verbatim>\<open>Sys\<close> builds; and what holds in all of
  them.
\<close>

section \<open>Reachable states\<close>

inductive sched_reachable :: "runner \<Rightarrow> 'c sched \<Rightarrow> 'c sched \<Rightarrow> bool" for run s0 where
  start: "sched_reachable run s0 s0"
| issued: "sched_reachable run s0 s \<Longrightarrow> issuable run b s \<Longrightarrow> issue run now b s = Inr s' \<Longrightarrow>
    sched_reachable run s0 s'"
| finished: "sched_reachable run s0 s \<Longrightarrow> x \<in> set (queue_of s v) \<Longrightarrow> sd_streams s x = Some st \<Longrightarrow>
    bs_initialized st \<Longrightarrow> (\<And>n. issuable run (batch n) s) \<Longrightarrow>
    proceed_to_next_vnet_baseline (\<lambda>n. issue run now (batch n)) run now x s = Inr s' \<Longrightarrow>
    sched_reachable run s0 s'"

definition sched_config :: "int list \<Rightarrow> int \<Rightarrow> int \<Rightarrow> int \<Rightarrow> bool" where
  "sched_config queues max_running_streams ready_list_threshold queue_threshold \<longleftrightarrow>
     queues \<noteq> [] \<and> 0 \<le> max_running_streams \<and> 0 \<le> ready_list_threshold \<and> 0 \<le> queue_threshold"

lemma queue_dimensions_bound:
  assumes "d \<in> set (queue_dimensions queues)"
  shows "0 \<le> d \<and> d < int (length queues)"
proof -
  obtain i n where "(i, n) \<in> set (List.enumerate 0 queues)" "d \<in> set (replicate (nat n) (int i))"
    using assms unfolding queue_dimensions_def by auto
  then show ?thesis by (auto simp: in_set_enumerate_eq split: if_splits)
qed

lemma new_dims_ok:
  assumes "queues \<noteq> []"
  shows "dims_ok (SchedulerUnit_new sid intra queues mr rt qt)"
proof -
  have "0 \<le> queue_dimensions queues ! k \<and> queue_dimensions queues ! k < int (length queues)"
    if "k < length (queue_dimensions queues)" for k
    using queue_dimensions_bound nth_mem that by blast
  moreover have "0 < length queues" using assms by simp
  ultimately show ?thesis
    by (auto simp: dims_ok_def SchedulerUnit_new_def Let_def map_index_def)
qed

lemma new_sched_inv:
  fixes s :: "'c sched"
  assumes "sched_config queues mr rt qt" and s_def: "s = SchedulerUnit_new sid intra queues mr rt qt"
  shows "sched_inv run {} {} 0 0 s" "admitted s"
proof -
  have empty: "sd_streams s = Map.empty" "sd_ready_list s = []" "queue_of s v = []" "running_of s v = 0"
    "sd_first_phase_streams s = 0" "sd_total_running_streams s = 0" "sd_max_running_streams s = mr"
    "sd_ready_list_threshold s = rt" "sd_queue_threshold s = qt" for v
    by (simp_all add: s_def SchedulerUnit_new_def Let_def map_index_def)
  have "refs_ok run (dom (sd_datasets s)) (sd_streams s) [] (queue_of s) {}"
    unfolding empty by (rule refs_okI) simp_all
  moreover have "slots_ok (sd_streams s) (queue_of s) (running_of s) (sd_queue_threshold s) {}"
    using assms(1) unfolding empty by (simp add: slots_ok_def sched_config_def)
  moreover have "dims_ok s" using new_dims_ok assms(1) unfolding s_def sched_config_def by blast
  ultimately have "sched_ok run [] {} {} s" unfolding sched_ok_def by blast
  then show "sched_inv run {} {} 0 0 s" "admitted s"
    using assms(1) empty
    by (simp_all add: sched_inv_def sched_counts_def counts_ok_def first_phase_set_def within_limits_def
      admitted_def sched_config_def)
qed

lemma reachable_inv:
  assumes "sched_reachable run s0 s" "sched_inv run {} {} 0 0 s0" "admitted s0"
  shows "sched_inv run {} {} 0 0 s \<and> admitted s \<and> sched_limits s = sched_limits s0"
  using assms
proof (induction rule: sched_reachable.induct)
  case (issued s b now s')
  obtain t where "issue run now b s = Inr t" "sched_inv run {} {} 0 0 t" "keeps s t" "admitted s \<longrightarrow> admitted t"
    using issue_ok [of run "{}" "{}" 0 0 s b now] issued by blast
  then show ?case using issued keeps_limits [of s t] by simp
next
  case (finished s x v st batch now s')
  then obtain t where "proceed_to_next_vnet_baseline (\<lambda>n. issue run now (batch n)) run now x s = Inr t"
    "sched_inv run {} {} 0 0 t" "admitted t" "sched_limits t = sched_limits s"
    using proceed_to_next_vnet_baseline_ok [of run s x v st batch now] by blast
  then show ?case using finished by simp
qed simp

lemma reachable_new:
  assumes "sched_config queues mr rt qt"
    and "sched_reachable run (SchedulerUnit_new sid intra queues mr rt qt) s"
  shows "sched_inv run {} {} 0 0 s" "admitted s" "sd_max_running_streams s = mr"
    "sd_ready_list_threshold s = rt" "sd_queue_threshold s = qt"
proof -
  have "sched_inv run {} {} 0 0 s \<and> admitted s \<and>
      sched_limits s = sched_limits (SchedulerUnit_new sid intra queues mr rt qt :: 'a sched)"
    using reachable_inv [OF assms(2)] new_sched_inv [OF assms(1) refl] by blast
  then show "sched_inv run {} {} 0 0 s" "admitted s" "sd_max_running_streams s = mr"
    "sd_ready_list_threshold s = rt" "sd_queue_threshold s = qt"
    by (simp_all add: sched_limits_def SchedulerUnit_new_def Let_def)
qed

section \<open>Ring phases can start\<close>

lemma demo_ring_phase_ok:
  assumes "ring_wf t" "rt_id t = nid" "type \<noteq> All_to_All \<or> policy \<noteq> Aggressive"
    and "Ring_new type nid t data_size direction policy uninit = Inr r" "rg_log r = []"
  shows "phase_ok (alg_run custom_run) i (CollectivePhase_init j w state (CollectivePhase_new q (AlgRing r)))"
proof -
  have "startable (alg_run custom_run) (Some (AlgRing (Algorithm_init i v Ready r)))" for v
  proof -
    have fresh: "ring_fresh (ring_stream_count type (get_nodes_in_ring t)) (Algorithm_init i v Ready r)"
      using Ring_new_fresh [OF assms(1-4)] .
    moreover have "rg_log (Algorithm_init i v Ready r) = []" using assms(5) by (simp add: Algorithm_init_def)
    moreover have "rg_name (Algorithm_init i v Ready r) = NameRing" using fresh by (simp add: ring_fresh_def ring_core_def)
    ultimately show ?thesis using ring_start by (fastforce simp: startable_def ring_algorithm_run_def)
  qed
  then show ?thesis
    by (simp add: phase_ok_def CollectivePhase_init_def CollectivePhase_new_def alg_enabled_def Algorithm_init_def)
qed

text \<open>A system with two queues, one stream running in each, and three streams of two ring phases.\<close>

definition demo_uninit :: unset where
  "demo_uninit = \<lparr>un_ring_sizes = (0, 0), un_peer = 0, un_data_size = 0, un_final_data_size = 0,
     un_com_type = ComNone, un_enabled = False, un_tick = 0, un_streams = 0\<rparr>"

definition demo_phase :: "int \<Rightarrow> CollectivePhase" where
  "demo_phase q =
     (case Ring_new All_Reduce 3 demo_ring 12 Clockwise Normal (0, 0) of
        Inl e \<Rightarrow> CollectivePhase_default demo_uninit
      | Inr r \<Rightarrow> CollectivePhase_new q (AlgRing r))"

definition demo_stream :: "nat \<Rightarrow> BaseStream" where
  "demo_stream i = StreamBaseline_new demo_uninit 0 0 (int i) [demo_phase 0, demo_phase 1] 0"

definition demo_run :: runner where
  "demo_run = alg_run (\<lambda>event c. Inr c)"

definition demo_sched :: "int sched" where
  "demo_sched = SchedulerUnit_new 0 IntraFIFO [1, 1] 2 2 1"

definition demo_batch :: "int batch" where
  "demo_batch = ([(0, DataSet_new 0 3 0)], map (\<lambda>i. (i, demo_stream i)) [0, 1, 2])"

definition demo_facts :: "int sched \<Rightarrow> bool" where
  "demo_facts s \<longleftrightarrow> sd_ready_list s = [2] \<and> queue_of s 0 = [0, 1] \<and> running_of s 0 = 1 \<and>
     bs_initialized (the (sd_streams s 0)) \<and> \<not> bs_initialized (the (sd_streams s 1))"

lemma demo_issue: "(case issue demo_run 5 demo_batch demo_sched of Inl e \<Rightarrow> False | Inr s \<Rightarrow> demo_facts s)"
  by code_simp

lemma demo_ring_new: "\<exists>r. Ring_new All_Reduce 3 demo_ring 12 Clockwise Normal (0, 0) = Inr r"
proof -
  have "(case Ring_new All_Reduce 3 demo_ring 12 Clockwise Normal (0, 0) of Inl e \<Rightarrow> False | Inr r \<Rightarrow> True)"
    by code_simp
  then show ?thesis by (auto split: sum.splits)
qed

lemma demo_waiting: "waiting_ok demo_run {0} (demo_stream i)"
proof -
  obtain r where r: "Ring_new All_Reduce 3 demo_ring 12 Clockwise Normal (0, 0) = Inr r"
    using demo_ring_new by blast
  have "rt_id demo_ring = 3" by code_simp
  moreover have "rg_log r = []" using r by (auto simp: Ring_new_def Let_def rbind_Inr_iff)
  ultimately have "phase_ok demo_run (int i) (CollectivePhase_init j (-1) Created (demo_phase q))" for j q
    using demo_ring_phase_ok [OF demo_ring_wf(1) _ _ r] unfolding demo_run_def demo_phase_def r by simp
  then show ?thesis
    by (simp add: waiting_ok_def stream_ok_def demo_stream_def StreamBaseline_new_def BaseStream_new_def
      BaseStream.defs StreamStat.defs StreamStat_new_def)
qed

lemma demo_state:
  obtains s where "issue demo_run 5 demo_batch demo_sched = Inr s" "demo_facts s" "sched_config [1, 1] 2 2 1"
    "sched_reachable demo_run (SchedulerUnit_new 0 IntraFIFO [1, 1] 2 2 1) s"
proof -
  obtain s where s: "issue demo_run 5 demo_batch demo_sched = Inr s" "demo_facts s"
    using demo_issue by (cases "issue demo_run 5 demo_batch demo_sched") auto
  have ids: "bs_stream_id (demo_stream i) = int i" for i
    by (simp add: demo_stream_def StreamBaseline_new_def BaseStream_new_def BaseStream.defs StreamStat.defs
      StreamStat_new_def)
  have "issuable demo_run demo_batch demo_sched"
    using demo_waiting
    by (simp add: issuable_def demo_batch_def demo_sched_def SchedulerUnit_new_def Let_def sched_ids_def ids)
  then have "sched_reachable demo_run demo_sched s"
    using sched_reachable.issued [OF sched_reachable.start] s(1) by blast
  then show ?thesis using that s unfolding demo_sched_def sched_config_def by simp
qed

section \<open>Properties\<close>

text \<open>
  \<^bold>\<open>C6\<close>. Well-formedness of the references of the scheduler, in every state that issuing collectives
  and finishing phases can lead to: the lists have no repetitions, every allocated stream is either
  in the ready list or in exactly one queue, and no list refers to a stream that has been deleted;
  a stream of the ready list has no queue, has not started and has a phase to run, and a stream of
  queue \<open>v\<close> records \<open>v\<close> as its queue; and no two streams share an identifier.
\<close>

theorem scheduler_references:
  assumes "sched_config queues mr rt qt"
    and "sched_reachable run (SchedulerUnit_new sid intra queues mr rt qt) s"
  shows "dom (sd_streams s) = set (sd_ready_list s) \<union> (\<Union>v. set (queue_of s v)) \<and>
    distinct (sd_ready_list s) \<and> (\<forall>v. distinct (queue_of s v)) \<and>
    (\<forall>v. set (sd_ready_list s) \<inter> set (queue_of s v) = {}) \<and>
    (\<forall>v w. v \<noteq> w \<longrightarrow> set (queue_of s v) \<inter> set (queue_of s w) = {}) \<and>
    (\<forall>x st. x \<in> set (sd_ready_list s) \<and> sd_streams s x = Some st \<longrightarrow>
       bs_current_queue_id st = -1 \<and> \<not> bs_initialized st \<and> bs_phases_to_go st \<noteq> []) \<and>
    (\<forall>v x st. x \<in> set (queue_of s v) \<and> sd_streams s x = Some st \<longrightarrow>
       0 \<le> v \<and> bs_current_queue_id st = v \<and> cp_queue_id (bs_my_current_phase st) = v) \<and>
    (\<forall>x y stx sty. sd_streams s x = Some stx \<and> sd_streams s y = Some sty \<and>
       bs_stream_id stx = bs_stream_id sty \<longrightarrow> x = y)"
proof -
  have "sched_ok run (sd_ready_list s) {} {} s" using reachable_new(1) [OF assms] by (simp add: sched_inv_def)
  note refs = sched_okD(1) [OF this]
  have "\<forall>v. set (sd_ready_list s) \<inter> set (queue_of s v) = {}" using refs_ready(2) [OF refs] by blast
  moreover have "\<forall>v w. v \<noteq> w \<longrightarrow> set (queue_of s v) \<inter> set (queue_of s w) = {}"
    using refs_queue_unique [OF refs] by blast
  moreover have "\<forall>x st. x \<in> set (sd_ready_list s) \<and> sd_streams s x = Some st \<longrightarrow>
      bs_current_queue_id st = -1 \<and> \<not> bs_initialized st \<and> bs_phases_to_go st \<noteq> []"
    using refs_okD(6) [OF refs] unfolding waiting_ok_def by (metis option.sel)
  moreover have "\<forall>v x st. x \<in> set (queue_of s v) \<and> sd_streams s x = Some st \<longrightarrow>
      0 \<le> v \<and> bs_current_queue_id st = v \<and> cp_queue_id (bs_my_current_phase st) = v"
    using refs_okD(7) [OF refs] unfolding active_ok_def by (metis option.sel)
  moreover have "x = y" if "sd_streams s x = Some stx" "sd_streams s y = Some sty" "bs_stream_id stx = bs_stream_id sty"
    for x y stx sty
    using inj_onD [OF refs_okD(8) [OF refs], of x y] that by auto
  ultimately show ?thesis
    using refs_okD(2,4,5) [OF refs] by (simp only: Un_empty_right) blast
qed

theorem scheduler_references_witness:
  "\<exists>s. issue demo_run 5 demo_batch demo_sched = Inr s \<and> sd_ready_list s = [2] \<and> queue_of s 0 = [0, 1] \<and>
     dom (sd_streams s) = set (sd_ready_list s) \<union> (\<Union>v. set (queue_of s v)) \<and>
     bs_current_queue_id (the (sd_streams s 1)) = 0"
proof -
  obtain s where s: "issue demo_run 5 demo_batch demo_sched = Inr s" "demo_facts s" "sched_config [1, 1] 2 2 1"
    "sched_reachable demo_run (SchedulerUnit_new 0 IntraFIFO [1, 1] 2 2 1) s" using demo_state .
  have "1 \<in> set (queue_of s 0)" using s(2) by (simp add: demo_facts_def)
  moreover from this obtain st where "sd_streams s 1 = Some st"
    using scheduler_references [OF s(3,4)] by blast
  ultimately have "bs_current_queue_id (the (sd_streams s 1)) = 0"
    using scheduler_references [OF s(3,4)] by simp
  moreover have "dom (sd_streams s) = set (sd_ready_list s) \<union> (\<Union>v. set (queue_of s v))"
    using scheduler_references [OF s(3,4)] by blast
  ultimately show ?thesis using s(1,2) unfolding demo_facts_def by blast
qed

text \<open>
  \<^bold>\<open>C14\<close>. The limits of the configuration hold in every reachable state: the running streams of a
  queue are its first ones, as many as its counter says and at most \<^verbatim>\<open>queue_threshold\<close>;
  \<^verbatim>\<open>total_running_streams\<close> is the number of streams in the queues and at most
  \<^verbatim>\<open>max_running_streams\<close>; \<^verbatim>\<open>first_phase_streams\<close> is the number of those in their first
  phase and at most \<^verbatim>\<open>ready_list_threshold\<close>.
\<close>

theorem scheduler_limits:
  assumes "sched_config queues mr rt qt"
    and "sched_reachable run (SchedulerUnit_new sid intra queues mr rt qt) s"
  shows "(\<forall>v i. i < length (queue_of s v) \<longrightarrow>
      (bs_initialized (the (sd_streams s (queue_of s v ! i))) \<longleftrightarrow> int i < running_of s v)) \<and>
    (\<forall>v. 0 \<le> running_of s v \<and> running_of s v \<le> qt) \<and>
    sd_total_running_streams s = int (card (\<Union>v. set (queue_of s v))) \<and> sd_total_running_streams s \<le> mr \<and>
    sd_first_phase_streams s = int (card {x \<in> (\<Union>v. set (queue_of s v)). bs_steps_finished (the (sd_streams s x)) = 1}) \<and>
    sd_first_phase_streams s \<le> rt"
proof -
  note inv = reachable_new [OF assms]
  have "sched_ok run (sd_ready_list s) {} {} s" using inv(1) by (simp add: sched_inv_def)
  note slots = sched_okD(2) [OF this]
  have "sched_counts 0 0 s" "within_limits s" using inv(1) by (simp_all add: sched_inv_def)
  then show ?thesis
    using slots_okD(1,3,4) [OF slots] inv(3-5)
    by (simp add: sched_counts_def counts_ok_def within_limits_def first_phase_set_def)
qed

theorem scheduler_limits_witness:
  "\<exists>s. issue demo_run 5 demo_batch demo_sched = Inr s \<and> queue_of s 0 = [0, 1] \<and> running_of s 0 = 1 \<and>
     \<not> bs_initialized (the (sd_streams s 1)) \<and> sd_total_running_streams s \<le> 2 \<and> sd_first_phase_streams s \<le> 2"
proof -
  obtain s where s: "issue demo_run 5 demo_batch demo_sched = Inr s" "demo_facts s" "sched_config [1, 1] 2 2 1"
    "sched_reachable demo_run (SchedulerUnit_new 0 IntraFIFO [1, 1] 2 2 1) s" using demo_state .
  then show ?thesis using scheduler_limits [OF s(3,4)] unfolding demo_facts_def by blast
qed

text \<open>
  \<^bold>\<open>C31\<close>. No stream waits while there is room for it: in every reachable state a queue runs all its
  streams or as many as \<^verbatim>\<open>queue_threshold\<close> allows, and the ready list is empty unless the first
  phases or the running streams have reached their limit.
\<close>

theorem scheduler_work_conserving:
  assumes "sched_config queues mr rt qt"
    and "sched_reachable run (SchedulerUnit_new sid intra queues mr rt qt) s"
  shows "(\<forall>v. running_of s v = min qt (int (length (queue_of s v)))) \<and>
    (sd_ready_list s \<noteq> [] \<longrightarrow> sd_first_phase_streams s = rt \<or> sd_total_running_streams s = mr)"
proof -
  note inv = reachable_new [OF assms]
  have "sched_ok run (sd_ready_list s) {} {} s" using inv(1) by (simp add: sched_inv_def)
  note slots = sched_okD(2) [OF this]
  have "running_of s v = min qt (int (length (queue_of s v)))" for v
    using slots_okD(2,3,5) [OF slots, of v] inv(5) by auto
  then show ?thesis using inv(2-4) by (auto simp: admitted_def)
qed

theorem scheduler_work_conserving_witness:
  "\<exists>s. issue demo_run 5 demo_batch demo_sched = Inr s \<and> sd_ready_list s = [2] \<and>
     (sd_first_phase_streams s = 2 \<or> sd_total_running_streams s = 2) \<and> running_of s 0 = 1"
proof -
  obtain s where s: "issue demo_run 5 demo_batch demo_sched = Inr s" "demo_facts s" "sched_config [1, 1] 2 2 1"
    "sched_reachable demo_run (SchedulerUnit_new 0 IntraFIFO [1, 1] 2 2 1) s" using demo_state .
  moreover have "sd_first_phase_streams s = 2 \<or> sd_total_running_streams s = 2"
    using scheduler_work_conserving [OF s(3,4)] s(2) by (simp add: demo_facts_def)
  ultimately show ?thesis unfolding demo_facts_def by blast
qed

text \<open>
  \<^bold>\<open>C32\<close>. The scheduler never fails. From a reachable state, issuing new collectives and finishing the
  phase of a running stream return a state, so that no list is read when empty, no deleted stream is
  used, the panic of \<^verbatim>\<open>schedule\<close> and a removal nested inside it are not reached.
\<close>

theorem scheduler_never_fails:
  assumes "sched_config queues mr rt qt"
    and "sched_reachable run (SchedulerUnit_new sid intra queues mr rt qt) s"
    and "issuable run b s" "\<forall>n. issuable run (batch n) s"
    and "x \<in> set (queue_of s v)" "bs_initialized (the (sd_streams s x))"
  shows "(\<exists>s'. issue run now b s = Inr s') \<and>
    (\<exists>s'. proceed_to_next_vnet_baseline (\<lambda>n. issue run now (batch n)) run now x s = Inr s')"
proof -
  note inv = reachable_new(1) [OF assms(1,2)]
  obtain st where "sd_streams s x = Some st" "bs_initialized st"
    using refs_active [OF sched_okD(1) assms(5)] assms(6) inv unfolding sched_inv_def by fastforce
  then show ?thesis
    using issue_ok [OF inv assms(3)] proceed_to_next_vnet_baseline_ok [OF inv assms(5)] assms(4) by blast
qed

theorem scheduler_never_fails_witness:
  "\<exists>s s'. issue demo_run 5 demo_batch demo_sched = Inr s \<and>
     proceed_to_next_vnet_baseline (\<lambda>n. issue demo_run 9 ([], [])) demo_run 9 0 s = Inr s'"
proof -
  obtain s where s: "issue demo_run 5 demo_batch demo_sched = Inr s" "demo_facts s" "sched_config [1, 1] 2 2 1"
    "sched_reachable demo_run (SchedulerUnit_new 0 IntraFIFO [1, 1] 2 2 1) s" using demo_state .
  have none: "issuable demo_run ([], []) s" by (simp add: issuable_def)
  have "0 \<in> set (queue_of s 0)" "bs_initialized (the (sd_streams s 0))" using s(2) by (simp_all add: demo_facts_def)
  then show ?thesis
    using scheduler_never_fails [OF s(3,4) none, of "\<lambda>n. ([], [])" 0 0 9] none s(1) by blast
qed

end
