(* ===== verification/Memory_Bus.thy ===== *)
theory Memory_Bus
  imports Collective_Phase
begin

text \<open>
  The memory bus between a node and its network interface: \<^verbatim>\<open>LogGP.cc\<close>, \<^verbatim>\<open>MemBus.cc\<close>,
  \<^verbatim>\<open>MemMovRequest.cc\<close> and \<^verbatim>\<open>PacketBundle.cc\<close>. A bus has two sides that share their fate:
  each moves its requests to the other. What a side asks of the rest of the system is recorded in
  the state: events registered with \<^verbatim>\<open>Sys\<close> that have not been delivered, requests to the memory
  bus behind the side that have not come back, and the calls that end a request. A call that ends a
  request runs code that may put new requests on the bus before the handler goes on; \<open>client\<close>
  gives these requests.
\<close>

section \<open>Requests\<close>

record 'c MemMovRequest = SharedBusStat +
  mm_my_id :: nat
  mm_size :: int
  mm_latency :: int
  mm_callable :: 'c
  mm_processed :: bool
  mm_send_back :: bool
  mm_mem_bus_finished :: bool
  mm_callEvent :: EventType
  mm_total_transfer_queue_time :: Tick
  mm_total_transfer_time :: Tick
  mm_total_processing_queue_time :: Tick
  mm_total_processing_time :: Tick
  mm_start_time :: Tick
  mm_request_num :: int

definition MemMovRequest_new ::
    "nat \<Rightarrow> Tick \<Rightarrow> int \<Rightarrow> int \<Rightarrow> int \<Rightarrow> 'c \<Rightarrow> bool \<Rightarrow> bool \<Rightarrow> 'c MemMovRequest" where
  "MemMovRequest_new static_id now request_num bytes latency callable processed send_back =
     SharedBusStat.extend (SharedBusStat_new BusMem 0 0 0 0)
       (MemMovRequest.fields static_id bytes latency callable processed send_back True General 0 0 0 0 now
          request_num)"

definition wait_wait_for_mem_bus :: "'c MemMovRequest \<Rightarrow> 'c MemMovRequest" where
  "wait_wait_for_mem_bus r = r\<lparr>mm_mem_bus_finished := False\<rparr>"

text \<open>The part of \<^verbatim>\<open>MemMovRequest::call\<close> that changes the request.\<close>

definition mem_bus_answer :: "SharedBusStat \<Rightarrow> 'c MemMovRequest \<Rightarrow> 'c MemMovRequest" where
  "mem_bus_answer data r =
     (let r = update_bus_stats BusMem data r in
      r\<lparr>total_mem_bus_transfer_delay := total_mem_bus_transfer_delay r + total_shared_bus_transfer_delay data,
        total_mem_bus_processing_delay :=
          total_mem_bus_processing_delay r + total_shared_bus_processing_delay data,
        total_mem_bus_processing_queue_delay :=
          total_mem_bus_processing_queue_delay r + total_shared_bus_processing_queue_delay data,
        total_mem_bus_transfer_queue_delay :=
          total_mem_bus_transfer_queue_delay r + total_shared_bus_transfer_queue_delay data,
        mem_request_counter := 1, mm_mem_bus_finished := True\<rparr>)"

section \<open>State of a bus\<close>

datatype side = NPU_side | MA_side

fun partner :: "side \<Rightarrow> side" where
  "partner NPU_side = MA_side"
| "partner MA_side = NPU_side"

datatype LogGP_State = LFree | LWaiting | LSending | LReceiving

datatype ProcState = PFree | PProcessing

record 'c LogGP =
  lg_NPU_MEM :: bool
  lg_request_num :: int
  lg_L :: Tick
  lg_o :: Tick
  lg_g :: Tick
  lg_G :: rat
  lg_last_trans :: Tick
  lg_curState :: LogGP_State
  lg_prevState :: LogGP_State
  lg_processing_state :: ProcState
  lg_sends :: "'c MemMovRequest list"
  lg_receives :: "'c MemMovRequest list"
  lg_processing :: "'c MemMovRequest list"
  lg_retirements :: "'c MemMovRequest list"
  lg_pre_send :: "'c MemMovRequest list"
  lg_pre_process :: "'c MemMovRequest list"
  lg_trigger_event :: EventType
  lg_subsequent_reads :: int
  lg_local_reduction_delay :: int

definition LogGP_new :: "Tick \<Rightarrow> Tick \<Rightarrow> Tick \<Rightarrow> rat \<Rightarrow> EventType \<Rightarrow> int \<Rightarrow> 'c LogGP" where
  "LogGP_new L ov g G trigger_event local_reduction_delay =
     \<lparr>lg_NPU_MEM = False, lg_request_num = 0, lg_L = L, lg_o = ov, lg_g = g, lg_G = G, lg_last_trans = 0,
      lg_curState = LFree, lg_prevState = LFree, lg_processing_state = PFree, lg_sends = [], lg_receives = [],
      lg_processing = [], lg_retirements = [], lg_pre_send = [], lg_pre_process = [],
      lg_trigger_event = trigger_event, lg_subsequent_reads = 0,
      lg_local_reduction_delay = local_reduction_delay\<rparr>"

abbreviation THRESHOLD :: int where
  "THRESHOLD \<equiv> 8"

text \<open>
  A request to the memory bus behind a side: its direction, the size, the two flags, and the request
  that is called when it is done. The end of a request: the callable, the event and the statistics
  of the call.
\<close>

datatype mem_call = MemCall side bool int bool bool nat

datatype 'c retirement = Retirement nat 'c EventType SharedBusStat

record 'c mem_bus =
  mb_side :: "side \<Rightarrow> 'c LogGP"
  mb_next_id :: nat
  mb_events :: "(side \<times> EventType \<times> Tick) list"
  mb_mem_calls :: "mem_call list"
  mb_retired :: "'c retirement list"

definition attach_mem_bus :: "'c LogGP \<Rightarrow> 'c LogGP" where
  "attach_mem_bus l = l\<lparr>lg_NPU_MEM := True\<rparr>"

definition MemBus_new :: "Tick \<Rightarrow> Tick \<Rightarrow> Tick \<Rightarrow> rat \<Rightarrow> int \<Rightarrow> bool \<Rightarrow> 'c mem_bus" where
  "MemBus_new L ov g G local_reduction_delay attach =
     (let npu = LogGP_new L ov g G MA_to_NPU local_reduction_delay;
          ma = LogGP_new L ov g G NPU_to_MA local_reduction_delay
      in \<lparr>mb_side = (\<lambda>d. case d of NPU_side \<Rightarrow> (if attach then attach_mem_bus npu else npu) | MA_side \<Rightarrow> ma),
          mb_next_id = 0, mb_events = [], mb_mem_calls = [], mb_retired = []\<rparr>)"

definition on_side :: "side \<Rightarrow> ('c LogGP \<Rightarrow> 'c LogGP) \<Rightarrow> 'c mem_bus \<Rightarrow> 'c mem_bus" where
  "on_side d f b = b\<lparr>mb_side := (mb_side b)(d := f (mb_side b d))\<rparr>"

definition bus_register :: "Tick \<Rightarrow> side \<Rightarrow> EventType \<Rightarrow> Tick \<Rightarrow> 'c mem_bus \<Rightarrow> 'c mem_bus" where
  "bus_register now d event delay b = b\<lparr>mb_events := mb_events b @ [(d, event, now + delay)]\<rparr>"

definition call_mem :: "side \<Rightarrow> bool \<Rightarrow> bool \<Rightarrow> bool \<Rightarrow> 'c MemMovRequest \<Rightarrow> 'c mem_bus \<Rightarrow> 'c mem_bus" where
  "call_mem d to_MA processed send_back r b =
     b\<lparr>mb_mem_calls := mb_mem_calls b @ [MemCall d to_MA (mm_size r) processed send_back (mm_my_id r)]\<rparr>"

section \<open>Transfers\<close>

text \<open>A double is truncated to the ticks of an event; the rate \<open>G\<close> is a rational number here.\<close>

definition ticks :: "rat \<Rightarrow> Tick" where
  "ticks x = nat \<lfloor>x\<rfloor>"

definition switch_to_receiver :: "Tick \<Rightarrow> side \<Rightarrow> 'c MemMovRequest \<Rightarrow> Tick \<Rightarrow> 'c mem_bus \<Rightarrow> 'c mem_bus" where
  "switch_to_receiver now d mr offset b =
     (let l = mb_side b d in
      bus_register now d Rec_Finished
        (ticks (of_nat offset + of_int (mm_size mr - 1) * lg_G l + of_nat (lg_L l) + of_nat (lg_o l)))
        (on_side d (\<lambda>l. l\<lparr>lg_receives := lg_receives l @ [mr\<lparr>mm_start_time := now\<rparr>],
                         lg_prevState := lg_curState l, lg_curState := LReceiving, lg_subsequent_reads := 0\<rparr>) b))"

definition read_offset :: "Tick \<Rightarrow> 'c LogGP \<Rightarrow> Tick" where
  "read_offset now l =
     (if lg_prevState l = LSending
      then (if lg_o l + (now - lg_last_trans l) > lg_g l then lg_o l else lg_g l - (now - lg_last_trans l))
      else lg_o l)"

definition process_next_read :: "Tick \<Rightarrow> side \<Rightarrow> 'c mem_bus \<Rightarrow> 'c mem_bus result" where
  "process_next_read now d b =
     (let l = mb_side b d; offset = read_offset now l in
      rbind (assert_that (lg_prevState l = LSending \<longrightarrow> lg_last_trans l \<le> now) ''boostedTick() >= last_trans'') (\<lambda>_.
      case lg_sends l of
        [] \<Rightarrow> Inl (OutOfRange ''sends.front()'')
      | r # rs \<Rightarrow>
          (let tmp = r\<lparr>mm_total_transfer_queue_time := mm_total_transfer_queue_time r + (now - mm_start_time r)\<rparr>;
               b = switch_to_receiver now (partner d) tmp offset b;
               b = on_side d (\<lambda>l. l\<lparr>lg_sends := rs, lg_curState := LSending\<rparr>) b
           in Inr (bus_register now d Send_Finished
                (ticks (of_nat offset + lg_G l * of_int (mm_size tmp - 1))) b))))"

text \<open>
  The last part of \<^verbatim>\<open>LogGP::call\<close>, which \<^verbatim>\<open>request_read\<close> repeats: a free side sends its
  next request, unless it has sent more than the threshold in a row and the other side, which has
  not, is waiting.
\<close>

definition yields :: "side \<Rightarrow> 'c mem_bus \<Rightarrow> bool" where
  "yields d b \<longleftrightarrow>
     lg_subsequent_reads (mb_side b d) > THRESHOLD \<and> lg_sends (mb_side b (partner d)) \<noteq> [] \<and>
     lg_subsequent_reads (mb_side b (partner d)) \<le> THRESHOLD"

function consider_send :: "Tick \<Rightarrow> side \<Rightarrow> 'c mem_bus \<Rightarrow> 'c mem_bus result" where
  "consider_send now d b =
     (if lg_curState (mb_side b d) = LFree \<and> lg_sends (mb_side b d) \<noteq> [] then
        (if yields d b
         then (if lg_curState (mb_side b (partner d)) = LFree then consider_send now (partner d) b else Inr b)
         else process_next_read now d b)
      else Inr b)"
  by pat_completeness auto
termination
  by (relation "measure (\<lambda>(now, d, b). if lg_subsequent_reads (mb_side b d) > THRESHOLD then 1 else 0)")
    (auto simp: yields_def)

declare consider_send.simps [simp del]

definition request_read ::
    "Tick \<Rightarrow> side \<Rightarrow> int \<Rightarrow> bool \<Rightarrow> bool \<Rightarrow> 'c \<Rightarrow> 'c mem_bus \<Rightarrow> 'c mem_bus result" where
  "request_read now d bytes processed send_back callable b =
     (let l = mb_side b d;
          mr = MemMovRequest_new (mb_next_id b) now (lg_request_num l) bytes 0 callable processed send_back;
          b = on_side d (\<lambda>l. l\<lparr>lg_request_num := lg_request_num l + 1\<rparr>) (b\<lparr>mb_next_id := mb_next_id b + 1\<rparr>)
      in if lg_NPU_MEM l then
           (let mr = mr\<lparr>mm_callEvent := Consider_Send_Back\<rparr>;
                b = on_side d (\<lambda>l. l\<lparr>lg_pre_send := lg_pre_send l @ [wait_wait_for_mem_bus mr]\<rparr>) b
            in Inr (call_mem d False False False mr b))
         else consider_send now d (on_side d (\<lambda>l. l\<lparr>lg_sends := lg_sends l @ [mr]\<rparr>) b))"

type_synonym 'c bus_request = "side \<times> int \<times> bool \<times> bool \<times> 'c"

definition request :: "Tick \<Rightarrow> 'c bus_request \<Rightarrow> 'c mem_bus \<Rightarrow> 'c mem_bus result" where
  "request now q b =
     (case q of (d, bytes, processed, send_back, callable) \<Rightarrow> request_read now d bytes processed send_back callable b)"

section \<open>Handlers\<close>

type_synonym 'c bus_client = "'c \<Rightarrow> 'c bus_request list"

definition shared_stat :: "'c MemMovRequest \<Rightarrow> 'c MemMovRequest \<Rightarrow> SharedBusStat" where
  "shared_stat clock r =
     update_bus_stats BusMem r
       (SharedBusStat_new BusShared (of_nat (mm_total_transfer_queue_time clock)) (of_nat (mm_total_transfer_time clock))
          (of_nat (mm_total_processing_queue_time clock)) (of_nat (mm_total_processing_time clock)))"

definition retire ::
    "Tick \<Rightarrow> 'c bus_client \<Rightarrow> side \<Rightarrow> 'c MemMovRequest \<Rightarrow> 'c MemMovRequest \<Rightarrow> 'c mem_bus \<Rightarrow> 'c mem_bus result" where
  "retire now client d clock r b =
     fold_result (request now) (client (mm_callable r))
       (b\<lparr>mb_retired := mb_retired b @
            [Retirement (mm_my_id r) (mm_callable r) (lg_trigger_event (mb_side b d)) (shared_stat clock r)]\<rparr>)"

text \<open>The start of the processing of the next request, when none is being processed.\<close>

definition begin_processing :: "Tick \<Rightarrow> side \<Rightarrow> 'c mem_bus \<Rightarrow> 'c mem_bus" where
  "begin_processing now d b =
     (let l = mb_side b d in
      if lg_processing_state l = PFree then
        (case lg_processing l of
           [] \<Rightarrow> b
         | r # rs \<Rightarrow>
             bus_register now d Processing_Finished
               (nat (c_div (mm_size r) 100 * lg_local_reduction_delay l + 50))
               (on_side d (\<lambda>l. l\<lparr>lg_processing :=
                    r\<lparr>mm_total_processing_queue_time := mm_total_processing_queue_time r + (now - mm_start_time r),
                      mm_start_time := now\<rparr> # rs,
                  lg_processing_state := PProcessing\<rparr>) b))
      else b)"

definition send_finished :: "Tick \<Rightarrow> side \<Rightarrow> 'c mem_bus \<Rightarrow> 'c mem_bus" where
  "send_finished now d b =
     on_side d (\<lambda>l. l\<lparr>lg_last_trans := now, lg_prevState := lg_curState l, lg_curState := LFree,
                     lg_subsequent_reads := lg_subsequent_reads l + 1\<rparr>) b"

text \<open>
  Where a request goes that is done with a side: to the memory bus behind the side, or directly to the
  queue of the other direction.
\<close>

definition into_sends :: "side \<Rightarrow> 'c MemMovRequest \<Rightarrow> 'c mem_bus \<Rightarrow> 'c mem_bus" where
  "into_sends d r b =
     (if lg_NPU_MEM (mb_side b d) then
        (let r = r\<lparr>mm_send_back := False, mm_callEvent := Consider_Send_Back\<rparr>
         in call_mem d True False True r
              (on_side d (\<lambda>l. l\<lparr>lg_pre_send := lg_pre_send l @ [wait_wait_for_mem_bus r]\<rparr>) b))
      else on_side d (\<lambda>l. l\<lparr>lg_sends := lg_sends l @ [r\<lparr>mm_send_back := False\<rparr>]\<rparr>) b)"

definition into_processing :: "side \<Rightarrow> 'c MemMovRequest \<Rightarrow> 'c mem_bus \<Rightarrow> 'c mem_bus" where
  "into_processing d r b =
     (if lg_NPU_MEM (mb_side b d) then
        (let r = r\<lparr>mm_processed := False, mm_callEvent := Consider_Process\<rparr>
         in call_mem d True False True r
              (on_side d (\<lambda>l. l\<lparr>lg_pre_process := lg_pre_process l @ [wait_wait_for_mem_bus r]\<rparr>) b))
      else on_side d (\<lambda>l. l\<lparr>lg_processing := lg_processing l @ [r\<lparr>mm_processed := False\<rparr>]\<rparr>) b)"

text \<open>
  The end of a request. Without a memory bus behind the side, the request leaves its queue
  (\<open>pop\<close>) only after the call.
\<close>

definition into_retirements ::
    "Tick \<Rightarrow> 'c bus_client \<Rightarrow> side \<Rightarrow> 'c MemMovRequest \<Rightarrow> ('c LogGP \<Rightarrow> 'c LogGP) \<Rightarrow> 'c mem_bus \<Rightarrow> 'c mem_bus result" where
  "into_retirements now client d r pop b =
     (if lg_NPU_MEM (mb_side b d) then
        (let r = r\<lparr>mm_callEvent := Consider_Retire\<rparr>
         in Inr (on_side d pop (call_mem d True False False r
              (on_side d (\<lambda>l. l\<lparr>lg_retirements := lg_retirements l @ [wait_wait_for_mem_bus r]\<rparr>) b))))
      else rbind (retire now client d r r b) (\<lambda>b. Inr (on_side d pop b)))"

definition pop_receives :: "'c LogGP \<Rightarrow> 'c LogGP" where
  "pop_receives l = l\<lparr>lg_receives := tl (lg_receives l)\<rparr>"

definition pop_processing :: "'c LogGP \<Rightarrow> 'c LogGP" where
  "pop_processing l = l\<lparr>lg_processing := tl (lg_processing l)\<rparr>"

definition rec_finished :: "Tick \<Rightarrow> 'c bus_client \<Rightarrow> side \<Rightarrow> 'c mem_bus \<Rightarrow> 'c mem_bus result" where
  "rec_finished now client d b =
     (case lg_receives (mb_side b d) of
        [] \<Rightarrow> Inl (AssertionFailed ''receives.size() > 0'')
      | r # rs \<Rightarrow>
          (let r = r\<lparr>mm_total_transfer_time := mm_total_transfer_time r + (now - mm_start_time r), mm_start_time := now\<rparr>;
               b = on_side d (\<lambda>l. l\<lparr>lg_receives := r # rs, lg_last_trans := now, lg_prevState := lg_curState l,
                                   lg_curState := (if rs = [] then LFree else lg_curState l)\<rparr>) b
           in if mm_processed r
              then Inr (begin_processing now d (into_processing d r (on_side d pop_receives b)))
              else if mm_send_back r then Inr (into_sends d r (on_side d pop_receives b))
              else into_retirements now client d r pop_receives b))"

definition processing_finished :: "Tick \<Rightarrow> 'c bus_client \<Rightarrow> side \<Rightarrow> 'c mem_bus \<Rightarrow> 'c mem_bus result" where
  "processing_finished now client d b =
     (case lg_processing (mb_side b d) of
        [] \<Rightarrow> Inl (AssertionFailed ''processing.size() > 0'')
      | r # rs \<Rightarrow>
          (let r = r\<lparr>mm_total_processing_time := mm_total_processing_time r + (now - mm_start_time r), mm_start_time := now\<rparr>;
               b = on_side d (\<lambda>l. l\<lparr>lg_processing := r # rs, lg_processing_state := PFree\<rparr>) b
           in rbind (if mm_send_back r then Inr (into_sends d r (on_side d pop_processing b))
                     else into_retirements now client d r pop_processing b)
                (\<lambda>b. Inr (begin_processing now d b))))"

text \<open>The handlers of a request that comes back from the memory bus behind the side; \<open>talking_it\<close> is its place.\<close>

definition at_request :: "nat \<Rightarrow> 'c MemMovRequest list \<Rightarrow> ('c MemMovRequest \<times> 'c MemMovRequest list) option" where
  "at_request talking_it xs =
     (case List.extract (\<lambda>r. mm_my_id r = talking_it) xs of None \<Rightarrow> None | Some (ys, r, zs) \<Rightarrow> Some (r, ys @ zs))"

definition consider_retire :: "Tick \<Rightarrow> 'c bus_client \<Rightarrow> side \<Rightarrow> nat \<Rightarrow> 'c mem_bus \<Rightarrow> 'c mem_bus result" where
  "consider_retire now client d talking_it b =
     (case at_request talking_it (lg_retirements (mb_side b d)) of
        None \<Rightarrow> Inl (OutOfRange ''*talking_it'')
      | Some (r, rest) \<Rightarrow>
          rbind (retire now client d (hd (lg_retirements (mb_side b d))) r b) (\<lambda>b.
            Inr (on_side d (\<lambda>l. l\<lparr>lg_retirements :=
              (case at_request talking_it (lg_retirements l) of None \<Rightarrow> lg_retirements l | Some (_, rest) \<Rightarrow> rest)\<rparr>) b)))"

definition consider_process :: "Tick \<Rightarrow> side \<Rightarrow> nat \<Rightarrow> 'c mem_bus \<Rightarrow> 'c mem_bus result" where
  "consider_process now d talking_it b =
     (case at_request talking_it (lg_pre_process (mb_side b d)) of
        None \<Rightarrow> Inl (OutOfRange ''*talking_it'')
      | Some (r, rest) \<Rightarrow>
          Inr (begin_processing now d
            (on_side d (\<lambda>l. l\<lparr>lg_processing := lg_processing l @ [r], lg_pre_process := rest\<rparr>) b)))"

definition consider_send_back :: "side \<Rightarrow> nat \<Rightarrow> 'c mem_bus \<Rightarrow> 'c mem_bus result" where
  "consider_send_back d talking_it b =
     (if lg_pre_send (mb_side b d) = [] then Inl (AssertionFailed ''pre_send.size() > 0'')
      else case at_request talking_it (lg_pre_send (mb_side b d)) of
        None \<Rightarrow> Inl (OutOfRange ''*talking_it'')
      | Some (r, rest) \<Rightarrow> Inr (on_side d (\<lambda>l. l\<lparr>lg_sends := lg_sends l @ [r], lg_pre_send := rest\<rparr>) b))"

definition LogGP_call ::
    "Tick \<Rightarrow> 'c bus_client \<Rightarrow> side \<Rightarrow> nat \<Rightarrow> EventType \<Rightarrow> 'c mem_bus \<Rightarrow> 'c mem_bus result" where
  "LogGP_call now client d talking_it event b =
     rbind (case event of
              Send_Finished \<Rightarrow> Inr (send_finished now d b)
            | Rec_Finished \<Rightarrow> rec_finished now client d b
            | Processing_Finished \<Rightarrow> processing_finished now client d b
            | Consider_Retire \<Rightarrow> consider_retire now client d talking_it b
            | Consider_Process \<Rightarrow> consider_process now d talking_it b
            | Consider_Send_Back \<Rightarrow> consider_send_back d talking_it b
            | _ \<Rightarrow> Inr b)
       (consider_send now d)"

text \<open>
  \<^verbatim>\<open>MemMovRequest::call\<close>: the request, which is in one of three lists of its side, takes the
  statistics of its trip and hands over to the side with its own event.
\<close>

definition update_request :: "nat \<Rightarrow> ('c MemMovRequest \<Rightarrow> 'c MemMovRequest) \<Rightarrow> 'c LogGP \<Rightarrow> 'c LogGP" where
  "update_request i f l =
     (let g = map (\<lambda>r. if mm_my_id r = i then f r else r) in
      l\<lparr>lg_pre_send := g (lg_pre_send l), lg_pre_process := g (lg_pre_process l),
        lg_retirements := g (lg_retirements l)\<rparr>)"

definition MemMovRequest_call ::
    "Tick \<Rightarrow> 'c bus_client \<Rightarrow> side \<Rightarrow> nat \<Rightarrow> SharedBusStat \<Rightarrow> 'c mem_bus \<Rightarrow> 'c mem_bus result" where
  "MemMovRequest_call now client d i data b =
     (let l = mb_side b d in
      case find (\<lambda>r. mm_my_id r = i) (lg_pre_send l @ lg_pre_process l @ lg_retirements l) of
        None \<Rightarrow> Inl (NullDeref ''MemMovRequest'')
      | Some r \<Rightarrow>
          LogGP_call now client d i (mm_callEvent r) (on_side d (update_request i (mem_bus_answer data)) b))"

section \<open>The bus as its clients see it\<close>

text \<open>
  \<^verbatim>\<open>MemBus::send_from_NPU_to_MA\<close> and \<^verbatim>\<open>send_from_MA_to_NPU\<close>: a fixed delay, or a request on the
  shared bus. The size of a request is an \<^verbatim>\<open>int\<close>.
\<close>

datatype bus_answer = Delayed EventType SharedBusStat Tick | OnBus

definition bus_delay :: "Transmition \<Rightarrow> int \<Rightarrow> int" where
  "bus_delay transmition communication_delay = (if transmition = Fast then 10 else communication_delay)"

definition send_over_bus ::
    "side \<Rightarrow> EventType \<Rightarrow> bool \<Rightarrow> int \<Rightarrow> Tick \<Rightarrow> Transmition \<Rightarrow> int \<Rightarrow> bool \<Rightarrow> bool \<Rightarrow> 'c \<Rightarrow> 'c mem_bus \<Rightarrow>
     (bus_answer \<times> 'c mem_bus) result" where
  "send_over_bus d event model_shared_bus communication_delay now transmition bytes processed send_back callable b =
     (if model_shared_bus \<and> transmition = Usual
      then rbind (request_read now d bytes processed send_back callable b) (\<lambda>b. Inr (OnBus, b))
      else (let delay = bus_delay transmition communication_delay in
            Inr (Delayed event (SharedBusStat_new BusShared 0 (of_int delay) 0 0) (nat delay), b)))"

definition send_from_NPU_to_MA ::
    "bool \<Rightarrow> int \<Rightarrow> Tick \<Rightarrow> Transmition \<Rightarrow> int \<Rightarrow> bool \<Rightarrow> bool \<Rightarrow> 'c \<Rightarrow> 'c mem_bus \<Rightarrow> (bus_answer \<times> 'c mem_bus) result" where
  "send_from_NPU_to_MA = send_over_bus NPU_side NPU_to_MA"

definition send_from_MA_to_NPU ::
    "bool \<Rightarrow> int \<Rightarrow> Tick \<Rightarrow> Transmition \<Rightarrow> int \<Rightarrow> bool \<Rightarrow> bool \<Rightarrow> 'c \<Rightarrow> 'c mem_bus \<Rightarrow> (bus_answer \<times> 'c mem_bus) result" where
  "send_from_MA_to_NPU = send_over_bus MA_side MA_to_NPU"

text \<open>
  A bundle of packets. When it comes back from the bus it first waits for its processing, if it needs
  any; then it stamps its packets and calls its stream.
\<close>

record PacketBundle =
  pb_locked_packets :: "MyPacket list"
  pb_needs_processing :: bool
  pb_send_back :: bool
  pb_size :: u64
  pb_transmition :: Transmition
  pb_creation_time :: Tick

definition PacketBundle_new ::
    "Tick \<Rightarrow> MyPacket list \<Rightarrow> bool \<Rightarrow> bool \<Rightarrow> u64 \<Rightarrow> Transmition \<Rightarrow> PacketBundle" where
  "PacketBundle_new now locked_packets needs_processing send_back sz transmition =
     \<lparr>pb_locked_packets = locked_packets, pb_needs_processing = needs_processing, pb_send_back = send_back,
      pb_size = sz, pb_transmition = transmition, pb_creation_time = now\<rparr>"

definition send_to_MA :: "bool \<Rightarrow> int \<Rightarrow> Tick \<Rightarrow> PacketBundle \<Rightarrow> 'c \<Rightarrow> 'c mem_bus \<Rightarrow> (bus_answer \<times> 'c mem_bus) result" where
  "send_to_MA model_shared_bus communication_delay now p this b =
     send_from_NPU_to_MA model_shared_bus communication_delay now (pb_transmition p) (int_of_u64 (pb_size p))
       (pb_needs_processing p) (pb_send_back p) this b"

definition send_to_NPU :: "bool \<Rightarrow> int \<Rightarrow> Tick \<Rightarrow> PacketBundle \<Rightarrow> 'c \<Rightarrow> 'c mem_bus \<Rightarrow> (bus_answer \<times> 'c mem_bus) result" where
  "send_to_NPU model_shared_bus communication_delay now p this b =
     send_from_MA_to_NPU model_shared_bus communication_delay now (pb_transmition p) (int_of_u64 (pb_size p))
       (pb_needs_processing p) (pb_send_back p) this b"

text \<open>What the call of a bundle leads to: its processing after a delay, or the call of the stream, whose
  packets become ready at the given time.\<close>

datatype bundle_call = ProcessLater Tick PacketBundle | CallStream Tick "MyPacket list"

definition PacketBundle_call :: "rat \<Rightarrow> Tick \<Rightarrow> PacketBundle \<Rightarrow> bundle_call" where
  "PacketBundle_call local_mem_bw now p =
     (if pb_needs_processing p
      then (let t = ticks (of_int (uint (pb_size p)) / local_mem_bw * 10 ^ 9)
            in ProcessLater (t + t + t) (p\<lparr>pb_needs_processing := False\<rparr>))
      else CallStream now (pb_locked_packets p))"

end
