(* ===== verification/Memory_Bus_Runs.thy ===== *)
theory Memory_Bus_Runs
  imports Memory_Bus "HOL-Library.Multiset"
begin

text \<open>
  Runs of a memory bus. Events may be delivered in any order, requests may come at any time, and the
  memory bus behind a side may answer in any order; still no assertion fails, no request is lost or
  ends twice, and once nothing is outstanding every request has ended.
\<close>

section \<open>Contents of a bus\<close>

lemma partner_simps [simp]: "partner (partner d) = d" "partner d \<noteq> d" "d \<noteq> partner d"
  by (cases d; simp)+

lemma partner_cases: "e = d \<or> e = partner d"
  by (cases d; cases e) auto

lemma on_side_simps [simp]:
  "mb_side (on_side d f b) d = f (mb_side b d)"
  "e \<noteq> d \<Longrightarrow> mb_side (on_side d f b) e = mb_side b e"
  "mb_next_id (on_side d f b) = mb_next_id b" "mb_events (on_side d f b) = mb_events b"
  "mb_mem_calls (on_side d f b) = mb_mem_calls b" "mb_retired (on_side d f b) = mb_retired b"
  by (simp_all add: on_side_def)

lemma bus_register_simps [simp]:
  "mb_side (bus_register now d e t b) = mb_side b" "mb_next_id (bus_register now d e t b) = mb_next_id b"
  "mb_mem_calls (bus_register now d e t b) = mb_mem_calls b" "mb_retired (bus_register now d e t b) = mb_retired b"
  by (simp_all add: bus_register_def)

lemma call_mem_simps [simp]:
  "mb_side (call_mem d x y z r b) = mb_side b" "mb_next_id (call_mem d x y z r b) = mb_next_id b"
  "mb_events (call_mem d x y z r b) = mb_events b" "mb_retired (call_mem d x y z r b) = mb_retired b"
  by (simp_all add: call_mem_def)

definition pend :: "'c mem_bus \<Rightarrow> (side \<times> EventType) multiset" where
  "pend b = mset (map (\<lambda>(d, e, t). (d, e)) (mb_events b))"

lemma pend_simps [simp]:
  "pend (on_side d f b) = pend b" "pend (bus_register now d e t b) = add_mset (d, e) (pend b)"
  "pend (call_mem d x y z r b) = pend b" "pend (b\<lparr>mb_retired := rs\<rparr>) = pend b" "pend (b\<lparr>mb_next_id := n\<rparr>) = pend b"
  "pend (b\<lparr>mb_mem_calls := cs\<rparr>) = pend b"
  by (simp_all add: pend_def bus_register_def on_side_def call_mem_def)

definition both :: "('c LogGP \<Rightarrow> 'm :: ab_semigroup_add) \<Rightarrow> 'c mem_bus \<Rightarrow> 'm" where
  "both f b = f (mb_side b NPU_side) + f (mb_side b MA_side)"

lemma both_split: "both f b = f (mb_side b d) + f (mb_side b (partner d))"
  by (cases d) (simp_all add: both_def add.commute)

text \<open>The requests of a side, by identity, and those that wait for the memory bus behind it.\<close>

definition held :: "'c LogGP \<Rightarrow> nat multiset" where
  "held l = mset (map mm_my_id (lg_sends l @ lg_receives l @ lg_processing l)) +
     mset (map mm_my_id (lg_pre_send l @ lg_pre_process l @ lg_retirements l))"

definition away :: "side \<Rightarrow> 'c LogGP \<Rightarrow> (side \<times> nat) multiset" where
  "away d l = mset (map (\<lambda>r. (d, mm_my_id r)) (lg_pre_send l @ lg_pre_process l @ lg_retirements l))"

fun retired_id :: "'c retirement \<Rightarrow> nat" where
  "retired_id (Retirement i c e st) = i"

fun mem_call_id :: "mem_call \<Rightarrow> side \<times> nat" where
  "mem_call_id (MemCall d to_MA bytes processed send_back i) = (d, i)"

definition retired_ids :: "'c mem_bus \<Rightarrow> nat multiset" where
  "retired_ids b = mset (map retired_id (mb_retired b))"

definition mem_call_ids :: "'c mem_bus \<Rightarrow> (side \<times> nat) multiset" where
  "mem_call_ids b = mset (map mem_call_id (mb_mem_calls b))"

lemma log_simps [simp]:
  "retired_ids (on_side d f b) = retired_ids b" "retired_ids (bus_register now d e t b) = retired_ids b"
  "retired_ids (call_mem d x y z r b) = retired_ids b" "retired_ids (b\<lparr>mb_next_id := n\<rparr>) = retired_ids b"
  "retired_ids (b\<lparr>mb_events := es\<rparr>) = retired_ids b" "retired_ids (b\<lparr>mb_mem_calls := cs\<rparr>) = retired_ids b"
  "retired_ids (b\<lparr>mb_retired := mb_retired b @ [x']\<rparr>) = add_mset (retired_id x') (retired_ids b)"
  "mem_call_ids (on_side d f b) = mem_call_ids b" "mem_call_ids (bus_register now d e t b) = mem_call_ids b"
  "mem_call_ids (call_mem d x y z r b) = add_mset (d, mm_my_id r) (mem_call_ids b)"
  "mem_call_ids (b\<lparr>mb_next_id := n\<rparr>) = mem_call_ids b" "mem_call_ids (b\<lparr>mb_events := es\<rparr>) = mem_call_ids b"
  "mem_call_ids (b\<lparr>mb_retired := rs\<rparr>) = mem_call_ids b"
  by (simp_all add: retired_ids_def mem_call_ids_def on_side_def bus_register_def call_mem_def)

text \<open>The number of handler calls that a request can still cause, in each of the lists.\<close>

definition w_back :: "'c MemMovRequest \<Rightarrow> nat" where
  "w_back r = (if mm_send_back r then 4 else 1)"

definition w_processing :: "'c MemMovRequest \<Rightarrow> nat" where
  "w_processing r = 1 + w_back r"

definition w_receives :: "'c MemMovRequest \<Rightarrow> nat" where
  "w_receives r = 1 + (if mm_processed r then 1 + w_processing r else w_back r)"

definition w_sends :: "'c MemMovRequest \<Rightarrow> nat" where
  "w_sends r = 1 + w_receives r"

definition load :: "'c LogGP \<Rightarrow> nat" where
  "load l = sum_list (map w_sends (lg_sends l)) + sum_list (map w_receives (lg_receives l)) +
     sum_list (map w_processing (lg_processing l)) + sum_list (map (\<lambda>r. 1 + w_sends r) (lg_pre_send l)) +
     sum_list (map (\<lambda>r. 1 + w_processing r) (lg_pre_process l)) + length (lg_retirements l)"

definition potential :: "'c mem_bus \<Rightarrow> nat" where
  "potential b = both load b + count (pend b) (NPU_side, Send_Finished) + count (pend b) (MA_side, Send_Finished)"

lemma potential_split:
  "potential b = load (mb_side b d) + load (mb_side b (partner d)) +
     count (pend b) (d, Send_Finished) + count (pend b) (partner d, Send_Finished)"
  by (cases d) (simp_all add: potential_def both_def)

section \<open>The invariant\<close>

text \<open>
  A side that is free although it has requests to send has sent more than the threshold in a row
  and waits for the other side, which has requests to send and, between two handlers, is busy.
\<close>

definition waits_fairly :: "side \<Rightarrow> 'c mem_bus \<Rightarrow> bool" where
  "waits_fairly d b \<longleftrightarrow>
     (lg_curState (mb_side b d) = LFree \<and> lg_sends (mb_side b d) \<noteq> [] \<longrightarrow>
        lg_subsequent_reads (mb_side b d) > THRESHOLD \<and> lg_sends (mb_side b (partner d)) \<noteq> [])"

definition awake :: "'c mem_bus \<Rightarrow> bool" where
  "awake b \<longleftrightarrow>
     (\<forall>d. lg_curState (mb_side b d) = LFree \<and> lg_sends (mb_side b d) \<noteq> [] \<longrightarrow>
        lg_curState (mb_side b (partner d)) \<noteq> LFree)"

text \<open>The state of a side fits the events that are outstanding, up to \<open>k\<close> requests that have arrived.\<close>

definition side_ok :: "Tick \<Rightarrow> bool \<Rightarrow> nat \<Rightarrow> (EventType \<Rightarrow> nat) \<Rightarrow> 'c LogGP \<Rightarrow> bool" where
  "side_ok now p k n l \<longleftrightarrow>
     n Rec_Finished + k = length (lg_receives l) \<and> (lg_curState l = LSending \<longrightarrow> 1 \<le> n Send_Finished) \<and>
     (lg_curState l = LReceiving \<longrightarrow> 1 \<le> n Rec_Finished) \<and> lg_curState l \<noteq> LWaiting \<and>
     n Processing_Finished = (if lg_processing_state l = PProcessing then 1 else 0) \<and>
     (lg_processing_state l = PProcessing \<longrightarrow> lg_processing l \<noteq> []) \<and>
     (p \<longrightarrow> lg_processing l \<noteq> [] \<longrightarrow> lg_processing_state l = PProcessing) \<and> lg_last_trans l \<le> now \<and>
     (\<forall>r \<in> set (lg_processing l). \<not> mm_processed r) \<and>
     (\<forall>r \<in> set (lg_pre_send l). mm_callEvent r = Consider_Send_Back) \<and>
     (\<forall>r \<in> set (lg_pre_process l). mm_callEvent r = Consider_Process \<and> \<not> mm_processed r) \<and>
     (\<forall>r \<in> set (lg_retirements l). mm_callEvent r = Consider_Retire)"

definition ids_ok :: "(side \<times> nat) multiset \<Rightarrow> nat multiset \<Rightarrow> 'c mem_bus \<Rightarrow> bool" where
  "ids_ok Y Z b \<longleftrightarrow>
     both held b + retired_ids b = mset [0..<mb_next_id b] + Z \<and>
     away NPU_side (mb_side b NPU_side) + away MA_side (mb_side b MA_side) = mem_call_ids b + Y"

abbreviation pending_of :: "'c mem_bus \<Rightarrow> side \<Rightarrow> EventType \<Rightarrow> nat" where
  "pending_of b d \<equiv> (\<lambda>e. count (pend b) (d, e))"

definition bus_ok ::
    "Tick \<Rightarrow> side set \<Rightarrow> side set \<Rightarrow> (side \<Rightarrow> nat) \<Rightarrow> (side \<times> nat) multiset \<Rightarrow> nat multiset \<Rightarrow> 'c mem_bus \<Rightarrow> bool" where
  "bus_ok now E P k Y Z b \<longleftrightarrow>
     (\<forall>d. side_ok now (d \<notin> P) (k d) (pending_of b d) (mb_side b d)) \<and> (\<forall>d. d \<notin> E \<longrightarrow> waits_fairly d b) \<and>
     ids_ok Y Z b"

lemma ids_ok_split:
  "ids_ok Y Z b \<longleftrightarrow>
     held (mb_side b d) + held (mb_side b (partner d)) + retired_ids b = mset [0..<mb_next_id b] + Z \<and>
     away d (mb_side b d) + away (partner d) (mb_side b (partner d)) = mem_call_ids b + Y"
  by (cases d) (simp_all add: ids_ok_def both_split [of held _ NPU_side] add.commute add.left_commute)

text \<open>What the requests of a client leave alone, and where they add.\<close>

definition grown :: "'c mem_bus \<Rightarrow> 'c mem_bus \<Rightarrow> bool" where
  "grown b b' \<longleftrightarrow>
     (\<forall>d. (\<exists>xs. lg_receives (mb_side b' d) = lg_receives (mb_side b d) @ xs) \<and>
          lg_processing (mb_side b' d) = lg_processing (mb_side b d) \<and>
          lg_processing_state (mb_side b' d) = lg_processing_state (mb_side b d) \<and>
          lg_pre_process (mb_side b' d) = lg_pre_process (mb_side b d) \<and>
          lg_retirements (mb_side b' d) = lg_retirements (mb_side b d) \<and>
          lg_NPU_MEM (mb_side b' d) = lg_NPU_MEM (mb_side b d))"

lemma grown_refl [simp]: "grown b b"
  by (simp add: grown_def)

lemma grown_trans: "grown b1 b2 \<Longrightarrow> grown b2 b3 \<Longrightarrow> grown b1 b3"
  unfolding grown_def by (metis append_assoc)

section \<open>Transfers\<close>

lemma all_sides: "(\<forall>e. P e) \<longleftrightarrow> P d \<and> P (partner d)"
  using partner_cases by metis

lemma process_next_read_ok:
  assumes ok: "bus_ok now E P k Y Z b" and sends: "lg_sends (mb_side b d) \<noteq> []"
  shows "\<exists>b'. process_next_read now d b = Inr b' \<and> bus_ok now {} P k Y Z b' \<and> grown b b' \<and>
    potential b' = potential b \<and> mb_next_id b' = mb_next_id b \<and> awake b'"
proof -
  let ?l = "mb_side b d" and ?m = "mb_side b (partner d)"
  obtain r rs where r: "lg_sends ?l = r # rs" using sends by (cases "lg_sends ?l") auto
  have sides: "side_ok now (d \<notin> P) (k d) (pending_of b d) ?l"
    "side_ok now (partner d \<notin> P) (k (partner d)) (pending_of b (partner d)) ?m" and ids: "ids_ok Y Z b"
    using ok unfolding bus_ok_def by blast+
  define tmp where "tmp = r\<lparr>mm_total_transfer_queue_time := mm_total_transfer_queue_time r + (now - mm_start_time r)\<rparr>"
  define b' where "b' = bus_register now d Send_Finished
      (ticks (of_nat (read_offset now ?l) + lg_G ?l * of_int (mm_size tmp - 1)))
      (on_side d (\<lambda>l. l\<lparr>lg_sends := rs, lg_curState := LSending\<rparr>)
        (switch_to_receiver now (partner d) tmp (read_offset now ?l) b))"
  have l': "mb_side b' d = ?l\<lparr>lg_sends := rs, lg_curState := LSending\<rparr>"
    and m': "mb_side b' (partner d) = ?m\<lparr>lg_receives := lg_receives ?m @ [tmp\<lparr>mm_start_time := now\<rparr>],
      lg_prevState := lg_curState ?m, lg_curState := LReceiving, lg_subsequent_reads := 0\<rparr>"
    and p': "pend b' = add_mset (d, Send_Finished) (add_mset (partner d, Rec_Finished) (pend b))"
    and n': "mb_next_id b' = mb_next_id b" "retired_ids b' = retired_ids b" "mem_call_ids b' = mem_call_ids b"
    by (simp_all add: b'_def switch_to_receiver_def Let_def)
  have "process_next_read now d b = Inr b'"
    using sides(1) r by (simp add: process_next_read_def Let_def side_ok_def b'_def tmp_def)
  moreover have "side_ok now (d \<notin> P) (k d) (pending_of b' d) (mb_side b' d)"
    using sides(1) unfolding l' p' by (simp add: side_ok_def)
  moreover have "side_ok now (partner d \<notin> P) (k (partner d)) (pending_of b' (partner d)) (mb_side b' (partner d))"
    using sides(2) unfolding m' p' by (simp add: side_ok_def)
  moreover have "waits_fairly d b'" "waits_fairly (partner d) b'" by (simp_all add: waits_fairly_def l' m')
  moreover have "awake b'" unfolding awake_def all_sides [of _ d] by (simp add: l' m')
  moreover have "ids_ok Y Z b'"
    using ids r unfolding ids_ok_split [where d = d] l' m' n' by (simp add: held_def away_def tmp_def)
  moreover have "grown b b'"
    unfolding grown_def all_sides [of _ d] l' m' by simp
  moreover have "potential b' = potential b"
    using r unfolding potential_split [where d = d] l' m' p'
    by (simp add: load_def tmp_def w_sends_def w_receives_def w_processing_def w_back_def)
  ultimately show ?thesis
    using n'(1) unfolding bus_ok_def all_sides [of _ d] by blast
qed

lemma consider_send_ok:
  assumes ok: "bus_ok now E P k Y Z b"
  shows "\<exists>b'. consider_send now d b = Inr b' \<and> bus_ok now (E - {d}) P k Y Z b' \<and> grown b b' \<and>
    potential b' = potential b \<and> mb_next_id b' = mb_next_id b \<and> (E \<subseteq> {d} \<longrightarrow> awake b')"
proof -
  have read: ?thesis if e: "consider_send now d b = process_next_read now e b" "lg_sends (mb_side b e) \<noteq> []" for e
  proof -
    obtain b' where "process_next_read now e b = Inr b'" "bus_ok now {} P k Y Z b'" "grown b b'"
      "potential b' = potential b" "mb_next_id b' = mb_next_id b" "awake b'"
      using process_next_read_ok [OF ok e(2)] by blast
    then show ?thesis using e(1) by (auto simp: bus_ok_def)
  qed
  have stay: ?thesis if "consider_send now d b = Inr b" "waits_fairly d b" "E \<subseteq> {d} \<longrightarrow> awake b"
    using that ok by (auto simp: bus_ok_def)
  have other: "E \<subseteq> {d} \<longrightarrow> waits_fairly (partner d) b" using ok by (auto simp: bus_ok_def)
  consider "\<not> (lg_curState (mb_side b d) = LFree \<and> lg_sends (mb_side b d) \<noteq> [])"
    | "lg_curState (mb_side b d) = LFree" "lg_sends (mb_side b d) \<noteq> []" "\<not> yields d b"
    | "lg_curState (mb_side b d) = LFree" "lg_sends (mb_side b d) \<noteq> []" "yields d b"
      "lg_curState (mb_side b (partner d)) = LFree"
    | "lg_curState (mb_side b d) = LFree" "lg_sends (mb_side b d) \<noteq> []" "yields d b"
      "lg_curState (mb_side b (partner d)) \<noteq> LFree" by blast
  then show ?thesis
  proof cases
    case 1
    then show ?thesis
      by (intro stay) (use other in \<open>auto simp: consider_send.simps waits_fairly_def awake_def all_sides [of _ d]\<close>)
  next
    case 2
    then show ?thesis by (intro read [of d]) (auto simp: consider_send.simps)
  next
    case 3
    then have "\<not> yields (partner d) b" "lg_sends (mb_side b (partner d)) \<noteq> []" by (simp_all add: yields_def)
    then show ?thesis
      using 3 by (intro read [of "partner d"])
        (simp_all add: consider_send.simps [of now d] consider_send.simps [of now "partner d"])
  next
    case 4
    then show ?thesis
      by (intro stay) (auto simp: consider_send.simps waits_fairly_def awake_def all_sides [of _ d] yields_def)
  qed
qed

section \<open>Requests\<close>

lemma bus_ok_mono: "bus_ok now E P k Y Z b \<Longrightarrow> E \<subseteq> E' \<Longrightarrow> bus_ok now E' P k Y Z b"
  unfolding bus_ok_def by blast

lemma bus_okI:
  assumes "side_ok now (d \<notin> P) (k d) (pending_of b d) (mb_side b d)"
    and "side_ok now (partner d \<notin> P) (k (partner d)) (pending_of b (partner d)) (mb_side b (partner d))"
    and "d \<notin> E \<Longrightarrow> waits_fairly d b" "partner d \<notin> E \<Longrightarrow> waits_fairly (partner d) b" "ids_ok Y Z b"
  shows "bus_ok now E P k Y Z b"
  using assms unfolding bus_ok_def all_sides [of _ d] by blast

lemma bus_okD:
  assumes "bus_ok now E P k Y Z b"
  shows "side_ok now (d \<notin> P) (k d) (pending_of b d) (mb_side b d)" "d \<notin> E \<Longrightarrow> waits_fairly d b" "ids_ok Y Z b"
  using assms unfolding bus_ok_def by blast+

lemma new_request [simp]:
  "mm_my_id (MemMovRequest_new i now n bytes lat c p sb) = i"
  "mm_processed (MemMovRequest_new i now n bytes lat c p sb) = p"
  "mm_send_back (MemMovRequest_new i now n bytes lat c p sb) = sb"
  by (simp_all add: MemMovRequest_new_def MemMovRequest.defs SharedBusStat.defs SharedBusStat_new_def)

lemma waiting_request [simp]:
  "mm_my_id (wait_wait_for_mem_bus r) = mm_my_id r" "mm_processed (wait_wait_for_mem_bus r) = mm_processed r"
  "mm_send_back (wait_wait_for_mem_bus r) = mm_send_back r" "mm_callEvent (wait_wait_for_mem_bus r) = mm_callEvent r"
  by (simp_all add: wait_wait_for_mem_bus_def)

lemma w_sends_bound: "w_sends r \<le> 8"
  by (simp add: w_sends_def w_receives_def w_processing_def w_back_def)

lemma request_read_ok:
  assumes ok: "bus_ok now E P k Y Z b"
  shows "\<exists>b'. request_read now d bytes p sb c b = Inr b' \<and> bus_ok now E P k Y Z b' \<and> grown b b' \<and>
    potential b' \<le> potential b + 9 \<and> mb_next_id b' = mb_next_id b + 1 \<and> (E = {} \<and> awake b \<longrightarrow> awake b')"
proof -
  let ?l = "mb_side b d" and ?m = "mb_side b (partner d)"
  define mr where "mr = MemMovRequest_new (mb_next_id b) now (lg_request_num ?l) bytes 0 c p sb"
  define b0 where "b0 = on_side d (\<lambda>l. l\<lparr>lg_request_num := lg_request_num l + 1\<rparr>) (b\<lparr>mb_next_id := mb_next_id b + 1\<rparr>)"
  note D = bus_okD(1,2) [OF ok, of d] bus_okD(1,2) [OF ok, of "partner d"] bus_okD(3) [OF ok, unfolded ids_ok_split [where d = d]]
  show ?thesis
  proof (cases "lg_NPU_MEM ?l")
    case True
    define r where "r = mr\<lparr>mm_callEvent := Consider_Send_Back\<rparr>"
    define b' where "b' = call_mem d False False False r
      (on_side d (\<lambda>l. l\<lparr>lg_pre_send := lg_pre_send l @ [wait_wait_for_mem_bus r]\<rparr>) b0)"
    have l': "mb_side b' d = ?l\<lparr>lg_request_num := lg_request_num ?l + 1, lg_pre_send := lg_pre_send ?l @ [wait_wait_for_mem_bus r]\<rparr>"
      and m': "mb_side b' (partner d) = ?m" and p': "pend b' = pend b"
      and n': "mb_next_id b' = mb_next_id b + 1" "retired_ids b' = retired_ids b"
        "mem_call_ids b' = add_mset (d, mb_next_id b) (mem_call_ids b)"
      by (simp_all add: b'_def b0_def r_def mr_def)
    have "request_read now d bytes p sb c b = Inr b'"
      using True unfolding request_read_def b'_def b0_def r_def mr_def by (simp add: Let_def)
    moreover have "bus_ok now E P k Y Z b'"
    proof (rule bus_okI [where d = d])
      show "ids_ok Y Z b'"
        using D(5) unfolding ids_ok_split [where d = d] l' m' n' by (simp add: held_def away_def r_def mr_def)
      show "side_ok now (d \<notin> P) (k d) (pending_of b' d) (mb_side b' d)"
        using D(1) unfolding l' p' by (auto simp: side_ok_def r_def)
    qed (use D(2-4) in \<open>simp_all add: l' m' p' waits_fairly_def\<close>)
    moreover have "grown b b'" unfolding grown_def all_sides [of _ d] l' m' by simp
    moreover have "potential b' \<le> potential b + 9"
      using w_sends_bound [of r] unfolding potential_split [where d = d] l' m' p'
      by (simp add: load_def) (simp add: w_sends_def w_receives_def w_processing_def w_back_def)
    moreover have "awake b \<longrightarrow> awake b'" unfolding awake_def all_sides [of _ d] by (simp add: l' m')
    ultimately show ?thesis using n' by blast
  next
    case False
    define b1 where "b1 = on_side d (\<lambda>l. l\<lparr>lg_sends := lg_sends l @ [mr]\<rparr>) b0"
    have l': "mb_side b1 d = ?l\<lparr>lg_request_num := lg_request_num ?l + 1, lg_sends := lg_sends ?l @ [mr]\<rparr>"
      and m': "mb_side b1 (partner d) = ?m" and p': "pend b1 = pend b"
      and n': "mb_next_id b1 = mb_next_id b + 1" "retired_ids b1 = retired_ids b" "mem_call_ids b1 = mem_call_ids b"
      by (simp_all add: b1_def b0_def)
    have "bus_ok now (insert d E) P k Y Z b1"
    proof (rule bus_okI [where d = d])
      show "ids_ok Y Z b1"
        using D(5) unfolding ids_ok_split [where d = d] l' m' n' by (simp add: held_def away_def mr_def)
      show "side_ok now (d \<notin> P) (k d) (pending_of b1 d) (mb_side b1 d)"
        using D(1) unfolding l' p' by (simp add: side_ok_def)
      show "waits_fairly (partner d) b1" if "partner d \<notin> insert d E"
        using D(4) that by (simp add: waits_fairly_def l' m')
    qed (use D(3) in \<open>simp_all add: m' p'\<close>)
    from consider_send_ok [OF this, of d] obtain b' where
      b': "consider_send now d b1 = Inr b'" "bus_ok now (insert d E - {d}) P k Y Z b'" "grown b1 b'"
        "potential b' = potential b1" "mb_next_id b' = mb_next_id b1" "insert d E \<subseteq> {d} \<longrightarrow> awake b'" by blast
    have "request_read now d bytes p sb c b = Inr b'"
      using False b'(1) unfolding request_read_def b1_def b0_def mr_def by (simp add: Let_def)
    moreover have "bus_ok now E P k Y Z b'" using b'(2) by (rule bus_ok_mono) blast
    moreover have "grown b b1" unfolding grown_def all_sides [of _ d] l' m' by simp
    then have "grown b b'" using b'(3) grown_trans by blast
    moreover have "potential b1 \<le> potential b + 8"
      using w_sends_bound [of mr] unfolding potential_split [where d = d] l' m' p' by (simp add: load_def)
    ultimately show ?thesis using b'(4-6) n' by auto
  qed
qed

lemma requests_ok:
  assumes "bus_ok now E P k Y Z b"
  shows "\<exists>b'. fold_result (request now) qs b = Inr b' \<and> bus_ok now E P k Y Z b' \<and> grown b b' \<and>
    potential b' \<le> potential b + 9 * length qs \<and> mb_next_id b' = mb_next_id b + length qs"
  using assms
proof (induction qs arbitrary: b)
  case (Cons q qs)
  obtain d bytes p sb c where q: "q = (d, bytes, p, sb, c)" by (cases q)
  obtain b1 where b1: "request now q b = Inr b1" "bus_ok now E P k Y Z b1" "grown b b1"
    "potential b1 \<le> potential b + 9" "mb_next_id b1 = mb_next_id b + 1"
    using request_read_ok [OF Cons.prems, of d bytes p sb c] unfolding q request_def by auto
  then obtain b' where "fold_result (request now) qs b1 = Inr b'" "bus_ok now E P k Y Z b'" "grown b1 b'"
    "potential b' \<le> potential b1 + 9 * length qs" "mb_next_id b' = mb_next_id b1 + length qs"
    using Cons.IH by blast
  then show ?case using b1 grown_trans [of b b1 b'] by auto
qed simp

lemma retire_ok:
  assumes "bus_ok now E P k Y Z b"
  shows "\<exists>b'. retire now client d clock r b = Inr b' \<and> bus_ok now E P k Y (add_mset (mm_my_id r) Z) b' \<and> grown b b' \<and>
    potential b' + 9 * mb_next_id b \<le> potential b + 9 * mb_next_id b'"
proof -
  define b0 where "b0 = b\<lparr>mb_retired := mb_retired b @
    [Retirement (mm_my_id r) (mm_callable r) (lg_trigger_event (mb_side b d)) (shared_stat clock r)]\<rparr>"
  have same: "mb_side b0 = mb_side b" "pend b0 = pend b" "mb_next_id b0 = mb_next_id b" "mem_call_ids b0 = mem_call_ids b"
    "retired_ids b0 = add_mset (mm_my_id r) (retired_ids b)"
    by (simp_all add: b0_def)
  have "bus_ok now E P k Y (add_mset (mm_my_id r) Z) b0"
    using assms by (simp add: bus_ok_def same waits_fairly_def ids_ok_def both_def)
  from requests_ok [OF this, of "client (mm_callable r)"] obtain b' where
    b': "fold_result (request now) (client (mm_callable r)) b0 = Inr b'" "bus_ok now E P k Y (add_mset (mm_my_id r) Z) b'"
      "grown b0 b'" "potential b' \<le> potential b0 + 9 * length (client (mm_callable r))"
      "mb_next_id b' = mb_next_id b0 + length (client (mm_callable r))" by blast
  moreover have "grown b b'" using b'(3) by (simp add: grown_def same)
  moreover have "potential b0 = potential b" by (simp add: potential_def both_def same)
  ultimately show ?thesis using same(3) unfolding retire_def b0_def [symmetric] by auto
qed

section \<open>Moving requests between the lists\<close>

lemma begin_processing_ok:
  assumes ok: "bus_ok now E P k Y Z b"
  shows "bus_ok now E (P - {d}) k Y Z (begin_processing now d b)" "potential (begin_processing now d b) = potential b"
    "mb_next_id (begin_processing now d b) = mb_next_id b"
proof -
  let ?l = "mb_side b d" and ?m = "mb_side b (partner d)" and ?b = "begin_processing now d b"
  note D = bus_okD(1,2) [OF ok, of d] bus_okD(1,2) [OF ok, of "partner d"] bus_okD(3) [OF ok, unfolded ids_ok_split [where d = d]]
  have "bus_ok now E (P - {d}) k Y Z ?b \<and> potential ?b = potential b \<and> mb_next_id ?b = mb_next_id b"
  proof (cases "lg_processing_state ?l = PFree \<and> lg_processing ?l \<noteq> []")
    case True
    then obtain r rs where r: "lg_processing ?l = r # rs" by (cases "lg_processing ?l") auto
    define r' where "r' = r\<lparr>mm_total_processing_queue_time := mm_total_processing_queue_time r + (now - mm_start_time r),
      mm_start_time := now\<rparr>"
    have l': "mb_side ?b d = ?l\<lparr>lg_processing := r' # rs, lg_processing_state := PProcessing\<rparr>"
      and m': "mb_side ?b (partner d) = ?m" and p': "pend ?b = add_mset (d, Processing_Finished) (pend b)"
      and n': "mb_next_id ?b = mb_next_id b" "retired_ids ?b = retired_ids b" "mem_call_ids ?b = mem_call_ids b"
      using True r by (simp_all add: begin_processing_def Let_def r'_def)
    have "bus_ok now E (P - {d}) k Y Z ?b"
    proof (rule bus_okI [where d = d])
      show "side_ok now (d \<notin> P - {d}) (k d) (pending_of ?b d) (mb_side ?b d)"
        using D(1) True r unfolding l' p' by (simp add: side_ok_def r'_def)
      show "ids_ok Y Z ?b"
        using D(5) r unfolding ids_ok_split [where d = d] l' m' n' by (simp add: held_def away_def r'_def)
    qed (use D(2-4) in \<open>simp_all add: l' m' p' waits_fairly_def\<close>)
    moreover have "potential ?b = potential b"
      using r unfolding potential_split [where d = d] l' m' p' by (simp add: load_def r'_def w_processing_def w_back_def)
    ultimately show ?thesis using n' by blast
  next
    case False
    then have b: "?b = b" by (auto simp: begin_processing_def Let_def split: list.splits)
    have "side_ok now True (k d) (pending_of b d) ?l"
      using D(1) False by (cases "lg_processing_state ?l") (auto simp: side_ok_def)
    then have "bus_ok now E (P - {d}) k Y Z b"
      using D by (intro bus_okI [where d = d]) (auto simp: ids_ok_split [where d = d])
    then show ?thesis unfolding b by simp
  qed
  then show "bus_ok now E (P - {d}) k Y Z ?b" "potential ?b = potential b" "mb_next_id ?b = mb_next_id b" by blast+
qed

text \<open>The lists from which a handler takes its request.\<close>

definition fronts :: "side \<Rightarrow> 'c mem_bus \<Rightarrow> 'c mem_bus \<Rightarrow> bool" where
  "fronts d b b' \<longleftrightarrow>
     (\<exists>xs. lg_receives (mb_side b' d) = lg_receives (mb_side b d) @ xs) \<and>
     (\<exists>xs. lg_processing (mb_side b' d) = lg_processing (mb_side b d) @ xs) \<and>
     lg_processing_state (mb_side b' d) = lg_processing_state (mb_side b d)"

lemma grown_fronts: "grown b b' \<Longrightarrow> fronts d b b'"
  by (auto simp: grown_def fronts_def)

lemma into_sends_ok:
  assumes ok: "bus_ok now E P k Y Z b" and "d \<in> E" "\<not> mm_processed r"
  shows "bus_ok now E P k Y (add_mset (mm_my_id r) Z) (into_sends d r b)" "potential (into_sends d r b) \<le> potential b + 4"
    "mb_next_id (into_sends d r b) = mb_next_id b" "fronts d b (into_sends d r b)"
proof -
  let ?l = "mb_side b d" and ?m = "mb_side b (partner d)" and ?b = "into_sends d r b"
  note D = bus_okD(1,2) [OF ok, of d] bus_okD(1,2) [OF ok, of "partner d"] bus_okD(3) [OF ok, unfolded ids_ok_split [where d = d]]
  have "bus_ok now E P k Y (add_mset (mm_my_id r) Z) ?b \<and> potential ?b \<le> potential b + 4 \<and>
    mb_next_id ?b = mb_next_id b \<and> fronts d b ?b"
  proof (cases "lg_NPU_MEM ?l")
    case True
    define r' where "r' = wait_wait_for_mem_bus (r\<lparr>mm_send_back := False, mm_callEvent := Consider_Send_Back\<rparr>)"
    have l': "mb_side ?b d = ?l\<lparr>lg_pre_send := lg_pre_send ?l @ [r']\<rparr>"
      and m': "mb_side ?b (partner d) = ?m" and p': "pend ?b = pend b"
      and n': "mb_next_id ?b = mb_next_id b" "retired_ids ?b = retired_ids b"
        "mem_call_ids ?b = add_mset (d, mm_my_id r) (mem_call_ids b)"
      using True by (simp_all add: into_sends_def Let_def r'_def)
    have "bus_ok now E P k Y (add_mset (mm_my_id r) Z) ?b"
    proof (rule bus_okI [where d = d])
      show "side_ok now (d \<notin> P) (k d) (pending_of ?b d) (mb_side ?b d)"
        using D(1) unfolding l' p' by (auto simp: side_ok_def r'_def)
      show "ids_ok Y (add_mset (mm_my_id r) Z) ?b"
        using D(5) unfolding ids_ok_split [where d = d] l' m' n' by (simp add: held_def away_def r'_def)
    qed (use D(2-4) in \<open>simp_all add: l' m' p' waits_fairly_def\<close>)
    moreover have "potential ?b \<le> potential b + 4"
      using assms(3) unfolding potential_split [where d = d] l' m' p'
      by (simp add: load_def r'_def w_sends_def w_receives_def w_back_def)
    ultimately show ?thesis using n' by (simp add: fronts_def l')
  next
    case False
    define r' where "r' = r\<lparr>mm_send_back := False\<rparr>"
    have l': "mb_side ?b d = ?l\<lparr>lg_sends := lg_sends ?l @ [r']\<rparr>"
      and m': "mb_side ?b (partner d) = ?m" and p': "pend ?b = pend b"
      and n': "mb_next_id ?b = mb_next_id b" "retired_ids ?b = retired_ids b" "mem_call_ids ?b = mem_call_ids b"
      using False by (simp_all add: into_sends_def r'_def)
    have "bus_ok now E P k Y (add_mset (mm_my_id r) Z) ?b"
    proof (rule bus_okI [where d = d])
      show "side_ok now (d \<notin> P) (k d) (pending_of ?b d) (mb_side ?b d)"
        using D(1) unfolding l' p' by (simp add: side_ok_def)
      show "ids_ok Y (add_mset (mm_my_id r) Z) ?b"
        using D(5) unfolding ids_ok_split [where d = d] l' m' n' by (simp add: held_def away_def r'_def)
    qed (use D(2-4) assms(2) in \<open>simp_all add: l' m' p' waits_fairly_def\<close>)
    moreover have "potential ?b \<le> potential b + 4"
      using assms(3) unfolding potential_split [where d = d] l' m' p'
      by (simp add: load_def r'_def w_sends_def w_receives_def w_back_def)
    ultimately show ?thesis using n' by (simp add: fronts_def l')
  qed
  then show "bus_ok now E P k Y (add_mset (mm_my_id r) Z) ?b" "potential ?b \<le> potential b + 4"
    "mb_next_id ?b = mb_next_id b" "fronts d b ?b" by blast+
qed

lemma into_processing_ok:
  assumes ok: "bus_ok now E P k Y Z b" and "d \<in> P"
  shows "bus_ok now E P k Y (add_mset (mm_my_id r) Z) (into_processing d r b)"
    "potential (into_processing d r b) \<le> potential b + 1 + w_processing r"
    "mb_next_id (into_processing d r b) = mb_next_id b" "fronts d b (into_processing d r b)"
proof -
  let ?l = "mb_side b d" and ?m = "mb_side b (partner d)" and ?b = "into_processing d r b"
  note D = bus_okD(1,2) [OF ok, of d] bus_okD(1,2) [OF ok, of "partner d"] bus_okD(3) [OF ok, unfolded ids_ok_split [where d = d]]
  have "bus_ok now E P k Y (add_mset (mm_my_id r) Z) ?b \<and> potential ?b \<le> potential b + 1 + w_processing r \<and>
    mb_next_id ?b = mb_next_id b \<and> fronts d b ?b"
  proof (cases "lg_NPU_MEM ?l")
    case True
    define r' where "r' = wait_wait_for_mem_bus (r\<lparr>mm_processed := False, mm_callEvent := Consider_Process\<rparr>)"
    have l': "mb_side ?b d = ?l\<lparr>lg_pre_process := lg_pre_process ?l @ [r']\<rparr>"
      and m': "mb_side ?b (partner d) = ?m" and p': "pend ?b = pend b"
      and n': "mb_next_id ?b = mb_next_id b" "retired_ids ?b = retired_ids b"
        "mem_call_ids ?b = add_mset (d, mm_my_id r) (mem_call_ids b)"
      using True by (simp_all add: into_processing_def Let_def r'_def)
    have "bus_ok now E P k Y (add_mset (mm_my_id r) Z) ?b"
    proof (rule bus_okI [where d = d])
      show "side_ok now (d \<notin> P) (k d) (pending_of ?b d) (mb_side ?b d)"
        using D(1) unfolding l' p' by (auto simp: side_ok_def r'_def)
      show "ids_ok Y (add_mset (mm_my_id r) Z) ?b"
        using D(5) unfolding ids_ok_split [where d = d] l' m' n' by (simp add: held_def away_def r'_def)
    qed (use D(2-4) in \<open>simp_all add: l' m' p' waits_fairly_def\<close>)
    moreover have "potential ?b \<le> potential b + 1 + w_processing r"
      unfolding potential_split [where d = d] l' m' p' by (simp add: load_def r'_def w_processing_def w_back_def)
    ultimately show ?thesis using n' by (simp add: fronts_def l')
  next
    case False
    define r' where "r' = r\<lparr>mm_processed := False\<rparr>"
    have l': "mb_side ?b d = ?l\<lparr>lg_processing := lg_processing ?l @ [r']\<rparr>"
      and m': "mb_side ?b (partner d) = ?m" and p': "pend ?b = pend b"
      and n': "mb_next_id ?b = mb_next_id b" "retired_ids ?b = retired_ids b" "mem_call_ids ?b = mem_call_ids b"
      using False by (simp_all add: into_processing_def r'_def)
    have "bus_ok now E P k Y (add_mset (mm_my_id r) Z) ?b"
    proof (rule bus_okI [where d = d])
      show "side_ok now (d \<notin> P) (k d) (pending_of ?b d) (mb_side ?b d)"
        using D(1) assms(2) unfolding l' p' by (auto simp: side_ok_def r'_def)
      show "ids_ok Y (add_mset (mm_my_id r) Z) ?b"
        using D(5) unfolding ids_ok_split [where d = d] l' m' n' by (simp add: held_def away_def r'_def)
    qed (use D(2-4) in \<open>simp_all add: l' m' p' waits_fairly_def\<close>)
    moreover have "potential ?b \<le> potential b + 1 + w_processing r"
      unfolding potential_split [where d = d] l' m' p' by (simp add: load_def r'_def w_processing_def w_back_def)
    ultimately show ?thesis using n' by (simp add: fronts_def l')
  qed
  then show "bus_ok now E P k Y (add_mset (mm_my_id r) Z) ?b" "potential ?b \<le> potential b + 1 + w_processing r"
    "mb_next_id ?b = mb_next_id b" "fronts d b ?b" by blast+
qed

lemma into_retirements_ok:
  assumes ok: "bus_ok now E P k Y Z b"
  shows "\<exists>b1. into_retirements now client d r pop b = Inr (on_side d pop b1) \<and>
    bus_ok now E P k Y (add_mset (mm_my_id r) Z) b1 \<and> fronts d b b1 \<and>
    potential b1 + 9 * mb_next_id b \<le> potential b + 1 + 9 * mb_next_id b1"
proof (cases "lg_NPU_MEM (mb_side b d)")
  case True
  let ?l = "mb_side b d" and ?m = "mb_side b (partner d)"
  note D = bus_okD(1,2) [OF ok, of d] bus_okD(1,2) [OF ok, of "partner d"] bus_okD(3) [OF ok, unfolded ids_ok_split [where d = d]]
  define r' where "r' = r\<lparr>mm_callEvent := Consider_Retire\<rparr>"
  define b1 where "b1 = call_mem d True False False r'
    (on_side d (\<lambda>l. l\<lparr>lg_retirements := lg_retirements l @ [wait_wait_for_mem_bus r']\<rparr>) b)"
  have l': "mb_side b1 d = ?l\<lparr>lg_retirements := lg_retirements ?l @ [wait_wait_for_mem_bus r']\<rparr>"
    and m': "mb_side b1 (partner d) = ?m" and p': "pend b1 = pend b"
    and n': "mb_next_id b1 = mb_next_id b" "retired_ids b1 = retired_ids b"
      "mem_call_ids b1 = add_mset (d, mm_my_id r) (mem_call_ids b)"
    by (simp_all add: b1_def r'_def)
  have "bus_ok now E P k Y (add_mset (mm_my_id r) Z) b1"
  proof (rule bus_okI [where d = d])
    show "side_ok now (d \<notin> P) (k d) (pending_of b1 d) (mb_side b1 d)"
      using D(1) unfolding l' p' by (auto simp: side_ok_def r'_def)
    show "ids_ok Y (add_mset (mm_my_id r) Z) b1"
      using D(5) unfolding ids_ok_split [where d = d] l' m' n' by (simp add: held_def away_def r'_def)
  qed (use D(2-4) in \<open>simp_all add: l' m' p' waits_fairly_def\<close>)
  moreover have "potential b1 \<le> potential b + 1"
    unfolding potential_split [where d = d] l' m' p' by (simp add: load_def)
  moreover have "into_retirements now client d r pop b = Inr (on_side d pop b1)"
    using True by (simp add: into_retirements_def Let_def b1_def r'_def)
  ultimately show ?thesis using n' by (auto simp: fronts_def l')
next
  case False
  obtain b1 where b1: "retire now client d r r b = Inr b1" "bus_ok now E P k Y (add_mset (mm_my_id r) Z) b1"
    "grown b b1" "potential b1 + 9 * mb_next_id b \<le> potential b + 9 * mb_next_id b1"
    using retire_ok [OF ok] by blast
  then show ?thesis using False grown_fronts [OF b1(3)] by (auto simp: into_retirements_def)
qed

lemma pop_receives_ok:
  assumes ok: "bus_ok now E P k Y (add_mset (mm_my_id r) Z) b" and r: "lg_receives (mb_side b d) = r # rs"
    and k: "k d = Suc j"
  shows "bus_ok now E P (k(d := j)) Y Z (on_side d pop_receives b)"
    "potential (on_side d pop_receives b) + w_receives r = potential b"
proof -
  let ?b = "on_side d pop_receives b"
  note D = bus_okD(1,2) [OF ok, of d] bus_okD(1,2) [OF ok, of "partner d"] bus_okD(3) [OF ok, unfolded ids_ok_split [where d = d]]
  show "bus_ok now E P (k(d := j)) Y Z ?b"
  proof (rule bus_okI [where d = d])
    show "side_ok now (d \<notin> P) ((k(d := j)) d) (pending_of ?b d) (mb_side ?b d)"
      using D(1) r k by (simp add: side_ok_def pop_receives_def)
    show "ids_ok Y Z ?b"
      using D(5) r unfolding ids_ok_split [where d = d] by (simp add: held_def away_def pop_receives_def)
  qed (use D(2-4) in \<open>simp_all add: waits_fairly_def pop_receives_def\<close>)
  show "potential ?b + w_receives r = potential b"
    using r unfolding potential_split [where d = d] by (simp add: load_def pop_receives_def)
qed

lemma pop_processing_ok:
  assumes ok: "bus_ok now E P k Y (add_mset (mm_my_id r) Z) b" and r: "lg_processing (mb_side b d) = r # rs"
    and free: "lg_processing_state (mb_side b d) = PFree" "d \<in> P"
  shows "bus_ok now E P k Y Z (on_side d pop_processing b)"
    "potential (on_side d pop_processing b) + w_processing r = potential b"
proof -
  let ?b = "on_side d pop_processing b"
  note D = bus_okD(1,2) [OF ok, of d] bus_okD(1,2) [OF ok, of "partner d"] bus_okD(3) [OF ok, unfolded ids_ok_split [where d = d]]
  show "bus_ok now E P k Y Z ?b"
  proof (rule bus_okI [where d = d])
    show "side_ok now (d \<notin> P) (k d) (pending_of ?b d) (mb_side ?b d)"
      using D(1) r free by (simp add: side_ok_def pop_processing_def)
    show "ids_ok Y Z ?b"
      using D(5) r unfolding ids_ok_split [where d = d] by (simp add: held_def away_def pop_processing_def)
  qed (use D(2-4) in \<open>simp_all add: waits_fairly_def pop_processing_def\<close>)
  show "potential ?b + w_processing r = potential b"
    using r unfolding potential_split [where d = d] by (simp add: load_def pop_processing_def)
qed

text \<open>A request leaves its list before or after it enters the next one, to the same effect.\<close>

lemma on_side_commute:
  assumes "\<And>l. f (g l) = g (f l)"
  shows "on_side d f (on_side d g b) = on_side d g (on_side d f b)"
  using assms by (simp add: on_side_def)

lemma on_side_call_mem: "on_side d f (call_mem e x y z r b) = call_mem e x y z r (on_side d f b)"
  by (simp add: on_side_def call_mem_def)

lemma into_commute:
  assumes "\<And>l. lg_NPU_MEM (pop l) = lg_NPU_MEM l"
    and "\<And>l xs. pop (l\<lparr>lg_pre_send := lg_pre_send l @ xs\<rparr>) = (pop l)\<lparr>lg_pre_send := lg_pre_send (pop l) @ xs\<rparr>"
    and "\<And>l xs. pop (l\<lparr>lg_sends := lg_sends l @ xs\<rparr>) = (pop l)\<lparr>lg_sends := lg_sends (pop l) @ xs\<rparr>"
  shows "into_sends d r (on_side d pop b) = on_side d pop (into_sends d r b)"
proof (cases "lg_NPU_MEM (mb_side b d)")
  case True
  show ?thesis
    unfolding into_sends_def Let_def on_side_simps(1) assms(1) if_P [OF True] on_side_call_mem
    by (subst on_side_commute) (simp_all add: assms(2))
next
  case False
  show ?thesis
    unfolding into_sends_def Let_def on_side_simps(1) assms(1) if_not_P [OF False]
    by (rule on_side_commute) (simp add: assms(3))
qed

lemma pop_commutes:
  "into_sends d r (on_side d pop_receives b) = on_side d pop_receives (into_sends d r b)"
  "into_sends d r (on_side d pop_processing b) = on_side d pop_processing (into_sends d r b)"
  by (rule into_commute; simp add: pop_receives_def pop_processing_def)+

lemma pop_commutes_processing:
  "into_processing d r (on_side d pop_receives b) = on_side d pop_receives (into_processing d r b)"
proof (cases "lg_NPU_MEM (mb_side b d)")
  case True
  have "lg_NPU_MEM (pop_receives l) = lg_NPU_MEM l" for l :: "'a LogGP" by (simp add: pop_receives_def)
  then show ?thesis
    unfolding into_processing_def Let_def on_side_simps(1) if_P [OF True] on_side_call_mem
    by (subst on_side_commute) (simp_all add: pop_receives_def True)
next
  case False
  then show ?thesis
    unfolding into_processing_def Let_def on_side_simps(1)
    by (subst on_side_commute) (simp_all add: pop_receives_def)
qed

section \<open>Handlers\<close>

abbreviation bus_idle :: "Tick \<Rightarrow> 'c mem_bus \<Rightarrow> bool" where
  "bus_idle now b \<equiv> bus_ok now {} {} (\<lambda>_. 0) {#} {#} b"

text \<open>The progress of a handler: the potential falls, but for the requests that are added.\<close>

definition progress :: "'c mem_bus \<Rightarrow> 'c mem_bus \<Rightarrow> bool" where
  "progress b b' \<longleftrightarrow> potential b' + 1 + 9 * mb_next_id b \<le> potential b + 9 * mb_next_id b'"

definition fired :: "side \<Rightarrow> EventType \<Rightarrow> 'c mem_bus \<Rightarrow> 'c mem_bus \<Rightarrow> bool" where
  "fired d e b b1 \<longleftrightarrow>
     mb_side b1 = mb_side b \<and> mb_next_id b1 = mb_next_id b \<and> mb_mem_calls b1 = mb_mem_calls b \<and>
     mb_retired b1 = mb_retired b \<and> pend b = add_mset (d, e) (pend b1)"

lemma fired_ids: "fired d e b b1 \<Longrightarrow> retired_ids b1 = retired_ids b \<and> mem_call_ids b1 = mem_call_ids b"
  by (simp add: fired_def retired_ids_def mem_call_ids_def)

lemma handled:
  assumes "bus_ok now {d} {} (\<lambda>_. 0) {#} {#} b1" "progress b b1"
  shows "\<exists>b'. consider_send now d b1 = Inr b' \<and> bus_idle now b' \<and> awake b' \<and> progress b b'"
  using consider_send_ok [OF assms(1), of d] assms(2) by (auto simp: progress_def)

lemma send_finished_ok:
  assumes ok: "bus_idle now b" and f: "fired d Send_Finished b b1"
  shows "bus_ok now {d} {} (\<lambda>_. 0) {#} {#} (send_finished now d b1)" "progress b (send_finished now d b1)"
proof -
  let ?b = "send_finished now d b1" and ?l = "mb_side b d"
  note D = bus_okD(1,2) [OF ok, of d] bus_okD(1,2) [OF ok, of "partner d"] bus_okD(3) [OF ok, unfolded ids_ok_split [where d = d]]
  have l': "mb_side ?b d = ?l\<lparr>lg_last_trans := now, lg_prevState := lg_curState ?l, lg_curState := LFree,
      lg_subsequent_reads := lg_subsequent_reads ?l + 1\<rparr>" and m': "mb_side ?b (partner d) = mb_side b (partner d)"
    and p': "pend b = add_mset (d, Send_Finished) (pend ?b)"
    and n': "mb_next_id ?b = mb_next_id b" "retired_ids ?b = retired_ids b" "mem_call_ids ?b = mem_call_ids b"
    using f fired_ids [OF f] by (simp_all add: send_finished_def fired_def)
  show "bus_ok now {d} {} (\<lambda>_. 0) {#} {#} ?b"
  proof (rule bus_okI [where d = d])
    show "side_ok now (d \<notin> {}) 0 (pending_of ?b d) (mb_side ?b d)"
      using D(1) unfolding l' p' by (simp add: side_ok_def)
    show "ids_ok {#} {#} ?b"
      using D(5) unfolding ids_ok_split [where d = d] l' m' n' by (simp add: held_def away_def)
  qed (use D(3,4) in \<open>simp_all add: l' m' p' waits_fairly_def\<close>)
  show "progress b ?b"
    unfolding progress_def potential_split [where d = d] l' m' p' n' by (simp add: load_def)
qed

lemma rec_finished_ok:
  assumes ok: "bus_idle now b" and f: "fired d Rec_Finished b b1"
  shows "\<exists>b'. rec_finished now client d b1 = Inr b' \<and> bus_ok now {d} {} (\<lambda>_. 0) {#} {#} b' \<and> progress b b'"
proof -
  let ?l = "mb_side b d"
  define k :: "side \<Rightarrow> nat" where "k = (\<lambda>_. 0)(d := 1)"
  note D = bus_okD(1,2) [OF ok, of d] bus_okD(1,2) [OF ok, of "partner d"] bus_okD(3) [OF ok, unfolded ids_ok_split [where d = d]]
  have "0 < length (lg_receives ?l)" using D(1) f by (auto simp: side_ok_def fired_def)
  then obtain r0 rs where r0: "lg_receives ?l = r0 # rs" by (cases "lg_receives ?l") auto
  define r where "r = r0\<lparr>mm_total_transfer_time := mm_total_transfer_time r0 + (now - mm_start_time r0), mm_start_time := now\<rparr>"
  define b2 where "b2 = on_side d (\<lambda>l. l\<lparr>lg_receives := r # rs, lg_last_trans := now, lg_prevState := lg_curState l,
    lg_curState := (if rs = [] then LFree else lg_curState l)\<rparr>) b1"
  have l': "mb_side b2 d = ?l\<lparr>lg_receives := r # rs, lg_last_trans := now, lg_prevState := lg_curState ?l,
      lg_curState := (if rs = [] then LFree else lg_curState ?l)\<rparr>" and m': "mb_side b2 (partner d) = mb_side b (partner d)"
    and p': "pend b = add_mset (d, Rec_Finished) (pend b2)"
    and n': "mb_next_id b2 = mb_next_id b" "retired_ids b2 = retired_ids b" "mem_call_ids b2 = mem_call_ids b"
    using f fired_ids [OF f] by (simp_all add: b2_def fired_def)
  have flags: "mm_my_id r = mm_my_id r0" "mm_processed r = mm_processed r0" "mm_send_back r = mm_send_back r0"
    by (simp_all add: r_def)
  have ok2: "bus_ok now {d} {} k {#} {#} b2"
  proof (rule bus_okI [where d = d])
    show "side_ok now (d \<notin> {}) (k d) (pending_of b2 d) (mb_side b2 d)"
      using D(1) r0 unfolding l' p' by (auto simp: side_ok_def k_def Suc_le_eq)
    show "ids_ok {#} {#} b2"
      using D(5) r0 flags unfolding ids_ok_split [where d = d] l' m' n' by (simp add: held_def away_def)
  qed (use D(3,4) in \<open>simp_all add: l' m' p' waits_fairly_def k_def\<close>)
  have pot: "potential b2 = potential b"
    using r0 flags unfolding potential_split [where d = d] l' m' p'
    by (simp add: load_def w_receives_def w_processing_def w_back_def)
  have rec: "rec_finished now client d b1 =
      (if mm_processed r then Inr (begin_processing now d (into_processing d r (on_side d pop_receives b2)))
       else if mm_send_back r then Inr (into_sends d r (on_side d pop_receives b2))
       else into_retirements now client d r pop_receives b2)"
    using r0 f unfolding rec_finished_def b2_def r_def fired_def by (simp add: Let_def)
  have front: "\<exists>rs'. lg_receives (mb_side b3 d) = r # rs'" if "fronts d b2 b3" for b3
    using that unfolding fronts_def l' by auto
  have k0: "k d = Suc 0" "k(d := 0) = (\<lambda>_. 0)" by (auto simp: k_def)
  have popped: "bus_ok now {d} P (\<lambda>_. 0) {#} {#} (on_side d pop_receives b3)"
    "potential (on_side d pop_receives b3) + w_receives r = potential b3"
    if "bus_ok now {d} P k {#} {#mm_my_id r#} b3" "fronts d b2 b3" for b3 P
    using front [OF that(2)] pop_receives_ok [OF that(1) _ k0(1)] unfolding k0(2) by blast+
  consider "mm_processed r" | "\<not> mm_processed r" "mm_send_back r" | "\<not> mm_processed r" "\<not> mm_send_back r" by blast
  then show ?thesis
  proof cases
    case 1
    let ?b3 = "into_processing d r b2"
    have ok2': "bus_ok now {d} {d} k {#} {#} b2"
      using bus_okD [OF ok2] by (auto simp: bus_ok_def side_ok_def)
    note i = into_processing_ok [OF ok2', of d r, simplified]
    note q = popped [OF i(1) i(4)]
    note bp = begin_processing_ok [OF q(1), of d]
    have "potential (begin_processing now d (on_side d pop_receives ?b3)) + 1 \<le> potential b"
      using bp(2) q(2) i(2) pot 1 by (simp add: w_receives_def)
    then have "progress b (begin_processing now d (on_side d pop_receives ?b3))"
      unfolding progress_def bp(3) using i(3) n'(1) by simp
    then show ?thesis using bp(1) 1 rec unfolding pop_commutes_processing by auto
  next
    case 2
    note i = into_sends_ok [OF ok2 _ 2(1), of d, simplified]
    note q = popped [OF i(1) i(4)]
    have "potential (on_side d pop_receives (into_sends d r b2)) + 1 \<le> potential b"
      using q(2) i(2) pot 2 by (simp add: w_receives_def w_back_def)
    then have "progress b (on_side d pop_receives (into_sends d r b2))"
      unfolding progress_def using i(3) n'(1) by simp
    then show ?thesis using q(1) 2 rec unfolding pop_commutes(1) by auto
  next
    case 3
    obtain b3 where b3: "into_retirements now client d r pop_receives b2 = Inr (on_side d pop_receives b3)"
      "bus_ok now {d} {} k {#} {#mm_my_id r#} b3" "fronts d b2 b3"
      "potential b3 + 9 * mb_next_id b2 \<le> potential b2 + 1 + 9 * mb_next_id b3"
      using into_retirements_ok [OF ok2] by blast
    note q = popped [OF b3(2,3)]
    have "progress b (on_side d pop_receives b3)"
      using q(2) b3(4) pot n'(1) 3 unfolding progress_def by (simp add: w_receives_def w_back_def)
    then show ?thesis using q(1) b3(1) 3 rec by auto
  qed
qed

lemma processing_finished_ok:
  assumes ok: "bus_idle now b" and f: "fired d Processing_Finished b b1"
  shows "\<exists>b'. processing_finished now client d b1 = Inr b' \<and> bus_ok now {d} {} (\<lambda>_. 0) {#} {#} b' \<and> progress b b'"
proof -
  let ?l = "mb_side b d"
  note D = bus_okD(1,2) [OF ok, of d] bus_okD(1,2) [OF ok, of "partner d"] bus_okD(3) [OF ok, unfolded ids_ok_split [where d = d]]
  have "lg_processing ?l \<noteq> []" "lg_processing_state ?l = PProcessing"
    using D(1) f by (auto simp: side_ok_def fired_def split: if_splits)
  then obtain r0 rs where r0: "lg_processing ?l = r0 # rs" by (cases "lg_processing ?l") auto
  define r where "r = r0\<lparr>mm_total_processing_time := mm_total_processing_time r0 + (now - mm_start_time r0), mm_start_time := now\<rparr>"
  define b2 where "b2 = on_side d (\<lambda>l. l\<lparr>lg_processing := r # rs, lg_processing_state := PFree\<rparr>) b1"
  have l': "mb_side b2 d = ?l\<lparr>lg_processing := r # rs, lg_processing_state := PFree\<rparr>"
    and m': "mb_side b2 (partner d) = mb_side b (partner d)"
    and p': "pend b = add_mset (d, Processing_Finished) (pend b2)"
    and n': "mb_next_id b2 = mb_next_id b" "retired_ids b2 = retired_ids b" "mem_call_ids b2 = mem_call_ids b"
    using f fired_ids [OF f] by (simp_all add: b2_def fired_def)
  have flags: "mm_my_id r = mm_my_id r0" "mm_processed r = mm_processed r0" "mm_send_back r = mm_send_back r0"
    by (simp_all add: r_def)
  have fresh: "\<not> mm_processed r" using D(1) r0 flags by (simp add: side_ok_def)
  have ok2: "bus_ok now {d} {d} (\<lambda>_. 0) {#} {#} b2"
  proof (rule bus_okI [where d = d])
    show "side_ok now (d \<notin> {d}) 0 (pending_of b2 d) (mb_side b2 d)"
      using D(1) r0 flags unfolding l' p'
      by (auto simp: side_ok_def Suc_le_eq count_eq_zero_iff split: if_splits)
    show "ids_ok {#} {#} b2"
      using D(5) r0 flags unfolding ids_ok_split [where d = d] l' m' n' by (simp add: held_def away_def)
  qed (use D(3,4) in \<open>simp_all add: l' m' p' waits_fairly_def\<close>)
  have pot: "potential b2 = potential b"
    using r0 flags unfolding potential_split [where d = d] l' m' p'
    by (simp add: load_def w_processing_def w_back_def)
  have handler: "processing_finished now client d b1 =
      rbind (if mm_send_back r then Inr (into_sends d r (on_side d pop_processing b2))
             else into_retirements now client d r pop_processing b2) (\<lambda>b. Inr (begin_processing now d b))"
    using r0 f unfolding processing_finished_def b2_def r_def fired_def by (simp add: Let_def)
  have finish: "bus_ok now {d} {} (\<lambda>_. 0) {#} {#} (begin_processing now d (on_side d pop_processing b3)) \<and>
      progress b (begin_processing now d (on_side d pop_processing b3))"
    if b3: "bus_ok now {d} {d} (\<lambda>_. 0) {#} {#mm_my_id r#} b3" "fronts d b2 b3"
      "potential b3 + 9 * mb_next_id b2 \<le> potential b2 + w_back r + 9 * mb_next_id b3" for b3
  proof -
    obtain rs' where "lg_processing (mb_side b3 d) = r # rs'" "lg_processing_state (mb_side b3 d) = PFree"
      using b3(2) unfolding fronts_def l' by auto
    note q = pop_processing_ok [OF b3(1) this, simplified]
    note bp = begin_processing_ok [OF q(1), of d]
    show ?thesis
      using bp(1) q(2) b3(3) pot n'(1) unfolding progress_def bp(2,3) by (simp add: w_processing_def)
  qed
  show ?thesis
  proof (cases "mm_send_back r")
    case True
    note i = into_sends_ok [OF ok2 _ fresh, of d, simplified]
    have "potential (into_sends d r b2) + 9 * mb_next_id b2 \<le> potential b2 + w_back r + 9 * mb_next_id (into_sends d r b2)"
      using i(2,3) True by (simp add: w_back_def)
    from finish [OF i(1,4) this] show ?thesis using handler True unfolding pop_commutes(2) by simp
  next
    case False
    obtain b3 where b3: "into_retirements now client d r pop_processing b2 = Inr (on_side d pop_processing b3)"
      "bus_ok now {d} {d} (\<lambda>_. 0) {#} {#mm_my_id r#} b3" "fronts d b2 b3"
      "potential b3 + 9 * mb_next_id b2 \<le> potential b2 + 1 + 9 * mb_next_id b3"
      using into_retirements_ok [OF ok2] by blast
    then have "potential b3 + 9 * mb_next_id b2 \<le> potential b2 + w_back r + 9 * mb_next_id b3"
      using False by (simp add: w_back_def)
    from finish [OF b3(2,3) this] show ?thesis using handler b3(1) False by simp
  qed
qed

section \<open>Answers of the memory bus behind a side\<close>

lemma at_request_some:
  assumes "\<exists>r \<in> set xs. mm_my_id r = i"
  shows "\<exists>r ys zs. at_request i xs = Some (r, ys @ zs) \<and> xs = ys @ r # zs \<and> mm_my_id r = i"
proof -
  obtain ys r zs where e: "List.extract (\<lambda>r. mm_my_id r = i) xs = Some (ys, r, zs)"
    using assms by (cases "List.extract (\<lambda>r. mm_my_id r = i) xs") (auto simp: extract_None_iff)
  then have "at_request i xs = Some (r, ys @ zs)" by (simp add: at_request_def)
  moreover have "xs = ys @ r # zs" "mm_my_id r = i" using e by (simp_all add: extract_Some_iff)
  ultimately show ?thesis by blast
qed

lemma answered_update:
  "map mm_my_id (map (\<lambda>r. if mm_my_id r = i then mem_bus_answer data r else r) xs) = map mm_my_id xs"
  "mm_callEvent (mem_bus_answer data r) = mm_callEvent r" "mm_processed (mem_bus_answer data r) = mm_processed r"
  "mm_send_back (mem_bus_answer data r) = mm_send_back r" "mm_my_id (mem_bus_answer data r) = mm_my_id r"
  by (auto simp: mem_bus_answer_def Let_def update_bus_stats_def update_mem_bus_stats_def)

definition answered :: "side \<Rightarrow> nat \<Rightarrow> 'c mem_bus \<Rightarrow> 'c mem_bus \<Rightarrow> bool" where
  "answered d i b b1 \<longleftrightarrow>
     mb_side b1 = mb_side b \<and> mb_next_id b1 = mb_next_id b \<and> mb_events b1 = mb_events b \<and>
     mb_retired b1 = mb_retired b \<and> mem_call_ids b = add_mset (d, i) (mem_call_ids b1)"

lemma answer_ok:
  fixes data :: SharedBusStat and b b1 :: "'c mem_bus"
  assumes ok: "bus_idle now b" and a: "answered d i b b1"
  defines "b2 \<equiv> on_side d (update_request i (mem_bus_answer data)) b1"
  shows "bus_ok now {} {} (\<lambda>_. 0) {#(d, i)#} {#} b2" "potential b2 = potential b" "mb_next_id b2 = mb_next_id b"
proof -
  let ?l = "mb_side b d" and ?f = "update_request i (mem_bus_answer data)"
  note D = bus_okD(1,2) [OF ok, of d] bus_okD(1,2) [OF ok, of "partner d"] bus_okD(3) [OF ok, unfolded ids_ok_split [where d = d]]
  have l': "mb_side b2 d = ?f ?l" and m': "mb_side b2 (partner d) = mb_side b (partner d)" and p': "pend b2 = pend b"
    and n': "mb_next_id b2 = mb_next_id b" "retired_ids b2 = retired_ids b"
      "mem_call_ids b = add_mset (d, i) (mem_call_ids b2)"
    using a by (simp_all add: b2_def answered_def pend_def on_side_def retired_ids_def mem_call_ids_def)
  have held: "held (?f l) = held l" "away d (?f l) = away d l" for l :: "'c LogGP"
    unfolding held_def away_def update_request_def Let_def
    by (simp_all add: image_mset.compositionality o_def answered_update if_distrib [of mm_my_id] cong: if_cong)
  define g where "g = (\<lambda>r :: 'c MemMovRequest. if mm_my_id r = i then mem_bus_answer data r else r)"
  have w: "w_sends (g r) = w_sends r" "w_processing (g r) = w_processing r" for r
    by (simp_all add: g_def w_sends_def w_receives_def w_processing_def w_back_def answered_update)
  have "load (?f l) = load l" for l :: "'c LogGP"
    unfolding load_def update_request_def Let_def g_def [symmetric] by (simp add: o_def w)
  note load = this
  have flags: "mm_callEvent (g r) = mm_callEvent r" "mm_processed (g r) = mm_processed r" for r
    by (simp_all add: g_def answered_update)
  have side: "side_ok now p k n (?f l) = side_ok now p k n l" for p k n and l :: "'c LogGP"
    unfolding side_ok_def update_request_def Let_def g_def [symmetric] by (simp add: flags)
  show "bus_ok now {} {} (\<lambda>_. 0) {#(d, i)#} {#} b2"
  proof (rule bus_okI [where d = d])
    show "side_ok now (d \<notin> {}) 0 (pending_of b2 d) (mb_side b2 d)"
      using D(1) unfolding l' p' side by simp
    show "ids_ok {#(d, i)#} {#} b2"
      using D(5) unfolding ids_ok_split [where d = d] l' m' n' held by simp
  qed (use D(2-4) in \<open>simp_all add: l' m' p' waits_fairly_def update_request_def Let_def\<close>)
  show "potential b2 = potential b" unfolding potential_split [where d = d] l' m' p' load by simp
  show "mb_next_id b2 = mb_next_id b" by (rule n'(1))
qed

lemma mem_answer_ok:
  assumes ok: "bus_idle now b" and a: "answered d i b b1"
  shows "\<exists>b'. MemMovRequest_call now client d i data b1 = Inr b' \<and> bus_idle now b' \<and> awake b' \<and> progress b b'"
proof -
  define b2 where "b2 = on_side d (update_request i (mem_bus_answer data)) b1"
  note ok2 = answer_ok [OF ok a, of data, folded b2_def]
  let ?l = "mb_side b d" and ?l2 = "mb_side b2 d" and ?m2 = "mb_side b2 (partner d)"
  have l2: "?l2 = update_request i (mem_bus_answer data) ?l" using a by (simp add: b2_def answered_def)
  note D = bus_okD(1,2) [OF ok2(1), of d] bus_okD(1,2) [OF ok2(1), of "partner d"]
    bus_okD(3) [OF ok2(1), unfolded ids_ok_split [where d = d]]
  define all where "all = (\<lambda>l :: 'a LogGP. lg_pre_send l @ lg_pre_process l @ lg_retirements l)"
  have "(d, i) \<in># away d ?l2 + away (partner d) ?m2" using D(5) by simp
  then have "\<exists>r \<in> set (all ?l2). mm_my_id r = i" by (auto simp: away_def all_def)
  then have "\<exists>r \<in> set (all ?l). mm_my_id r = i"
    by (auto simp: l2 all_def update_request_def Let_def answered_update split: if_splits)
  then obtain r where r: "find (\<lambda>r. mm_my_id r = i) (all ?l) = Some r"
    by (cases "find (\<lambda>r. mm_my_id r = i) (all ?l)") (auto simp: find_None_iff)
  then have r': "r \<in> set (all ?l)" "mm_my_id r = i" by (auto simp: find_Some_iff)
  have call: "MemMovRequest_call now client d i data b1 = LogGP_call now client d i (mm_callEvent r) b2"
    using r a by (simp add: MemMovRequest_call_def Let_def all_def b2_def answered_def)
  have finish: ?thesis
    if "LogGP_call now client d i (mm_callEvent r) b2 = consider_send now d b3"
      "bus_ok now {d} {} (\<lambda>_. 0) {#} {#} b3" "progress b b3" for b3
    using handled [OF that(2,3)] that(1) call by auto
  have tags: "side_ok now True 0 (pending_of b d) ?l" using bus_okD(1) [OF ok, of d] by simp
  have ids: "map mm_my_id (lg_pre_send ?l2) = map mm_my_id (lg_pre_send ?l)"
    "map mm_my_id (lg_pre_process ?l2) = map mm_my_id (lg_pre_process ?l)"
    "map mm_my_id (lg_retirements ?l2) = map mm_my_id (lg_retirements ?l)"
    by (simp_all add: l2 update_request_def Let_def answered_update(1) del: map_map)
  have member: "\<exists>q \<in> set xs. mm_my_id q = i" if "map mm_my_id xs = map mm_my_id ys" "r \<in> set ys"
    for xs ys :: "'a MemMovRequest list"
    using that r'(2) by (metis image_eqI image_iff list.set_map)
  consider "r \<in> set (lg_pre_send ?l)" | "r \<in> set (lg_pre_process ?l)" | "r \<in> set (lg_retirements ?l)"
    using r'(1) unfolding all_def by auto
  then show ?thesis
  proof cases
    case 1
    then have ev: "mm_callEvent r = Consider_Send_Back" using tags by (simp add: side_ok_def)
    have "\<exists>r \<in> set (lg_pre_send ?l2). mm_my_id r = i"
      using member [OF ids(1) 1] .
    then obtain q ys zs where q: "at_request i (lg_pre_send ?l2) = Some (q, ys @ zs)"
      "lg_pre_send ?l2 = ys @ q # zs" "mm_my_id q = i" using at_request_some by blast
    define b3 where "b3 = on_side d (\<lambda>l. l\<lparr>lg_sends := lg_sends l @ [q], lg_pre_send := ys @ zs\<rparr>) b2"
    have l3: "mb_side b3 d = ?l2\<lparr>lg_sends := lg_sends ?l2 @ [q], lg_pre_send := ys @ zs\<rparr>"
      and m3: "mb_side b3 (partner d) = ?m2" and p3: "pend b3 = pend b2"
      and n3: "mb_next_id b3 = mb_next_id b2" "retired_ids b3 = retired_ids b2" "mem_call_ids b3 = mem_call_ids b2"
      by (simp_all add: b3_def)
    show ?thesis
    proof (rule finish)
      show "LogGP_call now client d i (mm_callEvent r) b2 = consider_send now d b3"
        using ev q by (simp add: LogGP_call_def consider_send_back_def b3_def)
      show "bus_ok now {d} {} (\<lambda>_. 0) {#} {#} b3"
      proof (rule bus_okI [where d = d])
        show "side_ok now (d \<notin> {}) 0 (pending_of b3 d) (mb_side b3 d)"
          using D(1) q(2) unfolding l3 p3 by (auto simp: side_ok_def Suc_le_eq count_eq_zero_iff)
        show "ids_ok {#} {#} b3"
          using D(5) q(2,3) unfolding ids_ok_split [where d = d] l3 m3 n3 by (simp add: held_def away_def)
      qed (use D(3,4) in \<open>simp_all add: l3 m3 p3 waits_fairly_def\<close>)
      show "progress b b3"
        using q(2) ok2(2,3) unfolding progress_def n3(1) potential_split [of b3 d] potential_split [of b2 d] l3 m3 p3
        by (simp add: load_def)
    qed
  next
    case 2
    then have ev: "mm_callEvent r = Consider_Process" using tags by (simp add: side_ok_def)
    have "\<exists>r \<in> set (lg_pre_process ?l2). mm_my_id r = i"
      using member [OF ids(2) 2] .
    then obtain q ys zs where q: "at_request i (lg_pre_process ?l2) = Some (q, ys @ zs)"
      "lg_pre_process ?l2 = ys @ q # zs" "mm_my_id q = i" using at_request_some by blast
    define b3 where "b3 = on_side d (\<lambda>l. l\<lparr>lg_processing := lg_processing l @ [q], lg_pre_process := ys @ zs\<rparr>) b2"
    have l3: "mb_side b3 d = ?l2\<lparr>lg_processing := lg_processing ?l2 @ [q], lg_pre_process := ys @ zs\<rparr>"
      and m3: "mb_side b3 (partner d) = ?m2" and p3: "pend b3 = pend b2"
      and n3: "mb_next_id b3 = mb_next_id b2" "retired_ids b3 = retired_ids b2" "mem_call_ids b3 = mem_call_ids b2"
      by (simp_all add: b3_def)
    have ok3: "bus_ok now {d} {d} (\<lambda>_. 0) {#} {#} b3"
    proof (rule bus_okI [where d = d])
      show "side_ok now (d \<notin> {d}) 0 (pending_of b3 d) (mb_side b3 d)"
        using D(1) q(2) unfolding l3 p3 by (auto simp: side_ok_def Suc_le_eq count_eq_zero_iff)
      show "ids_ok {#} {#} b3"
        using D(5) q(2,3) unfolding ids_ok_split [where d = d] l3 m3 n3 by (simp add: held_def away_def)
    qed (use D(3,4) in \<open>simp_all add: l3 m3 p3 waits_fairly_def\<close>)
    note bp = begin_processing_ok [OF ok3, of d]
    show ?thesis
    proof (rule finish)
      show "LogGP_call now client d i (mm_callEvent r) b2 = consider_send now d (begin_processing now d b3)"
        using ev q by (simp add: LogGP_call_def consider_process_def b3_def)
      show "bus_ok now {d} {} (\<lambda>_. 0) {#} {#} (begin_processing now d b3)" using bp(1) by simp
      have "potential b3 + 1 = potential b2"
        using q(2) unfolding potential_split [of b3 d] potential_split [of b2 d] l3 m3 p3 by (simp add: load_def)
      then show "progress b (begin_processing now d b3)"
        using ok2(2,3) unfolding progress_def bp(2,3) n3(1) by simp
    qed
  next
    case 3
    then have ev: "mm_callEvent r = Consider_Retire" using tags by (simp add: side_ok_def)
    have "\<exists>r \<in> set (lg_retirements ?l2). mm_my_id r = i"
      using member [OF ids(3) 3] .
    then obtain q ys zs where q: "at_request i (lg_retirements ?l2) = Some (q, ys @ zs)"
      "lg_retirements ?l2 = ys @ q # zs" "mm_my_id q = i" using at_request_some by blast
    obtain b3 where b3: "retire now client d (hd (lg_retirements ?l2)) q b2 = Inr b3"
      "bus_ok now {} {} (\<lambda>_. 0) {#(d, i)#} {#i#} b3" "grown b2 b3"
      "potential b3 + 9 * mb_next_id b2 \<le> potential b2 + 9 * mb_next_id b3"
      using retire_ok [OF ok2(1)] q(3) by metis
    have r3: "lg_retirements (mb_side b3 d) = ys @ q # zs" using b3(3) q(2) unfolding grown_def by metis
    define b4 where "b4 = on_side d (\<lambda>l. l\<lparr>lg_retirements :=
        (case at_request i (lg_retirements l) of None \<Rightarrow> lg_retirements l | Some (_, rest) \<Rightarrow> rest)\<rparr>) b3"
    have l4: "mb_side b4 d = (mb_side b3 d)\<lparr>lg_retirements := ys @ zs\<rparr>"
      and m4: "mb_side b4 (partner d) = mb_side b3 (partner d)" and p4: "pend b4 = pend b3"
      and n4: "mb_next_id b4 = mb_next_id b3" "retired_ids b4 = retired_ids b3" "mem_call_ids b4 = mem_call_ids b3"
      using q r3 by (simp_all add: b4_def)
    note D3 = bus_okD(1,2) [OF b3(2), of d] bus_okD(1,2) [OF b3(2), of "partner d"]
      bus_okD(3) [OF b3(2), unfolded ids_ok_split [where d = d]]
    show ?thesis
    proof (rule finish)
      show "LogGP_call now client d i (mm_callEvent r) b2 = consider_send now d b4"
        using ev q(1) b3(1) by (simp add: LogGP_call_def consider_retire_def b4_def)
      show "bus_ok now {d} {} (\<lambda>_. 0) {#} {#} b4"
      proof (rule bus_okI [where d = d])
        show "side_ok now (d \<notin> {}) 0 (pending_of b4 d) (mb_side b4 d)"
          using D3(1) r3 unfolding l4 p4 by (auto simp: side_ok_def Suc_le_eq count_eq_zero_iff)
        show "ids_ok {#} {#} b4"
          using D3(5) r3 q(3) unfolding ids_ok_split [where d = d] l4 m4 n4 by (simp add: held_def away_def)
      qed (use D3(3,4) in \<open>simp_all add: l4 m4 p4 waits_fairly_def\<close>)
      have "potential b4 + 1 = potential b3"
        using r3 unfolding potential_split [of b4 d] potential_split [of b3 d] l4 m4 p4 by (simp add: load_def)
      then show "progress b b4" using b3(4) ok2(2,3) unfolding progress_def n4(1) by simp
    qed
  qed
qed

section \<open>Runs\<close>

text \<open>
  A run of \<open>n\<close> handler calls up to time \<open>now\<close>. A step is a new request, the delivery of a registered
  event, whichever, or the answer to a call of the memory bus behind a side, whichever.
\<close>

definition drop_event :: "side \<times> EventType \<times> Tick \<Rightarrow> 'c mem_bus \<Rightarrow> 'c mem_bus" where
  "drop_event ev b = b\<lparr>mb_events := remove1 ev (mb_events b)\<rparr>"

definition drop_call :: "mem_call \<Rightarrow> 'c mem_bus \<Rightarrow> 'c mem_bus" where
  "drop_call c b = b\<lparr>mb_mem_calls := remove1 c (mb_mem_calls b)\<rparr>"

inductive bus_run :: "'c bus_client \<Rightarrow> 'c mem_bus \<Rightarrow> nat \<Rightarrow> Tick \<Rightarrow> 'c mem_bus \<Rightarrow> bool" for client b0 where
  start: "bus_run client b0 0 now b0"
| requested: "bus_run client b0 n t b \<Longrightarrow> t \<le> now \<Longrightarrow> request now q b = Inr b' \<Longrightarrow> bus_run client b0 n now b'"
| delivered: "bus_run client b0 n t b \<Longrightarrow> t \<le> now \<Longrightarrow> (d, e, due) \<in> set (mb_events b) \<Longrightarrow>
    LogGP_call now client d i e (drop_event (d, e, due) b) = Inr b' \<Longrightarrow> bus_run client b0 (Suc n) now b'"
| answered: "bus_run client b0 n t b \<Longrightarrow> t \<le> now \<Longrightarrow> MemCall d x y z w i \<in> set (mb_mem_calls b) \<Longrightarrow>
    MemMovRequest_call now client d i data (drop_call (MemCall d x y z w i) b) = Inr b' \<Longrightarrow>
    bus_run client b0 (Suc n) now b'"

lemma drop_event_fired:
  assumes "(d, e, due) \<in> set (mb_events b)"
  shows "fired d e b (drop_event (d, e, due) b)"
proof -
  have "mset (mb_events b) = add_mset (d, e, due) (mset (remove1 (d, e, due) (mb_events b)))"
    using assms by (simp add: mset_remove1)
  then have "image_mset (\<lambda>(d, e, t). (d, e)) (mset (mb_events b)) =
      image_mset (\<lambda>(d, e, t). (d, e)) (add_mset (d, e, due) (mset (remove1 (d, e, due) (mb_events b))))" by simp
  then show ?thesis by (simp add: fired_def pend_def drop_event_def)
qed

lemma drop_call_answered:
  assumes "MemCall d x y z w i \<in> set (mb_mem_calls b)"
  shows "answered d i b (drop_call (MemCall d x y z w i) b)"
proof -
  let ?c = "MemCall d x y z w i"
  have "mset (mb_mem_calls b) = add_mset ?c (mset (remove1 ?c (mb_mem_calls b)))"
    using assms by (simp add: mset_remove1)
  then have "image_mset mem_call_id (mset (mb_mem_calls b)) =
      image_mset mem_call_id (add_mset ?c (mset (remove1 ?c (mb_mem_calls b))))" by simp
  then show ?thesis by (simp add: answered_def mem_call_ids_def drop_call_def)
qed

lemma bus_idle_mono:
  assumes "bus_idle t b" "t \<le> now"
  shows "bus_idle now b"
proof -
  have "side_ok now p k n l" if "side_ok t p k n l" for p k n and l :: "'a LogGP"
    using that assms(2) unfolding side_ok_def by auto
  then show ?thesis using assms(1) unfolding bus_ok_def by blast
qed

text \<open>The events a bus registers are those its handlers know.\<close>

definition known :: "'c mem_bus \<Rightarrow> bool" where
  "known b \<longleftrightarrow> (\<forall>(d, e, t) \<in> set (mb_events b). e \<in> {Send_Finished, Rec_Finished, Processing_Finished})"

lemma known_simps [simp]:
  "known (on_side d f b) = known b" "known (call_mem d x y z r b) = known b"
  "known (bus_register now d e t b) \<longleftrightarrow> known b \<and> e \<in> {Send_Finished, Rec_Finished, Processing_Finished}"
  "known (b\<lparr>mb_retired := rs\<rparr>) = known b" "known (b\<lparr>mb_next_id := n\<rparr>) = known b"
  by (auto simp: known_def on_side_def call_mem_def bus_register_def)

lemma known_read: "process_next_read now d b = Inr b' \<Longrightarrow> known b \<Longrightarrow> known b'"
  by (auto simp: process_next_read_def Let_def rbind_Inr_iff switch_to_receiver_def split: list.splits)

lemma known_send: "consider_send now d b = Inr b' \<Longrightarrow> known b \<Longrightarrow> known b'"
proof (induction now d b rule: consider_send.induct)
  case (1 now d b)
  then show ?case using consider_send.simps [of now d b] by (auto split: if_splits dest: known_read)
qed

lemma known_request: "request now q b = Inr b' \<Longrightarrow> known b \<Longrightarrow> known b'"
  by (auto simp: request_def request_read_def Let_def split: prod.splits if_splits dest: known_send)

lemma known_requests: "fold_result (request now) qs b = Inr b' \<Longrightarrow> known b \<Longrightarrow> known b'"
  by (induction qs arbitrary: b) (auto simp: rbind_Inr_iff dest: known_request)

lemma known_retire: "retire now client d clock r b = Inr b' \<Longrightarrow> known b \<Longrightarrow> known b'"
  unfolding retire_def by (erule known_requests) simp

lemma known_parts [simp]:
  "known b \<Longrightarrow> known (begin_processing now d b)" "known (into_sends d r b) = known b"
  "known (into_processing d r b) = known b" "known (send_finished now d b) = known b"
  by (auto simp: begin_processing_def into_sends_def into_processing_def send_finished_def Let_def split: list.splits)

lemma known_retirements: "into_retirements now client d r pop b = Inr b' \<Longrightarrow> known b \<Longrightarrow> known b'"
  by (auto simp: into_retirements_def Let_def rbind_Inr_iff split: if_splits dest: known_retire)

lemma known_call:
  assumes "LogGP_call now client d i e b = Inr b'" "known b"
  shows "known b'"
proof -
  have "known b2" if "rec_finished now client d b = Inr b2 \<or> processing_finished now client d b = Inr b2 \<or>
      consider_retire now client d i b = Inr b2 \<or> consider_process now d i b = Inr b2 \<or>
      consider_send_back d i b = Inr b2" for b2
    using that assms(2)
    by (auto simp: rec_finished_def processing_finished_def consider_retire_def consider_process_def
        consider_send_back_def Let_def rbind_Inr_iff split: list.splits option.splits if_splits
        dest!: known_retirements known_retire)
  then show ?thesis
    using assms by (auto simp: LogGP_call_def rbind_Inr_iff split: EventType.splits dest: known_send)
qed

lemma known_answer: "MemMovRequest_call now client d i data b = Inr b' \<Longrightarrow> known b \<Longrightarrow> known b'"
  by (auto simp: MemMovRequest_call_def Let_def split: option.splits dest: known_call)

lemma known_drop: "known b \<Longrightarrow> known (drop_event ev b)" "known b \<Longrightarrow> known (drop_call c b)"
  unfolding known_def drop_event_def drop_call_def by (auto dest: notin_set_remove1 set_mp [OF set_remove1_subset])

lemma deliver_ok:
  assumes ok: "bus_idle now b" and f: "fired d e b b1" and e: "e \<in> {Send_Finished, Rec_Finished, Processing_Finished}"
  shows "\<exists>b'. LogGP_call now client d i e b1 = Inr b' \<and> bus_idle now b' \<and> awake b' \<and> progress b b'"
proof -
  have "\<exists>b2. LogGP_call now client d i e b1 = consider_send now d b2 \<and>
      bus_ok now {d} {} (\<lambda>_. 0) {#} {#} b2 \<and> progress b b2"
  proof -
    consider "e = Send_Finished" | "e = Rec_Finished" | "e = Processing_Finished" using e by blast
    then show ?thesis
    proof cases
      case 1
      then show ?thesis using send_finished_ok [OF ok f [unfolded 1]] by (simp add: LogGP_call_def) blast
    next
      case 2
      then show ?thesis using rec_finished_ok [OF ok f [unfolded 2], of client] by (auto simp: LogGP_call_def)
    next
      case 3
      then show ?thesis using processing_finished_ok [OF ok f [unfolded 3], of client] by (auto simp: LogGP_call_def)
    qed
  qed
  then show ?thesis using handled by (metis (no_types, lifting))
qed

section \<open>Reachable states\<close>

lemma bus_new_ok: "bus_idle now (MemBus_new L ov g G red att)"
  by (auto simp: bus_ok_def side_ok_def waits_fairly_def ids_ok_def both_def held_def away_def pend_def retired_ids_def
      mem_call_ids_def MemBus_new_def LogGP_new_def attach_mem_bus_def Let_def split: side.splits)

lemma potential_new: "potential (MemBus_new L ov g G red att) = 0"
  by (simp add: potential_def both_def load_def pend_def MemBus_new_def LogGP_new_def attach_mem_bus_def Let_def)

lemma awake_new: "awake (MemBus_new L ov g G red att)"
  by (auto simp: awake_def MemBus_new_def LogGP_new_def attach_mem_bus_def Let_def split: side.splits)

lemma known_new: "known (MemBus_new L ov g G red att)"
  by (simp add: known_def MemBus_new_def Let_def)

lemma request_ok:
  assumes "bus_idle now b" "awake b"
  shows "\<exists>b'. request now q b = Inr b' \<and> bus_idle now b' \<and> awake b' \<and> mb_next_id b' = mb_next_id b + 1 \<and>
    potential b' \<le> potential b + 9"
proof -
  obtain d bytes p sb c where q: "q = (d, bytes, p, sb, c)" by (cases q)
  show ?thesis using request_read_ok [OF assms(1), of d bytes p sb c] assms(2) unfolding q request_def by auto
qed

lemma bus_run_ok:
  assumes "bus_run client (MemBus_new L ov g G red att) n now b"
  shows "bus_idle now b \<and> awake b \<and> known b \<and> n + potential b \<le> 9 * mb_next_id b"
  using assms
proof induction
  case (start now)
  show ?case by (simp add: bus_new_ok potential_new awake_new known_new)
next
  case (requested n t b now q b')
  have idle: "bus_idle now b" using requested bus_idle_mono by blast
  obtain b2 where "request now q b = Inr b2" "bus_idle now b2" "awake b2" "mb_next_id b2 = mb_next_id b + 1"
    "potential b2 \<le> potential b + 9"
    using request_ok [OF idle] requested.IH by blast
  then show ?case using requested known_request [OF requested.hyps(3)] by auto
next
  case (delivered n t b now d e due i b')
  have idle: "bus_idle now b" using delivered bus_idle_mono by blast
  have e: "e \<in> {Send_Finished, Rec_Finished, Processing_Finished}" using delivered by (auto simp: known_def)
  obtain b2 where "LogGP_call now client d i e (drop_event (d, e, due) b) = Inr b2" "bus_idle now b2" "awake b2"
    "progress b b2"
    using deliver_ok [OF idle drop_event_fired [OF delivered.hyps(3)] e] by blast
  then show ?case
    using delivered known_call [OF delivered.hyps(4)] by (auto simp: progress_def known_drop)
next
  case (answered n t b now d x y z w i data b')
  have idle: "bus_idle now b" using answered bus_idle_mono by blast
  obtain b2 where "MemMovRequest_call now client d i data (drop_call (MemCall d x y z w i) b) = Inr b2" "bus_idle now b2"
    "awake b2" "progress b b2"
    using mem_answer_ok [OF idle drop_call_answered [OF answered.hyps(3)]] by blast
  then show ?case
    using answered known_answer [OF answered.hyps(4)] by (auto simp: progress_def known_drop)
qed

lemma quiet_bus_empty:
  assumes ok: "bus_idle now b" "awake b" and quiet: "mb_events b = []" "mb_mem_calls b = []"
  shows "both held b = {#}"
proof -
  have none: "pend b = {#}" "mem_call_ids b = {#}" using quiet by (simp_all add: pend_def mem_call_ids_def)
  have side: "lg_receives (mb_side b d) = []" "lg_processing (mb_side b d) = []" "lg_curState (mb_side b d) = LFree" for d
  proof -
    note D = bus_okD(1) [OF ok(1), of d, unfolded side_ok_def none, simplified]
    show "lg_receives (mb_side b d) = []" using D by simp
    show "lg_processing (mb_side b d) = []" using D by (auto split: if_splits)
    show "lg_curState (mb_side b d) = LFree" using D by (cases "lg_curState (mb_side b d)") auto
  qed
  then have sends: "lg_sends (mb_side b d) = []" for d using ok(2) unfolding awake_def by blast
  have "away d (mb_side b d) = {#}" for d
    using bus_okD(3) [OF ok(1), unfolded ids_ok_split [where d = d]] none by simp
  then have "lg_pre_send (mb_side b d) = []" "lg_pre_process (mb_side b d) = []" "lg_retirements (mb_side b d) = []" for d
    by (simp_all add: away_def)
  then show ?thesis using side sends by (simp add: both_def held_def)
qed

section \<open>A run\<close>

text \<open>One request from the node side that crosses the bus and ends on the other side.\<close>

definition demo_bus :: "nat mem_bus" where
  "demo_bus = MemBus_new 1 1 1 1 0 False"

definition demo_bus1 :: "nat mem_bus" where
  "demo_bus1 = projr (request 0 (NPU_side, 3, False, False, 7) demo_bus)"

definition demo_bus2 :: "nat mem_bus" where
  "demo_bus2 = projr (LogGP_call 9 (\<lambda>_. []) MA_side 0 Rec_Finished (drop_event (MA_side, Rec_Finished, 5) demo_bus1))"

definition demo_bus3 :: "nat mem_bus" where
  "demo_bus3 = projr (LogGP_call 9 (\<lambda>_. []) NPU_side 0 Send_Finished (drop_event (NPU_side, Send_Finished, 3) demo_bus2))"

lemma demo_bus1_run: "bus_run (\<lambda>_. []) demo_bus 0 0 demo_bus1"
proof -
  have "\<not> isl (request 0 (NPU_side, 3, False, False, 7) demo_bus)" by code_simp
  then have "request 0 (NPU_side, 3, False, False, 7) demo_bus = Inr demo_bus1" by (simp add: demo_bus1_def)
  then show ?thesis by (rule requested [OF bus_run.start order_refl])
qed

lemma demo_bus2_run: "bus_run (\<lambda>_. []) demo_bus 1 9 demo_bus2"
proof -
  let ?call = "LogGP_call 9 (\<lambda>_. []) MA_side 0 Rec_Finished (drop_event (MA_side, Rec_Finished, 5) demo_bus1)"
  have "\<not> isl ?call" "(MA_side, Rec_Finished, 5) \<in> set (mb_events demo_bus1)" by code_simp+
  then show ?thesis
    using delivered [OF demo_bus1_run, of 9 MA_side Rec_Finished 5 0 demo_bus2] by (simp add: demo_bus2_def)
qed

lemma demo_bus3_run: "bus_run (\<lambda>_. []) demo_bus 2 9 demo_bus3"
proof -
  let ?call = "LogGP_call 9 (\<lambda>_. []) NPU_side 0 Send_Finished (drop_event (NPU_side, Send_Finished, 3) demo_bus2)"
  have "\<not> isl ?call" "(NPU_side, Send_Finished, 3) \<in> set (mb_events demo_bus2)" by code_simp+
  then show ?thesis
    using delivered [OF demo_bus2_run, of 9 NPU_side Send_Finished 3 0 demo_bus3] by (simp add: demo_bus3_def numeral_2_eq_2)
qed

lemma demo_bus3_quiet: "mb_events demo_bus3 = []" "mb_mem_calls demo_bus3 = []" "mb_next_id demo_bus3 = 1"
  by code_simp+

section \<open>Properties\<close>

text \<open>
  \<^bold>\<open>C33\<close>. Whatever the bus has done so far, no step fails: a new request on either side, the delivery of
  any registered event, and the answer to any call of the memory bus behind a side return, so that
  no assertion of \<^verbatim>\<open>LogGP::call\<close> and \<^verbatim>\<open>process_next_read\<close> fails and no front of an empty queue is read.
\<close>

theorem bus_never_fails:
  assumes "bus_run client (MemBus_new L ov g G red att) n t b" "t \<le> now"
  shows "(\<exists>b'. request now q b = Inr b') \<and>
    (\<forall>(d, e, due) \<in> set (mb_events b). \<exists>b'. LogGP_call now client d i e (drop_event (d, e, due) b) = Inr b') \<and>
    (\<forall>d x y z w j. MemCall d x y z w j \<in> set (mb_mem_calls b) \<longrightarrow>
       (\<exists>b'. MemMovRequest_call now client d j data (drop_call (MemCall d x y z w j) b) = Inr b'))"
proof -
  have idle: "bus_idle now b" and awake: "awake b" and known: "known b"
    using bus_run_ok [OF assms(1)] bus_idle_mono assms(2) by blast+
  have "\<exists>b'. LogGP_call now client d i e (drop_event (d, e, due) b) = Inr b'" if "(d, e, due) \<in> set (mb_events b)" for d e due
    using deliver_ok [OF idle drop_event_fired [OF that]] known that by (force simp: known_def)
  then show ?thesis
    using request_ok [OF idle awake] mem_answer_ok [OF idle drop_call_answered] by blast
qed

theorem bus_never_fails_witness:
  "(\<exists>b'. request 12 (MA_side, 100, True, True, 8) demo_bus2 = Inr b') \<and>
   (\<exists>b'. LogGP_call 12 (\<lambda>_. []) NPU_side 0 Send_Finished (drop_event (NPU_side, Send_Finished, 3) demo_bus2) = Inr b')"
proof -
  have ev: "(NPU_side, Send_Finished, 3) \<in> set (mb_events demo_bus2)" by code_simp
  note all = bus_never_fails [OF demo_bus2_run [unfolded demo_bus_def], of 12]
  show ?thesis using all ev by fastforce
qed

text \<open>
  \<^bold>\<open>C15\<close>. No request is lost, duplicated or ended twice: the requests in the queues of the two sides and
  those that have ended are, each once, the requests that were made; and a request waits for the
  memory bus behind its side exactly when a call of that memory bus is outstanding for it.
\<close>

theorem bus_conserves_requests:
  assumes "bus_run client (MemBus_new L ov g G red att) n now b"
  shows "both held b + retired_ids b = mset [0..<mb_next_id b] \<and>
    away NPU_side (mb_side b NPU_side) + away MA_side (mb_side b MA_side) = mem_call_ids b"
  using bus_run_ok [OF assms] unfolding bus_ok_def ids_ok_def by simp

theorem bus_conserves_requests_witness:
  "both held demo_bus2 + retired_ids demo_bus2 = mset [0..<1]"
proof -
  have "mb_next_id demo_bus2 = 1" by code_simp
  then show ?thesis using bus_conserves_requests [OF demo_bus2_run [unfolded demo_bus_def]] by simp
qed

text \<open>
  \<^bold>\<open>C7\<close>. The bus drains: at most nine handler calls happen per request, and when no event and no
  answer is outstanding every request has ended, exactly once. In particular a side that gives way to
  its partner is always woken up again.
\<close>

theorem bus_drains:
  assumes "bus_run client (MemBus_new L ov g G red att) n now b"
  shows "n \<le> 9 * mb_next_id b \<and>
    (mb_events b = [] \<and> mb_mem_calls b = [] \<longrightarrow> retired_ids b = mset [0..<mb_next_id b])"
  using bus_run_ok [OF assms] quiet_bus_empty [of now b]
  unfolding bus_ok_def ids_ok_def by auto

theorem bus_drains_witness: "retired_ids demo_bus3 = mset [0..<1]"
  using bus_drains [OF demo_bus3_run [unfolded demo_bus_def]] demo_bus3_quiet by simp

end
