(* ===== verification/Execution_Trace.thy ===== *)
theory Execution_Trace
  imports Astra_Prelude Complex_Main
begin

text \<open>
  A node of an execution trace. Traces are read by the Chakra feeder, which is not part of this
  repository: the record holds what its accessors return for a node. An accessor that takes a default
  value is a function of that value.
\<close>

datatype ChakraNodeType =
    INVALID_NODE | METADATA_NODE | MEM_LOAD_NODE | MEM_STORE_NODE | COMP_NODE
  | COMM_SEND_NODE | COMM_RECV_NODE | COMM_COLL_NODE | OTHER_NODE

datatype ChakraCollectiveCommType =
    CT_ALL_REDUCE | CT_ALL_TO_ALL | CT_ALL_GATHER | CT_REDUCE_SCATTER | CT_BROADCAST | CT_OTHER

datatype ChakraAttr = BoolListAttr "bool list" | StringListAttr "string list" | OtherAttr

record et_node =
  et_id :: nat
  et_name :: string
  et_type :: ChakraNodeType
  et_runtime :: u64
  et_is_cpu_op :: bool
  et_is_cpu_op_or :: "bool \<Rightarrow> bool"
  et_num_ops :: u64
  et_tensor_size :: u64
  et_comm_type :: ChakraCollectiveCommType
  et_comm_size :: u64
  et_comm_priority :: nat
  et_comm_src :: nat
  et_comm_src_or :: "nat \<Rightarrow> nat"
  et_comm_dst :: nat
  et_comm_dst_or :: "nat \<Rightarrow> nat"
  et_comm_tag :: nat
  et_pg_name_or :: "string \<Rightarrow> string"
  et_inputs_values :: string
  et_attr :: "string \<Rightarrow> ChakraAttr option"

text \<open>A number that is a product or quotient of doubles is a rational number.\<close>

definition rat_of_u64 :: "u64 \<Rightarrow> rat" where
  "rat_of_u64 x = of_int (uint x)"

end
