(* ===== verification/Workload_Statistics.thy ===== *)
theory Workload_Statistics
  imports Execution_Trace "HOL-Library.AList" "HOL-Library.Product_Lexorder"
begin

text \<open>
  The statistics of a workload, \<^verbatim>\<open>Statistics.cc\<close>: the records of the operators, the merging of
  their intervals, and the numbers reported at the end. Logging is omitted. A total over ticks is
  a natural number; the overlap, which subtracts, is a 64-bit word.
\<close>

section \<open>Operators\<close>

datatype OperatorType = OT_CPU | OT_GPU | OT_COMM | OT_REMOTE_MEM | OT_REPLAY | OT_INVALID

definition INVALID_TICK :: Tick where
  "INVALID_TICK = 2 ^ 64 - 1"

record OperatorStatistics =
  os_node_id :: nat
  os_start_time :: Tick
  os_end_time :: Tick
  os_type :: OperatorType
  os_memory_utilization :: "rat option"
  os_compute_utilization :: "rat option"
  os_operation_intensity :: "rat option"
  os_is_memory_bound :: "bool option"
  os_comm_size :: "u64 option"
  os_network_bandwidth :: "rat option"

definition OperatorStatistics_new :: "nat \<Rightarrow> Tick \<Rightarrow> OperatorType \<Rightarrow> OperatorStatistics" where
  "OperatorStatistics_new node_id start_time type =
     \<lparr>os_node_id = node_id, os_start_time = start_time, os_end_time = INVALID_TICK, os_type = type,
      os_memory_utilization = None, os_compute_utilization = None, os_operation_intensity = None,
      os_is_memory_bound = None, os_comm_size = None, os_network_bandwidth = None\<rparr>"

record Statistics =
  st_type_time :: "OperatorType \<Rightarrow> Tick option"
  st_wall_time :: Tick
  st_comp_comm_overlap :: u64
  st_compute_bound_percentage :: rat
  st_average_compute_utilization :: rat
  st_average_memory_utilization :: rat
  st_average_operation_intensity :: rat
  st_operator_statistics :: "(nat \<times> OperatorStatistics) list"
  st_start_times :: "(Tick \<times> nat) list"

definition Statistics_new :: Statistics where
  "Statistics_new =
     \<lparr>st_type_time = Map.empty, st_wall_time = 0, st_comp_comm_overlap = 0, st_compute_bound_percentage = 0,
      st_average_compute_utilization = 0, st_average_memory_utilization = 0,
      st_average_operation_intensity = 0, st_operator_statistics = [], st_start_times = []\<rparr>"

fun get_operator_type :: "et_node \<Rightarrow> OperatorType result" where
  "get_operator_type node =
     (case et_type node of
        MEM_LOAD_NODE \<Rightarrow> Inr OT_REMOTE_MEM
      | MEM_STORE_NODE \<Rightarrow> Inr OT_REMOTE_MEM
      | COMP_NODE \<Rightarrow> Inr (if et_is_cpu_op node then OT_CPU else OT_GPU)
      | COMM_COLL_NODE \<Rightarrow> Inr OT_COMM
      | COMM_SEND_NODE \<Rightarrow> Inr OT_COMM
      | COMM_RECV_NODE \<Rightarrow> Inr OT_COMM
      | INVALID_NODE \<Rightarrow> Inr OT_INVALID
      | _ \<Rightarrow> Inl (AssertionFailed ''Invalid node_type''))"

definition get_operator_statistics :: "nat \<Rightarrow> Statistics \<Rightarrow> OperatorStatistics result" where
  "get_operator_statistics node_id s =
     (case map_of (st_operator_statistics s) node_id of
        None \<Rightarrow> Inl (OutOfRange ''operator_statistics.at'') | Some stat \<Rightarrow> Inr stat)"

text \<open>An assignment through the reference that \<^verbatim>\<open>get_operator_statistics\<close> returns.\<close>

definition change_stat ::
    "nat \<Rightarrow> (OperatorStatistics \<Rightarrow> OperatorStatistics) \<Rightarrow> Statistics \<Rightarrow> Statistics result" where
  "change_stat node_id f s =
     rbind (get_operator_statistics node_id s) (\<lambda>stat.
       Inr (s\<lparr>st_operator_statistics := AList.update node_id (f stat) (st_operator_statistics s)\<rparr>))"

definition record_start :: "et_node \<Rightarrow> Tick \<Rightarrow> Statistics \<Rightarrow> Statistics result" where
  "record_start node start_time s =
     rbind (get_operator_type node) (\<lambda>type.
       Inr (s\<lparr>st_operator_statistics :=
                AList.update (et_id node) (OperatorStatistics_new (et_id node) start_time type)
                  (st_operator_statistics s),
              st_start_times := st_start_times s @ [(start_time, et_id node)]\<rparr>))"

definition record_end :: "et_node \<Rightarrow> Tick \<Rightarrow> Statistics \<Rightarrow> Statistics result" where
  "record_end node end_time s = change_stat (et_id node) (\<lambda>stat. stat\<lparr>os_end_time := end_time\<rparr>) s"

section \<open>Post-processing\<close>

text \<open>The loop merges an interval with the current one when they touch.\<close>

fun merge_intervals :: "(Tick \<times> Tick) list \<Rightarrow> Tick \<Rightarrow> Tick \<Rightarrow> Tick \<Rightarrow> Tick" where
  "merge_intervals [] total_runtime merged_start merged_end = total_runtime + (merged_end - merged_start)"
| "merge_intervals ((s, e) # intervals) total_runtime merged_start merged_end =
     (if s \<le> merged_end
      then merge_intervals intervals total_runtime merged_start (max merged_end e)
      else merge_intervals intervals (total_runtime + (merged_end - merged_start)) s e)"

fun calculateTotalRuntimeFromIntervals :: "(Tick \<times> Tick) list \<Rightarrow> Tick" where
  "calculateTotalRuntimeFromIntervals intervals =
     (case sort intervals of
        [] \<Rightarrow> 0
      | (s, e) # rest \<Rightarrow> merge_intervals ((s, e) # rest) 0 s e)"

definition interval_map :: "(nat \<times> OperatorStatistics) list \<Rightarrow> OperatorType \<Rightarrow> (Tick \<times> Tick) list" where
  "interval_map stats type =
     map (\<lambda>(node_id, stat). (os_start_time stat, os_end_time stat))
       (filter (\<lambda>(node_id, stat). os_type stat = type) stats)"

definition extract_type_time :: "Statistics \<Rightarrow> Statistics" where
  "extract_type_time s =
     s\<lparr>st_type_time := (\<lambda>type.
         if interval_map (st_operator_statistics s) type = [] then None
         else Some (calculateTotalRuntimeFromIntervals (interval_map (st_operator_statistics s) type)))\<rparr>"

definition extract_comp_comm_overlap :: "Statistics \<Rightarrow> Statistics result" where
  "extract_comp_comm_overlap s =
     (if \<exists>type \<in> {OT_CPU, OT_REMOTE_MEM, OT_REPLAY, OT_INVALID}. st_type_time s type \<noteq> None
      then Inl (RuntimeError ''Only GPU and COMM types are supported for overlap extraction'')
      else case (st_type_time s OT_GPU, st_type_time s OT_COMM) of
        (Some gpu, Some comm) \<Rightarrow>
          Inr (s\<lparr>st_comp_comm_overlap := of_nat gpu + of_nat comm - of_nat (st_wall_time s)\<rparr>)
      | _ \<Rightarrow> Inr (s\<lparr>st_comp_comm_overlap := 0\<rparr>))"

definition weighted :: "rat option \<Rightarrow> Tick \<Rightarrow> rat" where
  "weighted x duration = (case x of None \<Rightarrow> 0 | Some u \<Rightarrow> u * of_nat duration)"

definition extract_utilizations :: "Statistics \<Rightarrow> Statistics" where
  "extract_utilizations s =
     (let stats = map snd (filter (\<lambda>(node_id, stat). os_type stat \<in> {OT_CPU, OT_GPU}) (st_operator_statistics s));
          duration = (\<lambda>stat. os_end_time stat - os_start_time stat);
          total_compute_bound_time =
            sum_list (map duration (filter (\<lambda>stat. os_is_memory_bound stat = Some False) stats));
          total_compute_utilization = sum_list (map (\<lambda>stat. weighted (os_compute_utilization stat) (duration stat)) stats);
          total_memory_utilization = sum_list (map (\<lambda>stat. weighted (os_memory_utilization stat) (duration stat)) stats);
          total_operation_intensity = sum_list (map (\<lambda>stat. weighted (os_operation_intensity stat) (duration stat)) stats);
          total_compute_time = 1 + sum_list (map duration stats)
      in s\<lparr>st_compute_bound_percentage := of_nat total_compute_bound_time / of_nat total_compute_time,
           st_average_compute_utilization := total_compute_utilization / of_nat total_compute_time,
           st_average_memory_utilization := total_memory_utilization / of_nat total_compute_time,
           st_average_operation_intensity := total_operation_intensity / of_nat total_compute_time\<rparr>)"

fun wall_time_loop :: "(nat \<times> OperatorStatistics) list \<Rightarrow> Tick \<Rightarrow> Tick result" where
  "wall_time_loop [] wall_time = Inr wall_time"
| "wall_time_loop ((node_id, stat) # stats) wall_time =
     (if os_end_time stat = INVALID_TICK then Inl (ProcessExit ''Node did not finish'')
      else wall_time_loop stats (max wall_time (os_end_time stat)))"

definition post_processing :: "bool \<Rightarrow> Statistics \<Rightarrow> Statistics result" where
  "post_processing roofline_enabled s =
     rbind (wall_time_loop (st_operator_statistics s) 0) (\<lambda>wall_time.
       let s = extract_type_time (s\<lparr>st_wall_time := wall_time\<rparr>);
           s = (if roofline_enabled then extract_utilizations s else s)
       in extract_comp_comm_overlap s)"

section \<open>Merged intervals\<close>

text \<open>The ticks covered by a list of intervals.\<close>

definition covered :: "(Tick \<times> Tick) list \<Rightarrow> Tick set" where
  "covered xs = (\<Union>(s, e) \<in> set xs. {s..<e})"

lemma covered_simps [simp]:
  "covered [] = {}" "covered ((s, e) # xs) = {s..<e} \<union> covered xs" "covered (xs @ ys) = covered xs \<union> covered ys"
  by (auto simp: covered_def)

lemma finite_covered [simp]: "finite (covered xs)"
  by (auto simp: covered_def)






section \<open>The reported numbers\<close>


lemma wall_time_loop_iff:
  "(\<exists>w. wall_time_loop stats w0 = Inr w) \<longleftrightarrow> (\<forall>(i, stat) \<in> set stats. os_end_time stat \<noteq> INVALID_TICK)"
proof (induction stats arbitrary: w0)
  case (Cons p stats)
  obtain i stat where p: "p = (i, stat)" by (cases p)
  show ?case
    using Cons.IH [of "max w0 (os_end_time stat)"] by (cases "os_end_time stat = INVALID_TICK") (simp_all add: p)
qed simp




lemma interval_map_empty: "interval_map stats type = [] \<longleftrightarrow> (\<forall>(i, stat) \<in> set stats. os_type stat \<noteq> type)"
  by (auto simp: interval_map_def filter_empty_conv)

lemma utilizations_frame [simp]:
  "st_type_time (extract_utilizations s) = st_type_time s" "st_wall_time (extract_utilizations s) = st_wall_time s"
  "st_operator_statistics (extract_utilizations s) = st_operator_statistics s"
  "st_start_times (extract_utilizations s) = st_start_times s"
  by (simp_all add: extract_utilizations_def Let_def)

lemma post_processing_cases:
  "post_processing r s =
     (case wall_time_loop (st_operator_statistics s) 0 of
        Inl e \<Rightarrow> Inl e
      | Inr w \<Rightarrow>
          extract_comp_comm_overlap
            (if r then extract_utilizations (extract_type_time (s\<lparr>st_wall_time := w\<rparr>))
             else extract_type_time (s\<lparr>st_wall_time := w\<rparr>)))"
  by (simp add: post_processing_def rbind_def Let_def split: sum.splits)

lemma overlap_Inr:
  "(\<exists>s'. extract_comp_comm_overlap s = Inr s') \<longleftrightarrow>
     (\<forall>type \<in> {OT_CPU, OT_REMOTE_MEM, OT_REPLAY, OT_INVALID}. st_type_time s type = None)"
  by (auto simp: extract_comp_comm_overlap_def split: option.splits)

lemma other_types:
  "(\<forall>type \<in> {OT_CPU, OT_REMOTE_MEM, OT_REPLAY, OT_INVALID}. \<forall>(i, stat) \<in> set stats. os_type stat \<noteq> type) \<longleftrightarrow>
     (\<forall>(i, stat) \<in> set stats. os_type stat \<in> {OT_GPU, OT_COMM})"
proof -
  have "t \<in> {OT_GPU, OT_COMM} \<longleftrightarrow> (\<forall>type \<in> {OT_CPU, OT_REMOTE_MEM, OT_REPLAY, OT_INVALID}. t \<noteq> type)" for t
    by (cases t) simp_all
  then show ?thesis unfolding split_beta by blast
qed

lemma post_processing_Inr:
  "(\<exists>s'. post_processing roofline_enabled s = Inr s') \<longleftrightarrow>
     (\<forall>(node_id, stat) \<in> set (st_operator_statistics s).
        os_end_time stat \<noteq> INVALID_TICK \<and> os_type stat \<in> {OT_GPU, OT_COMM})"
proof (cases "wall_time_loop (st_operator_statistics s) 0")
  case (Inl e)
  then show ?thesis
    using wall_time_loop_iff [of "st_operator_statistics s" 0] by (auto simp: post_processing_cases)
next
  case (Inr w)
  then have ended: "\<forall>(i, stat) \<in> set (st_operator_statistics s). os_end_time stat \<noteq> INVALID_TICK"
    using wall_time_loop_iff by blast
  have "(\<exists>s'. post_processing roofline_enabled s = Inr s') \<longleftrightarrow>
      (\<forall>type \<in> {OT_CPU, OT_REMOTE_MEM, OT_REPLAY, OT_INVALID}.
         \<forall>(i, stat) \<in> set (st_operator_statistics s). os_type stat \<noteq> type)"
    by (simp add: post_processing_cases Inr overlap_Inr extract_type_time_def interval_map_empty)
  also have "\<dots> \<longleftrightarrow> (\<forall>(i, stat) \<in> set (st_operator_statistics s). os_type stat \<in> {OT_GPU, OT_COMM})"
    by (rule other_types)
  finally show ?thesis using ended by fastforce
qed

text \<open>
  When the post-processing returns: every operator has ended, and only GPU compute and communication
  operators have run. One operator of any other kind makes it fail.
\<close>

theorem statistics_accepts:
  "(\<exists>s'. post_processing roofline_enabled s = Inr s') \<longleftrightarrow>
     (\<forall>(node_id, stat) \<in> set (st_operator_statistics s).
        os_end_time stat \<noteq> INVALID_TICK \<and> os_type stat \<in> {OT_GPU, OT_COMM})"
  by (rule post_processing_Inr)


definition demo_stats :: Statistics where
  "demo_stats = Statistics_new\<lparr>st_operator_statistics :=
     [(0, (OperatorStatistics_new 0 2 OT_GPU)\<lparr>os_end_time := 6\<rparr>),
      (1, (OperatorStatistics_new 1 4 OT_COMM)\<lparr>os_end_time := 9\<rparr>),
      (2, (OperatorStatistics_new 2 5 OT_GPU)\<lparr>os_end_time := 7\<rparr>)]\<rparr>"



theorem statistics_accepts_witness:
  "\<not> (\<exists>s'. post_processing False (demo_stats\<lparr>st_operator_statistics :=
       [(3, (OperatorStatistics_new 3 0 OT_CPU)\<lparr>os_end_time := 1\<rparr>)]\<rparr>) = Inr s')"
  unfolding statistics_accepts by (simp add: OperatorStatistics_new_def)


end
