(* ===== verification/Local_Memory.thy ===== *)
theory Local_Memory
  imports Execution_Trace "HOL-Library.AList"
begin

text \<open>
  The tracker of local memory, \<^verbatim>\<open>LocalMemUsageTracker.cc\<close>: which tensors an operator reads and
  writes, and from this the memory in use at every tick. The hash tables are association lists in the
  order of insertion; what is proved does not depend on that order. The events of the trace file are
  kept, writing the file and the heat map, which only present the same data, are not modelled.
\<close>

section \<open>Reading the attributes of a node\<close>

record MemActivity =
  ma_start :: Tick
  ma_end :: Tick
  ma_nodeName :: string
  ma_nodeId :: nat

type_synonym TensorId = string

fun parse_pairs :: "string list \<Rightarrow> (TensorId \<times> u64) list \<Rightarrow> (TensorId \<times> u64) list result" where
  "parse_pairs (name # sz # values) infos = rbind (stoull sz) (\<lambda>n. parse_pairs values (infos @ [(name, n)]))"
| "parse_pairs _ infos = Inr infos"

definition parseIOInfos :: "string list \<Rightarrow> (TensorId \<times> u64) list result" where
  "parseIOInfos values =
     (if length values mod 2 \<noteq> 0 then Inl (RuntimeError ''IO infos list size is not even.'')
      else parse_pairs values [])"

text \<open>The tensors that an attribute names; an attribute of another type names none.\<close>

definition io_infos :: "string \<Rightarrow> et_node \<Rightarrow> (TensorId \<times> u64) list result" where
  "io_infos attr node =
     (case et_attr node attr of
        None \<Rightarrow> Inl (RuntimeError (''Attribute '' @ attr @ '' not found in node''))
      | Some (StringListAttr values) \<Rightarrow> if values = [] then Inr [] else parseIOInfos values
      | Some _ \<Rightarrow> Inr [])"

section \<open>Recording\<close>

datatype event_args = ReadWriteArgs u64 string nat | SizeArgs u64 | MemoryArgs rat

record trace_event =
  te_name :: string
  te_cat :: string
  te_ph :: string
  te_ts :: rat
  te_pid :: nat
  te_tid :: "nat option"
  te_args :: event_args

record mem_tracker =
  mt_sysId :: nat
  mt_memReads :: "(TensorId \<times> MemActivity list) list"
  mt_memWrites :: "(TensorId \<times> MemActivity) list"
  mt_tensorSize :: "(TensorId \<times> u64) list"
  mt_activityStartTime :: "nat \<rightharpoonup> Tick"
  mt_serializedMemoryTrace :: "trace_event list"
  mt_memoryContents :: "(Tick \<times> TensorId list) list"
  mt_memoryUsage :: "(Tick \<times> u64) list"
  mt_tensorMapId :: "(TensorId \<times> nat) list"

definition mem_tracker_new :: "nat \<Rightarrow> mem_tracker" where
  "mem_tracker_new sysId =
     \<lparr>mt_sysId = sysId, mt_memReads = [], mt_memWrites = [], mt_tensorSize = [], mt_activityStartTime = Map.empty,
      mt_serializedMemoryTrace = [], mt_memoryContents = [], mt_memoryUsage = [], mt_tensorMapId = []\<rparr>"

text \<open>\<^verbatim>\<open>insert\<close> of a hash table keeps an entry that exists; \<^verbatim>\<open>at\<close> throws when there is none.\<close>

definition put_new :: "'k \<Rightarrow> 'v \<Rightarrow> ('k \<times> 'v) list \<Rightarrow> ('k \<times> 'v) list" where
  "put_new k v xs = (if map_of xs k = None then xs @ [(k, v)] else xs)"

definition lookup_at :: "('k \<times> 'v) list \<Rightarrow> 'k \<Rightarrow> 'v result" where
  "lookup_at xs k = (case map_of xs k of None \<Rightarrow> Inl (OutOfRange ''unordered_map::at'') | Some v \<Rightarrow> Inr v)"

definition undefined_write :: MemActivity where
  "undefined_write = \<lparr>ma_start = 0, ma_end = 10, ma_nodeName = ''UNDEFINED'', ma_nodeId = 2 ^ 64 - 1\<rparr>"

definition record_read :: "MemActivity \<Rightarrow> TensorId \<times> u64 \<Rightarrow> mem_tracker \<Rightarrow> mem_tracker" where
  "record_read readActivity info m =
     (case info of (tensorName, sz) \<Rightarrow>
        if sz = 0 then m
        else
          (let m = (if map_of (mt_tensorSize m) tensorName = None
                    then m\<lparr>mt_tensorSize := put_new tensorName sz (mt_tensorSize m),
                           mt_memWrites := put_new tensorName undefined_write (mt_memWrites m)\<rparr>
                    else m);
               reads = (case map_of (mt_memReads m) tensorName of None \<Rightarrow> [] | Some as \<Rightarrow> as)
           in m\<lparr>mt_memReads := AList.update tensorName (reads @ [readActivity]) (mt_memReads m)\<rparr>))"

definition activity :: "et_node \<Rightarrow> Tick \<Rightarrow> Tick \<Rightarrow> MemActivity" where
  "activity node start end =
     \<lparr>ma_start = start, ma_end = end, ma_nodeName = et_name node, ma_nodeId = et_id node\<rparr>"

definition recordReads :: "et_node \<Rightarrow> Tick \<Rightarrow> Tick \<Rightarrow> mem_tracker \<Rightarrow> mem_tracker result" where
  "recordReads node start end m =
     rbind (io_infos ''inputs'' node) (\<lambda>infos. Inr (fold (record_read (activity node start end)) infos m))"

definition record_write :: "MemActivity \<Rightarrow> TensorId \<times> u64 \<Rightarrow> mem_tracker \<Rightarrow> mem_tracker result" where
  "record_write writeActivity info m =
     (case info of (tensorName, sz) \<Rightarrow>
        if sz = 0 then Inr m
        else if map_of (mt_tensorSize m) tensorName = None
        then Inr (m\<lparr>mt_tensorSize := put_new tensorName sz (mt_tensorSize m),
                    mt_memWrites := put_new tensorName writeActivity (mt_memWrites m)\<rparr>)
        else Inl (AssertionFailed ''each tensor should only be written once''))"

definition recordWrites :: "et_node \<Rightarrow> Tick \<Rightarrow> Tick \<Rightarrow> mem_tracker \<Rightarrow> mem_tracker result" where
  "recordWrites node start end m =
     rbind (io_infos ''outputs'' node) (\<lambda>infos. fold_result (record_write (activity node start end)) infos m)"

definition recordStart :: "et_node \<Rightarrow> Tick \<Rightarrow> mem_tracker \<Rightarrow> mem_tracker" where
  "recordStart node tick m = m\<lparr>mt_activityStartTime := (mt_activityStartTime m)(et_id node \<mapsto> tick)\<rparr>"

definition recordEnd :: "et_node \<Rightarrow> Tick \<Rightarrow> mem_tracker \<Rightarrow> mem_tracker result" where
  "recordEnd node tick m =
     (case mt_activityStartTime m (et_id node) of
        None \<Rightarrow> Inr m
      | Some start \<Rightarrow>
          rbind (recordReads node start tick m) (\<lambda>m.
          rbind (recordWrites node start tick m) (\<lambda>m.
          Inr (m\<lparr>mt_activityStartTime := (mt_activityStartTime m)(et_id node := None)\<rparr>))))"

section \<open>The trace of the accesses\<close>

definition milli :: "Tick \<Rightarrow> rat" where
  "milli t = of_nat t / 1000"

definition access_events :: "mem_tracker \<Rightarrow> string \<Rightarrow> TensorId \<Rightarrow> MemActivity \<Rightarrow> trace_event list result" where
  "access_events m cat tensorName a =
     rbind (lookup_at (mt_tensorMapId m) tensorName) (\<lambda>tid.
     rbind (lookup_at (mt_tensorSize m) tensorName) (\<lambda>sz.
       let args = ReadWriteArgs sz (ma_nodeName a) (ma_nodeId a);
           event = (\<lambda>ph t. \<lparr>te_name = tensorName, te_cat = cat, te_ph = ph, te_ts = milli t, te_pid = mt_sysId m,
                            te_tid = Some tid, te_args = args\<rparr>)
       in Inr [event ''B'' (ma_start a), event ''E'' (ma_end a)]))"

definition push_events :: "trace_event list \<Rightarrow> mem_tracker \<Rightarrow> mem_tracker" where
  "push_events es m = m\<lparr>mt_serializedMemoryTrace := mt_serializedMemoryTrace m @ es\<rparr>"

definition trace_access :: "string \<Rightarrow> TensorId \<Rightarrow> MemActivity \<Rightarrow> mem_tracker \<Rightarrow> mem_tracker result" where
  "trace_access cat tensorName a m =
     rbind (access_events m cat tensorName a) (\<lambda>es. Inr (push_events es m))"

definition trace_reads :: "TensorId \<Rightarrow> mem_tracker \<Rightarrow> mem_tracker result" where
  "trace_reads tensorName m =
     (case map_of (mt_memReads m) tensorName of
        None \<Rightarrow> Inr m
      | Some as \<Rightarrow> fold_result (trace_access ''tensorRead'' tensorName) as m)"

definition trace_write :: "TensorId \<Rightarrow> mem_tracker \<Rightarrow> mem_tracker result" where
  "trace_write tensorName m =
     rbind (lookup_at (mt_memWrites m) tensorName) (\<lambda>a. trace_access ''tensorWrite'' tensorName a m)"

definition buildMemoryTrace :: "mem_tracker \<Rightarrow> mem_tracker result" where
  "buildMemoryTrace m =
     (let names = map fst (mt_tensorSize m);
          m = m\<lparr>mt_tensorMapId := zip names [0..<length names], mt_serializedMemoryTrace := []\<rparr>
      in rbind (fold_result trace_reads names m) (fold_result trace_write names))"

section \<open>The memory in use\<close>

definition lifetime_event :: "mem_tracker \<Rightarrow> string \<Rightarrow> TensorId \<Rightarrow> Tick \<Rightarrow> trace_event result" where
  "lifetime_event m ph tensorName t =
     rbind (lookup_at (mt_tensorMapId m) tensorName) (\<lambda>tid.
     rbind (lookup_at (mt_tensorSize m) tensorName) (\<lambda>sz.
     Inr \<lparr>te_name = tensorName, te_cat = ''tensorLifetime'', te_ph = ph, te_ts = milli t,
          te_pid = mt_sysId m + 1000000, te_tid = Some tid, te_args = SizeArgs sz\<rparr>))"

definition trace_lifetime :: "string \<Rightarrow> TensorId \<times> Tick \<Rightarrow> mem_tracker \<Rightarrow> mem_tracker result" where
  "trace_lifetime ph nt m =
     (case nt of (tensorName, t) \<Rightarrow> rbind (lifetime_event m ph tensorName t) (\<lambda>e. Inr (push_events [e] m)))"

definition first_writes :: "mem_tracker \<Rightarrow> (TensorId \<times> Tick) list" where
  "first_writes m = map (\<lambda>(tensorName, a). (tensorName, ma_start a)) (mt_memWrites m)"

definition last_reads :: "mem_tracker \<Rightarrow> (TensorId \<times> Tick) list" where
  "last_reads m = map (\<lambda>(tensorName, as). (tensorName, ma_end (last as))) (mt_memReads m)"

definition at_tick :: "Tick \<Rightarrow> (TensorId \<times> Tick) list \<Rightarrow> TensorId list" where
  "at_tick t xs = map fst (filter (\<lambda>(tensorName, t'). t' = t) xs)"

definition event_ticks :: "mem_tracker \<Rightarrow> Tick list" where
  "event_ticks m = remdups (sort (map snd (first_writes m @ last_reads m)))"

definition next_contents :: "mem_tracker \<Rightarrow> Tick \<Rightarrow> TensorId list \<Rightarrow> TensorId list" where
  "next_contents m t contents =
     fold removeAll (at_tick t (last_reads m)) (fold List.insert (at_tick t (first_writes m)) contents)"

definition total_size :: "mem_tracker \<Rightarrow> TensorId list \<Rightarrow> u64 result" where
  "total_size m contents =
     fold_result (\<lambda>tensorName totalSizeBytes.
       rbind (lookup_at (mt_tensorSize m) tensorName) (\<lambda>sz. Inr (totalSizeBytes + sz))) contents 0"

definition memory_event :: "mem_tracker \<Rightarrow> Tick \<Rightarrow> u64 \<Rightarrow> trace_event" where
  "memory_event m t bytes =
     \<lparr>te_name = ''GPU Memory Usage (MB)'', te_cat = ''GPU Memory'', te_ph = ''C'', te_ts = milli t,
      te_pid = mt_sysId m + 2000000, te_tid = None, te_args = MemoryArgs (rat_of_u64 bytes / (1024 * 1024))\<rparr>"

fun timeline_loop :: "Tick list \<Rightarrow> TensorId list \<Rightarrow> mem_tracker \<Rightarrow> mem_tracker result" where
  "timeline_loop [] contents m = Inr m"
| "timeline_loop (t # ts) contents m =
     (let contents = next_contents m t contents in
      rbind (total_size m contents) (\<lambda>totalSizeBytes.
      timeline_loop ts contents
        (push_events [memory_event m t totalSizeBytes]
           (m\<lparr>mt_memoryContents := mt_memoryContents m @ [(t, contents)],
              mt_memoryUsage := mt_memoryUsage m @ [(t, totalSizeBytes)]\<rparr>))))"

definition buildMemoryTimeline :: "mem_tracker \<Rightarrow> mem_tracker result" where
  "buildMemoryTimeline m =
     (let m = m\<lparr>mt_memoryContents := [], mt_memoryUsage := []\<rparr> in
      rbind (fold_result (trace_lifetime ''B'') (first_writes m) m) (\<lambda>m.
      rbind (fold_result (trace_lifetime ''E'') (last_reads m) m) (\<lambda>m.
      timeline_loop (event_ticks m) [] m)))"

definition getPeakMemUsage :: "mem_tracker \<Rightarrow> u64" where
  "getPeakMemUsage m = fold (\<lambda>(t, bytes) peak. max peak bytes) (mt_memoryUsage m) 0"

definition getPeakMemUsageFormatted :: "mem_tracker \<Rightarrow> rat \<times> string" where
  "getPeakMemUsageFormatted m =
     (let peak = getPeakMemUsage m; x = rat_of_u64 peak in
      if peak < 1024 then (x, ''B'')
      else if peak < 1024 * 1024 then (x / 1024, ''KB'')
      else if peak < 1024 * 1024 * 1024 then (x / (1024 * 1024), ''MB'')
      else if peak < 1024 * 1024 * 1024 * 1024 then (x / (1024 * 1024 * 1024), ''GB'')
      else (x / (1024 * 1024 * 1024 * 1024), ''TB''))"

end
