(* ===== verification/Workload.thy ===== *)
theory Workload
  imports Collective_Plans Workload_Statistics Local_Memory
begin

text \<open>
  The workload of a system: \<^verbatim>\<open>Workload.cc\<close>, \<^verbatim>\<open>HardwareResource.cc\<close> and \<^verbatim>\<open>Roofline.cc\<close>. The
  Chakra feeder, which reads the trace and resolves its dependencies, is a parameter. What a workload
  starts on the rest of the system is recorded with the state: every such event is answered by one
  later call of \<^verbatim>\<open>Workload::call\<close>. A receive whose message has arrived already may be answered at once, inside
  \<^verbatim>\<open>sim_recv\<close>, which is how the htsim and the ns-3 front ends do it; the analytical ones never do. What happens
  inside \<^verbatim>\<open>sim_recv\<close> is therefore a parameter of everything that may post a receive.
\<close>

section \<open>Roofline\<close>

record Roofline =
  rf_bandwidth :: rat
  rf_peak_perf :: rat

definition Roofline_new :: "rat \<Rightarrow> rat \<Rightarrow> Roofline" where
  "Roofline_new bandwidth peak_perf = \<lparr>rf_bandwidth = bandwidth, rf_peak_perf = peak_perf\<rparr>"

definition set_bandwidth :: "rat \<Rightarrow> Roofline \<Rightarrow> Roofline" where
  "set_bandwidth bandwidth r = r\<lparr>rf_bandwidth := bandwidth\<rparr>"

definition get_perf :: "rat \<Rightarrow> Roofline \<Rightarrow> rat" where
  "get_perf operational_intensity r = min (rf_bandwidth r * operational_intensity) (rf_peak_perf r)"

section \<open>Hardware resources\<close>

type_synonym u32 = "32 word"

record HardwareResource =
  hw_num_npus :: u32
  hw_num_in_flight_cpu_ops :: u32
  hw_num_in_flight_gpu_comp_ops :: u32
  hw_num_in_flight_gpu_comm_ops :: u32
  hw_num_cpu_ops :: u64
  hw_num_gpu_ops :: u64
  hw_num_gpu_comms :: u64
  hw_tics_cpu_ops :: u64
  hw_tics_gpu_ops :: u64
  hw_tics_gpu_comms :: u64
  hw_cpu_ops_node :: "nat set"
  hw_gpu_ops_node :: "nat set"
  hw_gpu_comms_node :: "nat set"

definition HardwareResource_new :: "u32 \<Rightarrow> HardwareResource" where
  "HardwareResource_new num_npus =
     \<lparr>hw_num_npus = num_npus, hw_num_in_flight_cpu_ops = 0, hw_num_in_flight_gpu_comp_ops = 0,
      hw_num_in_flight_gpu_comm_ops = 0, hw_num_cpu_ops = 0, hw_num_gpu_ops = 0, hw_num_gpu_comms = 0,
      hw_tics_cpu_ops = 0, hw_tics_gpu_ops = 0, hw_tics_gpu_comms = 0,
      hw_cpu_ops_node = {}, hw_gpu_ops_node = {}, hw_gpu_comms_node = {}\<rparr>"

definition occupy :: "et_node \<Rightarrow> HardwareResource \<Rightarrow> HardwareResource result" where
  "occupy node hw =
     (if et_is_cpu_op node then
        rbind (assert_that (hw_num_in_flight_cpu_ops hw = 0) ''num_in_flight_cpu_ops == 0'') (\<lambda>_.
        Inr (hw\<lparr>hw_num_in_flight_cpu_ops := hw_num_in_flight_cpu_ops hw + 1,
                hw_num_cpu_ops := hw_num_cpu_ops hw + 1,
                hw_cpu_ops_node := insert (et_id node) (hw_cpu_ops_node hw)\<rparr>))
      else if et_type node = COMP_NODE then
        rbind (assert_that (hw_num_in_flight_gpu_comp_ops hw = 0) ''num_in_flight_gpu_comp_ops == 0'') (\<lambda>_.
        Inr (hw\<lparr>hw_num_in_flight_gpu_comp_ops := hw_num_in_flight_gpu_comp_ops hw + 1,
                hw_num_gpu_ops := hw_num_gpu_ops hw + 1,
                hw_gpu_ops_node := insert (et_id node) (hw_gpu_ops_node hw)\<rparr>))
      else if et_type node = COMM_RECV_NODE then Inr hw
      else
        rbind (assert_that (hw_num_in_flight_gpu_comm_ops hw = 0) ''num_in_flight_gpu_comm_ops == 0'') (\<lambda>_.
        Inr (hw\<lparr>hw_num_in_flight_gpu_comm_ops := hw_num_in_flight_gpu_comm_ops hw + 1,
                hw_num_gpu_comms := hw_num_gpu_comms hw + 1,
                hw_gpu_comms_node := insert (et_id node) (hw_gpu_comms_node hw)\<rparr>)))"

definition release :: "et_node \<Rightarrow> HardwareResource \<Rightarrow> HardwareResource result" where
  "release node hw =
     (if et_is_cpu_op node then
        (let n = hw_num_in_flight_cpu_ops hw - 1 in
         rbind (assert_that (n = 0) ''num_in_flight_cpu_ops == 0'') (\<lambda>_.
         Inr (hw\<lparr>hw_num_in_flight_cpu_ops := n, hw_cpu_ops_node := hw_cpu_ops_node hw - {et_id node}\<rparr>)))
      else if et_type node = COMP_NODE then
        (let n = hw_num_in_flight_gpu_comp_ops hw - 1 in
         rbind (assert_that (n = 0) ''num_in_flight_gpu_comp_ops == 0'') (\<lambda>_.
         Inr (hw\<lparr>hw_num_in_flight_gpu_comp_ops := n, hw_gpu_ops_node := hw_gpu_ops_node hw - {et_id node}\<rparr>)))
      else if et_type node = COMM_RECV_NODE then Inr hw
      else
        (let n = hw_num_in_flight_gpu_comm_ops hw - 1 in
         rbind (assert_that (n = 0) ''num_in_flight_gpu_comm_ops == 0'') (\<lambda>_.
         Inr (hw\<lparr>hw_num_in_flight_gpu_comm_ops := n, hw_gpu_comms_node := hw_gpu_comms_node hw - {et_id node}\<rparr>))))"

definition is_available :: "et_node \<Rightarrow> HardwareResource \<Rightarrow> bool" where
  "is_available node hw =
     (if et_is_cpu_op node then hw_num_in_flight_cpu_ops hw = 0
      else if et_type node = COMP_NODE then hw_num_in_flight_gpu_comp_ops hw = 0
      else if hw_num_in_flight_gpu_comm_ops hw = 0 then True
      else et_type node = COMM_RECV_NODE)"

section \<open>State of a workload\<close>

text \<open>
  The feeder as the workload uses it: the nodes by id, for which ids there is one (the lookup returns a null
  pointer otherwise), and the dependency resolver with its state. What is configured in \<^verbatim>\<open>Sys\<close> and read here is \<open>wl_config\<close>.
\<close>

record 'r et_feeder =
  fd_lookupNode :: "nat \<Rightarrow> et_node"
  fd_has_node :: "nat \<Rightarrow> bool"
  fd_dependancy_free_nodes :: "'r \<Rightarrow> nat list"
  fd_ongoing_nodes :: "'r \<Rightarrow> nat list"
  fd_take_node :: "nat \<Rightarrow> 'r \<Rightarrow> 'r"
  fd_finish_node :: "nat \<Rightarrow> 'r \<Rightarrow> 'r"

record wl_config =
  wc_id :: int
  wc_total_nodes :: int
  wc_replay_only :: bool
  wc_roofline_enabled :: bool
  wc_track_local_mem :: bool
  wc_peak_perf :: rat
  wc_local_mem_bw :: rat
  wc_roofline :: Roofline
  wc_parse_pg :: "string \<Rightarrow> (string \<times> int list) list"

text \<open>
  What a workload starts: an event registered with \<^verbatim>\<open>Sys\<close>, an access of the remote memory, a collective
  (its data set, operation, size, dimensions, group, priority and node), a broadcast, which is a timer of
  its data set, and messages (node, size, peer, tag).
\<close>

datatype wl_event =
    Timer nat u64
  | RemoteMem nat u64
  | Collective int ComType u64 "bool list" "int option" nat nat
  | BroadcastTimer int u64
  | SendMessage nat u64 nat nat
  | RecvMessage nat u64 nat nat

record 'r workload =
  wl_dep :: 'r
  wl_comm_groups :: "int \<rightharpoonup> CommunicatorGroup"
  wl_hw_resource :: HardwareResource
  wl_stats :: Statistics
  wl_local_mem_usage_tracker :: "mem_tracker option"
  wl_collective_comm_node_id_map :: "int \<rightharpoonup> nat"
  wl_collective_comm_wrapper_map :: "int set"
  wl_is_finished :: bool
  wl_next_dataset :: int
  wl_events :: "wl_event list"
  wl_notified :: nat

text \<open>
  The groups of the configuration file, by name; \<open>None\<close> is the name \<^verbatim>\<open>empty\<close>. Later entries replace
  earlier ones.
\<close>

fun initialize_comm_groups ::
    "int \<Rightarrow> (string \<times> int list) list option \<Rightarrow> (int \<rightharpoonup> CommunicatorGroup) result" where
  "initialize_comm_groups sys_id None = Inr Map.empty"
| "initialize_comm_groups sys_id (Some entries) =
     fold_result (\<lambda>(comm_group_name, involved_NPUs) groups.
       rbind (stoi comm_group_name) (\<lambda>comm_group_id.
       rbind (CommunicatorGroup_new comm_group_id involved_NPUs sys_id) (\<lambda>cg.
       Inr (groups(comm_group_id \<mapsto> cg))))) entries Map.empty"

definition Workload_new ::
    "wl_config \<Rightarrow> (string \<times> int list) list option \<Rightarrow> int \<Rightarrow> 'r \<Rightarrow> 'r workload result" where
  "Workload_new cfg entries next_dataset dep =
     rbind (initialize_comm_groups (wc_id cfg) entries) (\<lambda>groups.
     Inr \<lparr>wl_dep = dep, wl_comm_groups = groups, wl_hw_resource = HardwareResource_new 1, wl_stats = Statistics_new,
          wl_local_mem_usage_tracker = Some (mem_tracker_new (nat (wc_id cfg))),
          wl_collective_comm_node_id_map = Map.empty, wl_collective_comm_wrapper_map = {}, wl_is_finished = False,
          wl_next_dataset = next_dataset, wl_events = [], wl_notified = 0\<rparr>)"

section \<open>Issuing a node\<close>

definition start_event :: "wl_event \<Rightarrow> 'r workload \<Rightarrow> 'r workload" where
  "start_event e w = w\<lparr>wl_events := wl_events w @ [e]\<rparr>"

definition on_hw :: "(HardwareResource \<Rightarrow> HardwareResource result) \<Rightarrow> 'r workload \<Rightarrow> 'r workload result" where
  "on_hw f w = rbind (f (wl_hw_resource w)) (\<lambda>hw. Inr (w\<lparr>wl_hw_resource := hw\<rparr>))"

definition on_stats :: "(Statistics \<Rightarrow> Statistics result) \<Rightarrow> 'r workload \<Rightarrow> 'r workload result" where
  "on_stats f w = rbind (f (wl_stats w)) (\<lambda>s. Inr (w\<lparr>wl_stats := s\<rparr>))"

definition on_mem :: "wl_config \<Rightarrow> (mem_tracker \<Rightarrow> mem_tracker result) \<Rightarrow> 'r workload \<Rightarrow> 'r workload result" where
  "on_mem cfg f w =
     (if wc_track_local_mem cfg then
        (case wl_local_mem_usage_tracker w of
           None \<Rightarrow> Inl (NullDeref ''local_mem_usage_tracker'')
         | Some m \<Rightarrow> rbind (f m) (\<lambda>m. Inr (w\<lparr>wl_local_mem_usage_tracker := Some m\<rparr>)))
      else Inr w)"

definition skip_invalid :: "wl_config \<Rightarrow> 'r et_feeder \<Rightarrow> Tick \<Rightarrow> et_node \<Rightarrow> 'r workload \<Rightarrow> 'r workload result" where
  "skip_invalid cfg fd now node w =
     rbind (on_hw (release node) (w\<lparr>wl_dep := fd_finish_node fd (et_id node) (wl_dep w)\<rparr>)) (\<lambda>w.
     rbind (on_stats (record_end node now) w) (\<lambda>w.
     on_mem cfg (recordEnd node now) w))"

text \<open>An exception while the groups of a node are read ends the reading; the node is then skipped.\<close>

fun add_groups :: "wl_config \<Rightarrow> (string \<times> int list) list \<Rightarrow> 'r workload \<Rightarrow> 'r workload result" where
  "add_groups cfg [] w = Inr w"
| "add_groups cfg ((pgName, ranks) # items) w =
     (let involved_NPUs = (if ranks = [] then map int [0..<nat (wc_total_nodes cfg)] else ranks) in
      case stoi pgName of
        Inl _ \<Rightarrow> Inr w
      | Inr pgNameInt \<Rightarrow>
          rbind (CommunicatorGroup_new (pgNameInt + 1) involved_NPUs (wc_id cfg)) (\<lambda>cg.
          add_groups cfg items (w\<lparr>wl_comm_groups := (wl_comm_groups w)(pgNameInt \<mapsto> cg)\<rparr>)))"

definition issue_pytorch_pg_metadata :: "wl_config \<Rightarrow> et_node \<Rightarrow> 'r workload \<Rightarrow> 'r workload result" where
  "issue_pytorch_pg_metadata cfg node w =
     (let pg_info = et_inputs_values node in
      if pg_info = [] then Inr w
      else if length pg_info < 2 then Inl (OutOfRange ''substr'')
      else add_groups cfg (wc_parse_pg cfg
             (if length pg_info < 4 then drop 2 pg_info else take (length pg_info - 4) (drop 2 pg_info))) w)"

definition issue_metadata :: "wl_config \<Rightarrow> 'r et_feeder \<Rightarrow> Tick \<Rightarrow> et_node \<Rightarrow> 'r workload \<Rightarrow> 'r workload result" where
  "issue_metadata cfg fd now node w =
     rbind (issue_pytorch_pg_metadata cfg node w) (skip_invalid cfg fd now node)"

definition replay_runtime :: "et_node \<Rightarrow> u64" where
  "replay_runtime node = (if et_runtime node \<noteq> 0 then et_runtime node * 1000 else 1)"

definition count_tics :: "et_node \<Rightarrow> u64 \<Rightarrow> 'r workload \<Rightarrow> 'r workload" where
  "count_tics node runtime w =
     (let hw = wl_hw_resource w in
      w\<lparr>wl_hw_resource :=
          (if et_is_cpu_op node then hw\<lparr>hw_tics_cpu_ops := hw_tics_cpu_ops hw + runtime\<rparr>
           else hw\<lparr>hw_tics_gpu_ops := hw_tics_gpu_ops hw + runtime\<rparr>)\<rparr>)"

definition issue_replay :: "et_node \<Rightarrow> 'r workload \<Rightarrow> 'r workload result" where
  "issue_replay node w =
     Inr (start_event (Timer (et_id node) (replay_runtime node)) (count_tics node (replay_runtime node) w))"

definition issue_remote_mem :: "et_node \<Rightarrow> 'r workload \<Rightarrow> 'r workload result" where
  "issue_remote_mem node w = Inr (start_event (RemoteMem (et_id node) (et_tensor_size node)) w)"

text \<open>
  The runtime under the roofline model, in nanoseconds. A node without operations has performance 0 and
  divides 0 by 0; the conversion of a double that is not a number or does not fit is undefined.
\<close>

definition u64_of_rat :: "rat \<Rightarrow> u64 result" where
  "u64_of_rat x =
     (if x \<le> -1 \<or> 2 ^ 64 \<le> x then Inl (OutOfRange ''static_cast<uint64_t>'') else Inr (of_int (max 0 \<lfloor>x\<rfloor>)))"

definition operational_intensity_of :: "et_node \<Rightarrow> rat" where
  "operational_intensity_of node = rat_of_u64 (et_num_ops node) / rat_of_u64 (et_tensor_size node)"

definition roofline_runtime :: "rat \<Rightarrow> et_node \<Rightarrow> u64 result" where
  "roofline_runtime perf node =
     (if perf = 0 then Inl (DivisionByZero ''num_ops / perf'')
      else u64_of_rat (rat_of_u64 (et_num_ops node) / perf * 10 ^ 9))"

definition issue_comp :: "wl_config \<Rightarrow> 'r et_feeder \<Rightarrow> Tick \<Rightarrow> et_node \<Rightarrow> 'r workload \<Rightarrow> 'r workload result" where
  "issue_comp cfg fd now node w =
     (if \<not> wc_roofline_enabled cfg then Inl (RuntimeError ''Roofline model is not enabled for non-replay comp'')
      else if et_is_cpu_op node then Inl (RuntimeError ''Roofline is only available for GPU nodes'')
      else if et_tensor_size node = 0 then skip_invalid cfg fd now node w
      else
        (let operational_intensity = operational_intensity_of node;
             perf = get_perf operational_intensity (wc_roofline cfg)
         in rbind (roofline_runtime perf node) (\<lambda>runtime.
            on_stats (change_stat (et_id node) (\<lambda>op_stat. op_stat\<lparr>
                os_operation_intensity := Some operational_intensity,
                os_compute_utilization := Some (perf / wc_peak_perf cfg),
                os_memory_utilization := Some (perf / operational_intensity / wc_local_mem_bw cfg),
                os_is_memory_bound := Some (perf < wc_peak_perf cfg)\<rparr>))
              (start_event (Timer (et_id node) runtime) (count_tics node runtime w)))))"

definition involved_dims_of :: "et_node \<Rightarrow> bool list result" where
  "involved_dims_of node =
     (case et_attr node ''involved_dim'' of
        None \<Rightarrow> Inr (replicate 4 True)
      | Some (BoolListAttr dims) \<Rightarrow> Inr dims
      | Some _ \<Rightarrow> Inl (ProcessExit ''Expected bool_list in involved_dim''))"

text \<open>A group is referred to by its key in \<^verbatim>\<open>comm_groups\<close>.\<close>

definition extract_comm_group :: "et_node \<Rightarrow> 'r workload \<Rightarrow> int option result" where
  "extract_comm_group node w =
     (let comm_group_name = et_pg_name_or node [] in
      if comm_group_name = [] \<or> comm_group_name = ''0'' then Inr None
      else rbind (stoi comm_group_name) (\<lambda>comm_group_id.
        case wl_comm_groups w comm_group_id of
          None \<Rightarrow> Inl (ProcessExit ''communicator group not found'')
        | Some cg \<Rightarrow> Inr (Some comm_group_id)))"

fun com_type_of :: "ChakraCollectiveCommType \<Rightarrow> ComType option" where
  "com_type_of CT_ALL_REDUCE = Some All_Reduce"
| "com_type_of CT_ALL_TO_ALL = Some All_to_All"
| "com_type_of CT_ALL_GATHER = Some All_Gather"
| "com_type_of CT_REDUCE_SCATTER = Some Reduce_Scatter"
| "com_type_of _ = None"

definition set_comm_size :: "et_node \<Rightarrow> Statistics \<Rightarrow> Statistics result" where
  "set_comm_size node = change_stat (et_id node) (\<lambda>op_stat. op_stat\<lparr>os_comm_size := Some (et_comm_size node)\<rparr>)"

definition watch_dataset :: "et_node \<Rightarrow> (int \<Rightarrow> wl_event) \<Rightarrow> 'r workload \<Rightarrow> 'r workload" where
  "watch_dataset node ev w =
     (let my_id = wl_next_dataset w in
      start_event (ev my_id)
        (w\<lparr>wl_next_dataset := my_id + 1,
           wl_collective_comm_node_id_map := (wl_collective_comm_node_id_map w)(my_id \<mapsto> et_id node),
           wl_collective_comm_wrapper_map := insert my_id (wl_collective_comm_wrapper_map w)\<rparr>))"

definition issue_coll_comm :: "et_node \<Rightarrow> 'r workload \<Rightarrow> 'r workload result" where
  "issue_coll_comm node w =
     rbind (involved_dims_of node) (\<lambda>dims.
     rbind (extract_comm_group node w) (\<lambda>comm_group.
     rbind (on_stats (set_comm_size node) w) (\<lambda>w.
     case com_type_of (et_comm_type node) of
       Some ct \<Rightarrow>
         Inr (watch_dataset node
           (\<lambda>my_id. Collective my_id ct (et_comm_size node) dims comm_group (et_comm_priority node) (et_id node)) w)
     | None \<Rightarrow>
         if et_comm_type node = CT_BROADCAST
         then Inr (watch_dataset node (\<lambda>my_id. BroadcastTimer my_id (replay_runtime node)) w)
         else Inl (RuntimeError ''Unsupported collective comm type''))))"

definition issue_send_comm :: "wl_config \<Rightarrow> et_node \<Rightarrow> 'r workload \<Rightarrow> 'r workload result" where
  "issue_send_comm cfg node w =
     (if int (et_comm_src_or node (nat (wc_id cfg))) \<noteq> wc_id cfg
      then Inl (RuntimeError ''Send node should be issued by the sender'')
      else rbind (on_stats (set_comm_size node) w) (\<lambda>w.
        Inr (start_event (SendMessage (et_id node) (et_comm_size node) (et_comm_dst node) (et_comm_tag node)) w)))"

text \<open>
  The call of \<^verbatim>\<open>front_end_sim_recv\<close> for a node, with what the front end does inside it. A receive that is
  answered later only joins what is outstanding.
\<close>

type_synonym 'r recv_call = "et_node \<Rightarrow> 'r workload \<Rightarrow> 'r workload result"

definition recv_later :: "'r recv_call" where
  "recv_later node w =
     Inr (start_event (RecvMessage (et_id node) (et_comm_size node) (et_comm_src node) (et_comm_tag node)) w)"

definition issue_recv_comm :: "wl_config \<Rightarrow> 'r recv_call \<Rightarrow> et_node \<Rightarrow> 'r workload \<Rightarrow> 'r workload result" where
  "issue_recv_comm cfg recv node w =
     (if int (et_comm_dst_or node (nat (wc_id cfg))) \<noteq> wc_id cfg
      then Inl (RuntimeError ''Recv node should be issued by the receiver'')
      else rbind (on_stats (set_comm_size node) w) (recv node))"

definition issue_comm :: "wl_config \<Rightarrow> 'r recv_call \<Rightarrow> et_node \<Rightarrow> 'r workload \<Rightarrow> 'r workload result" where
  "issue_comm cfg recv node w =
     (if et_is_cpu_op_or node False then Inl (RuntimeError ''Comm node should not be on CPU'')
      else if et_type node = COMM_COLL_NODE then issue_coll_comm node w
      else if et_type node = COMM_SEND_NODE then issue_send_comm cfg node w
      else if et_type node = COMM_RECV_NODE then issue_recv_comm cfg recv node w
      else Inl (RuntimeError ''Unknown comm node type''))"

definition dispatch ::
    "wl_config \<Rightarrow> 'r et_feeder \<Rightarrow> 'r recv_call \<Rightarrow> Tick \<Rightarrow> et_node \<Rightarrow> 'r workload \<Rightarrow> 'r workload result" where
  "dispatch cfg fd recv now node w =
     (if wc_replay_only cfg then issue_replay node w
      else if et_type node = MEM_LOAD_NODE \<or> et_type node = MEM_STORE_NODE then issue_remote_mem node w
      else if et_type node = COMP_NODE then
        (if \<not> wc_roofline_enabled cfg \<or> et_is_cpu_op_or node False then issue_replay node w
         else issue_comp cfg fd now node w)
      else if et_type node = COMM_COLL_NODE \<or> et_type node = COMM_SEND_NODE \<or> et_type node = COMM_RECV_NODE
      then issue_comm cfg recv node w
      else if et_type node = INVALID_NODE then skip_invalid cfg fd now node w
      else if et_type node = METADATA_NODE then issue_metadata cfg fd now node w
      else Inl (ProcessExit ''Unknown node type''))"

definition issue ::
    "wl_config \<Rightarrow> 'r et_feeder \<Rightarrow> 'r recv_call \<Rightarrow> Tick \<Rightarrow> et_node \<Rightarrow> 'r workload \<Rightarrow> 'r workload result" where
  "issue cfg fd recv now node w =
     rbind (on_hw (occupy node) (w\<lparr>wl_dep := fd_take_node fd (et_id node) (wl_dep w)\<rparr>)) (\<lambda>w.
     rbind (on_stats (record_start node now) w) (\<lambda>w.
     rbind (on_mem cfg (\<lambda>m. Inr (recordStart node now m)) w) (\<lambda>w.
     dispatch cfg fd recv now node w)))"

text \<open>
  The nodes without open dependencies are collected first, in a \<^verbatim>\<open>std::set\<close>, and then visited. When a
  receive is answered at once, the nested call of the workload visits the nodes that are free then, and
  the visit of those collected here goes on after it.
\<close>

definition issue_dep_free_nodes ::
    "wl_config \<Rightarrow> 'r et_feeder \<Rightarrow> 'r recv_call \<Rightarrow> Tick \<Rightarrow> 'r workload \<Rightarrow> 'r workload result" where
  "issue_dep_free_nodes cfg fd recv now w =
     fold_result (\<lambda>node_id w.
       if \<not> fd_has_node fd node_id then Inl (NullDeref ''node'')
       else
         (let node = fd_lookupNode fd node_id in
          if is_available node (wl_hw_resource w) then issue cfg fd recv now node w else Inr w))
       (remdups (sort (fd_dependancy_free_nodes fd (wl_dep w)))) w"

section \<open>The call of a workload\<close>

datatype wl_data = NoData | NodeData nat | IntData int u64

definition set_bandwidth_of :: "nat \<Rightarrow> Tick \<Rightarrow> Statistics \<Rightarrow> Statistics result" where
  "set_bandwidth_of node_id execution_time s =
     rbind (get_operator_statistics node_id s) (\<lambda>op_stat.
       case os_comm_size op_stat of
         Some comm_size \<Rightarrow>
           if execution_time > 0
           then change_stat node_id (\<lambda>op_stat. op_stat\<lparr>os_network_bandwidth :=
                  Some (rat_of_u64 comm_size / of_nat execution_time)\<rparr>) s
           else Inr s
       | None \<Rightarrow> Inr s)"

definition execution_time_of :: "nat \<Rightarrow> Statistics \<Rightarrow> Tick result" where
  "execution_time_of node_id s =
     rbind (get_operator_statistics node_id s) (\<lambda>op_stat. Inr (os_end_time op_stat - os_start_time op_stat))"

text \<open>The end of a node: resources, statistics and dependencies, then the nodes that have become free.\<close>

definition finish_node ::
    "wl_config \<Rightarrow> 'r et_feeder \<Rightarrow> 'r recv_call \<Rightarrow> Tick \<Rightarrow> nat \<Rightarrow> (Statistics \<Rightarrow> Statistics result) \<Rightarrow>
     'r workload \<Rightarrow> 'r workload result" where
  "finish_node cfg fd recv now node_id stats w =
     (let node = fd_lookupNode fd node_id in
      if \<not> fd_has_node fd node_id then Inl (NullDeref ''node'')
      else
      rbind (on_hw (release node) w) (\<lambda>w.
      rbind (on_stats (record_end node now) w) (\<lambda>w.
      rbind (on_stats stats w) (\<lambda>w.
      rbind (on_mem cfg (recordEnd node now) w) (\<lambda>w.
      issue_dep_free_nodes cfg fd recv now (w\<lparr>wl_dep := fd_finish_node fd node_id (wl_dep w)\<rparr>))))))"

definition handle ::
    "wl_config \<Rightarrow> 'r et_feeder \<Rightarrow> 'r recv_call \<Rightarrow> Tick \<Rightarrow> EventType \<Rightarrow> wl_data \<Rightarrow> 'r workload \<Rightarrow> 'r workload result" where
  "handle cfg fd recv now event data w =
     (case data of
        NoData \<Rightarrow>
          if event = CollectiveCommunicationFinished then Inl (NullDeref ''int_data'')
          else issue_dep_free_nodes cfg fd recv now w
      | IntData coll_comm_id execution_time \<Rightarrow>
          if event = CollectiveCommunicationFinished then
            (let hw = wl_hw_resource w;
                 w = w\<lparr>wl_hw_resource := hw\<lparr>hw_tics_gpu_comms := hw_tics_gpu_comms hw + execution_time\<rparr>\<rparr>;
                 node_id = (case wl_collective_comm_node_id_map w coll_comm_id of None \<Rightarrow> 0 | Some i \<Rightarrow> i)
             in rbind (finish_node cfg fd recv now node_id (set_bandwidth_of node_id (unat execution_time)) w) (\<lambda>w.
                Inr (w\<lparr>wl_collective_comm_wrapper_map := wl_collective_comm_wrapper_map w - {coll_comm_id}\<rparr>)))
          else Inl (NullDeref ''wlhd'')
      | NodeData node_id \<Rightarrow>
          if event = CollectiveCommunicationFinished then Inl (NullDeref ''int_data'')
          else finish_node cfg fd recv now node_id
            (\<lambda>s. if event = PacketSent \<or> event = PacketReceived
                 then rbind (execution_time_of node_id s) (\<lambda>t. set_bandwidth_of node_id t s)
                 else Inr s) w)"

definition all_done :: "'r et_feeder \<Rightarrow> 'r workload \<Rightarrow> bool" where
  "all_done fd w \<longleftrightarrow>
     fd_dependancy_free_nodes fd (wl_dep w) = [] \<and> fd_ongoing_nodes fd (wl_dep w) = [] \<and>
     hw_num_in_flight_cpu_ops (wl_hw_resource w) = 0 \<and> hw_num_in_flight_gpu_comp_ops (wl_hw_resource w) = 0 \<and>
     hw_num_in_flight_gpu_comm_ops (wl_hw_resource w) = 0"

definition report :: "wl_config \<Rightarrow> 'r workload \<Rightarrow> 'r workload result" where
  "report cfg w =
     rbind (on_stats (post_processing (wc_roofline_enabled cfg)) w) (\<lambda>w.
     rbind (on_mem cfg (\<lambda>m. rbind (buildMemoryTrace m) buildMemoryTimeline) w) (\<lambda>w.
     Inr (if wc_track_local_mem cfg then w\<lparr>wl_local_mem_usage_tracker := None\<rparr> else w)))"

definition Workload_call_with ::
    "wl_config \<Rightarrow> 'r et_feeder \<Rightarrow> 'r recv_call \<Rightarrow> Tick \<Rightarrow> EventType \<Rightarrow> wl_data \<Rightarrow> 'r workload \<Rightarrow> 'r workload result" where
  "Workload_call_with cfg fd recv now event data w =
     (if wl_is_finished w then Inr w
      else rbind (handle cfg fd recv now event data w) (\<lambda>w.
        if all_done fd w
        then rbind (report cfg w) (\<lambda>w. Inr (w\<lparr>wl_notified := wl_notified w + 1, wl_is_finished := True\<rparr>))
        else Inr w))"

text \<open>
  The call with its re-entry: \<open>arrived\<close> says which receives the front end answers at once, by a nested call
  of the workload for the node of the receive. The nesting is bounded by the first argument: at the
  innermost level no message has arrived. Every execution that returns has a bound.
\<close>

type_synonym 'r arrivals = "Tick \<Rightarrow> et_node \<Rightarrow> 'r workload \<Rightarrow> bool"

definition recv_now ::
    "'r arrivals \<Rightarrow> Tick \<Rightarrow> (EventType \<Rightarrow> wl_data \<Rightarrow> 'r workload \<Rightarrow> 'r workload result) \<Rightarrow> 'r recv_call" where
  "recv_now arrived now call node w =
     (if arrived now node w then call PacketReceived (NodeData (et_id node)) w else recv_later node w)"

primrec Workload_call ::
    "nat \<Rightarrow> 'r arrivals \<Rightarrow> wl_config \<Rightarrow> 'r et_feeder \<Rightarrow> Tick \<Rightarrow> EventType \<Rightarrow> wl_data \<Rightarrow> 'r workload \<Rightarrow> 'r workload result" where
  "Workload_call 0 arrived cfg fd now = Workload_call_with cfg fd recv_later now"
| "Workload_call (Suc depth) arrived cfg fd now =
     Workload_call_with cfg fd (recv_now arrived now (Workload_call depth arrived cfg fd now)) now"

definition fire ::
    "nat \<Rightarrow> 'r arrivals \<Rightarrow> wl_config \<Rightarrow> 'r et_feeder \<Rightarrow> Tick \<Rightarrow> 'r workload \<Rightarrow> 'r workload result" where
  "fire depth arrived cfg fd now w = Workload_call depth arrived cfg fd now General NoData w"

text \<open>A front end that answers every receive by a later call, as the analytical front ends do.\<close>

definition answers_later :: "'r arrivals \<Rightarrow> bool" where
  "answers_later arrived \<longleftrightarrow> (\<forall>now node w. \<not> arrived now node w)"

lemma Workload_call_later:
  assumes "answers_later arrived"
  shows "Workload_call depth arrived cfg fd now = Workload_call_with cfg fd recv_later now"
proof -
  have "recv_now arrived now call = recv_later" for call
    using assms by (intro ext) (simp add: answers_later_def recv_now_def)
  then show ?thesis by (cases depth) simp_all
qed

end
