(* ===== verification/Workload_Invariant.thy ===== *)
theory Workload_Invariant
  imports Workload "HOL-Library.Multiset"
begin

text \<open>
  The invariant of a workload: the ongoing nodes, the occupied resources, the records of the operators
  and the outstanding events fit each other; and its preservation by the end of a node and the issue of
  the nodes that have become free.
\<close>

section \<open>The dependency resolver\<close>

text \<open>
  What the workload relies on: \<open>I\<close> relates the state of the resolver to the finished and the ongoing
  nodes. Free are the nodes that are neither, and whose parents are all finished; \<open>take_node\<close> makes a
  free node ongoing, \<open>finish_node\<close> an ongoing one finished; and a node of the trace is
  found under its id.
\<close>

type_synonym 'r resolver_view = "'r \<Rightarrow> nat set \<Rightarrow> nat set \<Rightarrow> bool"

definition resolver_laws :: "'r et_feeder \<Rightarrow> nat set \<Rightarrow> (nat \<Rightarrow> nat set) \<Rightarrow> 'r resolver_view \<Rightarrow> bool" where
  "resolver_laws fd N par I \<longleftrightarrow>
     (\<forall>n \<in> N. fd_has_node fd n \<and> et_id (fd_lookupNode fd n) = n) \<and>
     (\<forall>r D R. I r D R \<longrightarrow>
        set (fd_dependancy_free_nodes fd r) = {n \<in> N. n \<notin> D \<and> n \<notin> R \<and> par n \<subseteq> D} \<and> set (fd_ongoing_nodes fd r) = R) \<and>
     (\<forall>r D R n. I r D R \<longrightarrow> n \<in> N \<longrightarrow> n \<notin> D \<longrightarrow> n \<notin> R \<longrightarrow> par n \<subseteq> D \<longrightarrow> I (fd_take_node fd n r) D (insert n R)) \<and>
     (\<forall>r D R n. I r D R \<longrightarrow> n \<in> R \<longrightarrow> I (fd_finish_node fd n r) (insert n D) (R - {n}))"

section \<open>Resources\<close>

datatype hw_unit = UCpu | UComp | UComm | UNone

definition unit_of :: "et_node \<Rightarrow> hw_unit" where
  "unit_of node =
     (if et_is_cpu_op node then UCpu else if et_type node = COMP_NODE then UComp
      else if et_type node = COMM_RECV_NODE then UNone else UComm)"

fun in_flight :: "hw_unit \<Rightarrow> HardwareResource \<Rightarrow> u32" where
  "in_flight UCpu hw = hw_num_in_flight_cpu_ops hw"
| "in_flight UComp hw = hw_num_in_flight_gpu_comp_ops hw"
| "in_flight UComm hw = hw_num_in_flight_gpu_comm_ops hw"
| "in_flight UNone hw = 0"

fun nodes_on :: "hw_unit \<Rightarrow> HardwareResource \<Rightarrow> nat set" where
  "nodes_on UCpu hw = hw_cpu_ops_node hw"
| "nodes_on UComp hw = hw_gpu_ops_node hw"
| "nodes_on UComm hw = hw_gpu_comms_node hw"
| "nodes_on UNone hw = {}"

definition using_unit :: "'r et_feeder \<Rightarrow> nat set \<Rightarrow> hw_unit \<Rightarrow> nat set" where
  "using_unit fd R k = {n \<in> R. k \<noteq> UNone \<and> unit_of (fd_lookupNode fd n) = k}"

definition hw_ok :: "'r et_feeder \<Rightarrow> nat set \<Rightarrow> HardwareResource \<Rightarrow> bool" where
  "hw_ok fd R hw \<longleftrightarrow>
     (\<forall>k. nodes_on k hw = using_unit fd R k \<and>
          (using_unit fd R k = {} \<and> in_flight k hw = 0 \<or> (\<exists>n. using_unit fd R k = {n}) \<and> in_flight k hw = 1))"

lemma using_unit_insert: "using_unit fd (insert n R) k =
    (if k \<noteq> UNone \<and> unit_of (fd_lookupNode fd n) = k then insert n (using_unit fd R k) else using_unit fd R k)"
  by (auto simp: using_unit_def)

lemma using_unit_remove: "using_unit fd (R - {n}) k = using_unit fd R k - {n}"
  by (auto simp: using_unit_def)

lemma is_available_iff:
  assumes "hw_ok fd R hw"
  shows "is_available (fd_lookupNode fd n) hw \<longleftrightarrow> using_unit fd R (unit_of (fd_lookupNode fd n)) = {}"
proof -
  have "is_available (fd_lookupNode fd n) hw \<longleftrightarrow> in_flight (unit_of (fd_lookupNode fd n)) hw = 0"
    by (auto simp: is_available_def unit_of_def)
  moreover have "in_flight k hw = 0 \<longleftrightarrow> using_unit fd R k = {}" for k
    using assms unfolding hw_ok_def by (metis insert_not_empty one_neq_zero)
  ultimately show ?thesis by simp
qed

lemma occupy_ok:
  assumes "hw_ok fd R hw" "n \<notin> R" "et_id (fd_lookupNode fd n) = n" "is_available (fd_lookupNode fd n) hw"
  shows "\<exists>hw'. occupy (fd_lookupNode fd n) hw = Inr hw' \<and> hw_ok fd (insert n R) hw'"
proof -
  let ?node = "fd_lookupNode fd n" and ?k = "unit_of (fd_lookupNode fd n)"
  have free: "using_unit fd R ?k = {}" using assms(1,4) by (simp add: is_available_iff)
  have zero: "in_flight ?k hw = 0" using assms(1) free unfolding hw_ok_def by (metis insert_not_empty)
  have "\<exists>hw'. occupy ?node hw = Inr hw' \<and>
      (\<forall>k. nodes_on k hw' = (if k = ?k \<and> k \<noteq> UNone then insert n (nodes_on k hw) else nodes_on k hw) \<and>
           in_flight k hw' = (if k = ?k \<and> k \<noteq> UNone then 1 else in_flight k hw))"
  proof -
    have all: "(\<forall>k. P k) \<longleftrightarrow> P UCpu \<and> P UComp \<and> P UComm \<and> P UNone" for P
      by (metis hw_unit.exhaust)
    show ?thesis
      using zero assms(3) by (simp add: all occupy_def unit_of_def split: if_splits)
  qed
  then obtain hw' where hw': "occupy ?node hw = Inr hw'"
    "\<And>k. nodes_on k hw' = (if k = ?k \<and> k \<noteq> UNone then insert n (nodes_on k hw) else nodes_on k hw)"
    "\<And>k. in_flight k hw' = (if k = ?k \<and> k \<noteq> UNone then 1 else in_flight k hw)" by blast
  have "hw_ok fd (insert n R) hw'"
    unfolding hw_ok_def
  proof
    fix k
    show "nodes_on k hw' = using_unit fd (insert n R) k \<and>
        (using_unit fd (insert n R) k = {} \<and> in_flight k hw' = 0 \<or>
         (\<exists>n'. using_unit fd (insert n R) k = {n'}) \<and> in_flight k hw' = 1)"
      using assms(1) [unfolded hw_ok_def, rule_format, of k] free hw'(2,3) [of k]
      by (cases "k = ?k \<and> k \<noteq> UNone") (auto simp: using_unit_insert)
  qed
  then show ?thesis using hw'(1) by blast
qed

lemma release_ok:
  assumes "hw_ok fd R hw" "n \<in> R" "et_id (fd_lookupNode fd n) = n"
  shows "\<exists>hw'. release (fd_lookupNode fd n) hw = Inr hw' \<and> hw_ok fd (R - {n}) hw'"
proof -
  let ?node = "fd_lookupNode fd n" and ?k = "unit_of (fd_lookupNode fd n)"
  have mine: "?k \<noteq> UNone \<Longrightarrow> using_unit fd R ?k = {n} \<and> in_flight ?k hw = 1"
  proof -
    assume "?k \<noteq> UNone"
    then have "n \<in> using_unit fd R ?k" using assms(2) by (simp add: using_unit_def)
    then show ?thesis using assms(1) [unfolded hw_ok_def, rule_format, of ?k] by auto
  qed
  have other: "k \<noteq> ?k \<or> k = UNone \<Longrightarrow> n \<notin> using_unit fd R k" for k by (auto simp: using_unit_def)
  have "\<exists>hw'. release ?node hw = Inr hw' \<and>
      (\<forall>k. nodes_on k hw' = (if k = ?k \<and> k \<noteq> UNone then nodes_on k hw - {n} else nodes_on k hw) \<and>
           in_flight k hw' = (if k = ?k \<and> k \<noteq> UNone then 0 else in_flight k hw))"
  proof -
    have all: "(\<forall>k. P k) \<longleftrightarrow> P UCpu \<and> P UComp \<and> P UComm \<and> P UNone" for P
      by (metis hw_unit.exhaust)
    show ?thesis
      using mine assms(3)
      by (cases "et_is_cpu_op ?node"; cases "et_type ?node = COMP_NODE"; cases "et_type ?node = COMM_RECV_NODE")
        (simp_all add: all release_def unit_of_def Let_def)
  qed
  then obtain hw' where hw': "release ?node hw = Inr hw'"
    "\<And>k. nodes_on k hw' = (if k = ?k \<and> k \<noteq> UNone then nodes_on k hw - {n} else nodes_on k hw)"
    "\<And>k. in_flight k hw' = (if k = ?k \<and> k \<noteq> UNone then 0 else in_flight k hw)" by blast
  have "hw_ok fd (R - {n}) hw'"
    unfolding hw_ok_def
  proof
    fix k
    show "nodes_on k hw' = using_unit fd (R - {n}) k \<and>
        (using_unit fd (R - {n}) k = {} \<and> in_flight k hw' = 0 \<or>
         (\<exists>n'. using_unit fd (R - {n}) k = {n'}) \<and> in_flight k hw' = 1)"
      using assms(1) [unfolded hw_ok_def, rule_format, of k] mine other [of k] hw'(2,3) [of k]
      unfolding using_unit_remove by (cases "k = ?k \<and> k \<noteq> UNone") auto
  qed
  then show ?thesis using hw'(1) by blast
qed

section \<open>Records of the operators\<close>

text \<open>
  Exactly the finished and the ongoing nodes have a record, and each has started once; an ongoing node
  has no end; and a node started when its parents had ended.
\<close>

definition stat_ok ::
    "'r et_feeder \<Rightarrow> (nat \<Rightarrow> nat set) \<Rightarrow> Tick \<Rightarrow> nat set \<Rightarrow> (nat \<rightharpoonup> OperatorStatistics) \<Rightarrow> nat \<Rightarrow> OperatorStatistics \<Rightarrow> bool" where
  "stat_ok fd par now D ops n stat \<longleftrightarrow>
     get_operator_type (fd_lookupNode fd n) = Inr (os_type stat) \<and> os_start_time stat \<le> now \<and>
     (if n \<in> D then os_start_time stat \<le> os_end_time stat \<and> os_end_time stat \<le> now else os_end_time stat = INVALID_TICK) \<and>
     (\<forall>p \<in> par n. p \<in> D \<and> (\<exists>sp. ops p = Some sp \<and> os_end_time sp \<le> os_start_time stat))"

definition stats_ok :: "'r et_feeder \<Rightarrow> (nat \<Rightarrow> nat set) \<Rightarrow> Tick \<Rightarrow> nat set \<Rightarrow> nat set \<Rightarrow> Statistics \<Rightarrow> bool" where
  "stats_ok fd par now D R s \<longleftrightarrow>
     distinct (map fst (st_operator_statistics s)) \<and> dom (map_of (st_operator_statistics s)) = D \<union> R \<and>
     distinct (map snd (st_start_times s)) \<and> set (map snd (st_start_times s)) = D \<union> R \<and>
     (\<forall>n stat. map_of (st_operator_statistics s) n = Some stat \<longrightarrow>
        stat_ok fd par now D (map_of (st_operator_statistics s)) n stat)"

lemma stats_ok_mono: "stats_ok fd par t D R s \<Longrightarrow> t \<le> now \<Longrightarrow> stats_ok fd par now D R s"
  unfolding stats_ok_def stat_ok_def by (smt (verit, best) order_trans)

lemma record_start_ok:
  assumes ok: "stats_ok fd par now D R s" and n: "n \<notin> D \<union> R" "par n \<subseteq> D" "et_id (fd_lookupNode fd n) = n"
    and type: "get_operator_type (fd_lookupNode fd n) = Inr type"
  shows "\<exists>s'. record_start (fd_lookupNode fd n) now s = Inr s' \<and> stats_ok fd par now D (insert n R) s'"
proof -
  let ?ops = "map_of (st_operator_statistics s)" and ?new = "OperatorStatistics_new n now type"
  define s' where "s' = s\<lparr>st_operator_statistics := AList.update n ?new (st_operator_statistics s),
      st_start_times := st_start_times s @ [(now, n)]\<rparr>"
  have ops: "map_of (st_operator_statistics s') = ?ops(n \<mapsto> ?new)" by (simp add: s'_def update_conv')
  have dom: "dom ?ops = D \<union> R" using ok by (simp add: stats_ok_def)
  have start: "stat_ok fd par now D (?ops(n \<mapsto> ?new)) n ?new"
  proof -
    have "p \<in> D \<and> (\<exists>sp. (?ops(n \<mapsto> ?new)) p = Some sp \<and> os_end_time sp \<le> now)" if "p \<in> par n" for p
    proof -
      have p: "p \<in> D" "p \<noteq> n" using that n by auto
      obtain sp where sp: "?ops p = Some sp" using p(1) dom by blast
      then have "stat_ok fd par now D ?ops p sp" using ok unfolding stats_ok_def by blast
      then have "os_end_time sp \<le> now" using p(1) by (simp add: stat_ok_def)
      then show ?thesis using p sp by auto
    qed
    then show ?thesis using n(1) type by (simp add: stat_ok_def OperatorStatistics_new_def)
  qed
  have old: "stat_ok fd par now D (?ops(n \<mapsto> ?new)) m stat" if "?ops m = Some stat" for m stat
  proof -
    have "stat_ok fd par now D ?ops m stat" using ok that unfolding stats_ok_def by blast
    then show ?thesis using n(1) unfolding stat_ok_def by (metis UnI1 fun_upd_other)
  qed
  have "stats_ok fd par now D (insert n R) s'"
    using ok start old dom n(1) unfolding stats_ok_def ops by (auto simp: s'_def distinct_update split: if_splits)
  moreover have "record_start (fd_lookupNode fd n) now s = Inr s'"
    using type n(3) by (simp add: record_start_def s'_def del: get_operator_type.simps)
  ultimately show ?thesis by blast
qed

lemma change_stat_ok:
  assumes ok: "stats_ok fd par now D R s" and n: "n \<in> D \<union> R"
    and f: "\<And>stat. os_type (f stat) = os_type stat" "\<And>stat. os_start_time (f stat) = os_start_time stat"
      "\<And>stat. os_end_time (f stat) = os_end_time stat"
  shows "\<exists>s'. change_stat n f s = Inr s' \<and> stats_ok fd par now D R s'"
proof -
  let ?ops = "map_of (st_operator_statistics s)"
  obtain stat where stat: "?ops n = Some stat" using ok n unfolding stats_ok_def by blast
  define s' where "s' = s\<lparr>st_operator_statistics := AList.update n (f stat) (st_operator_statistics s)\<rparr>"
  have ops: "map_of (st_operator_statistics s') = ?ops(n \<mapsto> f stat)" by (simp add: s'_def update_conv')
  have same: "stat_ok fd par now D (?ops(n \<mapsto> f stat)) m x'" if "stat_ok fd par now D ?ops m x"
    "os_type x' = os_type x" "os_start_time x' = os_start_time x" "os_end_time x' = os_end_time x" for m x x'
  proof -
    have "\<exists>sp. (?ops(n \<mapsto> f stat)) p = Some sp \<and> os_end_time sp \<le> b"
      if "\<exists>sp. ?ops p = Some sp \<and> os_end_time sp \<le> b" for p b
      using that stat f(3) by auto
    then show ?thesis using that unfolding stat_ok_def by metis
  qed
  have old: "stat_ok fd par now D ?ops m x" if "?ops m = Some x" for m x using ok that unfolding stats_ok_def by blast
  have new: "stat_ok fd par now D (?ops(n \<mapsto> f stat)) n (f stat)" using same [OF old [OF stat]] f by blast
  have other: "stat_ok fd par now D (?ops(n \<mapsto> f stat)) m x" if "?ops m = Some x" for m x
    using same [OF old [OF that]] by blast
  have "stats_ok fd par now D R s'"
    using ok stat new other unfolding stats_ok_def ops
    by (auto simp: s'_def distinct_update map_of_eq_Some_iff simp del: map_of_eq_Some_iff split: if_splits)
  then show ?thesis using stat by (simp add: change_stat_def get_operator_statistics_def s'_def)
qed

lemma record_end_ok:
  assumes ok: "stats_ok fd par now D R s" and n: "n \<in> R" "n \<notin> D" "et_id (fd_lookupNode fd n) = n"
  shows "\<exists>s'. record_end (fd_lookupNode fd n) now s = Inr s' \<and> stats_ok fd par now (insert n D) (R - {n}) s'"
proof -
  let ?ops = "map_of (st_operator_statistics s)"
  obtain stat where stat: "?ops n = Some stat" using ok n unfolding stats_ok_def by blast
  let ?stat = "stat\<lparr>os_end_time := now\<rparr>"
  define s' where "s' = s\<lparr>st_operator_statistics := AList.update n ?stat (st_operator_statistics s)\<rparr>"
  have ops: "map_of (st_operator_statistics s') = ?ops(n \<mapsto> ?stat)" by (simp add: s'_def update_conv')
  have old: "stat_ok fd par now D ?ops m x" if "?ops m = Some x" for m x using ok that unfolding stats_ok_def by blast
  have parents: "p \<in> insert n D \<and> (\<exists>sp. (?ops(n \<mapsto> ?stat)) p = Some sp \<and> os_end_time sp \<le> b)"
    if "p \<in> D \<and> (\<exists>sp. ?ops p = Some sp \<and> os_end_time sp \<le> b)" for p b
    using that n(2) by auto
  have new: "stat_ok fd par now (insert n D) (?ops(n \<mapsto> ?stat)) n ?stat"
    using old [OF stat] parents by (simp add: stat_ok_def)
  have other: "stat_ok fd par now (insert n D) (?ops(n \<mapsto> ?stat)) m x" if "?ops m = Some x" "m \<noteq> n" for m x
    using old [OF that(1)] parents that(2) unfolding stat_ok_def by auto
  have "dom ?ops = D \<union> R" using ok by (simp add: stats_ok_def)
  then have "stats_ok fd par now (insert n D) (R - {n}) s'"
    using ok new other n(1) unfolding stats_ok_def ops by (auto simp: s'_def distinct_update split: if_splits)
  then show ?thesis using stat n(3) by (simp add: record_end_def change_stat_def get_operator_statistics_def s'_def)
qed

section \<open>The invariant\<close>

fun event_node :: "(int \<rightharpoonup> nat) \<Rightarrow> wl_event \<Rightarrow> nat" where
  "event_node ids (Timer n t) = n"
| "event_node ids (RemoteMem n b) = n"
| "event_node ids (Collective i ct b ds g pr n) = the (ids i)"
| "event_node ids (BroadcastTimer i t) = the (ids i)"
| "event_node ids (SendMessage n b d t) = n"
| "event_node ids (RecvMessage n b s t) = n"

fun dataset_of :: "wl_event \<Rightarrow> int option" where
  "dataset_of (Collective i ct b ds g pr n) = Some i"
| "dataset_of (BroadcastTimer i t) = Some i"
| "dataset_of _ = None"

text \<open>Each ongoing node waits for one event, but for those in \<open>Z\<close>, which are being handled.\<close>

definition events_ok :: "nat set \<Rightarrow> 'r workload \<Rightarrow> bool" where
  "events_ok S w \<longleftrightarrow>
     image_mset (event_node (wl_collective_comm_node_id_map w)) (mset (wl_events w)) = mset_set S \<and>
     (\<forall>e \<in> set (wl_events w). \<forall>i. dataset_of e = Some i \<longrightarrow>
        i < wl_next_dataset w \<and> wl_collective_comm_node_id_map w i \<noteq> None)"

text \<open>What the issue and the end of nodes leave alone.\<close>

definition wl_fixed :: "'r workload \<Rightarrow> (int \<rightharpoonup> CommunicatorGroup) \<times> bool \<times> nat" where
  "wl_fixed w = (wl_comm_groups w, wl_is_finished w, wl_notified w)"

lemma wl_fixed_simps [simp]:
  "wl_fixed (w\<lparr>wl_dep := d\<rparr>) = wl_fixed w" "wl_fixed (w\<lparr>wl_hw_resource := hw\<rparr>) = wl_fixed w"
  "wl_fixed (w\<lparr>wl_stats := s\<rparr>) = wl_fixed w" "wl_fixed (w\<lparr>wl_events := es\<rparr>) = wl_fixed w"
  "wl_fixed (w\<lparr>wl_next_dataset := i\<rparr>) = wl_fixed w" "wl_fixed (w\<lparr>wl_collective_comm_node_id_map := m\<rparr>) = wl_fixed w"
  "wl_fixed (w\<lparr>wl_collective_comm_wrapper_map := m'\<rparr>) = wl_fixed w"
  by (simp_all add: wl_fixed_def)

definition wl_inv ::
    "'r et_feeder \<Rightarrow> nat set \<Rightarrow> (nat \<Rightarrow> nat set) \<Rightarrow> 'r resolver_view \<Rightarrow> (int \<rightharpoonup> CommunicatorGroup) \<times> bool \<times> nat \<Rightarrow> Tick \<Rightarrow>
     nat set \<Rightarrow> nat set \<Rightarrow> nat set \<Rightarrow> 'r workload \<Rightarrow> bool" where
  "wl_inv fd N par I G now D R Z w \<longleftrightarrow>
     I (wl_dep w) D R \<and> D \<inter> R = {} \<and> D \<union> R \<subseteq> N \<and> finite N \<and> hw_ok fd R (wl_hw_resource w) \<and>
     stats_ok fd par now D R (wl_stats w) \<and> events_ok (R - Z) w \<and> wl_fixed w = G"

lemma wl_inv_mono: "wl_inv fd N par I G t D R Z w \<Longrightarrow> t \<le> now \<Longrightarrow> wl_inv fd N par I G now D R Z w"
  unfolding wl_inv_def using stats_ok_mono by blast

lemma events_frame [simp]:
  "events_ok S (w\<lparr>wl_dep := d\<rparr>) = events_ok S w" "events_ok S (w\<lparr>wl_hw_resource := hw\<rparr>) = events_ok S w"
  "events_ok S (w\<lparr>wl_stats := s\<rparr>) = events_ok S w"
  "events_ok S (w\<lparr>wl_collective_comm_wrapper_map := m\<rparr>) = events_ok S w"
  by (simp_all add: events_ok_def)

lemma hw_tics [simp]:
  "hw_ok fd R (hw\<lparr>hw_tics_cpu_ops := t\<rparr>) = hw_ok fd R hw" "hw_ok fd R (hw\<lparr>hw_tics_gpu_ops := t\<rparr>) = hw_ok fd R hw"
  "hw_ok fd R (hw\<lparr>hw_tics_gpu_comms := t\<rparr>) = hw_ok fd R hw"
proof -
  have "nodes_on k (hw\<lparr>hw_tics_cpu_ops := t\<rparr>) = nodes_on k hw" "nodes_on k (hw\<lparr>hw_tics_gpu_ops := t\<rparr>) = nodes_on k hw"
    "nodes_on k (hw\<lparr>hw_tics_gpu_comms := t\<rparr>) = nodes_on k hw" "in_flight k (hw\<lparr>hw_tics_cpu_ops := t\<rparr>) = in_flight k hw"
    "in_flight k (hw\<lparr>hw_tics_gpu_ops := t\<rparr>) = in_flight k hw" "in_flight k (hw\<lparr>hw_tics_gpu_comms := t\<rparr>) = in_flight k hw" for k
    by (cases k; simp)+
  then show "hw_ok fd R (hw\<lparr>hw_tics_cpu_ops := t\<rparr>) = hw_ok fd R hw" "hw_ok fd R (hw\<lparr>hw_tics_gpu_ops := t\<rparr>) = hw_ok fd R hw"
    "hw_ok fd R (hw\<lparr>hw_tics_gpu_comms := t\<rparr>) = hw_ok fd R hw"
    by (simp_all add: hw_ok_def)
qed

lemma count_tics_ok: "wl_inv fd N par I G now D R Z w \<Longrightarrow> wl_inv fd N par I G now D R Z (count_tics node t w)"
  by (simp add: wl_inv_def count_tics_def Let_def)

lemma mset_set_remove1: "finite R \<Longrightarrow> n \<in> R \<Longrightarrow> mset_set R = add_mset n (mset_set (R - {n}))"
  by (simp add: mset_set.remove)

lemma start_event_ok:
  assumes inv: "wl_inv fd N par I G now D R {n} w" "n \<in> R" and e: "dataset_of e = None" "\<And>ids. event_node ids e = n"
  shows "wl_inv fd N par I G now D R {} (start_event e w)"
proof -
  have "finite R" using inv(1) unfolding wl_inv_def by (meson Un_subset_iff finite_subset)
  then show ?thesis
    using inv e mset_set_remove1 [of R n] by (auto simp: wl_inv_def start_event_def events_ok_def)
qed

lemma watch_dataset_ok:
  assumes inv: "wl_inv fd N par I G now D R {n} w" "n \<in> R" and n: "et_id node = n"
    and ev: "\<And>i. dataset_of (ev i) = Some i" "\<And>ids i. event_node ids (ev i) = the (ids i)"
  shows "wl_inv fd N par I G now D R {} (watch_dataset node ev w)"
proof -
  let ?i = "wl_next_dataset w" and ?ids = "wl_collective_comm_node_id_map w"
  have fin: "finite R" using inv(1) unfolding wl_inv_def by (meson Un_subset_iff finite_subset)
  have old: "event_node (?ids(?i \<mapsto> n)) e = event_node ?ids e" if "e \<in> set (wl_events w)" for e
  proof -
    have "dataset_of e \<noteq> Some ?i" using inv(1) that unfolding wl_inv_def events_ok_def by (metis less_irrefl)
    then show ?thesis by (cases e) auto
  qed
  have "image_mset (event_node (?ids(?i \<mapsto> n))) (mset (wl_events w)) = image_mset (event_node ?ids) (mset (wl_events w))"
    using old by (intro image_mset_cong) simp
  then have "events_ok R (watch_dataset node ev w)"
    using inv n ev mset_set_remove1 [OF fin inv(2)]
    by (auto simp: wl_inv_def events_ok_def watch_dataset_def start_event_def Let_def less_Suc_eq)
  then show ?thesis
    using inv by (simp add: wl_inv_def watch_dataset_def start_event_def Let_def)
qed

lemma wl_inv_stats:
  "wl_inv fd N par I G now D R Z w \<Longrightarrow> stats_ok fd par now D R s \<Longrightarrow> wl_inv fd N par I G now D R Z (w\<lparr>wl_stats := s\<rparr>)"
  by (simp add: wl_inv_def)

lemma set_comm_size_ok:
  assumes "wl_inv fd N par I G now D R {n} w" "n \<in> R" "et_id node = n"
  shows "\<exists>w'. on_stats (set_comm_size node) w = Inr w' \<and> wl_inv fd N par I G now D R {n} w'"
proof -
  have "stats_ok fd par now D R (wl_stats w)" using assms(1) by (simp add: wl_inv_def)
  then obtain s' where "set_comm_size node (wl_stats w) = Inr s'" "stats_ok fd par now D R s'"
    unfolding set_comm_size_def
    using change_stat_ok [of fd par now D R "wl_stats w" "et_id node" "\<lambda>stat. stat\<lparr>os_comm_size := Some (et_comm_size node)\<rparr>"]
      assms(2,3) by auto
  then show ?thesis using wl_inv_stats [OF assms(1), of s'] by (simp add: on_stats_def)
qed

section \<open>The end of a node\<close>

lemma end_node_ok:
  assumes laws: "resolver_laws fd N par I" and inv: "wl_inv fd N par I G now D R {n} w" "n \<in> R"
    and g: "\<And>s. stats_ok fd par now (insert n D) (R - {n}) s \<Longrightarrow>
      \<exists>s'. g s = Inr s' \<and> stats_ok fd par now (insert n D) (R - {n}) s'"
  shows "\<exists>hw s s'. fd_has_node fd n \<and> release (fd_lookupNode fd n) (wl_hw_resource w) = Inr hw \<and>
    record_end (fd_lookupNode fd n) now (wl_stats w) = Inr s \<and> g s = Inr s' \<and>
    wl_inv fd N par I G now (insert n D) (R - {n}) {}
      (w\<lparr>wl_dep := fd_finish_node fd n (wl_dep w), wl_hw_resource := hw, wl_stats := s'\<rparr>)"
proof -
  have n: "n \<notin> D" "n \<in> N" using inv unfolding wl_inv_def by blast+
  have id: "et_id (fd_lookupNode fd n) = n" "fd_has_node fd n" using laws n(2) unfolding resolver_laws_def by blast+
  obtain hw where hw: "release (fd_lookupNode fd n) (wl_hw_resource w) = Inr hw" "hw_ok fd (R - {n}) hw"
    using release_ok [OF _ inv(2) id(1)] inv(1) unfolding wl_inv_def by blast
  obtain s where s: "record_end (fd_lookupNode fd n) now (wl_stats w) = Inr s"
    "stats_ok fd par now (insert n D) (R - {n}) s"
    using record_end_ok [OF _ inv(2) n(1) id(1)] inv(1) unfolding wl_inv_def by blast
  obtain s' where s': "g s = Inr s'" "stats_ok fd par now (insert n D) (R - {n}) s'" using g [OF s(2)] by blast
  have "I (fd_finish_node fd n (wl_dep w)) (insert n D) (R - {n})"
    using laws inv unfolding resolver_laws_def wl_inv_def by blast
  then have "wl_inv fd N par I G now (insert n D) (R - {n}) {}
      (w\<lparr>wl_dep := fd_finish_node fd n (wl_dep w), wl_hw_resource := hw, wl_stats := s'\<rparr>)"
    using inv hw(2) s'(2) n unfolding wl_inv_def by auto
  then show ?thesis using hw(1) s(1) s'(1) id(2) by blast
qed

lemma skip_invalid_ok:
  assumes laws: "resolver_laws fd N par I" and inv: "wl_inv fd N par I G now D R {n} w" "n \<in> R"
    and mem: "\<not> wc_track_local_mem cfg"
  shows "\<exists>w'. skip_invalid cfg fd now (fd_lookupNode fd n) w = Inr w' \<and> wl_inv fd N par I G now (insert n D) (R - {n}) {} w'"
proof -
  have "n \<in> N" using inv unfolding wl_inv_def by blast
  then have id: "et_id (fd_lookupNode fd n) = n" using laws unfolding resolver_laws_def by blast
  show ?thesis
    using end_node_ok [OF laws inv, of Inr] mem by (auto simp: skip_invalid_def on_hw_def on_stats_def on_mem_def id)
qed

section \<open>The issue of a node\<close>

text \<open>The nodes that can be issued without an error, and those that end at once.\<close>

definition issuable :: "wl_config \<Rightarrow> (int \<rightharpoonup> CommunicatorGroup) \<Rightarrow> et_node \<Rightarrow> bool" where
  "issuable cfg G node \<longleftrightarrow>
     et_type node \<notin> {METADATA_NODE, OTHER_NODE} \<and>
     (\<not> wc_replay_only cfg \<longrightarrow>
        (et_type node = COMP_NODE \<and> wc_roofline_enabled cfg \<and> \<not> et_is_cpu_op_or node False \<longrightarrow>
           \<not> et_is_cpu_op node \<and>
           (et_tensor_size node = 0 \<or>
            (\<exists>t. roofline_runtime (get_perf (operational_intensity_of node) (wc_roofline cfg)) node = Inr t))) \<and>
        (et_type node \<in> {COMM_COLL_NODE, COMM_SEND_NODE, COMM_RECV_NODE} \<longrightarrow> \<not> et_is_cpu_op_or node False) \<and>
        (et_type node = COMM_COLL_NODE \<longrightarrow>
           (\<exists>dims. involved_dims_of node = Inr dims) \<and> et_comm_type node \<noteq> CT_OTHER \<and>
           (et_pg_name_or node [] \<in> {[], ''0''} \<or> (\<exists>i. stoi (et_pg_name_or node []) = Inr i \<and> G i \<noteq> None))) \<and>
        (et_type node = COMM_SEND_NODE \<longrightarrow> int (et_comm_src_or node (nat (wc_id cfg))) = wc_id cfg) \<and>
        (et_type node = COMM_RECV_NODE \<longrightarrow> int (et_comm_dst_or node (nat (wc_id cfg))) = wc_id cfg))"

definition skips :: "wl_config \<Rightarrow> et_node \<Rightarrow> bool" where
  "skips cfg node \<longleftrightarrow>
     \<not> wc_replay_only cfg \<and>
     (et_type node = INVALID_NODE \<or>
      et_type node = COMP_NODE \<and> wc_roofline_enabled cfg \<and> \<not> et_is_cpu_op_or node False \<and> et_tensor_size node = 0)"

lemma issue_coll_comm_ok:
  assumes inv: "wl_inv fd N par I G now D R {n} w" "n \<in> R" "et_id node = n"
    and node: "issuable cfg (fst G) node" "\<not> wc_replay_only cfg" "et_type node = COMM_COLL_NODE"
  shows "\<exists>w'. issue_coll_comm node w = Inr w' \<and> wl_inv fd N par I G now D R {} w'"
proof -
  obtain dims where dims: "involved_dims_of node = Inr dims" using node by (auto simp: issuable_def)
  have G: "wl_comm_groups w = fst G" using inv(1) by (auto simp: wl_inv_def wl_fixed_def)
  have "\<exists>cg. extract_comm_group node w = Inr cg"
  proof (cases "et_pg_name_or node [] \<in> {[], ''0''}")
    case False
    then obtain i y where "stoi (et_pg_name_or node []) = Inr i" "fst G i = Some y" using node by (auto simp: issuable_def)
    then show ?thesis using False G by (simp add: extract_comm_group_def Let_def)
  qed (auto simp: extract_comm_group_def Let_def)
  then obtain cg where cg: "extract_comm_group node w = Inr cg" by blast
  obtain w1 where w1: "on_stats (set_comm_size node) w = Inr w1" "wl_inv fd N par I G now D R {n} w1"
    using set_comm_size_ok [OF inv] by blast
  note watch = watch_dataset_ok [OF w1(2) inv(2,3)]
  show ?thesis
  proof (cases "com_type_of (et_comm_type node)")
    case None
    then have "et_comm_type node = CT_BROADCAST" using node by (cases "et_comm_type node") (auto simp: issuable_def)
    then show ?thesis using None watch [of "\<lambda>i. BroadcastTimer i (replay_runtime node)"]
      by (simp add: issue_coll_comm_def dims cg w1(1))
  next
    case (Some ct)
    then show ?thesis
      using watch [of "\<lambda>i. Collective i ct (et_comm_size node) dims cg (et_comm_priority node) (et_id node)"]
      by (simp add: issue_coll_comm_def dims cg w1(1))
  qed
qed

lemma issue_comm_ok:
  assumes inv: "wl_inv fd N par I G now D R {n} w" "n \<in> R" "et_id node = n"
    and node: "issuable cfg (fst G) node" "\<not> wc_replay_only cfg" "et_type node \<in> {COMM_COLL_NODE, COMM_SEND_NODE, COMM_RECV_NODE}"
  shows "\<exists>w'. issue_comm cfg recv_later node w = Inr w' \<and> wl_inv fd N par I G now D R {} w'"
proof -
  obtain w1 where w1: "on_stats (set_comm_size node) w = Inr w1" "wl_inv fd N par I G now D R {n} w1"
    using set_comm_size_ok [OF inv] by blast
  note start = start_event_ok [OF w1(2) inv(2)]
  consider "et_type node = COMM_COLL_NODE" | "et_type node = COMM_SEND_NODE" | "et_type node = COMM_RECV_NODE"
    using node(3) by blast
  then show ?thesis
  proof cases
    case 1
    then show ?thesis using issue_coll_comm_ok [OF inv node(1,2)] node by (auto simp: issue_comm_def issuable_def)
  next
    case 2
    then show ?thesis
      using start [of "SendMessage (et_id node) (et_comm_size node) (et_comm_dst node) (et_comm_tag node)"] node inv(3)
      by (simp add: issue_comm_def issue_send_comm_def issuable_def w1(1))
  next
    case 3
    then show ?thesis
      using start [of "RecvMessage (et_id node) (et_comm_size node) (et_comm_src node) (et_comm_tag node)"] node inv(3)
      by (simp add: issue_comm_def issue_recv_comm_def recv_later_def issuable_def w1(1))
  qed
qed

lemma issue_comp_ok:
  assumes laws: "resolver_laws fd N par I" and inv: "wl_inv fd N par I G now D R {n} w" "n \<in> R" "et_id node = n"
    and node: "node = fd_lookupNode fd n" "wc_roofline_enabled cfg" "\<not> et_is_cpu_op node" and mem: "\<not> wc_track_local_mem cfg"
    and time: "et_tensor_size node = 0 \<or>
      (\<exists>t. roofline_runtime (get_perf (operational_intensity_of node) (wc_roofline cfg)) node = Inr t)"
  shows "\<exists>w'. issue_comp cfg fd now node w = Inr w' \<and>
    (if et_tensor_size node = 0 then wl_inv fd N par I G now (insert n D) (R - {n}) {} w'
     else wl_inv fd N par I G now D R {} w')"
proof (cases "et_tensor_size node = 0")
  case True
  then show ?thesis using skip_invalid_ok [OF laws inv(1,2) mem] node by (simp add: issue_comp_def)
next
  case False
  define oi where "oi = operational_intensity_of node"
  define perf where "perf = get_perf oi (wc_roofline cfg)"
  obtain runtime where runtime: "roofline_runtime perf node = Inr runtime" using False time perf_def oi_def by blast
  define f :: "OperatorStatistics \<Rightarrow> OperatorStatistics" where "f = (\<lambda>op_stat. op_stat\<lparr>os_operation_intensity := Some oi,
      os_compute_utilization := Some (perf / wc_peak_perf cfg),
      os_memory_utilization := Some (perf / oi / wc_local_mem_bw cfg),
      os_is_memory_bound := Some (perf < wc_peak_perf cfg)\<rparr>)"
  define w1 where "w1 = start_event (Timer n runtime) (count_tics node runtime w)"
  have w1: "wl_inv fd N par I G now D R {} w1"
    unfolding w1_def by (rule start_event_ok [OF count_tics_ok [OF inv(1)] inv(2)]) simp_all
  then have "stats_ok fd par now D R (wl_stats w1)" by (simp add: wl_inv_def)
  then obtain s' where "change_stat n f (wl_stats w1) = Inr s'" "stats_ok fd par now D R s'"
    using change_stat_ok [of fd par now D R "wl_stats w1" n f] inv(2) by (auto simp: f_def)
  moreover have "issue_comp cfg fd now node w = on_stats (change_stat n f) w1"
    using False node(2,3) inv(3) by (simp add: issue_comp_def Let_def w1_def f_def runtime flip: perf_def oi_def)
  ultimately show ?thesis using False wl_inv_stats [OF w1] by (auto simp: on_stats_def)
qed

lemma dispatch_ok:
  assumes laws: "resolver_laws fd N par I" and inv: "wl_inv fd N par I G now D R {n} w" "n \<in> R"
    and node: "issuable cfg (fst G) (fd_lookupNode fd n)" and mem: "\<not> wc_track_local_mem cfg"
  shows "\<exists>w'. dispatch cfg fd recv_later now (fd_lookupNode fd n) w = Inr w' \<and>
    (if skips cfg (fd_lookupNode fd n) then wl_inv fd N par I G now (insert n D) (R - {n}) {} w'
     else wl_inv fd N par I G now D R {} w')"
proof -
  let ?node = "fd_lookupNode fd n"
  have "n \<in> N" using inv unfolding wl_inv_def by blast
  then have id: "et_id ?node = n" using laws unfolding resolver_laws_def by blast
  have replay: "\<exists>w'. issue_replay ?node w = Inr w' \<and> wl_inv fd N par I G now D R {} w'"
    unfolding issue_replay_def id
    using start_event_ok [OF count_tics_ok [OF inv(1)] inv(2), of "Timer n (replay_runtime ?node)"] by simp
  consider "wc_replay_only cfg"
    | "\<not> wc_replay_only cfg" "et_type ?node \<in> {MEM_LOAD_NODE, MEM_STORE_NODE}"
    | "\<not> wc_replay_only cfg" "et_type ?node = COMP_NODE" "\<not> wc_roofline_enabled cfg \<or> et_is_cpu_op_or ?node False"
    | "\<not> wc_replay_only cfg" "et_type ?node = COMP_NODE" "wc_roofline_enabled cfg" "\<not> et_is_cpu_op_or ?node False"
    | "\<not> wc_replay_only cfg" "et_type ?node \<in> {COMM_COLL_NODE, COMM_SEND_NODE, COMM_RECV_NODE}"
    | "\<not> wc_replay_only cfg" "et_type ?node = INVALID_NODE"
    using node by (cases "et_type ?node") (auto simp: issuable_def)
  then show ?thesis
  proof cases
    case 1
    then show ?thesis using replay by (simp add: dispatch_def skips_def)
  next
    case 2
    then show ?thesis
      using start_event_ok [OF inv, of "RemoteMem n (et_tensor_size ?node)"]
      by (auto simp: dispatch_def skips_def issue_remote_mem_def id)
  next
    case 3
    then show ?thesis using replay by (auto simp: dispatch_def skips_def)
  next
    case 4
    then have "\<not> et_is_cpu_op ?node" "et_tensor_size ?node = 0 \<or>
        (\<exists>t. roofline_runtime (get_perf (operational_intensity_of ?node) (wc_roofline cfg)) ?node = Inr t)"
      using node by (simp_all add: issuable_def)
    then show ?thesis
      using 4 issue_comp_ok [OF laws inv id refl _ _ mem] by (simp add: dispatch_def skips_def)
  next
    case 5
    then show ?thesis using issue_comm_ok [OF inv id node 5] by (auto simp: dispatch_def skips_def)
  next
    case 6
    then show ?thesis using skip_invalid_ok [OF laws inv mem] by (simp add: dispatch_def skips_def)
  qed
qed

lemma issue_node_ok:
  assumes laws: "resolver_laws fd N par I" and inv: "wl_inv fd N par I G now D R {} w"
    and n: "n \<in> N" "n \<notin> D" "n \<notin> R" "par n \<subseteq> D" "is_available (fd_lookupNode fd n) (wl_hw_resource w)"
    and node: "issuable cfg (fst G) (fd_lookupNode fd n)" and mem: "\<not> wc_track_local_mem cfg"
  shows "\<exists>w'. issue cfg fd recv_later now (fd_lookupNode fd n) w = Inr w' \<and>
    (if skips cfg (fd_lookupNode fd n) then wl_inv fd N par I G now (insert n D) R {} w'
     else wl_inv fd N par I G now D (insert n R) {} w')"
proof -
  let ?node = "fd_lookupNode fd n"
  have id: "et_id ?node = n" using laws n(1) unfolding resolver_laws_def by blast
  obtain hw where hw: "occupy ?node (wl_hw_resource w) = Inr hw" "hw_ok fd (insert n R) hw"
    using occupy_ok [OF _ n(3) id n(5)] inv unfolding wl_inv_def by blast
  have "\<exists>type. get_operator_type ?node = Inr type"
    using node by (cases "et_type ?node") (auto simp: issuable_def)
  then obtain type where type: "get_operator_type ?node = Inr type" by blast
  have "stats_ok fd par now D R (wl_stats w)" using inv by (simp add: wl_inv_def)
  then obtain s where s: "record_start ?node now (wl_stats w) = Inr s" "stats_ok fd par now D (insert n R) s"
    using record_start_ok [of fd par now D R "wl_stats w" n type] n(2-4) id type by auto
  have "I (fd_take_node fd n (wl_dep w)) D (insert n R)"
    using laws inv n unfolding resolver_laws_def wl_inv_def by blast
  define w1 where "w1 = w\<lparr>wl_dep := fd_take_node fd n (wl_dep w), wl_hw_resource := hw, wl_stats := s\<rparr>"
  have R: "insert n R - {n} = R" using n(3) by blast
  have "wl_inv fd N par I G now D (insert n R) {n} w1"
    using inv hw(2) s(2) n \<open>I _ _ _\<close> unfolding wl_inv_def R by (auto simp: w1_def)
  then obtain w' where "dispatch cfg fd recv_later now ?node w1 = Inr w'"
    "if skips cfg ?node then wl_inv fd N par I G now (insert n D) R {} w' else wl_inv fd N par I G now D (insert n R) {} w'"
    using dispatch_ok [OF laws _ _ node mem, where R = "insert n R" and now = now and D = D and w = w1] unfolding R by auto
  moreover have "issue cfg fd recv_later now ?node w = dispatch cfg fd recv_later now ?node w1"
    using hw(1) s(1) mem by (simp add: issue_def on_hw_def on_stats_def on_mem_def id w1_def)
  ultimately show ?thesis by metis
qed

section \<open>The issue of all free nodes\<close>

definition issue_if_available ::
    "wl_config \<Rightarrow> 'r et_feeder \<Rightarrow> Tick \<Rightarrow> nat \<Rightarrow> 'r workload \<Rightarrow> 'r workload result" where
  "issue_if_available cfg fd now n w =
     (if \<not> fd_has_node fd n then Inl (NullDeref ''node'')
      else if is_available (fd_lookupNode fd n) (wl_hw_resource w) then issue cfg fd recv_later now (fd_lookupNode fd n) w
      else Inr w)"

text \<open>The nodes of \<open>ns\<close> are running, or their unit is taken.\<close>

definition all_tried :: "'r et_feeder \<Rightarrow> nat set \<Rightarrow> nat set \<Rightarrow> bool" where
  "all_tried fd R ns \<longleftrightarrow> (\<forall>n \<in> ns. n \<in> R \<or> using_unit fd R (unit_of (fd_lookupNode fd n)) \<noteq> {})"

lemma all_tried_mono: "all_tried fd R ns \<Longrightarrow> R \<subseteq> R' \<Longrightarrow> all_tried fd R' ns"
  unfolding all_tried_def using_unit_def by blast

lemma issue_loop_ok:
  assumes laws: "resolver_laws fd N par I" and mem: "\<not> wc_track_local_mem cfg"
    and node: "\<forall>n \<in> N. issuable cfg (fst G) (fd_lookupNode fd n)"
    and inv: "wl_inv fd N par I G now D R {} w" and ns: "distinct ns" "\<forall>n \<in> set ns. n \<in> N \<and> n \<notin> D \<and> n \<notin> R \<and> par n \<subseteq> D"
  shows "\<exists>w' D' R'. fold_result (issue_if_available cfg fd now) ns w = Inr w' \<and> wl_inv fd N par I G now D' R' {} w' \<and>
    D \<subseteq> D' \<and> R \<subseteq> R' \<and> D' \<subseteq> D \<union> {n \<in> set ns. skips cfg (fd_lookupNode fd n)} \<and>
    R' \<subseteq> R \<union> {n \<in> set ns. \<not> skips cfg (fd_lookupNode fd n)} \<and>
    ((\<forall>n \<in> set ns. \<not> skips cfg (fd_lookupNode fd n)) \<longrightarrow> all_tried fd R' (set ns))"
  using inv ns
proof (induction ns arbitrary: D R w)
  case Nil
  then show ?case by (auto simp: all_tried_def)
next
  case (Cons n ns)
  let ?node = "fd_lookupNode fd n"
  have n: "n \<in> N" "n \<notin> D" "n \<notin> R" "par n \<subseteq> D" "n \<notin> set ns" using Cons.prems by auto
  have has: "fd_has_node fd n" using laws n(1) unfolding resolver_laws_def by blast
  define D1 where "D1 = (if is_available ?node (wl_hw_resource w) \<and> skips cfg ?node then insert n D else D)"
  define R1 where "R1 = (if is_available ?node (wl_hw_resource w) \<and> \<not> skips cfg ?node then insert n R else R)"
  obtain w1 where w1: "issue_if_available cfg fd now n w = Inr w1" "wl_inv fd N par I G now D1 R1 {} w1"
    using issue_node_ok [OF laws Cons.prems(1) n(1-4) _ _ mem] node n(1) Cons.prems(1)
    by (cases "is_available ?node (wl_hw_resource w)") (auto simp: issue_if_available_def has D1_def R1_def split: if_splits)
  have rest: "\<forall>m \<in> set ns. m \<in> N \<and> m \<notin> D1 \<and> m \<notin> R1 \<and> par m \<subseteq> D1"
    using Cons.prems(3) n(5) by (auto simp: D1_def R1_def)
  obtain w' D' R' where w': "fold_result (issue_if_available cfg fd now) ns w1 = Inr w'" "wl_inv fd N par I G now D' R' {} w'"
    "D1 \<subseteq> D'" "R1 \<subseteq> R'" "D' \<subseteq> D1 \<union> {n \<in> set ns. skips cfg (fd_lookupNode fd n)}" "R' \<subseteq> R1 \<union> {n \<in> set ns. \<not> skips cfg (fd_lookupNode fd n)}"
    "(\<forall>n \<in> set ns. \<not> skips cfg (fd_lookupNode fd n)) \<longrightarrow> all_tried fd R' (set ns)"
    using Cons.IH [OF w1(2) _ rest] Cons.prems(2) by auto
  have tried: "all_tried fd R' {n}" if "\<not> skips cfg ?node"
  proof -
    have "hw_ok fd R (wl_hw_resource w)" using Cons.prems(1) by (simp add: wl_inv_def)
    then have "all_tried fd R1 {n}" using that is_available_iff [of fd R] by (auto simp: all_tried_def R1_def)
    then show ?thesis using w'(4) by (rule all_tried_mono)
  qed
  have "D \<subseteq> D'" "R \<subseteq> R'" using w'(3,4) by (auto simp: D1_def R1_def split: if_splits)
  have "D' \<subseteq> D \<union> {m \<in> set (n # ns). skips cfg (fd_lookupNode fd m)}" "R' \<subseteq> R \<union> {m \<in> set (n # ns). \<not> skips cfg (fd_lookupNode fd m)}"
    using w'(5,6) by (auto simp: D1_def R1_def split: if_splits)
  have "(\<forall>m \<in> set (n # ns). \<not> skips cfg (fd_lookupNode fd m)) \<longrightarrow> all_tried fd R' (set (n # ns))"
    using tried w'(7) by (auto simp: all_tried_def)
  have "fold_result (issue_if_available cfg fd now) (n # ns) w = Inr w'" using w1(1) w'(1) by simp
  show ?case
    by (rule exI [of _ w'], rule exI [of _ D'], rule exI [of _ R'], intro conjI) fact+
qed

lemma issue_dep_free_nodes_ok:
  assumes laws: "resolver_laws fd N par I" and mem: "\<not> wc_track_local_mem cfg"
    and node: "\<forall>n \<in> N. issuable cfg (fst G) (fd_lookupNode fd n)" and inv: "wl_inv fd N par I G now D R {} w"
  shows "\<exists>w' D' R'. issue_dep_free_nodes cfg fd recv_later now w = Inr w' \<and> wl_inv fd N par I G now D' R' {} w' \<and>
    D \<subseteq> D' \<and> R \<subseteq> R' \<and>
    D' \<subseteq> D \<union> {n \<in> N. n \<notin> D \<and> n \<notin> R \<and> par n \<subseteq> D \<and> skips cfg (fd_lookupNode fd n)} \<and>
    R' \<subseteq> R \<union> {n \<in> N. par n \<subseteq> D \<and> \<not> skips cfg (fd_lookupNode fd n)} \<and>
    ((\<forall>n \<in> N. \<not> skips cfg (fd_lookupNode fd n)) \<longrightarrow> D' = D \<and> all_tried fd R' {n \<in> N. n \<notin> D \<and> n \<notin> R \<and> par n \<subseteq> D})"
proof -
  let ?ns = "remdups (sort (fd_dependancy_free_nodes fd (wl_dep w)))"
  let ?free = "{n \<in> N. n \<notin> D \<and> n \<notin> R \<and> par n \<subseteq> D}"
  have ns: "set ?ns = ?free" using laws inv unfolding resolver_laws_def wl_inv_def by simp
  have "issue_dep_free_nodes cfg fd recv_later now w = fold_result (issue_if_available cfg fd now) ?ns w"
    unfolding issue_dep_free_nodes_def issue_if_available_def Let_def ..
  moreover obtain w' D' R' where "fold_result (issue_if_available cfg fd now) ?ns w = Inr w'"
    "wl_inv fd N par I G now D' R' {} w'" "D \<subseteq> D'" "R \<subseteq> R'"
    "D' \<subseteq> D \<union> {n \<in> ?free. skips cfg (fd_lookupNode fd n)}" "R' \<subseteq> R \<union> {n \<in> ?free. \<not> skips cfg (fd_lookupNode fd n)}"
    "(\<forall>n \<in> ?free. \<not> skips cfg (fd_lookupNode fd n)) \<longrightarrow> all_tried fd R' ?free"
    using issue_loop_ok [OF laws mem node inv, of ?ns] unfolding ns by auto
  ultimately show ?thesis by (intro exI [of _ w'] exI [of _ D'] exI [of _ R']) auto
qed

end
