(* ===== verification/Workload_Runs.thy ===== *)
theory Workload_Runs
  imports Workload_Invariant
begin

text \<open>
  Runs of a workload: it is fired once, and then every event it has started is answered by one call, in
  any order and at any time that does not decrease. The dependencies of the trace are respected, the
  resources are exclusive, no assertion fails, and the workload reports and finishes exactly once,
  unless a node is skipped or has a type that the statistics do not accept. All this is for front ends that
  answer receives by later calls.
\<close>

section \<open>Runs\<close>

text \<open>The call that answers an event. A remote memory may answer with any event but the end of a collective.\<close>

inductive answers :: "wl_event \<Rightarrow> EventType \<Rightarrow> wl_data \<Rightarrow> bool" where
  "answers (Timer n t) General (NodeData n)"
| "event \<noteq> CollectiveCommunicationFinished \<Longrightarrow> answers (RemoteMem n b) event (NodeData n)"
| "answers (Collective i ct b ds g pr n) CollectiveCommunicationFinished (IntData i t)"
| "answers (BroadcastTimer i rt) CollectiveCommunicationFinished (IntData i t)"
| "answers (SendMessage n b d tag) PacketSent (NodeData n)"
| "answers (RecvMessage n b s tag) PacketReceived (NodeData n)"

definition drop_event :: "wl_event \<Rightarrow> 'r workload \<Rightarrow> 'r workload" where
  "drop_event e w = w\<lparr>wl_events := remove1 e (wl_events w)\<rparr>"

text \<open>
  A run with \<open>n\<close> calls from outside up to the time \<open>now\<close>; in each, receives may be answered at once. The
  identities of data sets are shared by all systems: others may take some at any time.
\<close>

inductive wl_run ::
    "nat \<Rightarrow> 'r arrivals \<Rightarrow> wl_config \<Rightarrow> 'r et_feeder \<Rightarrow> 'r workload \<Rightarrow> nat \<Rightarrow> Tick \<Rightarrow> 'r workload \<Rightarrow> bool"
  for depth arrived cfg fd w0 where
  fired: "fire depth arrived cfg fd now w0 = Inr w \<Longrightarrow> wl_run depth arrived cfg fd w0 1 now w"
| datasets_taken: "wl_run depth arrived cfg fd w0 n now w \<Longrightarrow> wl_next_dataset w \<le> i \<Longrightarrow>
    wl_run depth arrived cfg fd w0 n now (w\<lparr>wl_next_dataset := i\<rparr>)"
| answered: "wl_run depth arrived cfg fd w0 n t w \<Longrightarrow> t \<le> now \<Longrightarrow> e \<in> set (wl_events w) \<Longrightarrow> answers e event data \<Longrightarrow>
    Workload_call depth arrived cfg fd now event data (drop_event e w) = Inr w' \<Longrightarrow>
    wl_run depth arrived cfg fd w0 (Suc n) now w'"

text \<open>
  The trace that the properties are about: what the feeder promises, a finite number of nodes that can be
  issued, and a workload as the constructor leaves it. The tracking of the local memory can fail where
  the rest of the workload does not; \<open>untracked\<close> says that it is off.
\<close>

definition trace_ok ::
    "wl_config \<Rightarrow> 'r et_feeder \<Rightarrow> nat set \<Rightarrow> (nat \<Rightarrow> nat set) \<Rightarrow> 'r resolver_view \<Rightarrow> 'r workload \<Rightarrow> bool" where
  "trace_ok cfg fd N par I w0 \<longleftrightarrow>
     resolver_laws fd N par I \<and> finite N \<and> (\<forall>n \<in> N. issuable cfg (wl_comm_groups w0) (fd_lookupNode fd n)) \<and>
     I (wl_dep w0) {} {} \<and> (\<exists>entries i dep. Workload_new cfg entries i dep = Inr w0)"

definition untracked ::
    "wl_config \<Rightarrow> 'r et_feeder \<Rightarrow> nat set \<Rightarrow> (nat \<Rightarrow> nat set) \<Rightarrow> 'r resolver_view \<Rightarrow> 'r workload \<Rightarrow> bool" where
  "untracked cfg fd N par I w0 \<longleftrightarrow> trace_ok cfg fd N par I w0 \<and> \<not> wc_track_local_mem cfg"

text \<open>The types that the final report accepts.\<close>

definition reportable :: "et_node \<Rightarrow> bool" where
  "reportable node \<longleftrightarrow> get_operator_type node \<in> {Inr OT_GPU, Inr OT_COMM}"

section \<open>A call\<close>

lemma drop_event_inv:
  assumes inv: "wl_inv fd N par I G now D R {} w" and e: "e \<in> set (wl_events w)"
  defines "n \<equiv> event_node (wl_collective_comm_node_id_map w) e"
  shows "wl_inv fd N par I G now D R {n} (drop_event e w)" "n \<in> R"
proof -
  let ?ids = "wl_collective_comm_node_id_map w"
  have fin: "finite R" using inv unfolding wl_inv_def by (meson Un_subset_iff finite_subset)
  have "mset (wl_events w) = add_mset e (mset (remove1 e (wl_events w)))" using e by (simp add: mset_remove1)
  then have all: "mset_set R = add_mset n (image_mset (event_node ?ids) (mset (remove1 e (wl_events w))))"
    using inv unfolding wl_inv_def events_ok_def n_def by (metis Diff_empty image_mset_add_mset)
  have "n \<in># mset_set R" unfolding all by simp
  then show n: "n \<in> R" using fin by simp
  have "image_mset (event_node ?ids) (mset (remove1 e (wl_events w))) = mset_set (R - {n})"
    using all mset_set_remove1 [OF fin n] by simp
  then show "wl_inv fd N par I G now D R {n} (drop_event e w)"
    using inv by (auto simp: wl_inv_def events_ok_def drop_event_def dest: notin_set_remove1)
qed

lemma set_bandwidth_of_ok:
  assumes "stats_ok fd par now D R s" "n \<in> D \<union> R"
  shows "\<exists>s'. set_bandwidth_of n t s = Inr s' \<and> stats_ok fd par now D R s'"
proof -
  obtain stat where stat: "map_of (st_operator_statistics s) n = Some stat" using assms unfolding stats_ok_def by blast
  then show ?thesis
    using assms change_stat_ok [of fd par now D R s n "\<lambda>op_stat. op_stat\<lparr>os_network_bandwidth := Some (x / of_nat t)\<rparr>" for x]
    by (auto simp: set_bandwidth_of_def get_operator_statistics_def split: option.splits)
qed

lemma execution_time_of_ok:
  assumes "stats_ok fd par now D R s" "n \<in> D \<union> R"
  shows "\<exists>t. execution_time_of n s = Inr t"
proof -
  obtain stat where "map_of (st_operator_statistics s) n = Some stat" using assms unfolding stats_ok_def by blast
  then show ?thesis by (simp add: execution_time_of_def get_operator_statistics_def)
qed

text \<open>What holds after the free nodes have been issued.\<close>

definition issued_from ::
    "wl_config \<Rightarrow> 'r et_feeder \<Rightarrow> nat set \<Rightarrow> (nat \<Rightarrow> nat set) \<Rightarrow> nat set \<Rightarrow> nat set \<Rightarrow> nat set \<Rightarrow> nat set \<Rightarrow> bool" where
  "issued_from cfg fd N par D R D' R' \<longleftrightarrow>
     D \<subseteq> D' \<and> R \<subseteq> R' \<and>
     D' \<subseteq> D \<union> {n \<in> N. n \<notin> D \<and> n \<notin> R \<and> par n \<subseteq> D \<and> skips cfg (fd_lookupNode fd n)} \<and>
     R' \<subseteq> R \<union> {n \<in> N. par n \<subseteq> D \<and> \<not> skips cfg (fd_lookupNode fd n)} \<and>
     ((\<forall>n \<in> N. \<not> skips cfg (fd_lookupNode fd n)) \<longrightarrow> D' = D \<and> all_tried fd R' {n \<in> N. n \<notin> D \<and> n \<notin> R \<and> par n \<subseteq> D})"

lemma finish_node_ok:
  assumes t: "untracked cfg fd N par I w0" and inv: "wl_inv fd N par I (wl_fixed w0) now D R {n} w" "n \<in> R"
    and stats: "\<And>s. stats_ok fd par now (insert n D) (R - {n}) s \<Longrightarrow>
      \<exists>s'. f s = Inr s' \<and> stats_ok fd par now (insert n D) (R - {n}) s'"
  shows "\<exists>w' D' R'. finish_node cfg fd recv_later now n f w = Inr w' \<and> wl_inv fd N par I (wl_fixed w0) now D' R' {} w' \<and>
    issued_from cfg fd N par (insert n D) (R - {n}) D' R'"
proof -
  have laws: "resolver_laws fd N par I" and mem: "\<not> wc_track_local_mem cfg" and
    "\<forall>n \<in> N. issuable cfg (wl_comm_groups w0) (fd_lookupNode fd n)" using t by (simp_all add: untracked_def trace_ok_def)
  then have node: "\<forall>n \<in> N. issuable cfg (fst (wl_fixed w0)) (fd_lookupNode fd n)" by (simp add: wl_fixed_def)
  obtain hw s s' where has: "fd_has_node fd n" and end_node: "release (fd_lookupNode fd n) (wl_hw_resource w) = Inr hw"
    "record_end (fd_lookupNode fd n) now (wl_stats w) = Inr s" "f s = Inr s'"
    "wl_inv fd N par I (wl_fixed w0) now (insert n D) (R - {n}) {}
      (w\<lparr>wl_dep := fd_finish_node fd n (wl_dep w), wl_hw_resource := hw, wl_stats := s'\<rparr>)"
    using end_node_ok [OF laws inv, of f] stats by blast
  let ?w = "w\<lparr>wl_dep := fd_finish_node fd n (wl_dep w), wl_hw_resource := hw, wl_stats := s'\<rparr>"
  have same: "w\<lparr>wl_hw_resource := hw, wl_stats := s', wl_dep := fd_finish_node fd n (wl_dep w)\<rparr> = ?w" by simp
  have "finish_node cfg fd recv_later now n f w = issue_dep_free_nodes cfg fd recv_later now ?w"
    using has end_node(1-3) mem by (simp add: finish_node_def on_hw_def on_stats_def on_mem_def Let_def same)
  then show ?thesis
    using issue_dep_free_nodes_ok [OF laws mem node end_node(4)] unfolding issued_from_def by simp
qed

lemma handle_ok:
  assumes t: "untracked cfg fd N par I w0" and inv: "wl_inv fd N par I (wl_fixed w0) now D R {} w"
    and e: "e \<in> set (wl_events w)" "answers e event data"
  shows "\<exists>w' D' R' n. handle cfg fd recv_later now event data (drop_event e w) = Inr w' \<and>
    wl_inv fd N par I (wl_fixed w0) now D' R' {} w' \<and> n \<in> R \<and>
    issued_from cfg fd N par (insert n D) (R - {n}) D' R'"
proof -
  define n where "n = event_node (wl_collective_comm_node_id_map w) e"
  let ?w = "drop_event e w"
  note d = drop_event_inv [OF inv e(1), folded n_def]
  have node: ?thesis if "data = NodeData n" "event \<noteq> CollectiveCommunicationFinished"
  proof -
    define f where "f = (\<lambda>s. if event = PacketSent \<or> event = PacketReceived
        then rbind (execution_time_of n s) (\<lambda>t. set_bandwidth_of n t s) else Inr s)"
    have "\<exists>s'. f s = Inr s' \<and> stats_ok fd par now (insert n D) (R - {n}) s'"
      if "stats_ok fd par now (insert n D) (R - {n}) s" for s
      using execution_time_of_ok [OF that, of n] set_bandwidth_of_ok [OF that, of n] that by (auto simp: f_def)
    then show ?thesis
      using finish_node_ok [OF t d, of f] d(2) that unfolding handle_def f_def by simp blast
  qed
  have data_set: ?thesis if data: "data = IntData i x" "event = CollectiveCommunicationFinished"
    and i: "dataset_of e = Some i" "event_node (wl_collective_comm_node_id_map w) e = the (wl_collective_comm_node_id_map w i)" for i x
  proof -
    let ?hw = "wl_hw_resource ?w"
    define w1 where "w1 = ?w\<lparr>wl_hw_resource := ?hw\<lparr>hw_tics_gpu_comms := hw_tics_gpu_comms ?hw + x\<rparr>\<rparr>"
    have map: "wl_collective_comm_node_id_map w i = Some n"
      using inv e(1) i unfolding wl_inv_def events_ok_def n_def by force
    have w1: "wl_inv fd N par I (wl_fixed w0) now D R {n} w1" using d(1) by (simp add: w1_def wl_inv_def)
    have "handle cfg fd recv_later now event data ?w =
        rbind (finish_node cfg fd recv_later now n (set_bandwidth_of n (unat x)) w1)
          (\<lambda>w. Inr (w\<lparr>wl_collective_comm_wrapper_map := wl_collective_comm_wrapper_map w - {i}\<rparr>))"
      using map by (simp add: handle_def data w1_def Let_def drop_event_def)
    moreover obtain w' D' R' where "finish_node cfg fd recv_later now n (set_bandwidth_of n (unat x)) w1 = Inr w'"
      "wl_inv fd N par I (wl_fixed w0) now D' R' {} w'" "issued_from cfg fd N par (insert n D) (R - {n}) D' R'"
      using finish_node_ok [OF t w1 d(2), of "set_bandwidth_of n (unat x)"] set_bandwidth_of_ok by blast
    ultimately show ?thesis using d(2) by (auto simp: wl_inv_def)
  qed
  show ?thesis using e(2)
  proof cases
    case 1
    then have "data = NodeData n" "event \<noteq> CollectiveCommunicationFinished" by (simp_all add: n_def)
    then show ?thesis by (rule node)
  next
    case 2
    then have "data = NodeData n" "event \<noteq> CollectiveCommunicationFinished" by (simp_all add: n_def)
    then show ?thesis by (rule node)
  next
    case 3
    then show ?thesis using data_set by (metis dataset_of.simps(1) event_node.simps(3))
  next
    case 4
    then show ?thesis using data_set by (metis dataset_of.simps(2) event_node.simps(4))
  next
    case 5
    then have "data = NodeData n" "event \<noteq> CollectiveCommunicationFinished" by (simp_all add: n_def)
    then show ?thesis by (rule node)
  next
    case 6
    then have "data = NodeData n" "event \<noteq> CollectiveCommunicationFinished" by (simp_all add: n_def)
    then show ?thesis by (rule node)
  qed
qed

section \<open>The end of a workload\<close>

abbreviation free :: "nat set \<Rightarrow> (nat \<Rightarrow> nat set) \<Rightarrow> nat set \<Rightarrow> nat set \<Rightarrow> nat set" where
  "free N par D R \<equiv> {n \<in> N. n \<notin> D \<and> n \<notin> R \<and> par n \<subseteq> D}"

text \<open>The last part of a call.\<close>

definition conclude :: "wl_config \<Rightarrow> 'r et_feeder \<Rightarrow> 'r workload \<Rightarrow> 'r workload result" where
  "conclude cfg fd w =
     (if all_done fd w
      then rbind (report cfg w) (\<lambda>w. Inr (w\<lparr>wl_notified := wl_notified w + 1, wl_is_finished := True\<rparr>))
      else Inr w)"

lemma Workload_call_cases:
  "\<not> wl_is_finished w \<Longrightarrow> Workload_call_with cfg fd recv now event data w = rbind (handle cfg fd recv now event data w) (conclude cfg fd)"
  by (simp add: Workload_call_with_def conclude_def [abs_def])

lemma all_done_iff:
  assumes laws: "resolver_laws fd N par I" and inv: "wl_inv fd N par I G now D R {} w"
  shows "all_done fd w \<longleftrightarrow> R = {} \<and> free N par D R = {}"
proof -
  have I: "set (fd_dependancy_free_nodes fd (wl_dep w)) = free N par D R" "set (fd_ongoing_nodes fd (wl_dep w)) = R"
    using laws inv unfolding resolver_laws_def wl_inv_def by blast+
  have "in_flight k (wl_hw_resource w) = 0" if "R = {}" for k
    using inv that unfolding wl_inv_def hw_ok_def using_unit_def by fastforce
  from this [of UCpu] this [of UComp] this [of UComm] show ?thesis
    unfolding all_done_def using I by (auto simp flip: set_empty)
qed

text \<open>The invariant of a run. The workload has finished exactly when nothing is running and nothing is free.\<close>

definition run_inv ::
    "wl_config \<Rightarrow> 'r et_feeder \<Rightarrow> nat set \<Rightarrow> (nat \<Rightarrow> nat set) \<Rightarrow> 'r resolver_view \<Rightarrow> 'r workload \<Rightarrow> Tick \<Rightarrow>
     nat set \<Rightarrow> nat set \<Rightarrow> 'r workload \<Rightarrow> bool" where
  "run_inv cfg fd N par I w0 now D R w \<longleftrightarrow>
     wl_inv fd N par I (wl_comm_groups w0, wl_is_finished w, if wl_is_finished w then 1 else 0) now D R {} w \<and>
     (wl_is_finished w \<longleftrightarrow> R = {} \<and> free N par D R = {}) \<and>
     (wl_is_finished w \<longrightarrow> (\<forall>n \<in> D. reportable (fd_lookupNode fd n))) \<and>
     ((\<forall>n \<in> N. \<not> skips cfg (fd_lookupNode fd n)) \<longrightarrow> all_tried fd R (free N par D R))"

lemma run_invI:
  assumes "wl_inv fd N par I (wl_comm_groups w0, F, if F then 1 else 0) now D R {} w" "wl_is_finished w = F"
    and "F \<longleftrightarrow> R = {} \<and> free N par D R = {}" "F \<Longrightarrow> \<forall>n \<in> D. reportable (fd_lookupNode fd n)"
    and "(\<forall>n \<in> N. \<not> skips cfg (fd_lookupNode fd n)) \<longrightarrow> all_tried fd R (free N par D R)"
  shows "run_inv cfg fd N par I w0 now D R w"
  using assms unfolding run_inv_def by blast

lemma run_invD:
  assumes "run_inv cfg fd N par I w0 now D R w"
  shows "wl_inv fd N par I (wl_comm_groups w0, wl_is_finished w, if wl_is_finished w then 1 else 0) now D R {} w"
    "wl_is_finished w \<longleftrightarrow> R = {} \<and> free N par D R = {}" "wl_is_finished w \<Longrightarrow> \<forall>n \<in> D. reportable (fd_lookupNode fd n)"
    "(\<forall>n \<in> N. \<not> skips cfg (fd_lookupNode fd n)) \<longrightarrow> all_tried fd R (free N par D R)"
  using assms unfolding run_inv_def by blast+

lemma wl_fixed_new: "untracked cfg fd N par I w0 \<Longrightarrow> wl_fixed w0 = (wl_comm_groups w0, False, 0)"
  by (auto simp: untracked_def trace_ok_def Workload_new_def rbind_Inr_iff wl_fixed_def)

lemma post_processing_frame:
  "post_processing r s = Inr s' \<Longrightarrow> st_operator_statistics s' = st_operator_statistics s \<and> st_start_times s' = st_start_times s"
proof -
  assume post: "post_processing r s = Inr s'"
  have overlap: "st_operator_statistics s2 = st_operator_statistics s1 \<and> st_start_times s2 = st_start_times s1"
    if "extract_comp_comm_overlap s1 = Inr s2" for s1 s2
    using that by (auto simp: extract_comp_comm_overlap_def split: if_splits option.splits)
  have types: "st_operator_statistics (extract_type_time s1) = st_operator_statistics s1"
    "st_start_times (extract_type_time s1) = st_start_times s1" for s1
    by (simp_all add: extract_type_time_def)
  obtain w where "wall_time_loop (st_operator_statistics s) 0 = Inr w"
    using post by (cases "wall_time_loop (st_operator_statistics s) 0") (simp_all add: post_processing_cases)
  then show ?thesis using post overlap types by (cases r) (fastforce simp: post_processing_cases)+
qed

lemma wl_inv_finish:
  assumes "wl_inv fd N par I (G, False, 0) now D R {} w"
  shows "wl_inv fd N par I (G, True, 1) now D R {} (w\<lparr>wl_notified := wl_notified w + 1, wl_is_finished := True\<rparr>)"
  using assms by (simp add: wl_inv_def wl_fixed_def events_ok_def)

lemma conclude_ok:
  assumes t: "untracked cfg fd N par I w0" and inv: "wl_inv fd N par I (wl_fixed w0) now D R {} w"
    and tried: "(\<forall>n \<in> N. \<not> skips cfg (fd_lookupNode fd n)) \<longrightarrow> all_tried fd R (free N par D R)"
    and w': "conclude cfg fd w = Inr w'"
  shows "run_inv cfg fd N par I w0 now D R w'"
proof -
  have laws: "resolver_laws fd N par I" and mem: "\<not> wc_track_local_mem cfg" using t by (simp_all add: untracked_def trace_ok_def)
  have G: "wl_fixed w0 = (wl_comm_groups w0, False, 0)" by (rule wl_fixed_new [OF t])
  have open_w: "wl_fixed w = (wl_comm_groups w0, False, 0)" using inv G by (simp add: wl_inv_def)
  show ?thesis
  proof (cases "all_done fd w")
    case False
    then have "w' = w" "\<not> wl_is_finished w" using w' open_w by (simp_all add: conclude_def wl_fixed_def)
    moreover have "wl_inv fd N par I (wl_comm_groups w0, False, if False then 1 else 0) now D R {} w" using inv G by simp
    moreover have "False \<longleftrightarrow> R = {} \<and> free N par D R = {}" using False all_done_iff [OF laws inv] by blast
    ultimately show ?thesis using tried by (intro run_invI [where F = False]) blast+
  next
    case True
    then obtain s where s: "post_processing (wc_roofline_enabled cfg) (wl_stats w) = Inr s"
      "w' = (w\<lparr>wl_stats := s\<rparr>)\<lparr>wl_notified := wl_notified w + 1, wl_is_finished := True\<rparr>"
      using w' mem by (auto simp: conclude_def report_def on_stats_def on_mem_def rbind_Inr_iff)
    have stats: "stats_ok fd par now D R (wl_stats w)" using inv by (simp add: wl_inv_def)
    then have "stats_ok fd par now D R s" by (simp add: stats_ok_def post_processing_frame [OF s(1)])
    then have "wl_inv fd N par I (wl_comm_groups w0, True, if True then 1 else 0) now D R {} w'"
      unfolding s(2) using wl_inv_finish [OF wl_inv_stats [OF inv [unfolded G]]] by simp
    moreover have "reportable (fd_lookupNode fd n)" if "n \<in> D" for n
    proof -
      have "n \<in> dom (map_of (st_operator_statistics (wl_stats w)))" using stats that by (simp add: stats_ok_def)
      then obtain stat where stat: "map_of (st_operator_statistics (wl_stats w)) n = Some stat" by blast
      have "\<forall>(i, stat) \<in> set (st_operator_statistics (wl_stats w)).
          os_end_time stat \<noteq> INVALID_TICK \<and> os_type stat \<in> {OT_GPU, OT_COMM}"
        using s(1) post_processing_Inr by blast
      then have "os_type stat \<in> {OT_GPU, OT_COMM}" using map_of_SomeD [OF stat] by blast
      moreover have "get_operator_type (fd_lookupNode fd n) = Inr (os_type stat)"
        using stats stat unfolding stats_ok_def stat_ok_def by blast
      ultimately show ?thesis unfolding reportable_def by auto
    qed
    moreover have "wl_is_finished w'" by (simp add: s(2))
    moreover have "True \<longleftrightarrow> R = {} \<and> free N par D R = {}" using True all_done_iff [OF laws inv] by blast
    ultimately show ?thesis using tried by (intro run_invI [where F = True]) blast+
  qed
qed

lemma conclude_returns:
  assumes t: "untracked cfg fd N par I w0" and inv: "wl_inv fd N par I G now D R {} w"
    and "now < INVALID_TICK" and rep: "\<forall>n \<in> N. reportable (fd_lookupNode fd n)"
  shows "\<exists>w'. conclude cfg fd w = Inr w'"
proof (cases "all_done fd w")
  case True
  have laws: "resolver_laws fd N par I" and mem: "\<not> wc_track_local_mem cfg" using t by (simp_all add: untracked_def trace_ok_def)
  have stats: "stats_ok fd par now D R (wl_stats w)" "R = {}" "D \<subseteq> N"
    using inv True all_done_iff [OF laws inv] by (auto simp: wl_inv_def)
  have "os_end_time stat \<noteq> INVALID_TICK \<and> os_type stat \<in> {OT_GPU, OT_COMM}"
    if "(n, stat) \<in> set (st_operator_statistics (wl_stats w))" for n stat
  proof -
    have n: "map_of (st_operator_statistics (wl_stats w)) n = Some stat"
      using that stats(1) unfolding stats_ok_def by simp
    then have "n \<in> D" "stat_ok fd par now D (map_of (st_operator_statistics (wl_stats w))) n stat"
      using stats unfolding stats_ok_def by blast+
    then show ?thesis using assms(3) rep stats(3) unfolding stat_ok_def reportable_def by force
  qed
  then obtain s where "post_processing (wc_roofline_enabled cfg) (wl_stats w) = Inr s"
    using post_processing_Inr [of "wc_roofline_enabled cfg" "wl_stats w"] by fast
  then show ?thesis using mem by (simp add: conclude_def report_def on_stats_def on_mem_def)
qed (simp add: conclude_def)

lemma tried_after:
  assumes "issued_from cfg fd N par D R D' R'" "\<forall>n \<in> N. \<not> skips cfg (fd_lookupNode fd n)"
  shows "all_tried fd R' (free N par D' R')"
proof -
  have "D' = D" "all_tried fd R' (free N par D R)" "R \<subseteq> R'" using assms unfolding issued_from_def by blast+
  then show ?thesis unfolding all_tried_def by auto
qed

lemma start_inv:
  assumes t: "untracked cfg fd N par I w0"
  shows "wl_inv fd N par I (wl_fixed w0) now {} {} {} w0"
proof -
  have hw: "hw_ok fd {} (HardwareResource_new n)" for n
  proof -
    have "nodes_on k (HardwareResource_new n) = {}" "in_flight k (HardwareResource_new n) = 0" for k
      by (cases k; simp add: HardwareResource_new_def)+
    then show ?thesis by (simp add: hw_ok_def using_unit_def)
  qed
  then show ?thesis
    using t by (auto simp: untracked_def trace_ok_def wl_inv_def Workload_new_def rbind_Inr_iff stats_ok_def Statistics_new_def events_ok_def)
qed

lemma fire_ok:
  assumes t: "untracked cfg fd N par I w0"
  shows "\<exists>w D R. handle cfg fd recv_later now General NoData w0 = Inr w \<and> wl_inv fd N par I (wl_fixed w0) now D R {} w \<and>
    issued_from cfg fd N par {} {} D R"
proof -
  have laws: "resolver_laws fd N par I" and mem: "\<not> wc_track_local_mem cfg" and
    "\<forall>n \<in> N. issuable cfg (wl_comm_groups w0) (fd_lookupNode fd n)" using t by (simp_all add: untracked_def trace_ok_def)
  then have node: "\<forall>n \<in> N. issuable cfg (fst (wl_fixed w0)) (fd_lookupNode fd n)" by (simp add: wl_fixed_def)
  note issued = issue_dep_free_nodes_ok [OF laws mem node start_inv [OF t]]
  have "handle cfg fd recv_later now General NoData w0 = issue_dep_free_nodes cfg fd recv_later now w0" by (simp add: handle_def)
  then show ?thesis using issued unfolding issued_from_def by simp
qed

lemma run_inv_unfinished:
  "run_inv cfg fd N par I w0 now D R w \<Longrightarrow> untracked cfg fd N par I w0 \<Longrightarrow> \<not> wl_is_finished w \<Longrightarrow>
     wl_inv fd N par I (wl_fixed w0) now D R {} w"
  by (simp add: run_inv_def wl_fixed_new)

lemma run_inv_events:
  assumes "run_inv cfg fd N par I w0 now D R w"
  shows "wl_events w = [] \<longleftrightarrow> R = {}"
proof -
  note inv = run_invD(1) [OF assms, unfolded wl_inv_def]
  have "finite R" using inv by (meson Un_subset_iff finite_subset)
  moreover have "image_mset (event_node (wl_collective_comm_node_id_map w)) (mset (wl_events w)) = mset_set R"
    using inv unfolding events_ok_def by simp
  ultimately show ?thesis by (metis Multiset.mset_zero_iff image_mset_is_empty_iff mset_set_empty_iff)
qed

lemma wl_inv_next:
  assumes inv: "wl_inv fd N par I G now D R {} w" and "wl_next_dataset w \<le> i"
  shows "wl_inv fd N par I G now D R {} (w\<lparr>wl_next_dataset := i\<rparr>)"
proof -
  have "events_ok R (w\<lparr>wl_next_dataset := i\<rparr>)"
    using inv assms(2) unfolding wl_inv_def events_ok_def by (simp; blast intro: less_le_trans)
  then show ?thesis using inv by (simp add: wl_inv_def)
qed

lemma run_ok:
  assumes "wl_run depth arrived cfg fd w0 n now w" and later: "answers_later arrived" and t: "untracked cfg fd N par I w0"
  shows "\<exists>D R. run_inv cfg fd N par I w0 now D R w \<and> n \<le> 1 + card D"
  using assms(1)
proof induction
  case (fired now w)
  have "\<not> wl_is_finished w0" using wl_fixed_new [OF t] by (simp add: wl_fixed_def)
  obtain w1 D R where w1: "handle cfg fd recv_later now General NoData w0 = Inr w1" "wl_inv fd N par I (wl_fixed w0) now D R {} w1"
    "issued_from cfg fd N par {} {} D R"
    using fire_ok [OF t, of now] by blast
  have "conclude cfg fd w1 = Inr w"
    using fired w1(1) \<open>\<not> wl_is_finished w0\<close> by (simp add: fire_def Workload_call_later [OF later] Workload_call_cases)
  then have "run_inv cfg fd N par I w0 now D R w" using conclude_ok [OF t w1(2)] tried_after [OF w1(3)] by blast
  then show ?case by (intro exI [of _ D] exI [of _ R]) simp
next
  case (datasets_taken n now w i)
  then obtain D R where inv: "run_inv cfg fd N par I w0 now D R w" "n \<le> 1 + card D" by blast
  have "wl_inv fd N par I (wl_comm_groups w0, wl_is_finished w, if wl_is_finished w then 1 else 0) now D R {}
      (w\<lparr>wl_next_dataset := i\<rparr>)"
    by (rule wl_inv_next [OF run_invD(1) [OF inv(1)] datasets_taken(2)])
  then have "run_inv cfg fd N par I w0 now D R (w\<lparr>wl_next_dataset := i\<rparr>)"
    using run_invI [OF _ _ run_invD(2,3,4) [OF inv(1)]] by simp
  then show ?case using inv(2) by blast
next
  case (answered n t' w now e event data w')
  obtain D R where inv: "run_inv cfg fd N par I w0 t' D R w" "n \<le> 1 + card D" using answered.IH by blast
  have "R \<noteq> {}" using run_inv_events [OF inv(1)] answered(3) by auto
  then have fin: "\<not> wl_is_finished w" using inv(1) by (simp add: run_inv_def)
  then have now: "wl_inv fd N par I (wl_fixed w0) now D R {} w"
    using run_inv_unfinished [OF inv(1) t] wl_inv_mono answered(2) by blast
  obtain w1 D' R' m where w1: "handle cfg fd recv_later now event data (drop_event e w) = Inr w1"
    "wl_inv fd N par I (wl_fixed w0) now D' R' {} w1" "m \<in> R" "issued_from cfg fd N par (insert m D) (R - {m}) D' R'"
    using handle_ok [OF t now answered(3,4)] by blast
  have "conclude cfg fd w1 = Inr w'"
    using answered(5) w1(1) fin by (simp add: Workload_call_later [OF later] Workload_call_cases drop_event_def)
  then have "run_inv cfg fd N par I w0 now D' R' w'" using conclude_ok [OF t w1(2)] tried_after [OF w1(4)] by blast
  moreover have "Suc n \<le> 1 + card D'"
  proof -
    have "finite D'" "m \<notin> D" "insert m D \<subseteq> D'"
      using w1(2-4) now unfolding wl_inv_def issued_from_def by (auto intro: finite_subset)
    then have "Suc (card D) \<le> card D'" by (metis card_insert_disjoint card_mono finite_insert finite_subset)
    then show ?thesis using inv(2) by simp
  qed
  ultimately show ?case by blast
qed

end
