(* ===== verification/Workload_Tracking.thy ===== *)
theory Workload_Tracking
  imports Workload_Runs
begin

text \<open>
  The tracking of the local memory only watches: a run with the tracker on is also a run with the tracker
  off, once what the tracker holds is forgotten. What is proved of workloads without a tracker therefore
  holds for all of them, except that with a tracker a call can fail.
\<close>

section \<open>Forgetting the tracker\<close>

definition untrack :: "wl_config \<Rightarrow> wl_config" where
  "untrack cfg = cfg\<lparr>wc_track_local_mem := False\<rparr>"

definition forget :: "mem_tracker option \<Rightarrow> 'r workload \<Rightarrow> 'r workload" where
  "forget m w = w\<lparr>wl_local_mem_usage_tracker := m\<rparr>"

lemma untrack_simps [simp]:
  "wc_id (untrack cfg) = wc_id cfg" "wc_total_nodes (untrack cfg) = wc_total_nodes cfg"
  "wc_replay_only (untrack cfg) = wc_replay_only cfg" "wc_roofline_enabled (untrack cfg) = wc_roofline_enabled cfg"
  "wc_peak_perf (untrack cfg) = wc_peak_perf cfg" "wc_local_mem_bw (untrack cfg) = wc_local_mem_bw cfg"
  "wc_roofline (untrack cfg) = wc_roofline cfg" "wc_parse_pg (untrack cfg) = wc_parse_pg cfg"
  "\<not> wc_track_local_mem (untrack cfg)"
  by (simp_all add: untrack_def)

lemma forget_simps [simp]:
  "wl_dep (forget m w) = wl_dep w" "wl_comm_groups (forget m w) = wl_comm_groups w"
  "wl_hw_resource (forget m w) = wl_hw_resource w" "wl_stats (forget m w) = wl_stats w"
  "wl_collective_comm_node_id_map (forget m w) = wl_collective_comm_node_id_map w"
  "wl_collective_comm_wrapper_map (forget m w) = wl_collective_comm_wrapper_map w"
  "wl_is_finished (forget m w) = wl_is_finished w" "wl_next_dataset (forget m w) = wl_next_dataset w"
  "wl_events (forget m w) = wl_events w" "wl_notified (forget m w) = wl_notified w"
  by (simp_all add: forget_def)

lemma forget_updates:
  "(forget m w)\<lparr>wl_dep := d\<rparr> = forget m (w\<lparr>wl_dep := d\<rparr>)"
  "(forget m w)\<lparr>wl_comm_groups := g\<rparr> = forget m (w\<lparr>wl_comm_groups := g\<rparr>)"
  "(forget m w)\<lparr>wl_hw_resource := hw\<rparr> = forget m (w\<lparr>wl_hw_resource := hw\<rparr>)"
  "(forget m w)\<lparr>wl_stats := s\<rparr> = forget m (w\<lparr>wl_stats := s\<rparr>)"
  "(forget m w)\<lparr>wl_collective_comm_node_id_map := ids\<rparr> = forget m (w\<lparr>wl_collective_comm_node_id_map := ids\<rparr>)"
  "(forget m w)\<lparr>wl_collective_comm_wrapper_map := ws\<rparr> = forget m (w\<lparr>wl_collective_comm_wrapper_map := ws\<rparr>)"
  "(forget m w)\<lparr>wl_is_finished := b\<rparr> = forget m (w\<lparr>wl_is_finished := b\<rparr>)"
  "(forget m w)\<lparr>wl_next_dataset := i\<rparr> = forget m (w\<lparr>wl_next_dataset := i\<rparr>)"
  "(forget m w)\<lparr>wl_events := es\<rparr> = forget m (w\<lparr>wl_events := es\<rparr>)"
  "(forget m w)\<lparr>wl_notified := k\<rparr> = forget m (w\<lparr>wl_notified := k\<rparr>)"
  by (simp_all add: forget_def)

lemma forget_forgotten: "forget m (w\<lparr>wl_local_mem_usage_tracker := x\<rparr>) = forget m w"
  by (simp add: forget_def)

text \<open>What \<open>f\<close> does with the tracker, \<open>g\<close> does without it.\<close>

definition forgets ::
    "mem_tracker option \<Rightarrow> ('r workload \<Rightarrow> 'r workload result) \<Rightarrow> ('r workload \<Rightarrow> 'r workload result) \<Rightarrow> bool" where
  "forgets m f g \<longleftrightarrow> (\<forall>w w'. f w = Inr w' \<longrightarrow> g (forget m w) = Inr (forget m w'))"

lemma forgetsI: "(\<And>w w'. f w = Inr w' \<Longrightarrow> g (forget m w) = Inr (forget m w')) \<Longrightarrow> forgets m f g"
  unfolding forgets_def by blast

lemma forgetsD: "forgets m f g \<Longrightarrow> f w = Inr w' \<Longrightarrow> g (forget m w) = Inr (forget m w')"
  unfolding forgets_def by blast

lemma forgets_rbind:
  "forgets m f g \<Longrightarrow> (\<And>w. forgets m f' g') \<Longrightarrow> forgets m (\<lambda>w. rbind (f w) f') (\<lambda>w. rbind (g w) g')"
  unfolding forgets_def by (auto simp: rbind_Inr_iff)

lemma forgets_fold: "(\<And>x. forgets m (f x) (g x)) \<Longrightarrow> forgets m (fold_result f xs) (fold_result g xs)"
  unfolding forgets_def by (induction xs) (auto simp: rbind_Inr_iff)

section \<open>Operations\<close>

lemma forgets_parts:
  "forgets m (on_hw f) (on_hw f)" "forgets m (on_stats g) (on_stats g)" "forgets m (on_mem cfg h) (on_mem (untrack cfg) h)"
  by (auto simp: forgets_def on_hw_def on_stats_def on_mem_def rbind_Inr_iff forget_updates forget_forgotten
      split: if_splits option.splits)

lemma forgets_skip: "forgets m (skip_invalid cfg fd now node) (skip_invalid (untrack cfg) fd now node)"
proof -
  have "forgets m (\<lambda>w. rbind (on_stats f w) (on_mem cfg g)) (\<lambda>w. rbind (on_stats f w) (on_mem (untrack cfg) g))" for f g
    by (intro forgets_rbind forgets_parts)
  then have "forgets m (\<lambda>w. rbind (on_hw h w) (\<lambda>w. rbind (on_stats f w) (on_mem cfg g)))
      (\<lambda>w. rbind (on_hw h w) (\<lambda>w. rbind (on_stats f w) (on_mem (untrack cfg) g)))" for f g h
    by (intro forgets_rbind forgets_parts)
  from forgetsD [OF this] show ?thesis by (intro forgetsI) (simp add: skip_invalid_def forget_updates)
qed

lemma forgets_groups: "forgets m (add_groups cfg items) (add_groups (untrack cfg) items)"
proof (rule forgetsI)
  show "add_groups cfg items w = Inr w' \<Longrightarrow> add_groups (untrack cfg) items (forget m w) = Inr (forget m w')" for w w'
  proof (induction cfg items w rule: add_groups.induct)
    case (2 cfg pgName ranks items w)
    then show ?case by (auto simp: Let_def rbind_Inr_iff forget_updates split: sum.splits)
  qed simp
qed

lemma forgets_metadata: "forgets m (issue_metadata cfg fd now node) (issue_metadata (untrack cfg) fd now node)"
proof -
  have "forgets m (issue_pytorch_pg_metadata cfg node) (issue_pytorch_pg_metadata (untrack cfg) node)"
    using forgetsD [OF forgets_groups] by (intro forgetsI) (auto simp: issue_pytorch_pg_metadata_def Let_def split: if_splits)
  then show ?thesis unfolding issue_metadata_def by (intro forgets_rbind forgets_skip)
qed

lemma forgets_start: "start_event e (forget m w) = forget m (start_event e w)"
  "count_tics node rt (forget m w) = forget m (count_tics node rt w)"
  "watch_dataset node ev (forget m w) = forget m (watch_dataset node ev w)"
  by (simp_all add: start_event_def count_tics_def watch_dataset_def Let_def forget_def)

lemma forgets_comp: "forgets m (issue_comp cfg fd now node) (issue_comp (untrack cfg) fd now node)"
  using forgetsD [OF forgets_skip] forgetsD [OF forgets_parts(2)]
  by (intro forgetsI)
    (auto simp: issue_comp_def Let_def rbind_Inr_iff forgets_start split: if_splits intro!: forgetsD [OF forgets_parts(2)])

lemma extract_comm_group_forget [simp]: "extract_comm_group node (forget m w) = extract_comm_group node w"
  by (simp add: extract_comm_group_def Let_def split: option.splits)

lemma forgets_comm: "forgets m (issue_comm cfg recv_later node) (issue_comm (untrack cfg) recv_later node)"
proof -
  have "forgets m (issue_coll_comm node) (issue_coll_comm node)"
    by (intro forgetsI) (auto simp: issue_coll_comm_def rbind_Inr_iff forgets_start on_stats_def forget_updates
        split: option.splits if_splits)
  moreover have "forgets m (issue_send_comm cfg node) (issue_send_comm (untrack cfg) node)"
    "forgets m (issue_recv_comm cfg recv_later node) (issue_recv_comm (untrack cfg) recv_later node)"
    by (intro forgetsI; auto simp: issue_send_comm_def issue_recv_comm_def recv_later_def rbind_Inr_iff forgets_start
        on_stats_def forget_updates split: if_splits)+
  ultimately show ?thesis by (intro forgetsI) (auto simp: issue_comm_def intro: forgetsD split: if_splits)
qed

lemma forgets_dispatch: "forgets m (dispatch cfg fd recv_later now node) (dispatch (untrack cfg) fd recv_later now node)"
proof -
  have "forgets m (issue_replay node) (issue_replay node)" "forgets m (issue_remote_mem node) (issue_remote_mem node)"
    by (simp_all add: forgets_def issue_replay_def issue_remote_mem_def forgets_start)
  then show ?thesis
    by (intro forgetsI)
      (auto simp: dispatch_def split: if_splits intro: forgetsD forgetsD [OF forgets_comm] forgetsD [OF forgets_comp]
        forgetsD [OF forgets_skip] forgetsD [OF forgets_metadata])
qed

lemma forgets_issue: "forgets m (issue cfg fd recv_later now node) (issue (untrack cfg) fd recv_later now node)"
proof -
  have "forgets m
      (\<lambda>w. rbind (on_hw h w) (\<lambda>w. rbind (on_stats f w) (\<lambda>w. rbind (on_mem cfg g w) (dispatch cfg fd recv_later now node))))
      (\<lambda>w. rbind (on_hw h w) (\<lambda>w. rbind (on_stats f w) (\<lambda>w. rbind (on_mem (untrack cfg) g w)
        (dispatch (untrack cfg) fd recv_later now node))))" for f g h
    by (intro forgets_rbind forgets_parts forgets_dispatch)
  from forgetsD [OF this] show ?thesis by (intro forgetsI) (simp add: issue_def forget_updates)
qed

lemma forgets_issue_dep_free_nodes:
  "forgets m (issue_dep_free_nodes cfg fd recv_later now) (issue_dep_free_nodes (untrack cfg) fd recv_later now)"
proof -
  let ?f = "\<lambda>cfg node_id w. if \<not> fd_has_node fd node_id then Inl (NullDeref ''node'')
    else (let node = fd_lookupNode fd node_id in
      if is_available node (wl_hw_resource w) then issue cfg fd recv_later now node w else Inr w)"
  have "forgets m (?f cfg n) (?f (untrack cfg) n)" for n
    using forgetsD [OF forgets_issue] by (intro forgetsI) (auto simp: Let_def split: if_splits)
  from forgetsD [OF forgets_fold [of m "?f cfg", OF this]] show ?thesis by (intro forgetsI) (simp add: issue_dep_free_nodes_def)
qed

lemma forgets_finish_node: "forgets m (finish_node cfg fd recv_later now n f) (finish_node (untrack cfg) fd recv_later now n f)"
proof -
  have "forgets m (\<lambda>w. issue_dep_free_nodes cfg fd recv_later now (w\<lparr>wl_dep := fd_finish_node fd n (wl_dep w)\<rparr>))
      (\<lambda>w. issue_dep_free_nodes (untrack cfg) fd recv_later now (w\<lparr>wl_dep := fd_finish_node fd n (wl_dep w)\<rparr>))"
    using forgetsD [OF forgets_issue_dep_free_nodes] by (intro forgetsI) (simp add: forget_updates)
  then have "forgets m
      (\<lambda>w. rbind (on_hw h w) (\<lambda>w. rbind (on_stats f1 w) (\<lambda>w. rbind (on_stats f2 w) (\<lambda>w. rbind (on_mem cfg g w)
        (\<lambda>w. issue_dep_free_nodes cfg fd recv_later now (w\<lparr>wl_dep := fd_finish_node fd n (wl_dep w)\<rparr>))))))
      (\<lambda>w. rbind (on_hw h w) (\<lambda>w. rbind (on_stats f1 w) (\<lambda>w. rbind (on_stats f2 w) (\<lambda>w. rbind (on_mem (untrack cfg) g w)
        (\<lambda>w. issue_dep_free_nodes (untrack cfg) fd recv_later now (w\<lparr>wl_dep := fd_finish_node fd n (wl_dep w)\<rparr>))))))"
    for f1 f2 g h by (intro forgets_rbind forgets_parts)
  from forgetsD [OF this] show ?thesis by (intro forgetsI) (simp add: finish_node_def Let_def split: if_splits)
qed

lemma forgets_handle: "forgets m (handle cfg fd recv_later now event data) (handle (untrack cfg) fd recv_later now event data)"
  by (intro forgetsI)
    (auto simp: handle_def Let_def rbind_Inr_iff forget_updates split: wl_data.splits if_splits
      dest!: forgetsD [OF forgets_finish_node [where cfg = cfg and m = m]]
        forgetsD [OF forgets_issue_dep_free_nodes [where cfg = cfg and m = m]])

lemma forgets_call:
  "forgets m (Workload_call_with cfg fd recv_later now event data) (Workload_call_with (untrack cfg) fd recv_later now event data)"
proof -
  have report: "forgets m (report cfg) (report (untrack cfg))"
    by (intro forgetsI) (auto simp: report_def on_stats_def on_mem_def rbind_Inr_iff forget_updates forget_forgotten
        split: if_splits option.splits)
  have finished: "all_done fd (forget m w) = all_done fd w" for w by (simp add: all_done_def)
  show ?thesis
    by (intro forgetsI)
      (auto simp: Workload_call_with_def rbind_Inr_iff finished forget_updates split: if_splits
        dest!: forgetsD [OF forgets_handle [where cfg = cfg and m = m]] forgetsD [OF report])
qed

section \<open>Runs\<close>

lemma wl_run_untrack:
  assumes "wl_run depth arrived cfg fd w0 n now w" and later: "answers_later arrived"
  shows "wl_run depth arrived (untrack cfg) fd (forget m w0) n now (forget m w)"
  using assms(1)
proof induction
  case (fired now w)
  then show ?case
    using forgetsD [OF forgets_call] by (intro wl_run.fired) (simp add: fire_def Workload_call_later [OF later])
next
  case (datasets_taken n now w i)
  then show ?case using wl_run.datasets_taken [of depth arrived "untrack cfg" fd "forget m w0" n now "forget m w" i]
    by (simp add: forget_updates)
next
  case (answered n t w now e event data w')
  have "drop_event e (forget m w) = forget m (drop_event e w)" by (simp add: drop_event_def forget_updates)
  then have "Workload_call depth arrived (untrack cfg) fd now event data (drop_event e (forget m w)) = Inr (forget m w')"
    using answered(5) forgetsD [OF forgets_call] by (simp add: Workload_call_later [OF later])
  then show ?case using answered by (intro wl_run.answered [OF answered.IH]) simp_all
qed

lemma Workload_new_untrack [simp]: "Workload_new (untrack cfg) = Workload_new cfg"
  by (intro ext) (simp add: Workload_new_def)

lemma untracked_untrack:
  assumes "trace_ok cfg fd N par I w0"
  shows "untracked (untrack cfg) fd N par I (forget (wl_local_mem_usage_tracker w0) w0)"
proof -
  have "issuable (untrack cfg) G node = issuable cfg G node" for G node by (simp add: issuable_def)
  moreover have "forget (wl_local_mem_usage_tracker w0) w0 = w0" by (simp add: forget_def)
  ultimately show ?thesis using assms unfolding untracked_def trace_ok_def by auto
qed

lemma skips_untrack [simp]: "skips (untrack cfg) node = skips cfg node"
  by (simp add: skips_def)

text \<open>A run, whether the memory is tracked or not, has the invariant of a run without a tracker.\<close>

lemma tracked_run_ok:
  assumes "wl_run depth arrived cfg fd w0 n now w" "answers_later arrived" "trace_ok cfg fd N par I w0"
  shows "\<exists>D R. run_inv (untrack cfg) fd N par I w0 now D R (forget (wl_local_mem_usage_tracker w0) w) \<and> n \<le> 1 + card D"
proof -
  let ?m = "wl_local_mem_usage_tracker w0"
  have "forget ?m w0 = w0" by (simp add: forget_def)
  then show ?thesis
    using run_ok [OF wl_run_untrack [OF assms(1,2), of ?m] assms(2) untracked_untrack [OF assms(3)]] by simp
qed

end
