(* ===== verification/Workload_Properties.thy ===== *)
theory Workload_Properties
  imports Workload_Tracking
begin

text \<open>
  What the runs of a workload guarantee, and two ways in which a simulation does not end: a node that is
  skipped can leave its children behind, and a node of a type that the statistics do not accept makes the
  final report fail.
\<close>

section \<open>Reachable states\<close>

text \<open>A trace without cycles whose dependencies are nodes of the trace.\<close>

definition acyclic_trace :: "nat set \<Rightarrow> (nat \<Rightarrow> nat set) \<Rightarrow> bool" where
  "acyclic_trace N par \<longleftrightarrow> (\<forall>n \<in> N. par n \<subseteq> N) \<and> (\<exists>rank :: nat \<Rightarrow> nat. \<forall>n \<in> N. \<forall>p \<in> par n. rank p < rank n)"

lemma acyclic_free:
  assumes "acyclic_trace N par" "D \<subseteq> N" "free N par D {} = {}"
  shows "D = N"
proof (rule ccontr)
  assume "D \<noteq> N"
  then have left: "N - D \<noteq> {}" using assms(2) by blast
  obtain rank :: "nat \<Rightarrow> nat" where rank: "\<forall>n \<in> N. \<forall>p \<in> par n. rank p < rank n"
    using assms(1) unfolding acyclic_trace_def by blast
  define n where "n = arg_min rank (\<lambda>n. n \<in> N - D)"
  have n: "n \<in> N - D" "\<forall>m \<in> N - D. rank n \<le> rank m"
    using left arg_min_nat_lemma [of "\<lambda>n. n \<in> N - D" _ rank] unfolding n_def by blast+
  have "par n \<subseteq> D"
  proof
    fix p assume p: "p \<in> par n"
    then have "p \<in> N" "rank p < rank n" using n(1) assms(1) rank unfolding acyclic_trace_def by blast+
    then show "p \<in> D" using n(2) by (meson DiffI not_le)
  qed
  then show False using n(1) assms(3) by blast
qed

lemma run_stats:
  assumes "run_inv cfg fd N par I w0 now D R w"
  shows "stats_ok fd par now D R (wl_stats w)" "hw_ok fd R (wl_hw_resource w)" "D \<inter> R = {}" "D \<union> R \<subseteq> N"
    "wl_notified w = (if wl_is_finished w then 1 else 0)" "finite N"
  using run_invD(1) [OF assms] by (auto simp: wl_inv_def wl_fixed_def)

lemma run_ended:
  assumes "run_inv cfg fd N par I w0 now D R w" "now < INVALID_TICK"
  shows "n \<in> R \<longleftrightarrow> (\<exists>stat. map_of (st_operator_statistics (wl_stats w)) n = Some stat \<and> os_end_time stat = INVALID_TICK)"
proof -
  have dom: "dom (map_of (st_operator_statistics (wl_stats w))) = D \<union> R" and
    stat: "\<And>stat. map_of (st_operator_statistics (wl_stats w)) n = Some stat \<Longrightarrow>
      (if n \<in> D then os_end_time stat \<le> now else os_end_time stat = INVALID_TICK)"
    using run_stats(1) [OF assms(1)] unfolding stats_ok_def stat_ok_def by presburger+
  show ?thesis
  proof
    assume "n \<in> R"
    then have "n \<notin> D" "n \<in> dom (map_of (st_operator_statistics (wl_stats w)))" using dom run_stats(3) [OF assms(1)] by auto
    then show "\<exists>stat. map_of (st_operator_statistics (wl_stats w)) n = Some stat \<and> os_end_time stat = INVALID_TICK"
      using stat by auto
  next
    assume "\<exists>stat. map_of (st_operator_statistics (wl_stats w)) n = Some stat \<and> os_end_time stat = INVALID_TICK"
    then obtain st where st: "map_of (st_operator_statistics (wl_stats w)) n = Some st" "os_end_time st = INVALID_TICK" by blast
    then have "n \<notin> D" using stat [OF st(1)] assms(2) by (auto split: if_splits)
    then show "n \<in> R" using dom st(1) by blast
  qed
qed

text \<open>The same for any run, with or without a tracker.\<close>

lemma any_run:
  assumes "wl_run depth arrived cfg fd w0 k now w" "answers_later arrived" "trace_ok cfg fd N par I w0"
  obtains D R w' where "run_inv (untrack cfg) fd N par I w0 now D R w'" "k \<le> 1 + card D"
    "wl_stats w' = wl_stats w" "wl_hw_resource w' = wl_hw_resource w" "wl_notified w' = wl_notified w"
    "wl_is_finished w' = wl_is_finished w" "wl_events w' = wl_events w"
  using tracked_run_ok [OF assms] by (metis forget_simps(3,4,7,9,10))

section \<open>A concrete feeder\<close>

text \<open>
  A resolver that keeps the lists of finished and of ongoing nodes satisfies the laws; a trace of three
  GPU compute nodes, a send and a receive.
\<close>

definition list_feeder :: "nat list \<Rightarrow> (nat \<Rightarrow> nat list) \<Rightarrow> (nat \<Rightarrow> et_node) \<Rightarrow> (nat list \<times> nat list) et_feeder" where
  "list_feeder ns par nodes =
     \<lparr>fd_lookupNode = nodes,
      fd_has_node = (\<lambda>n. n \<in> set ns),
      fd_dependancy_free_nodes = (\<lambda>(finished, running).
        filter (\<lambda>n. n \<notin> set finished \<and> n \<notin> set running \<and> set (par n) \<subseteq> set finished) ns),
      fd_ongoing_nodes = (\<lambda>(finished, running). running),
      fd_take_node = (\<lambda>n (finished, running). (finished, n # running)),
      fd_finish_node = (\<lambda>n (finished, running). (n # finished, removeAll n running))\<rparr>"

definition list_view :: "(nat list \<times> nat list) resolver_view" where
  "list_view r D R \<longleftrightarrow> set (fst r) = D \<and> set (snd r) = R"

lemma list_feeder_laws:
  "\<forall>n \<in> set ns. et_id (nodes n) = n \<Longrightarrow> resolver_laws (list_feeder ns par nodes) (set ns) (\<lambda>n. set (par n)) list_view"
  by (auto simp: resolver_laws_def list_feeder_def list_view_def)

definition demo_op :: "ChakraNodeType \<Rightarrow> u64 \<Rightarrow> nat \<Rightarrow> et_node" where
  "demo_op type tensor_size i =
     \<lparr>et_id = i, et_name = ''op'', et_type = type, et_runtime = 1, et_is_cpu_op = False,
      et_is_cpu_op_or = (\<lambda>_. False), et_num_ops = 1, et_tensor_size = tensor_size, et_comm_type = CT_OTHER,
      et_comm_size = 8, et_comm_priority = 0, et_comm_src = 0, et_comm_src_or = (\<lambda>d. d), et_comm_dst = 0,
      et_comm_dst_or = (\<lambda>d. d), et_comm_tag = 0, et_pg_name_or = (\<lambda>d. d), et_inputs_values = [], et_attr = Map.empty\<rparr>"

definition demo_cfg :: "bool \<Rightarrow> wl_config" where
  "demo_cfg roofline =
     \<lparr>wc_id = 0, wc_total_nodes = 1, wc_replay_only = False, wc_roofline_enabled = roofline, wc_track_local_mem = False,
      wc_peak_perf = 1, wc_local_mem_bw = 1, wc_roofline = Roofline_new 1 1, wc_parse_pg = (\<lambda>_. [])\<rparr>"

definition demo_workload :: "(nat list \<times> nat list) workload" where
  "demo_workload = projr (Workload_new (demo_cfg False) None 0 ([], []))"

text \<open>Two nodes, the second a child of the first, of the given types.\<close>

definition demo_feeder :: "ChakraNodeType \<Rightarrow> ChakraNodeType \<Rightarrow> u64 \<Rightarrow> (nat list \<times> nat list) et_feeder" where
  "demo_feeder type1 type2 tensor_size =
     list_feeder [1, 2] (\<lambda>n. if n = 2 then [1] else []) (\<lambda>n. demo_op (if n = 2 then type2 else type1) tensor_size n)"

definition never :: "'r arrivals" where
  "never now node w = False"

lemma answers_later_never [simp]: "answers_later never"
  by (simp add: answers_later_def never_def)

lemma demo_trace:
  assumes "type1 \<in> {COMP_NODE, COMM_SEND_NODE, COMM_RECV_NODE, MEM_LOAD_NODE}" "type2 \<in> {COMP_NODE, COMM_SEND_NODE, COMM_RECV_NODE}"
    and "roofline \<Longrightarrow> sz = 0"
  shows "trace_ok (demo_cfg roofline) (demo_feeder type1 type2 sz) {1, 2} (\<lambda>n. if n = 2 then {1} else {}) list_view demo_workload"
proof -
  have "resolver_laws (demo_feeder type1 type2 sz) (set [1, 2]) (\<lambda>n. set (if n = 2 then [1] else [])) list_view"
    unfolding demo_feeder_def by (rule list_feeder_laws) (simp add: demo_op_def)
  moreover have "(\<lambda>n :: nat. set (if n = 2 then [1] else [])) = (\<lambda>n. if n = 2 then {1 :: nat} else {})" by (rule ext) simp
  ultimately have laws: "resolver_laws (demo_feeder type1 type2 sz) {1, 2} (\<lambda>n. if n = 2 then {1} else {}) list_view" by simp
  have issuable: "issuable (demo_cfg roofline) G (fd_lookupNode (demo_feeder type1 type2 sz) n)" for G n
    using assms by (auto simp: issuable_def demo_cfg_def demo_feeder_def list_feeder_def demo_op_def)
  have dep: "wl_dep demo_workload = ([], [])" by (simp add: demo_workload_def Workload_new_def)
  have "Workload_new (demo_cfg False) None 0 ([], []) = Inr demo_workload"
    by (simp add: demo_workload_def Workload_new_def)
  moreover have "Workload_new (demo_cfg roofline) None 0 ([], []) = Workload_new (demo_cfg False) None 0 ([], [])"
    by (simp add: Workload_new_def demo_cfg_def)
  ultimately have "\<exists>entries i dep. Workload_new (demo_cfg roofline) entries i dep = Inr demo_workload" by metis
  then show ?thesis
    using laws dep issuable unfolding trace_ok_def by (simp add: demo_cfg_def list_view_def)
qed

lemma demo_acyclic: "acyclic_trace {1, 2} (\<lambda>n. if n = 2 then {1} else {})"
  unfolding acyclic_trace_def by (intro conjI exI [of _ "\<lambda>n. n"]) auto

text \<open>A computation and then a send, from the first call to the notification.\<close>

abbreviation demo_fd :: "(nat list \<times> nat list) et_feeder" where
  "demo_fd \<equiv> demo_feeder COMP_NODE COMM_SEND_NODE 1"

definition demo_w1 :: "(nat list \<times> nat list) workload" where
  "demo_w1 = projr (fire (Suc 0) never (demo_cfg False) demo_fd 5 demo_workload)"

definition demo_w2 :: "(nat list \<times> nat list) workload" where
  "demo_w2 = projr (Workload_call (Suc 0) never (demo_cfg False) demo_fd 1005 General (NodeData 1) (drop_event (Timer 1 1000) demo_w1))"

definition demo_w3 :: "(nat list \<times> nat list) workload" where
  "demo_w3 = projr (Workload_call (Suc 0) never (demo_cfg False) demo_fd 1020 PacketSent (NodeData 2) (drop_event (SendMessage 2 8 0 0) demo_w2))"

lemmas eval_workload =
  fire_def Workload_call_with_def never_def recv_now_def handle_def issue_dep_free_nodes_def issue_def dispatch_def on_hw_def on_stats_def on_mem_def
  occupy_def release_def is_available_def record_start_def record_end_def change_stat_def get_operator_statistics_def Let_def
  demo_feeder_def demo_op_def list_feeder_def demo_cfg_def issue_replay_def count_tics_def start_event_def replay_runtime_def
  all_done_def HardwareResource_new_def Statistics_new_def Workload_new_def OperatorStatistics_new_def
  issue_comm_def issue_send_comm_def set_comm_size_def finish_node_def execution_time_of_def set_bandwidth_of_def
  drop_event_def demo_workload_def

lemma demo_steps:
  "fire (Suc 0) never (demo_cfg False) demo_fd 5 demo_workload = Inr demo_w1" "wl_events demo_w1 = [Timer 1 1000]"
  "Workload_call (Suc 0) never (demo_cfg False) demo_fd 1005 General (NodeData 1) (drop_event (Timer 1 1000) demo_w1) = Inr demo_w2"
  "wl_events demo_w2 = [SendMessage 2 8 0 0]"
  by (simp_all add: eval_workload demo_w1_def demo_w2_def)

lemma demo_last_step:
  "Workload_call (Suc 0) never (demo_cfg False) demo_fd 1020 PacketSent (NodeData 2) (drop_event (SendMessage 2 8 0 0) demo_w2) = Inr demo_w3"
  "wl_events demo_w3 = []"
  by (simp_all add: eval_workload demo_w1_def demo_w2_def demo_w3_def report_def post_processing_def extract_type_time_def
      interval_map_def extract_comp_comm_overlap_def INVALID_TICK_def)


lemma demo_run:
  "wl_run (Suc 0) never (demo_cfg False) demo_fd demo_workload 1 5 demo_w1"
  "wl_run (Suc 0) never (demo_cfg False) demo_fd demo_workload 2 1005 demo_w2"
  "wl_run (Suc 0) never (demo_cfg False) demo_fd demo_workload 3 1020 demo_w3"
proof -
  show first: "wl_run (Suc 0) never (demo_cfg False) demo_fd demo_workload 1 5 demo_w1" by (rule wl_run.fired [OF demo_steps(1)])
  have "wl_run (Suc 0) never (demo_cfg False) demo_fd demo_workload (Suc 1) 1005 demo_w2"
    by (rule wl_run.answered [OF first _ _ _ demo_steps(3)]) (simp_all add: demo_steps(2) answers.intros)
  then show second: "wl_run (Suc 0) never (demo_cfg False) demo_fd demo_workload 2 1005 demo_w2" by (simp add: numeral_2_eq_2)
  have "wl_run (Suc 0) never (demo_cfg False) demo_fd demo_workload (Suc 2) 1020 demo_w3"
    by (rule wl_run.answered [OF second _ _ _ demo_last_step(1)]) (simp_all add: demo_steps(4) answers.intros)
  then show "wl_run (Suc 0) never (demo_cfg False) demo_fd demo_workload 3 1020 demo_w3" by (simp add: numeral_3_eq_3)
qed

lemma demo_nodes:
  "n \<in> {1, 2} \<Longrightarrow> reportable (fd_lookupNode demo_fd n)" "\<not> skips (demo_cfg False) (fd_lookupNode demo_fd n)"
  by (auto simp: reportable_def skips_def demo_feeder_def list_feeder_def demo_op_def demo_cfg_def)

section \<open>Calls that post no receive\<close>

lemma fold_result_cong: "(\<And>x w. x \<in> set xs \<Longrightarrow> f x w = g x w) \<Longrightarrow> fold_result f xs w = fold_result g xs w"
proof (induction xs arbitrary: w)
  case (Cons x xs)
  then show ?case by (cases "g x w") simp_all
qed simp

lemma issue_no_recv: "et_type node \<noteq> COMM_RECV_NODE \<Longrightarrow> issue cfg fd recv now node = issue cfg fd recv' now node"
proof -
  assume other: "et_type node \<noteq> COMM_RECV_NODE"
  have "issue_comm cfg recv node = issue_comm cfg recv' node" using other by (intro ext) (simp add: issue_comm_def)
  then have "dispatch cfg fd recv now node = dispatch cfg fd recv' now node" by (intro ext) (simp add: dispatch_def)
  then show ?thesis by (intro ext) (simp add: issue_def)
qed

text \<open>What a call does when the nodes without parents are skipped does not depend on the front end.\<close>

lemma fire_no_recv:
  assumes "trace_ok cfg fd N par I w0" and skips: "\<forall>n \<in> N. par n = {} \<longrightarrow> skips cfg (fd_lookupNode fd n)"
  shows "fire depth arrived cfg fd now w0 = Workload_call_with cfg fd recv_later now General NoData w0"
proof -
  have "set (fd_dependancy_free_nodes fd (wl_dep w0)) = {n \<in> N. par n = {}}"
    using assms(1) unfolding trace_ok_def resolver_laws_def by auto
  then have other: "et_type (fd_lookupNode fd n) \<noteq> COMM_RECV_NODE" if "n \<in> set (fd_dependancy_free_nodes fd (wl_dep w0))" for n
    using skips that by (auto simp: skips_def)
  have free: "issue_dep_free_nodes cfg fd recv now w0 = issue_dep_free_nodes cfg fd recv_later now w0" for recv
    unfolding issue_dep_free_nodes_def using issue_no_recv [OF other, where recv = recv and recv' = recv_later]
    by (intro fold_result_cong) (simp add: Let_def)
  have "Workload_call_with cfg fd recv now General NoData w0 = Workload_call_with cfg fd recv_later now General NoData w0" for recv
    using free [of recv] by (simp add: Workload_call_with_def handle_def)
  then show ?thesis unfolding fire_def by (cases depth) simp_all
qed

section \<open>Properties\<close>



text \<open>
  \<^bold>\<open>C8\<close>. Dependencies are respected, with a front end that answers receives by later calls, as the analytical
  one does. At every moment, a node that has been issued is a node of the trace, has been issued once, and all
  its parents had ended when it started.
\<close>

theorem workload_dependencies:
  assumes "trace_ok cfg fd N par I w0" "answers_later arrived" "wl_run depth arrived cfg fd w0 k now w"
  shows "distinct (map snd (st_start_times (wl_stats w))) \<and>
    (\<forall>n stat. map_of (st_operator_statistics (wl_stats w)) n = Some stat \<longrightarrow>
       n \<in> N \<and> n \<in> set (map snd (st_start_times (wl_stats w))) \<and>
       (\<forall>p \<in> par n. \<exists>sp. map_of (st_operator_statistics (wl_stats w)) p = Some sp \<and>
          os_start_time sp \<le> os_end_time sp \<and> os_end_time sp \<le> os_start_time stat))"
proof -
  let ?ops = "map_of (st_operator_statistics (wl_stats w))"
  obtain D R w' where inv: "run_inv (untrack cfg) fd N par I w0 now D R w'" and same: "wl_stats w' = wl_stats w"
    using any_run [OF assms(3,2,1)] by metis
  note S = run_stats [OF inv, unfolded same]
  have dom: "dom ?ops = D \<union> R" and stat: "\<And>n st. ?ops n = Some st \<Longrightarrow> stat_ok fd par now D ?ops n st"
    and starts: "distinct (map snd (st_start_times (wl_stats w)))" "set (map snd (st_start_times (wl_stats w))) = D \<union> R"
    using S(1) unfolding stats_ok_def by blast+
  have "n \<in> N \<and> n \<in> set (map snd (st_start_times (wl_stats w))) \<and>
      (\<forall>p \<in> par n. \<exists>sp. ?ops p = Some sp \<and> os_start_time sp \<le> os_end_time sp \<and> os_end_time sp \<le> os_start_time st)"
    if n: "?ops n = Some st" for n st
  proof (intro conjI ballI)
    show "n \<in> N" "n \<in> set (map snd (st_start_times (wl_stats w)))" using n dom S(4) starts(2) by blast+
    fix p assume "p \<in> par n"
    then obtain sp where sp: "p \<in> D" "?ops p = Some sp" "os_end_time sp \<le> os_start_time st"
      using stat [OF n] unfolding stat_ok_def by blast
    then show "\<exists>sp. ?ops p = Some sp \<and> os_start_time sp \<le> os_end_time sp \<and> os_end_time sp \<le> os_start_time st"
      using stat [OF sp(2)] by (auto simp: stat_ok_def)
  qed
  then show ?thesis using starts(1) by blast
qed

lemma workload_dependencies_witness:
  "distinct (map snd (st_start_times (wl_stats demo_w2)))"
proof -
  have trace: "trace_ok (demo_cfg False) demo_fd {1, 2} (\<lambda>n. if n = 2 then {1} else {}) list_view demo_workload"
    by (rule demo_trace) simp_all
  show ?thesis using workload_dependencies [OF trace answers_later_never demo_run(2)] by blast
qed

text \<open>
  \<^bold>\<open>C13\<close>. The resources are exclusive and their book-keeping is exact, with a front end that answers receives by
  later calls, as the analytical one does. At every moment, for each of the CPU, the GPU and its communication
  unit, the occupying nodes are the nodes of that kind that have started and not ended; there is at most one,
  and the counter is their number. Receives occupy nothing. Whether the local memory is tracked does not
  matter: a run with the tracker is a run without it, as far as it goes.
\<close>

theorem workload_exclusive:
  assumes "trace_ok cfg fd N par I w0" "answers_later arrived" "wl_run depth arrived cfg fd w0 k now w" "now < INVALID_TICK"
  shows "nodes_on u (wl_hw_resource w) =
      {n. u \<noteq> UNone \<and> unit_of (fd_lookupNode fd n) = u \<and>
          (\<exists>stat. map_of (st_operator_statistics (wl_stats w)) n = Some stat \<and> os_end_time stat = INVALID_TICK)} \<and>
    card (nodes_on u (wl_hw_resource w)) \<le> 1 \<and>
    in_flight u (wl_hw_resource w) = of_nat (card (nodes_on u (wl_hw_resource w)))"
proof -
  obtain D R w' where inv: "run_inv (untrack cfg) fd N par I w0 now D R w'" and
    same: "wl_stats w' = wl_stats w" "wl_hw_resource w' = wl_hw_resource w"
    using any_run [OF assms(3,2,1)] by metis
  have nodes: "nodes_on u (wl_hw_resource w) = using_unit fd R u" and
    one: "nodes_on u (wl_hw_resource w) = {} \<and> in_flight u (wl_hw_resource w) = 0 \<or>
     (\<exists>n. nodes_on u (wl_hw_resource w) = {n}) \<and> in_flight u (wl_hw_resource w) = 1"
    using run_stats(2) [OF inv, unfolded same] unfolding hw_ok_def by metis+
  have "card (nodes_on u (wl_hw_resource w)) \<le> 1 \<and>
      in_flight u (wl_hw_resource w) = of_nat (card (nodes_on u (wl_hw_resource w)))"
    using one by (elim disjE conjE exE) simp_all
  moreover have "using_unit fd R u = {n. u \<noteq> UNone \<and> unit_of (fd_lookupNode fd n) = u \<and>
      (\<exists>stat. map_of (st_operator_statistics (wl_stats w)) n = Some stat \<and> os_end_time stat = INVALID_TICK)}"
    using run_ended [OF inv assms(4), unfolded same] unfolding using_unit_def by blast
  ultimately show ?thesis unfolding nodes by blast
qed

lemma workload_exclusive_witness:
  "card (nodes_on UComp (wl_hw_resource demo_w1)) \<le> 1"
proof -
  have trace: "trace_ok (demo_cfg False) demo_fd {1, 2} (\<lambda>n. if n = 2 then {1} else {}) list_view demo_workload"
    by (rule demo_trace) simp_all
  have now: "(5 :: nat) < INVALID_TICK" by (simp add: INVALID_TICK_def)
  show ?thesis using workload_exclusive [OF trace answers_later_never demo_run(1) now, of UComp] by blast
qed

text \<open>
  \<^bold>\<open>C4\<close>. A workload completes, with a front end that answers receives by later calls, as the analytical one
  does. When no node is skipped, at most one call per node and the first one happen, the back end is notified
  at most once, and when no event is outstanding it has been notified and every node has ended: the workload
  never gets stuck waiting for a resource.
\<close>

theorem workload_completes:
  assumes "trace_ok cfg fd N par I w0" "answers_later arrived" "wl_run depth arrived cfg fd w0 k now w"
    and "acyclic_trace N par" "\<forall>n \<in> N. \<not> skips cfg (fd_lookupNode fd n)"
  shows "k \<le> 1 + card N \<and> wl_notified w \<le> 1 \<and>
    (wl_events w = [] \<longrightarrow> wl_notified w = 1 \<and>
       (\<forall>n \<in> N. \<exists>stat. map_of (st_operator_statistics (wl_stats w)) n = Some stat \<and> os_end_time stat \<le> now))"
proof -
  obtain D R w' where inv: "run_inv (untrack cfg) fd N par I w0 now D R w'" "k \<le> 1 + card D" and
    same: "wl_stats w' = wl_stats w" "wl_notified w' = wl_notified w" "wl_is_finished w' = wl_is_finished w" "wl_events w' = wl_events w"
    using any_run [OF assms(3,2,1)] by metis
  note S = run_stats [OF inv(1), unfolded same]
  have "card D \<le> card N" using S(4,6) by (simp add: card_mono)
  moreover have "wl_notified w = 1 \<and> (\<forall>n \<in> N. \<exists>st. map_of (st_operator_statistics (wl_stats w)) n = Some st \<and> os_end_time st \<le> now)"
    if "wl_events w = []"
  proof -
    have R: "R = {}" using that run_inv_events [OF inv(1), unfolded same] by blast
    then have free: "free N par D {} = {}"
      using run_invD(4) [OF inv(1)] assms(5) unfolding all_tried_def using_unit_def by simp
    then have "wl_is_finished w" using run_invD(2) [OF inv(1), unfolded same] R by blast
    moreover have "D = N" using acyclic_free [OF assms(4) _ free] S(4) by blast
    moreover have "\<exists>st. map_of (st_operator_statistics (wl_stats w)) n = Some st \<and> os_end_time st \<le> now" if n: "n \<in> D" for n
    proof -
      have "n \<in> dom (map_of (st_operator_statistics (wl_stats w)))" using S(1) n unfolding stats_ok_def by blast
      then show ?thesis using S(1) n unfolding stats_ok_def stat_ok_def by fastforce
    qed
    ultimately show ?thesis using S(5) by simp
  qed
  ultimately show ?thesis using inv(2) S(5) by auto
qed

lemma workload_completes_witness: "wl_notified demo_w3 = 1"
proof -
  have trace: "trace_ok (demo_cfg False) demo_fd {1, 2} (\<lambda>n. if n = 2 then {1} else {}) list_view demo_workload"
    by (rule demo_trace) simp_all
  show ?thesis using workload_completes [OF trace answers_later_never demo_run(3) demo_acyclic] demo_nodes(2) demo_last_step(2) by blast
qed

text \<open>
  \<^bold>\<open>C34\<close>. A workload can stall. The nodes that become free while the free nodes are visited are not visited in
  the same call. When every node without parents is skipped, which happens to a GPU compute node with a
  tensor size of zero under the roofline model, nothing is outstanding after the first call: no further
  call will come, nobody is notified, and a child of these nodes is never issued.
\<close>

theorem workload_stalls:
  assumes trace_ok: "trace_ok cfg fd N par I w0" and mem: "\<not> wc_track_local_mem cfg"
    and fire: "fire depth arrived cfg fd now w0 = Inr w"
    and roots: "\<forall>n \<in> N. par n = {} \<longrightarrow> skips cfg (fd_lookupNode fd n)"
    and child: "m \<in> N" "par m \<noteq> {}" "par m \<subseteq> {n \<in> N. par n = {}}"
  shows "wl_events w = [] \<and> wl_notified w = 0 \<and> map_of (st_operator_statistics (wl_stats w)) m = None"
proof -
  have trace: "untracked cfg fd N par I w0" using trace_ok mem by (simp add: untracked_def)
  have later: "fire depth arrived cfg fd now w0 = Workload_call_with cfg fd recv_later now General NoData w0"
    by (rule fire_no_recv [OF trace_ok roots])
  obtain w1 D R where w1: "handle cfg fd recv_later now General NoData w0 = Inr w1" "wl_inv fd N par I (wl_fixed w0) now D R {} w1"
    "issued_from cfg fd N par {} {} D R"
    using fire_ok [OF trace] by blast
  have R: "R = {}" and D: "D \<subseteq> {n \<in> N. par n = {}}" using w1(3) roots unfolding issued_from_def by auto
  have "\<not> wl_is_finished w0" using wl_fixed_new [OF trace] by (simp add: wl_fixed_def)
  moreover have "\<not> all_done fd w1"
  proof -
    have "resolver_laws fd N par I" using trace_ok by (simp add: trace_ok_def)
    moreover have "free N par D R \<noteq> {}"
    proof (cases "par m \<subseteq> D")
      case True
      then show ?thesis using child D R by blast
    next
      case False
      then obtain p where "p \<in> par m" "p \<notin> D" by blast
      then have "p \<in> free N par D R" using child(3) R by auto
      then show ?thesis by blast
    qed
    ultimately show ?thesis using all_done_iff [OF _ w1(2)] by blast
  qed
  ultimately have "w = w1" using fire w1(1) by (simp add: later Workload_call_cases conclude_def)
  moreover have "mset_set R = {#}" using R by simp
  ultimately show ?thesis
    using w1(2) child D R wl_fixed_new [OF trace]
    by (auto simp: wl_inv_def events_ok_def wl_fixed_def stats_ok_def domIff)
qed

lemma workload_stalls_witness:
  "\<exists>w. fire (Suc 0) never (demo_cfg True) (demo_feeder COMP_NODE COMP_NODE 0) 5 demo_workload = Inr w \<and>
     wl_events w = [] \<and> wl_notified w = 0"
proof -
  let ?fd = "demo_feeder COMP_NODE COMP_NODE 0"
  have trace: "trace_ok (demo_cfg True) ?fd {1, 2} (\<lambda>n. if n = 2 then {1} else {}) list_view demo_workload"
    by (rule demo_trace) simp_all
  have mem: "\<not> wc_track_local_mem (demo_cfg True)" by (simp add: demo_cfg_def)
  have skips: "skips (demo_cfg True) (fd_lookupNode ?fd n)" for n
    by (simp add: skips_def demo_cfg_def demo_feeder_def list_feeder_def demo_op_def)
  obtain w where w: "fire (Suc 0) never (demo_cfg True) ?fd 5 demo_workload = Inr w"
    by (simp add: eval_workload issue_comp_def skip_invalid_def)
  show ?thesis using workload_stalls [OF trace mem w, of 2] w skips by auto
qed

text \<open>
  A workload with other nodes never completes. When a node of the trace is a CPU operator, an access of
  the remote memory or a node marked invalid, the back end is never notified, however the run goes: the
  final report throws. (With a front end that answers receives by later calls.)
\<close>

theorem workload_rejects_other_types:
  assumes "trace_ok cfg fd N par I w0" "answers_later arrived" "wl_run depth arrived cfg fd w0 k now w"
    and "acyclic_trace N par" "m \<in> N" "\<not> reportable (fd_lookupNode fd m)"
  shows "wl_notified w = 0"
proof -
  obtain D R w' where inv: "run_inv (untrack cfg) fd N par I w0 now D R w'" and
    same: "wl_notified w' = wl_notified w" "wl_is_finished w' = wl_is_finished w"
    using any_run [OF assms(3,2,1)] by metis
  have "\<not> wl_is_finished w"
  proof
    assume fin: "wl_is_finished w"
    then have "D = N" using acyclic_free [OF assms(4)] run_invD(2) [OF inv, unfolded same] run_stats(4) [OF inv] by blast
    then show False using run_invD(3) [OF inv, unfolded same, OF fin] assms(5,6) by blast
  qed
  then show ?thesis using run_stats(5) [OF inv, unfolded same] by simp
qed

lemma workload_rejects_other_types_witness:
  "\<exists>w. fire (Suc 0) never (demo_cfg False) (demo_feeder MEM_LOAD_NODE COMP_NODE 1) 5 demo_workload = Inr w \<and> wl_notified w = 0"
proof -
  let ?fd = "demo_feeder MEM_LOAD_NODE COMP_NODE 1"
  have trace: "trace_ok (demo_cfg False) ?fd {1, 2} (\<lambda>n. if n = 2 then {1} else {}) list_view demo_workload"
    by (rule demo_trace) simp_all
  have rep: "\<not> reportable (fd_lookupNode ?fd 1)"
    by (simp add: reportable_def demo_feeder_def list_feeder_def demo_op_def)
  obtain w where w: "fire (Suc 0) never (demo_cfg False) ?fd 5 demo_workload = Inr w"
    by (simp add: eval_workload issue_remote_mem_def)
  show ?thesis using workload_rejects_other_types [OF trace answers_later_never wl_run.fired [OF w] demo_acyclic _ rep] w by auto
qed

end
