(* ===== verification/Workload_Reentry.thy ===== *)
theory Workload_Reentry
  imports Workload_Properties
begin

text \<open>
  What a workload does when the front end answers a receive inside \<^verbatim>\<open>sim_recv\<close>, as htsim and ns-3 do when
  the message has arrived before: the nested call of the workload ends the node and visits the free
  nodes, and the interrupted calls go on with what they had collected. A node can be issued twice, and
  the end of the workload can be reported twice.
\<close>

section \<open>The issue of a receive\<close>

text \<open>All that happens before the receive is posted.\<close>

lemma issue_recv_ok:
  assumes laws: "resolver_laws fd N par I" and inv: "wl_inv fd N par I G now D R {} w"
    and n: "n \<in> N" "n \<notin> D" "n \<notin> R" "par n \<subseteq> D" "is_available (fd_lookupNode fd n) (wl_hw_resource w)"
    and node: "issuable cfg (fst G) (fd_lookupNode fd n)" "et_type (fd_lookupNode fd n) = COMM_RECV_NODE"
    and cfg: "\<not> wc_replay_only cfg" "\<not> wc_track_local_mem cfg"
  shows "\<exists>w'. wl_inv fd N par I G now D (insert n R) {n} w' \<and> wl_events w' = wl_events w \<and>
    (\<forall>recv. issue cfg fd recv now (fd_lookupNode fd n) w = recv (fd_lookupNode fd n) w')"
proof -
  let ?node = "fd_lookupNode fd n"
  have id: "et_id ?node = n" using laws n(1) unfolding resolver_laws_def by blast
  obtain hw where hw: "occupy ?node (wl_hw_resource w) = Inr hw" "hw_ok fd (insert n R) hw"
    using occupy_ok [OF _ n(3) id n(5)] inv unfolding wl_inv_def by blast
  have type: "get_operator_type ?node = Inr OT_COMM" using node(2) by simp
  have "stats_ok fd par now D R (wl_stats w)" using inv by (simp add: wl_inv_def)
  then obtain s where s: "record_start ?node now (wl_stats w) = Inr s" "stats_ok fd par now D (insert n R) s"
    using record_start_ok [of fd par now D R "wl_stats w" n OT_COMM] n(2-4) id type by auto
  have dep: "I (fd_take_node fd n (wl_dep w)) D (insert n R)"
    using laws inv n unfolding resolver_laws_def wl_inv_def by blast
  define w1 where "w1 = w\<lparr>wl_dep := fd_take_node fd n (wl_dep w), wl_hw_resource := hw, wl_stats := s\<rparr>"
  have "insert n R - {n} = R" using n(3) by blast
  then have w1: "wl_inv fd N par I G now D (insert n R) {n} w1"
    using inv hw(2) s(2) n dep unfolding wl_inv_def by (auto simp: w1_def)
  obtain w2 where w2: "on_stats (set_comm_size ?node) w1 = Inr w2" "wl_inv fd N par I G now D (insert n R) {n} w2"
    using set_comm_size_ok [OF w1 _ id] by blast
  have "wl_events w2 = wl_events w" using w2(1) by (auto simp: on_stats_def rbind_Inr_iff w1_def)
  moreover have "issue cfg fd recv now ?node w = recv ?node w2" for recv
    using hw(1) s(1) node cfg w2(1) unfolding w1_def
    by (simp add: issue_def on_hw_def on_stats_def on_mem_def id dispatch_def issue_comm_def issue_recv_comm_def issuable_def)
  ultimately show ?thesis using w2(2) by blast
qed

text \<open>The end of a node, up to the visit of the free nodes.\<close>

lemma nested_answer_ok:
  assumes laws: "resolver_laws fd N par I" and inv: "wl_inv fd N par I G now D R {n} w" "n \<in> R"
    and mem: "\<not> wc_track_local_mem cfg"
  shows "\<exists>w'. wl_inv fd N par I G now (insert n D) (R - {n}) {} w' \<and> wl_events w' = wl_events w \<and>
    (\<forall>recv. handle cfg fd recv now PacketReceived (NodeData n) w = issue_dep_free_nodes cfg fd recv now w')"
proof -
  define f where "f = (\<lambda>s. rbind (execution_time_of n s) (\<lambda>t. set_bandwidth_of n t s))"
  have f: "\<exists>s'. f s = Inr s' \<and> stats_ok fd par now (insert n D) (R - {n}) s'"
    if "stats_ok fd par now (insert n D) (R - {n}) s" for s
    using execution_time_of_ok [OF that, of n] set_bandwidth_of_ok [OF that, of n] by (auto simp: f_def)
  obtain hw s s' where has: "fd_has_node fd n" and e: "release (fd_lookupNode fd n) (wl_hw_resource w) = Inr hw"
    "record_end (fd_lookupNode fd n) now (wl_stats w) = Inr s" "f s = Inr s'"
    "wl_inv fd N par I G now (insert n D) (R - {n}) {}
      (w\<lparr>wl_dep := fd_finish_node fd n (wl_dep w), wl_hw_resource := hw, wl_stats := s'\<rparr>)"
    using end_node_ok [OF laws inv, of f] f by blast
  let ?w = "w\<lparr>wl_dep := fd_finish_node fd n (wl_dep w), wl_hw_resource := hw, wl_stats := s'\<rparr>"
  have same: "w\<lparr>wl_hw_resource := hw, wl_stats := s', wl_dep := fd_finish_node fd n (wl_dep w)\<rparr> = ?w" by simp
  have "handle cfg fd recv now PacketReceived (NodeData n) w = finish_node cfg fd recv now n f w" for recv
    by (simp add: handle_def f_def)
  moreover have "finish_node cfg fd recv now n f w = issue_dep_free_nodes cfg fd recv now ?w" for recv
    using has e(1-3) mem by (simp add: finish_node_def on_hw_def on_stats_def on_mem_def Let_def same)
  ultimately show ?thesis using e(4) by (intro exI [of _ ?w]) simp
qed


lemma inv_free:
  assumes "resolver_laws fd N par I" "wl_inv fd N par I G now D R Z w"
  shows "set (fd_dependancy_free_nodes fd (wl_dep w)) = free N par D R"
  using assms unfolding resolver_laws_def wl_inv_def by blast

lemma remdups_sort_set:
  assumes "set xs = {a, b :: nat}" "a < b"
  shows "remdups (sort xs) = [a, b]"
proof -
  have "sorted [a, b]" "distinct [a, b]" using assms(2) by simp_all
  moreover have "set (remdups (sort xs)) = set [a, b]" using assms(1) by simp
  ultimately show ?thesis by (intro sorted_distinct_set_unique) simp_all
qed

lemma remdups_sort_single: "set xs = {a :: nat} \<Longrightarrow> remdups (sort xs) = [a]"
  by (intro sorted_distinct_set_unique) simp_all

section \<open>Two failures\<close>



text \<open>
  A receive is posted twice. Of two receives that are free from the start the first one has arrived: the
  nested call posts the second one, and the interrupted visit, which goes on with what it had collected,
  takes and posts it again.
\<close>

theorem receive_posted_twice:
  fixes depth :: nat
  assumes trace: "trace_ok cfg fd {a, b} par I w0" "a < b" "par a = {}" "par b = {}"
    and cfg: "\<not> wc_track_local_mem cfg" "\<not> wc_replay_only cfg"
    and node: "et_type (fd_lookupNode fd a) = COMM_RECV_NODE" "et_type (fd_lookupNode fd b) = COMM_RECV_NODE"
      "\<not> et_is_cpu_op (fd_lookupNode fd b)"
    and arrived: "\<And>w. arrived now (fd_lookupNode fd a) w" "\<And>w. \<not> arrived now (fd_lookupNode fd b) w"
  defines "call \<equiv> Workload_call depth arrived cfg fd now" and "m \<equiv> fd_lookupNode fd b"
  shows "\<exists>w. handle cfg fd (recv_now arrived now call) now General NoData w0 = Inr w \<and>
    wl_events w = replicate 2 (RecvMessage b (et_comm_size m) (et_comm_src m) (et_comm_tag m))"
proof -
  let ?A = "fd_lookupNode fd a"
  let ?recv = "recv_now arrived now call"
  define ev where "ev = RecvMessage b (et_comm_size m) (et_comm_src m) (et_comm_tag m)"
  have laws: "resolver_laws fd {a, b} par I" and un: "untracked cfg fd {a, b} par I w0"
    and issuable: "issuable cfg (wl_comm_groups w0) ?A" "issuable cfg (wl_comm_groups w0) m"
    using trace(1) cfg by (simp_all add: trace_ok_def untracked_def m_def)
  have id: "et_id ?A = a" "et_id m = b" and has: "fd_has_node fd a" "fd_has_node fd b"
    using laws unfolding resolver_laws_def m_def by blast+
  have fixed: "wl_fixed w0 = (wl_comm_groups w0, False, 0)" by (rule wl_fixed_new [OF un])
  have groups: "fst (wl_fixed w0) = wl_comm_groups w0" by (simp add: wl_fixed_def)
  have inv0: "wl_inv fd {a, b} par I (wl_fixed w0) now {} {} {} w0" by (rule start_inv [OF un])
  have avail: "is_available (fd_lookupNode fd n) (wl_hw_resource w)" if "wl_inv fd {a, b} par I G now D {} {} w" for n D G w
    using is_available_iff [of fd "{}" "wl_hw_resource w"] that by (simp add: wl_inv_def using_unit_def)
  obtain w1 where w1: "wl_inv fd {a, b} par I (wl_fixed w0) now {} {a} {a} w1" "wl_events w1 = wl_events w0"
    "\<forall>recv. issue cfg fd recv now ?A w0 = recv ?A w1"
    using issue_recv_ok [OF laws inv0 _ _ _ _ avail [OF inv0] _ node(1) cfg(2,1)] trace(3) issuable(1) groups by auto
  obtain w2 where w2: "wl_inv fd {a, b} par I (wl_fixed w0) now {a} {} {} w2" "wl_events w2 = wl_events w1"
    "\<forall>recv. handle cfg fd recv now PacketReceived (NodeData a) w1 = issue_dep_free_nodes cfg fd recv now w2"
    using nested_answer_ok [OF laws w1(1) _ cfg(1)] by auto
  have "set (fd_dependancy_free_nodes fd (wl_dep w2)) = {b}" using inv_free [OF laws w2(1)] trace(2,4) by auto
  note second = remdups_sort_single [OF this]
  obtain w3 where w3: "wl_inv fd {a, b} par I (wl_fixed w0) now {a} {b} {b} w3" "wl_events w3 = wl_events w2"
    "\<forall>recv. issue cfg fd recv now m w2 = recv m w3"
    using issue_recv_ok [OF laws w2(1) _ _ _ _ avail [OF w2(1)] _ node(2) cfg(2,1)] trace(2,4) issuable(2) groups
    unfolding m_def by auto
  define w4 where "w4 = start_event ev w3"
  have w4: "wl_inv fd {a, b} par I (wl_fixed w0) now {a} {b} {} w4"
    unfolding w4_def by (rule start_event_ok [OF w3(1)]) (simp_all add: ev_def)
  have later: "recv_now arrived now c m w = Inr (start_event ev w)" "recv_later m w = Inr (start_event ev w)" for c w
    using arrived(2) by (simp_all add: recv_now_def recv_later_def m_def [symmetric] id ev_def)
  have "handle cfg fd recv now PacketReceived (NodeData a) w1 = Inr w4" if "recv m w3 = Inr w4" for recv
    using that w2(3) w3(3) has(2) avail [OF w2(1), of b] second by (simp add: issue_dep_free_nodes_def Let_def m_def)
  then have visit: "handle cfg fd recv_later now PacketReceived (NodeData a) w1 = Inr w4"
    "handle cfg fd (recv_now arrived now c) now PacketReceived (NodeData a) w1 = Inr w4" for c
    using later by (simp_all add: w4_def)
  have "\<not> all_done fd w4" using all_done_iff [OF laws w4] by simp
  then have "conclude cfg fd w4 = Inr w4" by (simp add: conclude_def)
  moreover have "\<not> wl_is_finished w1" using w1(1) fixed by (simp add: wl_inv_def wl_fixed_def)
  ultimately have nested: "call PacketReceived (NodeData a) w1 = Inr w4"
    using visit unfolding call_def by (cases depth) (simp_all add: Workload_call_cases)
  have unit: "occupy m hw = Inr hw" "is_available m hw" if "hw = wl_hw_resource w4" for hw
    using avail that node(2,3) by (simp_all add: occupy_def is_available_def m_def)
  have "wl_events w0 = []" using trace(1) by (auto simp: trace_ok_def Workload_new_def rbind_Inr_iff)
  then have events: "wl_events w4 = [ev]" using w1(2) w2(2) w3(2) by (simp add: w4_def start_event_def)
  have "\<exists>w. issue cfg fd ?recv now m w4 = Inr w \<and> wl_events w = [ev, ev]"
    using events unit node(2) cfg issuable(2) later(1) id(2)
    by (auto simp: issue_def on_hw_def on_stats_def on_mem_def record_start_def dispatch_def issue_comm_def issue_recv_comm_def
        issuable_def set_comm_size_def change_stat_def get_operator_statistics_def start_event_def m_def update_conv')
  then obtain w5 where w5: "issue cfg fd ?recv now m w4 = Inr w5" "wl_events w5 = [ev, ev]" by blast
  have "set (fd_dependancy_free_nodes fd (wl_dep w0)) = {a, b}" using inv_free [OF laws inv0] trace(3,4) by auto
  note first = remdups_sort_set [OF this trace(2)]
  have "issue cfg fd ?recv now ?A w0 = Inr w4" using w1(3) arrived(1) nested id(1) by (simp add: recv_now_def)
  then have "handle cfg fd ?recv now General NoData w0 = Inr w5"
    using w5(1) unit has avail [OF inv0, of a] by (simp add: handle_def issue_dep_free_nodes_def first Let_def m_def [symmetric])
  then show ?thesis using w5(2) by (simp add: ev_def numeral_2_eq_2)
qed

lemma receive_posted_twice_witness:
  "\<exists>w. handle (demo_cfg False) (list_feeder [1, 2] (\<lambda>_. []) (demo_op COMM_RECV_NODE 1))
       (recv_now (\<lambda>_ node _. et_id node = 1)  5
         (Workload_call 0 (\<lambda>_ node _. et_id node = 1) (demo_cfg False) (list_feeder [1, 2] (\<lambda>_. []) (demo_op COMM_RECV_NODE 1)) 5))
       5 General NoData demo_workload = Inr w \<and>
     wl_events w = [RecvMessage 2 8 0 0, RecvMessage 2 8 0 0]"
proof -
  let ?fd = "list_feeder [1, 2] (\<lambda>_. []) (demo_op COMM_RECV_NODE 1)"
  have laws: "resolver_laws ?fd {1, 2} (\<lambda>_. {}) list_view"
    using list_feeder_laws [of "[1, 2]" "demo_op COMM_RECV_NODE 1" "\<lambda>_. []"] by (simp add: demo_op_def)
  have "issuable (demo_cfg False) G (fd_lookupNode ?fd n)" for G n
    by (simp add: issuable_def demo_cfg_def list_feeder_def demo_op_def)
  then have trace: "trace_ok (demo_cfg False) ?fd {1, 2} (\<lambda>_. {}) list_view demo_workload"
    using laws demo_trace [of COMP_NODE COMP_NODE False 1] unfolding trace_ok_def by simp
  show ?thesis
    using receive_posted_twice [OF trace, of "\<lambda>_ node _. et_id node = 1" 5 0]
    by (simp add: demo_cfg_def list_feeder_def demo_op_def numeral_2_eq_2)
qed

end
