(* ===== verification/Local_Memory_Usage.thy ===== *)
theory Local_Memory_Usage
  imports Local_Memory
begin

text \<open>
  The tracker of local memory reports the memory in use: at every tick the sizes of the tensors that
  have been written and are still to be read, and their maximum over all ticks.
\<close>

declare map_of_eq_Some_iff [simp del]

section \<open>Invariant\<close>

text \<open>
  Every tensor with a size has one write, every tensor that was read has a size and was written
  before its last read ended.
\<close>

definition keys :: "('k \<times> 'v) list \<Rightarrow> 'k set" where
  "keys xs = fst ` set xs"

definition tracker_ok :: "Tick \<Rightarrow> mem_tracker \<Rightarrow> bool" where
  "tracker_ok now m \<longleftrightarrow>
     distinct (map fst (mt_memReads m)) \<and> distinct (map fst (mt_memWrites m)) \<and> distinct (map fst (mt_tensorSize m)) \<and>
     keys (mt_memWrites m) = keys (mt_tensorSize m) \<and> keys (mt_memReads m) \<subseteq> keys (mt_tensorSize m) \<and>
     (\<forall>x as a. map_of (mt_memReads m) x = Some as \<longrightarrow> map_of (mt_memWrites m) x = Some a \<longrightarrow>
        ma_start a \<le> ma_end (last as)) \<and>
     (\<forall>x a. map_of (mt_memWrites m) x = Some a \<longrightarrow> ma_start a \<le> now) \<and>
     (\<forall>i s. mt_activityStartTime m i = Some s \<longrightarrow> s \<le> now)"

lemma keys_map_of: "x \<in> keys xs \<longleftrightarrow> map_of xs x \<noteq> None"
  by (simp add: keys_def map_of_eq_None_iff)

lemma keys_put_new [simp]: "keys (put_new k v xs) = insert k (keys xs)"
  by (auto simp: put_new_def keys_def dest: map_of_SomeD) (metis option.exhaust map_of_SomeD fst_conv image_eqI)

lemma keys_update [simp]: "keys (AList.update k v xs) = insert k (keys xs)"
  by (simp add: keys_def dom_map_of_conv_image_fst [symmetric] update_conv' insert_Diff_if)

lemma distinct_put_new: "distinct (map fst xs) \<Longrightarrow> distinct (map fst (put_new k v xs))"
  by (simp add: put_new_def map_of_eq_None_iff)

lemma map_of_put_new: "map_of (put_new k v xs) x = (if map_of xs k = None \<and> x = k then Some v else map_of xs x)"
  by (simp add: put_new_def map_add_def split: option.splits)

lemma tracker_ok_mono: "tracker_ok t m \<Longrightarrow> t \<le> now \<Longrightarrow> tracker_ok now m"
  unfolding tracker_ok_def by (meson order_trans)

lemma record_read_ok:
  assumes ok: "tracker_ok now m" and a: "ma_end a = now"
  shows "tracker_ok now (record_read a info m)"
proof -
  obtain n sz where info: "info = (n, sz)" by (cases info)
  define m1 where "m1 = (if map_of (mt_tensorSize m) n = None
      then m\<lparr>mt_tensorSize := put_new n sz (mt_tensorSize m), mt_memWrites := put_new n undefined_write (mt_memWrites m)\<rparr>
      else m)"
  define rs where "rs = (case map_of (mt_memReads m1) n of None \<Rightarrow> [] | Some as \<Rightarrow> as)"
  have m1: "tracker_ok now m1" "n \<in> keys (mt_tensorSize m1)"
  proof -
    show "tracker_ok now m1"
      using ok unfolding m1_def tracker_ok_def
      by (auto simp: distinct_put_new map_of_put_new undefined_write_def keys_map_of split: if_splits)
    show "n \<in> keys (mt_tensorSize m1)" by (auto simp: m1_def keys_map_of map_of_put_new)
  qed
  have "tracker_ok now (m1\<lparr>mt_memReads := AList.update n (rs @ [a]) (mt_memReads m1)\<rparr>)"
    using m1 a unfolding tracker_ok_def
    by (auto simp: update_conv' distinct_update split: if_splits)
  moreover have "record_read a info m =
      (if sz = 0 then m else m1\<lparr>mt_memReads := AList.update n (rs @ [a]) (mt_memReads m1)\<rparr>)"
    by (simp add: record_read_def info m1_def rs_def Let_def)
  ultimately show ?thesis using ok by simp
qed

lemma record_write_ok:
  assumes ok: "tracker_ok now m" and "ma_start a \<le> now" and "record_write a info m = Inr m'"
  shows "tracker_ok now m'"
proof -
  obtain n sz where info: "info = (n, sz)" by (cases info)
  show ?thesis
  proof (cases "sz = 0")
    case False
    then have none: "map_of (mt_tensorSize m) n = None" and
      m': "m' = m\<lparr>mt_tensorSize := put_new n sz (mt_tensorSize m), mt_memWrites := put_new n a (mt_memWrites m)\<rparr>"
      using assms(3) by (auto simp: record_write_def info split: if_splits)
    have "map_of (mt_memReads m) n = None"
      using ok none unfolding tracker_ok_def by (metis keys_map_of subsetD)
    then show ?thesis
      using ok assms(2) unfolding tracker_ok_def m'
      by (auto simp: distinct_put_new map_of_put_new split: if_splits)
  qed (use assms in \<open>simp add: record_write_def info\<close>)
qed

lemma record_reads_ok: "tracker_ok now m \<Longrightarrow> ma_end a = now \<Longrightarrow> tracker_ok now (fold (record_read a) infos m)"
  by (induction infos arbitrary: m) (simp_all add: record_read_ok)

lemma record_writes_ok:
  "tracker_ok now m \<Longrightarrow> ma_start a \<le> now \<Longrightarrow> fold_result (record_write a) infos m = Inr m' \<Longrightarrow> tracker_ok now m'"
  by (induction infos arbitrary: m) (auto simp: rbind_Inr_iff dest: record_write_ok)

text \<open>A tracker in use: operators start and end, at ticks that never decrease.\<close>

inductive tracked :: "nat \<Rightarrow> Tick \<Rightarrow> mem_tracker \<Rightarrow> bool" for sysId where
  fresh: "tracked sysId 0 (mem_tracker_new sysId)"
| begun: "tracked sysId t m \<Longrightarrow> t \<le> now \<Longrightarrow> tracked sysId now (recordStart node now m)"
| ended: "tracked sysId t m \<Longrightarrow> t \<le> now \<Longrightarrow> recordEnd node now m = Inr m' \<Longrightarrow> tracked sysId now m'"

lemma tracked_ok: "tracked sysId now m \<Longrightarrow> tracker_ok now m"
proof (induction rule: tracked.induct)
  case fresh
  show ?case by (simp add: tracker_ok_def mem_tracker_new_def keys_def)
next
  case (begun t m now node)
  then show ?case using tracker_ok_mono [of t m now] by (auto simp: tracker_ok_def recordStart_def)
next
  case (ended t m now node m')
  have ok: "tracker_ok now m" using ended tracker_ok_mono by blast
  show ?case
  proof (cases "mt_activityStartTime m (et_id node)")
    case None
    then show ?thesis using ended ok by (simp add: recordEnd_def)
  next
    case (Some start)
    then obtain reads writes m2 where m2: "fold_result (record_write (activity node start now)) writes
        (fold (record_read (activity node start now)) reads m) = Inr m2"
      "m' = m2\<lparr>mt_activityStartTime := (mt_activityStartTime m2)(et_id node := None)\<rparr>"
      using ended(3) by (auto simp: recordEnd_def recordReads_def recordWrites_def rbind_Inr_iff)
    have "start \<le> now" using ok Some by (simp add: tracker_ok_def)
    then have "tracker_ok now m2"
      using record_writes_ok [OF record_reads_ok [OF ok] _ m2(1)] by (simp add: activity_def)
    then show ?thesis unfolding m2(2) by (auto simp: tracker_ok_def)
  qed
qed

section \<open>Building the trace\<close>

lemma push_events_simps [simp]:
  "mt_sysId (push_events es m) = mt_sysId m" "mt_activityStartTime (push_events es m) = mt_activityStartTime m"
  "mt_memReads (push_events es m) = mt_memReads m"
  "mt_memWrites (push_events es m) = mt_memWrites m" "mt_tensorSize (push_events es m) = mt_tensorSize m"
  "mt_tensorMapId (push_events es m) = mt_tensorMapId m" "mt_memoryUsage (push_events es m) = mt_memoryUsage m"
  "push_events es (push_events es' m) = push_events (es' @ es) m"
  by (simp_all add: push_events_def)

lemma pushing_fold:
  assumes "\<And>x es. x \<in> set xs \<Longrightarrow> \<exists>es'. f x (push_events es m) = Inr (push_events (es @ es') m)"
  shows "\<exists>es'. fold_result f xs (push_events es m) = Inr (push_events (es @ es') m)"
  using assms
proof (induction xs arbitrary: es)
  case Nil
  then show ?case by (auto intro: exI [of _ "[]"])
next
  case (Cons x xs)
  then show ?case by (metis (no_types, lifting) append_assoc fold_result.simps(2) list.set_intros rbind_simps(2))
qed

lemma push_none: "push_events [] m = m"
  by (simp add: push_events_def)

lemma lookup_at_key: "k \<in> keys xs \<Longrightarrow> lookup_at xs k = Inr (the (map_of xs k))"
  by (auto simp: lookup_at_def keys_map_of)

lemma trace_access_ok:
  assumes "n \<in> keys (mt_tensorMapId m)" "n \<in> keys (mt_tensorSize m)"
  shows "\<exists>es'. trace_access cat n a (push_events es m) = Inr (push_events (es @ es') m)"
  using assms by (auto simp: trace_access_def access_events_def lookup_at_key Let_def)

definition mapped :: "mem_tracker \<Rightarrow> bool" where
  "mapped m \<longleftrightarrow> keys (mt_tensorMapId m) = keys (mt_tensorSize m)"

lemma trace_reads_ok:
  assumes "mapped m" "n \<in> keys (mt_tensorSize m)"
  shows "\<exists>es'. trace_reads n (push_events es m) = Inr (push_events (es @ es') m)"
  using assms pushing_fold [of _ "trace_access ''tensorRead'' n" m es] trace_access_ok [of n m]
  by (auto simp: trace_reads_def mapped_def intro: exI [of _ "[]"] split: option.splits)

lemma trace_write_ok:
  assumes "mapped m" "n \<in> keys (mt_tensorSize m)" "keys (mt_memWrites m) = keys (mt_tensorSize m)"
  shows "\<exists>es'. trace_write n (push_events es m) = Inr (push_events (es @ es') m)"
  using assms trace_access_ok [of n m] by (simp add: trace_write_def lookup_at_key mapped_def)

lemma buildMemoryTrace_ok:
  assumes "tracker_ok now m"
  shows "\<exists>m'. buildMemoryTrace m = Inr m' \<and> mapped m' \<and> mt_memReads m' = mt_memReads m \<and>
    mt_memWrites m' = mt_memWrites m \<and> mt_tensorSize m' = mt_tensorSize m \<and> mt_activityStartTime m' = mt_activityStartTime m"
proof -
  let ?names = "map fst (mt_tensorSize m)"
  define m1 where "m1 = m\<lparr>mt_tensorMapId := zip ?names [0..<length ?names], mt_serializedMemoryTrace := []\<rparr>"
  have m1: "mapped m1" "mt_memReads m1 = mt_memReads m" "mt_memWrites m1 = mt_memWrites m"
    "mt_tensorSize m1 = mt_tensorSize m" "mt_activityStartTime m1 = mt_activityStartTime m" "keys (mt_memWrites m1) = keys (mt_tensorSize m1)"
  proof -
    have "fst ` set (zip ?names [0..<length ?names]) = set ?names"
      by (metis length_map length_upt map_fst_zip minus_nat.diff_0 set_map)
    then show "mapped m1" by (simp add: mapped_def m1_def keys_def)
    show "keys (mt_memWrites m1) = keys (mt_tensorSize m1)" using assms by (simp add: m1_def tracker_ok_def)
  qed (simp_all add: m1_def)
  have names: "set ?names = keys (mt_tensorSize m1)" by (simp add: keys_def m1(4))
  obtain es where es: "fold_result trace_reads ?names (push_events [] m1) = Inr (push_events es m1)"
    using pushing_fold [of ?names trace_reads m1 "[]"] trace_reads_ok [OF m1(1)] names by auto
  obtain es' where "fold_result trace_write ?names (push_events es m1) = Inr (push_events (es @ es') m1)"
    using pushing_fold [of ?names trace_write m1 es] trace_write_ok [OF m1(1) _ m1(6)] names by auto
  then have "buildMemoryTrace m = Inr (push_events (es @ es') m1)"
    using es by (simp add: buildMemoryTrace_def Let_def push_none m1_def)
  then show ?thesis using m1 by (auto simp: mapped_def)
qed

section \<open>The timeline\<close>

definition live :: "mem_tracker \<Rightarrow> TensorId \<Rightarrow> Tick \<Rightarrow> bool" where
  "live m x t \<longleftrightarrow>
     (\<exists>a. map_of (mt_memWrites m) x = Some a \<and> ma_start a \<le> t) \<and>
     (\<forall>as. map_of (mt_memReads m) x = Some as \<longrightarrow> t < ma_end (last as))"

text \<open>The memory in use at a tick, in 64-bit arithmetic as in the code.\<close>

definition used :: "mem_tracker \<Rightarrow> Tick \<Rightarrow> u64" where
  "used m t = (\<Sum>x \<in> {x \<in> keys (mt_tensorSize m). live m x t}. the (map_of (mt_tensorSize m) x))"

lemma map_of_map_snd: "map_of (map (\<lambda>(x, a). (x, f a)) xs) x = map_option f (map_of xs x)"
  by (induction xs) auto

lemma at_tick_set: "distinct (map fst xs) \<Longrightarrow> set (at_tick t xs) = {x. map_of xs x = Some t}"
  by (force simp: at_tick_def map_of_eq_Some_iff)

lemma first_writes_map_of: "map_of (first_writes m) x = map_option ma_start (map_of (mt_memWrites m) x)"
  by (simp add: first_writes_def map_of_map_snd)

lemma last_reads_map_of: "map_of (last_reads m) x = map_option (\<lambda>as. ma_end (last as)) (map_of (mt_memReads m) x)"
  by (simp add: last_reads_def map_of_map_snd)

lemma keys_lifetimes [simp]:
  "map fst (first_writes m) = map fst (mt_memWrites m)" "map fst (last_reads m) = map fst (mt_memReads m)"
  by (auto simp: first_writes_def last_reads_def)

lemma event_ticks_sorted: "sorted (event_ticks m)" "distinct (event_ticks m)"
  by (simp_all add: event_ticks_def sorted_remdups)

lemma in_event_ticks:
  "map_of (first_writes m) x = Some t \<Longrightarrow> t \<in> set (event_ticks m)"
  "map_of (last_reads m) x = Some t \<Longrightarrow> t \<in> set (event_ticks m)"
  by (force simp: event_ticks_def dest: map_of_SomeD)+

lemma set_fold_removeAll [simp]: "set (fold removeAll xs ys) = set ys - set xs"
  by (induction xs arbitrary: ys) auto

lemma distinct_fold_removeAll [simp]: "distinct ys \<Longrightarrow> distinct (fold removeAll xs ys)"
  by (induction xs arbitrary: ys) (auto simp: distinct_removeAll)

lemma set_fold_insert [simp]: "set (fold List.insert xs ys) = set ys \<union> set xs"
  by (induction xs arbitrary: ys) auto

lemma distinct_fold_insert [simp]: "distinct ys \<Longrightarrow> distinct (fold List.insert xs ys)"
  by (induction xs arbitrary: ys) auto

text \<open>The tensors in memory after the ticks \<open>D\<close>: written in one of them, with no last read in them.\<close>

definition present :: "mem_tracker \<Rightarrow> Tick set \<Rightarrow> TensorId set" where
  "present m D =
     {x. (\<exists>t \<in> D. map_of (first_writes m) x = Some t) \<and> (\<forall>t. map_of (last_reads m) x = Some t \<longrightarrow> t \<notin> D)}"

lemma writes_before_reads:
  assumes "tracker_ok now m" "map_of (first_writes m) x = Some s" "map_of (last_reads m) x = Some e"
  shows "s \<le> e"
  using assms unfolding tracker_ok_def first_writes_map_of last_reads_map_of by fastforce

lemma next_contents_ok:
  assumes ok: "tracker_ok now m" and contents: "set contents = present m D" "distinct contents" and D: "\<forall>s \<in> D. s < t"
  shows "set (next_contents m t contents) = present m (insert t D)" "distinct (next_contents m t contents)"
proof -
  have d: "distinct (map fst (first_writes m))" "distinct (map fst (last_reads m))" using ok by (simp_all add: tracker_ok_def)
  show "set (next_contents m t contents) = present m (insert t D)"
    using D writes_before_reads [OF ok]
    unfolding next_contents_def set_fold_removeAll set_fold_insert at_tick_set [OF d(1)] at_tick_set [OF d(2)] contents(1)
      present_def by fastforce
  show "distinct (next_contents m t contents)" using contents(2) by (simp add: next_contents_def)
qed

text \<open>At an event tick the present tensors are the live ones.\<close>

lemma present_live:
  assumes "set (event_ticks m) \<inter> {..t} \<subseteq> D" "D \<subseteq> {..t}"
  shows "present m D = {x. live m x t}"
proof -
  have w: "(\<exists>s \<in> D. map_of (first_writes m) x = Some s) \<longleftrightarrow> (\<exists>a. map_of (mt_memWrites m) x = Some a \<and> ma_start a \<le> t)" for x
    using in_event_ticks(1) [of m x] assms by (fastforce simp: first_writes_map_of)
  have r: "(\<forall>s. map_of (last_reads m) x = Some s \<longrightarrow> s \<notin> D) \<longleftrightarrow>
      (\<forall>as. map_of (mt_memReads m) x = Some as \<longrightarrow> t < ma_end (last as))" for x
    using in_event_ticks(2) [of m x] assms by (fastforce simp: last_reads_map_of)
  show ?thesis unfolding present_def live_def w r ..
qed

lemma total_size_ok:
  assumes "distinct contents" "set contents \<subseteq> keys (mt_tensorSize m)"
  shows "total_size m contents = Inr (\<Sum>x \<in> set contents. the (map_of (mt_tensorSize m) x))"
proof -
  let ?s = "\<lambda>x. the (map_of (mt_tensorSize m) x)"
  have "fold_result (\<lambda>n acc. rbind (lookup_at (mt_tensorSize m) n) (\<lambda>sz. Inr (acc + sz))) contents acc =
      Inr (acc + sum_list (map ?s contents))" for acc :: u64
    using assms(2) by (induction contents arbitrary: acc) (simp_all add: lookup_at_key add.assoc)
  then show ?thesis using assms(1) by (simp add: total_size_def sum_list_distinct_conv_sum_set)
qed

definition same_accesses :: "mem_tracker \<Rightarrow> mem_tracker \<Rightarrow> bool" where
  "same_accesses m m' \<longleftrightarrow>
     mt_memReads m' = mt_memReads m \<and> mt_memWrites m' = mt_memWrites m \<and> mt_tensorSize m' = mt_tensorSize m"

lemma same_accesses_simps:
  assumes "same_accesses m m'"
  shows "next_contents m' = next_contents m" "total_size m' = total_size m" "event_ticks m' = event_ticks m"
    "first_writes m' = first_writes m" "last_reads m' = last_reads m" "used m' = used m"
    "tracker_ok now m \<Longrightarrow> mt_activityStartTime m' = mt_activityStartTime m \<Longrightarrow> tracker_ok now m'"
  using assms
  by (auto simp: same_accesses_def next_contents_def total_size_def event_ticks_def first_writes_def last_reads_def
      used_def live_def tracker_ok_def fun_eq_iff)

lemma timeline_loop_ok:
  assumes ok: "tracker_ok now m" and "event_ticks m = before @ ts"
    and "set contents = present m (set before)" "distinct contents" "same_accesses m m1"
  shows "\<exists>m'. timeline_loop ts contents m1 = Inr m' \<and> mt_memoryUsage m' = mt_memoryUsage m1 @ map (\<lambda>t. (t, used m t)) ts"
  using assms(2-)
proof (induction ts arbitrary: before contents m1)
  case Nil
  then show ?case by simp
next
  case (Cons t ts)
  note S = same_accesses_simps [OF Cons.prems(4)]
  let ?contents = "next_contents m t contents"
  have ticks: "event_ticks m = (before @ [t]) @ ts" using Cons.prems(1) by simp
  have sorted: "\<forall>s \<in> set before. s < t" "\<forall>s \<in> set ts. t < s"
    using event_ticks_sorted [of m] unfolding Cons.prems(1) sorted_append by (auto simp: le_less)
  have nxt: "set ?contents = present m (set (before @ [t]))" "distinct ?contents"
    using next_contents_ok [OF ok Cons.prems(2,3) sorted(1)] by simp_all
  have live: "set ?contents = {x. live m x t}"
    unfolding nxt(1) using sorted by (intro present_live) (auto simp: ticks le_less)
  have keys: "{x. live m x t} = {x \<in> keys (mt_tensorSize m). live m x t}"
    using ok unfolding tracker_ok_def live_def by (auto simp: keys_map_of)
  have total: "total_size m ?contents = Inr (used m t)"
    using total_size_ok [OF nxt(2), of m] unfolding used_def live keys by auto
  define m2 where "m2 = push_events [memory_event m1 t (used m t)]
      (m1\<lparr>mt_memoryContents := mt_memoryContents m1 @ [(t, ?contents)], mt_memoryUsage := mt_memoryUsage m1 @ [(t, used m t)]\<rparr>)"
  have "same_accesses m m2" "mt_memoryUsage m2 = mt_memoryUsage m1 @ [(t, used m t)]"
    using Cons.prems(4) by (simp_all add: m2_def same_accesses_def)
  moreover obtain m' where "timeline_loop ts ?contents m2 = Inr m'"
    "mt_memoryUsage m' = mt_memoryUsage m2 @ map (\<lambda>t. (t, used m t)) ts"
    using Cons.IH [OF ticks nxt \<open>same_accesses m m2\<close>] by blast
  ultimately show ?case by (simp add: S total Let_def m2_def)
qed

lemma trace_lifetime_ok:
  assumes "mapped m" "n \<in> keys (mt_tensorSize m)"
  shows "\<exists>es'. trace_lifetime ph (n, t) (push_events es m) = Inr (push_events (es @ es') m)"
  using assms by (auto simp: trace_lifetime_def lifetime_event_def lookup_at_key mapped_def)

lemma buildMemoryTimeline_ok:
  assumes ok: "tracker_ok now m" and "mapped m"
  shows "\<exists>m'. buildMemoryTimeline m = Inr m' \<and> mt_memoryUsage m' = map (\<lambda>t. (t, used m t)) (event_ticks m)"
proof -
  define m1 where "m1 = m\<lparr>mt_memoryContents := [], mt_memoryUsage := []\<rparr>"
  have m1: "same_accesses m m1" "mapped m1" "mt_memoryUsage m1 = []"
    using assms(2) by (simp_all add: m1_def same_accesses_def mapped_def)
  note S = same_accesses_simps [OF m1(1)]
  have keys: "n \<in> keys (mt_tensorSize m1)" if "(n, t) \<in> set (first_writes m1) \<union> set (last_reads m1)" for n t
  proof -
    have "n \<in> set (map fst (first_writes m1)) \<union> set (map fst (last_reads m1))"
      using that by (metis Un_iff fst_conv image_eqI list.set_map)
    then have "n \<in> keys (mt_memWrites m) \<union> keys (mt_memReads m)" by (simp add: keys_def m1_def)
    then show ?thesis using ok by (auto simp: tracker_ok_def m1_def)
  qed
  obtain es where es: "fold_result (trace_lifetime ''B'') (first_writes m1) (push_events [] m1) = Inr (push_events es m1)"
    using pushing_fold [of "first_writes m1" "trace_lifetime ''B''" m1 "[]"] trace_lifetime_ok [OF m1(2)] keys by fastforce
  obtain es' where es': "fold_result (trace_lifetime ''E'') (last_reads m1) (push_events es m1) = Inr (push_events (es @ es') m1)"
    using pushing_fold [of "last_reads m1" "trace_lifetime ''E''" m1 es] trace_lifetime_ok [OF m1(2)] keys by fastforce
  define m2 where "m2 = push_events (es @ es') m1"
  have m2: "same_accesses m m2" "mt_memoryUsage m2 = []" using m1 by (simp_all add: m2_def same_accesses_def)
  have "present m {} = {}" by (simp add: present_def)
  then obtain m' where m': "timeline_loop (event_ticks m) [] m2 = Inr m'"
    "mt_memoryUsage m' = map (\<lambda>t. (t, used m t)) (event_ticks m)"
    using timeline_loop_ok [OF ok, of "[]" "event_ticks m" "[]" m2] m2 by auto
  have frame: "first_writes (push_events x m1) = first_writes m1" "last_reads (push_events x m1) = last_reads m1" for x
    by (simp_all add: first_writes_def last_reads_def)
  have "buildMemoryTimeline m = timeline_loop (event_ticks m2) [] m2"
    using es es' by (simp add: buildMemoryTimeline_def Let_def push_none frame m2_def flip: m1_def)
  then show ?thesis using m' same_accesses_simps(3) [OF m2(1)] by simp
qed

section \<open>The peak\<close>

lemma used_before: "\<forall>s \<in> set (event_ticks m). t < s \<Longrightarrow> used m t = 0"
proof -
  assume "\<forall>s \<in> set (event_ticks m). t < s"
  then have "\<not> live m x t" for x
    using in_event_ticks(1) [of m x] by (force simp: live_def first_writes_map_of)
  then show ?thesis by (simp add: used_def)
qed

lemma used_since:
  assumes "s \<in> set (event_ticks m)" "s \<le> t" "\<forall>r \<in> set (event_ticks m). r \<le> t \<longrightarrow> r \<le> s"
  shows "used m t = used m s"
proof -
  have "live m x t = live m x s" for x
    using assms in_event_ticks [of m x] unfolding live_def first_writes_map_of last_reads_map_of
    by (metis (no_types, lifting) not_le order_trans option.map(2))
  then show ?thesis by (simp add: used_def)
qed

lemma fold_max: "fold (\<lambda>(t, b) p. max p b) xs p = Max (insert p (snd ` set xs))" for p :: u64
proof (induction xs arbitrary: p)
  case (Cons x xs)
  obtain t b where x: "x = (t, b)" by (cases x)
  have "Max (insert (max p b) (snd ` set xs)) = Max (insert p (insert b (snd ` set xs)))"
    by (cases "set xs = {}") (simp_all add: max.assoc)
  then show ?case using Cons.IH [of "max p b"] by (simp add: x)
qed simp

text \<open>
  \<^bold>\<open>C36\<close>. The reported memory. When operators have started and ended, in any order and number, the trace and
  the timeline are built without an error; the timeline holds, for every tick at which a tensor is
  written or read for the last time, the sizes of the tensors that are written and still to be read; and
  the reported peak is the maximum over all ticks, also those in between.
\<close>

theorem memory_timeline:
  assumes "tracked sysId now m"
  shows "\<exists>m1 m2. buildMemoryTrace m = Inr m1 \<and> buildMemoryTimeline m1 = Inr m2 \<and>
    mt_memoryUsage m2 = map (\<lambda>t. (t, used m t)) (event_ticks m) \<and>
    (\<forall>t. used m t \<le> getPeakMemUsage m2) \<and> (\<exists>t. used m t = getPeakMemUsage m2)"
proof -
  have ok: "tracker_ok now m" by (rule tracked_ok [OF assms])
  obtain m1 where m1: "buildMemoryTrace m = Inr m1" "mapped m1" "same_accesses m m1"
    "mt_activityStartTime m1 = mt_activityStartTime m"
    using buildMemoryTrace_ok [OF ok] by (auto simp: same_accesses_def)
  note S = same_accesses_simps [OF m1(3)]
  obtain m2 where m2: "buildMemoryTimeline m1 = Inr m2" "mt_memoryUsage m2 = map (\<lambda>t. (t, used m t)) (event_ticks m)"
    using buildMemoryTimeline_ok [OF S(7) [OF ok m1(4)] m1(2)] unfolding S by blast
  have peak: "getPeakMemUsage m2 = Max (insert 0 (used m ` set (event_ticks m)))"
    by (simp add: getPeakMemUsage_def fold_max m2(2) image_image)
  have cases: "used m t = 0 \<or> (\<exists>s \<in> set (event_ticks m). used m t = used m s)" for t
  proof (cases "\<forall>s \<in> set (event_ticks m). t < s")
    case False
    let ?past = "{s \<in> set (event_ticks m). s \<le> t}"
    have "?past \<noteq> {}" using False by (auto simp: not_less)
    then have "Max ?past \<in> ?past" "\<forall>r \<in> ?past. r \<le> Max ?past" using Max_in [of ?past] by auto
    then show ?thesis using used_since [of "Max ?past" m t] by auto
  qed (simp add: used_before)
  have le: "used m t \<le> getPeakMemUsage m2" for t
    using cases [of t] unfolding peak by (auto intro: Max_ge)
  have "\<exists>t. used m t = getPeakMemUsage m2"
  proof -
    have "getPeakMemUsage m2 \<in> insert 0 (used m ` set (event_ticks m))" unfolding peak by (rule Max_in) auto
    moreover have "used m t = 0" if "getPeakMemUsage m2 = 0" for t
      using le [of t] that by simp
    ultimately show ?thesis by auto
  qed
  then show ?thesis using m1(1) m2 le by blast
qed

text \<open>Two operators: the first writes two tensors, the second reads one of them.\<close>

definition demo_node :: "nat \<Rightarrow> string list \<Rightarrow> string list \<Rightarrow> et_node" where
  "demo_node i inputs outputs =
     \<lparr>et_id = i, et_name = ''op'', et_type = COMP_NODE, et_runtime = 1, et_is_cpu_op = False,
      et_is_cpu_op_or = (\<lambda>_. False), et_num_ops = 1, et_tensor_size = 1, et_comm_type = CT_OTHER, et_comm_size = 0,
      et_comm_priority = 0, et_comm_src = 0, et_comm_src_or = (\<lambda>d. d), et_comm_dst = 0, et_comm_dst_or = (\<lambda>d. d),
      et_comm_tag = 0, et_pg_name_or = (\<lambda>d. d), et_inputs_values = [],
      et_attr = [''inputs'' \<mapsto> StringListAttr inputs, ''outputs'' \<mapsto> StringListAttr outputs]\<rparr>"

definition demo_write :: et_node where
  "demo_write = demo_node 1 [] [''a'', ''10'', ''b'', ''5'']"

definition demo_read :: et_node where
  "demo_read = demo_node 2 [''a'', ''10''] []"

lemma demo_infos:
  "io_infos ''inputs'' demo_write = Inr []" "io_infos ''outputs'' demo_write = Inr [(''a'', 10), (''b'', 5)]"
  "et_id demo_write = 1" "et_name demo_write = ''op''" "et_id demo_read = 2" "et_name demo_read = ''op''"
  "io_infos ''inputs'' demo_read = Inr [(''a'', 10)]" "io_infos ''outputs'' demo_read = Inr []"
  by (simp_all add: io_infos_def demo_write_def demo_read_def demo_node_def parseIOInfos_def stoull_def digits_of_def is_space_def
      is_digit_def decimal_def)

definition demo_activity :: "nat \<Rightarrow> Tick \<Rightarrow> Tick \<Rightarrow> MemActivity" where
  "demo_activity i s e = \<lparr>ma_start = s, ma_end = e, ma_nodeName = ''op'', ma_nodeId = i\<rparr>"

definition demo_tracker :: mem_tracker where
  "demo_tracker =
     (mem_tracker_new 0)\<lparr>mt_memWrites := [(''a'', demo_activity 1 10 20), (''b'', demo_activity 1 10 20)],
       mt_tensorSize := [(''a'', 10), (''b'', 5)], mt_memReads := [(''a'', [demo_activity 2 30 40])]\<rparr>"

lemma demo_tracked: "tracked 0 40 demo_tracker"
proof -
  have "tracked 0 10 (recordStart demo_write 10 (mem_tracker_new 0))"
    by (rule begun [OF fresh]) simp
  then have "tracked 0 20 (demo_tracker\<lparr>mt_memReads := []\<rparr>)"
    by (rule ended [where node = demo_write])
      (simp_all add: recordEnd_def recordStart_def recordReads_def recordWrites_def demo_infos record_write_def put_new_def
        activity_def demo_activity_def demo_tracker_def mem_tracker_new_def fun_eq_iff)
  then have "tracked 0 30 (recordStart demo_read 30 (demo_tracker\<lparr>mt_memReads := []\<rparr>))" by (rule begun) simp
  then show ?thesis
    by (rule ended [where node = demo_read])
      (simp_all add: recordEnd_def recordStart_def recordReads_def recordWrites_def demo_infos record_read_def
        activity_def demo_activity_def demo_tracker_def mem_tracker_new_def fun_eq_iff)
qed

theorem memory_timeline_witness:
  "\<exists>m1 m2. buildMemoryTrace demo_tracker = Inr m1 \<and> buildMemoryTimeline m1 = Inr m2 \<and>
     mt_memoryUsage m2 = [(10, used demo_tracker 10), (40, used demo_tracker 40)]"
proof -
  have "event_ticks demo_tracker = [10, 40]"
    by (simp add: event_ticks_def first_writes_def last_reads_def demo_tracker_def demo_activity_def mem_tracker_new_def)
  then show ?thesis using memory_timeline [OF demo_tracked] by auto
qed

declare map_of_eq_Some_iff [simp]

end
