(* ===== verification/Custom_Replay.thy ===== *)
theory Custom_Replay
  imports Workload_Properties
begin

text \<open>
  The replay of a custom collective, \<^verbatim>\<open>CustomAlgorithm.cc\<close>: a node of the collective walks through a
  trace of sends, receives and computations. As for a workload, the Chakra feeder is a parameter and
  what is started is recorded; each of these events is answered by one call. A receive whose message has
  arrived already may be answered at once, inside \<^verbatim>\<open>sim_recv\<close>. Leaving the algorithm, which hands the
  stream back to its scheduler, is counted.
\<close>

section \<open>The algorithm\<close>

text \<open>A send or receive (node, size, rank of the peer, tag) or a computation (node, runtime).\<close>

datatype custom_event =
    CustomSend nat u64 int nat
  | CustomRecv nat u64 int nat
  | CustomTimer nat u64

fun custom_node :: "custom_event \<Rightarrow> nat" where
  "custom_node (CustomSend n sz dst tag) = n"
| "custom_node (CustomRecv n sz src tag) = n"
| "custom_node (CustomTimer n runtime) = n"

record 'r custom_replay =
  cr_dep :: 'r
  cr_comm_group :: "CommunicatorGroup option"
  cr_events :: "custom_event list"
  cr_exits :: nat

definition custom_replay_new :: "CommunicatorGroup option \<Rightarrow> 'r \<Rightarrow> 'r custom_replay" where
  "custom_replay_new comm_group dep = \<lparr>cr_dep = dep, cr_comm_group = comm_group, cr_events = [], cr_exits = 0\<rparr>"

definition custom_start :: "custom_event \<Rightarrow> 'r custom_replay \<Rightarrow> 'r custom_replay" where
  "custom_start e c = c\<lparr>cr_events := cr_events c @ [e]\<rparr>"

text \<open>
  A node of any other type is taken, and nothing is started for it. \<open>recv\<close> is what the front end does
  when a receive from a rank is posted for a node.
\<close>

type_synonym 'r custom_recv = "et_node \<Rightarrow> int \<Rightarrow> 'r custom_replay \<Rightarrow> 'r custom_replay result"

definition custom_recv_later :: "'r custom_recv" where
  "custom_recv_later node src_rank c =
     Inr (custom_start (CustomRecv (et_id node) (et_comm_size node) src_rank (et_comm_tag node)) c)"

definition custom_issue :: "'r et_feeder \<Rightarrow> 'r custom_recv \<Rightarrow> et_node \<Rightarrow> 'r custom_replay \<Rightarrow> 'r custom_replay result" where
  "custom_issue fd recv node c =
     (let c = c\<lparr>cr_dep := fd_take_node fd (et_id node) (cr_dep c)\<rparr> in
      if et_type node = COMM_SEND_NODE then
        rbind (convert_algo_rank_to_real_rank (cr_comm_group c) (int (et_comm_dst node))) (\<lambda>dst_rank.
        Inr (custom_start (CustomSend (et_id node) (et_comm_size node) dst_rank (et_comm_tag node)) c))
      else if et_type node = COMM_RECV_NODE then
        rbind (convert_algo_rank_to_real_rank (cr_comm_group c) (int (et_comm_src node))) (\<lambda>src_rank.
        recv node src_rank c)
      else if et_type node = COMP_NODE then Inr (custom_start (CustomTimer (et_id node) (replay_runtime node)) c)
      else Inr c)"

definition custom_issue_dep_free_nodes ::
    "'r et_feeder \<Rightarrow> 'r custom_recv \<Rightarrow> 'r custom_replay \<Rightarrow> 'r custom_replay result" where
  "custom_issue_dep_free_nodes fd recv c =
     fold_result (\<lambda>node_id c. if fd_has_node fd node_id then custom_issue fd recv (fd_lookupNode fd node_id) c else Inr c)
       (fd_dependancy_free_nodes fd (cr_dep c)) c"

definition custom_call_with ::
    "'r et_feeder \<Rightarrow> 'r custom_recv \<Rightarrow> nat option \<Rightarrow> 'r custom_replay \<Rightarrow> 'r custom_replay result" where
  "custom_call_with fd recv data c =
     (case data of
        None \<Rightarrow> Inl (RuntimeError ''CustomAlgorithm::call does not have node id encoded'')
      | Some node_id \<Rightarrow>
          rbind (custom_issue_dep_free_nodes fd recv (c\<lparr>cr_dep := fd_finish_node fd node_id (cr_dep c)\<rparr>)) (\<lambda>c.
          Inr (if fd_ongoing_nodes fd (cr_dep c) = [] \<and> fd_dependancy_free_nodes fd (cr_dep c) = []
               then c\<lparr>cr_exits := cr_exits c + 1\<rparr> else c)))"

text \<open>
  The front end answers the receives for which \<open>arrived\<close> holds by a nested call; nesting is bounded as for a
  workload, and every execution that returns has a bound.
\<close>

type_synonym 'r custom_arrivals = "et_node \<Rightarrow> 'r custom_replay \<Rightarrow> bool"

primrec custom_recv_now :: "nat \<Rightarrow> 'r custom_arrivals \<Rightarrow> 'r et_feeder \<Rightarrow> 'r custom_recv" where
  "custom_recv_now 0 arrived fd = custom_recv_later"
| "custom_recv_now (Suc depth) arrived fd = (\<lambda>node src_rank c.
     if arrived node c then custom_call_with fd (custom_recv_now depth arrived fd) (Some (et_id node)) c
     else custom_recv_later node src_rank c)"

definition custom_call ::
    "nat \<Rightarrow> 'r custom_arrivals \<Rightarrow> 'r et_feeder \<Rightarrow> nat option \<Rightarrow> 'r custom_replay \<Rightarrow> 'r custom_replay result" where
  "custom_call depth arrived fd = custom_call_with fd (custom_recv_now depth arrived fd)"

definition custom_run ::
    "nat \<Rightarrow> 'r custom_arrivals \<Rightarrow> 'r et_feeder \<Rightarrow> 'r custom_replay \<Rightarrow> 'r custom_replay result" where
  "custom_run depth arrived fd = custom_issue_dep_free_nodes fd (custom_recv_now depth arrived fd)"

text \<open>A front end that answers every receive by a later call.\<close>

definition custom_answers_later :: "'r custom_arrivals \<Rightarrow> bool" where
  "custom_answers_later arrived \<longleftrightarrow> (\<forall>node c. \<not> arrived node c)"

lemma custom_later:
  assumes "custom_answers_later arrived"
  shows "custom_call depth arrived fd = custom_call_with fd custom_recv_later"
    "custom_run depth arrived fd = custom_issue_dep_free_nodes fd custom_recv_later"
proof -
  have "custom_recv_now depth arrived fd = custom_recv_later"
    using assms by (cases depth) (simp_all add: custom_answers_later_def)
  then show "custom_call depth arrived fd = custom_call_with fd custom_recv_later"
    "custom_run depth arrived fd = custom_issue_dep_free_nodes fd custom_recv_later"
    by (simp_all add: custom_call_def custom_run_def)
qed

text \<open>
  A run: the algorithm is started, and then every recorded event is answered by one call, in any order.
  \<open>answered\<close> lists the nodes that have been answered so.
\<close>

inductive replays ::
    "nat \<Rightarrow> 'r custom_arrivals \<Rightarrow> 'r et_feeder \<Rightarrow> 'r custom_replay \<Rightarrow> nat list \<Rightarrow> 'r custom_replay \<Rightarrow> bool"
  for depth arrived fd c0 where
  started: "custom_run depth arrived fd c0 = Inr c \<Longrightarrow> replays depth arrived fd c0 [] c"
| answer: "replays depth arrived fd c0 answered c \<Longrightarrow> e \<in> set (cr_events c) \<Longrightarrow> custom_node e \<notin> set answered \<Longrightarrow>
    custom_call depth arrived fd (Some (custom_node e)) c = Inr c' \<Longrightarrow>
    replays depth arrived fd c0 (answered @ [custom_node e]) c'"

section \<open>Runs\<close>

text \<open>The event of a node, when it has one.\<close>

definition event_of :: "CommunicatorGroup option \<Rightarrow> et_node \<Rightarrow> custom_event option" where
  "event_of comm_group node =
     (let real = (\<lambda>r. projr (convert_algo_rank_to_real_rank comm_group (int r))) in
      if et_type node = COMM_SEND_NODE
      then Some (CustomSend (et_id node) (et_comm_size node) (real (et_comm_dst node)) (et_comm_tag node))
      else if et_type node = COMM_RECV_NODE
      then Some (CustomRecv (et_id node) (et_comm_size node) (real (et_comm_src node)) (et_comm_tag node))
      else if et_type node = COMP_NODE then Some (CustomTimer (et_id node) (replay_runtime node))
      else None)"

lemma custom_node_event_of: "event_of grp node = Some e \<Longrightarrow> custom_node e = et_id node"
  by (auto simp: event_of_def Let_def split: if_splits)

definition peers_ok :: "CommunicatorGroup option \<Rightarrow> et_node \<Rightarrow> bool" where
  "peers_ok comm_group node \<longleftrightarrow>
     (et_type node = COMM_SEND_NODE \<longrightarrow> (\<exists>r. convert_algo_rank_to_real_rank comm_group (int (et_comm_dst node)) = Inr r)) \<and>
     (et_type node = COMM_RECV_NODE \<longrightarrow> (\<exists>r. convert_algo_rank_to_real_rank comm_group (int (et_comm_src node)) = Inr r))"

lemma custom_issue_ok:
  assumes "peers_ok (cr_comm_group c) node"
  shows "custom_issue fd custom_recv_later node c =
    Inr (c\<lparr>cr_dep := fd_take_node fd (et_id node) (cr_dep c),
           cr_events := cr_events c @ (case event_of (cr_comm_group c) node of None \<Rightarrow> [] | Some e \<Rightarrow> [e])\<rparr>)"
  using assms by (auto simp: custom_issue_def custom_recv_later_def event_of_def peers_ok_def custom_start_def Let_def)

text \<open>
  The trace: what the feeder promises, also that it lists no free node twice, a finite number of
  nodes, and peers that belong to the group.
\<close>

definition replay_ok ::
    "'r et_feeder \<Rightarrow> nat set \<Rightarrow> (nat \<Rightarrow> nat set) \<Rightarrow> 'r resolver_view \<Rightarrow> 'r custom_replay \<Rightarrow> bool" where
  "replay_ok fd N par I c0 \<longleftrightarrow>
     resolver_laws fd N par I \<and> (\<forall>r D R. I r D R \<longrightarrow> distinct (fd_dependancy_free_nodes fd r)) \<and> finite N \<and>
     (\<forall>n \<in> N. peers_ok (cr_comm_group c0) (fd_lookupNode fd n)) \<and> I (cr_dep c0) {} {} \<and>
     (\<exists>comm_group dep. c0 = custom_replay_new comm_group dep)"

text \<open>
  The invariant: \<open>D\<close> has finished and \<open>R\<close> has been taken; the events are those of the nodes in
  \<open>D \<union> R\<close>, each once.
\<close>

definition events_of :: "CommunicatorGroup option \<Rightarrow> 'r et_feeder \<Rightarrow> nat set \<Rightarrow> custom_event set" where
  "events_of grp fd S = {e. \<exists>n \<in> S. event_of grp (fd_lookupNode fd n) = Some e}"

definition replay_inv ::
    "'r et_feeder \<Rightarrow> nat set \<Rightarrow> (nat \<Rightarrow> nat set) \<Rightarrow> 'r resolver_view \<Rightarrow> CommunicatorGroup option \<Rightarrow>
     nat set \<Rightarrow> nat set \<Rightarrow> 'r custom_replay \<Rightarrow> bool" where
  "replay_inv fd N par I grp D R c \<longleftrightarrow>
     I (cr_dep c) D R \<and> D \<inter> R = {} \<and> D \<union> R \<subseteq> N \<and> (\<forall>n \<in> D \<union> R. par n \<subseteq> D) \<and> cr_comm_group c = grp \<and>
     distinct (map custom_node (cr_events c)) \<and> set (cr_events c) = events_of grp fd (D \<union> R)"

lemma events_of_node:
  assumes "resolver_laws fd N par I" "S \<subseteq> N" "e \<in> events_of grp fd S"
  shows "custom_node e \<in> S" "event_of grp (fd_lookupNode fd (custom_node e)) = Some e"
proof -
  obtain n where n: "n \<in> S" "event_of grp (fd_lookupNode fd n) = Some e" using assms(3) by (auto simp: events_of_def)
  moreover have "et_id (fd_lookupNode fd n) = n" using assms(1,2) n(1) unfolding resolver_laws_def by blast
  ultimately show "custom_node e \<in> S" "event_of grp (fd_lookupNode fd (custom_node e)) = Some e"
    using custom_node_event_of [OF n(2)] by simp_all
qed

lemma custom_take_ok:
  assumes laws: "resolver_laws fd N par I" and inv: "replay_inv fd N par I grp D R c"
    and n: "n \<in> N" "n \<notin> D" "n \<notin> R" "par n \<subseteq> D" and peers: "peers_ok grp (fd_lookupNode fd n)"
  shows "\<exists>c'. custom_issue fd custom_recv_later (fd_lookupNode fd n) c = Inr c' \<and> replay_inv fd N par I grp D (insert n R) c' \<and>
    cr_exits c' = cr_exits c"
proof -
  let ?node = "fd_lookupNode fd n"
  let ?new = "case event_of grp ?node of None \<Rightarrow> [] | Some e \<Rightarrow> [e]"
  define c' where "c' = c\<lparr>cr_dep := fd_take_node fd n (cr_dep c), cr_events := cr_events c @ ?new\<rparr>"
  have grp: "cr_comm_group c = grp" and DR: "D \<union> R \<subseteq> N" using inv by (simp_all add: replay_inv_def)
  have id: "et_id ?node = n" using laws n(1) unfolding resolver_laws_def by blast
  have dep: "I (fd_take_node fd n (cr_dep c)) D (insert n R)"
    using laws inv n unfolding resolver_laws_def replay_inv_def by blast
  have old: "custom_node e \<noteq> n" if "e \<in> set (cr_events c)" for e
    using events_of_node(1) [OF laws DR, of e grp] inv that n(2,3) by (auto simp: replay_inv_def)
  have "set (cr_events c @ ?new) = events_of grp fd (D \<union> insert n R)"
    using inv by (auto simp: replay_inv_def events_of_def split: option.splits)
  moreover have "distinct (map custom_node (cr_events c @ ?new))"
    using inv old custom_node_event_of [of grp ?node] id by (auto simp: replay_inv_def split: option.splits)
  ultimately have "replay_inv fd N par I grp D (insert n R) c'"
    using inv dep n unfolding replay_inv_def c'_def by auto
  moreover have "custom_issue fd custom_recv_later ?node c = Inr c'"
    using custom_issue_ok [of c ?node fd] peers grp id by (simp add: c'_def)
  ultimately show ?thesis by (auto simp: c'_def)
qed

lemma custom_issue_loop_ok:
  assumes laws: "resolver_laws fd N par I" and inv: "replay_inv fd N par I grp D R c"
    and ns: "distinct ns" "\<forall>n \<in> set ns. n \<in> N \<and> n \<notin> D \<and> n \<notin> R \<and> par n \<subseteq> D"
    and peers: "\<forall>n \<in> N. peers_ok grp (fd_lookupNode fd n)"
  shows "\<exists>c'. fold_result (\<lambda>n c. if fd_has_node fd n then custom_issue fd custom_recv_later (fd_lookupNode fd n) c else Inr c) ns c = Inr c' \<and>
    replay_inv fd N par I grp D (R \<union> set ns) c' \<and> cr_exits c' = cr_exits c"
  using inv ns
proof (induction ns arbitrary: R c)
  case (Cons n ns)
  obtain c1 where c1: "custom_issue fd custom_recv_later (fd_lookupNode fd n) c = Inr c1" "replay_inv fd N par I grp D (insert n R) c1"
    "cr_exits c1 = cr_exits c"
    using custom_take_ok [OF laws Cons.prems(1)] Cons.prems(3) peers by (metis list.set_intros(1))
  have "fd_has_node fd n" using laws Cons.prems(3) unfolding resolver_laws_def by simp
  with c1 show ?case using Cons.IH [OF c1(2)] Cons.prems(2,3) by fastforce
qed simp

lemma resolver_lists:
  assumes "resolver_laws fd N par I" "I r D R"
  shows "set (fd_dependancy_free_nodes fd r) = free N par D R" "set (fd_ongoing_nodes fd r) = R"
  using assms unfolding resolver_laws_def by blast+

lemma resolver_node: "resolver_laws fd N par I \<Longrightarrow> n \<in> N \<Longrightarrow> et_id (fd_lookupNode fd n) = n"
  unfolding resolver_laws_def by blast

text \<open>After the free nodes have been issued none is left, because finishing alone frees nodes.\<close>

lemma custom_issue_all_ok:
  assumes laws: "resolver_laws fd N par I" and inv: "replay_inv fd N par I grp D R c"
    and dis: "\<forall>r D R. I r D R \<longrightarrow> distinct (fd_dependancy_free_nodes fd r)"
    and peers: "\<forall>n \<in> N. peers_ok grp (fd_lookupNode fd n)"
  shows "\<exists>c' R'. custom_issue_dep_free_nodes fd custom_recv_later c = Inr c' \<and> replay_inv fd N par I grp D R' c' \<and> free N par D R' = {} \<and>
    R \<subseteq> R' \<and> cr_exits c' = cr_exits c"
proof -
  let ?ns = "fd_dependancy_free_nodes fd (cr_dep c)"
  have I: "I (cr_dep c) D R" using inv by (simp add: replay_inv_def)
  have "distinct ?ns" using dis I by blast
  then have ns: "set ?ns = free N par D R" "distinct ?ns" using resolver_lists(1) [OF laws I] by simp_all
  then have "\<forall>n \<in> set ?ns. n \<in> N \<and> n \<notin> D \<and> n \<notin> R \<and> par n \<subseteq> D" by simp
  then obtain c' where c': "custom_issue_dep_free_nodes fd custom_recv_later c = Inr c'" "replay_inv fd N par I grp D (R \<union> set ?ns) c'"
    "cr_exits c' = cr_exits c"
    using custom_issue_loop_ok [OF laws inv ns(2) _ peers] unfolding custom_issue_dep_free_nodes_def by blast
  moreover have "free N par D (R \<union> set ?ns) = {}" using ns(1) by auto
  ultimately show ?thesis by (intro exI [of _ c'] exI [of _ "R \<union> set ?ns"]) simp
qed

lemma custom_answer_ok:
  assumes ok: "replay_ok fd N par I c0" and inv: "replay_inv fd N par I (cr_comm_group c0) D R c" and n: "n \<in> R"
  shows "\<exists>c' R'. custom_call_with fd custom_recv_later (Some n) c = Inr c' \<and> replay_inv fd N par I (cr_comm_group c0) (insert n D) R' c' \<and>
    free N par (insert n D) R' = {} \<and> R - {n} \<subseteq> R' \<and> cr_exits c' = cr_exits c + (if R' = {} then 1 else 0)"
proof -
  have laws: "resolver_laws fd N par I" and dis: "\<forall>r D R. I r D R \<longrightarrow> distinct (fd_dependancy_free_nodes fd r)"
    and peers: "\<forall>n \<in> N. peers_ok (cr_comm_group c0) (fd_lookupNode fd n)" using ok by (simp_all add: replay_ok_def)
  let ?c = "c\<lparr>cr_dep := fd_finish_node fd n (cr_dep c)\<rparr>"
  have dep: "I (fd_finish_node fd n (cr_dep c)) (insert n D) (R - {n})"
    using laws inv n unfolding resolver_laws_def replay_inv_def by blast
  have all: "insert n D \<union> (R - {n}) = D \<union> R" using n by blast
  have "replay_inv fd N par I (cr_comm_group c0) (insert n D) (R - {n}) ?c"
    unfolding replay_inv_def all using inv dep by (auto simp: replay_inv_def)
  from custom_issue_all_ok [OF laws this dis peers]
  obtain c1 R' where c1: "custom_issue_dep_free_nodes fd custom_recv_later ?c = Inr c1"
    "replay_inv fd N par I (cr_comm_group c0) (insert n D) R' c1"
    "free N par (insert n D) R' = {}" "R - {n} \<subseteq> R'" "cr_exits c1 = cr_exits c" by (elim exE conjE) simp
  have "I (cr_dep c1) (insert n D) R'" using c1(2) by (simp add: replay_inv_def)
  then have lists: "set (fd_ongoing_nodes fd (cr_dep c1)) = R'" "set (fd_dependancy_free_nodes fd (cr_dep c1)) = {}"
    using resolver_lists [OF laws] c1(3) by simp_all
  then have "fd_ongoing_nodes fd (cr_dep c1) = [] \<longleftrightarrow> R' = {}" "fd_dependancy_free_nodes fd (cr_dep c1) = []"
    by (simp_all flip: set_empty)
  define c2 where "c2 = (if R' = {} then c1\<lparr>cr_exits := cr_exits c1 + 1\<rparr> else c1)"
  have call: "custom_call_with fd custom_recv_later (Some n) c = Inr c2"
    using c1(1) \<open>fd_ongoing_nodes fd (cr_dep c1) = [] \<longleftrightarrow> R' = {}\<close> \<open>fd_dependancy_free_nodes fd (cr_dep c1) = []\<close>
    by (simp add: custom_call_with_def c2_def)
  moreover have "replay_inv fd N par I (cr_comm_group c0) (insert n D) R' c2"
    using c1(2) by (cases "R' = {}") (simp_all add: replay_inv_def c2_def)
  moreover have "cr_exits c2 = cr_exits c + (if R' = {} then 1 else 0)" using c1(5) by (simp add: c2_def)
  ultimately show ?thesis using c1(3,4) by (intro exI [of _ c2] exI [of _ R'] conjI)
qed

lemma custom_start_ok:
  assumes ok: "replay_ok fd N par I c0"
  shows "\<exists>c R. custom_issue_dep_free_nodes fd custom_recv_later c0 = Inr c \<and> replay_inv fd N par I (cr_comm_group c0) {} R c \<and> free N par {} R = {} \<and> cr_exits c = 0"
proof -
  have "replay_inv fd N par I (cr_comm_group c0) {} {} c0" "cr_exits c0 = 0"
    using ok by (auto simp: replay_ok_def replay_inv_def custom_replay_new_def events_of_def)
  then show ?thesis
    using custom_issue_all_ok [of fd N par I "cr_comm_group c0" "{}" "{}" c0] ok unfolding replay_ok_def by fastforce
qed

lemma replays_inv:
  assumes "replays depth arrived fd c0 answered c" and later: "custom_answers_later arrived" and ok: "replay_ok fd N par I c0"
  shows "\<exists>R. replay_inv fd N par I (cr_comm_group c0) (set answered) R c \<and> free N par (set answered) R = {} \<and>
    distinct answered \<and> cr_exits c = (if answered \<noteq> [] \<and> R = {} then 1 else 0)"
  using assms(1)
proof induction
  case (started c)
  then show ?case using custom_start_ok [OF ok] unfolding custom_later(2) [OF later] by fastforce
next
  case (answer answered c e c')
  let ?n = "custom_node e"
  have laws: "resolver_laws fd N par I" using ok by (simp add: replay_ok_def)
  obtain R where R: "replay_inv fd N par I (cr_comm_group c0) (set answered) R c" "distinct answered"
    "cr_exits c = (if answered \<noteq> [] \<and> R = {} then 1 else 0)" using answer.IH by blast
  have "set (cr_events c) = events_of (cr_comm_group c0) fd (set answered \<union> R)" "set answered \<union> R \<subseteq> N"
    using R(1) by (simp_all add: replay_inv_def)
  then have n: "?n \<in> R" using events_of_node(1) [OF laws] answer(2,3) by blast
  then have "cr_exits c = 0" using R(3) by auto
  then obtain R' where "replay_inv fd N par I (cr_comm_group c0) (insert ?n (set answered)) R' c'"
    "free N par (insert ?n (set answered)) R' = {}" "cr_exits c' = (if R' = {} then 1 else 0)"
    using custom_answer_ok [OF ok R(1) n] unfolding answer(4) [unfolded custom_later(1) [OF later]] sum.inject by (elim exE conjE) simp
  then show ?case using answer(3) R(2) by (intro exI [of _ R']) simp
qed


section \<open>A concrete collective\<close>

definition demo_replay :: "(nat list \<times> nat list) custom_replay" where
  "demo_replay = custom_replay_new None ([], [])"

definition custom_never :: "'r custom_arrivals" where
  "custom_never node c = False"

lemma custom_answers_later_never [simp]: "custom_answers_later custom_never"
  by (simp add: custom_answers_later_def custom_never_def)

definition demo_c1 :: "(nat list \<times> nat list) custom_replay" where
  "demo_c1 = projr (custom_run (Suc 0) custom_never demo_fd demo_replay)"

definition demo_c2 :: "(nat list \<times> nat list) custom_replay" where
  "demo_c2 = projr (custom_call (Suc 0) custom_never demo_fd (Some 1) demo_c1)"

definition demo_c3 :: "(nat list \<times> nat list) custom_replay" where
  "demo_c3 = projr (custom_call (Suc 0) custom_never demo_fd (Some 2) demo_c2)"

lemma demo_replay_ok:
  assumes "type1 \<in> {COMP_NODE, COMM_SEND_NODE, COMM_RECV_NODE, MEM_LOAD_NODE}" "type2 \<in> {COMP_NODE, COMM_SEND_NODE, COMM_RECV_NODE}"
  shows "replay_ok (demo_feeder type1 type2 sz) {1, 2} (\<lambda>n. if n = 2 then {1} else {}) list_view demo_replay"
proof -
  have "trace_ok (demo_cfg False) (demo_feeder type1 type2 sz) {1, 2} (\<lambda>n. if n = 2 then {1} else {}) list_view demo_workload"
    by (rule demo_trace [OF assms]) simp
  then have "resolver_laws (demo_feeder type1 type2 sz) {1, 2} (\<lambda>n. if n = 2 then {1} else {}) list_view"
    by (simp add: trace_ok_def)
  moreover have "distinct (fd_dependancy_free_nodes (demo_feeder type1 type2 sz) r)" for r
    by (cases r) (simp add: demo_feeder_def list_feeder_def)
  moreover have "peers_ok None node" for node by (simp add: peers_ok_def convert_algo_rank_to_real_rank_def)
  ultimately show ?thesis
    by (auto simp: replay_ok_def demo_replay_def custom_replay_new_def list_view_def)
qed

lemmas eval_replay =
  custom_run_def custom_call_def custom_call_with_def custom_recv_later_def custom_never_def custom_issue_dep_free_nodes_def custom_issue_def custom_start_def Let_def demo_feeder_def
  demo_op_def list_feeder_def replay_runtime_def convert_algo_rank_to_real_rank_def demo_replay_def custom_replay_new_def

lemma demo_replay_steps:
  "custom_run (Suc 0) custom_never demo_fd demo_replay = Inr demo_c1" "cr_events demo_c1 = [CustomTimer 1 1000]"
  "custom_call (Suc 0) custom_never demo_fd (Some 1) demo_c1 = Inr demo_c2" "cr_events demo_c2 = [CustomTimer 1 1000, CustomSend 2 8 0 0]"
  "custom_call (Suc 0) custom_never demo_fd (Some 2) demo_c2 = Inr demo_c3" "cr_events demo_c3 = [CustomTimer 1 1000, CustomSend 2 8 0 0]"
  by (simp_all add: eval_replay demo_c1_def demo_c2_def demo_c3_def)

lemma demo_replay_run: "replays (Suc 0) custom_never demo_fd demo_replay [1, 2] demo_c3"
proof -
  have "replays (Suc 0) custom_never demo_fd demo_replay [] demo_c1" by (rule replays.started [OF demo_replay_steps(1)])
  from replays.answer [OF this, of "CustomTimer 1 1000" demo_c2] have "replays (Suc 0) custom_never demo_fd demo_replay [1] demo_c2"
    using demo_replay_steps by simp
  from replays.answer [OF this, of "CustomSend 2 8 0 0" demo_c3] show ?thesis
    using demo_replay_steps by simp
qed

section \<open>Properties\<close>

lemma custom_pending:
  assumes "replays depth arrived fd c0 answered c" and later: "custom_answers_later arrived" and ok: "replay_ok fd N par I c0"
    and R: "replay_inv fd N par I (cr_comm_group c0) (set answered) R c"
    and e: "e \<in> set (cr_events c)" "custom_node e \<notin> set answered"
  shows "\<exists>c'. custom_call depth arrived fd (Some (custom_node e)) c = Inr c'"
proof -
  have laws: "resolver_laws fd N par I" using ok by (simp add: replay_ok_def)
  have "set (cr_events c) = events_of (cr_comm_group c0) fd (set answered \<union> R)" "set answered \<union> R \<subseteq> N"
    using R by (simp_all add: replay_inv_def)
  then have "custom_node e \<in> R" using events_of_node(1) [OF laws] e by blast
  then show ?thesis using custom_answer_ok [OF ok R] unfolding custom_later(1) [OF later] by blast
qed

text \<open>
  \<^bold>\<open>C9\<close>. A custom collective completes, with a front end that answers receives by later calls, as the
  analytical one does. The trace is given by what the feeder promises; it has at least one node, no cycle, only
  sends, receives and computations, and the peers are members of the group. Then the start and every answer, in
  any order, return. A node starts after all its parents have been answered, and its messages go to the ranks
  of the group that the trace names by position. At most one call per node happens and the algorithm is left
  at most once; when no event is open, every node has been answered, the events are exactly those of the
  trace, and the algorithm has been left.
\<close>

theorem custom_replay_completes:
  assumes ok: "replay_ok fd N par I c0" and later: "custom_answers_later arrived" and trace: "acyclic_trace N par" "N \<noteq> {}"
    and types: "\<forall>n \<in> N. et_type (fd_lookupNode fd n) \<in> {COMM_SEND_NODE, COMM_RECV_NODE, COMP_NODE}"
  shows "(\<exists>c. custom_run depth arrived fd c0 = Inr c) \<and>
    (\<forall>answered c. replays depth arrived fd c0 answered c \<longrightarrow>
       length answered \<le> card N \<and> cr_exits c \<le> 1 \<and> distinct (map custom_node (cr_events c)) \<and>
       (\<forall>e \<in> set (cr_events c). par (custom_node e) \<subseteq> set answered \<and>
          event_of (cr_comm_group c0) (fd_lookupNode fd (custom_node e)) = Some e) \<and>
       (\<forall>e \<in> set (cr_events c). custom_node e \<notin> set answered \<longrightarrow> (\<exists>c'. custom_call depth arrived fd (Some (custom_node e)) c = Inr c')) \<and>
       (custom_node ` set (cr_events c) \<subseteq> set answered \<longrightarrow>
          cr_exits c = 1 \<and> set answered = N \<and> custom_node ` set (cr_events c) = N))"
proof (intro conjI allI impI)
  show "\<exists>c. custom_run depth arrived fd c0 = Inr c" using custom_start_ok [OF ok] unfolding custom_later(2) [OF later] by blast
next
  fix answered c assume run: "replays depth arrived fd c0 answered c"
  have laws: "resolver_laws fd N par I" and fin: "finite N" using ok by (simp_all add: replay_ok_def)
  obtain R where R: "replay_inv fd N par I (cr_comm_group c0) (set answered) R c" "free N par (set answered) R = {}"
    "distinct answered" "cr_exits c = (if answered \<noteq> [] \<and> R = {} then 1 else 0)" using replays_inv [OF run later ok] by blast
  have sub: "set answered \<union> R \<subseteq> N" and ev: "set (cr_events c) = events_of (cr_comm_group c0) fd (set answered \<union> R)"
    and par: "\<forall>n \<in> set answered \<union> R. par n \<subseteq> set answered" and dis: "set answered \<inter> R = {}"
    using R(1) by (simp_all add: replay_inv_def)
  show "length answered \<le> card N" using R(3) sub fin by (metis card_mono distinct_card le_sup_iff)
  show "cr_exits c \<le> 1" using R(4) by simp
  show "distinct (map custom_node (cr_events c))" using R(1) by (simp add: replay_inv_def)
  show "\<forall>e \<in> set (cr_events c). par (custom_node e) \<subseteq> set answered \<and>
      event_of (cr_comm_group c0) (fd_lookupNode fd (custom_node e)) = Some e"
    using events_of_node [OF laws sub] par unfolding ev by blast
  show "\<forall>e \<in> set (cr_events c). custom_node e \<notin> set answered \<longrightarrow> (\<exists>c'. custom_call depth arrived fd (Some (custom_node e)) c = Inr c')"
    using custom_pending [OF run later ok R(1)] by blast
  have nodes: "custom_node ` set (cr_events c) = set answered \<union> R"
  proof
    show "custom_node ` set (cr_events c) \<subseteq> set answered \<union> R" using events_of_node(1) [OF laws sub] unfolding ev by blast
    show "set answered \<union> R \<subseteq> custom_node ` set (cr_events c)"
    proof
      fix n assume n: "n \<in> set answered \<union> R"
      then have "et_type (fd_lookupNode fd n) \<in> {COMM_SEND_NODE, COMM_RECV_NODE, COMP_NODE}" "et_id (fd_lookupNode fd n) = n"
        using types sub resolver_node [OF laws] by auto
      then obtain e where e: "event_of (cr_comm_group c0) (fd_lookupNode fd n) = Some e" "custom_node e = n"
        using custom_node_event_of [of "cr_comm_group c0" "fd_lookupNode fd n"] by (auto simp: event_of_def Let_def)
      then have "e \<in> set (cr_events c)" using n unfolding ev events_of_def by blast
      then show "n \<in> custom_node ` set (cr_events c)" using e(2) by blast
    qed
  qed
  assume "custom_node ` set (cr_events c) \<subseteq> set answered"
  then have empty: "R = {}" using nodes dis by blast
  have all: "set answered = N" by (rule acyclic_free [OF trace(1)]) (use sub R(2) empty in simp_all)
  then show "set answered = N" .
  have "answered \<noteq> []" using all trace(2) by auto
  then show "cr_exits c = 1" using R(4) empty by simp
  show "custom_node ` set (cr_events c) = N" using nodes empty all by simp
qed

lemma custom_replay_completes_witness: "cr_exits demo_c3 = 1"
proof -
  have ok: "replay_ok demo_fd {1, 2} (\<lambda>n. if n = 2 then {1} else {}) list_view demo_replay"
    by (rule demo_replay_ok) simp_all
  have types: "\<forall>n \<in> {1, 2}. et_type (fd_lookupNode demo_fd n) \<in> {COMM_SEND_NODE, COMM_RECV_NODE, COMP_NODE}"
    by (simp add: demo_feeder_def list_feeder_def demo_op_def)
  have "custom_node ` set (cr_events demo_c3) \<subseteq> set [1, 2]" by (simp add: demo_replay_steps)
  moreover note custom_replay_completes [OF ok custom_answers_later_never demo_acyclic _ types, THEN conjunct2, rule_format,
      OF _ demo_replay_run]
  ultimately show ?thesis by blast
qed

lemma empty_replay:
  assumes "replays depth arrived fd c0 answered c" and ok: "replay_ok fd {} par I c0"
  shows "cr_exits c = 0"
proof -
  have c0: "cr_events c0 = []" "cr_exits c0 = 0" using ok by (auto simp: replay_ok_def custom_replay_new_def)
  have "fd_dependancy_free_nodes fd (cr_dep c0) = []" using ok by (auto simp: replay_ok_def resolver_laws_def)
  then have run: "custom_run depth arrived fd c0 = Inr c0" by (simp add: custom_run_def custom_issue_dep_free_nodes_def)
  have "c = c0" using assms(1)
  proof induction
    case (started c)
    then show ?case using run by simp
  next
    case (answer answered c e c')
    then show ?case using c0(1) by simp
  qed
  then show ?thesis using c0(2) by simp
qed

text \<open>
  \<^bold>\<open>C37\<close>. A custom collective that never ends. When the trace is empty, or has a node that is neither a send nor
  a receive nor a computation, the algorithm is never left, however the run goes: nothing is started for
  such a node, so that it stays ongoing, and nobody is told. (In the second case receives are answered by
  later calls; in the first one there are none.)
\<close>

theorem custom_replay_hangs:
  assumes ok: "replay_ok fd N par I c0" and run: "replays depth arrived fd c0 answered c" and trace: "acyclic_trace N par"
    and other: "N = {} \<or>
      custom_answers_later arrived \<and> (\<exists>n \<in> N. et_type (fd_lookupNode fd n) \<notin> {COMM_SEND_NODE, COMM_RECV_NODE, COMP_NODE})"
  shows "cr_exits c = 0"
proof (cases "N = {}")
  case True
  show ?thesis by (rule empty_replay [OF run ok [unfolded True]])
next
  case False
  then obtain n where later: "custom_answers_later arrived" and n: "n \<in> N"
    "et_type (fd_lookupNode fd n) \<notin> {COMM_SEND_NODE, COMM_RECV_NODE, COMP_NODE}" using other by blast
  have laws: "resolver_laws fd N par I" using ok by (simp add: replay_ok_def)
  obtain R where R: "replay_inv fd N par I (cr_comm_group c0) (set answered) R c" "free N par (set answered) R = {}"
    "cr_exits c = (if answered \<noteq> [] \<and> R = {} then 1 else 0)" using replays_inv [OF run later ok] by blast
  have sub: "set answered \<union> R \<subseteq> N" using R(1) by (simp add: replay_inv_def)
  have typed: "et_type (fd_lookupNode fd n) \<in> {COMM_SEND_NODE, COMM_RECV_NODE, COMP_NODE}" if "n \<in> set answered" for n
    using run ok that
  proof (induction rule: replays.induct)
    case (answer answered c e c')
    obtain R where "replay_inv fd N par I (cr_comm_group c0) (set answered) R c"
      using replays_inv [OF answer(1) later ok] by blast
    then have "event_of (cr_comm_group c0) (fd_lookupNode fd (custom_node e)) = Some e"
      using events_of_node(2) [OF laws _, of "set answered \<union> R" e] answer(2) by (simp add: replay_inv_def)
    then show ?case using answer by (auto simp: event_of_def Let_def split: if_splits)
  qed simp
  show ?thesis
  proof (rule ccontr)
    assume "cr_exits c \<noteq> 0"
    then have "answered \<noteq> []" "R = {}" using R(3) by (auto split: if_splits)
    have "set answered = N" by (rule acyclic_free [OF trace]) (use sub R(2) \<open>R = {}\<close> in simp_all)
    then show False using n typed by blast
  qed
qed

lemma custom_replay_hangs_witness:
  "\<exists>c. custom_run (Suc 0) custom_never (demo_feeder MEM_LOAD_NODE COMP_NODE 1) demo_replay = Inr c \<and> cr_exits c = 0"
proof -
  let ?fd = "demo_feeder MEM_LOAD_NODE COMP_NODE 1"
  have ok: "replay_ok ?fd {1, 2} (\<lambda>n. if n = 2 then {1} else {}) list_view demo_replay"
    by (rule demo_replay_ok) simp_all
  have other: "{1, 2 :: nat} = {} \<or>
      custom_answers_later custom_never \<and> (\<exists>n \<in> {1, 2}. et_type (fd_lookupNode ?fd n) \<notin> {COMM_SEND_NODE, COMM_RECV_NODE, COMP_NODE})"
    by (simp add: demo_feeder_def list_feeder_def demo_op_def)
  obtain c where c: "custom_run (Suc 0) custom_never ?fd demo_replay = Inr c" by (simp add: eval_replay)
  show ?thesis using custom_replay_hangs [OF ok replays.started [OF c] demo_acyclic other] c by blast
qed

end
