(* ===== verification/Message_Session.thy ===== *)
theory Message_Session
  imports Astra_Prelude
begin

text \<open>
  The htsim and the ns-3 front ends: how messages that the simulator below delivers are matched with
  the sends and receives of the systems (\<^verbatim>\<open>HTSimSession.cc\<close>, \<^verbatim>\<open>HTSimNetworkApi.cc\<close>, \<^verbatim>\<open>entry.h\<close> and
  \<^verbatim>\<open>AstraSimNetwork.cc\<close>). Messages are counted in bytes per tag, sender and receiver. The simulator itself is
  third-party: the flows handed to it are recorded, and it answers with the calls that end a flow. What
  a handler does is a parameter, as it may call back. The tables are static, shared by all ranks.
\<close>

section \<open>Events and tables\<close>

datatype Dir = Send | Receive

type_synonym msg_key = "int \<times> int \<times> int"

record 'cb MsgEvent =
  me_src_id :: int
  me_dst_id :: int
  me_type :: Dir
  me_remaining_msg_bytes :: int
  me_msg_handler :: 'cb

record FlowInfo =
  fl_src :: int
  fl_dst :: int
  fl_size :: int
  fl_tag :: int

record 'cb session =
  hs_node_bytes_sent :: "int \<times> Dir \<rightharpoonup> int"
  hs_send_waiting :: "msg_key \<times> int \<rightharpoonup> 'cb MsgEvent"
  hs_recv_waiting :: "msg_key \<rightharpoonup> 'cb MsgEvent"
  hs_msg_standby :: "msg_key \<rightharpoonup> int"
  hs_flow_id_to_tag :: "int \<rightharpoonup> int"
  hs_sender_src_port_map :: "int \<times> int \<times> int \<rightharpoonup> int"
  hs_portNumber :: "int \<times> int \<Rightarrow> nat"
  hs_flow_id :: "32 word"
  hs_flows :: "(FlowInfo \<times> int) list"
  hs_invoked :: "'cb list"

definition session_init :: "'cb session" where
  "session_init =
     \<lparr>hs_node_bytes_sent = Map.empty, hs_send_waiting = Map.empty, hs_recv_waiting = Map.empty,
      hs_msg_standby = Map.empty, hs_flow_id_to_tag = Map.empty, hs_sender_src_port_map = Map.empty,
      hs_portNumber = (\<lambda>_. 0), hs_flow_id = 0, hs_flows = [], hs_invoked = []\<rparr>"

definition MsgEvent_new :: "int \<Rightarrow> int \<Rightarrow> Dir \<Rightarrow> int \<Rightarrow> 'cb \<Rightarrow> 'cb MsgEvent" where
  "MsgEvent_new src dst type bytes handler =
     \<lparr>me_src_id = src, me_dst_id = dst, me_type = type, me_remaining_msg_bytes = bytes, me_msg_handler = handler\<rparr>"

definition count_bytes :: "int \<times> Dir \<Rightarrow> int \<Rightarrow> 'cb session \<Rightarrow> 'cb session" where
  "count_bytes key message_size s =
     s\<lparr>hs_node_bytes_sent := (hs_node_bytes_sent s)(key \<mapsto>
         (case hs_node_bytes_sent s key of None \<Rightarrow> message_size | Some n \<Rightarrow> n + message_size))\<rparr>"

type_synonym 'cb handler_call = "'cb \<Rightarrow> 'cb session \<Rightarrow> 'cb session result"

section \<open>The htsim front end\<close>

definition FlowInfo_new :: "int \<Rightarrow> int \<Rightarrow> u64 \<Rightarrow> int \<Rightarrow> FlowInfo" where
  "FlowInfo_new src dst sz tag = \<lparr>fl_src = src, fl_dst = dst, fl_size = int_of_u64 sz, fl_tag = tag\<rparr>"

definition HTSim_send_flow :: "FlowInfo \<Rightarrow> int \<Rightarrow> 'cb \<Rightarrow> 'cb session \<Rightarrow> 'cb session" where
  "HTSim_send_flow flow flow_id handler s =
     s\<lparr>hs_flow_id_to_tag := (hs_flow_id_to_tag s)(flow_id \<mapsto> fl_tag flow),
       hs_send_waiting := (hs_send_waiting s)(((fl_tag flow, fl_src flow, fl_dst flow), flow_id) \<mapsto>
         MsgEvent_new (fl_src flow) (fl_dst flow) Send (fl_size flow) handler),
       hs_flows := hs_flows s @ [(flow, flow_id)]\<rparr>"

definition HTSim_sim_send :: "int \<Rightarrow> u64 \<Rightarrow> int \<Rightarrow> int \<Rightarrow> 'cb \<Rightarrow> 'cb session \<Rightarrow> 'cb session result" where
  "HTSim_sim_send rank count dst tag handler s =
     (let s = s\<lparr>hs_flow_id := hs_flow_id s + 1\<rparr>
      in Inr (HTSim_send_flow (FlowInfo_new rank dst count tag) (sint (hs_flow_id s)) handler s))"

definition HTSim_sim_recv ::
    "'cb handler_call \<Rightarrow> int \<Rightarrow> u64 \<Rightarrow> int \<Rightarrow> int \<Rightarrow> 'cb \<Rightarrow> 'cb session \<Rightarrow> 'cb session result" where
  "HTSim_sim_recv call rank message_size src tag handler s =
     (let recv_event = MsgEvent_new src rank Receive (int_of_u64 message_size) handler;
          key = (tag, src, rank);
          wait = (\<lambda>bytes s. s\<lparr>hs_recv_waiting := (hs_recv_waiting s)(key \<mapsto>
            recv_event\<lparr>me_remaining_msg_bytes := me_remaining_msg_bytes recv_event + bytes\<rparr>)\<rparr>)
      in case hs_msg_standby s key of
        Some received_msg_bytes \<Rightarrow>
          (if u64_of_int received_msg_bytes = message_size
           then call handler (s\<lparr>hs_msg_standby := (hs_msg_standby s)(key := None)\<rparr>)
           else if u64_of_int received_msg_bytes \<ge> message_size
           then call handler (s\<lparr>hs_msg_standby := (hs_msg_standby s)(key \<mapsto>
                  int_of_u64 (u64_of_int received_msg_bytes - message_size))\<rparr>)
           else Inr (wait (- received_msg_bytes) (s\<lparr>hs_msg_standby := (hs_msg_standby s)(key := None)\<rparr>)))
      | None \<Rightarrow>
          (case hs_recv_waiting s key of
             None \<Rightarrow> Inr (wait 0 s)
           | Some waiting \<Rightarrow> Inr (wait (me_remaining_msg_bytes waiting) s)))"

definition HTSim_notify_receiver_receive_data ::
    "'cb handler_call \<Rightarrow> int \<Rightarrow> int \<Rightarrow> int \<Rightarrow> int \<Rightarrow> 'cb session \<Rightarrow> 'cb session result" where
  "HTSim_notify_receiver_receive_data call src_id dst_id message_size tag s =
     (let key = (tag, src_id, dst_id) in
      rbind
        (case hs_recv_waiting s key of
           Some expect \<Rightarrow>
             (if message_size = me_remaining_msg_bytes expect
              then call (me_msg_handler expect) (s\<lparr>hs_recv_waiting := (hs_recv_waiting s)(key := None)\<rparr>)
              else if message_size > me_remaining_msg_bytes expect
              then call (me_msg_handler expect)
                     (s\<lparr>hs_msg_standby := (hs_msg_standby s)(key \<mapsto> message_size - me_remaining_msg_bytes expect),
                        hs_recv_waiting := (hs_recv_waiting s)(key := None)\<rparr>)
              else Inr (s\<lparr>hs_recv_waiting := (hs_recv_waiting s)(key \<mapsto>
                     expect\<lparr>me_remaining_msg_bytes := me_remaining_msg_bytes expect - message_size\<rparr>)\<rparr>))
         | None \<Rightarrow>
             Inr (s\<lparr>hs_msg_standby := (hs_msg_standby s)(key \<mapsto>
               (case hs_msg_standby s key of None \<Rightarrow> message_size | Some n \<Rightarrow> n + message_size))\<rparr>))
        (\<lambda>s. Inr (count_bytes (dst_id, Receive) message_size s)))"

definition HTSim_notify_sender_sending_finished ::
    "'cb handler_call \<Rightarrow> int \<Rightarrow> int \<Rightarrow> int \<Rightarrow> int \<Rightarrow> int \<Rightarrow> 'cb session \<Rightarrow> 'cb session result" where
  "HTSim_notify_sender_sending_finished call src_id dst_id message_size tag flow_id s =
     (let key = ((tag, src_id, dst_id), flow_id) in
      case hs_send_waiting s key of
        None \<Rightarrow> Inl (AssertionFailed ''notify_sender_sending_finished failed'')
      | Some send_event \<Rightarrow>
          call (me_msg_handler send_event)
            (count_bytes (src_id, Send) message_size (s\<lparr>hs_send_waiting := (hs_send_waiting s)(key := None)\<rparr>)))"

text \<open>\<^verbatim>\<open>operator[]\<close> of a map enters 0 for a key without an entry.\<close>

definition flow_tag :: "int \<Rightarrow> 'cb session \<Rightarrow> int \<times> 'cb session" where
  "flow_tag flow_id s =
     (case hs_flow_id_to_tag s flow_id of
        Some tag \<Rightarrow> (tag, s)
      | None \<Rightarrow> (0, s\<lparr>hs_flow_id_to_tag := (hs_flow_id_to_tag s)(flow_id \<mapsto> 0)\<rparr>))"

definition flow_finish_send ::
    "bool \<Rightarrow> 'cb handler_call \<Rightarrow> int \<Rightarrow> int \<Rightarrow> int \<Rightarrow> int \<Rightarrow> 'cb session \<Rightarrow> 'cb session result" where
  "flow_finish_send recv_flow_finish call src_id dst_id msg_size flow_id s =
     (case flow_tag flow_id s of (tag, s) \<Rightarrow>
        rbind (HTSim_notify_sender_sending_finished call src_id dst_id msg_size tag flow_id s) (\<lambda>s.
        if \<not> recv_flow_finish then HTSim_notify_receiver_receive_data call src_id dst_id msg_size tag s else Inr s))"

definition flow_finish_recv ::
    "bool \<Rightarrow> 'cb handler_call \<Rightarrow> int \<Rightarrow> int \<Rightarrow> int \<Rightarrow> int \<Rightarrow> 'cb session \<Rightarrow> 'cb session result" where
  "flow_finish_recv recv_flow_finish call src_id dst_id msg_size flow_id s =
     (if recv_flow_finish
      then case flow_tag flow_id s of (tag, s) \<Rightarrow> HTSim_notify_receiver_receive_data call src_id dst_id msg_size tag s
      else Inr s)"

section \<open>The ns-3 front end\<close>

text \<open>
  Every flow takes the next port of its pair of nodes. The table of the counters belongs to the ns-3 setup,
  which chooses their start and their type: an unsigned one of \<open>port_width\<close> bits, so that the increment wraps
  there. The port is read as an unsigned number of 32 bits and becomes part of a key of signed ones.
\<close>

definition ns3_init :: "(int \<times> int \<Rightarrow> nat) \<Rightarrow> 'cb session" where
  "ns3_init portNumber = session_init\<lparr>hs_portNumber := portNumber\<rparr>"

definition port_key :: "nat \<Rightarrow> int" where
  "port_key n = sint (of_nat n :: 32 word)"

definition ns3_send_flow ::
    "nat \<Rightarrow> int \<Rightarrow> int \<Rightarrow> int \<Rightarrow> 'cb \<Rightarrow> int \<Rightarrow> 'cb session \<Rightarrow> 'cb session" where
  "ns3_send_flow port_width src_id dst maxPacketCount handler tag s =
     (let n = hs_portNumber s (src_id, dst);
          port = port_key n;
          s = s\<lparr>hs_portNumber := (hs_portNumber s)((src_id, dst) := (n + 1) mod 2 ^ port_width)\<rparr>
      in s\<lparr>hs_sender_src_port_map := (hs_sender_src_port_map s)((port, src_id, dst) \<mapsto> tag),
           hs_send_waiting := (hs_send_waiting s)(((tag, src_id, dst), port) \<mapsto>
             MsgEvent_new src_id dst Send maxPacketCount handler),
           hs_flows := hs_flows s @
             [(\<lparr>fl_src = src_id, fl_dst = dst, fl_size = maxPacketCount, fl_tag = tag\<rparr>, port)]\<rparr>)"

definition ns3_sim_send :: "nat \<Rightarrow> int \<Rightarrow> u64 \<Rightarrow> int \<Rightarrow> int \<Rightarrow> 'cb \<Rightarrow> 'cb session \<Rightarrow> 'cb session result" where
  "ns3_sim_send port_width rank message_size dst_id tag handler s =
     Inr (ns3_send_flow port_width rank dst_id (int_of_u64 message_size) handler tag s)"

definition ns3_sim_recv ::
    "'cb handler_call \<Rightarrow> int \<Rightarrow> u64 \<Rightarrow> int \<Rightarrow> int \<Rightarrow> 'cb \<Rightarrow> 'cb session \<Rightarrow> 'cb session result" where
  "ns3_sim_recv call rank message_size src_id tag handler s =
     (let recv_event = MsgEvent_new src_id rank Receive (int_of_u64 message_size) handler;
          key = (tag, src_id, rank)
      in case hs_msg_standby s key of
        Some received_msg_bytes \<Rightarrow>
          (if u64_of_int received_msg_bytes = message_size
           then call handler (s\<lparr>hs_msg_standby := (hs_msg_standby s)(key := None)\<rparr>)
           else if u64_of_int received_msg_bytes > message_size
           then call handler (s\<lparr>hs_msg_standby := (hs_msg_standby s)(key \<mapsto>
                  int_of_u64 (u64_of_int received_msg_bytes - message_size))\<rparr>)
           else Inr (s\<lparr>hs_msg_standby := (hs_msg_standby s)(key := None),
                       hs_recv_waiting := (hs_recv_waiting s)(key \<mapsto> recv_event\<lparr>me_remaining_msg_bytes :=
                         me_remaining_msg_bytes recv_event - received_msg_bytes\<rparr>)\<rparr>))
      | None \<Rightarrow>
          (case hs_recv_waiting s key of
             None \<Rightarrow> Inr (s\<lparr>hs_recv_waiting := (hs_recv_waiting s)(key \<mapsto> recv_event)\<rparr>)
           | Some waiting \<Rightarrow>
               Inr (s\<lparr>hs_recv_waiting := (hs_recv_waiting s)(key \<mapsto> recv_event\<lparr>me_remaining_msg_bytes :=
                 me_remaining_msg_bytes recv_event + me_remaining_msg_bytes waiting\<rparr>)\<rparr>)))"

definition ns3_notify_receiver_receive_data ::
    "'cb handler_call \<Rightarrow> int \<Rightarrow> int \<Rightarrow> int \<Rightarrow> int \<Rightarrow> 'cb session \<Rightarrow> 'cb session result" where
  "ns3_notify_receiver_receive_data call src_id dst_id message_size tag s =
     (let key = (tag, src_id, dst_id) in
      rbind
        (case hs_recv_waiting s key of
           Some expect \<Rightarrow>
             (if message_size = me_remaining_msg_bytes expect
              then call (me_msg_handler expect) (s\<lparr>hs_recv_waiting := (hs_recv_waiting s)(key := None)\<rparr>)
              else if message_size > me_remaining_msg_bytes expect
              then call (me_msg_handler expect)
                     (s\<lparr>hs_msg_standby := (hs_msg_standby s)(key \<mapsto> message_size - me_remaining_msg_bytes expect),
                        hs_recv_waiting := (hs_recv_waiting s)(key := None)\<rparr>)
              else Inr (s\<lparr>hs_recv_waiting := (hs_recv_waiting s)(key \<mapsto>
                     expect\<lparr>me_remaining_msg_bytes := me_remaining_msg_bytes expect - message_size\<rparr>)\<rparr>))
         | None \<Rightarrow>
             Inr (s\<lparr>hs_msg_standby := (hs_msg_standby s)(key \<mapsto>
               (case hs_msg_standby s key of None \<Rightarrow> message_size | Some n \<Rightarrow> n + message_size))\<rparr>))
        (\<lambda>s. Inr (count_bytes (dst_id, Receive) message_size s)))"

definition ns3_notify_sender_sending_finished ::
    "'cb handler_call \<Rightarrow> int \<Rightarrow> int \<Rightarrow> int \<Rightarrow> int \<Rightarrow> int \<Rightarrow> 'cb session \<Rightarrow> 'cb session result" where
  "ns3_notify_sender_sending_finished call src_id dst_id message_size tag src_port s =
     (let key = ((tag, src_id, dst_id), src_port) in
      case hs_send_waiting s key of
        None \<Rightarrow> Inl (ProcessExit ''Cannot find send_event in sent_hash'')
      | Some send_event \<Rightarrow>
          (if me_remaining_msg_bytes send_event \<noteq> message_size
           then Inl (ProcessExit ''The message size does not match what is expected'')
           else call (me_msg_handler send_event)
             (count_bytes (src_id, Send) message_size (s\<lparr>hs_send_waiting := (hs_send_waiting s)(key := None)\<rparr>))))"

text \<open>The end of a queue pair: its source port, its nodes and its size.\<close>

definition qp_finish :: "'cb handler_call \<Rightarrow> int \<Rightarrow> int \<Rightarrow> int \<Rightarrow> u64 \<Rightarrow> 'cb session \<Rightarrow> 'cb session result" where
  "qp_finish call sport sid did m_size s =
     (case hs_sender_src_port_map s (sport, sid, did) of
        None \<Rightarrow> Inl (ProcessExit ''could not find the tag, there must be something wrong'')
      | Some tag \<Rightarrow>
          (let s = s\<lparr>hs_sender_src_port_map := (hs_sender_src_port_map s)((sport, sid, did) := None)\<rparr> in
           rbind (ns3_notify_sender_sending_finished call sid did (int_of_u64 m_size) tag sport s)
             (ns3_notify_receiver_receive_data call sid did (int_of_u64 m_size) tag)))"

section \<open>The end of a simulation\<close>

text \<open>
  The tracker of the ranks that have finished, as htsim has it: every call that finds all ranks finished
  stops the simulation. An index beyond the vector is an error.
\<close>

record CompletionTracker =
  ct_num_unfinished_ranks :: int
  ct_completion_tracker :: "int list"
  ct_stopped :: nat

definition CompletionTracker_new :: "nat \<Rightarrow> CompletionTracker" where
  "CompletionTracker_new num_ranks =
     \<lparr>ct_num_unfinished_ranks = int num_ranks, ct_completion_tracker = replicate num_ranks 0, ct_stopped = 0\<rparr>"

definition all_finished :: "CompletionTracker \<Rightarrow> bool" where
  "all_finished t \<longleftrightarrow> ct_num_unfinished_ranks t = 0"

definition mark_rank_as_finished :: "nat \<Rightarrow> CompletionTracker \<Rightarrow> CompletionTracker result" where
  "mark_rank_as_finished rank t =
     (if rank \<ge> length (ct_completion_tracker t) then Inl (OutOfRange ''completion_tracker[rank]'')
      else
        (let t = (if ct_completion_tracker t ! rank = 0
                  then t\<lparr>ct_completion_tracker := (ct_completion_tracker t)[rank := 1],
                         ct_num_unfinished_ranks := ct_num_unfinished_ranks t - 1\<rparr>
                  else t)
         in Inr (if ct_num_unfinished_ranks t = 0 then t\<lparr>ct_stopped := ct_stopped t + 1\<rparr> else t)))"

text \<open>The marks are those of the ranks that have finished.\<close>

definition marked :: "nat \<Rightarrow> nat set \<Rightarrow> CompletionTracker \<Rightarrow> bool" where
  "marked n R t \<longleftrightarrow>
     ct_completion_tracker t = map (\<lambda>r. if r \<in> R then 1 else 0) [0..<n] \<and>
     ct_num_unfinished_ranks t = int (card ({..<n} - R)) \<and> (0 < ct_stopped t \<longleftrightarrow> {..<n} \<subseteq> R)"

lemma marked_all_finished: "marked n R t \<Longrightarrow> all_finished t \<longleftrightarrow> {..<n} \<subseteq> R"
  by (auto simp: marked_def all_finished_def card_eq_0_iff)

lemma marked_init: "0 < n \<Longrightarrow> marked n {} (CompletionTracker_new n)"
  by (auto simp: marked_def CompletionTracker_new_def map_replicate_const)

lemma mark_rank_marked:
  assumes "marked n R t" "rank < n"
  shows "\<exists>t'. mark_rank_as_finished rank t = Inr t' \<and> marked n (insert rank R) t'"
proof -
  have c: "ct_completion_tracker t = map (\<lambda>r. if r \<in> R then 1 else 0) [0..<n]"
    "ct_num_unfinished_ranks t = int (card ({..<n} - R))" "0 < ct_stopped t \<longleftrightarrow> {..<n} \<subseteq> R"
    using assms(1) by (simp_all add: marked_def)
  have empty: "card ({..<n} - S) = 0 \<longleftrightarrow> {..<n} \<subseteq> S" for S by (simp add: card_eq_0_iff)
  show ?thesis
  proof (cases "rank \<in> R")
    case True
    then have "insert rank R = R" by blast
    then show ?thesis using c assms(2) empty [of R] True by (simp add: mark_rank_as_finished_def marked_def)
  next
    case False
    have "{..<n} - insert rank R = ({..<n} - R) - {rank}" by blast
    moreover have "rank \<in> {..<n} - R" using False assms(2) by simp
    ultimately have left: "int (card ({..<n} - R)) - 1 = int (card ({..<n} - insert rank R))"
      using card_Suc_Diff1 [of "{..<n} - R" rank] by simp
    have not_all: "\<not> {..<n} \<subseteq> R" using False assms(2) by auto
    have marks: "(ct_completion_tracker t)[rank := 1] = map (\<lambda>r. if r \<in> insert rank R then 1 else 0) [0..<n]"
      (is "?xs = ?ys")
    proof (rule nth_equalityI)
      fix i assume "i < length ?xs"
      then show "?xs ! i = ?ys ! i" unfolding c(1) by (cases "i = rank") simp_all
    qed (simp add: c(1))
    have "length (ct_completion_tracker t) = n" "ct_completion_tracker t ! rank = 0" using c(1) assms(2) False by simp_all
    then have "\<exists>t'. mark_rank_as_finished rank t = Inr t' \<and> ct_completion_tracker t' = (ct_completion_tracker t)[rank := 1] \<and>
      ct_num_unfinished_ranks t' = ct_num_unfinished_ranks t - 1 \<and>
      ct_stopped t' = (if ct_num_unfinished_ranks t - 1 = 0 then ct_stopped t + 1 else ct_stopped t)"
      using assms(2) by (simp add: mark_rank_as_finished_def)
    then obtain t' where t': "mark_rank_as_finished rank t = Inr t'" "ct_completion_tracker t' = (ct_completion_tracker t)[rank := 1]"
      "ct_num_unfinished_ranks t' = ct_num_unfinished_ranks t - 1"
      "ct_stopped t' = (if ct_num_unfinished_ranks t - 1 = 0 then ct_stopped t + 1 else ct_stopped t)" by blast
    have "0 < ct_stopped t' \<longleftrightarrow> {..<n} \<subseteq> insert rank R"
      using c(3) not_all empty [of "insert rank R"] unfolding t'(4) c(2) left by simp
    moreover have "ct_num_unfinished_ranks t' = int (card ({..<n} - insert rank R))" using t'(3) c(2) left by simp
    ultimately have "marked n (insert rank R) t'" using trans [OF t'(2) marks] unfolding marked_def by blast
    then show ?thesis using t'(1) by blast
  qed
qed

lemma marked_ranks:
  "marked n R t \<Longrightarrow> \<forall>r \<in> set ranks. r < n \<Longrightarrow>
   \<exists>t'. fold_result mark_rank_as_finished ranks t = Inr t' \<and> marked n (R \<union> set ranks) t'"
proof (induction ranks arbitrary: R t)
  case (Cons rank ranks)
  obtain t1 where t1: "mark_rank_as_finished rank t = Inr t1" "marked n (insert rank R) t1"
    using mark_rank_marked [OF Cons.prems(1)] Cons.prems(2) by auto
  then show ?case using Cons.IH [OF t1(2)] Cons.prems(2) by simp
qed simp

text \<open>
  Whatever the order in which ranks report their end, and however often, the simulation is stopped exactly
  when all of them have.
\<close>

theorem completion_stops:
  assumes "0 < n" "\<forall>r \<in> set ranks. r < n"
  shows "\<exists>t. fold_result mark_rank_as_finished ranks (CompletionTracker_new n) = Inr t \<and>
    (0 < ct_stopped t \<longleftrightarrow> set ranks = {..<n}) \<and> (all_finished t \<longleftrightarrow> set ranks = {..<n})"
proof -
  obtain t where t: "fold_result mark_rank_as_finished ranks (CompletionTracker_new n) = Inr t" "marked n (set ranks) t"
    using marked_ranks [OF marked_init [OF assms(1)] assms(2)] by auto
  have "{..<n} \<subseteq> set ranks \<longleftrightarrow> set ranks = {..<n}" using assms(2) by auto
  then show ?thesis using t marked_all_finished [OF t(2)] by (auto simp: marked_def)
qed

lemma completion_stops_witness:
  "\<exists>t. fold_result mark_rank_as_finished [1, 0, 1] (CompletionTracker_new 2) = Inr t \<and> 0 < ct_stopped t \<and> all_finished t"
  using completion_stops [of 2 "[1, 0, 1]"] by (auto simp: lessThan_Suc numeral_2_eq_2)

text \<open>The two front ends receive in the same way.\<close>

lemma ns3_sim_recv_eq: "ns3_sim_recv = HTSim_sim_recv"
  by (intro ext) (auto simp: ns3_sim_recv_def HTSim_sim_recv_def Let_def MsgEvent_new_def split: option.split)

lemma ns3_notify_receiver_eq: "ns3_notify_receiver_receive_data = HTSim_notify_receiver_receive_data"
  by (intro ext) (simp add: ns3_notify_receiver_receive_data_def HTSim_notify_receiver_receive_data_def)

end
