(* ===== verification/Message_Matching.thy ===== *)
theory Message_Matching
  imports Message_Session
begin

text \<open>
  What the tables of the htsim and ns-3 front ends hold. The receive side keeps a balance of bytes per
  tag, sender and receiver; every receive is called once as long as no receive is posted while another
  one with the same key waits, and is forgotten otherwise.
\<close>

section \<open>The receive side\<close>

text \<open>
  The calls on the receive side: a receive, or bytes that have arrived. Handlers only record that they ran:
  what a handler of the system layer calls in turn comes as a later call.
\<close>

datatype 'cb rx_op = RxRecv msg_key u64 'cb | RxData msg_key int

definition record_cb :: "'cb handler_call" where
  "record_cb cb s = Inr (s\<lparr>hs_invoked := hs_invoked s @ [cb]\<rparr>)"

fun rx_step :: "'cb rx_op \<Rightarrow> 'cb session \<Rightarrow> 'cb session result" where
  "rx_step (RxRecv (tag, src, dst) n cb) s = HTSim_sim_recv record_cb dst n src tag cb s"
| "rx_step (RxData (tag, src, dst) n) s = HTSim_notify_receiver_receive_data record_cb src dst n tag s"

fun rx_requested :: "msg_key \<Rightarrow> 'cb rx_op \<Rightarrow> int" where
  "rx_requested key (RxRecv k n cb) = (if k = key then uint n else 0)"
| "rx_requested key (RxData k n) = 0"

fun rx_arrived :: "msg_key \<Rightarrow> 'cb rx_op \<Rightarrow> int" where
  "rx_arrived key (RxRecv k n cb) = 0"
| "rx_arrived key (RxData k n) = (if k = key then n else 0)"

fun rx_posted :: "msg_key \<Rightarrow> 'cb rx_op \<Rightarrow> 'cb list" where
  "rx_posted key (RxRecv k n cb) = (if k = key then [cb] else [])"
| "rx_posted key (RxData k n) = []"

definition requested :: "msg_key \<Rightarrow> 'cb rx_op list \<Rightarrow> int" where
  "requested key ops = sum_list (map (rx_requested key) ops)"

definition arrived :: "msg_key \<Rightarrow> 'cb rx_op list \<Rightarrow> int" where
  "arrived key ops = sum_list (map (rx_arrived key) ops)"

definition posted :: "msg_key \<Rightarrow> 'cb rx_op list \<Rightarrow> 'cb list" where
  "posted key ops = concat (map (rx_posted key) ops)"

lemma rx_totals [simp]:
  "requested key [] = 0" "arrived key [] = 0" "posted key [] = []"
  "requested key (ops @ [op]) = requested key ops + rx_requested key op"
  "arrived key (ops @ [op]) = arrived key ops + rx_arrived key op"
  "posted key (ops @ [op]) = posted key ops @ rx_posted key op"
  by (simp_all add: requested_def arrived_def posted_def)

text \<open>Messages are not empty.\<close>

fun rx_positive :: "'cb rx_op \<Rightarrow> bool" where
  "rx_positive (RxRecv k n cb) \<longleftrightarrow> 0 < n"
| "rx_positive (RxData k n) \<longleftrightarrow> 0 < n"

text \<open>What fits into an \<^verbatim>\<open>int\<close>.\<close>

definition rx_ok :: "'cb rx_op list \<Rightarrow> bool" where
  "rx_ok ops \<longleftrightarrow> (\<forall>op \<in> set ops. rx_positive op) \<and> (\<forall>key. requested key ops < 2 ^ 31 \<and> arrived key ops < 2 ^ 31)"

lemma rx_op_nonneg: "rx_positive op \<Longrightarrow> 0 \<le> rx_requested key op \<and> 0 \<le> rx_arrived key op"
  by (cases op) auto

lemma rx_okD:
  assumes "rx_ok ops"
  shows "op \<in> set ops \<Longrightarrow> rx_positive op" "requested key ops < 2 ^ 31" "arrived key ops < 2 ^ 31"
    "0 \<le> requested key ops" "0 \<le> arrived key ops"
proof -
  have pos: "\<forall>op \<in> set ops. rx_positive op" using assms by (simp add: rx_ok_def)
  then show "op \<in> set ops \<Longrightarrow> rx_positive op" by blast
  show "requested key ops < 2 ^ 31" "arrived key ops < 2 ^ 31" using assms unfolding rx_ok_def by blast+
  have "0 \<le> rx_requested key op \<and> 0 \<le> rx_arrived key op" if "op \<in> set ops" for op
    using pos rx_op_nonneg that by blast
  then show "0 \<le> requested key ops" "0 \<le> arrived key ops"
    unfolding requested_def arrived_def by (auto intro!: sum_list_nonneg)
qed

lemma rx_ok_snoc:
  assumes "rx_ok (ops @ [op])"
  shows "rx_ok ops" "rx_positive op"
proof -
  have "rx_positive op'" if "op' \<in> set ops" for op' using rx_okD(1) [OF assms, of op'] that by simp
  moreover have "requested key ops < 2 ^ 31 \<and> arrived key ops < 2 ^ 31" for key
    using rx_okD(2,3) [OF assms, of key] rx_op_nonneg [of op key] rx_okD(1) [OF assms, of op] by simp
  ultimately show "rx_ok ops" unfolding rx_ok_def by blast
  show "rx_positive op" using rx_okD(1) [OF assms] by simp
qed

text \<open>The balance of a key.\<close>

definition balance :: "int \<Rightarrow> int \<Rightarrow> int option \<Rightarrow> 'cb MsgEvent option \<Rightarrow> bool" where
  "balance A Q standby waiting \<longleftrightarrow>
     standby = (if Q < A then Some (A - Q) else None) \<and>
     map_option me_remaining_msg_bytes waiting = (if A < Q then Some (Q - A) else None)"

definition balanced :: "'cb rx_op list \<Rightarrow> 'cb session \<Rightarrow> bool" where
  "balanced ops s \<longleftrightarrow>
     (\<forall>key. balance (arrived key ops) (requested key ops) (hs_msg_standby s key) (hs_recv_waiting s key))"

lemma balancedD:
  "balanced ops s \<Longrightarrow> balance (arrived key ops) (requested key ops) (hs_msg_standby s key) (hs_recv_waiting s key)"
  unfolding balanced_def by blast

text \<open>A step that leaves the entries of the other keys alone.\<close>

lemma balancedI:
  assumes "balanced ops s"
    and "\<And>k. k \<noteq> key \<Longrightarrow> hs_msg_standby s' k = hs_msg_standby s k \<and> hs_recv_waiting s' k = hs_recv_waiting s k \<and>
      rx_arrived k op = 0 \<and> rx_requested k op = 0"
    and "balance (arrived key ops + rx_arrived key op) (requested key ops + rx_requested key op)
      (hs_msg_standby s' key) (hs_recv_waiting s' key)"
  shows "balanced (ops @ [op]) s'"
  unfolding balanced_def
proof
  fix k show "balance (arrived k (ops @ [op])) (requested k (ops @ [op])) (hs_msg_standby s' k) (hs_recv_waiting s' k)"
    using assms(3) assms(2) [of k] balancedD [OF assms(1), of k] by (cases "k = key") simp_all
qed

lemma int_of_u64_small:
  assumes "uint n < 2 ^ 31"
  shows "int_of_u64 n = uint n"
proof -
  have "int_of_u64 n = signed_take_bit 31 (uint n)"
    unfolding int_of_u64_def ucast_eq by (subst sint_sbintrunc') simp
  moreover have "signed_take_bit 31 (uint n) = uint n" using assms uint_ge_0 [of n]
    by (intro signed_take_bit_int_eq_self) linarith+
  ultimately show ?thesis by simp
qed

lemma uint_u64_of_int: "0 \<le> i \<Longrightarrow> i < 2 ^ 31 \<Longrightarrow> uint (u64_of_int i) = i"
  by (simp add: u64_of_int_def uint_word_of_int)

lemma u64_of_int_compare:
  assumes "0 \<le> i" "i < 2 ^ 31"
  shows "u64_of_int i = n \<longleftrightarrow> i = uint n" "n \<le> u64_of_int i \<longleftrightarrow> uint n \<le> i"
    "uint n \<le> i \<Longrightarrow> int_of_u64 (u64_of_int i - n) = i - uint n"
proof -
  note u = uint_u64_of_int [OF assms]
  show "u64_of_int i = n \<longleftrightarrow> i = uint n" "n \<le> u64_of_int i \<longleftrightarrow> uint n \<le> i"
    using u by (auto simp: word_uint_eq_iff word_le_def)
  assume le: "uint n \<le> i"
  then have "uint (u64_of_int i - n) = i - uint n" using u by (simp add: uint_sub_if')
  then show "int_of_u64 (u64_of_int i - n) = i - uint n" using int_of_u64_small [of "u64_of_int i - n"] assms(2) uint_ge_0 [of n] by linarith
qed

text \<open>A step of the receive side, by the balance before it.\<close>

lemma rx_recv_step:
  assumes bal: "balanced ops s" and ok: "rx_ok (ops @ [RxRecv key n cb])"
  defines "A \<equiv> arrived key ops" and "Q \<equiv> requested key ops"
  defines "ev \<equiv> \<lambda>b. MsgEvent_new (fst (snd key)) (snd (snd key)) Receive b cb"
  shows "rx_step (RxRecv key n cb) s = Inr
    (if A \<ge> Q + uint n
     then s\<lparr>hs_msg_standby := (hs_msg_standby s)(key := (if A = Q + uint n then None else Some (A - Q - uint n))),
            hs_invoked := hs_invoked s @ [cb]\<rparr>
     else s\<lparr>hs_msg_standby := (hs_msg_standby s)(key := None),
            hs_recv_waiting := (hs_recv_waiting s)(key \<mapsto> ev (Q + uint n - A))\<rparr>)"
proof -
  obtain tag src dst where key: "key = (tag, src, dst)" by (cases key)
  have n: "Q + uint n < 2 ^ 31" "A < 2 ^ 31" "0 \<le> Q" "0 \<le> A" "0 < uint n"
    using rx_okD(2,3) [OF ok, of key] rx_okD(4,5) [OF rx_ok_snoc(1) [OF ok], of key] rx_ok_snoc(2) [OF ok]
    unfolding A_def Q_def by (simp_all add: word_less_def)
  have conv: "int_of_u64 n = uint n" using n by (intro int_of_u64_small) simp
  have stand: "hs_msg_standby s key = (if Q < A then Some (A - Q) else None)"
    and wait: "map_option me_remaining_msg_bytes (hs_recv_waiting s key) = (if A < Q then Some (Q - A) else None)"
    using balancedD [OF bal, of key] unfolding balance_def A_def Q_def by blast+
  consider "Q < A" | "A = Q" | "A < Q" by linarith
  then show ?thesis
  proof cases
    case 1
    have "0 \<le> A - Q" "A - Q < 2 ^ 31" using 1 n by simp_all
    note c = u64_of_int_compare [OF this, of n]
    have q: "A - Q = uint n \<longleftrightarrow> A = Q + uint n" "uint n \<le> A - Q \<longleftrightarrow> Q + uint n \<le> A" "uint n + (Q - A) = Q + uint n - A"
      by linarith+
    show ?thesis using 1 stand c(3) conv unfolding q
      by (auto simp: key HTSim_sim_recv_def Let_def record_cb_def MsgEvent_new_def ev_def c(1,2) q)
  next
    case 2
    then show ?thesis using stand wait n conv
      by (simp add: key HTSim_sim_recv_def Let_def MsgEvent_new_def ev_def fun_upd_idem)
  next
    case 3
    then obtain w where w: "hs_recv_waiting s key = Some w" "me_remaining_msg_bytes w = Q - A" using wait by auto
    have bytes: "uint n + me_remaining_msg_bytes w = Q + uint n - A" using w(2) by simp
    show ?thesis using 3 stand n(5) conv w(1)
      by (simp add: key HTSim_sim_recv_def Let_def MsgEvent_new_def ev_def fun_upd_idem bytes)
  qed
qed

definition rx_data_after :: "int \<Rightarrow> int \<Rightarrow> msg_key \<Rightarrow> int \<Rightarrow> 'cb session \<Rightarrow> 'cb session" where
  "rx_data_after A Q key n s =
    (if Q \<le> A then s\<lparr>hs_msg_standby := (hs_msg_standby s)(key \<mapsto> A - Q + n)\<rparr>
     else if Q \<le> A + n
     then s\<lparr>hs_msg_standby := (hs_msg_standby s)(key := (if A + n = Q then None else Some (A + n - Q))),
            hs_recv_waiting := (hs_recv_waiting s)(key := None),
            hs_invoked := hs_invoked s @ [me_msg_handler (the (hs_recv_waiting s key))]\<rparr>
     else s\<lparr>hs_recv_waiting := (hs_recv_waiting s)(key \<mapsto>
            (the (hs_recv_waiting s key))\<lparr>me_remaining_msg_bytes := Q - A - n\<rparr>)\<rparr>)"

lemma rx_data_step:
  assumes bal: "balanced ops s" and ok: "rx_ok (ops @ [RxData key n])"
  defines "A \<equiv> arrived key ops" and "Q \<equiv> requested key ops"
  shows "rx_step (RxData key n) s = Inr (count_bytes (snd (snd key), Receive) n (rx_data_after A Q key n s))"
proof -
  obtain tag src dst where key: "key = (tag, src, dst)" by (cases key)
  have stand: "hs_msg_standby s key = (if Q < A then Some (A - Q) else None)"
    and wait: "map_option me_remaining_msg_bytes (hs_recv_waiting s key) = (if A < Q then Some (Q - A) else None)"
    using balancedD [OF bal, of key] unfolding balance_def A_def Q_def by blast+
  consider "Q < A" | "A = Q" | "A < Q" by linarith
  then show ?thesis
  proof cases
    case 1
    then show ?thesis using stand wait
      by (simp add: key HTSim_notify_receiver_receive_data_def Let_def rx_data_after_def)
  next
    case 2
    then show ?thesis using stand wait
      by (simp add: key HTSim_notify_receiver_receive_data_def Let_def rx_data_after_def)
  next
    case 3
    then obtain w where w: "hs_recv_waiting s key = Some w" "me_remaining_msg_bytes w = Q - A" using wait by auto
    have q: "A + n = Q \<longleftrightarrow> n = Q - A" "Q \<le> A + n \<longleftrightarrow> Q - A \<le> n" "A + n - Q = n - (Q - A)" by linarith+
    show ?thesis using 3 stand w
      by (simp add: key HTSim_notify_receiver_receive_data_def Let_def rx_data_after_def record_cb_def fun_upd_idem q)
  qed
qed

lemma rx_step_balanced:
  assumes bal: "balanced ops s" and ok: "rx_ok (ops @ [op])" and step: "rx_step op s = Inr s'"
  shows "balanced (ops @ [op]) s'"
proof (cases op)
  case (RxRecv key n cb)
  note ok' = ok [unfolded RxRecv]
  have "0 < uint n" using rx_ok_snoc(2) [OF ok'] by (simp add: word_less_def)
  then show ?thesis
    unfolding RxRecv
    by (intro balancedI [OF bal, of key])
      (use step balancedD [OF bal, of key] in \<open>auto simp: RxRecv rx_recv_step [OF bal ok'] balance_def MsgEvent_new_def split: if_splits\<close>)
next
  case (RxData key n)
  note ok' = ok [unfolded RxData]
  have n: "0 < n" using rx_ok_snoc(2) [OF ok'] by simp
  have s': "s' = count_bytes (snd (snd key), Receive) n (rx_data_after (arrived key ops) (requested key ops) key n s)"
    using rx_data_step [OF bal ok'] step unfolding RxData by simp
  show ?thesis
    unfolding RxData
    by (intro balancedI [OF bal, of key])
      (use n balancedD [OF bal, of key] in \<open>auto simp: s' count_bytes_def rx_data_after_def balance_def split: if_splits\<close>)
qed

lemma rx_step_returns:
  assumes "balanced ops s" "rx_ok (ops @ [op])"
  shows "\<exists>s'. rx_step op s = Inr s'"
proof (cases op)
  case (RxRecv key n cb)
  then show ?thesis using rx_recv_step [OF assms(1) assms(2) [unfolded RxRecv]] by simp
next
  case (RxData key n)
  then show ?thesis using rx_data_step [OF assms(1) assms(2) [unfolded RxData]] by simp
qed

lemma rx_balanced:
  "rx_ok ops \<Longrightarrow> \<exists>s. fold_result rx_step ops session_init = Inr s \<and> balanced ops s"
proof (induction ops rule: rev_induct)
  case Nil
  then show ?case by (simp add: balanced_def session_init_def balance_def)
next
  case (snoc op ops)
  then obtain s where s: "fold_result rx_step ops session_init = Inr s" "balanced ops s" using rx_ok_snoc by blast
  then obtain s' where "rx_step op s = Inr s'" using rx_step_returns snoc.prems by blast
  then show ?case using s rx_step_balanced [OF s(2) snoc.prems] by (simp add: fold_result_append)
qed

section \<open>Handlers of receives\<close>

text \<open>No receive is posted while another one with the same key waits.\<close>

definition one_at_a_time :: "'cb rx_op list \<Rightarrow> bool" where
  "one_at_a_time ops \<longleftrightarrow>
     (\<forall>xs key n cb ys. ops = xs @ RxRecv key n cb # ys \<longrightarrow> requested key xs \<le> arrived key xs)"

lemma one_at_a_time_snoc:
  assumes "one_at_a_time (ops @ [op])"
  shows "one_at_a_time ops" "op = RxRecv key n cb \<Longrightarrow> requested key ops \<le> arrived key ops"
proof -
  show "one_at_a_time ops"
    using assms unfolding one_at_a_time_def by (metis Cons_eq_appendI append.assoc)
  show "op = RxRecv key n cb \<Longrightarrow> requested key ops \<le> arrived key ops"
    using assms unfolding one_at_a_time_def by blast
qed

text \<open>The handlers are told apart by the key of their receive.\<close>

definition keyed :: "('cb \<Rightarrow> msg_key) \<Rightarrow> 'cb rx_op list \<Rightarrow> bool" where
  "keyed key_of ops \<longleftrightarrow> (\<forall>key. \<forall>cb \<in> set (posted key ops). key_of cb = key)"

lemma keyedD: "keyed key_of ops \<Longrightarrow> cb \<in> set (posted key ops) \<Longrightarrow> key_of cb = key"
  unfolding keyed_def by blast

lemma keyed_snoc: "keyed key_of (ops @ [op]) \<Longrightarrow> keyed key_of ops"
  unfolding keyed_def by simp

definition called :: "('cb \<Rightarrow> msg_key) \<Rightarrow> msg_key \<Rightarrow> 'cb session \<Rightarrow> 'cb list" where
  "called key_of key s = filter (\<lambda>cb. key_of cb = key) (hs_invoked s)"

definition log_ok :: "('cb \<Rightarrow> msg_key) \<Rightarrow> 'cb rx_op list \<Rightarrow> 'cb session \<Rightarrow> msg_key \<Rightarrow> bool" where
  "log_ok key_of ops s key \<longleftrightarrow>
     (if arrived key ops < requested key ops
      then posted key ops \<noteq> [] \<and> called key_of key s = butlast (posted key ops) \<and>
        me_msg_handler (the (hs_recv_waiting s key)) = last (posted key ops)
      else called key_of key s = posted key ops)"

lemma log_ok_step:
  assumes bal: "balanced ops s" and ok: "rx_ok (ops @ [op])" and step: "rx_step op s = Inr s'"
    and one: "one_at_a_time (ops @ [op])" and keyed: "keyed key_of (ops @ [op])" and logs: "\<And>key. log_ok key_of ops s key"
  shows "log_ok key_of (ops @ [op]) s' k"
proof (cases op)
  case (RxRecv key n cb)
  note ok' = ok [unfolded RxRecv]
  have n: "0 < uint n" using rx_ok_snoc(2) [OF ok'] by (simp add: word_less_def)
  have free: "requested key ops \<le> arrived key ops" using one_at_a_time_snoc(2) [OF one RxRecv] .
  have "key_of cb = key" using keyedD [OF keyed, of cb key] by (simp add: RxRecv)
  then show ?thesis
    using step free logs [of k] n unfolding RxRecv rx_recv_step [OF bal ok']
    by (cases "k = key") (auto simp: log_ok_def called_def MsgEvent_new_def split: if_splits)
next
  case (RxData key n)
  note ok' = ok [unfolded RxData]
  have n: "0 < n" using rx_ok_snoc(2) [OF ok'] by simp
  have s': "s' = count_bytes (snd (snd key), Receive) n (rx_data_after (arrived key ops) (requested key ops) key n s)"
    using rx_data_step [OF bal ok'] step unfolding RxData by simp
  have "key_of (last (posted key ops)) = key" if "posted key ops \<noteq> []"
    using keyedD [OF keyed_snoc [OF keyed], of "last (posted key ops)" key] that by simp
  then show ?thesis
    using logs [of k] logs [of key] n unfolding RxData s'
    by (cases "k = key") (auto simp: log_ok_def called_def count_bytes_def rx_data_after_def split: if_splits)
qed

lemma rx_log:
  assumes "rx_ok ops" "one_at_a_time ops" "keyed key_of ops"
  shows "\<exists>s. fold_result rx_step ops session_init = Inr s \<and> balanced ops s \<and> (\<forall>key. log_ok key_of ops s key)"
  using assms
proof (induction ops rule: rev_induct)
  case Nil
  then show ?case using rx_balanced [OF Nil(1)] by (simp add: log_ok_def called_def session_init_def)
next
  case (snoc op ops)
  have "keyed key_of ops" by (rule keyed_snoc [OF snoc.prems(3)])
  then obtain s where s: "fold_result rx_step ops session_init = Inr s" "balanced ops s" "\<forall>key. log_ok key_of ops s key"
    using snoc.IH rx_ok_snoc(1) [OF snoc.prems(1)] one_at_a_time_snoc(1) [OF snoc.prems(2)] by blast
  obtain s' where s': "rx_step op s = Inr s'" using rx_step_returns [OF s(2) snoc.prems(1)] by blast
  have "balanced (ops @ [op]) s'" by (rule rx_step_balanced [OF s(2) snoc.prems(1) s'])
  moreover have "log_ok key_of (ops @ [op]) s' key" for key
    using log_ok_step [OF s(2) snoc.prems(1) s' snoc.prems(2,3)] s(3) by blast
  ultimately show ?case using s(1) s' by (simp add: fold_result_append)
qed

section \<open>Forgotten receives\<close>

text \<open>A handler that has not been called and waits under no key but \<open>key\<close>.\<close>

definition hidden :: "'cb \<Rightarrow> msg_key option \<Rightarrow> 'cb session \<Rightarrow> bool" where
  "hidden cb except s \<longleftrightarrow>
     cb \<notin> set (hs_invoked s) \<and>
     (\<forall>k ev. hs_recv_waiting s k = Some ev \<longrightarrow> me_msg_handler ev = cb \<longrightarrow> except = Some k)"

lemma hiddenI:
  assumes "cb \<notin> set (hs_invoked s')"
    and "\<And>k ev. hs_recv_waiting s' k = Some ev \<Longrightarrow> me_msg_handler ev = cb \<Longrightarrow> except = Some k"
  shows "hidden cb except s'"
  using assms unfolding hidden_def by blast

lemma hiddenD:
  assumes "hidden cb except s"
  shows "cb \<notin> set (hs_invoked s)" "hs_recv_waiting s k = Some ev \<Longrightarrow> me_msg_handler ev = cb \<Longrightarrow> except = Some k"
  using assms unfolding hidden_def by blast+

fun posts :: "'cb rx_op \<Rightarrow> 'cb \<Rightarrow> bool" where
  "posts (RxRecv k n cb) cb' \<longleftrightarrow> cb = cb'"
| "posts (RxData k n) cb' \<longleftrightarrow> False"

text \<open>It stays hidden while its own key waits for more.\<close>

lemma hidden_step:
  assumes bal: "balanced ops s" and ok: "rx_ok (ops @ [op])" and step: "rx_step op s = Inr s'"
    and hid: "hidden cb except s" and other: "\<not> posts op cb"
    and waits: "\<And>key. except = Some key \<Longrightarrow> arrived key (ops @ [op]) < requested key (ops @ [op])"
  shows "hidden cb except s'"
proof (cases op)
  case (RxRecv key n cb')
  note s' = step [unfolded RxRecv rx_recv_step [OF bal ok [unfolded RxRecv]]]
  show ?thesis
    using s' hiddenD [OF hid] other
    by (intro hiddenI) (auto simp: RxRecv MsgEvent_new_def split: if_splits)
next
  case (RxData key n)
  note ok' = ok [unfolded RxData]
  have s': "s' = count_bytes (snd (snd key), Receive) n (rx_data_after (arrived key ops) (requested key ops) key n s)"
    using rx_data_step [OF bal ok'] step unfolding RxData by simp
  have ev: "arrived key ops < requested key ops \<Longrightarrow> \<exists>ev. hs_recv_waiting s key = Some ev"
    using balancedD [OF bal, of key] by (auto simp: balance_def)
  have "me_msg_handler (the (hs_recv_waiting s key)) \<noteq> cb"
    if "arrived key ops < requested key ops" "requested key ops \<le> arrived key ops + n"
  proof
    assume "me_msg_handler (the (hs_recv_waiting s key)) = cb"
    then have "except = Some key" using ev [OF that(1)] hiddenD(2) [OF hid] by fastforce
    then show False using waits that(2) by (simp add: RxData)
  qed
  then show ?thesis
    using hiddenD [OF hid] ev unfolding s'
    by (intro hiddenI) (auto simp: count_bytes_def rx_data_after_def not_le split: if_splits)
qed

lemma hidden_steps:
  assumes "fold_result rx_step ops2 s = Inr s'" "balanced ops s" "rx_ok (ops @ ops2)" "hidden cb except s"
    and "\<forall>op \<in> set ops2. \<not> posts op cb"
    and "\<And>key us vs. except = Some key \<Longrightarrow> ops2 = us @ vs \<Longrightarrow> us \<noteq> [] \<Longrightarrow> arrived key (ops @ us) < requested key (ops @ us)"
  shows "hidden cb except s' \<and> balanced (ops @ ops2) s'"
  using assms
proof (induction ops2 arbitrary: s ops)
  case (Cons op ops2)
  have ok: "rx_ok (ops @ [op])"
  proof -
    have "rx_ok ((ops @ [op]) @ vs) \<Longrightarrow> rx_ok (ops @ [op])" for vs
    proof (induction vs rule: rev_induct)
      case (snoc v vs)
      then show ?case using rx_ok_snoc(1) [of "(ops @ [op]) @ vs" v] by simp
    qed simp
    then show ?thesis using Cons.prems(3) by simp
  qed
  obtain s1 where s1: "rx_step op s = Inr s1" "fold_result rx_step ops2 s1 = Inr s'"
    using Cons.prems(1) by (auto simp: rbind_Inr_iff)
  have waits: "arrived key (ops @ [op]) < requested key (ops @ [op])" if "except = Some key" for key
    using Cons.prems(6) [OF that, of "[op]" ops2] by simp
  have "hidden cb except s1"
    by (rule hidden_step [OF Cons.prems(2) ok s1(1) Cons.prems(4) _ waits]) (use Cons.prems(5) in simp_all)
  moreover have "balanced (ops @ [op]) s1" by (rule rx_step_balanced [OF Cons.prems(2) ok s1(1)])
  ultimately have "hidden cb except s' \<and> balanced ((ops @ [op]) @ ops2) s'"
  proof (intro Cons.IH [OF s1(2)])
    show "rx_ok ((ops @ [op]) @ ops2)" "\<forall>op \<in> set ops2. \<not> posts op cb" using Cons.prems(3,5) by simp_all
    show "arrived key ((ops @ [op]) @ us) < requested key ((ops @ [op]) @ us)"
      if "except = Some key" "ops2 = us @ vs" "us \<noteq> []" for key us vs
      using Cons.prems(6) [OF that(1), of "op # us" vs] that(2) by simp
  qed simp_all
  then show ?case by simp
qed simp

lemma rx_ok_prefix: "rx_ok (xs @ ys) \<Longrightarrow> rx_ok xs"
proof (induction ys rule: rev_induct)
  case (snoc y ys)
  then show ?case using rx_ok_snoc(1) [of "xs @ ys" y] by simp
qed simp

lemma hidden_recv:
  assumes bal: "balanced ops s" and ok: "rx_ok (ops @ [RxRecv key n cb'])" and hid: "hidden cb except s"
    and waits: "arrived key (ops @ [RxRecv key n cb']) < requested key (ops @ [RxRecv key n cb'])"
    and except: "except \<in> {None, Some key}"
  shows "\<exists>s'. rx_step (RxRecv key n cb') s = Inr s' \<and> balanced (ops @ [RxRecv key n cb']) s' \<and>
    hidden cb (if cb' = cb then Some key else None) s'"
proof -
  obtain s' where s': "rx_step (RxRecv key n cb') s = Inr s'" using rx_step_returns [OF bal ok] by blast
  have "\<not> requested key ops + uint n \<le> arrived key ops" using waits by simp
  then have after: "hs_invoked s' = hs_invoked s"
    "hs_recv_waiting s' key = Some (MsgEvent_new (fst (snd key)) (snd (snd key)) Receive (requested key ops + uint n - arrived key ops) cb')"
    "k \<noteq> key \<Longrightarrow> hs_recv_waiting s' k = hs_recv_waiting s k" for k
    using s' [unfolded rx_recv_step [OF bal ok]] by auto
  have "hidden cb (if cb' = cb then Some key else None) s'"
  proof (rule hiddenI)
    show "cb \<notin> set (hs_invoked s')" using hiddenD(1) [OF hid] after(1) by simp
    fix k ev assume ev: "hs_recv_waiting s' k = Some ev" "me_msg_handler ev = cb"
    show "(if cb' = cb then Some key else None) = Some k"
    proof (cases "k = key")
      case True
      then show ?thesis using ev after(2) by (auto simp: MsgEvent_new_def)
    next
      case False
      then have "except = Some k" using hiddenD(2) [OF hid] ev after(3) by metis
      then show ?thesis using except False by simp
    qed
  qed
  then show ?thesis using s' rx_step_balanced [OF bal ok s'] by blast
qed

text \<open>
  \<^bold>\<open>C40\<close>. A receive is forgotten when another one with the same tag and sender is posted while it waits: whatever
  arrives later, its handler is never called.
\<close>

theorem receive_forgotten:
  assumes ops: "ops = xs @ RxRecv key n cb # ys @ RxRecv key m cb' # zs" and ok: "rx_ok ops"
    and waits: "\<And>us vs. ys = us @ vs \<Longrightarrow>
      arrived key (xs @ RxRecv key n cb # us) < requested key (xs @ RxRecv key n cb # us)"
    and other: "cb' \<noteq> cb" "\<forall>op \<in> set (xs @ ys @ zs). \<not> posts op cb"
  shows "\<exists>s. fold_result rx_step ops session_init = Inr s \<and> cb \<notin> set (hs_invoked s)"
proof -
  let ?R = "RxRecv key n cb" and ?R' = "RxRecv key m cb'"
  have prefixes: "rx_ok xs" "rx_ok (xs @ [?R])" "rx_ok ((xs @ [?R]) @ ys)" "rx_ok (((xs @ [?R]) @ ys) @ [?R'])"
    "rx_ok ((((xs @ [?R]) @ ys) @ [?R']) @ zs)"
    using ok rx_ok_prefix [of xs "?R # ys @ ?R' # zs"] rx_ok_prefix [of "xs @ [?R]" "ys @ ?R' # zs"]
      rx_ok_prefix [of "xs @ ?R # ys" "?R' # zs"] rx_ok_prefix [of "xs @ ?R # ys @ [?R']" zs] by (simp_all add: ops)
  obtain s where s: "fold_result rx_step ops session_init = Inr s" using rx_balanced [OF ok] by blast
  obtain s1 where s1: "fold_result rx_step xs session_init = Inr s1" "balanced xs s1" using rx_balanced [OF prefixes(1)] by blast
  have "hidden cb None (session_init :: 'a session)" by (simp add: hidden_def session_init_def)
  then have h1: "hidden cb None s1"
    using hidden_steps [OF s1(1), of "[]" cb None] rx_balanced [of "[] :: 'a rx_op list"] prefixes(1) other(2)
    by (simp add: rx_ok_def)
  have w: "arrived key (xs @ [?R]) < requested key (xs @ [?R])" using waits [of "[]" ys] by simp
  obtain s2 where s2: "rx_step ?R s1 = Inr s2" "balanced (xs @ [?R]) s2" "hidden cb (Some key) s2"
    using hidden_recv [OF s1(2) prefixes(2) h1 w] by auto
  have "rx_ok (xs @ ?R # ys)" using prefixes(3) by simp
  from rx_balanced [OF this] obtain s3 where "fold_result rx_step (xs @ ?R # ys) session_init = Inr s3" by blast
  then have s3: "fold_result rx_step ys s2 = Inr s3" using s1(1) s2(1) by (simp add: fold_result_append)
  have h3: "hidden cb (Some key) s3 \<and> balanced ((xs @ [?R]) @ ys) s3"
    by (rule hidden_steps [OF s3 s2(2) prefixes(3) s2(3)]) (use other(2) waits in auto)
  have "arrived key (us @ [?R']) < requested key (us @ [?R'])" if "arrived key us < requested key us" for us
  proof -
    have "arrived key (us @ [?R']) = arrived key us" "requested key (us @ [?R']) = requested key us + uint m" by simp_all
    then show ?thesis using that uint_ge_0 [of m] by linarith
  qed
  then have w': "arrived key (((xs @ [?R]) @ ys) @ [?R']) < requested key (((xs @ [?R]) @ ys) @ [?R'])"
    using waits [of ys "[]"] by fastforce
  obtain s4 where s4: "rx_step ?R' s3 = Inr s4" "balanced (((xs @ [?R]) @ ys) @ [?R']) s4" "hidden cb None s4"
    using hidden_recv [OF conjunct2 [OF h3] prefixes(4) conjunct1 [OF h3] w'] other(1) by auto
  have "fold_result rx_step zs s4 = Inr s" using s s1(1) s2(1) s3 s4(1) by (simp add: ops fold_result_append)
  moreover have "\<forall>op \<in> set zs. \<not> posts op cb" using other(2) by simp
  ultimately have "hidden cb None s \<and> balanced ((((xs @ [?R]) @ ys) @ [?R']) @ zs) s"
    by (intro hidden_steps [OF _ s4(2) prefixes(5) s4(3)]) simp_all
  then have "cb \<notin> set (hs_invoked s)" using hiddenD(1) by (elim conjE)
  then show ?thesis using s by simp
qed

lemma receive_forgotten_witness:
  "\<exists>s. fold_result rx_step [RxRecv (0, 0, 1) 1 ''first'', RxRecv (0, 0, 1) 2 ''second'', RxData (0, 0, 1) 3] session_init = Inr s \<and>
     ''first'' \<notin> set (hs_invoked s)"
proof -
  let ?ops = "[RxRecv (0, 0, 1) 1 ''first'', RxRecv (0, 0, 1) 2 ''second'', RxData (0, 0, 1) 3]"
  have "rx_ok ?ops" by (simp add: rx_ok_def requested_def arrived_def)
  then show ?thesis
    by (intro receive_forgotten [of ?ops "[]" "(0, 0, 1)" 1 "''first''" "[]" 2 "''second''" "[RxData (0, 0, 1) 3]"])
      (simp_all add: requested_def arrived_def)
qed

end
