(* ===== verification/Message_Runs.thy ===== *)
theory Message_Runs
  imports Message_Matching
begin

text \<open>
  Whole runs of the htsim and the ns-3 front end: sends, receives and the ends of flows in any order. Every
  send is called exactly once, when its flow ends; a message that has been sent and has ended counts as
  arrived, so that what the receive side promises holds for the messages themselves.
\<close>

section \<open>Runs\<close>

text \<open>Handlers of sends and of receives; those of receives carry the key they are posted under.\<close>

datatype ('s, 'r) tagged = SendCb 's | RecvCb msg_key 'r

text \<open>
  The calls on a front end: sends (sender, size, receiver, tag), receives (rank, size, sender, tag), and the
  ends of a flow at its sender and at its receiver, by the number of the flow.
\<close>

datatype ('s, 'r) fe_op =
    SendOp int u64 int int 's
  | RecvOp int u64 int int 'r
  | FinishSend nat
  | FinishRecv nat

fun htsim_step :: "bool \<Rightarrow> ('s, 'r) fe_op \<Rightarrow> ('s, 'r) tagged session \<Rightarrow> ('s, 'r) tagged session result" where
  "htsim_step conf (SendOp rank count dst tag cb) s = HTSim_sim_send rank count dst tag (SendCb cb) s"
| "htsim_step conf (RecvOp rank n src tag cb) s =
     HTSim_sim_recv record_cb rank n src tag (RecvCb (tag, src, rank) cb) s"
| "htsim_step conf (FinishSend k) s =
     (case hs_flows s ! k of (flow, flow_id) \<Rightarrow>
        flow_finish_send conf record_cb (fl_src flow) (fl_dst flow) (fl_size flow) flow_id s)"
| "htsim_step conf (FinishRecv k) s =
     (case hs_flows s ! k of (flow, flow_id) \<Rightarrow>
        flow_finish_recv conf record_cb (fl_src flow) (fl_dst flow) (fl_size flow) flow_id s)"

text \<open>In ns-3 a flow ends at both sides at once, with the port it was given.\<close>

fun ns3_step :: "nat \<Rightarrow> ('s, 'r) fe_op \<Rightarrow> ('s, 'r) tagged session \<Rightarrow> ('s, 'r) tagged session result" where
  "ns3_step w (SendOp rank count dst tag cb) s = ns3_sim_send w rank count dst tag (SendCb cb) s"
| "ns3_step w (RecvOp rank n src tag cb) s = ns3_sim_recv record_cb rank n src tag (RecvCb (tag, src, rank) cb) s"
| "ns3_step w (FinishSend k) s =
     (case hs_flows s ! k of (flow, port) \<Rightarrow>
        qp_finish record_cb port (fl_src flow) (fl_dst flow) (u64_of_int (fl_size flow)) s)"
| "ns3_step w (FinishRecv k) s = Inr s"

text \<open>The messages of a run: key, size and handler of every send, in order.\<close>

record 's msg =
  ms_key :: msg_key
  ms_size :: int
  ms_handler :: 's

fun op_msgs :: "('s, 'r) fe_op \<Rightarrow> 's msg list" where
  "op_msgs (SendOp rank count dst tag cb) =
     [\<lparr>ms_key = (tag, rank, dst), ms_size = int_of_u64 count, ms_handler = cb\<rparr>]"
| "op_msgs _ = []"

definition msgs :: "('s, 'r) fe_op list \<Rightarrow> 's msg list" where
  "msgs ops = concat (map op_msgs ops)"

text \<open>The messages that have ended at their sender, in order.\<close>

fun op_ended :: "('s, 'r) fe_op \<Rightarrow> nat list" where
  "op_ended (FinishSend k) = [k]"
| "op_ended _ = []"

fun op_ended_recv :: "('s, 'r) fe_op \<Rightarrow> nat list" where
  "op_ended_recv (FinishRecv k) = [k]"
| "op_ended_recv _ = []"

definition ended :: "('s, 'r) fe_op list \<Rightarrow> nat list" where
  "ended ops = concat (map op_ended ops)"

definition ended_recv :: "('s, 'r) fe_op list \<Rightarrow> nat list" where
  "ended_recv ops = concat (map op_ended_recv ops)"

lemma run_parts [simp]:
  "msgs [] = []" "msgs (ops @ [op]) = msgs ops @ op_msgs op"
  "ended [] = []" "ended (ops @ [op]) = ended ops @ op_ended op"
  "ended_recv [] = []" "ended_recv (ops @ [op]) = ended_recv ops @ op_ended_recv op"
  by (simp_all add: msgs_def ended_def ended_recv_def)

text \<open>The simulator ends only flows it was given, each at most once at either side.\<close>

definition simulator_ok :: "('s, 'r) fe_op list \<Rightarrow> bool" where
  "simulator_ok ops \<longleftrightarrow>
     distinct (ended ops) \<and> distinct (ended_recv ops) \<and>
     (\<forall>xs op ys. ops = xs @ op # ys \<longrightarrow> (\<forall>k \<in> set (op_ended op) \<union> set (op_ended_recv op). k < length (msgs xs)))"

lemma simulator_ok_snoc:
  assumes "simulator_ok (ops @ [op])"
  shows "simulator_ok ops" "k \<in> set (op_ended op) \<union> set (op_ended_recv op) \<Longrightarrow> k < length (msgs ops)"
    "k \<in> set (op_ended op) \<Longrightarrow> k \<notin> set (ended ops)"
proof -
  show "simulator_ok ops"
    using assms unfolding simulator_ok_def by (metis append.assoc append_Cons distinct_append run_parts(4,6))
  show "k \<in> set (op_ended op) \<union> set (op_ended_recv op) \<Longrightarrow> k < length (msgs ops)"
    using assms unfolding simulator_ok_def by blast
  show "k \<in> set (op_ended op) \<Longrightarrow> k \<notin> set (ended ops)"
    using assms unfolding simulator_ok_def by auto
qed

text \<open>The receive side of a run: with \<open>conf\<close>, messages arrive when they end at the receiver.\<close>

fun rx_of :: "bool \<Rightarrow> 's msg list \<Rightarrow> ('s, 'r) fe_op \<Rightarrow> ('s, 'r) tagged rx_op list" where
  "rx_of conf ms (SendOp rank count dst tag cb) = []"
| "rx_of conf ms (RecvOp rank n src tag cb) = [RxRecv (tag, src, rank) n (RecvCb (tag, src, rank) cb)]"
| "rx_of conf ms (FinishSend k) = (if conf then [] else [RxData (ms_key (ms ! k)) (ms_size (ms ! k))])"
| "rx_of conf ms (FinishRecv k) = (if conf then [RxData (ms_key (ms ! k)) (ms_size (ms ! k))] else [])"

fun rx_ops :: "bool \<Rightarrow> 's msg list \<Rightarrow> ('s, 'r) fe_op list \<Rightarrow> ('s, 'r) tagged rx_op list" where
  "rx_ops conf ms [] = []"
| "rx_ops conf ms (op # ops) = rx_of conf ms op @ rx_ops conf ms ops"

lemma rx_ops_append [simp]: "rx_ops conf ms (xs @ ys) = rx_ops conf ms xs @ rx_ops conf ms ys"
  by (induction xs) simp_all

text \<open>The receive side of the state, with the calls of receives only.\<close>

fun is_recv :: "('s, 'r) tagged \<Rightarrow> bool" where
  "is_recv (RecvCb key cb) = True"
| "is_recv (SendCb cb) = False"

definition rx_view :: "('s, 'r) tagged session \<Rightarrow> ('s, 'r) tagged session \<Rightarrow> bool" where
  "rx_view s t \<longleftrightarrow>
     hs_recv_waiting s = hs_recv_waiting t \<and> hs_msg_standby s = hs_msg_standby t \<and>
     filter is_recv (hs_invoked s) = hs_invoked t \<and>
     (\<forall>key ev. hs_recv_waiting s key = Some ev \<longrightarrow> is_recv (me_msg_handler ev))"

lemma rx_viewI:
  assumes "hs_recv_waiting s = hs_recv_waiting t" "hs_msg_standby s = hs_msg_standby t"
    "filter is_recv (hs_invoked s) = hs_invoked t"
    "\<And>key ev. hs_recv_waiting s key = Some ev \<Longrightarrow> is_recv (me_msg_handler ev)"
  shows "rx_view s t"
  using assms unfolding rx_view_def by blast

lemma rx_viewD:
  assumes "rx_view s t"
  shows "hs_recv_waiting t = hs_recv_waiting s" "hs_msg_standby t = hs_msg_standby s"
    "hs_invoked t = filter is_recv (hs_invoked s)"
    "hs_recv_waiting s key = Some ev \<Longrightarrow> is_recv (me_msg_handler ev)"
proof -
  show "hs_recv_waiting t = hs_recv_waiting s" "hs_msg_standby t = hs_msg_standby s"
    "hs_invoked t = filter is_recv (hs_invoked s)"
    using assms by (simp_all add: rx_view_def)
  show "hs_recv_waiting s key = Some ev \<Longrightarrow> is_recv (me_msg_handler ev)" using assms unfolding rx_view_def by blast
qed

lemma rx_view_recv:
  assumes view: "rx_view s t" and cb: "is_recv cb" and t': "HTSim_sim_recv record_cb rank n src tag cb t = Inr t'"
  shows "\<exists>s'. HTSim_sim_recv record_cb rank n src tag cb s = Inr s' \<and> rx_view s' t' \<and>
    hs_send_waiting s' = hs_send_waiting s \<and> hs_flows s' = hs_flows s \<and> hs_flow_id s' = hs_flow_id s \<and>
    hs_flow_id_to_tag s' = hs_flow_id_to_tag s \<and> hs_sender_src_port_map s' = hs_sender_src_port_map s \<and> hs_portNumber s' = hs_portNumber s \<and>
    filter (Not \<circ> is_recv) (hs_invoked s') = filter (Not \<circ> is_recv) (hs_invoked s)"
proof -
  note v = rx_viewD [OF view]
  show ?thesis
    using t' cb unfolding HTSim_sim_recv_def Let_def record_cb_def v(1,2)
    by (auto simp: v(1-3) MsgEvent_new_def intro!: rx_viewI dest: v(4) split: option.splits if_splits)
qed

lemma rx_view_data:
  assumes view: "rx_view s t" and t': "HTSim_notify_receiver_receive_data record_cb src dst n tag t = Inr t'"
  shows "\<exists>s'. HTSim_notify_receiver_receive_data record_cb src dst n tag s = Inr s' \<and> rx_view s' t' \<and>
    hs_send_waiting s' = hs_send_waiting s \<and> hs_flows s' = hs_flows s \<and> hs_flow_id s' = hs_flow_id s \<and>
    hs_flow_id_to_tag s' = hs_flow_id_to_tag s \<and> hs_sender_src_port_map s' = hs_sender_src_port_map s \<and> hs_portNumber s' = hs_portNumber s \<and>
    filter (Not \<circ> is_recv) (hs_invoked s') = filter (Not \<circ> is_recv) (hs_invoked s)"
proof -
  note v = rx_viewD [OF view]
  show ?thesis
    using t' unfolding HTSim_notify_receiver_receive_data_def Let_def record_cb_def v(1,2)
    by (auto simp: v(1-3) count_bytes_def rbind_Inr_iff intro!: rx_viewI dest: v(4) split: option.splits if_splits)
qed

section \<open>The send side\<close>

definition msg_flow :: "'s msg \<Rightarrow> FlowInfo" where
  "msg_flow m = \<lparr>fl_src = fst (snd (ms_key m)), fl_dst = snd (snd (ms_key m)), fl_size = ms_size m, fl_tag = fst (ms_key m)\<rparr>"

definition msg_event :: "'s msg \<Rightarrow> ('s, 'r) tagged MsgEvent" where
  "msg_event m = MsgEvent_new (fst (snd (ms_key m))) (snd (snd (ms_key m))) Send (ms_size m) (SendCb (ms_handler m))"

text \<open>
  The flows of the simulator are the messages; \<open>ident\<close> gives their flow ids or ports. A send waits as long
  as its message has not ended; the calls of sends are those of the ended messages.
\<close>

definition tx_inv :: "('s msg list \<Rightarrow> nat \<Rightarrow> int) \<Rightarrow> 's msg list \<Rightarrow> nat list \<Rightarrow> ('s, 'r) tagged session \<Rightarrow> bool" where
  "tx_inv ident ms es s \<longleftrightarrow>
     length (hs_flows s) = length ms \<and> (\<forall>k < length ms. hs_flows s ! k = (msg_flow (ms ! k), ident ms k)) \<and>
     (\<forall>x ev. hs_send_waiting s x = Some ev \<longleftrightarrow>
        (\<exists>k < length ms. k \<notin> set es \<and> x = (ms_key (ms ! k), ident ms k) \<and> ev = msg_event (ms ! k))) \<and>
     filter (Not \<circ> is_recv) (hs_invoked s) = map (\<lambda>k. SendCb (ms_handler (ms ! k))) es \<and>
     (\<forall>k \<in> set es. k < length ms)"

text \<open>Flows are told apart by their keys and ids.\<close>

definition idents_ok :: "('s msg list \<Rightarrow> nat \<Rightarrow> int) \<Rightarrow> 's msg list \<Rightarrow> bool" where
  "idents_ok ident ms \<longleftrightarrow>
     (\<forall>j < length ms. \<forall>k < length ms. (ms_key (ms ! j), ident ms j) = (ms_key (ms ! k), ident ms k) \<longrightarrow> j = k)"

lemma tx_invD:
  assumes "tx_inv ident ms es s"
  shows "length (hs_flows s) = length ms" "k < length ms \<Longrightarrow> hs_flows s ! k = (msg_flow (ms ! k), ident ms k)"
    "hs_send_waiting s x = Some ev \<longleftrightarrow>
      (\<exists>k < length ms. k \<notin> set es \<and> x = (ms_key (ms ! k), ident ms k) \<and> ev = msg_event (ms ! k))"
    "filter (Not \<circ> is_recv) (hs_invoked s) = map (\<lambda>k. SendCb (ms_handler (ms ! k))) es"
    "k \<in> set es \<Longrightarrow> k < length ms"
  using assms unfolding tx_inv_def by blast+

lemma tx_invI:
  assumes "length (hs_flows s) = length ms" "\<And>k. k < length ms \<Longrightarrow> hs_flows s ! k = (msg_flow (ms ! k), ident ms k)"
    and "\<And>x ev. hs_send_waiting s x = Some ev \<longleftrightarrow>
      (\<exists>k < length ms. k \<notin> set es \<and> x = (ms_key (ms ! k), ident ms k) \<and> ev = msg_event (ms ! k))"
    and "filter (Not \<circ> is_recv) (hs_invoked s) = map (\<lambda>k. SendCb (ms_handler (ms ! k))) es"
    and "\<And>k. k \<in> set es \<Longrightarrow> k < length ms"
  shows "tx_inv ident ms es s"
  using assms unfolding tx_inv_def by blast

lemma tx_frame:
  assumes "tx_inv ident ms es s" "hs_send_waiting s' = hs_send_waiting s" "hs_flows s' = hs_flows s"
    "filter (Not \<circ> is_recv) (hs_invoked s') = filter (Not \<circ> is_recv) (hs_invoked s)"
  shows "tx_inv ident ms es s'"
  using assms unfolding tx_inv_def by simp

lemma tx_send:
  assumes inv: "tx_inv ident ms es s" and ids: "idents_ok ident (ms @ [m])"
    and stable: "\<And>k. k < length ms \<Longrightarrow> ident (ms @ [m]) k = ident ms k"
    and s': "hs_flows s' = hs_flows s @ [(msg_flow m, ident (ms @ [m]) (length ms))]" "hs_invoked s' = hs_invoked s"
    "hs_send_waiting s' = (hs_send_waiting s)((ms_key m, ident (ms @ [m]) (length ms)) \<mapsto> msg_event m)"
  shows "tx_inv ident (ms @ [m]) es s'"
proof (rule tx_invI)
  note d = tx_invD [OF inv]
  let ?id = "ident (ms @ [m])"
  show "length (hs_flows s') = length (ms @ [m])" using s'(1) d(1) by simp
  show "hs_flows s' ! k = (msg_flow ((ms @ [m]) ! k), ?id k)" if "k < length (ms @ [m])" for k
    using that s'(1) d(1) d(2) [of k] stable [of k] by (cases "k = length ms") (simp_all add: nth_append)
  show "filter (Not \<circ> is_recv) (hs_invoked s') = map (\<lambda>k. SendCb (ms_handler ((ms @ [m]) ! k))) es"
    using s'(2) d(4) d(5) by (simp add: nth_append)
  show "k \<in> set es \<Longrightarrow> k < length (ms @ [m])" for k using d(5) [of k] by simp
  have fresh: "(ms_key (ms ! k), ?id k) \<noteq> (ms_key m, ?id (length ms))" if "k < length ms" for k
  proof
    assume "(ms_key (ms ! k), ?id k) = (ms_key m, ?id (length ms))"
    then have "k = length ms" using ids that unfolding idents_ok_def by (auto simp: nth_append dest!: spec [of _ k])
    then show False using that by simp
  qed
  have new: "length ms \<notin> set es" using d(5) [of "length ms"] by auto
  have split: "(\<exists>k < length (ms @ [m]). k \<notin> set es \<and> P ((ms @ [m]) ! k) (?id k)) \<longleftrightarrow>
      (\<exists>k < length ms. k \<notin> set es \<and> P (ms ! k) (ident ms k)) \<or> P m (?id (length ms))" for P
    using new stable by (simp add: Ex_less_Suc nth_append disj_commute cong: conj_cong)
  show "hs_send_waiting s' x = Some ev \<longleftrightarrow>
      (\<exists>k < length (ms @ [m]). k \<notin> set es \<and> x = (ms_key ((ms @ [m]) ! k), ?id k) \<and> ev = msg_event ((ms @ [m]) ! k))"
    for x ev
  proof -
    have "hs_send_waiting s' x = Some ev \<longleftrightarrow>
        (\<exists>k < length ms. k \<notin> set es \<and> x = (ms_key (ms ! k), ident ms k) \<and> ev = msg_event (ms ! k)) \<or>
        (x = (ms_key m, ?id (length ms)) \<and> ev = msg_event m)"
    proof (cases "x = (ms_key m, ?id (length ms))")
      case True
      then have "hs_send_waiting s' x = Some ev \<longleftrightarrow> ev = msg_event m" using s'(3) by auto
      moreover have "x \<noteq> (ms_key (ms ! k), ident ms k)" if "k < length ms" for k
        using fresh [OF that] stable [OF that] True by metis
      ultimately show ?thesis using True by blast
    next
      case False
      then show ?thesis using s'(3) d(3) [of x ev] by simp
    qed
    then show ?thesis using split [of "\<lambda>m i. x = (ms_key m, i) \<and> ev = msg_event m"] by blast
  qed
qed

lemma tx_finish:
  assumes inv: "tx_inv ident ms es s" and ids: "idents_ok ident ms" and k: "k < length ms" "k \<notin> set es"
    and s': "hs_flows s' = hs_flows s" "hs_invoked s' = hs_invoked s @ [SendCb (ms_handler (ms ! k))]"
    "hs_send_waiting s' = (hs_send_waiting s)((ms_key (ms ! k), ident ms k) := None)"
  shows "tx_inv ident ms (es @ [k]) s'"
proof (rule tx_invI)
  note d = tx_invD [OF inv]
  show "length (hs_flows s') = length ms" "\<And>j. j < length ms \<Longrightarrow> hs_flows s' ! j = (msg_flow (ms ! j), ident ms j)"
    using s'(1) d(1,2) by simp_all
  show "filter (Not \<circ> is_recv) (hs_invoked s') = map (\<lambda>k. SendCb (ms_handler (ms ! k))) (es @ [k])"
    using s'(2) d(4) by simp
  show "j \<in> set (es @ [k]) \<Longrightarrow> j < length ms" for j using d(5) k(1) by auto
  have other: "j = k" if "j < length ms" "(ms_key (ms ! j), ident ms j) = (ms_key (ms ! k), ident ms k)" for j
    using ids that k(1) unfolding idents_ok_def by blast
  show "hs_send_waiting s' x = Some ev \<longleftrightarrow>
      (\<exists>j < length ms. j \<notin> set (es @ [k]) \<and> x = (ms_key (ms ! j), ident ms j) \<and> ev = msg_event (ms ! j))"
    for x ev
  proof (cases "x = (ms_key (ms ! k), ident ms k)")
    case True
    then have "hs_send_waiting s' x = None" using s'(3) by simp
    moreover have "j = k" if "j < length ms" "x = (ms_key (ms ! j), ident ms j)" for j
      using other that True by simp
    ultimately show ?thesis by auto
  next
    case False
    then have "hs_send_waiting s' x = hs_send_waiting s x" using s'(3) by simp
    then show ?thesis using d(3) [of x ev] False by auto
  qed
qed

lemma tx_waiting:
  assumes "tx_inv ident ms es s" "k < length ms" "k \<notin> set es"
  shows "hs_send_waiting s (ms_key (ms ! k), ident ms k) = Some (msg_event (ms ! k))"
  using tx_invD(3) [OF assms(1)] assms(2,3) by blast

section \<open>Steps\<close>

lemma simulator_bound:
  assumes "simulator_ok ops" "op \<in> set ops" "k \<in> set (op_ended op) \<union> set (op_ended_recv op)"
  shows "k < length (msgs ops)"
proof -
  obtain xs ys where ops: "ops = xs @ op # ys" using assms(2) by (meson split_list)
  then have "k < length (msgs xs)" using assms(1,3) unfolding simulator_ok_def by blast
  then show ?thesis by (simp add: ops msgs_def)
qed

lemma rx_ops_stable:
  "\<forall>op \<in> set ops. \<forall>k \<in> set (op_ended op) \<union> set (op_ended_recv op). k < length ms \<Longrightarrow>
   rx_ops conf (ms @ ms') ops = rx_ops conf ms ops"
proof (induction ops)
  case (Cons op ops)
  then have "rx_of conf (ms @ ms') op = rx_of conf ms op" by (cases op) (simp_all add: nth_append)
  then show ?case using Cons by simp
qed simp

lemma rx_ops_snoc:
  assumes "simulator_ok (ops @ [op])"
  shows "rx_ops conf (msgs (ops @ [op])) (ops @ [op]) = rx_ops conf (msgs ops) ops @ rx_of conf (msgs ops) op"
proof -
  have "rx_ops conf (msgs ops @ op_msgs op) ops = rx_ops conf (msgs ops) ops"
    using simulator_bound [OF simulator_ok_snoc(1) [OF assms]] by (intro rx_ops_stable) blast
  moreover have "rx_of conf (msgs ops @ op_msgs op) op = rx_of conf (msgs ops) op"
    using simulator_ok_snoc(2) [OF assms] by (cases op) (simp_all add: nth_append)
  ultimately show ?thesis by simp
qed

definition runs_inv ::
    "bool \<Rightarrow> ('s msg list \<Rightarrow> nat \<Rightarrow> int) \<Rightarrow> ('s, 'r) fe_op list \<Rightarrow> ('s, 'r) tagged session \<Rightarrow> bool" where
  "runs_inv conf ident ops s \<longleftrightarrow>
     tx_inv ident (msgs ops) (ended ops) s \<and>
     (\<exists>t. fold_result rx_step (rx_ops conf (msgs ops) ops) session_init = Inr t \<and> rx_view s t)"

lemma runs_invD:
  assumes "runs_inv conf ident ops s"
  shows "tx_inv ident (msgs ops) (ended ops) s"
    "\<exists>t. fold_result rx_step (rx_ops conf (msgs ops) ops) session_init = Inr t \<and> rx_view s t"
  using assms unfolding runs_inv_def by blast+

lemma rx_view_frame:
  assumes "rx_view s t" "hs_recv_waiting s' = hs_recv_waiting s" "hs_msg_standby s' = hs_msg_standby s"
    "filter is_recv (hs_invoked s') = filter is_recv (hs_invoked s)"
  shows "rx_view s' t"
  using assms unfolding rx_view_def by simp

text \<open>What a step on the receive side leaves alone.\<close>

definition same_tx :: "('s, 'r) tagged session \<Rightarrow> ('s, 'r) tagged session \<Rightarrow> bool" where
  "same_tx s s' \<longleftrightarrow>
     hs_send_waiting s' = hs_send_waiting s \<and> hs_flows s' = hs_flows s \<and> hs_flow_id s' = hs_flow_id s \<and>
     hs_flow_id_to_tag s' = hs_flow_id_to_tag s \<and> hs_sender_src_port_map s' = hs_sender_src_port_map s \<and> hs_portNumber s' = hs_portNumber s \<and>
     filter (Not \<circ> is_recv) (hs_invoked s') = filter (Not \<circ> is_recv) (hs_invoked s)"

lemma same_tx_inv: "tx_inv ident ms es s \<Longrightarrow> same_tx s s' \<Longrightarrow> tx_inv ident ms es s'"
  unfolding same_tx_def by (blast intro: tx_frame)

lemma rx_simulated:
  assumes t: "fold_result rx_step ops session_init = Inr t" and view: "rx_view s t" and ok: "rx_ok (ops @ [op])"
    and cb: "\<forall>key n cb. op = RxRecv key n cb \<longrightarrow> is_recv cb"
  shows "\<exists>s' t'. rx_step op s = Inr s' \<and> fold_result rx_step (ops @ [op]) session_init = Inr t' \<and> rx_view s' t' \<and> same_tx s s'"
proof -
  have bal: "balanced ops t" using rx_balanced [OF rx_ok_snoc(1) [OF ok]] t by auto
  obtain t' where t': "rx_step op t = Inr t'" using rx_step_returns [OF bal ok] by blast
  have "\<exists>s'. rx_step op s = Inr s' \<and> rx_view s' t' \<and> same_tx s s'"
  proof (cases op)
    case (RxRecv key n cb)
    obtain tag src dst where key: "key = (tag, src, dst)" by (cases key)
    show ?thesis
      using rx_view_recv [OF view, of cb dst n src tag t'] t' cb RxRecv key unfolding same_tx_def by simp
  next
    case (RxData key n)
    obtain tag src dst where key: "key = (tag, src, dst)" by (cases key)
    show ?thesis
      using rx_view_data [OF view, of src dst n tag t'] t' RxData key unfolding same_tx_def by simp
  qed
  then show ?thesis using t t' by (simp add: fold_result_append)
qed

text \<open>A receive, and the arrival of an ended message.\<close>

lemma recv_step_ok:
  assumes inv: "runs_inv conf ident ops s" and op: "rx_of conf (msgs ops) op = [rx]" and sim: "simulator_ok (ops @ [op])"
    and ok: "rx_ok (rx_ops conf (msgs (ops @ [op])) (ops @ [op]))"
    and same: "op_msgs op = []" "op_ended op = []" and cb: "\<forall>key n cb. rx = RxRecv key n cb \<longrightarrow> is_recv cb"
  shows "\<exists>s'. rx_step rx s = Inr s' \<and> runs_inv conf ident (ops @ [op]) s' \<and> same_tx s s'"
proof -
  note snoc = rx_ops_snoc [OF sim, of conf, unfolded op]
  obtain t where t: "fold_result rx_step (rx_ops conf (msgs ops) ops) session_init = Inr t" "rx_view s t"
    using runs_invD(2) [OF inv] by blast
  obtain s' t' where s': "rx_step rx s = Inr s'" "rx_view s' t'" "same_tx s s'"
    "fold_result rx_step (rx_ops conf (msgs ops) ops @ [rx]) session_init = Inr t'"
    using rx_simulated [OF t ok [unfolded snoc] cb] by blast
  then have "runs_inv conf ident (ops @ [op]) s'"
    using same_tx_inv [OF runs_invD(1) [OF inv] s'(3)] snoc same unfolding runs_inv_def by auto
  then show ?thesis using s' by blast
qed

text \<open>The end of a message at its sender, on the send side.\<close>

lemma sender_ends:
  assumes inv: "runs_inv conf ident ops s" and ids: "idents_ok ident (msgs ops)"
    and k: "k < length (msgs ops)" "k \<notin> set (ended ops)"
  defines "m \<equiv> msgs ops ! k"
  shows "\<exists>s'. HTSim_notify_sender_sending_finished record_cb (fst (snd (ms_key m))) (snd (snd (ms_key m))) (ms_size m)
        (fst (ms_key m)) (ident (msgs ops) k) s = Inr s' \<and>
      hs_send_waiting s (ms_key m, ident (msgs ops) k) = Some (msg_event m) \<and>
      tx_inv ident (msgs ops) (ended ops @ [k]) s' \<and> (\<forall>t. rx_view s t \<longrightarrow> rx_view s' t) \<and>
      hs_flow_id s' = hs_flow_id s \<and> hs_flow_id_to_tag s' = hs_flow_id_to_tag s \<and>
      hs_sender_src_port_map s' = hs_sender_src_port_map s \<and> hs_portNumber s' = hs_portNumber s"
proof -
  have waiting: "hs_send_waiting s (ms_key m, ident (msgs ops) k) = Some (msg_event m)"
    unfolding m_def by (rule tx_waiting [OF runs_invD(1) [OF inv] k])
  define s' where "s' = (count_bytes (fst (snd (ms_key m)), Send) (ms_size m)
    (s\<lparr>hs_send_waiting := (hs_send_waiting s)((ms_key m, ident (msgs ops) k) := None)\<rparr>))\<lparr>hs_invoked := hs_invoked s @ [SendCb (ms_handler m)]\<rparr>"
  have key: "ms_key m = (fst (ms_key m), fst (snd (ms_key m)), snd (snd (ms_key m)))" by simp
  have "HTSim_notify_sender_sending_finished record_cb (fst (snd (ms_key m))) (snd (snd (ms_key m))) (ms_size m)
        (fst (ms_key m)) (ident (msgs ops) k) s = Inr s'"
    using waiting
    by (simp add: HTSim_notify_sender_sending_finished_def Let_def record_cb_def s'_def msg_event_def MsgEvent_new_def count_bytes_def)
  moreover have "tx_inv ident (msgs ops) (ended ops @ [k]) s'"
    by (rule tx_finish [OF runs_invD(1) [OF inv] ids k]) (simp_all add: s'_def m_def count_bytes_def)
  moreover have "\<forall>t. rx_view s t \<longrightarrow> rx_view s' t" by (auto simp: s'_def count_bytes_def intro: rx_view_frame)
  ultimately show ?thesis using waiting by (intro exI [of _ s']) (simp add: s'_def count_bytes_def)
qed

text \<open>The arrival at the receiver of a message that has ended at the sender.\<close>

lemma sender_then_receiver:
  assumes t: "fold_result rx_step (rx_ops conf (msgs ops) ops) session_init = Inr t" "rx_view s t"
    and tx: "tx_inv ident (msgs ops) (ended ops @ [k]) s" and sim: "simulator_ok (ops @ [FinishSend k])" and conf: "\<not> conf"
    and ok: "rx_ok (rx_ops conf (msgs (ops @ [FinishSend k])) (ops @ [FinishSend k]))"
  defines "m \<equiv> msgs ops ! k"
  shows "\<exists>s'. HTSim_notify_receiver_receive_data record_cb (fst (snd (ms_key m))) (snd (snd (ms_key m))) (ms_size m) (fst (ms_key m)) s =
      Inr s' \<and> runs_inv conf ident (ops @ [FinishSend k]) s' \<and> same_tx s s'"
proof -
  obtain tag src dst where key: "ms_key m = (tag, src, dst)" by (cases "ms_key m")
  have snoc: "rx_ops conf (msgs (ops @ [FinishSend k])) (ops @ [FinishSend k]) =
      rx_ops conf (msgs ops) ops @ [RxData (ms_key m) (ms_size m)]"
    using rx_ops_snoc [OF sim, of conf] conf by (simp add: m_def)
  obtain s' t' where s': "rx_step (RxData (ms_key m) (ms_size m)) s = Inr s'" "rx_view s' t'" "same_tx s s'"
    "fold_result rx_step (rx_ops conf (msgs ops) ops @ [RxData (ms_key m) (ms_size m)]) session_init = Inr t'"
    using rx_simulated [OF t ok [unfolded snoc]] by blast
  have "runs_inv conf ident (ops @ [FinishSend k]) s'"
    using same_tx_inv [OF tx s'(3)] snoc s'(2,4) unfolding runs_inv_def by auto
  then show ?thesis using s' by (simp add: key)
qed

section \<open>Runs of htsim\<close>

abbreviation flow_ident :: "'s msg list \<Rightarrow> nat \<Rightarrow> int" where
  "flow_ident ms k \<equiv> int k + 1"

definition htsim_inv :: "bool \<Rightarrow> ('s, 'r) fe_op list \<Rightarrow> ('s, 'r) tagged session \<Rightarrow> bool" where
  "htsim_inv conf ops s \<longleftrightarrow>
     runs_inv conf flow_ident ops s \<and> hs_flow_id s = of_nat (length (msgs ops)) \<and>
     (\<forall>k < length (msgs ops). hs_flow_id_to_tag s (int k + 1) = Some (fst (ms_key (msgs ops ! k))))"

lemma sint_of_nat_small:
  assumes "n < 2 ^ 31"
  shows "sint (of_nat n :: 32 word) = int n"
  using assms
proof (transfer fixing: n, goal_cases)
  case 1
  then have "int n < 2 ^ 31" by (metis of_nat_less_iff of_nat_numeral of_nat_power)
  then show ?case by (intro signed_take_bit_int_eq_self) auto
qed

lemma htsim_send_ok:
  assumes inv: "htsim_inv conf ops s" and sim: "simulator_ok (ops @ [SendOp rank count dst tag cb])"
    and few: "length (msgs (ops @ [SendOp rank count dst tag cb])) < 2 ^ 31"
  shows "\<exists>s'. htsim_step conf (SendOp rank count dst tag cb) s = Inr s' \<and>
    htsim_inv conf (ops @ [SendOp rank count dst tag cb]) s'"
proof -
  let ?op = "SendOp rank count dst tag cb :: ('a, 'b) fe_op"
  define m where "m = \<lparr>ms_key = (tag, rank, dst), ms_size = int_of_u64 count, ms_handler = cb\<rparr>"
  define n where "n = length (msgs ops)"
  have run: "runs_inv conf flow_ident ops s" and next_id: "hs_flow_id s = of_nat n"
    and tags: "\<forall>k < n. hs_flow_id_to_tag s (int k + 1) = Some (fst (ms_key (msgs ops ! k)))"
    using inv by (simp_all add: htsim_inv_def n_def)
  have id: "sint (hs_flow_id s + 1) = int n + 1"
    using sint_of_nat_small [of "Suc n"] few by (simp add: next_id n_def add.commute)
  obtain s' where s': "htsim_step conf ?op s = Inr s'" "hs_flows s' = hs_flows s @ [(msg_flow m, int n + 1)]"
    "hs_invoked s' = hs_invoked s" "hs_send_waiting s' = (hs_send_waiting s)((ms_key m, int n + 1) \<mapsto> msg_event m)"
    "hs_flow_id s' = of_nat n + 1" "hs_flow_id_to_tag s' = (hs_flow_id_to_tag s)(int n + 1 \<mapsto> tag)"
    "hs_recv_waiting s' = hs_recv_waiting s" "hs_msg_standby s' = hs_msg_standby s"
    using id by (simp add: HTSim_sim_send_def Let_def HTSim_send_flow_def FlowInfo_new_def m_def msg_flow_def msg_event_def next_id)
  have "idents_ok flow_ident (msgs ops @ [m])" by (simp add: idents_ok_def)
  from tx_send [OF runs_invD(1) [OF run] this] s'(2-4) have tx: "tx_inv flow_ident (msgs ops @ [m]) (ended ops) s'"
    by (simp add: n_def)
  obtain t where t: "fold_result rx_step (rx_ops conf (msgs ops) ops) session_init = Inr t" "rx_view s t"
    using runs_invD(2) [OF run] by blast
  have "rx_view s' t" using rx_view_frame [OF t(2)] s'(3,7,8) by simp
  then have "runs_inv conf flow_ident (ops @ [?op]) s'"
    using tx t(1) rx_ops_snoc [OF sim, of conf] by (simp add: runs_inv_def m_def)
  moreover have "hs_flow_id_to_tag s' (int k + 1) = Some (fst (ms_key ((msgs ops @ [m]) ! k)))" if "k < Suc n" for k
    using that tags s'(6) by (cases "k = n") (simp_all add: nth_append n_def m_def)
  ultimately have "htsim_inv conf (ops @ [?op]) s'" using s'(5) by (simp add: htsim_inv_def n_def m_def)
  then show ?thesis using s'(1) by blast
qed

lemma htsim_finish_ok:
  assumes inv: "htsim_inv conf ops s" and sim: "simulator_ok (ops @ [FinishSend k])"
    and ok: "rx_ok (rx_ops conf (msgs (ops @ [FinishSend k])) (ops @ [FinishSend k]))"
  shows "\<exists>s'. htsim_step conf (FinishSend k) s = Inr s' \<and> htsim_inv conf (ops @ [FinishSend k]) s'"
proof -
  define m where "m = msgs ops ! k"
  have k: "k < length (msgs ops)" "k \<notin> set (ended ops)" using simulator_ok_snoc(2,3) [OF sim] by simp_all
  have run: "runs_inv conf flow_ident ops s" and next_id: "hs_flow_id s = of_nat (length (msgs ops))"
    and tags: "\<forall>k < length (msgs ops). hs_flow_id_to_tag s (int k + 1) = Some (fst (ms_key (msgs ops ! k)))"
    using inv by (simp_all add: htsim_inv_def)
  have flow: "hs_flows s ! k = (msg_flow m, int k + 1)" using tx_invD(2) [OF runs_invD(1) [OF run] k(1)] by (simp add: m_def)
  have tag: "hs_flow_id_to_tag s (int k + 1) = Some (fst (ms_key m))" using tags k(1) by (simp add: m_def)
  have "idents_ok flow_ident (msgs ops)" by (simp add: idents_ok_def)
  from sender_ends [OF run this k, folded m_def] obtain s1 where s1:
    "HTSim_notify_sender_sending_finished record_cb (fst (snd (ms_key m))) (snd (snd (ms_key m))) (ms_size m) (fst (ms_key m)) (int k + 1) s = Inr s1"
    "tx_inv flow_ident (msgs ops) (ended ops @ [k]) s1" "\<forall>t. rx_view s t \<longrightarrow> rx_view s1 t"
    "hs_flow_id s1 = hs_flow_id s" "hs_flow_id_to_tag s1 = hs_flow_id_to_tag s" by blast
  obtain t where t: "fold_result rx_step (rx_ops conf (msgs ops) ops) session_init = Inr t" "rx_view s1 t"
    using runs_invD(2) [OF run] s1(3) by blast
  have step: "htsim_step conf (FinishSend k) s =
      (if \<not> conf then HTSim_notify_receiver_receive_data record_cb (fst (snd (ms_key m))) (snd (snd (ms_key m))) (ms_size m) (fst (ms_key m)) s1
       else Inr s1)"
    using flow tag s1(1) by (simp add: flow_finish_send_def flow_tag_def msg_flow_def)
  show ?thesis
  proof (cases conf)
    case True
    then have "runs_inv conf flow_ident (ops @ [FinishSend k]) s1"
      using s1(2) t rx_ops_snoc [OF sim, of conf] by (simp add: runs_inv_def)
    then show ?thesis using step True s1(4,5) next_id tags by (simp add: htsim_inv_def)
  next
    case False
    from sender_then_receiver [OF t s1(2) sim this ok, folded m_def] obtain s' where s':
      "HTSim_notify_receiver_receive_data record_cb (fst (snd (ms_key m))) (snd (snd (ms_key m))) (ms_size m) (fst (ms_key m)) s1 = Inr s'"
      "runs_inv conf flow_ident (ops @ [FinishSend k]) s'" "same_tx s1 s'" by blast
    then show ?thesis using step False s1(4,5) next_id tags by (simp add: htsim_inv_def same_tx_def)
  qed
qed

lemma htsim_finish_recv_ok:
  assumes inv: "htsim_inv conf ops s" and sim: "simulator_ok (ops @ [FinishRecv k])"
    and ok: "rx_ok (rx_ops conf (msgs (ops @ [FinishRecv k])) (ops @ [FinishRecv k]))"
  shows "\<exists>s'. htsim_step conf (FinishRecv k) s = Inr s' \<and> htsim_inv conf (ops @ [FinishRecv k]) s'"
proof -
  define m where "m = msgs ops ! k"
  obtain mtag src dst where key: "ms_key m = (mtag, src, dst)" by (cases "ms_key m")
  have k: "k < length (msgs ops)" using simulator_ok_snoc(2) [OF sim] by simp
  have run: "runs_inv conf flow_ident ops s" and next_id: "hs_flow_id s = of_nat (length (msgs ops))"
    and tags: "\<forall>k < length (msgs ops). hs_flow_id_to_tag s (int k + 1) = Some (fst (ms_key (msgs ops ! k)))"
    using inv by (simp_all add: htsim_inv_def)
  have flow: "hs_flows s ! k = (msg_flow m, int k + 1)" using tx_invD(2) [OF runs_invD(1) [OF run] k] by (simp add: m_def)
  have tag: "hs_flow_id_to_tag s (int k + 1) = Some mtag" using tags k key by (simp add: m_def)
  show ?thesis
  proof (cases conf)
    case False
    then have "htsim_inv conf (ops @ [FinishRecv k]) s"
      using inv rx_ops_snoc [OF sim, of conf] by (simp add: htsim_inv_def runs_inv_def)
    then show ?thesis using False flow by (simp add: flow_finish_recv_def)
  next
    case True
    have rx: "rx_of conf (msgs ops) (FinishRecv k) = [RxData (ms_key m) (ms_size m)]" using True by (simp add: m_def)
    from recv_step_ok [OF run rx sim ok] obtain s' where s': "rx_step (RxData (ms_key m) (ms_size m)) s = Inr s'"
      "runs_inv conf flow_ident (ops @ [FinishRecv k]) s'" "same_tx s s'" by auto
    then show ?thesis using True flow tag key next_id tags
      by (simp add: flow_finish_recv_def flow_tag_def msg_flow_def htsim_inv_def same_tx_def)
  qed
qed

lemma htsim_recv_ok:
  assumes inv: "htsim_inv conf ops s" and sim: "simulator_ok (ops @ [RecvOp rank n src tag cb])"
    and ok: "rx_ok (rx_ops conf (msgs (ops @ [RecvOp rank n src tag cb])) (ops @ [RecvOp rank n src tag cb]))"
  shows "\<exists>s'. htsim_step conf (RecvOp rank n src tag cb) s = Inr s' \<and> htsim_inv conf (ops @ [RecvOp rank n src tag cb]) s'"
proof -
  let ?op = "RecvOp rank n src tag cb :: ('a, 'b) fe_op"
  have run: "runs_inv conf flow_ident ops s" using inv by (simp add: htsim_inv_def)
  have rx: "rx_of conf (msgs ops) ?op = [RxRecv (tag, src, rank) n (RecvCb (tag, src, rank) cb)]" by simp
  from recv_step_ok [OF run rx sim ok] obtain s' where "rx_step (RxRecv (tag, src, rank) n (RecvCb (tag, src, rank) cb)) s = Inr s'"
    "runs_inv conf flow_ident (ops @ [?op]) s'" "same_tx s s'" by auto
  then show ?thesis using inv by (simp add: htsim_inv_def same_tx_def)
qed

lemma htsim_run:
  "simulator_ok ops \<Longrightarrow> rx_ok (rx_ops conf (msgs ops) ops) \<Longrightarrow> length (msgs ops) < 2 ^ 31 \<Longrightarrow>
   \<exists>s. fold_result (htsim_step conf) ops session_init = Inr s \<and> htsim_inv conf ops s"
proof (induction ops rule: rev_induct)
  case Nil
  then show ?case by (simp add: htsim_inv_def runs_inv_def tx_inv_def rx_view_def session_init_def)
next
  case (snoc op ops)
  have "rx_ok (rx_ops conf (msgs ops) ops)"
    using snoc.prems(2) rx_ok_prefix unfolding rx_ops_snoc [OF snoc.prems(1)] by blast
  then obtain s where s: "fold_result (htsim_step conf) ops session_init = Inr s" "htsim_inv conf ops s"
    using snoc.IH simulator_ok_snoc(1) [OF snoc.prems(1)] snoc.prems(3) by auto
  have "\<exists>s'. htsim_step conf op s = Inr s' \<and> htsim_inv conf (ops @ [op]) s'"
  proof (cases op)
    case SendOp
    show ?thesis using htsim_send_ok [OF s(2)] snoc.prems(1,3) unfolding SendOp by blast
  next
    case RecvOp
    show ?thesis using htsim_recv_ok [OF s(2)] snoc.prems(1,2) unfolding RecvOp by blast
  next
    case FinishSend
    show ?thesis using htsim_finish_ok [OF s(2)] snoc.prems(1,2) unfolding FinishSend by blast
  next
    case FinishRecv
    show ?thesis using htsim_finish_recv_ok [OF s(2)] snoc.prems(1,2) unfolding FinishRecv by blast
  qed
  then show ?case using s(1) by (auto simp: fold_result_append)
qed

section \<open>What has been called\<close>

fun recv_key :: "('s, 'r) tagged \<Rightarrow> msg_key" where
  "recv_key (RecvCb key cb) = key"
| "recv_key (SendCb cb) = (0, 0, 0)"

lemma keyed_rx_ops: "keyed recv_key (rx_ops conf ms ops)"
proof -
  have "recv_key cb = key" if "cb \<in> set (posted key (rx_ops conf ms ops))" for key cb
    using that
  proof (induction ops)
    case (Cons op ops)
    then show ?case by (cases op) (auto simp: posted_def split: if_splits)
  qed (simp add: posted_def)
  then show ?thesis unfolding keyed_def by blast
qed

definition recv_calls :: "msg_key \<Rightarrow> ('s, 'r) tagged list \<Rightarrow> ('s, 'r) tagged list" where
  "recv_calls key cbs = filter (\<lambda>cb. is_recv cb \<and> recv_key cb = key) cbs"

definition send_calls :: "('s, 'r) tagged list \<Rightarrow> ('s, 'r) tagged list" where
  "send_calls cbs = filter (\<lambda>cb. \<not> is_recv cb) cbs"

text \<open>What an invariant of a run says about the calls and the tables.\<close>

lemma runs_calls:
  assumes inv: "runs_inv conf ident ops s" and ok: "rx_ok (rx_ops conf (msgs ops) ops)"
  defines "rx \<equiv> rx_ops conf (msgs ops) ops"
  shows "send_calls (hs_invoked s) = map (\<lambda>k. SendCb (ms_handler (msgs ops ! k))) (ended ops)"
    "set (ended ops) = {..<length (msgs ops)} \<longrightarrow> hs_send_waiting s = Map.empty" "balanced rx s"
    "one_at_a_time rx \<longrightarrow> recv_calls key (hs_invoked s) =
      (if arrived key rx < requested key rx then butlast (posted key rx) else posted key rx)"
proof -
  note tx = runs_invD(1) [OF inv]
  obtain t where t: "fold_result rx_step rx session_init = Inr t" "rx_view s t"
    using runs_invD(2) [OF inv] unfolding rx_def by blast
  note v = rx_viewD [OF t(2)]
  show "send_calls (hs_invoked s) = map (\<lambda>k. SendCb (ms_handler (msgs ops ! k))) (ended ops)"
    using tx_invD(4) [OF tx] by (simp add: send_calls_def comp_def)
  show "set (ended ops) = {..<length (msgs ops)} \<longrightarrow> hs_send_waiting s = Map.empty"
  proof
    assume "set (ended ops) = {..<length (msgs ops)}"
    then have "hs_send_waiting s x = None" for x
      using tx_invD(3) [OF tx, of x] by (cases "hs_send_waiting s x") auto
    then show "hs_send_waiting s = Map.empty" by (rule ext)
  qed
  have "balanced rx t" using rx_balanced [of rx] ok t(1) by (auto simp: rx_def)
  then show "balanced rx s" by (simp add: balanced_def v(1,2))
  show "one_at_a_time rx \<longrightarrow> recv_calls key (hs_invoked s) =
      (if arrived key rx < requested key rx then butlast (posted key rx) else posted key rx)"
  proof
    assume "one_at_a_time rx"
    from rx_log [OF ok [folded rx_def] this, of recv_key] keyed_rx_ops t(1)
    have "log_ok recv_key rx t key" unfolding rx_def by fastforce
    moreover have "called recv_key key t = recv_calls key (hs_invoked s)"
      by (simp add: called_def recv_calls_def v(3) conj_commute)
    ultimately show "recv_calls key (hs_invoked s) =
        (if arrived key rx < requested key rx then butlast (posted key rx) else posted key rx)"
      by (simp add: log_ok_def split: if_splits)
  qed
qed

text \<open>
  The messages between a pair of nodes so far. The counters start within their width, a port fits the unsigned
  number it is read into, and no pair of nodes uses a counter up.
\<close>

definition sent_between :: "int \<times> int \<Rightarrow> 's msg list \<Rightarrow> nat" where
  "sent_between pair ms = length (filter (\<lambda>m. snd (ms_key m) = pair) ms)"

definition ports_suffice :: "nat \<Rightarrow> (int \<times> int \<Rightarrow> nat) \<Rightarrow> 's msg list \<Rightarrow> bool" where
  "ports_suffice w p0 ms \<longleftrightarrow> w \<le> 32 \<and> (\<forall>pair. p0 pair < 2 ^ w \<and> sent_between pair ms \<le> 2 ^ w)"

section \<open>Concrete runs\<close>

text \<open>A send of 5 bytes from node 0 to node 1, received in two parts.\<close>

definition two_receives :: "(string, string) fe_op list" where
  "two_receives = [SendOp 0 5 1 0 ''send'', RecvOp 1 2 0 0 ''head'', FinishSend 0, RecvOp 1 3 0 0 ''tail'']"

lemma int_of_u64_5: "int_of_u64 5 = 5"
  by (rule int_of_u64_small [of 5, simplified])

lemma demo_msgs: "msgs two_receives = [\<lparr>ms_key = (0, 0, 1), ms_size = 5, ms_handler = ''send''\<rparr>]"
  by (simp add: two_receives_def msgs_def int_of_u64_5)

lemma two_receives_ok:
  "simulator_ok two_receives" "rx_ok (rx_ops False (msgs two_receives) two_receives)" "length (msgs two_receives) < 2 ^ 31"
    "ports_suffice 16 (\<lambda>_. 10000) (msgs two_receives)"
proof -
  show "simulator_ok two_receives"
    unfolding simulator_ok_def
  proof (intro conjI allI impI)
    show "distinct (ended two_receives)" "distinct (ended_recv two_receives)" by (simp_all add: two_receives_def ended_def ended_recv_def)
    fix xs op ys assume "two_receives = xs @ op # ys"
    then show "\<forall>k \<in> set (op_ended op) \<union> set (op_ended_recv op). k < length (msgs xs)"
      by (auto simp: two_receives_def msgs_def Cons_eq_append_conv)
  qed
  show "rx_ok (rx_ops False (msgs two_receives) two_receives)"
    unfolding demo_msgs by (simp add: two_receives_def rx_ok_def requested_def arrived_def)
  show "length (msgs two_receives) < 2 ^ 31" "ports_suffice 16 (\<lambda>_. 10000) (msgs two_receives)"
    by (simp_all add: demo_msgs ports_suffice_def sent_between_def)
qed

lemma demo_one_at_a_time: "one_at_a_time (rx_ops False (msgs two_receives) two_receives)"
  unfolding demo_msgs one_at_a_time_def
  by (auto simp: two_receives_def Cons_eq_append_conv requested_def arrived_def)

lemma demo_calls:
  "posted (0, 0, 1) (rx_ops False (msgs two_receives) two_receives) = [RecvCb (0, 0, 1) ''head'', RecvCb (0, 0, 1) ''tail'']"
  "arrived (0, 0, 1) (rx_ops False (msgs two_receives) two_receives) = 5" "requested (0, 0, 1) (rx_ops False (msgs two_receives) two_receives) = 5"
  unfolding demo_msgs by (simp_all add: two_receives_def posted_def requested_def arrived_def)

section \<open>Properties\<close>

text \<open>
  \<^bold>\<open>C11\<close>. The htsim front end, for handlers that make their own calls later. Fewer than \<open>2 ^ 31\<close> messages are sent,
  and per tag, sender and receiver fewer than \<open>2 ^ 31\<close> bytes arrive and are asked for, in positive sizes; the
  simulator ends each flow it was given at most once at either side. Then, whatever the order of the calls,
  no assertion fails; every send is called exactly once, when its message ends at the sender, and nothing
  waits when all have ended. Per tag, sender and receiver the tables hold the difference between the bytes
  that have arrived and those asked for. If, moreover, no receive is posted while another one with the same
  key waits, the receives are called in order, exactly those whose bytes have arrived.
\<close>

theorem htsim_delivers:
  assumes "simulator_ok ops" "rx_ok (rx_ops conf (msgs ops) ops)" "length (msgs ops) < 2 ^ 31"
  defines "rx \<equiv> rx_ops conf (msgs ops) ops"
  shows "\<exists>s. fold_result (htsim_step conf) ops session_init = Inr s \<and>
    send_calls (hs_invoked s) = map (\<lambda>k. SendCb (ms_handler (msgs ops ! k))) (ended ops) \<and>
    (set (ended ops) = {..<length (msgs ops)} \<longrightarrow> hs_send_waiting s = Map.empty) \<and> balanced rx s \<and>
    (one_at_a_time rx \<longrightarrow> (\<forall>key. recv_calls key (hs_invoked s) =
       (if arrived key rx < requested key rx then butlast (posted key rx) else posted key rx)))"
proof -
  obtain s where s: "fold_result (htsim_step conf) ops session_init = Inr s" "htsim_inv conf ops s"
    using htsim_run [OF assms(1-3)] by blast
  then have "runs_inv conf flow_ident ops s" by (simp add: htsim_inv_def)
  note calls = runs_calls [OF this assms(2), folded rx_def]
  show ?thesis using s(1) calls by (intro exI [of _ s] conjI) simp_all
qed

lemma htsim_delivers_witness:
  "\<exists>s. fold_result (htsim_step False) two_receives session_init = Inr s \<and>
     send_calls (hs_invoked s) = [SendCb ''send''] \<and>
     recv_calls (0, 0, 1) (hs_invoked s) = [RecvCb (0, 0, 1) ''head'', RecvCb (0, 0, 1) ''tail'']"
  using htsim_delivers [OF two_receives_ok(1-3)] demo_one_at_a_time demo_calls demo_msgs
  by (auto simp: two_receives_def ended_def)

section \<open>Runs of ns-3\<close>

text \<open>The port of a message: the counter of its pair of nodes, after the earlier messages between them.\<close>

definition ns3_ident :: "nat \<Rightarrow> (int \<times> int \<Rightarrow> nat) \<Rightarrow> 's msg list \<Rightarrow> nat \<Rightarrow> int" where
  "ns3_ident w p0 ms k =
     (let pair = snd (ms_key (ms ! k)) in port_key ((p0 pair + sent_between pair (take k ms)) mod 2 ^ w))"

lemma sent_between_simps [simp]:
  "sent_between pair [] = 0" "sent_between pair (ms @ ms') = sent_between pair ms + sent_between pair ms'"
  "sent_between pair [m] = (if snd (ms_key m) = pair then 1 else 0)"
  by (simp_all add: sent_between_def)

lemma ns3_ident_stable: "k < length ms \<Longrightarrow> ns3_ident w p0 (ms @ [m]) k = ns3_ident w p0 ms k"
  by (simp add: ns3_ident_def nth_append)

lemma ports_sufficeD:
  assumes "ports_suffice w p0 ms"
  shows "w \<le> 32" "p0 pair < 2 ^ w" "sent_between pair ms \<le> 2 ^ w"
  using assms unfolding ports_suffice_def by blast+

lemma ports_suffice_prefix: "ports_suffice w p0 (ms @ ms') \<Longrightarrow> ports_suffice w p0 ms"
  unfolding ports_suffice_def by (metis add_leE sent_between_simps(2))

lemma port_key_inj:
  assumes "m < 2 ^ w" "n < 2 ^ w" "w \<le> 32" "port_key m = port_key n"
  shows "m = n"
proof -
  have "(2 :: nat) ^ w \<le> 2 ^ 32" using assms(3) by (intro power_increasing) simp_all
  then have small: "m < 2 ^ 32" "n < 2 ^ 32" using assms(1,2) by linarith+
  have "(word_of_int (sint (of_nat m :: 32 word)) :: 32 word) = word_of_int (sint (of_nat n :: 32 word))"
    using assms(4) by (simp only: port_key_def)
  then have "unat (of_nat m :: 32 word) = unat (of_nat n :: 32 word)" by simp
  then show ?thesis using small by (simp add: unat_of_nat take_bit_nat_eq_self)
qed

text \<open>Counters that start apart by less than a full round stay apart.\<close>

lemma counters_differ:
  fixes a i j :: nat
  assumes "(a + i) mod 2 ^ w = (a + j) mod 2 ^ w" "i < j" "j < i + 2 ^ w"
  shows False
proof -
  have "(2 ^ w :: nat) dvd (a + j) - (a + i)"
    using assms(1,2) by (intro mod_eq_dvd_iff_nat [THEN iffD1]) simp_all
  then have "2 ^ w dvd j - i" by simp
  then have "2 ^ w \<le> j - i" using assms(2) by (intro dvd_imp_le) simp_all
  then show False using assms(2,3) by linarith
qed

text \<open>No two messages of a pair of nodes have the same port.\<close>

lemma ns3_ports_differ:
  assumes ok: "ports_suffice w p0 ms" and jk: "j < k" "k < length ms"
    and same: "snd (ms_key (ms ! j)) = snd (ms_key (ms ! k))" "ns3_ident w p0 ms j = ns3_ident w p0 ms k"
  shows False
proof -
  define pair where "pair = snd (ms_key (ms ! k))"
  define n where "n = (\<lambda>i. sent_between pair (take i ms))"
  have upto: "sent_between pair ms = n i + (1 + sent_between pair (drop (Suc i) ms))"
    if "i < length ms" "snd (ms_key (ms ! i)) = pair" for i
  proof -
    have "sent_between pair ms = sent_between pair (take i ms @ [ms ! i] @ drop (Suc i) ms)"
      using id_take_nth_drop [OF that(1)] by simp
    then show ?thesis using that(2) unfolding sent_between_simps n_def by simp
  qed
  have "take k ms = take j ms @ [ms ! j] @ drop (Suc j) (take k ms)"
    using id_take_nth_drop [of j "take k ms"] jk by (simp add: min_def)
  then have "n k = sent_between pair (take j ms @ [ms ! j] @ drop (Suc j) (take k ms))" unfolding n_def by simp
  then have less: "n j < n k" using same(1) unfolding sent_between_simps n_def pair_def by simp
  have "sent_between pair ms = n k + (1 + sent_between pair (drop (Suc k) ms))"
    using upto [OF jk(2)] by (simp add: pair_def)
  moreover have "sent_between pair ms \<le> 2 ^ w" by (rule ports_sufficeD(3) [OF ok])
  ultimately have "n k < 2 ^ w" by linarith
  then have "n k < n j + 2 ^ w" by simp
  moreover have "port_key ((p0 pair + n j) mod 2 ^ w) = port_key ((p0 pair + n k) mod 2 ^ w)"
    using same by (simp add: ns3_ident_def pair_def n_def Let_def)
  then have "(p0 pair + n j) mod 2 ^ w = (p0 pair + n k) mod 2 ^ w"
    using ports_sufficeD(1) [OF ok] by (intro port_key_inj [of _ w]) simp_all
  ultimately show False using counters_differ less by blast
qed

lemma ns3_idents:
  assumes ok: "ports_suffice w p0 ms" and less: "j < length ms" "k < length ms"
    and same: "snd (ms_key (ms ! j)) = snd (ms_key (ms ! k))" "ns3_ident w p0 ms j = ns3_ident w p0 ms k"
  shows "j = k"
  using ns3_ports_differ [OF ok _ less(2) same] ns3_ports_differ [OF ok _ less(1) same [symmetric]]
  by (meson nat_neq_iff)

lemma ports_idents: "ports_suffice w p0 ms \<Longrightarrow> idents_ok (ns3_ident w p0) ms"
  unfolding idents_ok_def by (auto intro: ns3_idents)

definition ns3_inv ::
    "nat \<Rightarrow> (int \<times> int \<Rightarrow> nat) \<Rightarrow> ('s, 'r) fe_op list \<Rightarrow> ('s, 'r) tagged session \<Rightarrow> bool" where
  "ns3_inv w p0 ops s \<longleftrightarrow>
     runs_inv False (ns3_ident w p0) ops s \<and>
     (\<forall>pair. hs_portNumber s pair = (p0 pair + sent_between pair (msgs ops)) mod 2 ^ w) \<and>
     (\<forall>k < length (msgs ops). k \<notin> set (ended ops) \<longrightarrow>
        hs_sender_src_port_map s (ns3_ident w p0 (msgs ops) k, snd (ms_key (msgs ops ! k))) =
          Some (fst (ms_key (msgs ops ! k))))"

lemma ns3_invD:
  assumes "ns3_inv w p0 ops s"
  shows "runs_inv False (ns3_ident w p0) ops s"
    "hs_portNumber s pair = (p0 pair + sent_between pair (msgs ops)) mod 2 ^ w"
    "k < length (msgs ops) \<Longrightarrow> k \<notin> set (ended ops) \<Longrightarrow>
      hs_sender_src_port_map s (ns3_ident w p0 (msgs ops) k, snd (ms_key (msgs ops ! k))) = Some (fst (ms_key (msgs ops ! k)))"
  using assms unfolding ns3_inv_def by blast+

lemma msgs_size: "m \<in> set (msgs ops) \<Longrightarrow> \<exists>c. ms_size m = int_of_u64 c"
proof (induction ops)
  case (Cons op ops)
  then show ?case by (cases op) (auto simp: msgs_def)
qed (simp add: msgs_def)

lemma int_of_u64_again: "int_of_u64 (u64_of_int (int_of_u64 c)) = int_of_u64 c"
proof -
  have "(ucast (word_of_int (sint w) :: u64) :: 32 word) = w" for w :: "32 word"
    by transfer (simp add: take_bit_signed_take_bit)
  then show ?thesis by (simp add: int_of_u64_def u64_of_int_def)
qed

lemma ns3_send_ok:
  assumes inv: "ns3_inv w p0 ops s" and sim: "simulator_ok (ops @ [SendOp rank count dst tag cb])"
    and ports: "ports_suffice w p0 (msgs (ops @ [SendOp rank count dst tag cb]))"
  shows "\<exists>s'. ns3_step w (SendOp rank count dst tag cb) s = Inr s' \<and> ns3_inv w p0 (ops @ [SendOp rank count dst tag cb]) s'"
proof -
  let ?op = "SendOp rank count dst tag cb :: ('a, 'b) fe_op" and ?pair = "(rank, dst)"
  define m where "m = \<lparr>ms_key = (tag, rank, dst), ms_size = int_of_u64 count, ms_handler = cb\<rparr>"
  define ident where "ident = ns3_ident w p0 (msgs ops @ [m])"
  note d = ns3_invD [OF inv]
  have msgs: "msgs (ops @ [?op]) = msgs ops @ [m]" by (simp add: m_def)
  have stable: "ident k = ns3_ident w p0 (msgs ops) k" if "k < length (msgs ops)" for k
    using ns3_ident_stable [OF that] by (simp add: ident_def)
  have port: "port_key (hs_portNumber s ?pair) = ident (length (msgs ops))"
    using d(2) [of ?pair] by (simp add: ident_def ns3_ident_def m_def Let_def)
  obtain s' where s': "ns3_step w ?op s = Inr s'" "hs_flows s' = hs_flows s @ [(msg_flow m, ident (length (msgs ops)))]"
    "hs_invoked s' = hs_invoked s" "hs_send_waiting s' = (hs_send_waiting s)((ms_key m, ident (length (msgs ops))) \<mapsto> msg_event m)"
    "hs_sender_src_port_map s' = (hs_sender_src_port_map s)((ident (length (msgs ops)), ?pair) \<mapsto> tag)"
    "hs_portNumber s' = (hs_portNumber s)(?pair := (hs_portNumber s ?pair + 1) mod 2 ^ w)"
    "hs_recv_waiting s' = hs_recv_waiting s" "hs_msg_standby s' = hs_msg_standby s"
    by (simp add: ns3_sim_send_def ns3_send_flow_def m_def msg_flow_def msg_event_def Let_def port)
  have tx: "tx_inv (ns3_ident w p0) (msgs ops @ [m]) (ended ops) s'"
    using tx_send [OF runs_invD(1) [OF d(1)] ports_idents [OF ports [unfolded msgs]] ns3_ident_stable] s'(2-4)
    by (simp add: ident_def)
  obtain t where t: "fold_result rx_step (rx_ops False (msgs ops) ops) session_init = Inr t" "rx_view s t"
    using runs_invD(2) [OF d(1)] by blast
  have "rx_view s' t" using rx_view_frame [OF t(2)] s'(3,7,8) by simp
  then have "runs_inv False (ns3_ident w p0) (ops @ [?op]) s'"
    using tx t(1) rx_ops_snoc [OF sim, of False] by (simp add: runs_inv_def m_def)
  moreover have "hs_portNumber s' pair = (p0 pair + sent_between pair (msgs ops @ [m])) mod 2 ^ w" for pair
    using d(2) s'(6) by (simp add: m_def mod_Suc_eq)
  moreover have "hs_sender_src_port_map s' (ident k, snd (ms_key ((msgs ops @ [m]) ! k))) =
      Some (fst (ms_key ((msgs ops @ [m]) ! k)))" if k: "k < Suc (length (msgs ops))" "k \<notin> set (ended ops)" for k
  proof (cases "k = length (msgs ops)")
    case True
    then show ?thesis using s'(5) by (simp add: m_def)
  next
    case False
    then have less: "k < length (msgs ops)" using k(1) by simp
    have "(ident k, snd (ms_key (msgs ops ! k))) \<noteq> (ident (length (msgs ops)), ?pair)"
      using ns3_idents [OF ports [unfolded msgs], of k "length (msgs ops)"] less
      by (auto simp: ident_def nth_append m_def)
    then show ?thesis using less d(3) [OF less k(2)] s'(5) stable [OF less] by (auto simp: nth_append)
  qed
  ultimately have "ns3_inv w p0 (ops @ [?op]) s'" unfolding ns3_inv_def msgs by (simp add: ident_def)
  then show ?thesis using s'(1) by blast
qed

lemma ns3_recv_ok:
  assumes inv: "ns3_inv w p0 ops s" and sim: "simulator_ok (ops @ [RecvOp rank n src tag cb])"
    and ok: "rx_ok (rx_ops False (msgs (ops @ [RecvOp rank n src tag cb])) (ops @ [RecvOp rank n src tag cb]))"
  shows "\<exists>s'. ns3_step w (RecvOp rank n src tag cb) s = Inr s' \<and> ns3_inv w p0 (ops @ [RecvOp rank n src tag cb]) s'"
proof -
  let ?op = "RecvOp rank n src tag cb :: ('a, 'b) fe_op"
  have run: "runs_inv False (ns3_ident w p0) ops s" using inv by (simp add: ns3_inv_def)
  have rx: "rx_of False (msgs ops) ?op = [RxRecv (tag, src, rank) n (RecvCb (tag, src, rank) cb)]" by simp
  from recv_step_ok [OF run rx sim ok] obtain s' where "rx_step (RxRecv (tag, src, rank) n (RecvCb (tag, src, rank) cb)) s = Inr s'"
    "runs_inv False (ns3_ident w p0) (ops @ [?op]) s'" "same_tx s s'" by auto
  then show ?thesis using inv by (simp add: ns3_inv_def same_tx_def ns3_sim_recv_eq)
qed

lemma ns3_finish_ok:
  assumes inv: "ns3_inv w p0 ops s" and sim: "simulator_ok (ops @ [FinishSend k])" and ports: "ports_suffice w p0 (msgs ops)"
    and ok: "rx_ok (rx_ops False (msgs (ops @ [FinishSend k])) (ops @ [FinishSend k]))"
  shows "\<exists>s'. ns3_step w (FinishSend k) s = Inr s' \<and> ns3_inv w p0 (ops @ [FinishSend k]) s'"
proof -
  define m where "m = msgs ops ! k"
  define port where "port = ns3_ident w p0 (msgs ops) k"
  let ?s = "s\<lparr>hs_sender_src_port_map := (hs_sender_src_port_map s)((port, snd (ms_key m)) := None)\<rparr>"
  have k: "k < length (msgs ops)" "k \<notin> set (ended ops)" using simulator_ok_snoc(2,3) [OF sim] by simp_all
  have run: "runs_inv False (ns3_ident w p0) ops s" and tag: "hs_sender_src_port_map s (port, snd (ms_key m)) = Some (fst (ms_key m))"
    using inv k by (simp_all add: ns3_inv_def m_def port_def)
  have run': "runs_inv False (ns3_ident w p0) ops ?s" using run by (simp add: runs_inv_def tx_inv_def rx_view_def)
  have flow: "hs_flows s ! k = (msg_flow m, port)" using tx_invD(2) [OF runs_invD(1) [OF run] k(1)] by (simp add: m_def port_def)
  have size: "int_of_u64 (u64_of_int (ms_size m)) = ms_size m"
    using msgs_size [of m ops] k(1) int_of_u64_again by (auto simp: m_def)
  from sender_ends [OF run' ports_idents [OF ports] k, folded m_def port_def] obtain s1 where s1:
    "HTSim_notify_sender_sending_finished record_cb (fst (snd (ms_key m))) (snd (snd (ms_key m))) (ms_size m) (fst (ms_key m)) (port) ?s = Inr s1"
    "hs_send_waiting ?s (ms_key m, port) = Some (msg_event m)"
    "tx_inv (ns3_ident w p0) (msgs ops) (ended ops @ [k]) s1" "\<forall>t. rx_view ?s t \<longrightarrow> rx_view s1 t"
    "hs_sender_src_port_map s1 = hs_sender_src_port_map ?s"
    "hs_portNumber s1 = hs_portNumber ?s" by blast
  obtain t where t: "fold_result rx_step (rx_ops False (msgs ops) ops) session_init = Inr t" "rx_view s1 t"
    using runs_invD(2) [OF run'] s1(4) by blast
  from sender_then_receiver [OF t s1(3) sim _ ok, folded m_def] obtain s' where s':
    "HTSim_notify_receiver_receive_data record_cb (fst (snd (ms_key m))) (snd (snd (ms_key m))) (ms_size m) (fst (ms_key m)) s1 = Inr s'"
    "runs_inv False (ns3_ident w p0) (ops @ [FinishSend k]) s'" "same_tx s1 s'" by blast
  have sender: "ns3_notify_sender_sending_finished record_cb (fst (snd (ms_key m))) (snd (snd (ms_key m))) (ms_size m) (fst (ms_key m)) (port) ?s = Inr s1"
    using s1(1,2) by (simp add: ns3_notify_sender_sending_finished_def HTSim_notify_sender_sending_finished_def Let_def msg_event_def MsgEvent_new_def)
  have "ns3_step w (FinishSend k) s = Inr s'"
    using flow tag size sender s'(1) by (simp add: qp_finish_def msg_flow_def Let_def ns3_notify_receiver_eq)
  moreover have "hs_sender_src_port_map s' (ns3_ident w p0 (msgs ops) j, snd (ms_key (msgs ops ! j))) = Some (fst (ms_key (msgs ops ! j)))"
    if j: "j < length (msgs ops)" "j \<notin> set (ended ops)" "j \<noteq> k" for j
  proof -
    have "(ns3_ident w p0 (msgs ops) j, snd (ms_key (msgs ops ! j))) \<noteq> (port, snd (ms_key m))"
      using ns3_idents [OF ports j(1) k(1)] j(3) by (auto simp: m_def port_def)
    then show ?thesis using inv j(1,2) s1(5) s'(3) by (auto simp: ns3_inv_def same_tx_def)
  qed
  moreover have "hs_portNumber s' = hs_portNumber s" using s1(6) s'(3) by (simp add: same_tx_def)
  ultimately show ?thesis using s'(2) inv by (simp add: ns3_inv_def)
qed

lemma ns3_run:
  "simulator_ok ops \<Longrightarrow> rx_ok (rx_ops False (msgs ops) ops) \<Longrightarrow> ports_suffice w p0 (msgs ops) \<Longrightarrow>
   \<exists>s. fold_result (ns3_step w) ops (ns3_init p0) = Inr s \<and> ns3_inv w p0 ops s"
proof (induction ops rule: rev_induct)
  case Nil
  then show ?case
    by (simp add: ns3_inv_def runs_inv_def tx_inv_def rx_view_def ns3_init_def session_init_def ports_suffice_def)
next
  case (snoc op ops)
  have "rx_ok (rx_ops False (msgs ops) ops)"
    using snoc.prems(2) rx_ok_prefix unfolding rx_ops_snoc [OF snoc.prems(1)] by blast
  moreover have ports: "ports_suffice w p0 (msgs ops)"
    using snoc.prems(3) ports_suffice_prefix by simp
  ultimately obtain s where s: "fold_result (ns3_step w) ops (ns3_init p0) = Inr s" "ns3_inv w p0 ops s"
    using snoc.IH simulator_ok_snoc(1) [OF snoc.prems(1)] by blast
  have "\<exists>s'. ns3_step w op s = Inr s' \<and> ns3_inv w p0 (ops @ [op]) s'"
  proof (cases op)
    case SendOp
    show ?thesis using ns3_send_ok [OF s(2)] snoc.prems(1,3) unfolding SendOp by blast
  next
    case RecvOp
    show ?thesis using ns3_recv_ok [OF s(2)] snoc.prems(1,2) unfolding RecvOp by blast
  next
    case FinishSend
    show ?thesis using ns3_finish_ok [OF s(2)] ports snoc.prems(1,2) unfolding FinishSend by blast
  next
    case (FinishRecv k)
    then show ?thesis using s(2) rx_ops_snoc [OF snoc.prems(1), of False] by (simp add: ns3_inv_def runs_inv_def)
  qed
  then show ?case using s(1) by (auto simp: fold_result_append)
qed

text \<open>
  \<^bold>\<open>C39\<close>. The ns-3 front end keeps the same promises under the same bounds on bytes, when the counter of the ports
  has at most 32 bits and no pair of nodes exchanges more messages than the counter has values: the ports it
  hands out never meet, and neither a missing tag, nor a missing send, nor a different size ends the program.
  The receives are called in order if none is posted while another one with the same key waits.
\<close>

theorem ns3_delivers:
  assumes "simulator_ok ops" "rx_ok (rx_ops False (msgs ops) ops)" "ports_suffice w p0 (msgs ops)"
  defines "rx \<equiv> rx_ops False (msgs ops) ops"
  shows "\<exists>s. fold_result (ns3_step w) ops (ns3_init p0) = Inr s \<and>
    send_calls (hs_invoked s) = map (\<lambda>k. SendCb (ms_handler (msgs ops ! k))) (ended ops) \<and>
    (set (ended ops) = {..<length (msgs ops)} \<longrightarrow> hs_send_waiting s = Map.empty) \<and> balanced rx s \<and>
    (one_at_a_time rx \<longrightarrow> (\<forall>key. recv_calls key (hs_invoked s) =
       (if arrived key rx < requested key rx then butlast (posted key rx) else posted key rx)))"
proof -
  obtain s where s: "fold_result (ns3_step w) ops (ns3_init p0) = Inr s" "ns3_inv w p0 ops s"
    using ns3_run [OF assms(1-3)] by blast
  then have "runs_inv False (ns3_ident w p0) ops s" by (simp add: ns3_inv_def)
  note calls = runs_calls [OF this assms(2), folded rx_def]
  show ?thesis using s(1) calls by (intro exI [of _ s] conjI) simp_all
qed

lemma ns3_delivers_witness:
  "\<exists>s. fold_result (ns3_step 16) two_receives (ns3_init (\<lambda>_. 10000)) = Inr s \<and>
     send_calls (hs_invoked s) = [SendCb ''send''] \<and>
     recv_calls (0, 0, 1) (hs_invoked s) = [RecvCb (0, 0, 1) ''head'', RecvCb (0, 0, 1) ''tail'']"
  using ns3_delivers [OF two_receives_ok(1,2,4)] demo_one_at_a_time demo_calls demo_msgs
  by (auto simp: two_receives_def ended_def)

end
