(* ===== verification/Spec2Isabelle.thy ===== *)
theory Spec2Isabelle
  imports Collective_System Front_End Logical_Topologies Queue_Levels Usage_Tracker Stream_Stats
    Halving_Doubling Tree_Collective Generated_Phases Stream_Scheduling Memory_Bus_Runs
    Workload_Reentry Local_Memory_Usage Custom_Replay Message_Runs
begin

text \<open>
  ASTRA-sim simulates distributed training. A workload layer walks through an execution trace and issues
  computations, messages and collectives; a system layer cuts each collective into chunks and schedules
  their phases; collective algorithms exchange messages over a logical topology; and a network front end
  matches these messages with what a network simulator delivers. This development models that path,
  from the source under \<^verbatim>\<open>src/astra-sim/\<close>.

  \<^bold>\<open>Theories and the code they model.\<close>

  \<^item> \<^verbatim>\<open>Astra_Prelude\<close>: machine types, enumerations of \<^verbatim>\<open>system/Common.hh\<close>, errors as values, string
    conversions, shared lemmas.
  \<^item> Workload layer (\<^verbatim>\<open>workload/\<close>). \<^verbatim>\<open>Execution_Trace\<close>: a node of a trace. \<^verbatim>\<open>Workload_Statistics\<close>:
    \<^verbatim>\<open>Statistics.cc\<close>. \<^verbatim>\<open>Local_Memory\<close> and \<^verbatim>\<open>Local_Memory_Usage\<close>: \<^verbatim>\<open>LocalMemUsageTracker.cc\<close>.
    \<^verbatim>\<open>Workload\<close>: \<^verbatim>\<open>Workload.cc\<close>, \<^verbatim>\<open>HardwareResource.cc\<close>, \<^verbatim>\<open>system/Roofline.cc\<close>, with the invariant
    (\<^verbatim>\<open>Workload_Invariant\<close>), the runs (\<^verbatim>\<open>Workload_Runs\<close>), the tracking of memory, which only watches them
    (\<^verbatim>\<open>Workload_Tracking\<close>), what holds in them (\<^verbatim>\<open>Workload_Properties\<close>), and what happens when a workload
    is called again while it posts a receive (\<^verbatim>\<open>Workload_Reentry\<close>).
  \<^item> System layer (\<^verbatim>\<open>system/\<close>). \<^verbatim>\<open>Sys_Events\<close>: the event loop of \<^verbatim>\<open>Sys.cc\<close>. \<^verbatim>\<open>Front_End\<close>: its send and
    receive primitives and the rendezvous handshake, with \<^verbatim>\<open>SimSendCaller.cc\<close> and \<^verbatim>\<open>SimRecvCaller.cc\<close>.
    \<^verbatim>\<open>Collective_Plans\<close>: \<^verbatim>\<open>CollectiveImplLookup.cc\<close>, \<^verbatim>\<open>CollectivePlan.cc\<close>, \<^verbatim>\<open>CommunicatorGroup.cc\<close>.
    \<^verbatim>\<open>Collective_Phase\<close>: phases and streams. \<^verbatim>\<open>Offline_Greedy\<close>: the chunk scheduler.
    \<^verbatim>\<open>Collective_Generation\<close> and \<^verbatim>\<open>Generated_Phases\<close>: \<^verbatim>\<open>Sys::generate_collective\<close> and what it makes.
    \<^verbatim>\<open>Scheduler\<close>, \<^verbatim>\<open>Scheduler_Invariant\<close>, \<^verbatim>\<open>Scheduler_Runs\<close>, \<^verbatim>\<open>Scheduler_Policy\<close> and
    \<^verbatim>\<open>Stream_Scheduling\<close>: the ready list, the queues and \<^verbatim>\<open>Sys::SchedulerUnit\<close>. \<^verbatim>\<open>Memory_Bus\<close> and
    \<^verbatim>\<open>Memory_Bus_Runs\<close>: \<^verbatim>\<open>LogGP.cc\<close>, \<^verbatim>\<open>MemBus.cc\<close>, \<^verbatim>\<open>MemMovRequest.cc\<close>, \<^verbatim>\<open>PacketBundle.cc\<close>.
    \<^verbatim>\<open>Queue_Levels\<close>, \<^verbatim>\<open>Usage_Tracker\<close>, \<^verbatim>\<open>Stream_Stats\<close>: the queue allocators, the usage history, statistics
    and data sets.
  \<^item> Topologies (\<^verbatim>\<open>system/astraccl/.../logical_topology/\<close>). \<^verbatim>\<open>Ring_Topology\<close>, \<^verbatim>\<open>Binary_Tree\<close>, \<^verbatim>\<open>Tree_Shape\<close>
    and \<^verbatim>\<open>Logical_Topologies\<close>.
  \<^item> Collective algorithms (\<^verbatim>\<open>system/astraccl/\<close>). \<^verbatim>\<open>Ring_Algorithm\<close>: rings and direct collectives, and
    \<^verbatim>\<open>Collective_System\<close>, a whole group of nodes running them. \<^verbatim>\<open>Halving_Doubling\<close>. \<^verbatim>\<open>Tree_Algorithm\<close>
    and \<^verbatim>\<open>Tree_Collective\<close>: the all-reduce on a tree, one node and all of them. \<^verbatim>\<open>Custom_Replay\<close>: the
    replay of a collective from a trace.
  \<^item> Front ends (\<^verbatim>\<open>network_frontend/\<close>). \<^verbatim>\<open>Network_Frontend\<close>: chunk ids and the callback tracker of the
    analytical one. \<^verbatim>\<open>Message_Session\<close>: the sends, receives and ends of flows of the htsim and the ns-3 one
    (\<^verbatim>\<open>HTSimSession.cc\<close>, \<^verbatim>\<open>HTSimNetworkApi.cc\<close>, \<^verbatim>\<open>entry.h\<close>, \<^verbatim>\<open>AstraSimNetwork.cc\<close>), with the bytes that their
    tables balance (\<^verbatim>\<open>Message_Matching\<close>) and whole runs (\<^verbatim>\<open>Message_Runs\<close>).

  \<^bold>\<open>State and effects.\<close> A class is a record with the fields of the source, a method a function from state to
  state that keeps the order of the source. A call that leaves the modelled object is recorded in a log or
  in a list of outstanding events, and comes back as a later call; where the code may be called back in
  between, the callback is a parameter. Objects that several lists share live in a store. Every assertion,
  panic, exception and exit is a value of type \<open>error\<close>.

  \<^bold>\<open>What the lemmas show.\<close> For each component, an invariant that every operation keeps, that no error value is
  reached, and what the operations compute. Where components interact the runs are all interleavings of
  the handlers, as inductive relations or as lists of calls: ring and tree collectives neither deadlock nor
  lose messages; callbacks run exactly once; streams are neither lost nor started beyond the limits; the
  memory bus drains; the htsim and ns-3 front ends call every send, and every receive when none is posted
  while another one with its tag waits; a workload whose receives are answered by later calls respects
  dependencies and resources and notifies its end once, and one whose receives are answered inside
  \<^verbatim>\<open>sim_recv\<close> need not. The
  contracts between components are locales, interpreted on the model: \<open>cyclic_order\<close> (rings),
  \<open>ring_neighbours\<close> (what a group of nodes needs of its rings), \<open>tree_links\<close> (the same for trees),
  \<open>cyclic_allocator\<close> (queues), \<open>insertion_policy\<close> and its two extensions (the order of streams). Theorems
  named after a failure show what the code does where it does not do what it means to.

  \<^bold>\<open>Conventions and bounds.\<close> Data sizes are 64-bit words and wrap; a C++ \<^verbatim>\<open>int\<close> is an integer, because its
  overflow is undefined, and conversions between the two are written out. Ticks are natural numbers. A
  \<^verbatim>\<open>double\<close> is a rational number; a division that the source guards by nothing is an error or, for reported
  averages, only claimed for positive counters. Assertions are enabled. Loops recurse on their data; the
  three that need not end, the usage report, the cutting of a collective into chunks and the loop over the
  events of a tick, return \<open>None\<close> when they run for ever, and that they return is proved where it
  holds. No fuel is used for them.

  \<^bold>\<open>Calls inside calls.\<close> The handler of a receive runs inside \<^verbatim>\<open>sim_recv\<close> when htsim or ns-3 has its message
  already; the analytical front ends always answer by a later event. \<open>Workload_call\<close> and \<open>custom_call\<close> model
  both: a parameter \<open>arrived\<close> says which receives are answered at once, by a nested call on the state at that
  moment, after which the interrupted call goes on with what it had collected. The nesting is bounded by the
  argument \<open>depth\<close>, with no message arrived at the innermost level. Theorems on complete runs assume
  \<open>answers_later\<close> and hold for every \<open>depth\<close>; the theorems of \<^verbatim>\<open>Workload_Reentry\<close> show why they must,
  and hold for every \<open>depth\<close> above 0. The runs of the network front ends record the handlers they call: what
  a handler does to the front end is a later call of the run.

  \<^bold>\<open>Third-party code as parameters.\<close> The Chakra feeder (nodes and dependency resolver; \<open>resolver_laws\<close> states
  what its interface promises, and \<open>list_feeder\<close> satisfies it), the analytical network and its event
  queue, the htsim and ns-3 simulators (\<open>simulator_ok\<close>: they end only flows they were given, each once at
  either side; the table of port counters belongs to the ns-3 setup, so that the start and the width of the
  counters are parameters, and \<open>ports_suffice\<close> bounds the messages of a pair of nodes by the width), the remote memory, the JSON and YAML
  libraries.

  \<^bold>\<open>Not modelled.\<close> The constructor of \<^verbatim>\<open>Sys\<close>, its configuration file and the simulator main programs, which
  read options and build the objects; the start-up of the htsim and ns-3 simulators and the htsim protocol
  classes, which only call the submodules; logging, CSV output, the trace file and the heat map of the local memory tracker, which only
  present data; carriers of pointers and abstract interfaces; vendored headers under \<^verbatim>\<open>extern/\<close>.
\<close>

end
